(* ===== verification/TQ_Prelude.thy ===== *)
theory TQ_Prelude
  imports Main "HOL-Library.Word" "HOL-Library.Monad_Syntax" "HOL-Library.Signed_Division"
    "HOL-Library.Multiset"
begin

text \<open>
  Shared vocabulary of the development: checked computations, the 64-bit and 32-bit signed
  integers of C++ and the facts about truncating division that the components use.

  A computation that can end the process (a failed \<open>RTC_CHECK\<close>, or \<open>RTC_DCHECK\<close> in a build with
  \<open>RTC_DCHECK_IS_ON\<close>) or that runs into undefined behaviour of the language (signed overflow,
  division by zero) has type \<open>'a checked\<close>, with \<open>None\<close> for the failure.  A theorem that gives
  \<open>Some r\<close> therefore states that no check fails and nothing is undefined on the way to \<open>r\<close>.
\<close>

named_theorems checked_simps \<open>rewriting of checked computations that succeed\<close>
named_theorems int_ranges \<open>definitions of the ranges of the signed integer types\<close>

section \<open>Checked computations\<close>

type_synonym 'a checked = "'a option"

definition rtc_check :: "bool \<Rightarrow> unit checked" where
  "rtc_check b = (if b then Some () else None)"

lemma rtc_check_True [simp]: "rtc_check True = Some ()"
  by (simp add: rtc_check_def)

lemma rtc_check_False [simp]: "rtc_check False = None"
  by (simp add: rtc_check_def)

lemma rtc_check_eq_Some [simp]: "rtc_check b = Some u \<longleftrightarrow> b"
  by (simp add: rtc_check_def)

lemma rtc_check_eq_None [simp]: "rtc_check b = None \<longleftrightarrow> \<not> b"
  by (simp add: rtc_check_def)

lemma bind_rtc_check [checked_simps]:
  "Option.bind (rtc_check b) f = (if b then f () else None)"
  by (simp add: rtc_check_def)

lemma bind_Some_eq [checked_simps]:
  "Option.bind m f = Some r \<longleftrightarrow> (\<exists>x. m = Some x \<and> f x = Some r)"
  by (cases m) auto

section \<open>Signed integers\<close>

definition i64_max :: int where "i64_max = 9223372036854775807"

definition i64_min :: int where "i64_min = - 9223372036854775808"

definition i32_max :: int where "i32_max = 2147483647"

definition i32_min :: int where "i32_min = - 2147483648"

definition in_i64 :: "int \<Rightarrow> bool" where
  "in_i64 x \<longleftrightarrow> i64_min \<le> x \<and> x \<le> i64_max"

definition in_i32 :: "int \<Rightarrow> bool" where
  "in_i32 x \<longleftrightarrow> i32_min \<le> x \<and> x \<le> i32_max"

lemmas [int_ranges] = in_i64_def in_i32_def i64_max_def i64_min_def i32_max_def i32_min_def

text \<open>The result of an \<open>int64_t\<close> operation: its mathematical value, undefined when it overflows.\<close>

definition i64 :: "int \<Rightarrow> int checked" where
  "i64 x = (if in_i64 x then Some x else None)"

definition i64_add :: "int \<Rightarrow> int \<Rightarrow> int checked" where
  "i64_add a b = i64 (a + b)"

definition i64_sub :: "int \<Rightarrow> int \<Rightarrow> int checked" where
  "i64_sub a b = i64 (a - b)"

definition i64_mul :: "int \<Rightarrow> int \<Rightarrow> int checked" where
  "i64_mul a b = i64 (a * b)"

definition i64_div :: "int \<Rightarrow> int \<Rightarrow> int checked" where
  "i64_div a b = (if b = 0 then None else i64 (a sdiv b))"

definition i64_mod :: "int \<Rightarrow> int \<Rightarrow> int checked" where
  "i64_mod a b = (if b = 0 \<or> \<not> in_i64 (a sdiv b) then None else Some (a smod b))"

lemma i64_eq_Some [checked_simps]: "i64 x = Some y \<longleftrightarrow> in_i64 x \<and> y = x"
  by (auto simp: i64_def)

lemma i64_in [simp]: "in_i64 x \<Longrightarrow> i64 x = Some x"
  by (simp add: i64_def)

lemmas i64_ops = i64_add_def i64_sub_def i64_mul_def i64_div_def i64_mod_def

text \<open>A conversion to a narrower signed type keeps the values that fit.\<close>

lemma sint_narrow_i32: "in_i32 x \<Longrightarrow> sint (word_of_int x :: 32 word) = x"
  by (simp add: sint_sbintrunc' signed_take_bit_int_eq_self_iff int_ranges)

lemma sint_narrow_i64: "in_i64 x \<Longrightarrow> sint (word_of_int x :: 64 word) = x"
  by (simp add: sint_sbintrunc' signed_take_bit_int_eq_self_iff int_ranges)

section \<open>Truncating division\<close>

lemma sdiv_nonneg: "0 \<le> (a::int) \<Longrightarrow> 0 < b \<Longrightarrow> a sdiv b = a div b"
  by (simp add: signed_divide_int_def sgn_if abs_if)

lemma smod_nonneg: "0 \<le> (a::int) \<Longrightarrow> 0 < b \<Longrightarrow> a smod b = a mod b"
  by (auto simp: signed_modulo_int_def sgn_if abs_if)

lemma sdiv_neg: "(a::int) < 0 \<Longrightarrow> 0 < b \<Longrightarrow> a sdiv b = - ((- a) div b)"
  by (simp add: signed_divide_int_def sgn_if abs_if)

lemma sdiv_pos_cases: "0 < b \<Longrightarrow> (a::int) sdiv b = (if 0 \<le> a then a div b else - ((- a) div b))"
  by (simp add: sdiv_nonneg sdiv_neg)

lemma smod_pos_cases: "0 < b \<Longrightarrow> (a::int) smod b = (if 0 \<le> a then a mod b else - ((- a) mod b))"
  by (auto simp: signed_modulo_int_def sgn_if abs_if)

lemma div_bounds: "0 < (b::int) \<Longrightarrow> (a div b) * b \<le> a \<and> a < (a div b) * b + b"
  using pos_mod_bound[of b a] pos_mod_sign[of b a] div_mult_mod_eq[of a b] by linarith

lemma div_le_self_int: "0 \<le> (a::int) \<Longrightarrow> 0 < b \<Longrightarrow> 0 \<le> a div b \<and> a div b \<le> a"
  by (metis div_by_1 zdiv_mono2 zero_less_one int_one_le_iff_zero_less pos_imp_zdiv_nonneg_iff)

lemma in_i64_sdiv: "in_i64 a \<Longrightarrow> 0 < b \<Longrightarrow> in_i64 (a sdiv b)"
  using div_le_self_int[of a b] div_le_self_int[of "- a" b]
  by (auto simp: sdiv_pos_cases int_ranges)

section \<open>Decimal printing\<close>

text \<open>What \<open>%d\<close>, \<open>%lld\<close> and \<open>%llu\<close> of the C library print: no padding and no leading zero.\<close>

definition digit_char :: "nat \<Rightarrow> char" where
  "digit_char d = char_of (48 + d)"

definition digit_val :: "char \<Rightarrow> nat" where
  "digit_val c = of_char c - 48"

fun nat_string :: "nat \<Rightarrow> string" where
  "nat_string n = (if n < 10 then [digit_char n] else nat_string (n div 10) @ [digit_char (n mod 10)])"

declare nat_string.simps [simp del]

definition int_string :: "int \<Rightarrow> string" where
  "int_string i = (if i < 0 then CHR ''-'' # nat_string (nat (- i)) else nat_string (nat i))"

definition string_nat :: "string \<Rightarrow> nat" where
  "string_nat s = foldl (\<lambda>a c. 10 * a + digit_val c) 0 s"

definition is_digit :: "char \<Rightarrow> bool" where
  "is_digit c \<longleftrightarrow> 48 \<le> (of_char c :: nat) \<and> (of_char c :: nat) \<le> 57"

lemma digit_val_char [simp]: "d < 10 \<Longrightarrow> digit_val (digit_char d) = d"
  by (simp add: digit_char_def digit_val_def)

lemma is_digit_char [simp]: "d < 10 \<Longrightarrow> is_digit (digit_char d)"
  by (simp add: digit_char_def is_digit_def)

lemma string_nat_snoc: "string_nat (s @ [c]) = 10 * string_nat s + digit_val c"
  by (simp add: string_nat_def)

lemma string_nat_nat_string [simp]: "string_nat (nat_string n) = n"
proof (induction n rule: nat_string.induct)
  case (1 n)
  then show ?case
    by (subst nat_string.simps) (simp add: string_nat_snoc, simp add: string_nat_def)
qed

lemma nat_string_digits: "c \<in> set (nat_string n) \<Longrightarrow> is_digit c"
proof (induction n rule: nat_string.induct)
  case (1 n)
  then show ?case
    by (subst (asm) (2) nat_string.simps) (auto split: if_splits)
qed

lemma nat_string_not_Nil [simp]: "nat_string n \<noteq> []"
  by (subst nat_string.simps) simp

lemma nat_string_inj [simp]: "nat_string a = nat_string b \<longleftrightarrow> a = b"
  by (metis string_nat_nat_string)

lemma not_is_digit_minus [simp]: "\<not> is_digit (CHR ''-'')" "\<not> is_digit (CHR '' '')"
  by (simp_all add: is_digit_def)

lemma int_string_inj [simp]: "int_string a = int_string b \<longleftrightarrow> a = b"
proof -
  have "nat_string n \<noteq> CHR ''-'' # r" for n r
    using nat_string_digits[of "CHR ''-''" n] by (cases "nat_string n") auto
  then show ?thesis
    by (auto simp: int_string_def eq_nat_nat_iff) (metis)+
qed

lemma int_string_no_space: "CHR '' '' \<notin> set (int_string i)"
  using nat_string_digits[of "CHR '' ''"] by (auto simp: int_string_def)

lemma nat_string_small: "n < 10 \<Longrightarrow> nat_string n = [digit_char n]"
  by (subst nat_string.simps) simp

lemma nat_string_large: "\<not> n < 10 \<Longrightarrow> nat_string n = nat_string (n div 10) @ [digit_char (n mod 10)]"
  by (subst nat_string.simps) simp

lemma length_nat_string: "n < 10 ^ w \<Longrightarrow> 0 < w \<Longrightarrow> length (nat_string n) \<le> w"
proof (induction w arbitrary: n)
  case (Suc w)
  show ?case
  proof (cases "n < 10")
    case False
    then have "n div 10 < 10 ^ w" "0 < w"
      using Suc.prems by (auto simp: div_less_iff_less_mult mult.commute intro!: gr0I)
    then show ?thesis
      using Suc.IH [of "n div 10"] False by (simp add: nat_string_large)
  qed (simp add: nat_string_small)
qed simp

lemma below_power_length_nat_string: "n < 10 ^ length (nat_string n)"
proof (induction n rule: nat_string.induct)
  case (1 n)
  show ?case
  proof (cases "n < 10")
    case False
    then have "n div 10 < 10 ^ length (nat_string (n div 10))"
      using 1 by simp
    then show ?thesis
      using False by (simp add: nat_string_large)
  qed (simp add: nat_string_small)
qed

text \<open>Two strings split at their first blank.\<close>

lemma append_blank_inj:
  assumes "CHR '' '' \<notin> set xs" "CHR '' '' \<notin> set ys"
  shows "xs @ CHR '' '' # u = ys @ CHR '' '' # v \<longleftrightarrow> xs = ys \<and> u = v"
  using assms
proof (induction xs arbitrary: ys)
  case Nil
  then show ?case by (cases ys) auto
next
  case (Cons x xs)
  then show ?case by (cases ys) auto
qed

section \<open>Ordered maps\<close>

text \<open>\<open>std::map\<close> as the list of its entries in key order; \<open>smap_assign\<close> is \<open>m[k] = v\<close>.\<close>

fun smap_assign :: "'k::linorder \<Rightarrow> 'v \<Rightarrow> ('k \<times> 'v) list \<Rightarrow> ('k \<times> 'v) list" where
  "smap_assign k v [] = [(k, v)]"
| "smap_assign k v ((x, y) # xs) =
     (if k < x then (k, v) # (x, y) # xs
      else if k = x then (k, v) # xs
      else (x, y) # smap_assign k v xs)"

definition smap_sorted :: "('k::linorder \<times> 'v) list \<Rightarrow> bool" where
  "smap_sorted m \<longleftrightarrow> sorted_wrt (<) (map fst m)"

lemma smap_assign_set:
  "k \<notin> fst ` set m \<Longrightarrow> set (smap_assign k v m) = insert (k, v) (set m)"
  by (induction k v m rule: smap_assign.induct) auto

lemma smap_assign_keys: "fst ` set (smap_assign k v m) = insert k (fst ` set m)"
  by (induction k v m rule: smap_assign.induct) auto

lemma smap_assign_sorted: "smap_sorted m \<Longrightarrow> smap_sorted (smap_assign k v m)"
  unfolding smap_sorted_def
proof (induction k v m rule: smap_assign.induct)
  case (2 k v x y xs)
  then show ?case
    using smap_assign_keys[of k v xs] by auto
qed simp

lemma smap_assign_mset:
  "k \<notin> fst ` set m \<Longrightarrow> mset (smap_assign k v m) = add_mset (k, v) (mset m)"
  by (induction k v m rule: smap_assign.induct) auto

lemma smap_sorted_tl: "smap_sorted (e # m) \<Longrightarrow> smap_sorted m"
  by (simp add: smap_sorted_def)

lemma smap_sorted_hd: "smap_sorted (e # m) \<Longrightarrow> x \<in> set m \<Longrightarrow> fst e < fst x"
  by (auto simp: smap_sorted_def)

end
