(* ===== verification/Units.thy ===== *)
theory Units
  imports TQ_Prelude
begin

text \<open>
  The unit types: \<open>rtc_base/units/unit_base.h\<close> (\<open>UnitBase\<close> and \<open>RelativeUnit\<close>) and the five classes
  built on it in \<open>api/units\<close>.  The template parameter \<open>Unit_T\<close> is a phantom type, its static member
  \<open>one_sided\<close> an argument \<open>os\<close> of the operations that read it.  The stored \<open>int64_t\<close> is an \<open>int\<close> and
  each \<open>int64_t\<close> operation of the source is checked, so a result \<open>Some u\<close> says that no \<open>RTC_DCHECK\<close>
  fails and no signed operation overflows.  The floating-point overloads are not modelled.
\<close>

section \<open>UnitBase\<close>

datatype 'u unit_base = Unit_T (unit_value: int)

definition PlusInfinity :: "'u unit_base" where
  "PlusInfinity = Unit_T i64_max"

definition MinusInfinity :: "'u unit_base" where
  "MinusInfinity = Unit_T i64_min"

definition Zero :: "'u unit_base" where
  "Zero = Unit_T 0"

definition IsZero :: "'u unit_base \<Rightarrow> bool" where
  "IsZero u \<longleftrightarrow> unit_value u = 0"

definition IsPlusInfinity :: "'u unit_base \<Rightarrow> bool" where
  "IsPlusInfinity u \<longleftrightarrow> unit_value u = i64_max"

definition IsMinusInfinity :: "'u unit_base \<Rightarrow> bool" where
  "IsMinusInfinity u \<longleftrightarrow> unit_value u = i64_min"

definition IsInfinite :: "'u unit_base \<Rightarrow> bool" where
  "IsInfinite u \<longleftrightarrow> unit_value u = i64_max \<or> unit_value u = i64_min"

definition IsFinite :: "'u unit_base \<Rightarrow> bool" where
  "IsFinite u \<longleftrightarrow> \<not> IsInfinite u"

definition unit_le :: "'u unit_base \<Rightarrow> 'u unit_base \<Rightarrow> bool" where
  "unit_le a b \<longleftrightarrow> unit_value a \<le> unit_value b"

definition unit_less :: "'u unit_base \<Rightarrow> 'u unit_base \<Rightarrow> bool" where
  "unit_less a b \<longleftrightarrow> unit_value a < unit_value b"

instantiation unit_base :: (type) linorder
begin

definition less_eq_unit_base :: "'a unit_base \<Rightarrow> 'a unit_base \<Rightarrow> bool" where
  "less_eq_unit_base a b \<longleftrightarrow> unit_le a b"

definition less_unit_base :: "'a unit_base \<Rightarrow> 'a unit_base \<Rightarrow> bool" where
  "less_unit_base a b \<longleftrightarrow> unit_less a b"

instance
  by standard (auto simp: less_eq_unit_base_def less_unit_base_def unit_le_def unit_less_def intro: unit_base.expand)

end

definition FromValue :: "bool \<Rightarrow> int \<Rightarrow> 'u unit_base checked" where
  "FromValue os value = do {
     rtc_check (os \<longrightarrow> 0 \<le> value);
     rtc_check (i64_min < value);
     rtc_check (value < i64_max);
     Some (Unit_T value)
   }"

definition FromFraction :: "bool \<Rightarrow> int \<Rightarrow> int \<Rightarrow> 'u unit_base checked" where
  "FromFraction os denominator value = do {
     rtc_check (os \<longrightarrow> 0 \<le> value);
     lo \<leftarrow> i64_div i64_min denominator;
     rtc_check (lo < value);
     hi \<leftarrow> i64_div i64_max denominator;
     rtc_check (value < hi);
     v \<leftarrow> i64_mul value denominator;
     Some (Unit_T v)
   }"

definition ToValue :: "'u unit_base \<Rightarrow> int checked" where
  "ToValue u = do { rtc_check (IsFinite u); Some (unit_value u) }"

definition ToValueOr :: "'u unit_base \<Rightarrow> int \<Rightarrow> int" where
  "ToValueOr u fallback_value = (if IsFinite u then unit_value u else fallback_value)"

definition DivRoundPositiveToNearest :: "int \<Rightarrow> int \<Rightarrow> int checked" where
  "DivRoundPositiveToNearest n d = do {
     h \<leftarrow> i64_div d 2;
     s \<leftarrow> i64_add n h;
     i64_div s d
   }"

definition DivRoundToNearest :: "int \<Rightarrow> int \<Rightarrow> int checked" where
  "DivRoundToNearest n d = do {
     h \<leftarrow> (if 0 \<le> n then i64_div d 2 else do { m \<leftarrow> i64_sub 0 d; i64_div m 2 });
     s \<leftarrow> i64_add n h;
     i64_div s d
   }"

definition ToFraction :: "bool \<Rightarrow> int \<Rightarrow> 'u unit_base \<Rightarrow> int checked" where
  "ToFraction os denominator u = do {
     rtc_check (IsFinite u);
     if os then DivRoundPositiveToNearest (unit_value u) denominator
     else DivRoundToNearest (unit_value u) denominator
   }"

definition ToFractionOr :: "bool \<Rightarrow> int \<Rightarrow> 'u unit_base \<Rightarrow> int \<Rightarrow> int checked" where
  "ToFractionOr os denominator u fallback_value =
     (if IsFinite u
      then (if os then DivRoundPositiveToNearest (unit_value u) denominator
            else DivRoundToNearest (unit_value u) denominator)
      else Some fallback_value)"

definition ToMultiple :: "int \<Rightarrow> 'u unit_base \<Rightarrow> int checked" where
  "ToMultiple factor u = do {
     v \<leftarrow> ToValue u;
     lo \<leftarrow> i64_div i64_min factor;
     rtc_check (lo \<le> v);
     hi \<leftarrow> i64_div i64_max factor;
     rtc_check (v \<le> hi);
     i64_mul v factor
   }"

section \<open>RelativeUnit\<close>

definition Clamped :: "'u unit_base \<Rightarrow> 'u unit_base \<Rightarrow> 'u unit_base \<Rightarrow> 'u unit_base" where
  "Clamped u min_value max_value =
     (let lower = (if max_value < u then max_value else u)
      in if min_value < lower then lower else min_value)"

definition unit_add :: "bool \<Rightarrow> 'u unit_base \<Rightarrow> 'u unit_base \<Rightarrow> 'u unit_base checked" where
  "unit_add os u w =
     (if IsPlusInfinity u \<or> IsPlusInfinity w then do {
        rtc_check (\<not> IsMinusInfinity u);
        rtc_check (\<not> IsMinusInfinity w);
        Some PlusInfinity
      } else if IsMinusInfinity u \<or> IsMinusInfinity w then do {
        rtc_check (\<not> IsPlusInfinity u);
        rtc_check (\<not> IsPlusInfinity w);
        Some MinusInfinity
      } else do {
        a \<leftarrow> ToValue u;
        b \<leftarrow> ToValue w;
        s \<leftarrow> i64_add a b;
        FromValue os s
      })"

definition unit_sub :: "bool \<Rightarrow> 'u unit_base \<Rightarrow> 'u unit_base \<Rightarrow> 'u unit_base checked" where
  "unit_sub os u w =
     (if IsPlusInfinity u \<or> IsMinusInfinity w then do {
        rtc_check (\<not> IsMinusInfinity u);
        rtc_check (\<not> IsPlusInfinity w);
        Some PlusInfinity
      } else if IsMinusInfinity u \<or> IsPlusInfinity w then do {
        rtc_check (\<not> IsPlusInfinity u);
        rtc_check (\<not> IsMinusInfinity w);
        Some MinusInfinity
      } else do {
        a \<leftarrow> ToValue u;
        b \<leftarrow> ToValue w;
        s \<leftarrow> i64_sub a b;
        FromValue os s
      })"

definition unit_div_scalar :: "bool \<Rightarrow> 'u unit_base \<Rightarrow> int \<Rightarrow> 'u unit_base checked" where
  "unit_div_scalar os u scalar = do {
     a \<leftarrow> ToValue u;
     q \<leftarrow> i64_div a scalar;
     FromValue os q
   }"

definition unit_mul_scalar :: "bool \<Rightarrow> 'u unit_base \<Rightarrow> int \<Rightarrow> 'u unit_base checked" where
  "unit_mul_scalar os u scalar = do {
     a \<leftarrow> ToValue u;
     p \<leftarrow> i64_mul a scalar;
     FromValue os p
   }"

definition unit_neg :: "bool \<Rightarrow> 'u unit_base \<Rightarrow> 'u unit_base checked" where
  "unit_neg os other =
     (if IsPlusInfinity other then Some MinusInfinity
      else if IsMinusInfinity other then Some PlusInfinity
      else unit_mul_scalar os other (- 1))"

text \<open>\<open>RoundTo\<close>, \<open>RoundUpTo\<close> and \<open>RoundDownTo\<close> build a \<open>Unit_T\<close> of the quotient and multiply it by
  the resolution with the operator above.\<close>

definition RoundTo :: "bool \<Rightarrow> 'u unit_base \<Rightarrow> 'u unit_base \<Rightarrow> 'u unit_base checked" where
  "RoundTo os u resolution = do {
     rtc_check (IsFinite u);
     rtc_check (IsFinite resolution);
     rtc_check (0 < unit_value resolution);
     h \<leftarrow> i64_div (unit_value resolution) 2;
     s \<leftarrow> i64_add (unit_value u) h;
     q \<leftarrow> i64_div s (unit_value resolution);
     unit_mul_scalar os (Unit_T q) (unit_value resolution)
   }"

definition RoundUpTo :: "bool \<Rightarrow> 'u unit_base \<Rightarrow> 'u unit_base \<Rightarrow> 'u unit_base checked" where
  "RoundUpTo os u resolution = do {
     rtc_check (IsFinite u);
     rtc_check (IsFinite resolution);
     rtc_check (0 < unit_value resolution);
     s \<leftarrow> i64_add (unit_value u) (unit_value resolution);
     t \<leftarrow> i64_sub s 1;
     q \<leftarrow> i64_div t (unit_value resolution);
     unit_mul_scalar os (Unit_T q) (unit_value resolution)
   }"

definition RoundDownTo :: "bool \<Rightarrow> 'u unit_base \<Rightarrow> 'u unit_base \<Rightarrow> 'u unit_base checked" where
  "RoundDownTo os u resolution = do {
     rtc_check (IsFinite u);
     rtc_check (IsFinite resolution);
     rtc_check (0 < unit_value resolution);
     q \<leftarrow> i64_div (unit_value u) (unit_value resolution);
     unit_mul_scalar os (Unit_T q) (unit_value resolution)
   }"

section \<open>The classes of api/units\<close>

datatype time_delta_unit = TimeDelta_unit
datatype timestamp_unit = Timestamp_unit
datatype data_rate_unit = DataRate_unit
datatype data_size_unit = DataSize_unit
datatype frequency_unit = Frequency_unit

type_synonym TimeDelta = "time_delta_unit unit_base"
type_synonym Timestamp = "timestamp_unit unit_base"
type_synonym DataRate = "data_rate_unit unit_base"
type_synonym DataSize = "data_size_unit unit_base"
type_synonym Frequency = "frequency_unit unit_base"

subsection \<open>TimeDelta\<close>

definition TimeDelta_Seconds :: "int \<Rightarrow> TimeDelta checked" where
  "TimeDelta_Seconds v = FromFraction False 1000000 v"

definition TimeDelta_Minutes :: "int \<Rightarrow> TimeDelta checked" where
  "TimeDelta_Minutes v = do { s \<leftarrow> i64_mul v 60; TimeDelta_Seconds s }"

definition TimeDelta_Millis :: "int \<Rightarrow> TimeDelta checked" where
  "TimeDelta_Millis v = FromFraction False 1000 v"

definition TimeDelta_Micros :: "int \<Rightarrow> TimeDelta checked" where
  "TimeDelta_Micros v = FromValue False v"

definition td_seconds :: "TimeDelta \<Rightarrow> int checked" where
  "td_seconds d = ToFraction False 1000000 d"

definition td_ms :: "TimeDelta \<Rightarrow> int checked" where
  "td_ms d = ToFraction False 1000 d"

definition td_us :: "TimeDelta \<Rightarrow> int checked" where
  "td_us d = ToValue d"

definition td_ns :: "TimeDelta \<Rightarrow> int checked" where
  "td_ns d = ToMultiple 1000 d"

definition td_seconds_or :: "TimeDelta \<Rightarrow> int \<Rightarrow> int checked" where
  "td_seconds_or d fallback_value = ToFractionOr False 1000000 d fallback_value"

definition td_ms_or :: "TimeDelta \<Rightarrow> int \<Rightarrow> int checked" where
  "td_ms_or d fallback_value = ToFractionOr False 1000 d fallback_value"

definition td_us_or :: "TimeDelta \<Rightarrow> int \<Rightarrow> int" where
  "td_us_or d fallback_value = ToValueOr d fallback_value"

definition td_Abs :: "TimeDelta \<Rightarrow> TimeDelta checked" where
  "td_Abs d = do {
     v \<leftarrow> td_us d;
     if v < 0 then do { n \<leftarrow> i64_sub 0 v; TimeDelta_Micros n } else Some d
   }"

definition TimeDelta_ToString :: "TimeDelta \<Rightarrow> string checked" where
  "TimeDelta_ToString d =
     (if IsPlusInfinity d then Some ''+inf ms''
      else if IsMinusInfinity d then Some ''-inf ms''
      else do {
        us \<leftarrow> td_us d;
        r \<leftarrow> i64_mod us 1000;
        if us = 0 \<or> r \<noteq> 0 then Some (int_string us @ '' us'')
        else do {
          ms \<leftarrow> td_ms d;
          q \<leftarrow> i64_mod ms 1000;
          if q \<noteq> 0 then Some (int_string ms @ '' ms'')
          else do { sec \<leftarrow> td_seconds d; Some (int_string sec @ '' s'') }
        }
      })"

subsection \<open>Timestamp\<close>

definition Timestamp_Seconds :: "int \<Rightarrow> Timestamp checked" where
  "Timestamp_Seconds v = FromFraction True 1000000 v"

definition Timestamp_Millis :: "int \<Rightarrow> Timestamp checked" where
  "Timestamp_Millis v = FromFraction True 1000 v"

definition Timestamp_Micros :: "int \<Rightarrow> Timestamp checked" where
  "Timestamp_Micros v = FromValue True v"

definition ts_seconds :: "Timestamp \<Rightarrow> int checked" where
  "ts_seconds t = ToFraction True 1000000 t"

definition ts_ms :: "Timestamp \<Rightarrow> int checked" where
  "ts_ms t = ToFraction True 1000 t"

definition ts_us :: "Timestamp \<Rightarrow> int checked" where
  "ts_us t = ToValue t"

definition ts_plus_delta :: "Timestamp \<Rightarrow> TimeDelta \<Rightarrow> Timestamp checked" where
  "ts_plus_delta t delta =
     (if IsPlusInfinity t \<or> IsPlusInfinity delta then do {
        rtc_check (\<not> IsMinusInfinity t);
        rtc_check (\<not> IsMinusInfinity delta);
        Some PlusInfinity
      } else if IsMinusInfinity t \<or> IsMinusInfinity delta then do {
        rtc_check (\<not> IsPlusInfinity t);
        rtc_check (\<not> IsPlusInfinity delta);
        Some MinusInfinity
      } else do {
        a \<leftarrow> ts_us t;
        b \<leftarrow> td_us delta;
        s \<leftarrow> i64_add a b;
        Timestamp_Micros s
      })"

definition ts_minus_delta :: "Timestamp \<Rightarrow> TimeDelta \<Rightarrow> Timestamp checked" where
  "ts_minus_delta t delta =
     (if IsPlusInfinity t \<or> IsMinusInfinity delta then do {
        rtc_check (\<not> IsMinusInfinity t);
        rtc_check (\<not> IsPlusInfinity delta);
        Some PlusInfinity
      } else if IsMinusInfinity t \<or> IsPlusInfinity delta then do {
        rtc_check (\<not> IsPlusInfinity t);
        rtc_check (\<not> IsMinusInfinity delta);
        Some MinusInfinity
      } else do {
        a \<leftarrow> ts_us t;
        b \<leftarrow> td_us delta;
        s \<leftarrow> i64_sub a b;
        Timestamp_Micros s
      })"

definition ts_diff :: "Timestamp \<Rightarrow> Timestamp \<Rightarrow> TimeDelta checked" where
  "ts_diff t other =
     (if IsPlusInfinity t \<or> IsMinusInfinity other then do {
        rtc_check (\<not> IsMinusInfinity t);
        rtc_check (\<not> IsPlusInfinity other);
        Some PlusInfinity
      } else if IsMinusInfinity t \<or> IsPlusInfinity other then do {
        rtc_check (\<not> IsPlusInfinity t);
        rtc_check (\<not> IsMinusInfinity other);
        Some MinusInfinity
      } else do {
        a \<leftarrow> ts_us t;
        b \<leftarrow> ts_us other;
        s \<leftarrow> i64_sub a b;
        TimeDelta_Micros s
      })"

subsection \<open>DataSize, DataRate, Frequency\<close>

definition DataSize_Bytes :: "int \<Rightarrow> DataSize checked" where
  "DataSize_Bytes v = FromValue True v"

definition ds_bytes :: "DataSize \<Rightarrow> int checked" where
  "ds_bytes s = ToValue s"

definition DataSize_ToString :: "DataSize \<Rightarrow> string checked" where
  "DataSize_ToString v =
     (if IsPlusInfinity v then Some ''+inf bytes''
      else if IsMinusInfinity v then Some ''-inf bytes''
      else do { b \<leftarrow> ds_bytes v; Some (int_string b @ '' bytes'') })"

definition DataRate_BitsPerSec :: "int \<Rightarrow> DataRate checked" where
  "DataRate_BitsPerSec v = FromValue True v"

definition DataRate_BytesPerSec :: "int \<Rightarrow> DataRate checked" where
  "DataRate_BytesPerSec v = FromFraction True 8 v"

definition DataRate_KilobitsPerSec :: "int \<Rightarrow> DataRate checked" where
  "DataRate_KilobitsPerSec v = FromFraction True 1000 v"

definition dr_bps :: "DataRate \<Rightarrow> int checked" where
  "dr_bps r = ToValue r"

definition dr_bytes_per_sec :: "DataRate \<Rightarrow> int checked" where
  "dr_bytes_per_sec r = ToFraction True 8 r"

definition dr_kbps :: "DataRate \<Rightarrow> int checked" where
  "dr_kbps r = ToFraction True 1000 r"

definition DataRate_ToString :: "DataRate \<Rightarrow> string checked" where
  "DataRate_ToString v =
     (if IsPlusInfinity v then Some ''+inf bps''
      else if IsMinusInfinity v then Some ''-inf bps''
      else do {
        b \<leftarrow> dr_bps v;
        r \<leftarrow> i64_mod b 1000;
        if b = 0 \<or> r \<noteq> 0 then Some (int_string b @ '' bps'')
        else do { k \<leftarrow> dr_kbps v; Some (int_string k @ '' kbps'') }
      })"

definition Frequency_MilliHertz :: "int \<Rightarrow> Frequency checked" where
  "Frequency_MilliHertz v = FromValue True v"

definition Frequency_Hertz :: "int \<Rightarrow> Frequency checked" where
  "Frequency_Hertz v = FromFraction True 1000 v"

definition Frequency_KiloHertz :: "int \<Rightarrow> Frequency checked" where
  "Frequency_KiloHertz v = FromFraction True 1000000 v"

definition fr_hertz :: "Frequency \<Rightarrow> int checked" where
  "fr_hertz f = ToFraction True 1000 f"

definition fr_millihertz :: "Frequency \<Rightarrow> int checked" where
  "fr_millihertz f = ToValue f"

definition Microbits :: "DataSize \<Rightarrow> int checked" where
  "Microbits sz = do {
     b \<leftarrow> ds_bytes sz;
     kMaxBeforeConversion \<leftarrow> i64_div i64_max 8000000;
     rtc_check (b \<le> kMaxBeforeConversion);
     i64_mul b 8000000
   }"

definition MillibytePerSec :: "DataRate \<Rightarrow> int checked" where
  "MillibytePerSec rate = do {
     b \<leftarrow> dr_bps rate;
     kMaxBeforeConversion \<leftarrow> i64_div i64_max 125;
     rtc_check (b \<le> kMaxBeforeConversion);
     i64_mul b 125
   }"

definition size_div_duration :: "DataSize \<Rightarrow> TimeDelta \<Rightarrow> DataRate checked" where
  "size_div_duration sz duration = do {
     m \<leftarrow> Microbits sz;
     u \<leftarrow> td_us duration;
     q \<leftarrow> i64_div m u;
     DataRate_BitsPerSec q
   }"

definition size_div_rate :: "DataSize \<Rightarrow> DataRate \<Rightarrow> TimeDelta checked" where
  "size_div_rate sz rate = do {
     m \<leftarrow> Microbits sz;
     b \<leftarrow> dr_bps rate;
     q \<leftarrow> i64_div m b;
     TimeDelta_Micros q
   }"

definition rate_mul_duration :: "DataRate \<Rightarrow> TimeDelta \<Rightarrow> DataSize checked" where
  "rate_mul_duration rate duration = do {
     b \<leftarrow> dr_bps rate;
     u \<leftarrow> td_us duration;
     microbits \<leftarrow> i64_mul b u;
     s \<leftarrow> i64_add microbits 4000000;
     q \<leftarrow> i64_div s 8000000;
     DataSize_Bytes q
   }"

definition rate_div_frequency :: "DataRate \<Rightarrow> Frequency \<Rightarrow> DataSize checked" where
  "rate_div_frequency rate frequency = do {
     millihertz \<leftarrow> fr_millihertz frequency;
     m \<leftarrow> MillibytePerSec rate;
     q \<leftarrow> i64_div m millihertz;
     DataSize_Bytes q
   }"

definition rate_div_size :: "DataRate \<Rightarrow> DataSize \<Rightarrow> Frequency checked" where
  "rate_div_size rate sz = do {
     m \<leftarrow> MillibytePerSec rate;
     b \<leftarrow> ds_bytes sz;
     q \<leftarrow> i64_div m b;
     Frequency_MilliHertz q
   }"

definition size_mul_frequency :: "DataSize \<Rightarrow> Frequency \<Rightarrow> DataRate checked" where
  "size_mul_frequency sz frequency = do {
     (if IsZero frequency then Some ()
      else do {
        b \<leftarrow> ds_bytes sz;
        mh \<leftarrow> fr_millihertz frequency;
        m8 \<leftarrow> i64_div i64_max 8;
        bound \<leftarrow> i64_div m8 mh;
        rtc_check (b \<le> bound)
      });
     b \<leftarrow> ds_bytes sz;
     b8 \<leftarrow> i64_mul b 8;
     mh \<leftarrow> fr_millihertz frequency;
     millibits_per_second \<leftarrow> i64_mul b8 mh;
     s \<leftarrow> i64_add millibits_per_second 500;
     q \<leftarrow> i64_div s 1000;
     DataRate_BitsPerSec q
   }"

definition nominator_div_interval :: "int \<Rightarrow> TimeDelta \<Rightarrow> Frequency checked" where
  "nominator_div_interval nominator interval = do {
     bound \<leftarrow> i64_div i64_max 1000000000;
     rtc_check (nominator \<le> bound);
     rtc_check (IsFinite interval);
     rtc_check (\<not> IsZero interval);
     p \<leftarrow> i64_mul nominator 1000000000;
     u \<leftarrow> td_us interval;
     q \<leftarrow> i64_div p u;
     Frequency_MilliHertz q
   }"

definition nominator_div_frequency :: "int \<Rightarrow> Frequency \<Rightarrow> TimeDelta checked" where
  "nominator_div_frequency nominator frequency = do {
     bound \<leftarrow> i64_div i64_max 1000000000;
     rtc_check (nominator \<le> bound);
     rtc_check (IsFinite frequency);
     rtc_check (\<not> IsZero frequency);
     p \<leftarrow> i64_mul nominator 1000000000;
     m \<leftarrow> fr_millihertz frequency;
     q \<leftarrow> i64_div p m;
     TimeDelta_Micros q
   }"

section \<open>Facts about the units\<close>

lemmas unit_tests = IsFinite_def IsInfinite_def IsPlusInfinity_def IsMinusInfinity_def IsZero_def
  PlusInfinity_def MinusInfinity_def Zero_def

lemma FromValue_eq_Some [checked_simps]:
  "FromValue os v = Some u \<longleftrightarrow> (os \<longrightarrow> 0 \<le> v) \<and> i64_min < v \<and> v < i64_max \<and> u = Unit_T v"
  by (auto simp: FromValue_def checked_simps)

lemma ToValue_eq_Some [checked_simps]: "ToValue u = Some v \<longleftrightarrow> IsFinite u \<and> v = unit_value u"
  by (auto simp: ToValue_def checked_simps)

lemma finite_strict: "IsFinite u \<Longrightarrow> in_i64 (unit_value u) \<Longrightarrow> i64_min < unit_value u \<and> unit_value u < i64_max"
  by (auto simp: unit_tests in_i64_def)

lemma i64_div_pos [simp]: "0 < b \<Longrightarrow> in_i64 a \<Longrightarrow> i64_div a b = Some (a sdiv b)"
  by (simp add: i64_div_def in_i64_sdiv)

lemma round_half_error:
  assumes "0 < (d::int)"
  shows "2 * \<bar>(n + d div 2) div d * d - n\<bar> \<le> d"
proof -
  have gen: "m \<le> n + h \<Longrightarrow> n + h < m + d \<Longrightarrow> 2 * h \<le> d \<Longrightarrow> d - 1 \<le> 2 * h \<Longrightarrow> 2 * \<bar>m - n\<bar> \<le> d"
    for m h :: int by (cases "n \<le> m") (simp_all add: abs_if)
  have "2 * (d div 2) \<le> d" "d - 1 \<le> 2 * (d div 2)"
    by linarith+
  then show ?thesis
    using div_bounds[OF assms, of "n + d div 2"] by (intro gen) auto
qed

lemma DivRoundToNearest_error:
  assumes "DivRoundToNearest n d = Some q" and d: "0 < d"
  shows "2 * \<bar>q * d - n\<bar> \<le> d"
proof (cases "0 \<le> n")
  case True
  then have q: "q = (n + d div 2) div d"
    using assms by (auto simp: DivRoundToNearest_def i64_ops checked_simps sdiv_nonneg)
  then show ?thesis
    using round_half_error[OF d] by simp
next
  case False
  let ?a = "- n + d div 2"
  have "(- d) sdiv 2 = - (d div 2)"
    using d by (simp add: sdiv_nonneg)
  then have q: "q = - (?a div d)"
    using False assms by (auto simp: DivRoundToNearest_def i64_ops checked_simps sdiv_neg)
  then have "\<bar>q * d - n\<bar> = \<bar>?a div d * d - (- n)\<bar>"
    by simp
  then show ?thesis
    using round_half_error[OF d, of "- n"] by simp
qed

lemma DivRoundToNearest_Some:
  assumes "0 < d" "d \<le> i64_max" "in_i64 n" "\<bar>n\<bar> + d div 2 \<le> i64_max"
  shows "\<exists>q. DivRoundToNearest n d = Some q"
proof -
  have "0 \<le> d div 2" "d div 2 \<le> d"
    using assms div_le_self_int[of d 2] by auto
  then have "in_i64 (n + d div 2)" "in_i64 (n - d div 2)" "in_i64 d" "in_i64 (- d)"
    using assms by (auto simp: int_ranges abs_if split: if_splits)
  then show ?thesis
    using assms by (simp add: DivRoundToNearest_def i64_add_def i64_sub_def sdiv_nonneg sdiv_neg)
qed

lemma DivRound_exact:
  assumes "n = k * d" "0 < d" "d \<le> i64_max" "in_i64 n" "\<bar>n\<bar> + d div 2 \<le> i64_max"
  shows "DivRoundToNearest n d = Some k"
proof -
  obtain q where q: "DivRoundToNearest n d = Some q"
    using DivRoundToNearest_Some assms by blast
  have "2 * (\<bar>q - k\<bar> * d) \<le> d"
    using DivRoundToNearest_error[OF q] assms
    by (simp add: left_diff_distrib[symmetric] abs_mult)
  then have "\<bar>q - k\<bar> * d < 1 * d"
    using \<open>0 < d\<close> by linarith
  then have "\<bar>q - k\<bar> < 1"
    using \<open>0 < d\<close> by (auto simp only: mult_less_cancel_right_disj)
  then show ?thesis
    using q by simp
qed

lemma DivRoundPositive_eq:
  "0 \<le> n \<Longrightarrow> DivRoundPositiveToNearest n d = DivRoundToNearest n d"
  by (simp add: DivRoundPositiveToNearest_def DivRoundToNearest_def)

subsection \<open>Rounding to a resolution\<close>

lemma unit_mul_multiple:
  assumes "in_i64 q" "q \<noteq> i64_max" "q \<noteq> i64_min" "i64_min < q * k" "q * k < i64_max" "os \<longrightarrow> 0 \<le> q * k"
  shows "unit_mul_scalar os (Unit_T q) k = Some (Unit_T (q * k))"
  using assms
  by (simp add: unit_mul_scalar_def ToValue_def unit_tests i64_mul_def FromValue_def in_i64_def)

lemma div_mult_range:
  assumes "0 \<le> a" "a < i64_max" "0 < (k::int)"
  shows "in_i64 (a div k)" "a div k < i64_max" "0 \<le> a div k" "a div k * k \<le> a" "0 \<le> a div k * k"
    "a < a div k * k + k"
  using assms div_le_self_int[of a k] div_bounds[of k a]
  by (auto simp: int_ranges)

text \<open>for a value that is not negative the three roundings return the neighbouring multiples of
  the resolution: \<open>RoundDownTo\<close> the largest one below, \<open>RoundUpTo\<close> the smallest one above, \<open>RoundTo\<close>
  a nearest one, and no check fails on the way.\<close>

theorem rounding_nonneg:
  assumes "0 \<le> unit_value u" "0 < unit_value r" "unit_value u + unit_value r < i64_max"
  shows "\<exists>d n p. RoundDownTo os u r = Some (Unit_T d) \<and> RoundTo os u r = Some (Unit_T n)
    \<and> RoundUpTo os u r = Some (Unit_T p)
    \<and> unit_value r dvd d \<and> unit_value r dvd n \<and> unit_value r dvd p
    \<and> d \<le> unit_value u \<and> unit_value u < d + unit_value r
    \<and> unit_value u \<le> p \<and> p < unit_value u + unit_value r
    \<and> 2 * \<bar>n - unit_value u\<bar> \<le> unit_value r"
proof -
  let ?x = "unit_value u" and ?r = "unit_value r"
  let ?h = "?r div 2"
  have r: "0 < ?r" "in_i64 ?r" "in_i64 ?x" "?r \<noteq> i64_max" "?x \<noteq> i64_max" "?r \<noteq> i64_min" "?x \<noteq> i64_min"
    using assms by (auto simp: int_ranges)
  have h: "0 \<le> ?h" "?h \<le> ?r"
    using div_le_self_int[of ?r 2] r by auto
  have fin: "IsFinite u" "IsFinite r"
    using r by (auto simp: unit_tests)
  have sums: "in_i64 (?x + ?h)" "in_i64 (?x + ?r)" "in_i64 (?x + ?r - 1)"
    using assms h by (auto simp: int_ranges)
  have mul: "unit_mul_scalar os (Unit_T (a div ?r)) ?r = Some (Unit_T (a div ?r * ?r))"
    if "0 \<le> a" "a < i64_max" for a
  proof -
    have "i64_min < a div ?r * ?r"
      using div_mult_range(5)[OF that r(1)] unfolding i64_min_def by linarith
    then show ?thesis
      using div_mult_range[OF that r(1)] that
      by (intro unit_mul_multiple) (auto, simp add: i64_min_def)
  qed
  have "RoundDownTo os u r = Some (Unit_T (?x div ?r * ?r))"
    using fin r assms mul[of ?x] by (simp add: RoundDownTo_def sdiv_nonneg)
  moreover have "RoundTo os u r = Some (Unit_T ((?x + ?h) div ?r * ?r))"
    using fin r h assms sums mul[of "?x + ?h"]
    by (simp add: RoundTo_def sdiv_nonneg i64_add_def)
  moreover have "RoundUpTo os u r = Some (Unit_T ((?x + ?r - 1) div ?r * ?r))"
    using fin r assms sums mul[of "?x + ?r - 1"]
    by (simp add: RoundUpTo_def sdiv_nonneg i64_add_def i64_sub_def)
  moreover have "2 * \<bar>(?x + ?h) div ?r * ?r - ?x\<bar> \<le> ?r"
    by (rule round_half_error[OF r(1)])
  ultimately show ?thesis
    using div_bounds[OF r(1), of ?x] div_bounds[OF r(1), of "?x + ?r - 1"]
    by (intro exI[of _ "?x div ?r * ?r"] exI[of _ "(?x + ?h) div ?r * ?r"]
        exI[of _ "(?x + ?r - 1) div ?r * ?r"] conjI) (assumption | rule dvd_triv_right | linarith)+
qed

theorem rounding_nonneg_witness:
  "\<exists>d n p. RoundDownTo False (Unit_T 1460) (Unit_T 1000 :: TimeDelta) = Some (Unit_T d)
    \<and> RoundTo False (Unit_T 1460) (Unit_T 1000 :: TimeDelta) = Some (Unit_T n)
    \<and> RoundUpTo False (Unit_T 1460) (Unit_T 1000 :: TimeDelta) = Some (Unit_T p)
    \<and> d \<le> 1460 \<and> 1460 \<le> p \<and> 2 * \<bar>n - 1460\<bar> \<le> 1000"
  using rounding_nonneg[of "Unit_T 1460" "Unit_T 1000 :: TimeDelta" False]
  by (simp add: int_ranges) blast

text \<open>Below zero the divisions truncate upwards, so none of the three keeps its direction there.\<close>

lemma rounding_negative:
  "RoundUpTo False (Unit_T (- 16)) (Unit_T 10) = Some (Unit_T 0)"
  "RoundTo False (Unit_T (- 16)) (Unit_T 10) = Some (Unit_T (- 10))"
  "RoundDownTo False (Unit_T (- 16)) (Unit_T 10) = Some (Unit_T (- 10))"
  by (simp_all add: RoundUpTo_def RoundTo_def RoundDownTo_def unit_mul_scalar_def unit_tests
      FromValue_def ToValue_def i64_ops int_ranges i64_def sdiv_pos_cases)

subsection \<open>Timestamps and durations\<close>

lemma finite_not_inf: "IsFinite u \<Longrightarrow> \<not> IsPlusInfinity u \<and> \<not> IsMinusInfinity u"
  by (simp add: unit_tests)

lemma FromValue_value: "FromValue os v = Some u \<Longrightarrow> IsFinite u \<and> unit_value u = v"
  by (auto simp: checked_simps unit_tests)

lemma unit_add_infinity:
  "IsPlusInfinity u \<Longrightarrow> \<not> IsMinusInfinity w \<Longrightarrow> unit_add os u w = Some PlusInfinity"
  "IsPlusInfinity w \<Longrightarrow> \<not> IsMinusInfinity u \<Longrightarrow> unit_add os u w = Some PlusInfinity"
  "IsMinusInfinity u \<Longrightarrow> \<not> IsPlusInfinity w \<Longrightarrow> unit_add os u w = Some MinusInfinity"
  "IsMinusInfinity w \<Longrightarrow> \<not> IsPlusInfinity u \<Longrightarrow> unit_add os u w = Some MinusInfinity"
  by (auto simp: unit_add_def unit_tests int_ranges)

lemma ts_plus_delta_finite:
  "IsFinite t \<Longrightarrow> IsFinite d \<Longrightarrow> ts_plus_delta t d = Some t' \<longleftrightarrow>
     0 \<le> unit_value t + unit_value d \<and> unit_value t + unit_value d < i64_max
     \<and> t' = Unit_T (unit_value t + unit_value d)"
  by (auto simp: ts_plus_delta_def finite_not_inf ts_us_def td_us_def Timestamp_Micros_def
      i64_add_def checked_simps int_ranges)

text \<open>the arithmetic of \<open>Timestamp\<close> and \<open>TimeDelta\<close> is consistent: when \<open>t + d\<close> is defined for a
  finite time and a finite duration, subtracting either operand gives back the other one.\<close>

theorem timestamp_delta_inverse:
  assumes "IsFinite t" "0 \<le> unit_value t" "IsFinite d" "in_i64 (unit_value t)" "in_i64 (unit_value d)"
    and "ts_plus_delta t d = Some t'"
  shows "ts_diff t' t = Some d \<and> ts_minus_delta t' d = Some t \<and> IsFinite t'"
proof -
  let ?s = "unit_value t + unit_value d"
  have t': "t' = Unit_T ?s" "0 \<le> ?s" "?s < i64_max"
    using assms ts_plus_delta_finite by blast+
  have fin: "IsFinite t'"
    using t' by (simp add: unit_tests int_ranges)
  have r: "i64_min < unit_value d" "unit_value d < i64_max" "unit_value t < i64_max"
    using finite_strict assms by blast+
  have "ts_diff t' t = Some d"
    using fin assms t' r finite_not_inf[OF fin] finite_not_inf[OF assms(1)]
    by (cases d) (simp add: ts_diff_def ts_us_def TimeDelta_Micros_def i64_sub_def ToValue_def FromValue_def)
  moreover have "ts_minus_delta t' d = Some t"
    using fin assms t' r finite_not_inf[OF fin] finite_not_inf[OF assms(3)]
    by (cases t) (simp add: ts_minus_delta_def ts_us_def td_us_def Timestamp_Micros_def i64_sub_def
        ToValue_def FromValue_def, simp add: int_ranges)
  ultimately show ?thesis
    using fin by simp
qed

theorem timestamp_delta_inverse_witness:
  "ts_diff (Unit_T 7500) (Unit_T 9000) = Some (Unit_T (- 1500))
   \<and> ts_minus_delta (Unit_T 7500) (Unit_T (- 1500)) = Some (Unit_T 9000)"
  using timestamp_delta_inverse[of "Unit_T 9000" "Unit_T (- 1500)" "Unit_T 7500"]
  by (simp add: ts_plus_delta_finite unit_tests int_ranges)

subsection \<open>ToString of a TimeDelta\<close>

text \<open>The unit that \<open>ToString\<close> chooses represents the value exactly, so the string determines it.\<close>

lemma i64_mod_pos [simp]: "0 < b \<Longrightarrow> in_i64 a \<Longrightarrow> i64_mod a b = Some (a smod b)"
  by (simp add: i64_mod_def in_i64_sdiv)

lemma smod_0_dvd: "0 < b \<Longrightarrow> a smod b = 0 \<longleftrightarrow> b dvd (a::int)"
  by (auto simp: smod_pos_cases mod_eq_0_iff_dvd)

lemma multiple_below:
  assumes "k \<in> {1000, 1000000}" "k dvd (v::int)" "v \<le> i64_max"
  shows "v + k div 2 \<le> i64_max"
proof -
  have "v div k \<le> i64_max div k"
    using assms by (intro zdiv_mono1) auto
  moreover have "v = v div k * k"
    using assms by simp
  ultimately have "v \<le> i64_max div k * k"
    using assms by (metis mult_right_mono insert_iff singletonD zero_le_numeral)
  then show ?thesis
    using assms by (auto simp: i64_max_def)
qed

lemma TimeDelta_ToString_finite:
  assumes fin: "IsFinite d" and rng: "in_i64 (unit_value d)"
  shows "TimeDelta_ToString d = Some
    (if unit_value d = 0 \<or> \<not> 1000 dvd unit_value d then int_string (unit_value d) @ '' us''
     else if \<not> 1000000 dvd unit_value d then int_string (unit_value d div 1000) @ '' ms''
     else int_string (unit_value d div 1000000) @ '' s'')"
proof -
  let ?v = "unit_value d"
  have exact: "ToFraction False k d = Some (?v div k)" if "k dvd ?v" "k \<in> {1000, 1000000}" for k
  proof -
    have "\<bar>?v\<bar> + k div 2 \<le> i64_max"
      using multiple_below[of k "\<bar>?v\<bar>"] that finite_strict[OF fin rng] by (auto simp: int_ranges)
    then have "DivRoundToNearest ?v k = Some (?v div k)"
      using that rng by (intro DivRound_exact) (auto simp: int_ranges)
    then show ?thesis
      using fin by (simp add: ToFraction_def)
  qed
  have ms: "1000 dvd ?v div 1000 \<longleftrightarrow> 1000000 dvd ?v" "in_i64 (?v div 1000)" if "1000 dvd ?v"
    using that rng by (auto simp: int_ranges elim!: dvdE)
  show ?thesis
    using fin finite_not_inf[OF fin] rng exact[of 1000] exact[of 1000000] ms
    by (simp add: TimeDelta_ToString_def td_us_def td_ms_def td_seconds_def ToValue_def smod_0_dvd
        dvd_trans[of 1000 1000000])
qed

definition td_text :: "string \<Rightarrow> string \<Rightarrow> TimeDelta \<Rightarrow> bool" where
  "td_text w u d \<longleftrightarrow> (w = ''+inf'' \<and> u = ''ms'' \<and> d = PlusInfinity) \<or> (w = ''-inf'' \<and> u = ''ms'' \<and> d = MinusInfinity)
     \<or> (\<exists>i. w = int_string i \<and> (u, unit_value d) \<in> {(''us'', i), (''ms'', 1000 * i), (''s'', 1000000 * i)})"

lemma int_string_chars: "c \<in> set (int_string i) \<Longrightarrow> is_digit c \<or> c = CHR ''-''"
  using nat_string_digits by (auto simp: int_string_def split: if_splits)

lemma int_string_not_inf [simp]: "int_string i \<noteq> ''+inf''" "int_string i \<noteq> ''-inf''"
  using int_string_chars[of "CHR ''n''" i] by (auto simp: is_digit_def)

lemma td_text_blank: "td_text w u d \<Longrightarrow> CHR '' '' \<notin> set w"
  using int_string_no_space by (auto simp: td_text_def)

lemma td_text_unique: "td_text w u d \<Longrightarrow> td_text w u e \<Longrightarrow> d = e"
  by (auto simp: td_text_def int_string_not_inf[symmetric] intro: unit_base.expand)

lemma td_text_ToString:
  assumes "in_i64 (unit_value d)"
  shows "\<exists>w u. TimeDelta_ToString d = Some (w @ CHR '' '' # u) \<and> td_text w u d"
proof (cases "IsFinite d")
  case True
  let ?v = "unit_value d"
  let ?w = "\<lambda>i. int_string i" and ?r = "TimeDelta_ToString d"
  consider "?r = Some (?w ?v @ CHR '' '' # ''us'')"
    | "1000 dvd ?v" "?r = Some (?w (?v div 1000) @ CHR '' '' # ''ms'')"
    | "1000000 dvd ?v" "?r = Some (?w (?v div 1000000) @ CHR '' '' # ''s'')"
    using TimeDelta_ToString_finite[OF True assms] by (auto split: if_splits)
  then show ?thesis
    by cases (force simp: td_text_def)+
next
  case False
  then have "d = PlusInfinity \<or> d = MinusInfinity"
    by (cases d) (auto simp: unit_tests)
  then show ?thesis
    using append_Cons append_Nil
    by (intro exI[of _ "if d = PlusInfinity then ''+inf'' else ''-inf''"] exI[of _ "''ms''"])
       (auto simp: td_text_def TimeDelta_ToString_def unit_tests int_ranges)
qed

text \<open>\<open>ToString\<close> of a \<open>TimeDelta\<close> never fails a check and never overflows, and two durations,
  infinite ones included, print the same only if they are equal.\<close>

theorem TimeDelta_ToString_injective:
  assumes "in_i64 (unit_value a)" "in_i64 (unit_value b)"
  shows "\<exists>s. TimeDelta_ToString a = Some s
    \<and> (TimeDelta_ToString b = TimeDelta_ToString a \<longleftrightarrow> b = a)"
proof -
  obtain w u where a: "TimeDelta_ToString a = Some (w @ CHR '' '' # u)" "td_text w u a"
    using td_text_ToString[OF assms(1)] by blast
  obtain w' u' where b: "TimeDelta_ToString b = Some (w' @ CHR '' '' # u')" "td_text w' u' b"
    using td_text_ToString[OF assms(2)] by blast
  have "TimeDelta_ToString b = TimeDelta_ToString a \<longleftrightarrow> w' = w \<and> u' = u"
    using a b append_blank_inj[OF td_text_blank td_text_blank] by fastforce
  then show ?thesis
    using a b td_text_unique by auto
qed

theorem TimeDelta_ToString_injective_witness:
  "TimeDelta_ToString (Unit_T 1500) \<noteq> TimeDelta_ToString (Unit_T 1500000)"
  using TimeDelta_ToString_injective[of "Unit_T 1500" "Unit_T 1500000"] by (auto simp: int_ranges)

subsection \<open>Sizes, rates and durations\<close>

lemma size_div_rate_value:
  assumes "size_div_rate sz rate = Some d" "0 \<le> unit_value sz" "0 < unit_value rate"
  shows "unit_value d = unit_value sz * 8000000 div unit_value rate" "IsFinite d" "IsFinite rate"
    "in_i64 (unit_value sz * 8000000)" "IsFinite sz"
  using assms FromValue_value[of False _ d]
  by (auto simp: size_div_rate_def Microbits_def ds_bytes_def dr_bps_def TimeDelta_Micros_def
      i64_mul_def i64_div_def checked_simps sdiv_nonneg unit_tests split: if_splits)

lemma rate_mul_duration_value:
  assumes "IsFinite rate" "IsFinite d" "0 \<le> unit_value rate" "0 \<le> unit_value d"
    "unit_value rate * unit_value d + 4000000 \<le> i64_max"
  shows "rate_mul_duration rate d
    = Some (Unit_T ((unit_value rate * unit_value d + 4000000) div 8000000))"
proof -
  define m where "m = unit_value rate * unit_value d"
  have "0 \<le> m" "m + 4000000 \<le> i64_max"
    using assms by (simp_all add: m_def)
  moreover from this have "in_i64 m" "in_i64 (m + 4000000)" "0 \<le> (m + 4000000) div 8000000"
      "(m + 4000000) div 8000000 < i64_max"
    by (auto simp: int_ranges)
  ultimately show ?thesis
    using assms unfolding m_def
    by (simp add: rate_mul_duration_def dr_bps_def td_us_def DataSize_Bytes_def ToValue_def
        i64_mul_def i64_add_def FromValue_def sdiv_nonneg)
       (simp add: i64_min_def)
qed

text \<open>Sending a size at a rate takes \<open>size / rate\<close>; what the same rate carries in that time is the
  size itself up to the truncation of the duration to a microsecond, and never more.\<close>

theorem rate_times_transmission_time:
  assumes "size_div_rate sz rate = Some d" "0 \<le> unit_value sz" "0 < unit_value rate"
    and "unit_value sz * 8000000 + 4000000 \<le> i64_max"
  shows "\<exists>s. rate_mul_duration rate d = Some s \<and> unit_value s \<le> unit_value sz
    \<and> 8000000 * (unit_value sz - unit_value s) \<le> unit_value rate + 4000000"
proof -
  let ?M = "unit_value sz * 8000000" and ?R = "unit_value rate"
  let ?P = "?R * unit_value d"
  note v = size_div_rate_value[OF assms(1-3)]
  have P: "?P \<le> ?M" "?M < ?P + ?R" "0 \<le> unit_value d"
    using div_bounds[OF assms(3), of ?M] div_le_self_int[of ?M ?R] assms
    by (auto simp: v(1) mult.commute)
  then have "rate_mul_duration rate d = Some (Unit_T ((?P + 4000000) div 8000000))"
    using v assms by (intro rate_mul_duration_value) auto
  moreover define q where "q = (?P + 4000000) div 8000000"
  moreover have "q * 8000000 \<le> ?P + 4000000" "?P + 4000000 < q * 8000000 + 8000000"
    using div_bounds[of 8000000 "?P + 4000000"] by (simp_all add: q_def)
  then have "q \<le> unit_value sz" "8000000 * (unit_value sz - q) \<le> ?R + 4000000"
    using P by (linarith, simp add: right_diff_distrib)
  ultimately show ?thesis
    by simp
qed

theorem rate_times_transmission_time_witness:
  "\<exists>s. rate_mul_duration (Unit_T 300000) (Unit_T 38933) = Some s \<and> unit_value s \<le> 1460"
  using rate_times_transmission_time[of "Unit_T 1460" "Unit_T 300000" "Unit_T 38933"]
  by (auto simp: size_div_rate_def Microbits_def ds_bytes_def dr_bps_def TimeDelta_Micros_def
      ToValue_def FromValue_def unit_tests int_ranges sdiv_nonneg i64_mul_def)

text \<open>The addition of half a divisor before the division overflows within half a unit of the largest
  finite value: \<open>ms\<close> of such a duration is undefined, although the duration itself is valid.\<close>

lemma td_ms_overflow: "IsFinite (Unit_T (i64_max - 1)) \<and> td_ms (Unit_T (i64_max - 1)) = None"
  by (simp add: unit_tests td_ms_def ToFraction_def DivRoundToNearest_def i64_add_def i64_def
      sdiv_nonneg int_ranges)

end
