(* ===== verification/Event.thy ===== *)
theory Event
  imports Units
begin

text \<open>
  \<open>rtc_base/event.cc\<close>, the POSIX implementation of \<open>rtc::Event\<close>.  The mutex makes \<open>Set\<close>, \<open>Reset\<close> and
  the parts of \<open>Wait\<close> between two calls of \<open>pthread_cond_wait\<close> atomic, so the event is a state machine
  whose steps are these parts.  What the condition variable does (spurious wake-ups, time-outs, other
  errors) is the choice of the step's error code; the clock is an argument.
\<close>

section \<open>GetTimespec\<close>

record timespec =
  tv_sec :: int
  tv_nsec :: int

definition GetTimespec :: "timespec \<Rightarrow> TimeDelta \<Rightarrow> timespec checked" where
  "GetTimespec clock duration_from_now = do {
     microsecs_from_now \<leftarrow> td_us duration_from_now;
     q \<leftarrow> i64_div microsecs_from_now 1000000;
     sec \<leftarrow> i64_add (tv_sec clock) q;
     r \<leftarrow> i64_mod microsecs_from_now 1000000;
     p \<leftarrow> i64_mul r 1000;
     nsec \<leftarrow> i64_add (tv_nsec clock) p;
     if 1000000000 \<le> nsec then do {
       sec1 \<leftarrow> i64_add sec 1;
       nsec1 \<leftarrow> i64_sub nsec 1000000000;
       Some \<lparr>tv_sec = sec1, tv_nsec = nsec1\<rparr>
     } else Some \<lparr>tv_sec = sec, tv_nsec = nsec\<rparr>
   }"

definition timespec_nanos :: "timespec \<Rightarrow> int" where
  "timespec_nanos ts = tv_sec ts * 1000000000 + tv_nsec ts"

section \<open>The event\<close>

record event_state =
  is_manual_reset :: bool
  event_status :: bool

definition new_event :: "bool \<Rightarrow> bool \<Rightarrow> event_state" where
  "new_event manual_reset initially_signaled =
     \<lparr>is_manual_reset = manual_reset, event_status = initially_signaled\<rparr>"

definition event_Set :: "event_state \<Rightarrow> event_state" where
  "event_Set e = e\<lparr>event_status := True\<rparr>"

definition event_Reset :: "event_state \<Rightarrow> event_state" where
  "event_Reset e = e\<lparr>event_status := False\<rparr>"

text \<open>\<open>Wait\<close>.  A waiting thread is blocked in the call of \<open>pthread_cond_(timed)wait\<close> of the first or of the
  second run of the loop \<open>wait\<close>; \<open>Warn\<close> is the run bounded by \<open>warn_ts\<close>, \<open>GiveUp\<close> the one bounded by
  \<open>give_up_ts\<close>.  \<open>wait_loop\<close> is one evaluation of the loop's condition: \<open>None\<close> when it holds and the
  thread blocks (again), otherwise the error the lambda returns.\<close>

definition ETIMEDOUT :: int where
  "ETIMEDOUT = 110"

datatype wait_phase = Warn | GiveUp

datatype wait_outcome = Blocked wait_phase | Returned bool

definition wait_loop :: "event_state \<Rightarrow> int \<Rightarrow> int option" where
  "wait_loop e error = (if \<not> event_status e \<and> error = 0 then None else Some error)"

definition wait_finish :: "event_state \<Rightarrow> int \<Rightarrow> event_state \<times> wait_outcome" where
  "wait_finish e error =
     ((if error = 0 \<and> \<not> is_manual_reset e then e\<lparr>event_status := False\<rparr> else e),
      Returned (error = 0))"

definition wait_continue :: "event_state \<Rightarrow> wait_phase \<Rightarrow> int \<Rightarrow> event_state \<times> wait_outcome" where
  "wait_continue e phase error =
     (case wait_loop e error of
        None \<Rightarrow> (e, Blocked phase)
      | Some err \<Rightarrow>
          (if phase = Warn \<and> err = ETIMEDOUT
           then (case wait_loop e 0 of
                   None \<Rightarrow> (e, Blocked GiveUp)
                 | Some err2 \<Rightarrow> wait_finish e err2)
           else wait_finish e err))"

definition event_Wait :: "event_state \<Rightarrow> TimeDelta \<Rightarrow> TimeDelta \<Rightarrow> event_state \<times> wait_outcome" where
  "event_Wait e give_up_after warn_after =
     wait_continue e (if give_up_after \<le> warn_after then GiveUp else Warn) 0"

definition default_warn_after :: "TimeDelta \<Rightarrow> TimeDelta checked" where
  "default_warn_after give_up_after =
     (if IsPlusInfinity give_up_after then TimeDelta_Seconds 3 else Some PlusInfinity)"

section \<open>Several threads on one event\<close>

datatype 't event_action =
    Act_Set
  | Act_Reset
  | Act_Wait 't TimeDelta TimeDelta
  | Act_Wake 't int

record 't event_sys =
  event :: event_state
  blocked :: "'t \<Rightarrow> wait_phase option"
  successes :: nat
  sets :: nat

definition note_outcome :: "'t \<Rightarrow> event_state \<times> wait_outcome \<Rightarrow> 't event_sys \<Rightarrow> 't event_sys" where
  "note_outcome t r s =
     (case snd r of
        Blocked p \<Rightarrow> s\<lparr>event := fst r, blocked := (blocked s)(t \<mapsto> p)\<rparr>
      | Returned b \<Rightarrow> s\<lparr>event := fst r, blocked := (blocked s)(t := None),
          successes := successes s + (if b then 1 else 0)\<rparr>)"

fun event_step :: "'t event_action \<Rightarrow> 't event_sys \<Rightarrow> 't event_sys" where
  "event_step Act_Set s = s\<lparr>event := event_Set (event s), sets := sets s + 1\<rparr>"
| "event_step Act_Reset s = s\<lparr>event := event_Reset (event s)\<rparr>"
| "event_step (Act_Wait t give_up warn) s =
     (if blocked s t = None then note_outcome t (event_Wait (event s) give_up warn) s else s)"
| "event_step (Act_Wake t err) s =
     (case blocked s t of
        None \<Rightarrow> s
      | Some p \<Rightarrow> note_outcome t (wait_continue (event s) p err) s)"

fun event_run :: "'t event_action list \<Rightarrow> 't event_sys \<Rightarrow> 't event_sys" where
  "event_run [] s = s"
| "event_run (a # as) s = event_run as (event_step a s)"

definition event_init :: "bool \<Rightarrow> bool \<Rightarrow> 't event_sys" where
  "event_init manual_reset initially_signaled =
     \<lparr>event = new_event manual_reset initially_signaled, blocked = (\<lambda>_. None), successes = 0, sets = 0\<rparr>"

section \<open>Facts\<close>

lemmas event_defs = event_Set_def event_Reset_def event_Wait_def wait_continue_def wait_loop_def
  wait_finish_def new_event_def

lemma event_Set_simps [simp]:
  "event_status (event_Set e)" "is_manual_reset (event_Set e) = is_manual_reset e"
  by (simp_all add: event_Set_def)

lemma wait_manual [simp]: "is_manual_reset (fst (wait_continue e p err)) = is_manual_reset e"
  by (simp add: event_defs)

lemma wait_continue_success:
  "snd (wait_continue e p err) = Returned True \<Longrightarrow> event_status e"
  by (auto simp: event_defs ETIMEDOUT_def split: if_splits)

lemma wait_continue_auto_reset:
  "snd (wait_continue e p err) = Returned True \<Longrightarrow> \<not> is_manual_reset e
    \<Longrightarrow> \<not> event_status (fst (wait_continue e p err))"
  by (auto simp: event_defs ETIMEDOUT_def split: if_splits)

lemma wait_continue_keeps:
  "snd (wait_continue e p err) \<noteq> Returned True \<Longrightarrow> fst (wait_continue e p err) = e"
  by (auto simp: event_defs ETIMEDOUT_def split: if_splits)

lemma wait_continue_blocked: "snd (wait_continue e p err) = Blocked q \<Longrightarrow> \<not> event_status e"
  by (auto simp: event_defs ETIMEDOUT_def split: if_splits)

text \<open>Every successful wait on an auto-reset event has a \<open>Set\<close> (or the initial signal) of its own.\<close>

definition event_budget :: "bool \<Rightarrow> 't event_sys \<Rightarrow> bool" where
  "event_budget initially s \<longleftrightarrow>
     successes s + (if event_status (event s) then 1 else 0) \<le> sets s + (if initially then 1 else 0)
     \<and> \<not> is_manual_reset (event s)"

lemma note_outcome_budget:
  assumes "event_budget i s"
  shows "event_budget i (note_outcome t (wait_continue (event s) p err) s)"
  using assms wait_continue_success[of "event s" p err] wait_continue_auto_reset[of "event s" p err]
    wait_continue_keeps[of "event s" p err] wait_manual[of "event s" p err]
  by (auto simp: event_budget_def note_outcome_def split: wait_outcome.splits if_splits)

lemma event_step_budget: "event_budget i s \<Longrightarrow> event_budget i (event_step a s)"
proof (cases a)
  case Act_Set
  then show "event_budget i s \<Longrightarrow> ?thesis"
    by (auto simp: event_budget_def event_Set_def split: if_splits)
next
  case Act_Reset
  then show "event_budget i s \<Longrightarrow> ?thesis"
    by (auto simp: event_budget_def event_Reset_def split: if_splits)
qed (auto simp: event_Wait_def note_outcome_budget split: option.splits)

lemma event_run_budget: "event_budget i s \<Longrightarrow> event_budget i (event_run as s)"
  by (induction as s rule: event_run.induct) (auto intro: event_step_budget)

text \<open>C11: on an auto-reset event, in any interleaving of \<open>Set\<close>, \<open>Reset\<close> and waits of any number of
  threads, with spurious wake-ups and time-outs at any point, at most one wait succeeds per \<open>Set\<close>
  (the initial signal counts as one).\<close>

theorem auto_reset_one_waiter_per_set:
  "successes (event_run as (event_init False initially)) \<le>
     sets (event_run as (event_init False initially :: 't event_sys)) + (if initially then 1 else 0)"
  using event_run_budget[of initially "event_init False initially" as]
  by (auto simp: event_budget_def event_init_def new_event_def)

lemma arith_expand: "(q::int) * 1000000000 + r * 1000 = 1000 * (q * 1000000 + r)"
  by simp

lemma GetTimespec_value:
  assumes "GetTimespec clock d = Some ts" "0 \<le> unit_value d"
    and "0 \<le> tv_nsec clock" "tv_nsec clock < 1000000000"
  shows "timespec_nanos ts = timespec_nanos clock + 1000 * unit_value d
    \<and> 0 \<le> tv_nsec ts \<and> tv_nsec ts < 1000000000"
proof -
  let ?q = "unit_value d div 1000000" and ?r = "unit_value d mod 1000000"
  have "?q * 1000000000 + ?r * 1000 = 1000 * (?q * 1000000 + ?r)"
    by (rule arith_expand)
  then have "0 \<le> ?r" "?r < 1000000" "?q * 1000000000 + ?r * 1000 = 1000 * unit_value d"
    by (simp_all only: div_mult_mod_eq pos_mod_bound pos_mod_sign zero_less_numeral)
  then show ?thesis
    using assms
    by (auto simp: GetTimespec_def td_us_def i64_ops checked_simps timespec_nanos_def sdiv_nonneg
        smod_nonneg split: if_splits)
qed

end
