(* ===== verification/Task_Queue_Interface.thy ===== *)
theory Task_Queue_Interface
  imports TQ_Prelude
begin

text \<open>
  The contract of a task queue (\<open>api/task_queue/task_queue_base.h\<close>): tasks posted without a delay run
  in the order of posting, a delayed task runs not before its time, no task is lost and none runs
  twice.  The operations and laws are a locale; the client lemmas about whole runs are proved here
  once, from the laws, and the components that implement a queue interpret the locale.

  The first argument of \<open>invar\<close> is the number of posts for which the implementation still has order
  numbers, so a bounded counter is visible in the contract.
\<close>

datatype 'a tq_op =
    Op_Post 'a
  | Op_PostDelayed int int 'a
  | Op_Next int

fun op_posts :: "'a tq_op \<Rightarrow> nat" where
  "op_posts (Op_Post a) = 1"
| "op_posts (Op_PostDelayed now d a) = 1"
| "op_posts (Op_Next t) = 0"

fun immediate_posts :: "'a tq_op list \<Rightarrow> 'a list" where
  "immediate_posts [] = []"
| "immediate_posts (Op_Post a # ops) = a # immediate_posts ops"
| "immediate_posts (op # ops) = immediate_posts ops"

fun delayed_posts :: "'a tq_op list \<Rightarrow> 'a multiset" where
  "delayed_posts [] = {#}"
| "delayed_posts (Op_PostDelayed now d a # ops) = add_mset a (delayed_posts ops)"
| "delayed_posts (op # ops) = delayed_posts ops"

text \<open>One run: its operations are applied in order and every task that \<open>next\<close> hands out is recorded
  with its tick and, for a delayed task, the due time it had in the queue.\<close>

datatype 'a executed = Ran_immediate 'a | Ran_delayed int int 'a

fun ran_immediate :: "'a executed list \<Rightarrow> 'a list" where
  "ran_immediate [] = []"
| "ran_immediate (Ran_immediate a # xs) = a # ran_immediate xs"
| "ran_immediate (Ran_delayed due t a # xs) = ran_immediate xs"

fun ran_delayed :: "'a executed list \<Rightarrow> 'a multiset" where
  "ran_delayed [] = {#}"
| "ran_delayed (Ran_immediate a # xs) = ran_delayed xs"
| "ran_delayed (Ran_delayed due t a # xs) = add_mset a (ran_delayed xs)"

text \<open>The delayed tasks with the due times they had in the queue.\<close>

fun ran_due :: "'a executed list \<Rightarrow> (int \<times> 'a) multiset" where
  "ran_due [] = {#}"
| "ran_due (Ran_immediate a # xs) = ran_due xs"
| "ran_due (Ran_delayed due t a # xs) = add_mset (due, a) (ran_due xs)"

fun executed_task :: "'a executed \<Rightarrow> 'a" where
  "executed_task (Ran_immediate a) = a"
| "executed_task (Ran_delayed due t a) = a"

fun not_early :: "'a executed \<Rightarrow> bool" where
  "not_early (Ran_immediate a) = True"
| "not_early (Ran_delayed due t a) = (due \<le> t)"

fun run_ops ::
  "('a \<Rightarrow> 's \<Rightarrow> 's checked) \<Rightarrow> (int \<Rightarrow> int \<Rightarrow> 'a \<Rightarrow> 's \<Rightarrow> 's checked) \<Rightarrow> (int \<Rightarrow> 's \<Rightarrow> ('a option \<times> 's) checked)
    \<Rightarrow> 'a tq_op list \<Rightarrow> 's \<Rightarrow> ('a list \<times> 's) checked" where
  "run_ops post post_delayed nxt [] s = Some ([], s)"
| "run_ops post post_delayed nxt (Op_Post a # ops) s =
     Option.bind (post a s) (run_ops post post_delayed nxt ops)"
| "run_ops post post_delayed nxt (Op_PostDelayed now d a # ops) s =
     Option.bind (post_delayed now d a s) (run_ops post post_delayed nxt ops)"
| "run_ops post post_delayed nxt (Op_Next t # ops) s =
     (case nxt t s of
        None \<Rightarrow> None
      | Some (None, s') \<Rightarrow> run_ops post post_delayed nxt ops s'
      | Some (Some a, s') \<Rightarrow>
          map_option (\<lambda>(out, r). (a # out, r)) (run_ops post post_delayed nxt ops s'))"

locale task_queue =
  fixes post :: "'a \<Rightarrow> 's \<Rightarrow> 's checked"
    and post_delayed :: "int \<Rightarrow> int \<Rightarrow> 'a \<Rightarrow> 's \<Rightarrow> 's checked"
    and nxt :: "int \<Rightarrow> 's \<Rightarrow> ('a option \<times> 's) checked"
    and immediate :: "'s \<Rightarrow> 'a list"
    and delayed :: "'s \<Rightarrow> (int \<times> 'a) list"
    and invar :: "nat \<Rightarrow> 's \<Rightarrow> bool"
  assumes post_laws: "invar (Suc n) s \<Longrightarrow> post a s = Some s' \<Longrightarrow>
      invar n s' \<and> immediate s' = immediate s @ [a] \<and> mset (delayed s') = mset (delayed s)"
    and post_delayed_laws: "invar (Suc n) s \<Longrightarrow> post_delayed now d a s = Some s' \<Longrightarrow>
      invar n s' \<and> immediate s' = immediate s
      \<and> (\<exists>due. now + d \<le> due \<and> mset (delayed s') = add_mset (due, a) (mset (delayed s)))"
    and next_task: "invar n s \<Longrightarrow> nxt t s = Some (Some a, s') \<Longrightarrow>
      invar n s' \<and>
      ((immediate s = a # immediate s' \<and> mset (delayed s') = mset (delayed s))
       \<or> (immediate s' = immediate s
          \<and> (\<exists>due. due \<le> t \<and> mset (delayed s) = add_mset (due, a) (mset (delayed s')))))"
    and next_idle: "invar n s \<Longrightarrow> nxt t s = Some (None, s') \<Longrightarrow>
      s' = s \<and> immediate s = [] \<and> (\<forall>(due, a) \<in> set (delayed s). t < due)"
begin

abbreviation run where "run \<equiv> run_ops post post_delayed nxt"

text \<open>Every run has a log of its executed tasks that accounts for all posts: the immediate tasks in
  their order, the delayed ones as a multiset, none before its time.\<close>

definition accounts :: "'a tq_op list \<Rightarrow> 's \<Rightarrow> 'a list \<Rightarrow> 's \<Rightarrow> 'a executed list \<Rightarrow> bool" where
  "accounts ops s out s' log \<longleftrightarrow> map executed_task log = out
     \<and> ran_immediate log @ immediate s' = immediate s @ immediate_posts ops
     \<and> ran_delayed log + image_mset snd (mset (delayed s')) =
        image_mset snd (mset (delayed s)) + delayed_posts ops
     \<and> list_all not_early log"

lemma run_accounts:
  assumes "run ops s = Some (out, s')" "invar (sum_list (map op_posts ops) + n) s"
  shows "\<exists>log. accounts ops s out s' log"
  using assms
proof (induction ops arbitrary: s out)
  case Nil
  then have "accounts [] s out s' []"
    by (simp add: accounts_def)
  then show ?case ..
next
  case (Cons op ops)
  let ?n = "sum_list (map op_posts ops) + n"
  show ?case
  proof (cases op)
    case (Op_Post a)
    then obtain s1 where s1: "post a s = Some s1" "run ops s1 = Some (out, s')"
      using Cons.prems by (auto simp: checked_simps)
    then have laws: "invar ?n s1" "immediate s1 = immediate s @ [a]" "mset (delayed s1) = mset (delayed s)"
      using post_laws[of ?n s a s1] Cons.prems Op_Post by auto
    then obtain log where "accounts ops s1 out s' log"
      using Cons.IH[OF s1(2)] by blast
    then have "accounts (op # ops) s out s' log"
      using laws Op_Post by (simp add: accounts_def)
    then show ?thesis ..
  next
    case (Op_PostDelayed now d a)
    then obtain s1 where s1: "post_delayed now d a s = Some s1" "run ops s1 = Some (out, s')"
      using Cons.prems by (auto simp: checked_simps)
    then obtain due where laws: "invar ?n s1" "immediate s1 = immediate s"
        "mset (delayed s1) = add_mset (due, a) (mset (delayed s))"
      using post_delayed_laws[of ?n s now d a s1] Cons.prems Op_PostDelayed by auto
    then obtain log where "accounts ops s1 out s' log"
      using Cons.IH[OF s1(2)] by blast
    then have "accounts (op # ops) s out s' log"
      using laws Op_PostDelayed by (simp add: accounts_def)
    then show ?thesis ..
  next
    case (Op_Next t)
    have inv: "invar ?n s"
      using Cons.prems Op_Next by simp
    from Cons.prems Op_Next obtain r s1 where nx: "nxt t s = Some (r, s1)"
      by (auto split: option.splits)
    show ?thesis
    proof (cases r)
      case None
      then have "s1 = s" "run ops s1 = Some (out, s')"
        using next_idle[OF inv, of t s1] nx Cons.prems Op_Next by auto
      then obtain log where "accounts ops s out s' log"
        using Cons.IH inv by blast
      then have "accounts (op # ops) s out s' log"
        using Op_Next by (simp add: accounts_def)
      then show ?thesis ..
    next
      case (Some a)
      then obtain out1 where out1: "run ops s1 = Some (out1, s')" "out = a # out1"
        using nx Cons.prems Op_Next by auto
      have nt: "invar ?n s1" "(immediate s = a # immediate s1 \<and> mset (delayed s1) = mset (delayed s))
         \<or> (immediate s1 = immediate s
            \<and> (\<exists>due. due \<le> t \<and> mset (delayed s) = add_mset (due, a) (mset (delayed s1))))"
        using next_task[OF inv nx[unfolded Some]] by auto
      obtain log where log: "accounts ops s1 out1 s' log"
        using Cons.IH[OF out1(1) nt(1)] by blast
      from nt(2) show ?thesis
      proof (elim disjE conjE exE)
        assume "immediate s = a # immediate s1" "mset (delayed s1) = mset (delayed s)"
        then have "accounts (op # ops) s out s' (Ran_immediate a # log)"
          using log out1 Op_Next by (simp add: accounts_def)
        then show ?thesis ..
      next
        fix due
        assume "immediate s1 = immediate s" "due \<le> t" "mset (delayed s) = add_mset (due, a) (mset (delayed s1))"
        then have "accounts (op # ops) s out s' (Ran_delayed due t a # log)"
          using log out1 Op_Next by (simp add: accounts_def)
        then show ?thesis ..
      qed
    qed
  qed
qed

lemma run_no_delayed_fifo:
  assumes "run ops s = Some (out, s')" "invar (sum_list (map op_posts ops)) s"
    and "delayed s = []" "delayed_posts ops = {#}"
  shows "out @ immediate s' = immediate s @ immediate_posts ops"
proof -
  obtain log where log: "accounts ops s out s' log"
    using run_accounts[of ops s out s' 0] assms by auto
  then have "ran_delayed log = {#}"
    using assms by (simp add: accounts_def)
  moreover have "ran_delayed l = {#} \<Longrightarrow> ran_immediate l = map executed_task l" for l :: "'a executed list"
    by (induction l rule: ran_delayed.induct) auto
  ultimately show ?thesis
    using log by (auto simp: accounts_def)
qed

end

end
