(* ===== verification/Divide_Round.thy ===== *)
theory Divide_Round
  imports TQ_Prelude
begin

text \<open>
  \<open>rtc_base/numerics/divide_round.h\<close> at the type \<open>int64_t\<close> that the task queues use, and the helpers of
  \<open>rtc_base/numerics/math_utils.h\<close>.
\<close>

definition DivideRoundUp :: "int \<Rightarrow> int \<Rightarrow> int checked" where
  "DivideRoundUp dividend divisor = do {
     rtc_check (0 \<le> dividend);
     rtc_check (0 < divisor);
     quotient \<leftarrow> i64_div dividend divisor;
     remainder \<leftarrow> i64_mod dividend divisor;
     i64_add quotient (if 0 < remainder then 1 else 0)
   }"

definition DivideRoundToNearest :: "int \<Rightarrow> int \<Rightarrow> int checked" where
  "DivideRoundToNearest dividend divisor = do {
     rtc_check (0 \<le> dividend);
     rtc_check (0 < divisor);
     d1 \<leftarrow> i64_sub divisor 1;
     half_of_divisor \<leftarrow> i64_div d1 2;
     quotient \<leftarrow> i64_div dividend divisor;
     remainder \<leftarrow> i64_mod dividend divisor;
     i64_add quotient (if half_of_divisor < remainder then 1 else 0)
   }"

text \<open>\<open>unsigned_difference\<close> of two \<open>int64_t\<close>: the subtraction is done on the unsigned type.\<close>

definition unsigned_difference :: "int \<Rightarrow> int \<Rightarrow> 64 word checked" where
  "unsigned_difference x y = do {
     rtc_check (y \<le> x);
     Some (word_of_int x - word_of_int y)
   }"

lemma i64_div_mod_pos:
  assumes "0 \<le> a" "a \<le> i64_max" "0 < b"
  shows "i64_div a b = Some (a div b)" "i64_mod a b = Some (a mod b)"
    "in_i64 (a div b)"
proof -
  have "in_i64 a"
    using assms by (auto simp: int_ranges)
  then show "i64_div a b = Some (a div b)" "i64_mod a b = Some (a mod b)" "in_i64 (a div b)"
    using in_i64_sdiv[of a b] assms by (auto simp: i64_div_def i64_mod_def sdiv_nonneg smod_nonneg)
qed

lemma DivideRoundUp_eq:
  assumes "0 \<le> a" "a < i64_max" "0 < b"
  shows "DivideRoundUp a b = Some (a div b + (if 0 < a mod b then 1 else 0))"
proof -
  have "0 \<le> a div b" "a div b \<le> a"
    using div_le_self_int assms by auto
  then have "in_i64 (a div b + (if 0 < a mod b then 1 else 0))"
    using assms by (auto simp: int_ranges)
  then show ?thesis
    using assms by (simp add: DivideRoundUp_def i64_div_mod_pos i64_add_def)
qed

lemma DivideRoundUp_ceiling:
  assumes "DivideRoundUp a b = Some q" "in_i64 a"
  shows "a \<le> q * b \<and> q * b < a + b \<and> 0 \<le> q"
proof -
  have ab: "0 \<le> a" "0 < b" "a \<le> i64_max"
    using assms by (auto simp: DivideRoundUp_def checked_simps int_ranges split: if_splits)
  then have q: "q = a div b + (if 0 < a mod b then 1 else 0)"
    using assms by (auto simp: DivideRoundUp_def i64_div_mod_pos i64_add_def checked_simps)
  have "0 \<le> a mod b" "a mod b < b" "a div b * b = a - a mod b" "0 \<le> a div b"
    using ab div_le_self_int[of a b] by (auto simp: minus_mod_eq_div_mult)
  then show ?thesis
    by (auto simp: q distrib_right)
qed

lemma DivideRoundToNearest_error:
  assumes "DivideRoundToNearest a b = Some q" "in_i64 a"
  shows "2 * \<bar>q * b - a\<bar> \<le> b"
proof -
  have ab: "0 \<le> a" "0 < b" "a \<le> i64_max"
    using assms by (auto simp: DivideRoundToNearest_def checked_simps int_ranges split: if_splits)
  then have q: "q = a div b + (if (b - 1) div 2 < a mod b then 1 else 0)"
    using assms by (auto simp: DivideRoundToNearest_def i64_div_mod_pos i64_add_def i64_sub_def
        checked_simps i64_div_def sdiv_nonneg)
  have "0 \<le> a mod b" "a mod b < b" "a div b * b = a - a mod b"
    using ab by (auto simp: minus_mod_eq_div_mult)
  moreover have "2 * ((b - 1) div 2) \<le> b - 1" "b - 2 \<le> 2 * ((b - 1) div 2)"
    by linarith+
  ultimately show ?thesis
    by (auto simp: q distrib_right)
qed

lemma unsigned_difference_value:
  assumes "unsigned_difference x y = Some d" "in_i64 x" "in_i64 y"
  shows "uint d = x - y"
proof -
  have d: "d = word_of_int (x - y)" "y \<le> x"
    using assms by (auto simp: unsigned_difference_def checked_simps split: if_splits)
  have "0 \<le> x - y" "x - y < 2 ^ LENGTH(64)"
    using assms d(2) by (auto simp: int_ranges)
  then show ?thesis
    by (simp only: d(1) uint_word_of_int mod_pos_pos_trivial)
qed

end
