(* ===== verification/Task_Queue_Stdlib.thy ===== *)
theory Task_Queue_Stdlib
  imports Event Task_Queue_Interface Divide_Round
begin

text \<open>
  \<open>rtc_base/task_queue_stdlib.cc\<close>: the queue state guarded by \<open>pending_lock_\<close>, the operations of the
  posting threads, \<open>GetNextTask\<close> and the worker's loop \<open>ProcessTasks\<close>.  An \<open>absl::AnyInvocable\<close> is an
  \<open>'a option\<close>, with \<open>None\<close> for the empty one, because \<open>ProcessTasks\<close> tests it.  The clock
  (\<open>rtc::TimeMicros\<close>) is an argument.
\<close>

section \<open>State\<close>

type_synonym 'a invocable = "'a option"
type_synonym OrderId = "64 word"

datatype DelayedEntryTimeout = DelayedEntryTimeout (next_fire_at_us: int) (order: OrderId)

instantiation DelayedEntryTimeout :: linorder
begin

fun less_DelayedEntryTimeout :: "DelayedEntryTimeout \<Rightarrow> DelayedEntryTimeout \<Rightarrow> bool" where
  "less_DelayedEntryTimeout (DelayedEntryTimeout t p) (DelayedEntryTimeout u q) =
     (t < u \<or> (t = u \<and> p < q))"

definition less_eq_DelayedEntryTimeout :: "DelayedEntryTimeout \<Rightarrow> DelayedEntryTimeout \<Rightarrow> bool" where
  "less_eq_DelayedEntryTimeout a b \<longleftrightarrow> a = b \<or> a < b"

instance
proof
  fix a b c :: DelayedEntryTimeout
  show "a < b \<longleftrightarrow> a \<le> b \<and> \<not> b \<le> a"
    by (cases a; cases b) (auto simp: less_eq_DelayedEntryTimeout_def)
  show "a \<le> a"
    by (simp add: less_eq_DelayedEntryTimeout_def)
  show "a \<le> b \<Longrightarrow> b \<le> c \<Longrightarrow> a \<le> c"
    by (cases a; cases b; cases c) (auto simp: less_eq_DelayedEntryTimeout_def)
  show "a \<le> b \<Longrightarrow> b \<le> a \<Longrightarrow> a = b"
    by (cases a; cases b) (auto simp: less_eq_DelayedEntryTimeout_def)
  show "a \<le> b \<or> b \<le> a"
    by (cases a; cases b) (auto simp: less_eq_DelayedEntryTimeout_def)
qed

end

record 'a tq_stdlib =
  flag_notify :: event_state
  thread_should_quit :: bool
  thread_posting_order :: OrderId
  pending_queue :: "(OrderId \<times> 'a invocable) list"
  delayed_queue :: "(DelayedEntryTimeout \<times> 'a invocable) list"

record 'a next_task =
  final_task :: bool
  run_task :: "'a invocable"
  sleep_time :: TimeDelta

definition new_tq_stdlib :: "'a tq_stdlib" where
  "new_tq_stdlib = \<lparr>flag_notify = new_event False False, thread_should_quit = False,
     thread_posting_order = 0, pending_queue = [], delayed_queue = []\<rparr>"

datatype Priority = HIGH | LOW | NORMAL
datatype ThreadPriority = kLow | kNormal | kHigh | kRealtime

fun TaskQueuePriorityToThreadPriority :: "Priority \<Rightarrow> ThreadPriority" where
  "TaskQueuePriorityToThreadPriority HIGH = kRealtime"
| "TaskQueuePriorityToThreadPriority LOW = kLow"
| "TaskQueuePriorityToThreadPriority NORMAL = kNormal"

section \<open>Operations\<close>

definition NotifyWake :: "'a tq_stdlib \<Rightarrow> 'a tq_stdlib" where
  "NotifyWake q = q\<lparr>flag_notify := event_Set (flag_notify q)\<rparr>"

text \<open>\<open>PostTask\<close> and \<open>PostDelayedTask\<close> consist of a part under the lock and the notification.\<close>

definition push_pending :: "'a invocable \<Rightarrow> 'a tq_stdlib \<Rightarrow> 'a tq_stdlib" where
  "push_pending task q =
     (let ord = thread_posting_order q + 1
      in q\<lparr>thread_posting_order := ord, pending_queue := pending_queue q @ [(ord, task)]\<rparr>)"

definition PostTask :: "'a invocable \<Rightarrow> 'a tq_stdlib \<Rightarrow> 'a tq_stdlib" where
  "PostTask task q = NotifyWake (push_pending task q)"

definition fire_time :: "int \<Rightarrow> TimeDelta \<Rightarrow> int checked" where
  "fire_time now delay = do { us \<leftarrow> td_us delay; i64_add now us }"

definition push_delayed :: "int \<Rightarrow> 'a invocable \<Rightarrow> 'a tq_stdlib \<Rightarrow> 'a tq_stdlib" where
  "push_delayed fire_at task q =
     (let ord = thread_posting_order q + 1
      in q\<lparr>thread_posting_order := ord,
           delayed_queue := smap_assign (DelayedEntryTimeout fire_at ord) task (delayed_queue q)\<rparr>)"

definition PostDelayedTask :: "int \<Rightarrow> 'a invocable \<Rightarrow> TimeDelta \<Rightarrow> 'a tq_stdlib \<Rightarrow> 'a tq_stdlib checked" where
  "PostDelayedTask now task delay q = do {
     fire_at \<leftarrow> fire_time now delay;
     Some (NotifyWake (push_delayed fire_at task q))
   }"

definition PostDelayedHighPrecisionTask ::
  "int \<Rightarrow> 'a invocable \<Rightarrow> TimeDelta \<Rightarrow> 'a tq_stdlib \<Rightarrow> 'a tq_stdlib checked" where
  "PostDelayedHighPrecisionTask now task delay q = PostDelayedTask now task delay q"

definition request_quit :: "'a tq_stdlib \<Rightarrow> 'a tq_stdlib" where
  "request_quit q = q\<lparr>thread_should_quit := True\<rparr>"

definition no_task :: "'a next_task" where
  "no_task = \<lparr>final_task = False, run_task = None, sleep_time = PlusInfinity\<rparr>"

definition pop_pending :: "'a next_task \<Rightarrow> 'a tq_stdlib \<Rightarrow> 'a next_task \<times> 'a tq_stdlib" where
  "pop_pending result q =
     (case pending_queue q of
        [] \<Rightarrow> (result, q)
      | (entry_order, entry_run) # rest \<Rightarrow>
          (result\<lparr>run_task := entry_run\<rparr>, q\<lparr>pending_queue := rest\<rparr>))"

definition GetNextTask :: "int \<Rightarrow> 'a tq_stdlib \<Rightarrow> ('a next_task \<times> 'a tq_stdlib) checked" where
  "GetNextTask tick_us q =
     (if thread_should_quit q then Some (no_task\<lparr>final_task := True\<rparr>, q)
      else case delayed_queue q of
        [] \<Rightarrow> Some (pop_pending no_task q)
      | (delay_info, delay_run) # later \<Rightarrow>
          (if next_fire_at_us delay_info \<le> tick_us
           then (if pending_queue q \<noteq> [] \<and> fst (hd (pending_queue q)) < order delay_info
                 then Some (pop_pending no_task q)
                 else Some (no_task\<lparr>run_task := delay_run\<rparr>, q\<lparr>delayed_queue := later\<rparr>))
           else do {
             remaining \<leftarrow> i64_sub (next_fire_at_us delay_info) tick_us;
             millis \<leftarrow> DivideRoundUp remaining 1000;
             d \<leftarrow> TimeDelta_Millis millis;
             Some (pop_pending (no_task\<lparr>sleep_time := d\<rparr>) q)
           }))"

section \<open>The queue satisfies the contract\<close>

definition all_tasks :: "'a tq_stdlib \<Rightarrow> bool" where
  "all_tasks q \<longleftrightarrow> (\<forall>e \<in> set (pending_queue q). snd e \<noteq> None)
     \<and> (\<forall>e \<in> set (delayed_queue q). snd e \<noteq> None)"

definition orders_ok :: "'a tq_stdlib \<Rightarrow> bool" where
  "orders_ok q \<longleftrightarrow> smap_sorted (delayed_queue q)
     \<and> (\<forall>e \<in> set (delayed_queue q). order (fst e) \<le> thread_posting_order q)"

definition stdlib_invar :: "nat \<Rightarrow> 'a tq_stdlib \<Rightarrow> bool" where
  "stdlib_invar n q \<longleftrightarrow> \<not> thread_should_quit q \<and> all_tasks q \<and> orders_ok q
     \<and> unat (thread_posting_order q) + n < 2 ^ 64"

definition immediate_tasks :: "'a tq_stdlib \<Rightarrow> 'a list" where
  "immediate_tasks q = map (the \<circ> snd) (pending_queue q)"

definition delayed_tasks :: "'a tq_stdlib \<Rightarrow> (int \<times> 'a) list" where
  "delayed_tasks q = map (\<lambda>(e, r). (next_fire_at_us e, the r)) (delayed_queue q)"

definition stdlib_post :: "'a \<Rightarrow> 'a tq_stdlib \<Rightarrow> 'a tq_stdlib checked" where
  "stdlib_post a q = Some (PostTask (Some a) q)"

definition stdlib_post_delayed :: "int \<Rightarrow> int \<Rightarrow> 'a \<Rightarrow> 'a tq_stdlib \<Rightarrow> 'a tq_stdlib checked" where
  "stdlib_post_delayed now d a q = PostDelayedTask now (Some a) (Unit_T d) q"

definition stdlib_nxt :: "int \<Rightarrow> 'a tq_stdlib \<Rightarrow> ('a option \<times> 'a tq_stdlib) checked" where
  "stdlib_nxt t q = map_option (\<lambda>(nt, q'). (run_task nt, q')) (GetNextTask t q)"

lemma order_bound_fresh:
  assumes "orders_ok q" "unat (thread_posting_order q) + 1 < 2 ^ 64"
  shows "DelayedEntryTimeout t (thread_posting_order q + 1) \<notin> fst ` set (delayed_queue q)"
    "unat (thread_posting_order q + 1) = unat (thread_posting_order q) + 1"
proof -
  show u: "unat (thread_posting_order q + 1) = unat (thread_posting_order q) + 1"
    using assms(2) by (simp add: unat_word_ariths)
  then have "thread_posting_order q < thread_posting_order q + 1"
    by (simp add: word_less_nat_alt)
  then show "DelayedEntryTimeout t (thread_posting_order q + 1) \<notin> fst ` set (delayed_queue q)"
    using assms(1) by (fastforce simp: orders_ok_def)
qed

lemma queue_NotifyWake [simp]:
  "pending_queue (NotifyWake q) = pending_queue q" "delayed_queue (NotifyWake q) = delayed_queue q"
  "thread_posting_order (NotifyWake q) = thread_posting_order q"
  "thread_should_quit (NotifyWake q) = thread_should_quit q"
  "event_status (flag_notify (NotifyWake q))"
  by (simp_all add: NotifyWake_def)

lemma tasks_NotifyWake [simp]:
  "immediate_tasks (NotifyWake q) = immediate_tasks q" "delayed_tasks (NotifyWake q) = delayed_tasks q"
  "all_tasks (NotifyWake q) = all_tasks q" "orders_ok (NotifyWake q) = orders_ok q"
  "stdlib_invar n (NotifyWake q) = stdlib_invar n q"
  by (simp_all add: immediate_tasks_def delayed_tasks_def all_tasks_def orders_ok_def stdlib_invar_def)

lemma push_pending_laws:
  "immediate_tasks (push_pending (Some a) q) = immediate_tasks q @ [a]"
  "delayed_tasks (push_pending r q) = delayed_tasks q"
  "thread_should_quit (push_pending r q) = thread_should_quit q"
  "all_tasks q \<Longrightarrow> all_tasks (push_pending (Some a) q)"
  by (auto simp: push_pending_def immediate_tasks_def delayed_tasks_def all_tasks_def Let_def)

lemma push_orders:
  assumes "orders_ok q" "unat (thread_posting_order q) + 1 < 2 ^ 64"
  shows "orders_ok (push_pending r q)" "orders_ok (push_delayed t r q)"
    "unat (thread_posting_order (push_pending r q)) = unat (thread_posting_order q) + 1"
    "unat (thread_posting_order (push_delayed t r q)) = unat (thread_posting_order q) + 1"
proof -
  note u = order_bound_fresh(1)[OF assms, of t] order_bound_fresh(2)[OF assms]
  have le: "w \<le> thread_posting_order q + 1" if "w \<le> thread_posting_order q" for w
    using that u(2) by (simp add: word_le_nat_alt)
  show "orders_ok (push_pending r q)" "orders_ok (push_delayed t r q)"
    using assms(1) le smap_assign_set[OF u(1), of r]
    by (auto simp: orders_ok_def push_pending_def push_delayed_def Let_def smap_assign_sorted)
  show "unat (thread_posting_order (push_pending r q)) = unat (thread_posting_order q) + 1"
    "unat (thread_posting_order (push_delayed t r q)) = unat (thread_posting_order q) + 1"
    using u(2) by (simp_all add: push_pending_def push_delayed_def Let_def)
qed

lemma push_delayed_laws:
  assumes "orders_ok q" "unat (thread_posting_order q) + 1 < 2 ^ 64"
  shows "immediate_tasks (push_delayed t (Some a) q) = immediate_tasks q"
    "mset (delayed_tasks (push_delayed t (Some a) q)) = add_mset (t, a) (mset (delayed_tasks q))"
    "thread_should_quit (push_delayed t (Some a) q) = thread_should_quit q"
    "all_tasks q \<Longrightarrow> all_tasks (push_delayed t (Some a) q)"
  using smap_assign_mset[OF order_bound_fresh(1)[OF assms, of t], of "Some a"]
    smap_assign_set[OF order_bound_fresh(1)[OF assms, of t], of "Some a"]
  by (auto simp: push_delayed_def immediate_tasks_def delayed_tasks_def all_tasks_def Let_def)

text \<open>\<open>GetNextTask\<close>, one lemma for each kind of result.\<close>

lemma pop_pending_simps:
  "pending_queue q = [] \<Longrightarrow> pop_pending r q = (r, q)"
  "pending_queue q = (ord, task) # rest \<Longrightarrow>
     pop_pending r q = (r\<lparr>run_task := task\<rparr>, q\<lparr>pending_queue := rest\<rparr>)"
  by (simp_all add: pop_pending_def)

lemma GetNextTask_cases:
  assumes "GetNextTask t q = Some (nt, q')" "\<not> thread_should_quit q"
  obtains (idle) "pending_queue q = []" "q' = q" "run_task nt = None" "\<not> final_task nt"
        "delayed_queue q = [] \<longrightarrow> sleep_time nt = PlusInfinity"
        "\<And>e r later. delayed_queue q = (e, r) # later \<Longrightarrow> t < next_fire_at_us e
           \<and> (\<exists>m. DivideRoundUp (next_fire_at_us e - t) 1000 = Some m \<and> in_i64 (next_fire_at_us e - t)
              \<and> TimeDelta_Millis m = Some (sleep_time nt))"
    | (pending) ord task rest where "pending_queue q = (ord, task) # rest" "q' = q\<lparr>pending_queue := rest\<rparr>"
        "run_task nt = task" "\<not> final_task nt"
    | (delayed) e task later where "delayed_queue q = (e, task) # later" "q' = q\<lparr>delayed_queue := later\<rparr>"
        "run_task nt = task" "next_fire_at_us e \<le> t" "\<not> final_task nt"
proof (cases "delayed_queue q")
  case Nil
  then have r: "(nt, q') = pop_pending no_task q"
    using assms by (simp add: GetNextTask_def)
  show thesis
  proof (cases "pending_queue q")
    case Nil
    then show thesis
      using r \<open>delayed_queue q = []\<close> by (intro idle) (auto simp: no_task_def pop_pending_simps)
  next
    case (Cons p rest)
    then obtain ord task where p: "pending_queue q = (ord, task) # rest"
      by (cases p) auto
    then show thesis
      using r by (intro pending[OF p]) (simp_all add: no_task_def pop_pending_simps)
  qed
next
  case (Cons x later)
  obtain e r where e: "delayed_queue q = (e, r) # later"
    using Cons by (cases x) auto
  show thesis
  proof (cases "next_fire_at_us e \<le> t")
    case True
    show thesis
    proof (cases "pending_queue q \<noteq> [] \<and> fst (hd (pending_queue q)) < order e")
      case True
      then obtain ord task rest where p: "pending_queue q = (ord, task) # rest"
        by (cases "pending_queue q") auto
      have "nt = no_task\<lparr>run_task := task\<rparr>" "q' = q\<lparr>pending_queue := rest\<rparr>"
        using assms e True p \<open>next_fire_at_us e \<le> t\<close> by (auto simp: GetNextTask_def pop_pending_simps)
      then show thesis
        by (intro pending[OF p]) (simp_all add: no_task_def)
    next
      case False
      have "nt = no_task\<lparr>run_task := r\<rparr>" "q' = q\<lparr>delayed_queue := later\<rparr>"
        using assms e False \<open>next_fire_at_us e \<le> t\<close> by (auto simp: GetNextTask_def)
      then show thesis
        using \<open>next_fire_at_us e \<le> t\<close> by (intro delayed[OF e]) (simp_all add: no_task_def)
    qed
  next
    case False
    then obtain m s where m: "DivideRoundUp (next_fire_at_us e - t) 1000 = Some m"
        "in_i64 (next_fire_at_us e - t)" "TimeDelta_Millis m = Some s"
      and r: "(nt, q') = pop_pending (no_task\<lparr>sleep_time := s\<rparr>) q"
      using assms e by (auto simp: GetNextTask_def i64_sub_def checked_simps)
    show thesis
    proof (cases "pending_queue q")
      case Nil
      then have "nt = no_task\<lparr>sleep_time := s\<rparr>" "q' = q"
        using r by (simp_all add: pop_pending_simps)
      then show thesis
        using Nil m e False by (intro idle) (auto simp: no_task_def)
    next
      case (Cons p rest)
      then obtain ord task where p: "pending_queue q = (ord, task) # rest"
        by (cases p) auto
      then have "nt = no_task\<lparr>sleep_time := s, run_task := task\<rparr>" "q' = q\<lparr>pending_queue := rest\<rparr>"
        using r by (simp_all add: pop_pending_simps)
      then show thesis
        by (intro pending[OF p]) (simp_all add: no_task_def)
    qed
  qed
qed

lemma stdlib_next_task:
  assumes "stdlib_invar n q" "stdlib_nxt t q = Some (Some a, q')"
  shows "stdlib_invar n q' \<and>
    ((immediate_tasks q = a # immediate_tasks q' \<and> mset (delayed_tasks q') = mset (delayed_tasks q))
     \<or> (immediate_tasks q' = immediate_tasks q
        \<and> (\<exists>due. due \<le> t \<and> mset (delayed_tasks q) = add_mset (due, a) (mset (delayed_tasks q')))))"
proof -
  obtain nt where nt: "GetNextTask t q = Some (nt, q')" "run_task nt = Some a"
    using assms(2) by (auto simp: stdlib_nxt_def)
  have nq: "\<not> thread_should_quit q"
    using assms(1) by (simp add: stdlib_invar_def)
  show ?thesis
    using nt assms(1)
    by (cases rule: GetNextTask_cases[OF nt(1) nq])
       (auto simp: stdlib_invar_def all_tasks_def orders_ok_def immediate_tasks_def delayed_tasks_def
         dest: smap_sorted_tl)
qed

lemma stdlib_next_idle:
  assumes "stdlib_invar n q" "stdlib_nxt t q = Some (None, q')"
  shows "q' = q \<and> immediate_tasks q = [] \<and> (\<forall>(due, a) \<in> set (delayed_tasks q). t < due)"
proof -
  obtain nt where nt: "GetNextTask t q = Some (nt, q')" "run_task nt = None"
    using assms(2) by (auto simp: stdlib_nxt_def)
  have inv: "\<not> thread_should_quit q" "all_tasks q" "smap_sorted (delayed_queue q)"
    using assms(1) by (auto simp: stdlib_invar_def orders_ok_def)
  from nt(1) inv(1) show ?thesis
  proof (cases rule: GetNextTask_cases)
    case idle
    have "t < next_fire_at_us (fst x)" if x: "x \<in> set (delayed_queue q)" for x
    proof -
      obtain e r later where d: "delayed_queue q = (e, r) # later"
        using x by (cases "delayed_queue q") auto
      then have "e \<le> fst x"
        using x smap_sorted_hd[of "(e, r)" later x] inv(3) by auto
      then have "next_fire_at_us e \<le> next_fire_at_us (fst x)"
        by (cases e; cases "fst x") (auto simp: less_eq_DelayedEntryTimeout_def)
      then show ?thesis
        using idle d by fastforce
    qed
    then show ?thesis
      using idle by (auto simp: immediate_tasks_def delayed_tasks_def)
  qed (use nt(2) inv(2) in \<open>auto simp: all_tasks_def\<close>)
qed

lemma fire_time_value: "fire_time now delay = Some t \<Longrightarrow> t = now + unit_value delay"
  by (auto simp: fire_time_def td_us_def i64_add_def checked_simps)

interpretation stdlib: task_queue stdlib_post stdlib_post_delayed stdlib_nxt immediate_tasks
  delayed_tasks stdlib_invar
proof
  fix n :: nat and q q' :: "'a tq_stdlib" and a :: 'a and now d t :: int
  show "stdlib_invar n q' \<and> immediate_tasks q' = immediate_tasks q @ [a]
      \<and> mset (delayed_tasks q') = mset (delayed_tasks q)"
    if "stdlib_invar (Suc n) q" "stdlib_post a q = Some q'"
    using that push_orders(1,3)[of q "Some a"]
    by (auto simp: stdlib_post_def PostTask_def stdlib_invar_def push_pending_laws)
  show "stdlib_invar n q' \<and> immediate_tasks q' = immediate_tasks q
      \<and> (\<exists>due. now + d \<le> due \<and> mset (delayed_tasks q') = add_mset (due, a) (mset (delayed_tasks q)))"
    if inv: "stdlib_invar (Suc n) q" and p: "stdlib_post_delayed now d a q = Some q'"
  proof -
    have ok: "orders_ok q" "unat (thread_posting_order q) + 1 < 2 ^ 64"
      using inv by (auto simp: stdlib_invar_def)
    have "q' = NotifyWake (push_delayed (now + d) (Some a) q)"
      using p fire_time_value[of now "Unit_T d"]
      by (auto simp: stdlib_post_delayed_def PostDelayedTask_def checked_simps)
    then show ?thesis
      using inv push_delayed_laws[OF ok, of "now + d" a] push_orders[OF ok]
      by (auto simp: stdlib_invar_def)
  qed
qed (fact stdlib_next_task stdlib_next_idle)+

end
