(* ===== verification/Stdlib_Worker.thy ===== *)
theory Stdlib_Worker
  imports Task_Queue_Stdlib
begin

text \<open>
  The worker thread of \<open>TaskQueueStdlib\<close> (\<open>ProcessTasks\<close>) and the posting threads, interleaved.  A step
  is a part of the code that runs under \<open>pending_lock_\<close> or under the event's mutex, or a read of the
  clock; in particular a posting thread can be interrupted between its push and its \<open>NotifyWake\<close>, and
  the worker between its clock read, \<open>GetNextTask\<close>'s critical section and the wait.  \<open>unnotified\<close> counts
  the posting threads that have pushed and not yet notified.  \<open>log\<close>, \<open>posted\<close> and \<open>posted_delayed\<close> record the
  history; the code does not have them.  \<open>posted_delayed\<close> has each delayed task with the time it is posted for:
  the clock its poster read and the delay.
\<close>

datatype 'a worker =
    ReadClock
  | HaveTick int
  | Got int "'a next_task"
  | Waiting int "'a next_task" wait_phase
  | Finished

record 'a tq_sys =
  tq :: "'a tq_stdlib"
  now :: int
  worker :: "'a worker"
  unnotified :: nat
  log :: "'a executed list"
  posted :: "'a list"
  posted_delayed :: "(int \<times> 'a) multiset"

definition tq_init :: "int \<Rightarrow> 'a tq_sys" where
  "tq_init start = \<lparr>tq = new_tq_stdlib, now = start, worker = ReadClock, unnotified = 0,
     log = [], posted = [], posted_delayed = {#}\<rparr>"

text \<open>What the worker's step hands to the task it runs is recorded with the queue it was taken from.\<close>

definition executed_of :: "int \<Rightarrow> 'a tq_stdlib \<Rightarrow> 'a tq_stdlib \<Rightarrow> 'a \<Rightarrow> 'a executed" where
  "executed_of t q q' a =
     (if delayed_queue q' = delayed_queue q then Ran_immediate a
      else Ran_delayed (next_fire_at_us (fst (hd (delayed_queue q)))) t a)"

fun after_wait :: "'a next_task \<Rightarrow> int \<Rightarrow> wait_outcome \<Rightarrow> 'a worker" where
  "after_wait nt t (Blocked p) = Waiting t nt p"
| "after_wait nt t (Returned b) = ReadClock"

definition set_event :: "event_state \<Rightarrow> 'a tq_stdlib \<Rightarrow> 'a tq_stdlib" where
  "set_event e q = q\<lparr>flag_notify := e\<rparr>"

inductive tq_step :: "'a tq_sys \<Rightarrow> 'a tq_sys \<Rightarrow> bool" where
  time_passes:
    "now s \<le> t \<Longrightarrow> tq_step s (s\<lparr>now := t\<rparr>)"
| post_push:
    "tq_step s (s\<lparr>tq := push_pending (Some a) (tq s), unnotified := unnotified s + 1,
       posted := posted s @ [a]\<rparr>)"
| post_delayed_push:
    "t \<le> now s \<Longrightarrow> fire_time t delay = Some fire_at \<Longrightarrow>
     tq_step s (s\<lparr>tq := push_delayed fire_at (Some a) (tq s), unnotified := unnotified s + 1,
       posted_delayed := add_mset (t + unit_value delay, a) (posted_delayed s)\<rparr>)"
| quit_request:
    "tq_step s (s\<lparr>tq := request_quit (tq s), unnotified := unnotified s + 1\<rparr>)"
| notify:
    "unnotified s = Suc n \<Longrightarrow> tq_step s (s\<lparr>tq := NotifyWake (tq s), unnotified := n\<rparr>)"
| worker_clock:
    "worker s = ReadClock \<Longrightarrow> tq_step s (s\<lparr>worker := HaveTick (now s)\<rparr>)"
| worker_get:
    "worker s = HaveTick t \<Longrightarrow> GetNextTask t (tq s) = Some (nt, q') \<Longrightarrow>
     tq_step s (s\<lparr>tq := q', worker := Got t nt,
       log := (case run_task nt of None \<Rightarrow> log s | Some a \<Rightarrow> log s @ [executed_of t (tq s) q' a])\<rparr>)"
| worker_finish:
    "worker s = Got t nt \<Longrightarrow> final_task nt \<Longrightarrow> tq_step s (s\<lparr>worker := Finished\<rparr>)"
| worker_run:
    "worker s = Got t nt \<Longrightarrow> \<not> final_task nt \<Longrightarrow> run_task nt = Some a \<Longrightarrow>
     tq_step s (s\<lparr>worker := ReadClock\<rparr>)"
| worker_wait:
    "worker s = Got t nt \<Longrightarrow> \<not> final_task nt \<Longrightarrow> run_task nt = None \<Longrightarrow>
     default_warn_after (sleep_time nt) = Some warn_after \<Longrightarrow>
     event_Wait (flag_notify (tq s)) (sleep_time nt) warn_after = (e, out) \<Longrightarrow>
     tq_step s (s\<lparr>tq := set_event e (tq s), worker := after_wait nt t out\<rparr>)"
| worker_wake:
    "worker s = Waiting t nt p \<Longrightarrow> wait_continue (flag_notify (tq s)) p err = (e, out) \<Longrightarrow>
     tq_step s (s\<lparr>tq := set_event e (tq s), worker := after_wait nt t out\<rparr>)"

inductive tq_reachable :: "int \<Rightarrow> 'a tq_sys \<Rightarrow> bool" for start where
  tq_start: "tq_reachable start (tq_init start)"
| tq_more: "tq_reachable start s \<Longrightarrow> tq_step s s' \<Longrightarrow> tq_reachable start s'"

inductive_cases tq_stepE: "tq_step s s'"

lemma set_event_simps [simp]:
  "pending_queue (set_event e q) = pending_queue q" "delayed_queue (set_event e q) = delayed_queue q"
  "thread_posting_order (set_event e q) = thread_posting_order q"
  "thread_should_quit (set_event e q) = thread_should_quit q"
  "flag_notify (set_event e q) = e"
  "immediate_tasks (set_event e q) = immediate_tasks q" "delayed_tasks (set_event e q) = delayed_tasks q"
  "all_tasks (set_event e q) = all_tasks q" "orders_ok (set_event e q) = orders_ok q"
  by (simp_all add: set_event_def immediate_tasks_def delayed_tasks_def all_tasks_def orders_ok_def)

lemma request_quit_simps [simp]:
  "immediate_tasks (request_quit q) = immediate_tasks q" "delayed_tasks (request_quit q) = delayed_tasks q"
  "all_tasks (request_quit q) = all_tasks q" "orders_ok (request_quit q) = orders_ok q"
  "thread_posting_order (request_quit q) = thread_posting_order q"
  "flag_notify (request_quit q) = flag_notify q" "thread_should_quit (request_quit q)"
  by (simp_all add: request_quit_def immediate_tasks_def delayed_tasks_def all_tasks_def orders_ok_def)

section \<open>Accounting for the tasks\<close>

text \<open>The number of posts; the order numbers are unique while it stays below \<open>2 ^ 64\<close>.\<close>

definition post_count :: "'a tq_sys \<Rightarrow> nat" where
  "post_count s = length (posted s) + size (posted_delayed s)"

definition well_ordered :: "'a tq_sys \<Rightarrow> bool" where
  "well_ordered s \<longleftrightarrow> all_tasks (tq s) \<and> orders_ok (tq s)
     \<and> unat (thread_posting_order (tq s)) = post_count s"

text \<open>What was run, with the time it was run at not after the present.\<close>

fun ran_by :: "int \<Rightarrow> 'a executed \<Rightarrow> bool" where
  "ran_by u (Ran_immediate a) = True"
| "ran_by u (Ran_delayed due t a) = (due \<le> t \<and> t \<le> u)"

lemma ran_by_later: "ran_by u x \<Longrightarrow> u \<le> v \<Longrightarrow> ran_by v x"
  by (cases x) auto

definition accounted :: "'a tq_sys \<Rightarrow> bool" where
  "accounted s \<longleftrightarrow> ran_immediate (log s) @ immediate_tasks (tq s) = posted s
     \<and> ran_due (log s) + mset (delayed_tasks (tq s)) = posted_delayed s
     \<and> (\<forall>x \<in> set (log s). ran_by (now s) x)
     \<and> (\<forall>t. worker s = HaveTick t \<longrightarrow> t \<le> now s)"

lemma ran_append:
  "ran_immediate (l @ [Ran_immediate a]) = ran_immediate l @ [a]"
  "ran_immediate (l @ [Ran_delayed d t a]) = ran_immediate l"
  "ran_due (l @ [Ran_immediate a]) = ran_due l"
  "ran_due (l @ [Ran_delayed d t a]) = add_mset (d, a) (ran_due l)"
  by (induction l rule: ran_immediate.induct) auto

lemma after_wait_not_tick [simp]: "after_wait nt t out \<noteq> HaveTick u"
  by (cases out) auto

lemma post_count_mono: "tq_step s s' \<Longrightarrow> post_count s \<le> post_count s'"
  by (cases rule: tq_step.cases) (auto simp: post_count_def)

lemma worker_get_accounted:
  assumes "GetNextTask t q = Some (nt, q')" "all_tasks q" "orders_ok q"
  shows "all_tasks q' \<and> orders_ok q' \<and> thread_posting_order q' = thread_posting_order q
    \<and> (case run_task nt of
         None \<Rightarrow> q' = q
       | Some a \<Rightarrow> (immediate_tasks q = a # immediate_tasks q' \<and> delayed_tasks q' = delayed_tasks q
             \<and> executed_of t q q' a = Ran_immediate a)
          \<or> (immediate_tasks q' = immediate_tasks q \<and> (\<exists>due. due \<le> t \<and> delayed_tasks q = (due, a) # delayed_tasks q'
             \<and> executed_of t q q' a = Ran_delayed due t a)))"
proof (cases "thread_should_quit q")
  case True
  then show ?thesis
    using assms by (auto simp: GetNextTask_def no_task_def)
next
  case False
  show ?thesis
    using assms
    by (cases rule: GetNextTask_cases[OF assms(1) False])
       (auto simp: all_tasks_def orders_ok_def immediate_tasks_def delayed_tasks_def executed_of_def
         dest: smap_sorted_tl)
qed

lemma well_ordered_step:
  assumes "tq_step s s'" "well_ordered s" "accounted s" "post_count s' < 2 ^ 64"
  shows "well_ordered s' \<and> accounted s'"
  using assms
proof (cases rule: tq_step.cases)
  case (time_passes t)
  then show ?thesis
    using assms ran_by_later[of "now s" _ t] by (fastforce simp: well_ordered_def accounted_def post_count_def)
next
  case (post_push a)
  then have "unat (thread_posting_order (tq s)) + 1 < 2 ^ 64"
    using assms by (auto simp: well_ordered_def post_count_def)
  then show ?thesis
    using post_push assms push_orders(1,3)[of "tq s" "Some a"] push_pending_laws(4)[of "tq s" a]
    by (auto simp: well_ordered_def accounted_def post_count_def push_pending_laws)
next
  case (post_delayed_push t delay fire_at a)
  then have b: "unat (thread_posting_order (tq s)) + 1 < 2 ^ 64" and o: "orders_ok (tq s)"
    using assms by (auto simp: well_ordered_def post_count_def)
  then show ?thesis
    using post_delayed_push assms push_orders(2)[OF o b, of fire_at "Some a"]
      push_orders(4)[OF o b, of fire_at "Some a"] push_delayed_laws[OF o b, of fire_at a] fire_time_value
    by (auto simp: well_ordered_def accounted_def post_count_def)
next
  case (worker_get t nt q')
  have "all_tasks (tq s)" "orders_ok (tq s)"
    using assms by (auto simp: well_ordered_def)
  from worker_get_accounted[OF worker_get(3) this] show ?thesis
    using worker_get assms
    by (auto simp: well_ordered_def accounted_def post_count_def ran_append split: option.splits)
qed (auto simp: well_ordered_def accounted_def post_count_def)

lemma reachable_accounted:
  assumes "tq_reachable start s" "post_count s < 2 ^ 64"
  shows "well_ordered s \<and> accounted s"
  using assms
proof (induction rule: tq_reachable.induct)
  case tq_start
  show ?case
    by (simp add: well_ordered_def accounted_def tq_init_def new_tq_stdlib_def all_tasks_def
        orders_ok_def smap_sorted_def immediate_tasks_def delayed_tasks_def post_count_def)
next
  case (tq_more s s')
  then show ?case
    using well_ordered_step[of s s'] post_count_mono[of s s'] by auto
qed

text \<open>C1: in every reachable state of \<open>TaskQueueStdlib\<close> with its worker and any number of posting
  threads, the tasks posted without delay have been run in the order of posting, once each, and
  what has not been run is still queued in that order; the delayed tasks are run or queued, once
  each, under the time they were posted for, that is, the clock read in \<open>PostDelayedTask\<close> and the delay;
  and none was run before that time.\<close>

theorem stdlib_tasks_accounted:
  assumes "tq_reachable start s" "post_count s < 2 ^ 64"
  shows "ran_immediate (log s) @ immediate_tasks (tq s) = posted s
    \<and> ran_due (log s) + mset (delayed_tasks (tq s)) = posted_delayed s
    \<and> (\<forall>x \<in> set (log s). ran_by (now s) x)"
  using reachable_accounted[OF assms] by (simp add: accounted_def)

section \<open>No lost wake-up\<close>

text \<open>A worker that saw no task at tick \<open>t\<close> may sleep for \<open>sleep_time\<close> when the queue has nothing to run
  now, no request to quit, and no delayed task that is due a millisecond or more before the end of
  the sleep.\<close>

definition may_sleep :: "int \<Rightarrow> 'a next_task \<Rightarrow> 'a tq_stdlib \<Rightarrow> bool" where
  "may_sleep t nt q \<longleftrightarrow> pending_queue q = [] \<and> \<not> thread_should_quit q
     \<and> (if IsPlusInfinity (sleep_time nt) then delayed_queue q = []
        else \<forall>e \<in> set (delayed_queue q). t + unit_value (sleep_time nt) < next_fire_at_us (fst e) + 1000)"

definition wake_pending :: "'a tq_sys \<Rightarrow> bool" where
  "wake_pending s \<longleftrightarrow> event_status (flag_notify (tq s)) \<or> 0 < unnotified s"

definition wake_ok :: "'a tq_sys \<Rightarrow> bool" where
  "wake_ok s \<longleftrightarrow> (case worker s of
       Got t nt \<Rightarrow> \<not> final_task nt \<longrightarrow> run_task nt = None \<longrightarrow> may_sleep t nt (tq s) \<or> wake_pending s
     | Waiting t nt p \<Rightarrow> may_sleep t nt (tq s) \<or> wake_pending s
     | _ \<Rightarrow> True)"

lemma Millis_value:
  "TimeDelta_Millis m = Some d \<Longrightarrow> unit_value d = m * 1000 \<and> \<not> IsPlusInfinity d"
  by (auto simp: TimeDelta_Millis_def FromFraction_def i64_mul_def checked_simps unit_tests int_ranges
      i64_div_def sdiv_pos_cases split: if_splits)

lemma GetNextTask_may_sleep:
  assumes "GetNextTask t q = Some (nt, q')" "all_tasks q" "orders_ok q"
    and "\<not> final_task nt" "run_task nt = None"
  shows "may_sleep t nt q'"
proof -
  have nq: "\<not> thread_should_quit q"
    using assms(1,4) by (auto simp: GetNextTask_def split: if_splits)
  from assms(1) nq show ?thesis
  proof (cases rule: GetNextTask_cases)
    case idle
    show ?thesis
    proof (cases "delayed_queue q")
      case Nil
      then show ?thesis
        using idle nq by (simp add: may_sleep_def unit_tests)
    next
      case (Cons x later)
      obtain e r where e: "delayed_queue q = (e, r) # later"
        using Cons by (cases x) auto
      obtain m where m: "DivideRoundUp (next_fire_at_us e - t) 1000 = Some m"
          "in_i64 (next_fire_at_us e - t)" "TimeDelta_Millis m = Some (sleep_time nt)"
        using idle(6)[OF e] by blast
      have "t + unit_value (sleep_time nt) < next_fire_at_us e + 1000"
        using DivideRoundUp_ceiling[OF m(1,2)] Millis_value[OF m(3)] by auto
      moreover have "next_fire_at_us e \<le> next_fire_at_us (fst y)" if "y \<in> set (delayed_queue q)" for y
      proof -
        have "e \<le> fst y"
          using that e assms(3) smap_sorted_hd[of "(e, r)" later y] by (auto simp: orders_ok_def)
        then show ?thesis
          by (cases e; cases "fst y") (auto simp: less_eq_DelayedEntryTimeout_def)
      qed
      ultimately show ?thesis
        using idle nq Millis_value[OF m(3)] by (fastforce simp: may_sleep_def)
    qed
  qed (use assms(2,5) in \<open>auto simp: all_tasks_def\<close>)
qed

lemma may_sleep_set_event [simp]: "may_sleep t nt (set_event e q) = may_sleep t nt q"
  by (simp add: may_sleep_def)

lemma after_wait_wake_ok:
  assumes "may_sleep t nt q \<or> event_status (flag_notify q) \<or> 0 < n"
    and "wait_continue (flag_notify q) p err = (e, out)"
  shows "case after_wait nt t out of
      Waiting t' nt' p' \<Rightarrow> may_sleep t' nt' q \<or> event_status e \<or> 0 < n | _ \<Rightarrow> True"
proof (cases out)
  case (Blocked p')
  then have "\<not> event_status (flag_notify q)" "e = flag_notify q"
    using assms(2) wait_continue_blocked[of "flag_notify q" p err p']
      wait_continue_keeps[of "flag_notify q" p err] by auto
  then show ?thesis
    using Blocked assms(1) by simp
qed simp

lemma tq_wake_ok_step:
  assumes "tq_step s s'" "wake_ok s" "well_ordered s"
  shows "wake_ok s'"
  using assms
proof (cases rule: tq_step.cases)
  case (worker_get t nt q')
  have "all_tasks (tq s)" "orders_ok (tq s)"
    using assms by (auto simp: well_ordered_def)
  then show ?thesis
    using worker_get GetNextTask_may_sleep[OF worker_get(3)] by (auto simp: wake_ok_def)
next
  case (worker_wait t nt warn_after e out)
  then have "may_sleep t nt (tq s) \<or> event_status (flag_notify (tq s)) \<or> 0 < unnotified s"
    using assms by (auto simp: wake_ok_def wake_pending_def)
  from after_wait_wake_ok[OF this worker_wait(6)[unfolded event_Wait_def]] show ?thesis
    using worker_wait by (cases out) (auto simp: wake_ok_def wake_pending_def)
next
  case (worker_wake t nt p err e out)
  then have "may_sleep t nt (tq s) \<or> event_status (flag_notify (tq s)) \<or> 0 < unnotified s"
    using assms by (auto simp: wake_ok_def wake_pending_def)
  from after_wait_wake_ok[OF this worker_wake(3)] show ?thesis
    using worker_wake by (cases out) (auto simp: wake_ok_def wake_pending_def)
qed (auto simp: wake_ok_def wake_pending_def NotifyWake_def split: worker.splits)

lemma tq_reachable_wake_ok:
  assumes "tq_reachable start s" "post_count s < 2 ^ 64"
  shows "wake_ok s"
  using assms
proof (induction rule: tq_reachable.induct)
  case tq_start
  show ?case
    by (simp add: wake_ok_def tq_init_def)
next
  case (tq_more s s')
  then have "post_count s < 2 ^ 64"
    using post_count_mono[of s s'] by simp
  then show ?case
    using tq_more tq_wake_ok_step reachable_accounted by blast
qed

lemma signaled_wait_returns:
  "event_status e \<Longrightarrow> \<exists>e' b. wait_continue e p err = (e', Returned b)"
  by (auto simp: event_defs)

text \<open>C2: no wake-up is lost.  When the worker is blocked on the event, no posting thread is about to
  notify it, and there is a reason to wake up (a task to run, a request to quit, or a delayed task
  that would be due a millisecond or more before the end of the sleep), then the event is signaled,
  so whatever way the wait is resumed it returns and the worker looks at the queue again.\<close>

theorem stdlib_no_lost_wakeup:
  assumes "tq_reachable start s" "post_count s < 2 ^ 64"
    and "worker s = Waiting t nt p" "unnotified s = 0" "\<not> may_sleep t nt (tq s)"
  shows "event_status (flag_notify (tq s))
    \<and> (\<forall>err. \<exists>e b. wait_continue (flag_notify (tq s)) p err = (e, Returned b))"
proof -
  have "event_status (flag_notify (tq s))"
    using tq_reachable_wake_ok[OF assms(1,2)] assms(3-5) by (simp add: wake_ok_def wake_pending_def)
  then show ?thesis
    using signaled_wait_returns by blast
qed

section \<open>Shutting down\<close>

fun worker_rank :: "'a worker \<Rightarrow> nat" where
  "worker_rank Finished = 0"
| "worker_rank (Got t nt) = (if final_task nt then 1 else 4)"
| "worker_rank (HaveTick t) = 2"
| "worker_rank ReadClock = 3"
| "worker_rank (Waiting t nt p) = 4"

lemma default_warn_after_Some: "\<exists>w. default_warn_after d = Some w"
  by (simp add: default_warn_after_def TimeDelta_Seconds_def FromFraction_def i64_div_def i64_mul_def
      i64_def int_ranges sdiv_pos_cases)

lemma progressI:
  "tq_step s s' \<Longrightarrow> worker_rank (worker s') < worker_rank (worker s) \<Longrightarrow>
     \<exists>s'. tq_step s s' \<and> worker_rank (worker s') < worker_rank (worker s)"
  by blast

lemma quit_progress:
  assumes "wake_ok s" "thread_should_quit (tq s)" "unnotified s = 0" "worker s \<noteq> Finished"
  shows "\<exists>s'. tq_step s s' \<and> worker_rank (worker s') < worker_rank (worker s)"
proof -
  have sig: "event_status (flag_notify (tq s))"
    if "worker s = Waiting t nt p \<or> (worker s = Got t nt \<and> \<not> final_task nt \<and> run_task nt = None)" for t nt p
    using that assms by (auto simp: wake_ok_def may_sleep_def wake_pending_def)
  show ?thesis
  proof (cases "worker s")
    case ReadClock
    from tq_step.worker_clock[OF ReadClock] show ?thesis
      by (rule progressI) (simp add: ReadClock)
  next
    case (HaveTick t)
    have "GetNextTask t (tq s) = Some (no_task\<lparr>final_task := True\<rparr>, tq s)"
      using assms by (simp add: GetNextTask_def)
    from tq_step.worker_get[OF HaveTick this] show ?thesis
      by (rule progressI) (simp add: HaveTick)
  next
    case (Got t nt)
    show ?thesis
    proof (cases "final_task nt")
      case True
      from tq_step.worker_finish[OF Got True] show ?thesis
        by (rule progressI) (simp add: Got True)
    next
      case False
      note nf = False
      show ?thesis
      proof (cases "run_task nt")
        case None
        obtain w where w: "default_warn_after (sleep_time nt) = Some w"
          using default_warn_after_Some by blast
        obtain e b where "event_Wait (flag_notify (tq s)) (sleep_time nt) w = (e, Returned b)"
          using signaled_wait_returns[OF sig[of t nt GiveUp]] Got None nf
          unfolding event_Wait_def by blast
        from tq_step.worker_wait[OF Got nf None w this] show ?thesis
          by (rule progressI) (simp add: Got nf)
      next
        case (Some a)
        from tq_step.worker_run[OF Got nf Some] show ?thesis
          by (rule progressI) (simp add: Got nf)
      qed
    qed
  next
    case (Waiting t nt p)
    obtain e b where "wait_continue (flag_notify (tq s)) p 0 = (e, Returned b)"
      using signaled_wait_returns[OF sig] Waiting by blast
    from tq_step.worker_wake[OF Waiting this] show ?thesis
      by (rule progressI) (simp add: Waiting)
  qed (use assms in simp)
qed

lemma quit_rank_step:
  assumes "tq_step s s'" "wake_ok s" "thread_should_quit (tq s)" "unnotified s = 0"
  shows "worker_rank (worker s') \<le> worker_rank (worker s) \<and> log s' = log s
    \<and> (worker s' \<noteq> worker s \<longrightarrow> worker_rank (worker s') < worker_rank (worker s))"
  using assms
proof (cases rule: tq_step.cases)
  case (worker_wait t nt warn_after e out)
  then have "event_status (flag_notify (tq s))"
    using assms by (auto simp: wake_ok_def may_sleep_def wake_pending_def)
  then obtain b where "out = Returned b"
    using worker_wait signaled_wait_returns by (metis event_Wait_def prod.inject)
  then show ?thesis
    using worker_wait by simp
next
  case (worker_wake t nt p err e out)
  then have "event_status (flag_notify (tq s))"
    using assms by (auto simp: wake_ok_def may_sleep_def wake_pending_def)
  then obtain b where "out = Returned b"
    using worker_wake signaled_wait_returns by (metis prod.inject)
  then show ?thesis
    using worker_wake by simp
qed (auto simp: GetNextTask_def no_task_def)

text \<open>C6: after \<open>Delete\<close> has asked the worker to quit and notified it, no further task is taken from the
  queue, every step of the worker brings it closer to the end of \<open>ProcessTasks\<close>, and until it is
  there such a step is possible.\<close>

theorem stdlib_quit_terminates:
  assumes "tq_reachable start s" "post_count s < 2 ^ 64" "thread_should_quit (tq s)" "unnotified s = 0"
  shows "(worker s \<noteq> Finished \<longrightarrow> (\<exists>s'. tq_step s s' \<and> worker_rank (worker s') < worker_rank (worker s)))
    \<and> (\<forall>s'. tq_step s s' \<longrightarrow> log s' = log s
        \<and> (worker s' \<noteq> worker s \<longrightarrow> worker_rank (worker s') < worker_rank (worker s)))"
  using tq_reachable_wake_ok[OF assms(1,2)] quit_progress quit_rank_step assms(3,4) by blast

section \<open>Concrete runs\<close>

text \<open>The worker of a fresh queue finds nothing, blocks without a time limit, and is then handed work.\<close>

definition idle_wait :: "nat tq_sys" where
  "idle_wait = (tq_init 0)\<lparr>worker := Waiting 0 no_task Warn\<rparr>"

lemma idle_wait_reachable: "tq_reachable 0 idle_wait"
proof -
  let ?s0 = "tq_init 0 :: nat tq_sys"
  let ?s1 = "?s0\<lparr>worker := HaveTick 0\<rparr>"
  let ?s2 = "?s1\<lparr>worker := Got 0 no_task\<rparr>"
  have r1: "tq_reachable 0 ?s1"
    using tq_more[OF tq_start, of 0 ?s1] worker_clock[of ?s0] by (simp add: tq_init_def)
  have "GetNextTask 0 (tq ?s1) = Some (no_task, tq ?s1)"
    by (simp add: GetNextTask_def tq_init_def new_tq_stdlib_def pop_pending_def)
  from worker_get[OF _ this] have r2: "tq_reachable 0 ?s2"
    using tq_more[OF r1, of ?s2] by (simp add: no_task_def)
  have w: "default_warn_after PlusInfinity = Some (Unit_T 3000000)"
    by (simp add: default_warn_after_def TimeDelta_Seconds_def FromFraction_def i64_div_def i64_mul_def
        i64_def int_ranges sdiv_pos_cases unit_tests)
  have "event_Wait (flag_notify (tq ?s2)) PlusInfinity (Unit_T 3000000) = (flag_notify (tq ?s2), Blocked Warn)"
    by (simp add: event_defs tq_init_def new_tq_stdlib_def less_eq_unit_base_def unit_le_def PlusInfinity_def i64_max_def)
  with w have "tq_step ?s2 (?s2\<lparr>tq := set_event (flag_notify (tq ?s2)) (tq ?s2),
      worker := after_wait no_task 0 (Blocked Warn)\<rparr>)"
    by (intro worker_wait) (auto simp: no_task_def)
  then have "tq_step ?s2 idle_wait"
    by (simp add: idle_wait_def set_event_def tq_init_def)
  with r2 show ?thesis
    by (rule tq_more)
qed

definition posted_wait :: "nat tq_sys" where
  "posted_wait = idle_wait\<lparr>tq := PostTask (Some 7) (tq idle_wait), posted := [7]\<rparr>"

lemma posted_wait_reachable: "tq_reachable 0 posted_wait"
proof -
  have "tq_reachable 0 (idle_wait\<lparr>tq := push_pending (Some 7) (tq idle_wait), unnotified := 1, posted := [7]\<rparr>)"
    using tq_more[OF idle_wait_reachable post_push[of idle_wait 7]] by (simp add: idle_wait_def tq_init_def)
  from tq_more[OF this notify[of _ 0]] show ?thesis
    by (simp add: posted_wait_def PostTask_def idle_wait_def tq_init_def)
qed

definition quit_wait :: "nat tq_sys" where
  "quit_wait = idle_wait\<lparr>tq := NotifyWake (request_quit (tq idle_wait))\<rparr>"

lemma quit_wait_reachable: "tq_reachable 0 quit_wait"
proof -
  have "tq_reachable 0 (idle_wait\<lparr>tq := request_quit (tq idle_wait), unnotified := 1\<rparr>)"
    using tq_more[OF idle_wait_reachable quit_request[of idle_wait]] by (simp add: idle_wait_def tq_init_def)
  from tq_more[OF this notify[of _ 0]] show ?thesis
    by (simp add: quit_wait_def idle_wait_def tq_init_def)
qed

lemmas concrete_runs = idle_wait_def posted_wait_def quit_wait_def tq_init_def new_tq_stdlib_def
  post_count_def

theorem stdlib_tasks_accounted_witness:
  "tq_reachable 0 posted_wait \<and>
   ran_immediate (log posted_wait) @ immediate_tasks (tq posted_wait) = [7]"
  using stdlib_tasks_accounted[OF posted_wait_reachable] posted_wait_reachable
  by (simp add: concrete_runs)

theorem stdlib_no_lost_wakeup_witness: "event_status (flag_notify (tq posted_wait))"
  using stdlib_no_lost_wakeup[OF posted_wait_reachable, of 0 no_task Warn]
  by (simp add: concrete_runs may_sleep_def PostTask_def push_pending_def Let_def)

theorem stdlib_quit_terminates_witness:
  "\<exists>s'. tq_step quit_wait s' \<and> worker_rank (worker s') < 4"
  using stdlib_quit_terminates[OF quit_wait_reachable] by (simp add: concrete_runs)

end
