(* ===== verification/Thread_Queue.thy ===== *)
theory Thread_Queue
  imports Event
begin

text \<open>
  The message queue of \<open>rtc::Thread\<close> (\<open>rtc_base/thread.cc\<close>): \<open>messages_\<close>, the priority queue
  \<open>delayed_messages_\<close>, posting, the locked part of \<open>Get\<close>, \<open>GetDelay\<close> and the arithmetic of the waiting
  times.  A \<open>std::priority_queue\<close> is the list of its elements in the order in which \<open>top\<close> hands them
  out; among elements that compare equal the standard leaves the order open, here it is first in,
  first out.  The clock \<open>TimeMillis\<close> is an argument.
\<close>

section \<open>State\<close>

definition kForever :: int where
  "kForever = - 1"

datatype 'a DelayedMessage =
  DelayedMessage (delay_ms: int) (run_time_ms: int) (message_number: "32 word") (msg_functor: "'a option")

text \<open>\<open>a < b\<close> of the source puts \<open>b\<close> nearer to the top: \<open>msg_before b a\<close>.\<close>

definition msg_before :: "'a DelayedMessage \<Rightarrow> 'a DelayedMessage \<Rightarrow> bool" where
  "msg_before m n \<longleftrightarrow> run_time_ms m < run_time_ms n
     \<or> (run_time_ms m = run_time_ms n \<and> message_number m < message_number n)"

fun pq_push :: "'a DelayedMessage \<Rightarrow> 'a DelayedMessage list \<Rightarrow> 'a DelayedMessage list" where
  "pq_push m [] = [m]"
| "pq_push m (n # ns) = (if msg_before m n then m # n # ns else n # pq_push m ns)"

record 'a thread_queue =
  messages :: "'a option list"
  delayed_messages :: "'a DelayedMessage list"
  delayed_next_num :: "32 word"
  stop :: int

definition new_thread_queue :: "'a thread_queue" where
  "new_thread_queue = \<lparr>messages = [], delayed_messages = [], delayed_next_num = 0, stop = 0\<rparr>"

section \<open>Operations\<close>

definition IsQuitting :: "'a thread_queue \<Rightarrow> bool" where
  "IsQuitting q \<longleftrightarrow> stop q \<noteq> 0"

definition set_stop :: "'a thread_queue \<Rightarrow> 'a thread_queue" where
  "set_stop q = q\<lparr>stop := 1\<rparr>"

definition Restart :: "'a thread_queue \<Rightarrow> 'a thread_queue" where
  "Restart q = q\<lparr>stop := 0\<rparr>"

definition queue_size :: "'a thread_queue \<Rightarrow> nat" where
  "queue_size q = length (messages q) + length (delayed_messages q)"

definition push_message :: "'a option \<Rightarrow> 'a thread_queue \<Rightarrow> 'a thread_queue" where
  "push_message task q = q\<lparr>messages := messages q @ [task]\<rparr>"

definition TimeAfter :: "int \<Rightarrow> int \<Rightarrow> int checked" where
  "TimeAfter now_ms elapsed = do { rtc_check (0 \<le> elapsed); i64_add now_ms elapsed }"

definition TimeDiff :: "int \<Rightarrow> int \<Rightarrow> int checked" where
  "TimeDiff later earlier = i64_sub later earlier"

definition TimeUntil :: "int \<Rightarrow> int \<Rightarrow> int checked" where
  "TimeUntil now_ms later = i64_sub later now_ms"

text \<open>\<open>ms<int>()\<close> converts with \<open>dchecked_cast<int>\<close>.\<close>

definition td_ms_int :: "TimeDelta \<Rightarrow> int checked" where
  "td_ms_int d = do { m \<leftarrow> td_ms d; rtc_check (in_i32 m); Some m }"

definition delay_in_ms :: "TimeDelta \<Rightarrow> int checked" where
  "delay_in_ms delay = do {
     one \<leftarrow> TimeDelta_Millis 1;
     r \<leftarrow> RoundUpTo False delay one;
     td_ms_int r
   }"

definition push_delayed_message :: "int \<Rightarrow> int \<Rightarrow> 'a option \<Rightarrow> 'a thread_queue \<Rightarrow> 'a thread_queue checked" where
  "push_delayed_message delay run_time task q = do {
     let next = delayed_next_num q + 1;
     rtc_check (next \<noteq> 0);
     Some (q\<lparr>delayed_messages :=
               pq_push (DelayedMessage delay run_time (delayed_next_num q) task) (delayed_messages q),
             delayed_next_num := next\<rparr>)
   }"

text \<open>The whole posting operations, with the socket server's \<open>WakeUp\<close> as a parameter.\<close>

definition thread_PostTask ::
  "('ss \<Rightarrow> 'ss) \<Rightarrow> 'a option \<Rightarrow> 'a thread_queue \<times> 'ss \<Rightarrow> 'a thread_queue \<times> 'ss" where
  "thread_PostTask wake_up task s =
     (if IsQuitting (fst s) then s else (push_message task (fst s), wake_up (snd s)))"

definition thread_PostDelayedTask ::
  "('ss \<Rightarrow> 'ss) \<Rightarrow> int \<Rightarrow> 'a option \<Rightarrow> TimeDelta \<Rightarrow> 'a thread_queue \<times> 'ss \<Rightarrow> ('a thread_queue \<times> 'ss) checked" where
  "thread_PostDelayedTask wake_up now_ms task delay s =
     (if IsQuitting (fst s) then Some s
      else do {
        d \<leftarrow> delay_in_ms delay;
        t \<leftarrow> TimeAfter now_ms d;
        q \<leftarrow> push_delayed_message d t task (fst s);
        Some (q, wake_up (snd s))
      })"

definition thread_Quit :: "('ss \<Rightarrow> 'ss) \<Rightarrow> 'a thread_queue \<times> 'ss \<Rightarrow> 'a thread_queue \<times> 'ss" where
  "thread_Quit wake_up s = (set_stop (fst s), wake_up (snd s))"

text \<open>The locked part of \<open>Get\<close>: due messages move to the end of \<open>messages_\<close>, \<open>cmsDelayNext\<close> is the time
  to the next one, then the front of \<open>messages_\<close> is taken.\<close>

fun promote :: "int \<Rightarrow> 'a option list \<Rightarrow> 'a DelayedMessage list
    \<Rightarrow> (int \<times> 'a option list \<times> 'a DelayedMessage list) checked" where
  "promote msCurrent ms [] = Some (kForever, ms, [])"
| "promote msCurrent ms (d # ds) =
     (if msCurrent < run_time_ms d
      then do { n \<leftarrow> TimeDiff (run_time_ms d) msCurrent; Some (n, ms, d # ds) }
      else promote msCurrent (ms @ [msg_functor d]) ds)"

datatype 'a get_result = Task "'a option" | NoTask int

definition get_locked :: "int \<Rightarrow> 'a thread_queue \<Rightarrow> ('a get_result \<times> 'a thread_queue) checked" where
  "get_locked msCurrent q = do {
     (cmsDelayNext, ms, ds) \<leftarrow> promote msCurrent (messages q) (delayed_messages q);
     Some (case ms of
        [] \<Rightarrow> (NoTask cmsDelayNext, q\<lparr>messages := ms, delayed_messages := ds\<rparr>)
      | task # rest \<Rightarrow> (Task task, q\<lparr>messages := rest, delayed_messages := ds\<rparr>))
   }"

definition next_wait :: "int \<Rightarrow> int \<Rightarrow> int \<Rightarrow> int checked" where
  "next_wait cmsWait cmsElapsed cmsDelayNext =
     (if cmsWait = kForever then Some cmsDelayNext
      else do {
        left \<leftarrow> i64_sub cmsWait cmsElapsed;
        let cmsNext = max 0 left;
        Some (if cmsDelayNext \<noteq> kForever \<and> cmsDelayNext < cmsNext then cmsDelayNext else cmsNext)
      })"

definition wait_duration :: "int \<Rightarrow> TimeDelta checked" where
  "wait_duration cmsNext = (if cmsNext = kForever then Some PlusInfinity else TimeDelta_Millis cmsNext)"

definition GetDelay :: "int \<Rightarrow> 'a thread_queue \<Rightarrow> int checked" where
  "GetDelay now_ms q =
     (if messages q \<noteq> [] then Some 0
      else case delayed_messages q of
        [] \<Rightarrow> Some kForever
      | d # ds \<Rightarrow> do {
          delay \<leftarrow> TimeUntil now_ms (run_time_ms d);
          let narrow = sint (word_of_int delay :: 32 word);
          Some (if narrow < 0 then 0 else narrow)
        })"

text \<open>\<open>Get\<close> as a whole.  The environment has an element for each round of its loop: what the other threads do to the
  queue after the mutex is released and before \<open>IsQuitting\<close> is evaluated, what they do after that until the wait has
  returned, its result, and the clock after it.  At the end of the list \<open>Get\<close> has not returned.\<close>

record 'a round =
  before_test :: "'a thread_queue \<Rightarrow> 'a thread_queue"
  others :: "'a thread_queue \<Rightarrow> 'a thread_queue"
  wait_ok :: bool
  ms_after :: int

datatype 'a get_outcome =
    Got_task "'a option" "'a thread_queue" int
  | Returns_null "'a thread_queue"
  | Still_waiting "'a thread_queue"

fun get_rounds :: "int \<Rightarrow> int \<Rightarrow> int \<Rightarrow> int \<Rightarrow> 'a round list \<Rightarrow> 'a thread_queue \<Rightarrow> 'a get_outcome checked" where
  "get_rounds cmsWait msStart msCurrent cmsElapsed env q =
     Option.bind (get_locked msCurrent q) (\<lambda>(r, q1).
       case r of
         Task t \<Rightarrow> Some (Got_task t q1 msCurrent)
       | NoTask cmsDelayNext \<Rightarrow>
           (case env of
              [] \<Rightarrow> Some (Still_waiting q1)
            | r # rs \<Rightarrow>
                (let q2 = before_test r q1 in
                 if IsQuitting q2 then Some (Returns_null q2)
                 else Option.bind (next_wait cmsWait cmsElapsed cmsDelayNext) (\<lambda>cmsNext.
                   Option.bind (wait_duration cmsNext) (\<lambda>_.
                     let q3 = others r q2 in
                     if \<not> wait_ok r then Some (Returns_null q3)
                     else Option.bind (TimeDiff (ms_after r) msStart) (\<lambda>elapsed.
                       if cmsWait \<noteq> kForever \<and> cmsWait \<le> elapsed then Some (Returns_null q3)
                       else get_rounds cmsWait msStart (ms_after r) elapsed rs q3))))))"

declare get_rounds.simps [simp del]

definition thread_Get :: "int \<Rightarrow> int \<Rightarrow> 'a round list \<Rightarrow> 'a thread_queue \<Rightarrow> 'a get_outcome checked" where
  "thread_Get cmsWait now_ms env q = get_rounds cmsWait now_ms now_ms 0 env q"

section \<open>Dispatch and the limit for warnings\<close>

record dispatch_state =
  dispatch_warning_ms :: int
  warnings :: "int list"

definition Dispatch_timing :: "int \<Rightarrow> int \<Rightarrow> dispatch_state \<Rightarrow> dispatch_state checked" where
  "Dispatch_timing start_time end_time s = do {
     diff \<leftarrow> TimeDiff end_time start_time;
     if dispatch_warning_ms s \<le> diff
     then do {
       limit \<leftarrow> i64_add diff 1;
       Some \<lparr>dispatch_warning_ms = sint (word_of_int limit :: 32 word), warnings = warnings s @ [diff]\<rparr>
     }
     else Some s
   }"

section \<open>Facts\<close>

definition pq_sorted :: "'a DelayedMessage list \<Rightarrow> bool" where
  "pq_sorted ds \<longleftrightarrow> sorted_wrt (\<lambda>m n. \<not> msg_before n m) ds"

lemma pq_push_set [simp]: "set (pq_push m ds) = insert m (set ds)"
  by (induction ds) auto

lemma pq_push_mset [simp]: "mset (pq_push m ds) = add_mset m (mset ds)"
  by (induction ds) auto

lemma msg_before_trans: "\<not> msg_before b a \<Longrightarrow> \<not> msg_before c b \<Longrightarrow> \<not> msg_before c a"
  by (auto simp: msg_before_def)

lemma msg_before_asym: "msg_before a b \<Longrightarrow> \<not> msg_before b a"
  by (auto simp: msg_before_def)

lemma pq_push_sorted: "pq_sorted ds \<Longrightarrow> pq_sorted (pq_push m ds)"
  unfolding pq_sorted_def
  by (induction ds) (auto dest: msg_before_asym msg_before_trans)

lemma pq_sorted_times: "pq_sorted (d # ds) \<Longrightarrow> e \<in> set ds \<Longrightarrow> run_time_ms d \<le> run_time_ms e"
  by (auto simp: pq_sorted_def msg_before_def not_less)

lemma pq_sorted_dropWhile: "pq_sorted ds \<Longrightarrow> pq_sorted (dropWhile P ds)"
  by (metis pq_sorted_def sorted_wrt_append takeWhile_dropWhile_id)

abbreviation is_due :: "int \<Rightarrow> 'a DelayedMessage \<Rightarrow> bool" where
  "is_due t d \<equiv> run_time_ms d \<le> t"

lemma promote_eq:
  "promote t ms ds = (case dropWhile (is_due t) ds of
      [] \<Rightarrow> Some (kForever, ms @ map msg_functor (takeWhile (is_due t) ds), [])
    | d # rest \<Rightarrow> map_option (\<lambda>n. (n, ms @ map msg_functor (takeWhile (is_due t) ds), d # rest))
        (TimeDiff (run_time_ms d) t))"
proof (induction t ms ds rule: promote.induct)
  case (2 t ms d ds)
  show ?case
  proof (cases "t < run_time_ms d")
    case True
    then show ?thesis
      by (cases "TimeDiff (run_time_ms d) t") auto
  next
    case False
    then show ?thesis
      using 2 by (cases "dropWhile (is_due t) ds") (auto simp del: dropWhile_eq_Nil_conv)
  qed
qed auto

lemma promote_Some:
  assumes "promote t ms ds = Some (n, ms', ds')"
  shows "ms' = ms @ map msg_functor (takeWhile (is_due t) ds)" "ds' = dropWhile (is_due t) ds"
    "ds' = [] \<Longrightarrow> n = kForever" "\<And>d rest. ds' = d # rest \<Longrightarrow> n = run_time_ms d - t \<and> 0 < n"
proof -
  have "\<not> is_due t d" if "dropWhile (is_due t) ds = d # rest" for d rest
    using that hd_dropWhile[of "is_due t" ds] by fastforce
  then have "ms' = ms @ map msg_functor (takeWhile (is_due t) ds) \<and> ds' = dropWhile (is_due t) ds
      \<and> (ds' = [] \<longrightarrow> n = kForever) \<and> (\<forall>d rest. ds' = d # rest \<longrightarrow> n = run_time_ms d - t \<and> 0 < n)"
    using assms unfolding promote_eq TimeDiff_def i64_sub_def
    by (cases "dropWhile (is_due t) ds") (auto simp: i64_eq_Some not_le simp del: dropWhile_eq_Nil_conv)
  then show "ms' = ms @ map msg_functor (takeWhile (is_due t) ds)" "ds' = dropWhile (is_due t) ds"
    "ds' = [] \<Longrightarrow> n = kForever" "\<And>d rest. ds' = d # rest \<Longrightarrow> n = run_time_ms d - t \<and> 0 < n"
    by blast+
qed

lemma promote_next_wait:
  assumes "promote t ms ds = Some (n, ms', ds')" "pq_sorted ds"
  shows "if n = kForever then ds' = [] else \<forall>d \<in> set ds'. t + n \<le> run_time_ms d"
proof (cases ds')
  case Nil
  then show ?thesis
    using promote_Some[OF assms(1)] by simp
next
  case (Cons d rest)
  then have "pq_sorted (d # rest)"
    using promote_Some(2)[OF assms(1)] pq_sorted_dropWhile[OF assms(2)] by metis
  then show ?thesis
    using Cons promote_Some(4)[OF assms(1) Cons] pq_sorted_times[of d rest] by (auto simp: kForever_def)
qed

lemma get_locked_cases:
  assumes "get_locked t q = Some (r, q')"
  obtains n ms ds where "promote t (messages q) (delayed_messages q) = Some (n, ms, ds)"
    "r = (case ms of [] \<Rightarrow> NoTask n | task # rest \<Rightarrow> Task task)"
    "q' = q\<lparr>messages := tl ms, delayed_messages := ds\<rparr>"
proof -
  obtain n ms ds where p: "promote t (messages q) (delayed_messages q) = Some (n, ms, ds)"
    using assms by (auto simp: get_locked_def checked_simps)
  show thesis
    using that[OF p] assms p by (cases ms) (auto simp: get_locked_def)
qed

lemma TimeDelta_Millis_1: "TimeDelta_Millis 1 = Some (Unit_T 1000)"
  by (simp add: TimeDelta_Millis_def FromFraction_def i64_div_def i64_mul_def i64_def int_ranges
      sdiv_pos_cases)

lemma sdiv_up: "(v::int) \<le> (v + 999) sdiv 1000 * 1000"
proof (cases "0 \<le> v + 999")
  case True
  then show ?thesis
    using div_bounds[of 1000 "v + 999"] by (simp add: sdiv_nonneg)
next
  case False
  then have "(v + 999) sdiv 1000 = - (- (v + 999) div 1000)"
    by (intro sdiv_neg) auto
  then show ?thesis
    using div_bounds[of 1000 "- (v + 999)"] by linarith
qed

lemma delay_in_ms_not_short:
  assumes "delay_in_ms delay = Some d"
  shows "unit_value delay \<le> 1000 * d"
proof -
  obtain q where q: "q = (unit_value delay + 999) sdiv 1000" "td_ms_int (Unit_T (q * 1000)) = Some d"
    using assms
    by (auto simp: delay_in_ms_def TimeDelta_Millis_1 RoundUpTo_def unit_mul_scalar_def i64_ops
        checked_simps algebra_simps split: if_splits)
  then have "DivRoundToNearest (q * 1000) 1000 = Some d"
    by (auto simp: td_ms_int_def td_ms_def ToFraction_def checked_simps split: if_splits)
  then have "2 * \<bar>d * 1000 - q * 1000\<bar> \<le> 1000"
    by (rule DivRoundToNearest_error) simp
  then have "d * 1000 - q * 1000 \<le> 500" "q * 1000 - d * 1000 \<le> 500"
    by (simp_all add: abs_le_iff)
  then have "d \<le> q" "q \<le> d"
    by linarith+
  then have "d = q"
    by simp
  then show ?thesis
    using sdiv_up[of "unit_value delay"] q(1) by simp
qed

lemma get_locked_top:
  assumes "messages q = []" "get_locked t q = Some (r, q')"
  shows "(\<exists>task. r = Task task) \<longleftrightarrow> (\<exists>d ds. delayed_messages q = d # ds \<and> run_time_ms d \<le> t)"
proof -
  obtain n ms ds where p: "promote t (messages q) (delayed_messages q) = Some (n, ms, ds)"
      "r = (case ms of [] \<Rightarrow> NoTask n | task # rest \<Rightarrow> Task task)"
    using get_locked_cases[OF assms(2)] by metis
  then show ?thesis
    using promote_Some(1)[OF p(1)] assms(1) by (cases "delayed_messages q") auto
qed

text \<open>C9: \<open>GetDelay\<close> tells when \<open>Get\<close> has a message: it returns 0 exactly when the locked part of \<open>Get\<close>
  at the same time yields one, a positive result is the time until the earliest delayed message runs,
  and \<open>kForever\<close> means that the queue is empty.\<close>

theorem GetDelay_agrees_with_Get:
  assumes "\<And>d. d \<in> set (delayed_messages q) \<Longrightarrow> in_i32 (run_time_ms d - now_ms)"
    and "pq_sorted (delayed_messages q)"
  shows "\<exists>r res q'. GetDelay now_ms q = Some r \<and> get_locked now_ms q = Some (res, q')
    \<and> (r = 0 \<longleftrightarrow> (\<exists>t. res = Task t))
    \<and> (0 < r \<longrightarrow> (\<forall>d \<in> set (delayed_messages q). now_ms + r \<le> run_time_ms d)
          \<and> run_time_ms (hd (delayed_messages q)) = now_ms + r)
    \<and> (r = kForever \<longleftrightarrow> queue_size q = 0)"
proof -
  have rng: "in_i64 (run_time_ms d - now_ms)" if "d \<in> set (delayed_messages q)" for d
    using assms(1)[OF that] by (auto simp: int_ranges)
  have "\<exists>res. promote now_ms (messages q) (delayed_messages q) = Some res"
  proof (cases "dropWhile (is_due now_ms) (delayed_messages q)")
    case (Cons d rest)
    then have "d \<in> set (delayed_messages q)"
      by (metis set_dropWhileD list.set_intros(1))
    then show ?thesis
      using Cons rng by (auto simp: promote_eq TimeDiff_def i64_sub_def)
  qed (auto simp: promote_eq simp del: dropWhile_eq_Nil_conv)
  then have "\<exists>p. get_locked now_ms q = Some p"
    by (auto simp: get_locked_def)
  then obtain res q' where g: "get_locked now_ms q = Some (res, q')"
    by (metis surj_pair)
  show ?thesis
  proof (cases "messages q")
    case (Cons t rest)
    then have "\<exists>t. res = Task t"
      using get_locked_cases[OF g] promote_Some(1) by (smt (verit) append_Cons list.simps(5))
    then show ?thesis
      using Cons g by (auto simp: GetDelay_def queue_size_def kForever_def)
  next
    case Nil
    note top = get_locked_top[OF Nil g]
    show ?thesis
    proof (cases "delayed_messages q")
      case Nil
      then show ?thesis
        using \<open>messages q = []\<close> g top by (auto simp: GetDelay_def queue_size_def kForever_def)
    next
      case (Cons d ds)
      let ?x = "run_time_ms d - now_ms"
      have "GetDelay now_ms q = Some (if ?x < 0 then 0 else ?x)"
        using \<open>messages q = []\<close> Cons assms(1)[of d] rng[of d] sint_narrow_i32[of ?x]
        by (simp add: GetDelay_def TimeUntil_def i64_sub_def Let_def)
      then show ?thesis
        using g top Cons assms(2) pq_sorted_times[of d ds]
        by (auto simp: queue_size_def kForever_def)
    qed
  qed
qed

theorem GetDelay_agrees_with_Get_witness:
  "\<exists>r. GetDelay 100 (new_thread_queue\<lparr>delayed_messages := [DelayedMessage 30 130 0 (Some ())]\<rparr>) = Some r
    \<and> r \<noteq> kForever"
  using GetDelay_agrees_with_Get[of
      "new_thread_queue\<lparr>delayed_messages := [DelayedMessage 30 130 0 (Some ())]\<rparr>" 100]
  by (auto simp: new_thread_queue_def pq_sorted_def queue_size_def int_ranges)

lemma get_locked_NoTask:
  assumes "get_locked t q = Some (NoTask n, q')"
  shows "q' = q \<and> messages q = [] \<and> (delayed_messages q \<noteq> [] \<longrightarrow> t < run_time_ms (hd (delayed_messages q)))"
proof -
  obtain ms ds where p: "promote t (messages q) (delayed_messages q) = Some (n, ms, ds)"
      "ms = []" "q' = q\<lparr>messages := tl ms, delayed_messages := ds\<rparr>"
    using get_locked_cases[OF assms] by (smt (verit) get_result.distinct(1) get_result.inject(2) list.case_eq_if)
  then have "takeWhile (is_due t) (delayed_messages q) = []" "messages q = []" "ds = delayed_messages q"
    using promote_Some(1,2)[OF p(1)] takeWhile_dropWhile_id[of "is_due t" "delayed_messages q"] by auto
  then show ?thesis
    using p by (cases "delayed_messages q") (auto split: if_splits)
qed

text \<open>Nothing is ready at tick \<open>t\<close>: no posted message and no delayed message that is due.\<close>

definition nothing_ready :: "int \<Rightarrow> 'a thread_queue \<Rightarrow> bool" where
  "nothing_ready t q \<longleftrightarrow> messages q = []
     \<and> (delayed_messages q \<noteq> [] \<longrightarrow> t < run_time_ms (hd (delayed_messages q)))"

text \<open>The queue after some rounds in which \<open>Get\<close> found nothing: what the other threads have made of it.\<close>

definition after_rounds :: "'a round list \<Rightarrow> 'a thread_queue \<Rightarrow> 'a thread_queue" where
  "after_rounds rs q = fold (\<lambda>r q. others r (before_test r q)) rs q"

definition last_tick :: "int \<Rightarrow> 'a round list \<Rightarrow> int" where
  "last_tick now_ms rs = last (now_ms # map ms_after rs)"

lemma after_rounds_simps [simp]:
  "after_rounds [] q = q" "after_rounds (r # rs) q = after_rounds rs (others r (before_test r q))"
  "last_tick t [] = t" "last_tick t (r # rs) = last_tick (ms_after r) rs"
  by (simp_all add: after_rounds_def last_tick_def)

text \<open>C8: a call of \<open>Get\<close> without a time limit whose waits succeed returns no task only in a round where, at its look at
  the queue, with the clock it read last, neither a posted message nor a due delayed one was there, and the thread was
  quitting when \<open>IsQuitting\<close> was evaluated after that look.  What it leaves is what the other threads have made of the
  queue: it takes nothing away.\<close>

theorem Get_returns_null_only_when_drained:
  assumes "thread_Get kForever now_ms env q = Some (Returns_null q')"
    and "\<And>r. r \<in> set env \<Longrightarrow> wait_ok r"
  shows "\<exists>before r later. env = before @ r # later
    \<and> nothing_ready (last_tick now_ms before) (after_rounds before q)
    \<and> q' = before_test r (after_rounds before q) \<and> IsQuitting q'"
proof -
  have "get_rounds kForever msStart t elapsed env q = Some (Returns_null q') \<Longrightarrow>
      \<exists>before r later. env = before @ r # later \<and> nothing_ready (last_tick t before) (after_rounds before q)
        \<and> q' = before_test r (after_rounds before q) \<and> IsQuitting q'" for msStart t elapsed
    using assms(2)
  proof (induction env arbitrary: t elapsed q)
    case Nil
    then obtain res q1 where g: "get_locked t q = Some (res, q1)"
      by (subst (asm) get_rounds.simps) (auto simp: checked_simps)
    then show ?case
      using Nil.prems(1) by (subst (asm) get_rounds.simps) (cases res; simp)
  next
    case (Cons r env)
    then obtain res q1 where g: "get_locked t q = Some (res, q1)"
      by (subst (asm) get_rounds.simps) (auto simp: checked_simps)
    with Cons.prems obtain n where n: "res = NoTask n"
      by (subst (asm) get_rounds.simps) (auto split: get_result.splits)
    note q1 = get_locked_NoTask[OF g[unfolded n]]
    show ?case
    proof (cases "IsQuitting (before_test r q)")
      case True
      then have "q' = before_test r q" "nothing_ready t q"
        using Cons.prems(1) g n q1 by (subst (asm) get_rounds.simps; simp add: nothing_ready_def)+
      then show ?thesis
        using True by (intro exI[of _ "[]"]) simp
    next
      case False
      then obtain e where e: "get_rounds kForever msStart (ms_after r) e env (others r (before_test r q)) = Some (Returns_null q')"
        using Cons.prems g n q1
        by (subst (asm) get_rounds.simps) (auto simp: checked_simps Let_def)
      from Cons.IH[OF this] Cons.prems(2) obtain before r' later where
        "env = before @ r' # later" "nothing_ready (last_tick (ms_after r) before) (after_rounds before (others r (before_test r q)))"
        "q' = before_test r' (after_rounds before (others r (before_test r q)))" "IsQuitting q'"
        by auto
      then show ?thesis
        by (intro exI[of _ "r # before"]) simp
    qed
  qed
  then show ?thesis
    using assms(1) unfolding thread_Get_def .
qed

lemmas get_eval = thread_Get_def get_rounds.simps get_locked_def new_thread_queue_def IsQuitting_def next_wait_def
  wait_duration_def kForever_def set_stop_def TimeDiff_def i64_sub_def i64_def int_ranges push_message_def

theorem Get_returns_null_only_when_drained_witness:
  "\<exists>q'. thread_Get kForever 5 [\<lparr>before_test = id, others = set_stop, wait_ok = True, ms_after = 9\<rparr>,
        \<lparr>before_test = id, others = id, wait_ok = True, ms_after = 9\<rparr>] (new_thread_queue :: unit thread_queue)
      = Some (Returns_null q') \<and> IsQuitting q'"
proof -
  let ?env = "[\<lparr>before_test = id, others = set_stop, wait_ok = True, ms_after = 9\<rparr>,
    \<lparr>before_test = id, others = id, wait_ok = True, ms_after = 9\<rparr>] :: unit round list"
  have run: "thread_Get kForever 5 ?env new_thread_queue = Some (Returns_null (set_stop new_thread_queue))"
    by (simp add: get_eval)
  have ok: "wait_ok r" if "r \<in> set ?env" for r
    using that by auto
  have "IsQuitting (set_stop new_thread_queue :: unit thread_queue)"
    using Get_returns_null_only_when_drained[OF run ok] by blast
  then show ?thesis
    using run by blast
qed

text \<open>A message that is posted after the look and before a \<open>Quit\<close> that \<open>IsQuitting\<close> sees is not delivered, although it was
  posted before the thread was told to quit.\<close>

lemma post_then_quit_is_not_delivered:
  "thread_Get kForever 5 [\<lparr>before_test = \<lambda>q. set_stop (push_message (Some a) q), others = id, wait_ok = True, ms_after = 9\<rparr>]
     new_thread_queue = Some (Returns_null (set_stop (push_message (Some a) new_thread_queue)))"
  by (simp add: get_eval)

end
