(* ===== verification/Thread_Worker.thy ===== *)
theory Thread_Worker
  imports Thread_Queue
begin

text \<open>
  The thread that runs \<open>Thread::Run\<close> (\<open>ProcessMessages(kForever)\<close> over \<open>Get(kForever)\<close>) and the posting
  threads, interleaved, over any socket server; and \<open>Thread::BlockingCall\<close>.  A socket server is used
  through \<open>WakeUp\<close> and \<open>Wait\<close> only (\<open>rtc_base/socket_server.h\<close>); its contract is the locale
  \<open>socket_server\<close>, which the \<open>NullSocketServer\<close> of \<open>rtc_base/null_socket_server.cc\<close> satisfies.
\<close>

section \<open>The contract of a socket server\<close>

text \<open>\<open>wait_step err s\<close> is one look of a waiting thread at the server: \<open>None\<close> when it blocks (again),
  \<open>Some ok\<close> when \<open>Wait\<close> returns \<open>ok\<close>.\<close>

locale socket_server =
  fixes wake_up :: "'ss \<Rightarrow> 'ss"
    and pending :: "'ss \<Rightarrow> bool"
    and wait_step :: "int \<Rightarrow> 'ss \<Rightarrow> 'ss \<times> bool option"
  assumes pending_wake_up: "pending (wake_up s)"
    and blocked_unchanged: "wait_step err s = (s', None) \<Longrightarrow> s' = s \<and> \<not> pending s"

section \<open>State and steps\<close>

text \<open>A task carries how it was posted: \<open>Imm\<close> without delay, \<open>Del due\<close> with the time in microseconds
  before which it must not run.\<close>

datatype 'a posted_task = Imm 'a | Del int 'a

datatype 'a thread_phase =
    Th_Check int
  | Th_NoTask int int
  | Th_Wait int int
  | Th_Woken
  | Th_Dispatch "'a posted_task"
  | Th_Done

record ('a, 'ss) thread_sys =
  th :: "'a posted_task thread_queue"
  ss :: 'ss
  now_ms :: int
  phase :: "'a thread_phase"
  unnotified :: nat
  dispatched :: "'a posted_task list"
  posted :: "'a list"
  posted_delayed :: "'a multiset"

definition thread_init :: "int \<Rightarrow> 'ss \<Rightarrow> ('a, 'ss) thread_sys" where
  "thread_init start s0 = \<lparr>th = new_thread_queue, ss = s0, now_ms = start, phase = Th_Check start,
     unnotified = 0, dispatched = [], posted = [], posted_delayed = {#}\<rparr>"

fun after_get :: "int \<Rightarrow> 'a posted_task get_result \<Rightarrow> 'a thread_phase" where
  "after_get t (Task (Some a)) = Th_Dispatch a"
| "after_get t (Task None) = Th_Done"
| "after_get t (NoTask n) = Th_NoTask t n"

fun after_ss_wait :: "int \<Rightarrow> int \<Rightarrow> bool option \<Rightarrow> 'a thread_phase" where
  "after_ss_wait t n None = Th_Wait t n"
| "after_ss_wait t n (Some ok) = (if ok then Th_Woken else Th_Done)"

fun note_task :: "'a posted_task get_result \<Rightarrow> 'a posted_task list \<Rightarrow> 'a posted_task list" where
  "note_task (Task (Some a)) l = l @ [a]"
| "note_task r l = l"

inductive thread_step ::
  "('ss \<Rightarrow> 'ss) \<Rightarrow> (int \<Rightarrow> 'ss \<Rightarrow> 'ss \<times> bool option) \<Rightarrow> ('a, 'ss) thread_sys \<Rightarrow> ('a, 'ss) thread_sys \<Rightarrow> bool"
  for wake_up wait_step where
  time_passes:
    "now_ms s \<le> t \<Longrightarrow> thread_step wake_up wait_step s (s\<lparr>now_ms := t\<rparr>)"
| post:
    "thread_step wake_up wait_step s (s\<lparr>th := push_message (Some (Imm a)) (th s),
       unnotified := unnotified s + 1, posted := posted s @ [a]\<rparr>)"
| post_delayed:
    "t \<le> now_ms s \<Longrightarrow> delay_in_ms delay = Some d \<Longrightarrow> TimeAfter t d = Some run_time \<Longrightarrow>
     push_delayed_message d run_time (Some (Del (t * 1000 + unit_value delay) a)) (th s) = Some q \<Longrightarrow>
     thread_step wake_up wait_step s (s\<lparr>th := q,
       unnotified := unnotified s + 1, posted_delayed := add_mset a (posted_delayed s)\<rparr>)"
| quit:
    "thread_step wake_up wait_step s (s\<lparr>th := set_stop (th s), unnotified := unnotified s + 1\<rparr>)"
| wake:
    "unnotified s = Suc n \<Longrightarrow>
     thread_step wake_up wait_step s (s\<lparr>ss := wake_up (ss s), unnotified := n\<rparr>)"
| get:
    "phase s = Th_Check t \<Longrightarrow> get_locked t (th s) = Some (r, q) \<Longrightarrow>
     thread_step wake_up wait_step s (s\<lparr>th := q, phase := after_get t r,
       dispatched := note_task r (dispatched s)\<rparr>)"
| quit_seen:
    "phase s = Th_NoTask t n \<Longrightarrow> IsQuitting (th s) \<Longrightarrow>
     thread_step wake_up wait_step s (s\<lparr>phase := Th_Done\<rparr>)"
| wait:
    "phase s = Th_NoTask t n \<Longrightarrow> \<not> IsQuitting (th s) \<Longrightarrow> wait_duration n = Some d \<Longrightarrow>
     wait_step 0 (ss s) = (s', r) \<Longrightarrow>
     thread_step wake_up wait_step s (s\<lparr>ss := s', phase := after_ss_wait t n r\<rparr>)"
| resume:
    "phase s = Th_Wait t n \<Longrightarrow> wait_step err (ss s) = (s', r) \<Longrightarrow>
     thread_step wake_up wait_step s (s\<lparr>ss := s', phase := after_ss_wait t n r\<rparr>)"
| clock:
    "phase s = Th_Woken \<Longrightarrow> thread_step wake_up wait_step s (s\<lparr>phase := Th_Check (now_ms s)\<rparr>)"
| dispatch:
    "phase s = Th_Dispatch a \<Longrightarrow> thread_step wake_up wait_step s (s\<lparr>phase := Th_Check (now_ms s)\<rparr>)"

inductive thread_reachable ::
  "('ss \<Rightarrow> 'ss) \<Rightarrow> (int \<Rightarrow> 'ss \<Rightarrow> 'ss \<times> bool option) \<Rightarrow> int \<Rightarrow> 'ss \<Rightarrow> ('a, 'ss) thread_sys \<Rightarrow> bool"
  for wake_up wait_step start s0 where
  thread_start: "thread_reachable wake_up wait_step start s0 (thread_init start s0)"
| thread_more: "thread_reachable wake_up wait_step start s0 s \<Longrightarrow> thread_step wake_up wait_step s s' \<Longrightarrow>
    thread_reachable wake_up wait_step start s0 s'"

section \<open>Accounting for the tasks\<close>

fun imm_of :: "'a posted_task list \<Rightarrow> 'a list" where
  "imm_of [] = []"
| "imm_of (Imm a # xs) = a # imm_of xs"
| "imm_of (Del t a # xs) = imm_of xs"

fun del_of :: "'a posted_task list \<Rightarrow> 'a multiset" where
  "del_of [] = {#}"
| "del_of (Imm a # xs) = del_of xs"
| "del_of (Del t a # xs) = add_mset a (del_of xs)"

lemma imm_of_append [simp]: "imm_of (xs @ ys) = imm_of xs @ imm_of ys"
  by (induction xs rule: imm_of.induct) auto

lemma del_of_append [simp]: "del_of (xs @ ys) = del_of xs + del_of ys"
  by (induction xs rule: imm_of.induct) auto

definition queued :: "'a posted_task thread_queue \<Rightarrow> 'a posted_task list" where
  "queued q = map the (messages q)"

definition waiting_tasks :: "'a posted_task thread_queue \<Rightarrow> 'a posted_task list" where
  "waiting_tasks q = map (the \<circ> msg_functor) (delayed_messages q)"

text \<open>A delayed message holds a task of the delayed kind and runs not before its time; a delayed task
  that has moved to \<open>messages_\<close> or was dispatched was due then.\<close>

definition delayed_ok :: "'a posted_task DelayedMessage \<Rightarrow> bool" where
  "delayed_ok d \<longleftrightarrow> (\<exists>t a. msg_functor d = Some (Del t a) \<and> t \<le> run_time_ms d * 1000)"

fun due_ok :: "int \<Rightarrow> 'a posted_task \<Rightarrow> bool" where
  "due_ok t (Imm a) = True"
| "due_ok t (Del due a) = (due \<le> t * 1000)"

lemma due_ok_mono: "due_ok t x \<Longrightarrow> t \<le> u \<Longrightarrow> due_ok u x"
  by (cases x) auto

definition thread_inv :: "('a, 'ss) thread_sys \<Rightarrow> bool" where
  "thread_inv s \<longleftrightarrow>
     imm_of (dispatched s) @ imm_of (queued (th s)) = posted s
     \<and> del_of (dispatched s) + del_of (queued (th s)) + del_of (waiting_tasks (th s)) = posted_delayed s
     \<and> None \<notin> set (messages (th s))
     \<and> (\<forall>d \<in> set (delayed_messages (th s)). delayed_ok d) \<and> pq_sorted (delayed_messages (th s))
     \<and> (\<forall>x \<in> set (dispatched s) \<union> set (queued (th s)). due_ok (now_ms s) x)
     \<and> (\<forall>t. phase s = Th_Check t \<longrightarrow> t \<le> now_ms s)"

lemma imm_of_delayed: "\<forall>d \<in> set ds. delayed_ok d \<Longrightarrow> imm_of (map (the \<circ> msg_functor) ds) = []"
  by (induction ds) (auto simp: delayed_ok_def)

lemma get_locked_inv:
  assumes g: "get_locked t q = Some (r, q')" and none: "None \<notin> set (messages q)"
    and ok: "\<forall>d \<in> set (delayed_messages q). delayed_ok d" and srt: "pq_sorted (delayed_messages q)"
  shows "\<exists>moved. queued q @ moved = (case r of Task x \<Rightarrow> the x # queued q' | NoTask n \<Rightarrow> queued q')
      \<and> waiting_tasks q = moved @ waiting_tasks q' \<and> imm_of moved = [] \<and> (\<forall>x \<in> set moved. due_ok t x)
      \<and> None \<notin> set (messages q') \<and> (\<forall>x. r = Task x \<longrightarrow> x \<noteq> None)
      \<and> (\<forall>d \<in> set (delayed_messages q'). delayed_ok d) \<and> pq_sorted (delayed_messages q')"
proof -
  obtain n ms ds where p: "promote t (messages q) (delayed_messages q) = Some (n, ms, ds)"
      "r = (case ms of [] \<Rightarrow> NoTask n | task # rest \<Rightarrow> Task task)"
      "q' = q\<lparr>messages := tl ms, delayed_messages := ds\<rparr>"
    using get_locked_cases[OF g] by metis
  let ?T = "takeWhile (is_due t) (delayed_messages q)"
  have split: "delayed_messages q = ?T @ ds" "ms = messages q @ map msg_functor ?T"
    using promote_Some[OF p(1)] by simp_all
  have okT: "\<forall>d \<in> set ?T. delayed_ok d \<and> run_time_ms d \<le> t"
    using ok by (auto dest: set_takeWhileD)
  let ?m = "map (the \<circ> msg_functor) ?T"
  have moved: "imm_of ?m = []" "None \<notin> msg_functor ` set ?T"
    using okT by (auto intro: imm_of_delayed simp: delayed_ok_def)
  have due: "\<forall>x \<in> set ?m. due_ok t x"
    using okT by (fastforce simp: delayed_ok_def)
  have "queued q @ ?m = map the ms"
    by (simp add: queued_def split(2))
  moreover have "waiting_tasks q = ?m @ waiting_tasks q'"
    using arg_cong[OF split(1), of "map (the \<circ> msg_functor)"] by (simp add: waiting_tasks_def p(3))
  moreover have "set ds \<subseteq> set (delayed_messages q)" "pq_sorted ds"
    using split(1) srt by (metis Un_upper2 set_append, metis pq_sorted_dropWhile promote_Some(2) p(1))
  moreover have "None \<notin> set ms"
    using none moved(2) by (auto simp: split(2))
  ultimately show ?thesis
    using p moved due ok
    by (intro exI[of _ ?m]) (cases ms; auto simp: queued_def)
qed

lemma phase_not_check [simp]: "after_get t r \<noteq> Th_Check u" "after_ss_wait t n b \<noteq> Th_Check u"
proof -
  show "after_get t r \<noteq> Th_Check u"
    by (induction t r rule: after_get.induct) auto
  show "after_ss_wait t n b \<noteq> Th_Check u"
    by (induction t n b rule: after_ss_wait.induct) auto
qed

lemma set_stop_simps [simp]:
  "messages (set_stop q) = messages q" "delayed_messages (set_stop q) = delayed_messages q"
  "queued (set_stop q) = queued q" "waiting_tasks (set_stop q) = waiting_tasks q" "IsQuitting (set_stop q)"
  by (simp_all add: set_stop_def queued_def waiting_tasks_def IsQuitting_def)

lemma push_message_simps [simp]:
  "messages (push_message t q) = messages q @ [t]" "delayed_messages (push_message t q) = delayed_messages q"
  "queued (push_message (Some a) q) = queued q @ [a]" "waiting_tasks (push_message t q) = waiting_tasks q"
  by (simp_all add: push_message_def queued_def waiting_tasks_def)

lemma push_delayed_message_eq:
  assumes "push_delayed_message d t task q = Some q'"
  shows "messages q' = messages q" "queued q' = queued q"
    "delayed_messages q' = pq_push (DelayedMessage d t (delayed_next_num q) task) (delayed_messages q)"
  using assms by (auto simp: push_delayed_message_def queued_def Let_def checked_simps split: if_splits)

lemma del_of_mset: "mset xs = mset ys \<Longrightarrow> del_of xs = del_of ys"
proof -
  have "del_of xs = sum_mset (image_mset (\<lambda>x. del_of [x]) (mset xs))" for xs :: "'a posted_task list"
    by (induction xs rule: imm_of.induct) auto
  then show "mset xs = mset ys \<Longrightarrow> del_of xs = del_of ys"
    by metis
qed

lemma thread_inv_step:
  assumes "thread_step wake_up wait_step s s'" "thread_inv s"
  shows "thread_inv s'"
  using assms
proof (cases rule: thread_step.cases)
  case (time_passes t)
  then show ?thesis
    using assms(2) due_ok_mono by (fastforce simp: thread_inv_def)
next
  case (post_delayed t delay d run_time a q)
  let ?x = "Del (t * 1000 + unit_value delay) a"
  let ?m = "DelayedMessage d run_time (delayed_next_num (th s)) (Some ?x)"
  note q = push_delayed_message_eq[OF post_delayed(5)]
  have "run_time = t + d"
    using post_delayed(4) by (auto simp: TimeAfter_def i64_add_def checked_simps split: if_splits)
  then have "delayed_ok ?m"
    using delay_in_ms_not_short[OF post_delayed(3)] by (auto simp: delayed_ok_def)
  moreover have "mset (waiting_tasks q) = mset (?x # waiting_tasks (th s))"
    by (simp add: waiting_tasks_def q(3))
  then have "del_of (waiting_tasks q) = del_of (?x # waiting_tasks (th s))"
    by (rule del_of_mset)
  ultimately show ?thesis
    using post_delayed(1) assms(2) q by (auto simp: thread_inv_def pq_push_sorted)
next
  case (get t r q)
  have inv: "None \<notin> set (messages (th s))" "\<forall>d \<in> set (delayed_messages (th s)). delayed_ok d"
      "pq_sorted (delayed_messages (th s))" and t: "t \<le> now_ms s"
    using assms(2) get(2) by (auto simp: thread_inv_def)
  obtain moved where m: "queued (th s) @ moved = (case r of Task x \<Rightarrow> the x # queued q | NoTask n \<Rightarrow> queued q)"
      "waiting_tasks (th s) = moved @ waiting_tasks q" "imm_of moved = []" "\<forall>x \<in> set moved. due_ok t x"
      "None \<notin> set (messages q)" "\<forall>x. r = Task x \<longrightarrow> x \<noteq> None"
      "\<forall>d \<in> set (delayed_messages q). delayed_ok d" "pq_sorted (delayed_messages q)"
    using get_locked_inv[OF get(3) inv] by blast
  define l where "l = (case r of Task x \<Rightarrow> [the x] | NoTask n \<Rightarrow> [])"
  have l: "queued (th s) @ moved = l @ queued q" "note_task r (dispatched s) = dispatched s @ l"
    using m(1,6) by (auto simp: l_def split: get_result.splits)
  have "imm_of (queued (th s)) = imm_of l @ imm_of (queued q)"
    using arg_cong[OF l(1), of imm_of] m(3) by simp
  moreover have "del_of (queued (th s)) + del_of moved = del_of l + del_of (queued q)"
    using arg_cong[OF l(1), of del_of] by simp
  moreover have "set (queued (th s)) \<union> set moved = set l \<union> set (queued q)"
    using arg_cong[OF l(1), of set] by simp
  moreover have "\<forall>x \<in> set moved. due_ok (now_ms s) x"
    using m(4) t due_ok_mono by blast
  moreover have "phase s' \<noteq> Th_Check u" for u
    using get(1) by simp
  ultimately show ?thesis
    using get(1) assms(2) m l(2)
    by (auto simp: thread_inv_def add.assoc) (metis (no_types, lifting) UnI1 UnI2 add.assoc)+
qed (auto simp: thread_inv_def)

lemma thread_reachable_inv: "thread_reachable wake_up wait_step start s0 s \<Longrightarrow> thread_inv s"
proof (induction rule: thread_reachable.induct)
  case thread_start
  show ?case
    by (simp add: thread_inv_def thread_init_def new_thread_queue_def queued_def waiting_tasks_def pq_sorted_def)
qed (rule thread_inv_step)

text \<open>C3: in every reachable state of a thread that runs its message loop over any socket server, with
  any number of posting threads, the tasks posted without delay were dispatched in the order of
  posting, once each, and the others are queued in that order; delayed tasks are dispatched or
  queued, once each, and a delayed task was dispatched at a time not before the one it was posted
  for.\<close>

theorem thread_tasks_accounted:
  assumes "thread_reachable wake_up wait_step start s0 s"
  shows "imm_of (dispatched s) @ imm_of (queued (th s)) = posted s
    \<and> del_of (dispatched s) + del_of (queued (th s)) + del_of (waiting_tasks (th s)) = posted_delayed s
    \<and> (\<forall>x \<in> set (dispatched s). due_ok (now_ms s) x)"
  using thread_reachable_inv[OF assms] by (simp add: thread_inv_def)

section \<open>No lost wake-up\<close>

text \<open>A thread that saw no message at tick \<open>t\<close> may wait for \<open>n\<close> milliseconds (\<open>kForever\<close>: without limit).\<close>

definition may_wait :: "int \<Rightarrow> int \<Rightarrow> 'a thread_queue \<Rightarrow> bool" where
  "may_wait t n q \<longleftrightarrow> messages q = []
     \<and> (if n = kForever then delayed_messages q = []
        else \<forall>d \<in> set (delayed_messages q). t + n \<le> run_time_ms d)"

definition thread_wake_ok :: "('ss \<Rightarrow> bool) \<Rightarrow> ('a, 'ss) thread_sys \<Rightarrow> bool" where
  "thread_wake_ok pending s \<longleftrightarrow> (case phase s of
       Th_NoTask t n \<Rightarrow> may_wait t n (th s) \<or> pending (ss s) \<or> 0 < unnotified s
     | Th_Wait t n \<Rightarrow> (may_wait t n (th s) \<and> \<not> IsQuitting (th s)) \<or> pending (ss s) \<or> 0 < unnotified s
     | _ \<Rightarrow> True)"

lemma get_locked_may_wait:
  assumes "get_locked t q = Some (NoTask n, q')" "pq_sorted (delayed_messages q)"
  shows "may_wait t n q'"
proof -
  obtain ms ds where p: "promote t (messages q) (delayed_messages q) = Some (n, ms, ds)"
      "ms = []" "q' = q\<lparr>messages := tl ms, delayed_messages := ds\<rparr>"
    using get_locked_cases[OF assms(1)]
    by (smt (verit) get_result.distinct(1) get_result.inject(2) list.case_eq_if)
  then show ?thesis
    using promote_next_wait[OF p(1) assms(2)] by (simp add: may_wait_def)
qed

lemma after_get_NoTask: "after_get t r = Th_NoTask u n \<Longrightarrow> r = NoTask n \<and> u = t"
  by (induction t r rule: after_get.induct) auto

lemma after_get_not_Wait [simp]: "after_get t r \<noteq> Th_Wait u n"
  by (induction t r rule: after_get.induct) auto

context socket_server
begin

lemma wake_ok_step:
  assumes "thread_step wake_up wait_step s s'" "thread_inv s" "thread_wake_ok pending s"
  shows "thread_wake_ok pending s'"
  using assms
proof (cases rule: thread_step.cases)
  case (wake n)
  then show ?thesis
    using pending_wake_up by (auto simp: thread_wake_ok_def split: thread_phase.splits)
next
  case (get t r q)
  have "pq_sorted (delayed_messages (th s))"
    using assms(2) by (simp add: thread_inv_def)
  then have "may_wait u n q" if "after_get t r = Th_NoTask u n" for u n
    using after_get_NoTask[OF that] get_locked_may_wait[of t "th s" n q] get(3) by simp
  then show ?thesis
    using get by (auto simp: thread_wake_ok_def split: thread_phase.splits)
next
  case (wait t n d s1 r)
  then show ?thesis
    using assms(3) blocked_unchanged[of 0 "ss s" s1]
    by (cases r) (auto simp: thread_wake_ok_def)
next
  case (resume t n err s1 r)
  then show ?thesis
    using assms(3) blocked_unchanged[of err "ss s" s1]
    by (cases r) (auto simp: thread_wake_ok_def)
qed (auto simp: thread_wake_ok_def split: thread_phase.splits)

lemma reachable_wake_ok:
  "thread_reachable wake_up wait_step start s0 s \<Longrightarrow> thread_wake_ok pending s"
proof (induction rule: thread_reachable.induct)
  case thread_start
  show ?case
    by (simp add: thread_wake_ok_def thread_init_def)
next
  case (thread_more s s')
  show ?case
    by (rule wake_ok_step[OF thread_more.hyps(2) thread_reachable_inv[OF thread_more.hyps(1)] thread_more.IH])
qed

lemma no_lost_wakeup:
  assumes "thread_reachable wake_up wait_step start s0 s" "phase s = Th_Wait t n" "unnotified s = 0"
    and "\<not> may_wait t n (th s) \<or> IsQuitting (th s)"
  shows "pending (ss s) \<and> (\<forall>err. snd (wait_step err (ss s)) \<noteq> None)"
proof -
  have "pending (ss s)"
    using reachable_wake_ok[OF assms(1)] assms(2-4) by (auto simp: thread_wake_ok_def)
  then show ?thesis
    using blocked_unchanged by (metis prod.collapse)
qed

end

section \<open>NullSocketServer\<close>

definition null_WakeUp :: "event_state \<Rightarrow> event_state" where
  "null_WakeUp e = event_Set e"

fun null_result :: "event_state \<times> wait_outcome \<Rightarrow> event_state \<times> bool option" where
  "null_result (e, Blocked p) = (e, None)"
| "null_result (e, Returned b) = (e, Some True)"

definition null_Wait :: "TimeDelta \<Rightarrow> event_state \<Rightarrow> event_state \<times> bool option" where
  "null_Wait max_wait_duration e = null_result (event_Wait e max_wait_duration PlusInfinity)"

definition null_wait_step :: "int \<Rightarrow> event_state \<Rightarrow> event_state \<times> bool option" where
  "null_wait_step err e = null_result (wait_continue e GiveUp err)"

lemma null_Wait_step: "in_i64 (unit_value d) \<Longrightarrow> null_Wait d e = null_wait_step 0 e"
  by (simp add: null_Wait_def null_wait_step_def event_Wait_def less_eq_unit_base_def unit_le_def PlusInfinity_def
      in_i64_def)

interpretation null_ss: socket_server null_WakeUp event_status null_wait_step
proof
  fix e e' :: event_state and err :: int
  show "event_status (null_WakeUp e)"
    by (simp add: null_WakeUp_def)
  assume w: "null_wait_step err e = (e', None)"
  obtain x out where x: "wait_continue e GiveUp err = (x, out)"
    by (cases "wait_continue e GiveUp err")
  with w have "\<exists>p. out = Blocked p" "x = e'"
    by (cases out; simp add: null_wait_step_def)+
  then show "e' = e \<and> \<not> event_status e"
    using x wait_continue_blocked[of e GiveUp err] wait_continue_keeps[of e GiveUp err] by auto
qed

text \<open>C5: over a \<open>NullSocketServer\<close> (\<open>Thread::Create\<close>) no wake-up of the message loop is lost: when the thread
  is blocked in \<open>Wait\<close>, no posting thread is about to call \<open>WakeUp\<close>, and a message is waiting, a delayed
  one would be due before the end of the wait, or the thread is to quit, then the event is signaled
  and the wait returns whatever the condition variable reports.\<close>

theorem thread_no_lost_wakeup:
  assumes "thread_reachable null_WakeUp null_wait_step start s0 s" "phase s = Th_Wait t n"
    and "unnotified s = 0" "\<not> may_wait t n (th s) \<or> IsQuitting (th s)"
  shows "event_status (ss s) \<and> (\<forall>err. snd (null_wait_step err (ss s)) \<noteq> None)"
  using null_ss.no_lost_wakeup[OF assms] .

section \<open>A concrete run\<close>

definition blocked_thread :: "(nat, event_state) thread_sys" where
  "blocked_thread = (thread_init 0 (new_event False False))\<lparr>phase := Th_Wait 0 kForever\<rparr>"

lemma blocked_thread_reachable:
  "thread_reachable null_WakeUp null_wait_step 0 (new_event False False) blocked_thread"
proof -
  let ?R = "thread_reachable null_WakeUp null_wait_step 0 (new_event False False)"
  let ?s0 = "thread_init 0 (new_event False False) :: (nat, event_state) thread_sys"
  let ?s1 = "?s0\<lparr>phase := Th_NoTask 0 kForever\<rparr>"
  have "get_locked 0 (th ?s0) = Some (NoTask kForever, th ?s0)"
    by (simp add: get_locked_def thread_init_def new_thread_queue_def)
  from get[OF _ this] have "?R ?s1"
    using thread_more[OF thread_start, of null_WakeUp null_wait_step 0 _ ?s1] by (simp add: thread_init_def)
  moreover have "thread_step null_WakeUp null_wait_step ?s1 blocked_thread"
    using wait[of ?s1 0 kForever PlusInfinity null_wait_step "ss ?s1" None]
    by (simp add: blocked_thread_def thread_init_def new_thread_queue_def IsQuitting_def wait_duration_def
        null_wait_step_def event_defs)
  ultimately show ?thesis
    by (rule thread_more)
qed

definition posted_thread :: "(nat, event_state) thread_sys" where
  "posted_thread = blocked_thread\<lparr>th := push_message (Some (Imm 7)) (th blocked_thread),
     ss := null_WakeUp (ss blocked_thread), posted := [7]\<rparr>"

lemma posted_thread_reachable:
  "thread_reachable null_WakeUp null_wait_step 0 (new_event False False) posted_thread"
proof -
  let ?R = "thread_reachable null_WakeUp null_wait_step 0 (new_event False False)"
  have "?R (blocked_thread\<lparr>th := push_message (Some (Imm 7)) (th blocked_thread), unnotified := 1, posted := [7]\<rparr>)"
    using thread_more[OF blocked_thread_reachable post[of _ _ blocked_thread 7]]
    by (simp add: blocked_thread_def thread_init_def)
  from thread_more[OF this wake[of _ 0]] show ?thesis
    by (simp add: posted_thread_def blocked_thread_def thread_init_def)
qed

theorem thread_tasks_accounted_witness:
  "imm_of (dispatched posted_thread) @ imm_of (queued (th posted_thread)) = [7]"
  using thread_tasks_accounted[OF posted_thread_reachable]
  by (simp add: posted_thread_def blocked_thread_def thread_init_def)

theorem thread_no_lost_wakeup_witness: "event_status (ss posted_thread)"
  using thread_no_lost_wakeup[OF posted_thread_reachable, of 0 kForever]
  by (simp add: posted_thread_def blocked_thread_def thread_init_def may_wait_def)

end
