(* ===== verification/Blocking_Call.thy ===== *)
theory Blocking_Call
  imports Thread_Worker
begin

text \<open>
  \<open>Thread::BlockingCall\<close> between two threads: the caller posts a task that runs the functor and whose
  destruction (\<open>absl::Cleanup\<close>) sets \<open>ready\<close> under the callee's mutex and wakes the caller's socket
  server; the caller checks \<open>ready\<close> and waits on its own socket server, over any server that satisfies
  the contract \<open>socket_server\<close>.  Other threads may wake the caller at any time.  The task can also be
  destroyed without being run, when the callee is quitting.  \<open>woken\<close> records that another thread has woken the caller's
  server during the call, for a reason of its own; the code does not have it.
\<close>

datatype callee_phase = Callee_queued | Callee_ran | Callee_dropped | Callee_ready | Callee_woke

datatype caller_phase =
    Caller_check bool
  | Caller_enter bool
  | Caller_wait bool
  | Caller_rewake
  | Caller_returned bool

record 'ss blocking_call =
  caller_ss :: 'ss
  ready :: bool
  executed :: nat
  dropped :: bool
  callee :: callee_phase
  caller :: caller_phase
  woken :: bool

definition blocking_init :: "'ss \<Rightarrow> 'ss blocking_call" where
  "blocking_init s0 = \<lparr>caller_ss = s0, ready = False, executed = 0, dropped = False,
     callee = Callee_queued, caller = Caller_check False, woken = False\<rparr>"

fun after_caller_wait :: "bool \<Rightarrow> bool option \<Rightarrow> caller_phase" where
  "after_caller_wait w None = Caller_wait w"
| "after_caller_wait w (Some ok) = Caller_check True"

inductive blocking_step ::
  "('ss \<Rightarrow> 'ss) \<Rightarrow> (int \<Rightarrow> 'ss \<Rightarrow> 'ss \<times> bool option) \<Rightarrow> 'ss blocking_call \<Rightarrow> 'ss blocking_call \<Rightarrow> bool"
  for wake_up wait_step where
  run_functor: "callee s = Callee_queued \<Longrightarrow>
    blocking_step wake_up wait_step s (s\<lparr>executed := executed s + 1, callee := Callee_ran\<rparr>)"
| drop_task: "callee s = Callee_queued \<Longrightarrow>
    blocking_step wake_up wait_step s (s\<lparr>dropped := True, callee := Callee_dropped\<rparr>)"
| set_ready: "callee s \<in> {Callee_ran, Callee_dropped} \<Longrightarrow>
    blocking_step wake_up wait_step s (s\<lparr>ready := True, callee := Callee_ready\<rparr>)"
| wake_caller: "callee s = Callee_ready \<Longrightarrow>
    blocking_step wake_up wait_step s (s\<lparr>caller_ss := wake_up (caller_ss s), callee := Callee_woke\<rparr>)"
| other_wake:
    "blocking_step wake_up wait_step s (s\<lparr>caller_ss := wake_up (caller_ss s), woken := True\<rparr>)"
| check_ready: "caller s = Caller_check w \<Longrightarrow> ready s \<Longrightarrow>
    blocking_step wake_up wait_step s (s\<lparr>caller := (if w then Caller_rewake else Caller_returned False)\<rparr>)"
| check_not_ready: "caller s = Caller_check w \<Longrightarrow> \<not> ready s \<Longrightarrow>
    blocking_step wake_up wait_step s (s\<lparr>caller := Caller_enter w\<rparr>)"
| enter_wait: "caller s = Caller_enter w \<Longrightarrow> wait_step 0 (caller_ss s) = (s1, r) \<Longrightarrow>
    blocking_step wake_up wait_step s (s\<lparr>caller_ss := s1, caller := after_caller_wait w r\<rparr>)"
| resume_wait: "caller s = Caller_wait w \<Longrightarrow> wait_step err (caller_ss s) = (s1, r) \<Longrightarrow>
    blocking_step wake_up wait_step s (s\<lparr>caller_ss := s1, caller := after_caller_wait w r\<rparr>)"
| rewake: "caller s = Caller_rewake \<Longrightarrow>
    blocking_step wake_up wait_step s (s\<lparr>caller_ss := wake_up (caller_ss s), caller := Caller_returned True\<rparr>)"

inductive blocking_reachable ::
  "('ss \<Rightarrow> 'ss) \<Rightarrow> (int \<Rightarrow> 'ss \<Rightarrow> 'ss \<times> bool option) \<Rightarrow> 'ss \<Rightarrow> 'ss blocking_call \<Rightarrow> bool"
  for wake_up wait_step s0 where
  blocking_start: "blocking_reachable wake_up wait_step s0 (blocking_init s0)"
| blocking_more: "blocking_reachable wake_up wait_step s0 s \<Longrightarrow> blocking_step wake_up wait_step s s' \<Longrightarrow>
    blocking_reachable wake_up wait_step s0 s'"

fun waits_for_callee :: "caller_phase \<Rightarrow> bool" where
  "waits_for_callee (Caller_enter w) = True"
| "waits_for_callee (Caller_wait w) = True"
| "waits_for_callee c = False"

text \<open>The caller has consumed wake-ups of its server, and will restore them, or has not yet done so.\<close>

fun has_waited :: "caller_phase \<Rightarrow> bool" where
  "has_waited (Caller_check w) = w"
| "has_waited (Caller_enter w) = w"
| "has_waited (Caller_wait w) = w"
| "has_waited Caller_rewake = True"
| "has_waited (Caller_returned w) = False"

fun has_left_loop :: "caller_phase \<Rightarrow> bool" where
  "has_left_loop Caller_rewake = True"
| "has_left_loop (Caller_returned w) = True"
| "has_left_loop c = False"

definition blocking_inv :: "('ss \<Rightarrow> bool) \<Rightarrow> 'ss \<Rightarrow> 'ss blocking_call \<Rightarrow> bool" where
  "blocking_inv pending s0 s \<longleftrightarrow>
     (ready s \<longleftrightarrow> callee s \<in> {Callee_ready, Callee_woke})
     \<and> executed s = (if callee s = Callee_queued \<or> dropped s then 0 else 1)
     \<and> (callee s = Callee_queued \<longrightarrow> \<not> dropped s)
     \<and> (has_left_loop (caller s) \<longrightarrow> ready s)
     \<and> (waits_for_callee (caller s) \<longrightarrow> callee s = Callee_woke \<longrightarrow> pending (caller_ss s))
     \<and> (caller s = Caller_returned True \<longrightarrow> pending (caller_ss s))
     \<and> (woken s \<or> pending s0 \<longrightarrow> pending (caller_ss s) \<or> has_waited (caller s))"

lemma after_caller_wait_phases [simp]:
  "has_left_loop (after_caller_wait w r) \<longleftrightarrow> False"
  "waits_for_callee (after_caller_wait w r) \<longleftrightarrow> r = None"
  "has_waited (after_caller_wait w r) \<longleftrightarrow> w \<or> r \<noteq> None"
  "after_caller_wait w r \<noteq> Caller_returned b"
  by (cases r; simp)+

context socket_server
begin

lemma blocking_inv_step:
  assumes "blocking_step wake_up wait_step s s'" "blocking_inv pending s0 s"
  shows "blocking_inv pending s0 s'"
  using assms
proof (cases rule: blocking_step.cases)
  case (enter_wait w s1 r)
  then show ?thesis
    using assms(2) blocked_unchanged[of 0 "caller_ss s" s1] by (auto simp: blocking_inv_def)
next
  case (resume_wait w err s1 r)
  then show ?thesis
    using assms(2) blocked_unchanged[of err "caller_ss s" s1] by (auto simp: blocking_inv_def)
qed (auto simp: blocking_inv_def pending_wake_up)

lemma blocking_reachable_inv:
  "blocking_reachable wake_up wait_step s0 s \<Longrightarrow> blocking_inv pending s0 s"
proof (induction rule: blocking_reachable.induct)
  case blocking_start
  show ?case
    by (simp add: blocking_inv_def blocking_init_def)
next
  case (blocking_more s s')
  show ?case
    by (rule blocking_inv_step[OF blocking_more.hyps(2) blocking_more.IH])
qed

lemma blocking_call_contract:
  assumes "blocking_reachable wake_up wait_step s0 s"
  shows "(\<forall>w. caller s = Caller_returned w \<longrightarrow>
       (executed s = 1 \<or> dropped s) \<and> executed s \<le> 1 \<and> (w \<or> woken s \<or> pending s0 \<longrightarrow> pending (caller_ss s)))
    \<and> (\<forall>w. caller s = Caller_wait w \<longrightarrow> callee s = Callee_woke \<longrightarrow>
       (\<forall>err. snd (wait_step err (caller_ss s)) \<noteq> None))"
proof (intro conjI allI impI)
  note inv = blocking_reachable_inv[OF assms, unfolded blocking_inv_def]
  fix w
  assume c: "caller s = Caller_returned w"
  with inv show "executed s = 1 \<or> dropped s" "executed s \<le> 1" "w \<or> woken s \<or> pending s0 \<Longrightarrow> pending (caller_ss s)"
    by auto
next
  fix w err
  assume "caller s = Caller_wait w" "callee s = Callee_woke"
  then have "pending (caller_ss s)"
    using blocking_reachable_inv[OF assms] by (simp add: blocking_inv_def)
  then show "snd (wait_step err (caller_ss s)) \<noteq> None"
    using blocked_unchanged by (metis prod.collapse)
qed

end

text \<open>C7: a \<open>BlockingCall\<close> from a thread with a \<open>NullSocketServer\<close> returns only after the functor has run
  (exactly once) or its task has been destroyed unrun by a quitting callee; the caller is never left
  asleep after the callee's wake-up; and no wake-up of its own thread is lost: if the server was signaled when the
  call began, or another thread has woken it during the call, or a wait of the call has taken a wake-up, then it is signaled when the call returns.\<close>

theorem blocking_call_completes:
  assumes "blocking_reachable null_WakeUp null_wait_step s0 s"
  shows "(\<forall>w. caller s = Caller_returned w \<longrightarrow>
       (executed s = 1 \<or> dropped s) \<and> executed s \<le> 1
       \<and> (w \<or> woken s \<or> event_status s0 \<longrightarrow> event_status (caller_ss s)))
    \<and> (\<forall>w. caller s = Caller_wait w \<longrightarrow> callee s = Callee_woke \<longrightarrow>
       (\<forall>err. snd (null_wait_step err (caller_ss s)) \<noteq> None))"
  by (rule null_ss.blocking_call_contract[OF assms])

text \<open>A run: another thread wakes the caller, whose wait takes the signal before the functor has run.\<close>

definition returned_call :: "event_state blocking_call" where
  "returned_call = \<lparr>caller_ss = event_Set (new_event False False), ready = True, executed = 1, dropped = False,
     callee = Callee_ready, caller = Caller_returned True, woken = True\<rparr>"

lemma returned_call_reachable:
  "blocking_reachable null_WakeUp null_wait_step (new_event False False) returned_call"
proof -
  let ?R = "blocking_reachable null_WakeUp null_wait_step (new_event False False)"
  let ?e = "new_event False False"
  let ?s0 = "blocking_init ?e"
  have w: "null_wait_step 0 (event_Set ?e) = (?e, Some True)"
    by (simp add: null_wait_step_def event_defs)
  have "?R (?s0\<lparr>caller_ss := event_Set ?e, woken := True\<rparr>)"
    using blocking_more[OF blocking_start[of null_WakeUp null_wait_step ?e] other_wake] by (simp add: blocking_init_def null_WakeUp_def)
  from blocking_more[OF this check_not_ready[of _ False]]
  have "?R (?s0\<lparr>caller_ss := event_Set ?e, woken := True, caller := Caller_enter False\<rparr>)"
    by (simp add: blocking_init_def)
  from blocking_more[OF this enter_wait[of _ False _ ?e "Some True"]]
  have "?R (?s0\<lparr>woken := True, caller := Caller_check True\<rparr>)"
    by (simp add: blocking_init_def w)
  from blocking_more[OF this run_functor] have "?R (?s0\<lparr>woken := True, caller := Caller_check True, executed := 1, callee := Callee_ran\<rparr>)"
    by (simp add: blocking_init_def)
  from blocking_more[OF this set_ready]
  have "?R (?s0\<lparr>woken := True, caller := Caller_check True, executed := 1, callee := Callee_ready, ready := True\<rparr>)"
    by (simp add: blocking_init_def)
  from blocking_more[OF this check_ready[of _ True]]
  have "?R (?s0\<lparr>woken := True, caller := Caller_rewake, executed := 1, callee := Callee_ready, ready := True\<rparr>)"
    by (simp add: blocking_init_def)
  from blocking_more[OF this rewake] show ?thesis
    by (simp add: blocking_init_def returned_call_def null_WakeUp_def)
qed

theorem blocking_call_completes_witness: "executed returned_call = 1 \<and> event_status (caller_ss returned_call)"
  using blocking_call_completes[OF returned_call_reachable] by (simp add: returned_call_def)

end
