(* ===== verification/Thread_Manager.thy ===== *)
theory Thread_Manager
  imports TQ_Prelude
begin

text \<open>
  \<open>rtc::ThreadManager\<close> (\<open>rtc_base/thread.cc\<close>): the list of message queues, the graph of blocking calls
  that \<open>RegisterSendAndCheckForCycles\<close> keeps acyclic, and the policy of allowed blocking calls of a
  \<open>Thread\<close>.  Threads are their addresses, a \<open>nat\<close> with 0 for \<open>nullptr\<close>; \<open>std::map\<close> and \<open>std::set\<close> are
  sorted lists.
\<close>

section \<open>State\<close>

type_synonym send_graph = "(nat \<times> nat list) list"

record thread_manager =
  message_queues :: "nat list"
  processing :: nat
  send_graph :: send_graph

definition new_thread_manager :: thread_manager where
  "new_thread_manager = \<lparr>message_queues = [], processing = 0, send_graph = []\<rparr>"

section \<open>The list of message queues\<close>

definition AddInternal :: "nat \<Rightarrow> thread_manager \<Rightarrow> thread_manager checked" where
  "AddInternal message_queue m = do {
     rtc_check (processing m = 0);
     Some (m\<lparr>message_queues := message_queues m @ [message_queue]\<rparr>)
   }"

fun RemoveFromSendGraph :: "nat \<Rightarrow> send_graph \<Rightarrow> send_graph" where
  "RemoveFromSendGraph thread [] = []"
| "RemoveFromSendGraph thread ((source, targets) # g) =
     (if source = thread then RemoveFromSendGraph thread g
      else (source, filter (\<lambda>t. t \<noteq> thread) targets) # RemoveFromSendGraph thread g)"

definition RemoveInternal :: "nat \<Rightarrow> thread_manager \<Rightarrow> thread_manager checked" where
  "RemoveInternal message_queue m = do {
     rtc_check (processing m = 0);
     Some (m\<lparr>message_queues := remove1 message_queue (message_queues m),
             send_graph := RemoveFromSendGraph message_queue (send_graph m)\<rparr>)
   }"

section \<open>The send graph\<close>

text \<open>\<open>send_graph_[t]\<close>: the targets of \<open>t\<close>, creating an empty entry when there is none.\<close>

definition graph_at :: "nat \<Rightarrow> send_graph \<Rightarrow> nat list" where
  "graph_at t g = (case map_of g t of None \<Rightarrow> [] | Some ts \<Rightarrow> ts)"

definition graph_touch :: "nat \<Rightarrow> send_graph \<Rightarrow> send_graph" where
  "graph_touch t g = (case map_of g t of None \<Rightarrow> smap_assign t [] g | Some ts \<Rightarrow> g)"

text \<open>The loop over \<open>all_targets\<close>: \<open>seen\<close> are the elements before the index \<open>i\<close>, \<open>todo\<close> those from \<open>i\<close> on.
  It returns \<open>None\<close> when the loop does not end.\<close>

partial_function (option) all_targets ::
  "send_graph \<Rightarrow> nat list \<Rightarrow> nat list \<Rightarrow> (nat list \<times> send_graph) option" where
  "all_targets g seen todo =
     (case todo of
        [] \<Rightarrow> Some (seen, g)
      | t # ts \<Rightarrow> all_targets (graph_touch t g) (seen @ [t]) (ts @ graph_at t g))"

definition RegisterSendAndCheckForCycles :: "nat \<Rightarrow> nat \<Rightarrow> thread_manager \<Rightarrow> thread_manager checked" where
  "RegisterSendAndCheckForCycles source target m = do {
     rtc_check (source \<noteq> 0);
     rtc_check (target \<noteq> 0);
     (targets, g) \<leftarrow> all_targets (send_graph m) [] [target];
     rtc_check (count_list targets source = 0);
     let sources = graph_at source g;
     Some (m\<lparr>send_graph := smap_assign source (insort_insert target sources) g\<rparr>)
   }"

section \<open>Policy of allowed blocking calls\<close>

record invoke_policy =
  allowed_threads :: "nat list"
  invoke_policy_enabled :: bool

definition AllowInvokesToThread :: "nat \<Rightarrow> invoke_policy \<Rightarrow> invoke_policy" where
  "AllowInvokesToThread thread p =
     p\<lparr>allowed_threads := allowed_threads p @ [thread], invoke_policy_enabled := True\<rparr>"

definition DisallowAllInvokes :: "invoke_policy \<Rightarrow> invoke_policy" where
  "DisallowAllInvokes p = p\<lparr>allowed_threads := [], invoke_policy_enabled := True\<rparr>"

definition IsInvokeToThreadAllowed :: "invoke_policy \<Rightarrow> nat \<Rightarrow> bool" where
  "IsInvokeToThreadAllowed p target =
     (if \<not> invoke_policy_enabled p then True else list_ex (\<lambda>thread. thread = target) (allowed_threads p))"

section \<open>The graph as a relation\<close>

definition edges :: "send_graph \<Rightarrow> (nat \<times> nat) set" where
  "edges g = {(s, t). t \<in> set (graph_at s g)}"

definition graph_ok :: "send_graph \<Rightarrow> bool" where
  "graph_ok g \<longleftrightarrow> smap_sorted g \<and> acyclic (edges g)"

lemma smap_sorted_distinct: "smap_sorted m \<Longrightarrow> distinct (map fst m)"
  by (simp add: smap_sorted_def strict_sorted_iff)

lemma map_of_smap_assign:
  "map_of (smap_assign k v m) = (map_of m)(k \<mapsto> v)" if "smap_sorted m"
  using that
proof (induction k v m rule: smap_assign.induct)
  case (2 k v x y xs)
  then show ?case
    by (auto simp: smap_sorted_tl fun_eq_iff)
qed simp

lemma graph_touch_same [simp]:
  "smap_sorted g \<Longrightarrow> graph_at s (graph_touch t g) = graph_at s g"
  "smap_sorted g \<Longrightarrow> smap_sorted (graph_touch t g)"
  by (auto simp: graph_touch_def graph_at_def map_of_smap_assign smap_assign_sorted split: option.splits)

lemma edges_touch [simp]: "smap_sorted g \<Longrightarrow> edges (graph_touch t g) = edges g"
  by (simp add: edges_def)

lemma graph_at_entry: "t \<in> set (graph_at s g) \<Longrightarrow> (s, graph_at s g) \<in> set g"
  by (cases "map_of g s") (auto simp: graph_at_def dest: map_of_SomeD)

lemma graph_at_assign:
  "smap_sorted g \<Longrightarrow> graph_at a (smap_assign s v g) = (if a = s then v else graph_at a g)"
  by (simp add: graph_at_def map_of_smap_assign)

lemma finite_edges: "finite (edges g)"
proof -
  have "edges g \<subseteq> (\<Union>(s, ts) \<in> set g. {s} \<times> set ts)"
    using graph_at_entry by (fastforce simp: edges_def)
  then show ?thesis
    by (rule finite_subset) auto
qed

lemma wf_edges: "graph_ok g \<Longrightarrow> wf ((edges g)\<inverse>)"
  using finite_edges finite_acyclic_wf_converse by (auto simp: graph_ok_def)

text \<open>The loop ends on an acyclic graph, because each step replaces a pending target by targets that are
  further down, and it visits exactly the threads that are reachable from the pending ones.\<close>

lemma all_targets_returns:
  assumes "graph_ok g"
  shows "\<exists>r g'. all_targets g seen todo = Some (r, g') \<and> smap_sorted g' \<and> edges g' = edges g
    \<and> set r = set seen \<union> (edges g)\<^sup>* `` set todo"
proof -
  let ?E = "edges g"
  have wf: "wf (mult (?E\<inverse>))"
    using wf_edges[OF assms] by (rule wf_mult)
  have "smap_sorted h \<Longrightarrow> edges h = ?E \<Longrightarrow> \<exists>r h'. all_targets h seen todo = Some (r, h') \<and> smap_sorted h' \<and> edges h' = ?E
      \<and> set r = set seen \<union> ?E\<^sup>* `` set todo" for h
    using wf
  proof (induction "mset todo" arbitrary: todo seen h rule: wf_induct_rule)
    case less
    show ?case
    proof (cases todo)
      case Nil
      then show ?thesis
        using less.prems by (subst all_targets.simps) simp
    next
      case (Cons t ts)
      let ?next = "ts @ graph_at t h"
      have "\<forall>x \<in># mset (graph_at t h). (x, t) \<in> ?E\<inverse>"
        using less.prems by (auto simp: edges_def)
      then have "(mset ?next, mset todo) \<in> mult (?E\<inverse>)"
        using one_step_implies_mult[of "{#t#}" "mset (graph_at t h)" "?E\<inverse>" "mset ts"] Cons by auto
      then obtain r h' where r: "all_targets (graph_touch t h) (seen @ [t]) ?next = Some (r, h')"
          "smap_sorted h'" "edges h' = ?E" "set r = set (seen @ [t]) \<union> ?E\<^sup>* `` set ?next"
        using less.hyps less.prems by (metis edges_touch graph_touch_same(2))
      have "set (graph_at t h) = ?E `` {t}"
        using less.prems by (auto simp: edges_def)
      then have "set seen \<union> ?E\<^sup>* `` set todo = set r"
        using r(4) Cons by (auto simp: Image_Un elim: converse_rtranclE intro: converse_rtrancl_into_rtrancl)
      then show ?thesis
        using r Cons by (subst all_targets.simps) simp
    qed
  qed
  then show ?thesis
    using assms by (simp add: graph_ok_def)
qed

lemma edges_insert:
  assumes "smap_sorted g"
  shows "edges (smap_assign s (insort_insert t (graph_at s g)) g) = insert (s, t) (edges g)"
  by (auto simp: edges_def graph_at_assign[OF assms] set_insort_insert split: if_splits)

text \<open>C4: while the send graph is acyclic, registering a blocking call always ends; it ends the process
  (a failed \<open>RTC_CHECK\<close>) exactly when the target already waits, directly or through other threads,
  for the source, and otherwise it adds the one edge and the graph is acyclic again.\<close>

theorem RegisterSend_keeps_acyclic:
  assumes "graph_ok (send_graph m)" "source \<noteq> 0" "target \<noteq> 0"
  shows "(\<exists>ts g. all_targets (send_graph m) [] [target] = Some (ts, g))
    \<and> (case RegisterSendAndCheckForCycles source target m of
         None \<Rightarrow> (target, source) \<in> (edges (send_graph m))\<^sup>*
       | Some m' \<Rightarrow> (target, source) \<notin> (edges (send_graph m))\<^sup>*
           \<and> edges (send_graph m') = insert (source, target) (edges (send_graph m))
           \<and> graph_ok (send_graph m'))"
proof -
  let ?g = "send_graph m"
  obtain r g' where r: "all_targets ?g [] [target] = Some (r, g')" "smap_sorted g'" "edges g' = edges ?g"
      "set r = (edges ?g)\<^sup>* `` {target}"
    using all_targets_returns[OF assms(1), of "[]" "[target]"] by auto
  have mem: "count_list r source = 0 \<longleftrightarrow> (target, source) \<notin> (edges ?g)\<^sup>*"
    using r(4) by (auto simp: count_list_0_iff)
  show ?thesis
  proof (cases "(target, source) \<in> (edges ?g)\<^sup>*")
    case True
    then show ?thesis
      using r mem assms by (simp add: RegisterSendAndCheckForCycles_def)
  next
    case False
    let ?g2 = "smap_assign source (insort_insert target (graph_at source g')) g'"
    have "RegisterSendAndCheckForCycles source target m = Some (m\<lparr>send_graph := ?g2\<rparr>)"
      using r mem assms False by (simp add: RegisterSendAndCheckForCycles_def Let_def)
    moreover have "edges ?g2 = insert (source, target) (edges ?g)"
      using edges_insert[OF r(2)] r(3) by simp
    moreover have "acyclic (insert (source, target) (edges ?g))"
      using False assms(1) by (simp add: graph_ok_def acyclic_insert)
    ultimately show ?thesis
      using r False by (simp add: graph_ok_def smap_assign_sorted)
  qed
qed

lemma graph_ok_empty: "graph_ok []"
  by (simp add: graph_ok_def smap_sorted_def edges_def graph_at_def acyclic_def)

theorem RegisterSend_keeps_acyclic_witness:
  "\<exists>m'. RegisterSendAndCheckForCycles 1 2 new_thread_manager = Some m' \<and> graph_ok (send_graph m')"
proof -
  have "(2, 1) \<notin> (edges [])\<^sup>*"
    by (auto simp: edges_def graph_at_def elim: converse_rtranclE)
  then show ?thesis
    using RegisterSend_keeps_acyclic[of new_thread_manager 1 2] graph_ok_empty
    by (auto simp: new_thread_manager_def split: option.splits)
qed

lemma map_of_Remove:
  "map_of (RemoveFromSendGraph t g) s =
     (if s = t then None else map_option (filter (\<lambda>u. u \<noteq> t)) (map_of g s))"
  by (induction t g rule: RemoveFromSendGraph.induct) auto

lemma graph_at_Remove:
  "graph_at s (RemoveFromSendGraph t g) = (if s = t then [] else filter (\<lambda>u. u \<noteq> t) (graph_at s g))"
  by (simp add: graph_at_def map_of_Remove split: option.split)

lemma Remove_keys: "fst ` set (RemoveFromSendGraph t g) \<subseteq> fst ` set g"
  by (induction t g rule: RemoveFromSendGraph.induct) auto

lemma Remove_sorted: "smap_sorted g \<Longrightarrow> smap_sorted (RemoveFromSendGraph t g)"
proof (induction t g rule: RemoveFromSendGraph.induct)
  case (2 thread source targets g)
  then show ?case
    using Remove_keys[of thread g] by (fastforce simp: smap_sorted_def)
qed simp

text \<open>C10: removing a thread keeps the graph acyclic and leaves no edge from or to that thread; all other
  edges stay.\<close>

theorem RemoveInternal_send_graph:
  assumes "RemoveInternal t m = Some m'" "graph_ok (send_graph m)"
  shows "graph_ok (send_graph m')
    \<and> edges (send_graph m') = {(s, u) \<in> edges (send_graph m). s \<noteq> t \<and> u \<noteq> t}
    \<and> message_queues m' = remove1 t (message_queues m)"
proof -
  have g: "send_graph m' = RemoveFromSendGraph t (send_graph m)" "message_queues m' = remove1 t (message_queues m)"
    using assms(1) by (auto simp: RemoveInternal_def checked_simps split: if_splits)
  have srt: "smap_sorted (send_graph m)" and acy: "acyclic (edges (send_graph m))"
    using assms(2) by (auto simp: graph_ok_def)
  have e: "edges (send_graph m') = {(s, u) \<in> edges (send_graph m). s \<noteq> t \<and> u \<noteq> t}"
    by (auto simp: g edges_def graph_at_Remove split: if_splits)
  then have "acyclic (edges (send_graph m'))"
    by (intro acyclic_subset[OF acy]) auto
  then show ?thesis
    using e g Remove_sorted[OF srt] by (simp add: graph_ok_def)
qed

theorem RemoveInternal_send_graph_witness: "\<exists>m'. RemoveInternal 3 new_thread_manager = Some m' \<and> graph_ok (send_graph m')"
proof -
  have "RemoveInternal 3 new_thread_manager = Some new_thread_manager"
    by (simp add: RemoveInternal_def new_thread_manager_def)
  from this RemoveInternal_send_graph[OF this] show ?thesis
    using graph_ok_empty by (simp add: new_thread_manager_def)
qed

end
