(* ===== verification/Flat_Tree.thy ===== *)
theory Flat_Tree
  imports TQ_Prelude
begin

text \<open>
  \<open>rtc_base/containers/flat_tree.h\<close>: the sorted vector behind \<open>flat_set\<close> and \<open>flat_map\<close>.  A tree is the
  list \<open>body_\<close>, an iterator is an index into it; \<open>lt\<close> is \<open>KeyCompare\<close> and \<open>key\<close> is \<open>GetKeyFromValue\<close>.
  The algorithms of the standard library (\<open>lower_bound\<close>, \<open>upper_bound\<close>, \<open>stable_sort\<close>, \<open>unique\<close>,
  \<open>inplace_merge\<close>, \<open>remove_if\<close>) are modelled by what they return on ranges that meet their
  preconditions.  What the code requires of a comparator is the locale \<open>strict_weak_order\<close>.
\<close>

section \<open>The standard library\<close>

definition std_lower_bound :: "('v \<Rightarrow> 'k \<Rightarrow> bool) \<Rightarrow> 'k \<Rightarrow> 'v list \<Rightarrow> nat" where
  "std_lower_bound cmp k xs = length (takeWhile (\<lambda>v. cmp v k) xs)"

definition std_upper_bound :: "('k \<Rightarrow> 'v \<Rightarrow> bool) \<Rightarrow> 'k \<Rightarrow> 'v list \<Rightarrow> nat" where
  "std_upper_bound cmp k xs = length (takeWhile (\<lambda>v. \<not> cmp k v) xs)"

fun stable_insert :: "('v \<Rightarrow> 'v \<Rightarrow> bool) \<Rightarrow> 'v \<Rightarrow> 'v list \<Rightarrow> 'v list" where
  "stable_insert cmp x [] = [x]"
| "stable_insert cmp x (y # ys) = (if cmp y x then y # stable_insert cmp x ys else x # y # ys)"

fun stable_sort :: "('v \<Rightarrow> 'v \<Rightarrow> bool) \<Rightarrow> 'v list \<Rightarrow> 'v list" where
  "stable_sort cmp [] = []"
| "stable_sort cmp (x # xs) = stable_insert cmp x (stable_sort cmp xs)"

fun std_unique :: "('v \<Rightarrow> 'v \<Rightarrow> bool) \<Rightarrow> 'v list \<Rightarrow> 'v list" where
  "std_unique p [] = []"
| "std_unique p [x] = [x]"
| "std_unique p (x # y # xs) = (if p x y then std_unique p (x # xs) else x # std_unique p (y # xs))"

fun std_merge :: "('v \<Rightarrow> 'v \<Rightarrow> bool) \<Rightarrow> 'v list \<Rightarrow> 'v list \<Rightarrow> 'v list" where
  "std_merge cmp [] ys = ys"
| "std_merge cmp xs [] = xs"
| "std_merge cmp (x # xs) (y # ys) =
     (if cmp y x then y # std_merge cmp (x # xs) ys else x # std_merge cmp xs (y # ys))"

definition vector_emplace :: "nat \<Rightarrow> 'v \<Rightarrow> 'v list \<Rightarrow> 'v list" where
  "vector_emplace i v xs = take i xs @ v # drop i xs"

definition vector_erase :: "nat \<Rightarrow> nat \<Rightarrow> 'v list \<Rightarrow> 'v list" where
  "vector_erase i j xs = take i xs @ drop j xs"

section \<open>Comparators and helpers\<close>

definition value_comp :: "('k \<Rightarrow> 'k \<Rightarrow> bool) \<Rightarrow> ('v \<Rightarrow> 'k) \<Rightarrow> 'v \<Rightarrow> 'v \<Rightarrow> bool" where
  "value_comp lt key l r = lt (key l) (key r)"

fun is_sorted_and_unique :: "('v \<Rightarrow> 'v \<Rightarrow> bool) \<Rightarrow> 'v list \<Rightarrow> bool" where
  "is_sorted_and_unique cmp (x # y # xs) = (cmp x y \<and> is_sorted_and_unique cmp (y # xs))"
| "is_sorted_and_unique cmp xs = True"

text \<open>\<open>InsertionSort\<close>: the inner loop moves the element at index \<open>curr\<close> down by swaps.\<close>

fun sift :: "('v \<Rightarrow> 'v \<Rightarrow> bool) \<Rightarrow> nat \<Rightarrow> 'v list \<Rightarrow> 'v list" where
  "sift cmp 0 xs = xs"
| "sift cmp (Suc n) xs =
     (if cmp (xs ! Suc n) (xs ! n) then sift cmp n (xs[Suc n := xs ! n, n := xs ! Suc n]) else xs)"

definition InsertionSort :: "('v \<Rightarrow> 'v \<Rightarrow> bool) \<Rightarrow> 'v list \<Rightarrow> 'v list" where
  "InsertionSort cmp xs = foldl (\<lambda>ys i. sift cmp i ys) xs [1..<length xs]"

section \<open>Construction\<close>

definition sort_and_unique :: "('k \<Rightarrow> 'k \<Rightarrow> bool) \<Rightarrow> ('v \<Rightarrow> 'k) \<Rightarrow> 'v list \<Rightarrow> 'v list" where
  "sort_and_unique lt key xs =
     std_unique (\<lambda>l r. \<not> value_comp lt key l r) (stable_sort (value_comp lt key) xs)"

definition flat_tree :: "('k \<Rightarrow> 'k \<Rightarrow> bool) \<Rightarrow> ('v \<Rightarrow> 'k) \<Rightarrow> 'v list \<Rightarrow> 'v list" where
  "flat_tree lt key items = sort_and_unique lt key items"

definition flat_tree_sorted_unique :: "('k \<Rightarrow> 'k \<Rightarrow> bool) \<Rightarrow> ('v \<Rightarrow> 'k) \<Rightarrow> 'v list \<Rightarrow> 'v list checked" where
  "flat_tree_sorted_unique lt key items = do {
     rtc_check (is_sorted_and_unique (value_comp lt key) items);
     Some items
   }"

definition flat_replace :: "('k \<Rightarrow> 'k \<Rightarrow> bool) \<Rightarrow> ('v \<Rightarrow> 'k) \<Rightarrow> 'v list \<Rightarrow> 'v list \<Rightarrow> 'v list checked" where
  "flat_replace lt key body tree = do {
     rtc_check (is_sorted_and_unique (value_comp lt key) body);
     Some body
   }"

definition flat_extract :: "'v list \<Rightarrow> 'v list \<times> 'v list" where
  "flat_extract tree = (tree, [])"

section \<open>Search\<close>

definition flat_lower_bound :: "('k \<Rightarrow> 'k \<Rightarrow> bool) \<Rightarrow> ('v \<Rightarrow> 'k) \<Rightarrow> 'k \<Rightarrow> 'v list \<Rightarrow> nat" where
  "flat_lower_bound lt key k tree = std_lower_bound (\<lambda>v k. lt (key v) k) k tree"

definition flat_upper_bound :: "('k \<Rightarrow> 'k \<Rightarrow> bool) \<Rightarrow> ('v \<Rightarrow> 'k) \<Rightarrow> 'k \<Rightarrow> 'v list \<Rightarrow> nat" where
  "flat_upper_bound lt key k tree = std_upper_bound (\<lambda>k v. lt k (key v)) k tree"

definition flat_equal_range :: "('k \<Rightarrow> 'k \<Rightarrow> bool) \<Rightarrow> ('v \<Rightarrow> 'k) \<Rightarrow> 'k \<Rightarrow> 'v list \<Rightarrow> nat \<times> nat" where
  "flat_equal_range lt key k tree =
     (let lower = flat_lower_bound lt key k tree
      in if lower = length tree \<or> lt k (key (tree ! lower)) then (lower, lower) else (lower, lower + 1))"

definition flat_find :: "('k \<Rightarrow> 'k \<Rightarrow> bool) \<Rightarrow> ('v \<Rightarrow> 'k) \<Rightarrow> 'k \<Rightarrow> 'v list \<Rightarrow> nat" where
  "flat_find lt key k tree =
     (let r = flat_equal_range lt key k tree in if fst r = snd r then length tree else fst r)"

definition flat_count :: "('k \<Rightarrow> 'k \<Rightarrow> bool) \<Rightarrow> ('v \<Rightarrow> 'k) \<Rightarrow> 'k \<Rightarrow> 'v list \<Rightarrow> nat" where
  "flat_count lt key k tree = (let r = flat_equal_range lt key k tree in snd r - fst r)"

definition flat_contains :: "('k \<Rightarrow> 'k \<Rightarrow> bool) \<Rightarrow> ('v \<Rightarrow> 'k) \<Rightarrow> 'k \<Rightarrow> 'v list \<Rightarrow> bool" where
  "flat_contains lt key k tree =
     (let lower = flat_lower_bound lt key k tree
      in lower \<noteq> length tree \<and> \<not> lt k (key (tree ! lower)))"

section \<open>Insertion\<close>

text \<open>Each insertion returns the new body, the position of the element and whether it was inserted.\<close>

definition emplace_key_args ::
  "('k \<Rightarrow> 'k \<Rightarrow> bool) \<Rightarrow> ('v \<Rightarrow> 'k) \<Rightarrow> 'v \<Rightarrow> 'v list \<Rightarrow> 'v list \<times> nat \<times> bool" where
  "emplace_key_args lt key v tree =
     (let lower = flat_lower_bound lt key (key v) tree
      in if lower = length tree \<or> lt (key v) (key (tree ! lower))
         then (vector_emplace lower v tree, lower, True)
         else (tree, lower, False))"

definition emplace_hint_key_args ::
  "('k \<Rightarrow> 'k \<Rightarrow> bool) \<Rightarrow> ('v \<Rightarrow> 'k) \<Rightarrow> nat \<Rightarrow> 'v \<Rightarrow> 'v list \<Rightarrow> 'v list \<times> nat \<times> bool" where
  "emplace_hint_key_args lt key hint v tree =
     (if hint = 0 \<or> lt (key (tree ! (hint - 1))) (key v)
      then (if hint = length tree \<or> lt (key v) (key (tree ! hint))
            then (vector_emplace hint v tree, hint, True)
            else if \<not> lt (key (tree ! hint)) (key v) then (tree, hint, False)
            else emplace_key_args lt key v tree)
      else emplace_key_args lt key v tree)"

definition flat_insert :: "('k \<Rightarrow> 'k \<Rightarrow> bool) \<Rightarrow> ('v \<Rightarrow> 'k) \<Rightarrow> 'v \<Rightarrow> 'v list \<Rightarrow> 'v list \<times> nat \<times> bool" where
  "flat_insert lt key v tree = emplace_key_args lt key v tree"

definition flat_insert_hint :: "('k \<Rightarrow> 'k \<Rightarrow> bool) \<Rightarrow> ('v \<Rightarrow> 'k) \<Rightarrow> nat \<Rightarrow> 'v \<Rightarrow> 'v list \<Rightarrow> 'v list \<times> nat" where
  "flat_insert_hint lt key hint v tree =
     (let (t, i, b) = emplace_hint_key_args lt key hint v tree in (t, i))"

text \<open>The range insertion keeps the old elements in front (up to \<open>middle\<close>), appends the values that have
  no equivalent among them, sorts and deduplicates the new part and merges it in from the smallest
  insertion point on.\<close>

definition append_unique :: "('k \<Rightarrow> 'k \<Rightarrow> bool) \<Rightarrow> ('v \<Rightarrow> 'k) \<Rightarrow> nat \<Rightarrow> 'v \<Rightarrow> 'v list \<Rightarrow> 'v list \<times> nat \<times> bool" where
  "append_unique lt key middle v body =
     (let position = std_lower_bound (value_comp lt key) v (take middle body)
      in if position = middle \<or> value_comp lt key v (body ! position)
         then (body @ [v], position, True)
         else (body, position, False))"

fun append_range ::
  "('k \<Rightarrow> 'k \<Rightarrow> bool) \<Rightarrow> ('v \<Rightarrow> 'k) \<Rightarrow> nat \<Rightarrow> 'v list \<Rightarrow> nat \<Rightarrow> 'v list \<Rightarrow> 'v list \<times> nat" where
  "append_range lt key middle [] pos_first_new body = (body, pos_first_new)"
| "append_range lt key middle (v # vs) pos_first_new body =
     (let (body', position, inserted) = append_unique lt key middle v body
      in append_range lt key middle vs
           (if inserted then min pos_first_new position else pos_first_new) body')"

definition flat_insert_range :: "('k \<Rightarrow> 'k \<Rightarrow> bool) \<Rightarrow> ('v \<Rightarrow> 'k) \<Rightarrow> 'v list \<Rightarrow> 'v list \<Rightarrow> 'v list" where
  "flat_insert_range lt key vs tree =
     (case vs of
        [] \<Rightarrow> tree
      | [v] \<Rightarrow> fst (flat_insert_hint lt key (length tree) v tree)
      | _ \<Rightarrow>
          (let middle = length tree;
               (body, pos_first_new) = append_range lt key middle vs middle tree;
               new_part = sort_and_unique lt key (drop middle body)
           in take pos_first_new tree
              @ std_merge (value_comp lt key) (drop pos_first_new tree) new_part))"

section \<open>Removal\<close>

definition flat_erase_at :: "nat \<Rightarrow> 'v list \<Rightarrow> 'v list checked" where
  "flat_erase_at position tree = do {
     rtc_check (position \<noteq> length tree);
     Some (vector_erase position (position + 1) tree)
   }"

definition flat_erase_key :: "('k \<Rightarrow> 'k \<Rightarrow> bool) \<Rightarrow> ('v \<Rightarrow> 'k) \<Rightarrow> 'k \<Rightarrow> 'v list \<Rightarrow> 'v list \<times> nat" where
  "flat_erase_key lt key k tree =
     (let r = flat_equal_range lt key k tree
      in (vector_erase (fst r) (snd r) tree, snd r - fst r))"

definition EraseIf :: "('v \<Rightarrow> bool) \<Rightarrow> 'v list \<Rightarrow> 'v list \<times> nat" where
  "EraseIf pred tree =
     (let kept = filter (\<lambda>v. \<not> pred v) tree in (kept, length tree - length kept))"

section \<open>The contract of a comparator\<close>

locale strict_weak_order =
  fixes lt :: "'k \<Rightarrow> 'k \<Rightarrow> bool"
  assumes irrefl: "\<not> lt a a"
    and trans: "lt a b \<Longrightarrow> lt b c \<Longrightarrow> lt a c"
    and neg_trans: "\<not> lt a b \<Longrightarrow> \<not> lt b c \<Longrightarrow> \<not> lt a c"

definition equivalent :: "('k \<Rightarrow> 'k \<Rightarrow> bool) \<Rightarrow> 'k \<Rightarrow> 'k \<Rightarrow> bool" where
  "equivalent lt a b \<longleftrightarrow> \<not> lt a b \<and> \<not> lt b a"

definition sorted_unique :: "('k \<Rightarrow> 'k \<Rightarrow> bool) \<Rightarrow> ('v \<Rightarrow> 'k) \<Rightarrow> 'v list \<Rightarrow> bool" where
  "sorted_unique lt key xs \<longleftrightarrow> sorted_wrt (\<lambda>a b. lt (key a) (key b)) xs"

definition flat_lookup :: "('k \<Rightarrow> 'k \<Rightarrow> bool) \<Rightarrow> ('v \<Rightarrow> 'k) \<Rightarrow> 'k \<Rightarrow> 'v list \<Rightarrow> 'v option" where
  "flat_lookup lt key k xs = List.find (\<lambda>v. equivalent lt (key v) k) xs"

definition weakly_sorted :: "('k \<Rightarrow> 'k \<Rightarrow> bool) \<Rightarrow> ('v \<Rightarrow> 'k) \<Rightarrow> 'v list \<Rightarrow> bool" where
  "weakly_sorted lt key xs \<longleftrightarrow> sorted_wrt (\<lambda>a b. \<not> lt (key b) (key a)) xs"

lemma find_append: "List.find P (xs @ ys) = (case List.find P xs of None \<Rightarrow> List.find P ys | Some v \<Rightarrow> Some v)"
  by (induction xs) auto

lemma find_hd_filter: "List.find P xs = (case filter P xs of [] \<Rightarrow> None | v # vs \<Rightarrow> Some v)"
  by (induction xs) auto

context strict_weak_order
begin

lemma asym: "lt a b \<Longrightarrow> \<not> lt b a"
  using irrefl trans by blast

lemma lt_equiv_trans: "lt a b \<Longrightarrow> equivalent lt b c \<Longrightarrow> lt a c"
  "equivalent lt a b \<Longrightarrow> lt b c \<Longrightarrow> lt a c"
  using neg_trans by (auto simp: equivalent_def)

lemma equivalent_refl [simp]: "equivalent lt a a"
  by (simp add: equivalent_def irrefl)

lemma equivalent_sym: "equivalent lt a b \<Longrightarrow> equivalent lt b a"
  by (auto simp: equivalent_def)

lemma equivalent_trans: "equivalent lt a b \<Longrightarrow> equivalent lt b c \<Longrightarrow> equivalent lt a c"
  using neg_trans by (auto simp: equivalent_def)

text \<open>A sorted tree splits at the lower bound of a key.\<close>

lemma tree_split:
  assumes "sorted_unique lt key t"
  obtains (absent) A B where "t = A @ B" "flat_lower_bound lt key k t = length A"
      "\<forall>a \<in> set A. lt (key a) k" "\<forall>b \<in> set B. lt k (key b)"
    | (present) A v B where "t = A @ v # B" "flat_lower_bound lt key k t = length A"
      "\<forall>a \<in> set A. lt (key a) k" "\<forall>b \<in> set B. lt k (key b)" "equivalent lt (key v) k"
proof -
  let ?P = "\<lambda>v. lt (key v) k"
  let ?A = "takeWhile ?P t" and ?D = "dropWhile ?P t"
  have "\<forall>a \<in> set ?A. lt (key a) k"
    by (meson set_takeWhileD)
  then have A: "t = ?A @ ?D" "flat_lower_bound lt key k t = length ?A" "\<forall>a \<in> set ?A. lt (key a) k"
    by (simp_all only: takeWhile_dropWhile_id flat_lower_bound_def std_lower_bound_def)
  show thesis
  proof (cases ?D)
    case Nil
    have "t = ?A @ []"
      using A(1) unfolding Nil .
    from absent[OF this A(2,3)] show thesis
      by simp
  next
    case (Cons d D)
    have nd: "\<not> lt (key d) k"
      using Cons hd_dropWhile[of ?P t] by auto
    have "sorted_wrt (\<lambda>a b. lt (key a) (key b)) (?A @ d # D)"
      using assms A(1) Cons by (simp add: sorted_unique_def)
    then have "\<forall>b \<in> set D. lt (key d) (key b)"
      by (simp add: sorted_wrt_append)
    then have D: "\<forall>b \<in> set D. lt k (key b)"
      using nd neg_trans by blast
    show thesis
    proof (cases "lt k (key d)")
      case True
      then show thesis
        using A Cons D absent[of ?A ?D] by simp
    next
      case False
      then have "equivalent lt (key d) k"
        using nd by (simp add: equivalent_def)
      then show thesis
        using A Cons D present[of ?A d D] by simp
    qed
  qed
qed

lemma lookup_none: "\<forall>a \<in> set A. lt (key a) k \<or> lt k (key a) \<Longrightarrow> flat_lookup lt key k A = None"
  by (auto simp: flat_lookup_def find_None_iff equivalent_def)

lemma lookup_iff:
  assumes "sorted_unique lt key t"
  shows "flat_lookup lt key k t = Some v \<longleftrightarrow> v \<in> set t \<and> equivalent lt (key v) k"
  using assms
proof (cases rule: tree_split[where k = k])
  case (absent A B)
  then have "flat_lookup lt key k t = None"
    by (intro lookup_none) auto
  then show ?thesis
    using absent by (auto simp: equivalent_def)
next
  case (present A w B)
  then have "flat_lookup lt key k t = Some w"
    using lookup_none[of A] by (auto simp: flat_lookup_def find_append)
  then show ?thesis
    using present by (auto simp: equivalent_def)
qed

lemma lookup_None_iff:
  "flat_lookup lt key k t = None \<longleftrightarrow> (\<forall>v \<in> set t. \<not> equivalent lt (key v) k)"
  by (auto simp: flat_lookup_def find_None_iff)

lemma sorted_unique_eqI:
  assumes "sorted_unique lt key s" "sorted_unique lt key t" "set s = set t"
  shows "s = t"
  using assms
proof (induction s arbitrary: t)
  case (Cons x s)
  then obtain y t' where t: "t = y # t'"
    by (cases t) auto
  have "x = y"
    using Cons.prems asym unfolding t sorted_unique_def by (metis insertE list.set_intros(1) list.simps(15) sorted_wrt.simps(2))
  moreover have "x \<notin> set s" "y \<notin> set t'"
    using Cons.prems irrefl by (auto simp: t sorted_unique_def)
  ultimately have "set s = set t'"
    using Cons.prems(3) by (auto simp: t insert_ident)
  then show ?case
    using Cons \<open>x = y\<close> by (simp add: t sorted_unique_def)
qed simp

lemma canonical:
  assumes "sorted_unique lt key s" "sorted_unique lt key t"
    and "\<And>k. flat_lookup lt key k s = flat_lookup lt key k t"
  shows "s = t"
proof (rule sorted_unique_eqI[OF assms(1,2)])
  have "v \<in> set s \<longleftrightarrow> v \<in> set t" for v
    using lookup_iff[OF assms(1), of "key v" v] lookup_iff[OF assms(2), of "key v" v] assms(3) by simp
  then show "set s = set t"
    by blast
qed

subsection \<open>Sorting\<close>

lemma mset_stable_insert [simp]: "mset (stable_insert c x ys) = add_mset x (mset ys)"
  by (induction ys) auto

lemma mset_stable_sort [simp]: "mset (stable_sort c xs) = mset xs"
  by (induction xs) auto

lemma set_stable_insert [simp]: "set (stable_insert c x ys) = insert x (set ys)"
  by (induction ys) auto

lemma set_stable_sort [simp]: "set (stable_sort c xs) = set xs"
  by (induction xs) auto

lemma weakly_sorted_insert:
  "weakly_sorted lt key ys \<Longrightarrow> weakly_sorted lt key (stable_insert (value_comp lt key) x ys)"
proof (induction ys)
  case (Cons y ys)
  show ?case
  proof (cases "lt (key y) (key x)")
    case True
    then have "\<not> lt (key x) (key y)"
      by (rule asym)
    with True show ?thesis
      using Cons by (auto simp: weakly_sorted_def value_comp_def)
  next
    case False
    have "\<not> lt (key z) (key x)" if "z \<in> set ys" for z
      using that False Cons.prems neg_trans[of "key z" "key y" "key x"] by (auto simp: weakly_sorted_def)
    with False show ?thesis
      using Cons.prems by (auto simp: weakly_sorted_def value_comp_def)
  qed
qed (simp add: weakly_sorted_def)

lemma weakly_sorted_sort: "weakly_sorted lt key (stable_sort (value_comp lt key) xs)"
  by (induction xs) (auto simp: weakly_sorted_insert, simp add: weakly_sorted_def)

lemma filter_stable_insert:
  "filter (\<lambda>v. equivalent lt (key v) k) (stable_insert (value_comp lt key) x ys) =
     filter (\<lambda>v. equivalent lt (key v) k) (x # ys)"
proof (induction ys)
  case (Cons y ys)
  have "\<not> (equivalent lt (key x) k \<and> equivalent lt (key y) k)" if "lt (key y) (key x)"
    using that lt_equiv_trans asym by (meson equivalent_def equivalent_sym)
  then show ?case
    using Cons by (auto simp: value_comp_def)
qed simp

lemma filter_stable_sort:
  "filter (\<lambda>v. equivalent lt (key v) k) (stable_sort (value_comp lt key) xs) =
     filter (\<lambda>v. equivalent lt (key v) k) xs"
  by (induction xs) (auto simp: filter_stable_insert)

lemma lookup_stable_sort:
  "flat_lookup lt key k (stable_sort (value_comp lt key) xs) = flat_lookup lt key k xs"
  by (simp add: flat_lookup_def find_hd_filter filter_stable_sort)

lemma stable_sort_unique:
  assumes "weakly_sorted lt key s" "weakly_sorted lt key t"
    and "\<And>k. filter (\<lambda>v. equivalent lt (key v) k) s = filter (\<lambda>v. equivalent lt (key v) k) t"
  shows "s = t"
  using assms
proof (induction s arbitrary: t)
  case Nil
  have "t = []"
  proof (rule ccontr)
    assume "t \<noteq> []"
    then have "hd t \<in> set (filter (\<lambda>v. equivalent lt (key v) (key (hd t))) t)"
      by simp
    then show False
      using Nil(3)[of "key (hd t)"] by (metis filter.simps(1) empty_iff empty_set)
  qed
  then show ?case ..
next
  case (Cons x s)
  have mem: "v \<in> set (x # s) \<longleftrightarrow> v \<in> set t" for v
    using eqset_imp_iff[OF arg_cong[OF Cons.prems(3)[of "key v"], of set], of v]
    unfolding set_filter by simp
  then obtain y t' where t: "t = y # t'"
    by (cases t) auto
  have "\<not> lt (key y) (key x)"
    using mem[of y] Cons.prems(1) irrefl by (auto simp: t weakly_sorted_def)
  moreover have "\<not> lt (key x) (key y)"
    using mem[of x] Cons.prems(2) irrefl by (auto simp: t weakly_sorted_def)
  ultimately have "x = y"
    using Cons.prems(3)[of "key x"] by (simp add: t equivalent_def irrefl)
  moreover have "filter (\<lambda>v. equivalent lt (key v) k) s = filter (\<lambda>v. equivalent lt (key v) k) t'" for k
    using Cons.prems(3)[of k] \<open>x = y\<close> by (auto simp: t split: if_splits)
  ultimately show ?case
    using Cons.IH[of t'] Cons.prems by (simp add: t weakly_sorted_def)
qed

subsection \<open>std::unique and std::merge on sorted ranges\<close>

lemma set_std_unique: "set (std_unique p xs) \<subseteq> set xs"
  by (induction p xs rule: std_unique.induct) auto

lemma std_unique_sorted:
  assumes "weakly_sorted lt key xs"
  shows "sorted_unique lt key (std_unique (\<lambda>l r. \<not> value_comp lt key l r) xs)
    \<and> (xs \<noteq> [] \<longrightarrow> (\<exists>r. std_unique (\<lambda>l r. \<not> value_comp lt key l r) xs = hd xs # r))"
  using assms
proof (induction "\<lambda>l r. \<not> value_comp lt key l r" xs rule: std_unique.induct)
  case (3 x y xs)
  show ?case
  proof (cases "value_comp lt key x y")
    case True
    have L: "lt (key x) (key z)" if "z \<in> set (y # xs)" for z
    proof -
      have "\<not> lt (key z) (key y)"
        using that 3(3) irrefl by (auto simp: weakly_sorted_def)
      then show ?thesis
        using True neg_trans[of "key x" "key z" "key y"] by (auto simp: value_comp_def)
    qed
    have "\<forall>z \<in> set (std_unique (\<lambda>l r. \<not> value_comp lt key l r) (y # xs)). lt (key x) (key z)"
      by (intro ballI L) (rule subsetD[OF set_std_unique])
    moreover have "weakly_sorted lt key (y # xs)"
      using 3(3) by (simp add: weakly_sorted_def)
    then have "sorted_unique lt key (std_unique (\<lambda>l r. \<not> value_comp lt key l r) (y # xs))"
      using 3(2) True by blast
    ultimately show ?thesis
      using True by (simp add: sorted_unique_def)
  next
    case False
    then show ?thesis
      using 3 by (auto simp: weakly_sorted_def)
  qed
qed (auto simp: sorted_unique_def)

lemma lookup_std_unique:
  assumes "weakly_sorted lt key xs"
  shows "flat_lookup lt key k (std_unique (\<lambda>l r. \<not> value_comp lt key l r) xs) = flat_lookup lt key k xs"
  using assms
proof (induction "\<lambda>l r. \<not> value_comp lt key l r" xs rule: std_unique.induct)
  case (3 x y xs)
  show ?case
  proof (cases "value_comp lt key x y")
    case True
    then show ?thesis
      using 3 by (simp add: flat_lookup_def weakly_sorted_def)
  next
    case False
    then have "equivalent lt (key x) (key y)"
      using 3(3) by (auto simp: equivalent_def value_comp_def weakly_sorted_def)
    then have "equivalent lt (key y) k \<Longrightarrow> equivalent lt (key x) k"
      using equivalent_trans by blast
    then show ?thesis
      using False 3 by (auto simp: flat_lookup_def weakly_sorted_def)
  qed
qed auto

lemma sort_and_unique_correct:
  "sorted_unique lt key (sort_and_unique lt key xs)"
  "flat_lookup lt key k (sort_and_unique lt key xs) = flat_lookup lt key k xs"
  using std_unique_sorted[OF weakly_sorted_sort] lookup_std_unique[OF weakly_sorted_sort]
  by (auto simp: sort_and_unique_def lookup_stable_sort)

lemma set_std_merge [simp]: "set (std_merge c xs ys) = set xs \<union> set ys"
  by (induction c xs ys rule: std_merge.induct) auto

lemma std_merge_sorted:
  assumes "sorted_unique lt key xs" "sorted_unique lt key ys"
    and "\<forall>x \<in> set xs. \<forall>y \<in> set ys. \<not> equivalent lt (key x) (key y)"
  shows "sorted_unique lt key (std_merge (value_comp lt key) xs ys)"
  using assms
proof (induction "value_comp lt key" xs ys rule: std_merge.induct)
  case (3 x xs y ys)
  show ?case
  proof (cases "value_comp lt key y x")
    case True
    then have "\<forall>z \<in> set xs. lt (key y) (key z)"
      using 3(3) trans by (fastforce simp: sorted_unique_def value_comp_def)
    then show ?thesis
      using True 3 by (auto simp: sorted_unique_def value_comp_def)
  next
    case False
    then have xy: "lt (key x) (key y)"
      using 3(5) by (auto simp: equivalent_def value_comp_def)
    then have "\<forall>z \<in> set ys. lt (key x) (key z)"
      using 3(4) trans by (fastforce simp: sorted_unique_def)
    then show ?thesis
      using False xy 3 by (auto simp: sorted_unique_def)
  qed
qed auto

lemma is_sorted_and_unique_iff:
  "is_sorted_and_unique (value_comp lt key) xs \<longleftrightarrow> sorted_unique lt key xs"
proof (induction "value_comp lt key" xs rule: is_sorted_and_unique.induct)
  case (1 x y xs)
  then show ?case
    using trans by (fastforce simp: sorted_unique_def value_comp_def)
qed (auto simp: sorted_unique_def)

subsection \<open>Single insertion\<close>

lemma sorted_unique_append:
  "sorted_unique lt key (A @ B) \<longleftrightarrow> sorted_unique lt key A \<and> sorted_unique lt key B
     \<and> (\<forall>a \<in> set A. \<forall>b \<in> set B. lt (key a) (key b))"
  by (simp add: sorted_unique_def sorted_wrt_append)

lemma sorted_unique_Cons:
  "sorted_unique lt key (v # B) \<longleftrightarrow> (\<forall>b \<in> set B. lt (key v) (key b)) \<and> sorted_unique lt key B"
  by (simp add: sorted_unique_def)

lemma emplace_cases:
  assumes "sorted_unique lt key t"
  obtains (fresh) A B where "t = A @ B" "emplace_key_args lt key v t = (A @ v # B, length A, True)"
      "sorted_unique lt key (A @ v # B)" "flat_lookup lt key (key v) t = None"
    | (old) A w B where "t = A @ w # B" "emplace_key_args lt key v t = (t, length A, False)"
      "equivalent lt (key w) (key v)" "flat_lookup lt key (key v) t = Some w"
  using assms
proof (cases rule: tree_split[where k = "key v"])
  case (absent A B)
  have "emplace_key_args lt key v t = (A @ v # B, length A, True)"
    using absent by (cases B) (auto simp: emplace_key_args_def Let_def vector_emplace_def)
  moreover have "sorted_unique lt key (A @ v # B)"
    using assms absent trans by (fastforce simp: sorted_unique_append sorted_unique_Cons)
  moreover have "flat_lookup lt key (key v) t = None"
    using absent by (intro lookup_none) auto
  ultimately show ?thesis
    using fresh absent(1) by blast
next
  case (present A w B)
  have "emplace_key_args lt key v t = (t, length A, False)"
    using present by (auto simp: emplace_key_args_def Let_def equivalent_def)
  moreover have "flat_lookup lt key (key v) t = Some w"
    using lookup_iff[OF assms] present by auto
  ultimately show ?thesis
    using old present by blast
qed

lemma lookup_middle:
  "\<not> equivalent lt (key v) k \<Longrightarrow> flat_lookup lt key k (A @ v # B) = flat_lookup lt key k (A @ B)"
  by (simp add: flat_lookup_def find_append split: option.split)

lemma lookup_append:
  "flat_lookup lt key k (A @ B) =
     (case flat_lookup lt key k A of None \<Rightarrow> flat_lookup lt key k B | Some v \<Rightarrow> Some v)"
  unfolding flat_lookup_def find_append ..

lemma emplace_correct:
  assumes t: "sorted_unique lt key t" and e: "emplace_key_args lt key v t = (t', i, ins)"
  shows "sorted_unique lt key t' \<and> flat_lookup lt key k t' = flat_lookup lt key k (t @ [v])
    \<and> i < length t' \<and> flat_lookup lt key (key v) t' = Some (t' ! i)
    \<and> (ins \<longleftrightarrow> flat_lookup lt key (key v) t = None)"
  using t
proof (cases rule: emplace_cases[where v = v])
  case (fresh A B)
  then have t': "t' = A @ v # B" "i = length A" ins
    using e by auto
  have "flat_lookup lt key k t' = flat_lookup lt key k (t @ [v])"
  proof (cases "equivalent lt (key v) k")
    case True
    have "flat_lookup lt key k t = None"
      using fresh(4) True equivalent_trans equivalent_sym unfolding lookup_None_iff by blast
    moreover have "flat_lookup lt key k t' = Some v"
      using True fresh(3) by (simp add: t' lookup_iff)
    ultimately show ?thesis
      using True by (simp add: lookup_append) (simp add: flat_lookup_def)
  next
    case False
    then show ?thesis
      using fresh(1)
      by (simp add: t' lookup_middle) (simp add: flat_lookup_def find_append split: option.split)
  qed
  moreover have "flat_lookup lt key (key v) t' = Some v"
    using fresh(3) by (simp add: t' lookup_iff)
  ultimately show ?thesis
    using fresh t' by simp
next
  case (old A w B)
  then have t': "t' = t" "i = length A" "\<not> ins"
    using e by auto
  have "flat_lookup lt key k t = flat_lookup lt key k (t @ [v])"
  proof (cases "equivalent lt (key v) k")
    case True
    then have "flat_lookup lt key k t = Some w"
      using old t equivalent_trans by (auto simp: lookup_iff)
    then show ?thesis
      by (simp add: lookup_append)
  next
    case False
    then show ?thesis
      by (simp add: flat_lookup_def find_append split: option.split)
  qed
  then show ?thesis
    using old t t' by simp
qed

text \<open>The hint is only a hint.\<close>

lemma lower_bound_eqI:
  assumes "n \<le> length t" "\<And>i. i < n \<Longrightarrow> lt (key (t ! i)) k" "n = length t \<or> \<not> lt (key (t ! n)) k"
  shows "flat_lower_bound lt key k t = n"
proof -
  have "takeWhile (\<lambda>v. lt (key v) k) t = take n t"
    using assms by (intro takeWhile_eq_take_P_nth) auto
  then show ?thesis
    using assms(1) by (simp add: flat_lower_bound_def std_lower_bound_def)
qed

lemma emplace_hint_eq:
  assumes "sorted_unique lt key t" "hint \<le> length t"
  shows "emplace_hint_key_args lt key hint v t = emplace_key_args lt key v t"
proof (cases "hint = 0 \<or> lt (key (t ! (hint - 1))) (key v)")
  case True
  have before: "lt (key (t ! i)) (key v)" if "i < hint" for i
  proof (cases "i = hint - 1")
    case False
    then have "lt (key (t ! i)) (key (t ! (hint - 1)))"
      using that assms sorted_wrt_nth_less[of "\<lambda>a b. lt (key a) (key b)" t i "hint - 1"]
      by (auto simp: sorted_unique_def)
    then show ?thesis
      using True that trans by blast
  qed (use True that in auto)
  show ?thesis
  proof (cases "hint = length t \<or> \<not> lt (key (t ! hint)) (key v)")
    case nl: True
    have "flat_lower_bound lt key (key v) t = hint"
      using assms before nl by (intro lower_bound_eqI) auto
    then show ?thesis
      using True nl by (auto simp: emplace_hint_key_args_def emplace_key_args_def Let_def)
  next
    case False
    then show ?thesis
      using asym by (auto simp: emplace_hint_key_args_def)
  qed
qed (auto simp: emplace_hint_key_args_def)

subsection \<open>Removal and search\<close>

lemma lookup_none_equiv:
  assumes "equivalent lt k k'" "\<forall>a \<in> set A. lt (key a) k" "\<forall>b \<in> set B. lt k (key b)"
  shows "flat_lookup lt key k' (A @ B) = None"
  using assms lt_equiv_trans(1)[OF _ assms(1)] lt_equiv_trans(2)[OF equivalent_sym[OF assms(1)]]
  by (intro lookup_none) auto

lemma erase_key_correct:
  assumes t: "sorted_unique lt key t"
  shows "sorted_unique lt key (fst (flat_erase_key lt key k t))
    \<and> flat_lookup lt key k' (fst (flat_erase_key lt key k t)) =
        (if equivalent lt k k' then None else flat_lookup lt key k' t)
    \<and> snd (flat_erase_key lt key k t) = flat_count lt key k t"
  using t
proof (cases rule: tree_split[where k = k])
  case (absent A B)
  then have "flat_erase_key lt key k t = (t, 0)" "flat_count lt key k t = 0"
    by (cases B; auto simp: flat_erase_key_def flat_count_def flat_equal_range_def vector_erase_def Let_def)+
  moreover have "flat_lookup lt key k' t = None" if "equivalent lt k k'"
    using lookup_none_equiv[OF that absent(3,4)] absent(1) by simp
  ultimately show ?thesis
    using t by simp
next
  case (present A v B)
  then have e: "flat_erase_key lt key k t = (A @ B, 1)" "flat_count lt key k t = 1"
    by (auto simp: flat_erase_key_def flat_count_def flat_equal_range_def vector_erase_def Let_def equivalent_def)
  have "flat_lookup lt key k' (A @ B) = (if equivalent lt k k' then None else flat_lookup lt key k' t)"
  proof (cases "equivalent lt k k'")
    case True
    then have "flat_lookup lt key k' (A @ B) = None"
      using lookup_none_equiv present(3,4) by blast
    then show ?thesis
      using True by simp
  next
    case False
    then have "\<not> equivalent lt (key v) k'"
      using present(5) equivalent_trans equivalent_sym by blast
    then show ?thesis
      using False present(1) lookup_middle[of key v k' A B] by simp
  qed
  moreover have "sorted_unique lt key (A @ B)"
    using t present(1) by (simp add: sorted_unique_append sorted_unique_Cons)
  ultimately show ?thesis
    using e by simp
qed

lemma search_correct:
  assumes t: "sorted_unique lt key t"
  shows "(case flat_lookup lt key k t of
       None \<Rightarrow> flat_find lt key k t = length t \<and> \<not> flat_contains lt key k t \<and> flat_count lt key k t = 0
     | Some v \<Rightarrow> flat_find lt key k t < length t \<and> t ! flat_find lt key k t = v
         \<and> flat_contains lt key k t \<and> flat_count lt key k t = 1)"
  using t
proof (cases rule: tree_split[where k = k])
  case (absent A B)
  then have "flat_lookup lt key k t = None"
    by (intro lookup_none) auto
  then show ?thesis
    using absent
    by (cases B) (auto simp: flat_find_def flat_contains_def flat_count_def flat_equal_range_def Let_def)
next
  case (present A v B)
  then have "flat_lookup lt key k t = Some v"
    using lookup_iff[OF t] by auto
  then show ?thesis
    using present
    by (auto simp: flat_find_def flat_contains_def flat_count_def flat_equal_range_def Let_def equivalent_def)
qed

lemma EraseIf_correct:
  assumes "sorted_unique lt key t"
  shows "sorted_unique lt key (fst (EraseIf p t)) \<and> length (fst (EraseIf p t)) + snd (EraseIf p t) = length t"
  using assms sorted_wrt_filter by (auto simp: EraseIf_def Let_def sorted_unique_def)

subsection \<open>Range insertion\<close>

definition fresh_in :: "('v \<Rightarrow> 'k) \<Rightarrow> 'v list \<Rightarrow> 'v \<Rightarrow> bool" where
  "fresh_in key t v \<longleftrightarrow> flat_lookup lt key (key v) t = None"

lemma append_unique_eq:
  assumes "sorted_unique lt key t"
  shows "append_unique lt key (length t) v (t @ news) =
    (if fresh_in key t v then (t @ news @ [v], flat_lower_bound lt key (key v) t, True)
     else (t @ news, flat_lower_bound lt key (key v) t, False))"
proof -
  have lb: "std_lower_bound (value_comp lt key) v t = flat_lower_bound lt key (key v) t"
    by (simp add: flat_lower_bound_def std_lower_bound_def value_comp_def)
  from assms show ?thesis
  proof (cases rule: tree_split[where k = "key v"])
    case (absent A B)
    then have "fresh_in key t v"
      unfolding fresh_in_def by (intro lookup_none) auto
    then show ?thesis
      using absent lb by (cases B) (auto simp: append_unique_def Let_def value_comp_def)
  next
    case (present A w B)
    then have "\<not> fresh_in key t v"
      using lookup_iff[OF assms, of "key v" w] by (simp add: fresh_in_def)
    then show ?thesis
      using present lb by (auto simp: append_unique_def Let_def value_comp_def equivalent_def)
  qed
qed

lemma append_range_eq:
  assumes "sorted_unique lt key t"
  shows "\<exists>p'. append_range lt key (length t) vs p (t @ news) = (t @ news @ filter (fresh_in key t) vs, p')
    \<and> p' \<le> p \<and> (\<forall>v \<in> set (filter (fresh_in key t) vs). p' \<le> flat_lower_bound lt key (key v) t)"
proof (induction vs arbitrary: p news)
  case (Cons v vs)
  show ?case
  proof (cases "fresh_in key t v")
    case True
    obtain p' where "append_range lt key (length t) vs (min p (flat_lower_bound lt key (key v) t)) (t @ news @ [v]) =
        (t @ (news @ [v]) @ filter (fresh_in key t) vs, p')"
        "p' \<le> min p (flat_lower_bound lt key (key v) t)"
        "\<forall>v \<in> set (filter (fresh_in key t) vs). p' \<le> flat_lower_bound lt key (key v) t"
      using Cons[of "min p (flat_lower_bound lt key (key v) t)" "news @ [v]"] by auto
    then show ?thesis
      using True append_unique_eq[OF assms, of v news] by auto
  next
    case False
    then show ?thesis
      using Cons[of p news] append_unique_eq[OF assms, of v news] by auto
  qed
qed simp

lemma below_lower_bound:
  assumes "x \<in> set (take p t)" "p \<le> flat_lower_bound lt key k t"
  shows "lt (key x) k"
proof -
  let ?A = "takeWhile (\<lambda>v. lt (key v) k) t"
  have "take p t = take p ?A"
    using assms(2) by (simp add: flat_lower_bound_def std_lower_bound_def)
      (metis (no_types, lifting) append_eq_conv_conj min.absorb1 take_take takeWhile_dropWhile_id)
  then have "x \<in> set ?A"
    using assms(1) in_set_takeD by fastforce
  then show ?thesis
    by (meson set_takeWhileD)
qed

lemma insert_range_general:
  assumes t: "sorted_unique lt key t"
    and r: "append_range lt key (length t) vs (length t) t = (body, p)"
  defines "U \<equiv> sort_and_unique lt key (drop (length t) body)"
  defines "result \<equiv> take p t @ std_merge (value_comp lt key) (drop p t) U"
  shows "sorted_unique lt key result \<and> flat_lookup lt key k result = flat_lookup lt key k (t @ vs)"
proof -
  let ?N = "filter (fresh_in key t) vs"
  have body: "drop (length t) body = ?N" and p: "\<forall>v \<in> set ?N. p \<le> flat_lower_bound lt key (key v) t"
    using append_range_eq[OF t, of vs "length t" "[]"] r by auto
  have U: "sorted_unique lt key U" "\<And>k. flat_lookup lt key k U = flat_lookup lt key k ?N" "set U \<subseteq> set ?N"
    using sort_and_unique_correct(1)[of key ?N] sort_and_unique_correct(2)[of key _ ?N] set_std_unique[of _ "stable_sort (value_comp lt key) ?N"]
    by (auto simp: U_def body sort_and_unique_def)
  have new: "\<not> equivalent lt (key w) (key u)" if "w \<in> set t" "u \<in> set U" for w u
    using that U(3) by (auto simp: fresh_in_def lookup_None_iff)
  have split: "sorted_unique lt key (take p t)" "sorted_unique lt key (drop p t)"
      "\<forall>a \<in> set (take p t). \<forall>b \<in> set (drop p t). lt (key a) (key b)"
    using t sorted_unique_append[of key "take p t" "drop p t"] by auto
  have "sorted_unique lt key (std_merge (value_comp lt key) (drop p t) U)"
    using split(2) U(1) new by (intro std_merge_sorted) (auto dest: in_set_dropD)
  moreover have "lt (key a) (key u)" if "a \<in> set (take p t)" "u \<in> set U" for a u
    using that U(3) p by (intro below_lower_bound) auto
  ultimately have srt: "sorted_unique lt key result"
    using split by (auto simp: result_def sorted_unique_append)
  have set: "set result = set t \<union> set U"
    using set_append[of "take p t" "drop p t"] by (auto simp: result_def)
  have "flat_lookup lt key k result = flat_lookup lt key k (t @ vs)"
  proof (cases "flat_lookup lt key k t")
    case (Some w)
    then have "flat_lookup lt key k result = Some w"
      using lookup_iff[OF t] lookup_iff[OF srt] set by auto
    then show ?thesis
      using Some by (simp add: lookup_append)
  next
    case None
    have "fresh_in key t v" if "equivalent lt (key v) k" for v
      using None that equivalent_trans equivalent_sym unfolding fresh_in_def lookup_None_iff by blast
    then have "flat_lookup lt key k ?N = flat_lookup lt key k vs"
      by (simp add: flat_lookup_def find_hd_filter) (metis (mono_tags, lifting) filter_cong)
    moreover have "flat_lookup lt key k result = flat_lookup lt key k U"
    proof (cases "flat_lookup lt key k U")
      case (Some u)
      then have "u \<in> set U \<and> equivalent lt (key u) k"
        using lookup_iff[OF U(1)] by blast
      then have "flat_lookup lt key k result = Some u"
        using lookup_iff[OF srt] set by blast
      then show ?thesis
        using Some by simp
    next
      case N: None
      have "flat_lookup lt key k result = None"
        using None N set by (auto simp: lookup_None_iff)
      then show ?thesis
        using N by simp
    qed
    ultimately show ?thesis
      using None U(2) by (simp add: lookup_append)
  qed
  then show ?thesis
    using srt by simp
qed

lemma insert_range_correct:
  assumes t: "sorted_unique lt key t"
  shows "sorted_unique lt key (flat_insert_range lt key vs t)
    \<and> flat_lookup lt key k (flat_insert_range lt key vs t) = flat_lookup lt key k (t @ vs)"
proof (cases vs)
  case (Cons v vs')
  show ?thesis
  proof (cases vs')
    case Nil
    obtain t' i b where e: "emplace_key_args lt key v t = (t', i, b)"
      by (metis prod.exhaust)
    then have "flat_insert_range lt key vs t = t'"
      using emplace_hint_eq[OF t order_refl, of v] Cons Nil
      by (simp add: flat_insert_range_def flat_insert_hint_def)
    then show ?thesis
      using emplace_correct[OF t e] Cons Nil by simp
  next
    case (Cons w ws)
    obtain body p where r: "append_range lt key (length t) vs (length t) t = (body, p)"
      by (metis surj_pair)
    then have "flat_insert_range lt key vs t = take p t @ std_merge (value_comp lt key) (drop p t)
        (sort_and_unique lt key (drop (length t) body))"
      using Cons \<open>vs = v # vs'\<close> by (simp add: flat_insert_range_def Let_def del: append_range.simps)
    then show ?thesis
      using insert_range_general[OF t r] by simp
  qed
qed (simp_all add: flat_insert_range_def t)

lemma fold_insert_correct:
  assumes "sorted_unique lt key t"
  shows "sorted_unique lt key (foldl (\<lambda>s v. fst (flat_insert lt key v s)) t vs)
    \<and> flat_lookup lt key k (foldl (\<lambda>s v. fst (flat_insert lt key v s)) t vs) = flat_lookup lt key k (t @ vs)"
  using assms
proof (induction vs arbitrary: t)
  case (Cons v vs)
  obtain t' i b where e: "emplace_key_args lt key v t = (t', i, b)"
    by (metis prod.exhaust)
  note c = emplace_correct[OF Cons.prems e]
  then have "sorted_unique lt key t'"
    by blast
  from Cons.IH[OF this] show ?case
    using c e lookup_append[of key k "[v]" vs] by (simp add: flat_insert_def lookup_append split: option.splits)
qed simp

lemma insert_range_is_fold:
  assumes "sorted_unique lt key t"
  shows "flat_insert_range lt key vs t = foldl (\<lambda>s v. fst (flat_insert lt key v s)) t vs"
  using insert_range_correct[OF assms] fold_insert_correct[OF assms] by (intro canonical) auto

subsection \<open>InsertionSort\<close>

definition insert_back :: "('v \<Rightarrow> 'k) \<Rightarrow> 'v \<Rightarrow> 'v list \<Rightarrow> 'v list" where
  "insert_back key x A =
     takeWhile (\<lambda>v. \<not> lt (key x) (key v)) A @ x # dropWhile (\<lambda>v. \<not> lt (key x) (key v)) A"

lemma weakly_sorted_snoc:
  "weakly_sorted lt key (A @ [a]) \<Longrightarrow> weakly_sorted lt key A \<and> (\<forall>v \<in> set A. \<not> lt (key a) (key v))"
  by (simp add: weakly_sorted_def sorted_wrt_append)

lemma sift_eq:
  "weakly_sorted lt key A \<Longrightarrow>
     sift (value_comp lt key) (length A) (A @ x # rest) = insert_back key x A @ rest"
proof (induction A arbitrary: rest rule: rev_induct)
  case (snoc a A)
  note A = weakly_sorted_snoc[OF snoc.prems]
  let ?xs = "(A @ [a]) @ x # rest"
  have upd: "?xs[Suc (length A) := a, length A := x] = A @ x # a # rest"
    by (simp add: list_update_append)
  have nth: "?xs ! Suc (length A) = x" "?xs ! length A = a"
    by (simp_all add: nth_append)
  show ?case
  proof (cases "lt (key x) (key a)")
    case True
    then have "sift (value_comp lt key) (length (A @ [a])) ?xs = insert_back key x A @ a # rest"
      using snoc.IH[of "a # rest"] A upd nth value_comp_def[of lt key x a] by simp
    then show ?thesis
      using True by (simp add: insert_back_def takeWhile_append dropWhile_append)
  next
    case False
    have "\<not> lt (key x) (key v)" if "v \<in> set A" for v
      using that A False neg_trans by blast
    then have "insert_back key x (A @ [a]) = A @ [a, x]"
      using False by (simp add: insert_back_def takeWhile_append dropWhile_append)
    then show ?thesis
      using False nth by (simp add: value_comp_def)
  qed
qed (simp add: insert_back_def)

lemma insert_back_sorted:
  assumes "weakly_sorted lt key A"
  shows "weakly_sorted lt key (insert_back key x A)"
proof -
  let ?P = "\<lambda>v. \<not> lt (key x) (key v)"
  let ?T = "takeWhile ?P A" and ?D = "dropWhile ?P A"
  have "weakly_sorted lt key (?T @ ?D)"
    using assms by simp
  then have parts: "weakly_sorted lt key ?T" "weakly_sorted lt key ?D"
      "\<forall>a \<in> set ?T. \<forall>b \<in> set ?D. \<not> lt (key b) (key a)"
    unfolding weakly_sorted_def sorted_wrt_append by blast+
  have T: "\<forall>a \<in> set ?T. \<not> lt (key x) (key a)"
    by (auto dest: set_takeWhileD)
  have D: "\<forall>b \<in> set ?D. \<not> lt (key b) (key x)"
  proof (cases ?D)
    case (Cons d D)
    then have "lt (key x) (key d)"
      using hd_dropWhile[of ?P A] by auto
    moreover have "\<forall>b \<in> set ?D. \<not> lt (key b) (key d)"
      using parts(2) irrefl unfolding Cons by (simp add: weakly_sorted_def)
    ultimately show ?thesis
      using trans by blast
  next
    case Nil
    show ?thesis
      unfolding Nil by simp
  qed
  have gen: "weakly_sorted lt key T \<Longrightarrow> weakly_sorted lt key E \<Longrightarrow> \<forall>a \<in> set T. \<forall>b \<in> set E. \<not> lt (key b) (key a)
      \<Longrightarrow> \<forall>a \<in> set T. \<not> lt (key x) (key a) \<Longrightarrow> \<forall>b \<in> set E. \<not> lt (key b) (key x)
      \<Longrightarrow> weakly_sorted lt key (T @ x # E)" for T E
    by (simp add: weakly_sorted_def sorted_wrt_append)
  show ?thesis
    unfolding insert_back_def by (rule gen[OF parts T D])
qed

lemma insert_back_filter:
  assumes "weakly_sorted lt key A"
  shows "filter (\<lambda>v. equivalent lt (key v) k) (insert_back key x A) = filter (\<lambda>v. equivalent lt (key v) k) (A @ [x])"
proof -
  let ?P = "\<lambda>v. \<not> lt (key x) (key v)" and ?Q = "\<lambda>v. equivalent lt (key v) k"
  have "\<not> ?Q b" if "b \<in> set (dropWhile ?P A)" "?Q x" for b
  proof -
    have "dropWhile ?P A \<noteq> []"
      using that(1) by (metis empty_iff list.set(1))
    then obtain d D where D: "dropWhile ?P A = d # D"
      by (meson list.exhaust)
    then have d: "lt (key x) (key d)"
      using hd_dropWhile[of ?P A] by auto
    have "weakly_sorted lt key (takeWhile ?P A @ d # D)"
      using assms D by (metis takeWhile_dropWhile_id)
    then have "\<forall>b \<in> set (dropWhile ?P A). \<not> lt (key b) (key d)"
      unfolding D by (simp add: weakly_sorted_def sorted_wrt_append irrefl)
    then have "lt (key x) (key b)"
      using that(1) d neg_trans by blast
    then show ?thesis
      using that(2) equivalent_sym equivalent_trans unfolding equivalent_def by blast
  qed
  then have "?Q x \<Longrightarrow> filter ?Q (dropWhile ?P A) = []"
    by (simp add: filter_empty_conv)
  moreover have "filter ?Q A = filter ?Q (takeWhile ?P A) @ filter ?Q (dropWhile ?P A)"
    by (metis filter_append takeWhile_dropWhile_id)
  ultimately show ?thesis
    by (simp add: insert_back_def)
qed

lemma insert_back_stable_sort:
  "insert_back key x (stable_sort (value_comp lt key) xs) = stable_sort (value_comp lt key) (xs @ [x])"
  by (rule stable_sort_unique[where key = key])
     (simp_all only: insert_back_sorted weakly_sorted_sort insert_back_filter filter_stable_sort filter_append)

lemma InsertionSort_eq: "InsertionSort (value_comp lt key) xs = stable_sort (value_comp lt key) xs"
proof (cases xs)
  case (Cons x0 xs0)
  let ?c = "value_comp lt key"
  have "n < length xs \<Longrightarrow> foldl (\<lambda>ys i. sift ?c i ys) xs [1..<Suc n] =
      stable_sort ?c (take (Suc n) xs) @ drop (Suc n) xs" for n
  proof (induction n)
    case (Suc n)
    let ?A = "stable_sort ?c (take (Suc n) xs)"
    have len: "length ?A = Suc n"
      using Suc.prems by (metis Suc_leD Suc_le_eq length_take min.absorb2 mset_stable_sort size_mset)
    have "foldl (\<lambda>ys i. sift ?c i ys) xs [1..<Suc (Suc n)] = sift ?c (length ?A) (?A @ xs ! Suc n # drop (Suc (Suc n)) xs)"
      using Suc len by (simp add: Cons_nth_drop_Suc)
    also have "\<dots> = insert_back key (xs ! Suc n) ?A @ drop (Suc (Suc n)) xs"
      by (rule sift_eq[OF weakly_sorted_sort])
    also have "insert_back key (xs ! Suc n) ?A = stable_sort ?c (take (Suc (Suc n)) xs)"
      using insert_back_stable_sort[of key "xs ! Suc n" "take (Suc n) xs"]
        take_Suc_conv_app_nth[OF Suc.prems] by simp
    finally show ?case .
  qed (simp add: Cons)
  from this[of "length xs - 1"] show ?thesis
    using Cons by (simp add: InsertionSort_def)
qed (simp add: InsertionSort_def)

end

section \<open>std::less\<close>

interpretation std_less: strict_weak_order "(<) :: 'a::linorder \<Rightarrow> 'a \<Rightarrow> bool"
  by unfold_locales auto

lemma equivalent_less [simp]: "equivalent (<) a (b::'a::linorder) \<longleftrightarrow> a = b"
  by (auto simp: equivalent_def)

section \<open>Properties\<close>

text \<open>for any comparator that is a strict weak order, the constructor from a range yields a tree that
  is strictly sorted and in which every key finds the first of the equivalent elements of the range.\<close>

theorem flat_tree_constructor:
  assumes "strict_weak_order lt"
  shows "sorted_unique lt key (flat_tree lt key items)
    \<and> flat_lookup lt key k (flat_tree lt key items) = flat_lookup lt key k items"
  by (simp add: flat_tree_def strict_weak_order.sort_and_unique_correct[OF assms])

theorem flat_tree_constructor_witness:
  "sorted_unique (<) fst (flat_tree (<) fst [(2::nat, ''b''), (1, ''a''), (2, ''c'')])
   \<and> flat_lookup (<) fst 2 (flat_tree (<) fst [(2::nat, ''b''), (1, ''a''), (2, ''c'')]) = Some (2, ''b'')"
  using flat_tree_constructor[OF std_less.strict_weak_order_axioms, of fst "[(2::nat, ''b''), (1, ''a''), (2, ''c'')]" 2]
  by (simp add: flat_lookup_def)

text \<open>C13: inserting a range is inserting its elements one after the other, although the code appends,
  sorts, deduplicates and merges; and insertion with any valid hint is insertion without one.\<close>

theorem flat_tree_insert_range_and_hint:
  assumes "strict_weak_order lt" "sorted_unique lt key t" "hint \<le> length t"
  shows "flat_insert_range lt key vs t = foldl (\<lambda>s v. fst (flat_insert lt key v s)) t vs
    \<and> emplace_hint_key_args lt key hint v t = emplace_key_args lt key v t"
  using strict_weak_order.insert_range_is_fold[OF assms(1,2)]
    strict_weak_order.emplace_hint_eq[OF assms] by simp

theorem flat_tree_insert_range_and_hint_witness:
  "flat_insert_range (<) id [5, 1, 5::nat] [1, 3] = foldl (\<lambda>s v. fst (flat_insert (<) id v s)) [1, 3] [5, 1, 5]
   \<and> emplace_hint_key_args (<) id 1 (2::nat) [1, 3] = emplace_key_args (<) id 2 [1, 3]"
  using flat_tree_insert_range_and_hint[OF std_less.strict_weak_order_axioms, of id "[1, 3::nat]" 1 "[5, 1, 5]" 2]
  by (simp add: sorted_unique_def)

text \<open>C14: the hand-written \<open>InsertionSort\<close>, which swaps neighbours, computes the stable sort of its range.\<close>

theorem InsertionSort_is_stable_sort:
  assumes "strict_weak_order lt"
  shows "InsertionSort (value_comp lt key) xs = stable_sort (value_comp lt key) xs
    \<and> weakly_sorted lt key (InsertionSort (value_comp lt key) xs)
    \<and> (\<forall>k. filter (\<lambda>v. equivalent lt (key v) k) (InsertionSort (value_comp lt key) xs)
          = filter (\<lambda>v. equivalent lt (key v) k) xs)"
  by (simp add: strict_weak_order.InsertionSort_eq[OF assms] strict_weak_order.weakly_sorted_sort[OF assms]
      strict_weak_order.filter_stable_sort[OF assms])

theorem InsertionSort_is_stable_sort_witness:
  "weakly_sorted (<) fst (InsertionSort (value_comp (<) fst) [(2::nat, 0::nat), (1, 1), (2, 2), (1, 3)])"
  using InsertionSort_is_stable_sort[OF std_less.strict_weak_order_axioms] by blast

end
