(* ===== verification/Flat_Map.thy ===== *)
theory Flat_Map
  imports Flat_Tree
begin

text \<open>
  \<open>rtc_base/containers/flat_map.h\<close> over the tree of \<open>Flat_Tree\<close>: lookup with a check, \<open>operator[]\<close>,
  \<open>insert_or_assign\<close> and \<open>try_emplace\<close>.  \<open>GetFirst\<close> is \<open>fst\<close>, the value \<open>mapped_type()\<close> is an argument.
  The refinement is to a partial function from keys to mapped values.
\<close>

section \<open>Operations\<close>

definition flat_map_at :: "('k \<Rightarrow> 'k \<Rightarrow> bool) \<Rightarrow> 'k \<Rightarrow> ('k \<times> 'm) list \<Rightarrow> 'm checked" where
  "flat_map_at lt k m = do {
     let found = flat_find lt fst k m;
     rtc_check (found \<noteq> length m);
     Some (snd (m ! found))
   }"

text \<open>\<open>operator[]\<close> returns the map and the index of the entry the reference points into.\<close>

definition flat_map_subscript ::
  "('k \<Rightarrow> 'k \<Rightarrow> bool) \<Rightarrow> 'm \<Rightarrow> 'k \<Rightarrow> ('k \<times> 'm) list \<Rightarrow> ('k \<times> 'm) list \<times> nat" where
  "flat_map_subscript lt mapped_default k m =
     (let found = flat_lower_bound lt fst k m
      in if found = length m \<or> lt k (fst (m ! found))
         then (vector_emplace found (k, mapped_default) m, found)
         else (m, found))"

definition flat_map_insert_or_assign ::
  "('k \<Rightarrow> 'k \<Rightarrow> bool) \<Rightarrow> 'k \<Rightarrow> 'm \<Rightarrow> ('k \<times> 'm) list \<Rightarrow> ('k \<times> 'm) list \<times> nat \<times> bool" where
  "flat_map_insert_or_assign lt k obj m =
     (let (m', i, inserted) = emplace_key_args lt fst (k, obj) m
      in (if \<not> inserted then m'[i := (fst (m' ! i), obj)] else m', i, inserted))"

definition flat_map_insert_or_assign_hint ::
  "('k \<Rightarrow> 'k \<Rightarrow> bool) \<Rightarrow> nat \<Rightarrow> 'k \<Rightarrow> 'm \<Rightarrow> ('k \<times> 'm) list \<Rightarrow> ('k \<times> 'm) list \<times> nat" where
  "flat_map_insert_or_assign_hint lt hint k obj m =
     (let (m', i, inserted) = emplace_hint_key_args lt fst hint (k, obj) m
      in (if \<not> inserted then m'[i := (fst (m' ! i), obj)] else m', i))"

definition flat_map_try_emplace ::
  "('k \<Rightarrow> 'k \<Rightarrow> bool) \<Rightarrow> 'k \<Rightarrow> 'm \<Rightarrow> ('k \<times> 'm) list \<Rightarrow> ('k \<times> 'm) list \<times> nat \<times> bool" where
  "flat_map_try_emplace lt k obj m = emplace_key_args lt fst (k, obj) m"

definition flat_map_try_emplace_hint ::
  "('k \<Rightarrow> 'k \<Rightarrow> bool) \<Rightarrow> nat \<Rightarrow> 'k \<Rightarrow> 'm \<Rightarrow> ('k \<times> 'm) list \<Rightarrow> ('k \<times> 'm) list \<times> nat" where
  "flat_map_try_emplace_hint lt hint k obj m =
     (let (m', i, inserted) = emplace_hint_key_args lt fst hint (k, obj) m in (m', i))"

section \<open>Refinement\<close>

definition flat_map_abs :: "('k \<Rightarrow> 'k \<Rightarrow> bool) \<Rightarrow> ('k \<times> 'm) list \<Rightarrow> 'k \<Rightarrow> 'm option" where
  "flat_map_abs lt m k = map_option snd (flat_lookup lt fst k m)"

abbreviation map_ok :: "('k \<Rightarrow> 'k \<Rightarrow> bool) \<Rightarrow> ('k \<times> 'm) list \<Rightarrow> bool" where
  "map_ok lt m \<equiv> sorted_unique lt fst m"

context strict_weak_order
begin

lemma lookup_update:
  assumes "map_ok lt m" "i < length m"
  shows "map_ok lt (m[i := (fst (m ! i), obj)])
    \<and> flat_map_abs lt (m[i := (fst (m ! i), obj)]) k =
       (if equivalent lt (fst (m ! i)) k then Some obj else flat_map_abs lt m k)"
proof -
  let ?A = "take i m" and ?B = "drop (Suc i) m" and ?v = "(fst (m ! i), obj)"
  have m: "m = ?A @ m ! i # ?B" and u: "m[i := ?v] = ?A @ ?v # ?B"
    using assms(2) by (simp_all add: id_take_nth_drop upd_conv_take_nth_drop)
  have "map_ok lt (?A @ m ! i # ?B)"
    using assms(1) m by simp
  then have ok: "map_ok lt (m[i := ?v])"
    unfolding u sorted_unique_append sorted_unique_Cons by auto
  show ?thesis
  proof (cases "equivalent lt (fst (m ! i)) k")
    case True
    then have "flat_lookup lt fst k (m[i := ?v]) = Some ?v"
      using ok assms(2) by (simp add: lookup_iff set_update_memI)
    then show ?thesis
      using ok True by (simp add: flat_map_abs_def)
  next
    case False
    have "flat_lookup lt fst k (m[i := ?v]) = flat_lookup lt fst k (?A @ ?B)"
      unfolding u using False lookup_middle[of fst ?v k ?A ?B] by simp
    also have "\<dots> = flat_lookup lt fst k m"
      using False m lookup_middle[of fst "m ! i" k ?A ?B] by metis
    finally show ?thesis
      using ok False by (simp add: flat_map_abs_def)
  qed
qed

lemma abs_emplace:
  assumes "map_ok lt m" "emplace_key_args lt fst (k, obj) m = (m', i, ins)"
  shows "map_ok lt m' \<and> i < length m' \<and> equivalent lt (fst (m' ! i)) k
    \<and> flat_map_abs lt m' k' =
        (case flat_map_abs lt m k' of Some w \<Rightarrow> Some w | None \<Rightarrow> if equivalent lt k k' then Some obj else None)
    \<and> (ins \<longleftrightarrow> flat_map_abs lt m k = None)"
proof -
  note c = emplace_correct[OF assms, simplified]
  have "m' ! i \<in> set m' \<and> equivalent lt (fst (m' ! i)) k"
    using c lookup_iff[of fst m' k "m' ! i"] by blast
  then show ?thesis
    using c by (auto simp: flat_map_abs_def lookup_append flat_lookup_def[of _ _ _ "[(k, obj)]"]
        split: option.splits if_splits)
qed

lemma insert_or_assign_abs:
  assumes "map_ok lt m" "flat_map_insert_or_assign lt k obj m = (m', i, ins)"
  shows "map_ok lt m'
    \<and> flat_map_abs lt m' k' = (if equivalent lt k k' then Some obj else flat_map_abs lt m k')
    \<and> (ins \<longleftrightarrow> flat_map_abs lt m k = None)"
proof -
  obtain m1 i1 b where e: "emplace_key_args lt fst (k, obj) m = (m1, i1, b)"
    by (metis prod.exhaust)
  note a = abs_emplace[OF assms(1) e]
  have same: "equivalent lt k k' \<Longrightarrow> flat_map_abs lt m k = flat_map_abs lt m k'"
    unfolding flat_map_abs_def flat_lookup_def
    by (metis (no_types, opaque_lifting) equivalent_sym equivalent_trans)
  show ?thesis
  proof (cases b)
    case True
    then have "m' = m1" "ins = b"
      using assms(2) e by (simp_all add: flat_map_insert_or_assign_def)
    then show ?thesis
      using True a[of k'] a[of k] same by (auto split: option.splits)
  next
    case False
    then have m': "m' = m1[i1 := (fst (m1 ! i1), obj)]" "ins = b"
      using assms(2) e by (auto simp: flat_map_insert_or_assign_def)
    have "equivalent lt (fst (m1 ! i1)) k' \<longleftrightarrow> equivalent lt k k'"
      using a equivalent_sym equivalent_trans by blast
    moreover have "flat_map_abs lt m1 k' = flat_map_abs lt m k'" if "\<not> equivalent lt k k'"
      using a[of k'] that by (simp split: option.splits)
    ultimately show ?thesis
      using lookup_update[of m1 i1 obj k'] a False m' by simp
  qed
qed

lemma at_abs: "map_ok lt m \<Longrightarrow> flat_map_at lt k m = flat_map_abs lt m k"
  using search_correct[of fst m k]
  by (auto simp: flat_map_at_def flat_map_abs_def Let_def split: option.splits)

lemma subscript_eq: "flat_map_subscript lt d k m = (let (m', i, ins) = emplace_key_args lt fst (k, d) m in (m', i))"
  by (simp add: flat_map_subscript_def emplace_key_args_def Let_def)

lemma erase_abs:
  assumes "map_ok lt m"
  shows "map_ok lt (fst (flat_erase_key lt fst k m))
    \<and> flat_map_abs lt (fst (flat_erase_key lt fst k m)) k' = (if equivalent lt k k' then None else flat_map_abs lt m k')
    \<and> snd (flat_erase_key lt fst k m) = (if flat_map_abs lt m k = None then 0 else 1)"
  using erase_key_correct[OF assms, of k k'] search_correct[OF assms, of k]
  by (auto simp: flat_map_abs_def split: option.splits)

text \<open>The position an insertion returns is that of the entry of the key.\<close>

lemma emplace_entry:
  assumes "map_ok lt m" "emplace_key_args lt fst (k, obj) m = (m', i, ins)"
  shows "i < length m' \<and> equivalent lt (fst (m' ! i)) k
    \<and> snd (m' ! i) = (case flat_map_abs lt m k of None \<Rightarrow> obj | Some w \<Rightarrow> w)"
proof -
  have "flat_lookup lt fst k m' = Some (m' ! i)"
    using emplace_correct[OF assms, of k] by auto
  then have "flat_map_abs lt m' k = Some (snd (m' ! i))"
    by (simp add: flat_map_abs_def)
  moreover have "flat_map_abs lt m' k = (case flat_map_abs lt m k of Some w \<Rightarrow> Some w | None \<Rightarrow> Some obj)"
    using abs_emplace[OF assms, of k] by (simp split: option.splits)
  ultimately show ?thesis
    using abs_emplace[OF assms, of k] by (auto split: option.splits)
qed

end

text \<open>C12: with \<open>std::less\<close>, \<open>flat_map\<close> refines a finite map, results included: \<open>at\<close> returns the mapped value and
  fails its check exactly for an absent key; \<open>insert_or_assign\<close> is the update; \<open>try_emplace\<close> and \<open>operator[]\<close> add an
  entry only for an absent key; the iterator or reference each returns is that of the key's own entry, with the value it
  now has, and the flag says whether the key was absent; any valid hint gives the same; erasing removes the key and
  returns the number of entries removed; and each keeps the vector strictly sorted.\<close>

theorem flat_map_refines_map:
  assumes "map_ok (<) (m :: ('k::linorder \<times> 'm) list)" "hint \<le> length m"
  shows "flat_map_at (<) k m = flat_map_abs (<) m k
    \<and> (\<exists>m' i. flat_map_insert_or_assign (<) k v m = (m', i, flat_map_abs (<) m k = None)
          \<and> flat_map_insert_or_assign_hint (<) hint k v m = (m', i)
          \<and> map_ok (<) m' \<and> flat_map_abs (<) m' = (flat_map_abs (<) m)(k \<mapsto> v)
          \<and> i < length m' \<and> m' ! i = (k, v))
    \<and> (\<exists>m' i w. w = (case flat_map_abs (<) m k of None \<Rightarrow> v | Some w \<Rightarrow> w)
          \<and> flat_map_try_emplace (<) k v m = (m', i, flat_map_abs (<) m k = None)
          \<and> flat_map_try_emplace_hint (<) hint k v m = (m', i)
          \<and> flat_map_subscript (<) v k m = (m', i)
          \<and> map_ok (<) m' \<and> flat_map_abs (<) m' = (flat_map_abs (<) m)(k \<mapsto> w)
          \<and> i < length m' \<and> m' ! i = (k, w))
    \<and> (\<exists>m'. flat_erase_key (<) fst k m = (m', if flat_map_abs (<) m k = None then 0 else 1)
          \<and> map_ok (<) m' \<and> flat_map_abs (<) m' = (flat_map_abs (<) m)(k := None))"
proof (intro conjI)
  obtain m1 i1 b1 where t: "emplace_key_args (<) fst (k, v) m = (m1, i1, b1)"
    by (metis prod.exhaust)
  obtain m2 i2 b2 where e: "flat_map_insert_or_assign (<) k v m = (m2, i2, b2)"
    by (metis prod.exhaust)
  let ?w = "case flat_map_abs (<) m k of None \<Rightarrow> v | Some w \<Rightarrow> w"
  have same: "equivalent (<) a b \<longleftrightarrow> a = b" for a b :: 'k
    by (auto simp: equivalent_def)
  have hint: "emplace_hint_key_args (<) fst hint (k, v) m = (m1, i1, b1)"
    using std_less.emplace_hint_eq[OF assms] t by simp
  have entry: "i1 < length m1" "m1 ! i1 = (k, ?w)"
    using std_less.emplace_entry[OF assms(1) t] by (auto simp: same prod_eq_iff)
  show "flat_map_at (<) k m = flat_map_abs (<) m k"
    by (rule std_less.at_abs[OF assms(1)])
  have b1: "b1 = (flat_map_abs (<) m k = None)" and ok: "map_ok (<) m1"
    and abs1: "flat_map_abs (<) m1 = (flat_map_abs (<) m)(k \<mapsto> ?w)"
    using std_less.abs_emplace[OF assms(1) t] by (auto simp: fun_eq_iff same split: option.splits)
  then show "\<exists>m' i w. w = ?w
      \<and> flat_map_try_emplace (<) k v m = (m', i, flat_map_abs (<) m k = None)
      \<and> flat_map_try_emplace_hint (<) hint k v m = (m', i) \<and> flat_map_subscript (<) v k m = (m', i)
      \<and> map_ok (<) m' \<and> flat_map_abs (<) m' = (flat_map_abs (<) m)(k \<mapsto> w) \<and> i < length m' \<and> m' ! i = (k, w)"
    using t hint entry
    by (simp add: flat_map_try_emplace_def flat_map_try_emplace_hint_def std_less.subscript_eq)
  have m2: "m2 = (if b1 then m1 else m1[i1 := (fst (m1 ! i1), v)])" "i2 = i1" "b2 = b1"
    using e t by (auto simp: flat_map_insert_or_assign_def)
  have "m2 ! i2 = (k, v)" "i2 < length m2"
    using m2 entry b1 by auto
  moreover have "map_ok (<) m2" "flat_map_abs (<) m2 = (flat_map_abs (<) m)(k \<mapsto> v)"
    using std_less.insert_or_assign_abs[OF assms(1) e] by (auto simp: fun_eq_iff same)
  moreover have "flat_map_insert_or_assign_hint (<) hint k v m = (m2, i2)"
    using hint m2 by (simp add: flat_map_insert_or_assign_hint_def)
  ultimately show "\<exists>m' i. flat_map_insert_or_assign (<) k v m = (m', i, flat_map_abs (<) m k = None)
      \<and> flat_map_insert_or_assign_hint (<) hint k v m = (m', i)
      \<and> map_ok (<) m' \<and> flat_map_abs (<) m' = (flat_map_abs (<) m)(k \<mapsto> v) \<and> i < length m' \<and> m' ! i = (k, v)"
    using e m2(3) b1 by simp
  show "\<exists>m'. flat_erase_key (<) fst k m = (m', if flat_map_abs (<) m k = None then 0 else 1)
      \<and> map_ok (<) m' \<and> flat_map_abs (<) m' = (flat_map_abs (<) m)(k := None)"
    using std_less.erase_abs[OF assms(1), of k]
    by (intro exI[of _ "fst (flat_erase_key (<) fst k m)"]) (auto simp: fun_eq_iff same prod_eq_iff)
qed

theorem flat_map_refines_map_witness:
  "flat_map_abs (<) (fst (flat_map_insert_or_assign (<) 2 (7::nat) [(1::nat, 5), (3, 6)])) 2 = Some 7
   \<and> snd (flat_erase_key (<) fst 3 [(1::nat, 5::nat), (3, 6)]) = 1"
proof -
  let ?m = "[(1::nat, 5::nat), (3, 6)]"
  have ok: "map_ok (<) ?m" and three: "flat_map_abs (<) ?m 3 = Some 6"
    by (simp_all add: sorted_unique_def flat_map_abs_def flat_lookup_def equivalent_def)
  show ?thesis
    using flat_map_refines_map[OF ok, of 1 2 7] flat_map_refines_map[OF ok, of 1 3 7] three by auto
qed

end
