(* ===== verification/Safe_Numerics.thy ===== *)
theory Safe_Numerics
  imports TQ_Prelude
begin

text \<open>
  \<open>rtc_base/numerics/safe_compare.h\<close>, \<open>safe_conversions.h\<close>, \<open>safe_conversions_impl.h\<close> and
  \<open>safe_minmax.h\<close> at integral types.  An integer type is its signedness and its width; the template
  parameters of the source are such types and the selection among overloads and specialisations is
  written out as the conditions of \<open>enable_if\<close> and of the specialisations.  A value is an \<open>int\<close> in the
  range of its type; \<open>convert\<close> is \<open>static_cast\<close>, and \<open>builtin\<close> a built-in comparison with the integral
  promotions and the usual arithmetic conversions of C++.  Pointers have 64 bits.
\<close>

section \<open>Integer types of C++\<close>

datatype int_type = IntType (ty_signed: bool) (ty_bits: nat)

abbreviation "int8_t \<equiv> IntType True 8"
abbreviation "int16_t \<equiv> IntType True 16"
abbreviation "int32_t \<equiv> IntType True 32"
abbreviation "int64_t \<equiv> IntType True 64"
abbreviation "uint8_t \<equiv> IntType False 8"
abbreviation "uint16_t \<equiv> IntType False 16"
abbreviation "uint32_t \<equiv> IntType False 32"
abbreviation "uint64_t \<equiv> IntType False 64"

definition all_types :: "int_type list" where
  "all_types = [int8_t, int16_t, int32_t, int64_t, uint8_t, uint16_t, uint32_t, uint64_t]"

definition ty_lowest :: "int_type \<Rightarrow> int" where
  "ty_lowest t = (if ty_signed t then - (2 ^ (ty_bits t - 1)) else 0)"

definition ty_max :: "int_type \<Rightarrow> int" where
  "ty_max t = (if ty_signed t then 2 ^ (ty_bits t - 1) - 1 else 2 ^ ty_bits t - 1)"

definition in_type :: "int_type \<Rightarrow> int \<Rightarrow> bool" where
  "in_type t x \<longleftrightarrow> ty_lowest t \<le> x \<and> x \<le> ty_max t"

definition convert :: "int_type \<Rightarrow> int \<Rightarrow> int" where
  "convert t x =
     (let u = x mod 2 ^ ty_bits t
      in if ty_signed t \<and> 2 ^ (ty_bits t - 1) \<le> u then u - 2 ^ ty_bits t else u)"

definition promote :: "int_type \<Rightarrow> int_type" where
  "promote t = (if ty_bits t < 32 then int32_t else t)"

definition common_type :: "int_type \<Rightarrow> int_type \<Rightarrow> int_type" where
  "common_type s t =
     (let s = promote s; t = promote t
      in if ty_signed s = ty_signed t then (if ty_bits t \<le> ty_bits s then s else t)
         else let (u, v) = (if ty_signed s then (t, s) else (s, t))
              in if ty_bits v \<le> ty_bits u then u else v)"

datatype cmp_op = EqOp | NeOp | LtOp | LeOp | GtOp | GeOp

fun cmp :: "cmp_op \<Rightarrow> int \<Rightarrow> int \<Rightarrow> bool" where
  "cmp EqOp a b = (a = b)"
| "cmp NeOp a b = (a \<noteq> b)"
| "cmp LtOp a b = (a < b)"
| "cmp LeOp a b = (a \<le> b)"
| "cmp GtOp a b = (b < a)"
| "cmp GeOp a b = (b \<le> a)"

definition builtin :: "cmp_op \<Rightarrow> int_type \<Rightarrow> int_type \<Rightarrow> int \<Rightarrow> int \<Rightarrow> bool" where
  "builtin opr s t a b = (let c = common_type s t in cmp opr (convert c a) (convert c b))"

section \<open>safe_compare.h\<close>

definition ptr_bits :: nat where
  "ptr_bits = 64"

definition LargerIntImpl :: "nat \<Rightarrow> int_type option" where
  "LargerIntImpl bits =
     (if bits = 8 then Some int16_t else if bits = 16 then Some int32_t
      else if bits = 32 then Some int64_t else None)"

definition LargerInt :: "int_type \<Rightarrow> int_type \<Rightarrow> int_type option" where
  "LargerInt s t = LargerIntImpl (if ty_bits s < ty_bits t \<or> ty_bits s < ptr_bits then ty_bits s else 0)"

definition make_unsigned :: "int_type \<Rightarrow> int_type" where
  "make_unsigned t = IntType False (ty_bits t)"

definition Cmp :: "cmp_op \<Rightarrow> int_type \<Rightarrow> int_type \<Rightarrow> int \<Rightarrow> int \<Rightarrow> bool" where
  "Cmp opr s t a b =
     (if ty_signed s = ty_signed t then builtin opr s t a b
      else if ty_signed s then
        (case LargerInt t s of
           Some l \<Rightarrow> builtin opr s l a (convert l b)
         | None \<Rightarrow> (if a < 0 then builtin opr int32_t int32_t (- 1) 0
                   else builtin opr (make_unsigned s) t (convert (make_unsigned s) a) b))
      else
        (case LargerInt s t of
           Some l \<Rightarrow> builtin opr l t (convert l a) b
         | None \<Rightarrow> (if b < 0 then builtin opr int32_t int32_t 0 (- 1)
                   else builtin opr s (make_unsigned t) a (convert (make_unsigned t) b))))"

text \<open>\<open>Safe##name\<close>: the unary plus promotes both arguments.\<close>

definition SafeCmp :: "cmp_op \<Rightarrow> int_type \<Rightarrow> int_type \<Rightarrow> int \<Rightarrow> int \<Rightarrow> bool" where
  "SafeCmp opr s t a b = Cmp opr (promote s) (promote t) (convert (promote s) a) (convert (promote t) b)"

section \<open>safe_conversions.h\<close>

datatype RangeCheckResult = TYPE_VALID | TYPE_UNDERFLOW | TYPE_OVERFLOW | TYPE_INVALID

definition StaticRangeCheck_contains :: "int_type \<Rightarrow> int_type \<Rightarrow> bool" where
  "StaticRangeCheck_contains dst src =
     (if ty_signed dst \<and> ty_signed src then ty_bits src - 1 \<le> ty_bits dst - 1
      else if \<not> ty_signed dst \<and> \<not> ty_signed src then ty_bits src \<le> ty_bits dst
      else if ty_signed dst then ty_bits src \<le> ty_bits dst - 1
      else False)"

definition range_check_result :: "bool \<Rightarrow> bool \<Rightarrow> RangeCheckResult" where
  "range_check_result is_in_upper_bound is_in_lower_bound =
     (if is_in_upper_bound then (if is_in_lower_bound then TYPE_VALID else TYPE_UNDERFLOW)
      else (if is_in_lower_bound then TYPE_OVERFLOW else TYPE_INVALID))"

definition RangeCheck :: "int_type \<Rightarrow> int_type \<Rightarrow> int \<Rightarrow> RangeCheckResult" where
  "RangeCheck dst src value =
     (if StaticRangeCheck_contains dst src then TYPE_VALID
      else if ty_signed dst \<and> ty_signed src then
        range_check_result (builtin LeOp src src value (convert src (ty_max dst)))
          (builtin GeOp src src value (convert src (ty_lowest dst)))
      else if \<not> ty_signed dst \<and> \<not> ty_signed src then
        range_check_result (builtin LeOp src src value (convert src (ty_max dst))) True
      else if ty_signed dst then
        (if ty_bits src < ty_bits dst then TYPE_VALID
         else range_check_result (builtin LeOp src src value (convert src (ty_max dst))) True)
      else
        (if ty_bits src - 1 \<le> ty_bits dst
         then range_check_result True (builtin GeOp src src value (convert src 0))
         else range_check_result (builtin LeOp src src value (convert src (ty_max dst)))
                (builtin GeOp src src value (convert src 0))))"

definition IsValueInRangeForNumericType :: "int_type \<Rightarrow> int_type \<Rightarrow> int \<Rightarrow> bool" where
  "IsValueInRangeForNumericType dst src value \<longleftrightarrow> RangeCheck dst src value = TYPE_VALID"

definition checked_cast :: "int_type \<Rightarrow> int_type \<Rightarrow> int \<Rightarrow> int checked" where
  "checked_cast dst src value = do {
     rtc_check (IsValueInRangeForNumericType dst src value);
     Some (convert dst value)
   }"

definition dchecked_cast :: "int_type \<Rightarrow> int_type \<Rightarrow> int \<Rightarrow> int checked" where
  "dchecked_cast dst src value = do {
     rtc_check (IsValueInRangeForNumericType dst src value);
     Some (convert dst value)
   }"

definition saturated_cast :: "int_type \<Rightarrow> int_type \<Rightarrow> int \<Rightarrow> int checked" where
  "saturated_cast dst src value =
     (case RangeCheck dst src value of
        TYPE_VALID \<Rightarrow> Some (convert dst value)
      | TYPE_UNDERFLOW \<Rightarrow> Some (ty_lowest dst)
      | TYPE_OVERFLOW \<Rightarrow> Some (ty_max dst)
      | TYPE_INVALID \<Rightarrow> None)"

section \<open>safe_minmax.h\<close>

definition min_t :: "int_type \<Rightarrow> int_type \<Rightarrow> int_type" where
  "min_t s t =
     (if SafeCmp LtOp s t (ty_lowest s) (ty_lowest t) then s
      else if SafeCmp GtOp s t (ty_lowest s) (ty_lowest t) then t
      else if SafeCmp LeOp s t (ty_max s) (ty_max t) then s else t)"

definition max_t :: "int_type \<Rightarrow> int_type \<Rightarrow> int_type" where
  "max_t s t = (if SafeCmp GeOp s t (ty_max s) (ty_max t) then s else t)"

definition SafeMin :: "int_type \<Rightarrow> int_type \<Rightarrow> int \<Rightarrow> int \<Rightarrow> int" where
  "SafeMin s t a b = (if SafeCmp LtOp s t a b then convert (min_t s t) a else convert (min_t s t) b)"

definition SafeMax :: "int_type \<Rightarrow> int_type \<Rightarrow> int \<Rightarrow> int \<Rightarrow> int" where
  "SafeMax s t a b = (if SafeCmp GtOp s t a b then convert (max_t s t) a else convert (max_t s t) b)"

text \<open>The range of the result of a clamp, each bound with its type.\<close>

definition r_min :: "int_type \<Rightarrow> int_type \<Rightarrow> int_type \<Rightarrow> int_type \<times> int" where
  "r_min t l h =
     (max_t l (min_t h t),
      SafeMax l (min_t h t) (ty_lowest l) (SafeMin h t (ty_lowest h) (ty_lowest t)))"

definition r_max :: "int_type \<Rightarrow> int_type \<Rightarrow> int_type \<Rightarrow> int_type \<times> int" where
  "r_max t l h =
     (min_t h (max_t l t),
      SafeMin h (max_t l t) (ty_max h) (SafeMax l t (ty_max l) (ty_max t)))"

definition AcceptableType :: "int_type \<Rightarrow> int_type \<Rightarrow> int_type \<Rightarrow> int_type \<Rightarrow> bool" where
  "AcceptableType t l h a =
     ((ty_bits a \<le> ty_bits l \<or> ty_bits a \<le> ty_bits h \<or> ty_bits a \<le> ty_bits t)
      \<and> SafeCmp LeOp a (fst (r_min t l h)) (ty_lowest a) (snd (r_min t l h))
      \<and> SafeCmp LeOp (fst (r_max t l h)) a (snd (r_max t l h)) (ty_max a))"

definition best_signed_type :: "int_type \<Rightarrow> int_type \<Rightarrow> int_type \<Rightarrow> int_type" where
  "best_signed_type t l h =
     (if AcceptableType t l h int8_t then int8_t
      else if AcceptableType t l h int16_t then int16_t
      else if AcceptableType t l h int32_t then int32_t else int64_t)"

definition best_unsigned_type :: "int_type \<Rightarrow> int_type \<Rightarrow> int_type \<Rightarrow> int_type" where
  "best_unsigned_type t l h =
     (if AcceptableType t l h uint8_t then uint8_t
      else if AcceptableType t l h uint16_t then uint16_t
      else if AcceptableType t l h uint32_t then uint32_t else uint64_t)"

definition clamp_type :: "int_type \<Rightarrow> int_type \<Rightarrow> int_type \<Rightarrow> int_type" where
  "clamp_type t l h =
     (if ty_signed t
      then (if AcceptableType t l h (best_signed_type t l h) then best_signed_type t l h
            else best_unsigned_type t l h)
      else (if AcceptableType t l h (best_unsigned_type t l h) then best_unsigned_type t l h
            else best_signed_type t l h))"

definition SafeClamp :: "int_type \<Rightarrow> int_type \<Rightarrow> int_type \<Rightarrow> int \<Rightarrow> int \<Rightarrow> int \<Rightarrow> int checked" where
  "SafeClamp t l h x lo hi = do {
     rtc_check (SafeCmp LeOp l h lo hi);
     let r = clamp_type t l h;
     Some (if SafeCmp LeOp t l x lo then convert r lo
           else if SafeCmp GeOp t h x hi then convert r hi
           else convert r x)
   }"

section \<open>Facts\<close>

definition std_type :: "int_type \<Rightarrow> bool" where
  "std_type t \<longleftrightarrow> ty_bits t \<in> {8, 16, 32, 64}"

lemma std_type_cases:
  assumes "std_type t"
  obtains "t = int8_t" | "t = int16_t" | "t = int32_t" | "t = int64_t"
    | "t = uint8_t" | "t = uint16_t" | "t = uint32_t" | "t = uint64_t"
  using assms by (cases t; cases "ty_signed t") (auto simp: std_type_def)

lemma convert_id:
  assumes "in_type t x" "0 < ty_bits t"
  shows "convert t x = x"
proof (cases "ty_signed t")
  case True
  define k where "k = ty_bits t - 1"
  have bits: "ty_bits t = Suc k"
    using assms(2) by (simp add: k_def)
  have r: "- (2 ^ k) \<le> x" "x < 2 ^ k"
    using assms(1) True by (auto simp: in_type_def ty_lowest_def ty_max_def k_def)
  show ?thesis
  proof (cases "0 \<le> x")
    case nn: True
    then have "x mod 2 ^ Suc k = x"
      using r by (intro mod_pos_pos_trivial) auto
    then show ?thesis
      using r nn by (simp add: convert_def bits Let_def)
  next
    case False
    have "x mod 2 ^ Suc k = (x + 2 ^ Suc k) mod 2 ^ Suc k"
      by simp
    also have "\<dots> = x + 2 ^ Suc k"
      using r False by (intro mod_pos_pos_trivial) auto
    finally show ?thesis
      using r True False by (simp add: convert_def bits Let_def)
  qed
next
  case False
  then show ?thesis
    using assms by (simp add: convert_def in_type_def ty_lowest_def ty_max_def Let_def)
qed

lemma std_bits_pos [simp]: "std_type t \<Longrightarrow> 0 < ty_bits t"
  by (auto simp: std_type_def)

lemma std_promote [simp]: "std_type t \<Longrightarrow> std_type (promote t)"
  by (auto simp: promote_def std_type_def)

lemma in_type_numeral [simp]:
  "in_type int8_t x \<longleftrightarrow> -128 \<le> x \<and> x \<le> 127"
  "in_type int16_t x \<longleftrightarrow> -32768 \<le> x \<and> x \<le> 32767"
  "in_type int32_t x \<longleftrightarrow> -2147483648 \<le> x \<and> x \<le> 2147483647"
  "in_type int64_t x \<longleftrightarrow> -9223372036854775808 \<le> x \<and> x \<le> 9223372036854775807"
  "in_type uint8_t x \<longleftrightarrow> 0 \<le> x \<and> x \<le> 255"
  "in_type uint16_t x \<longleftrightarrow> 0 \<le> x \<and> x \<le> 65535"
  "in_type uint32_t x \<longleftrightarrow> 0 \<le> x \<and> x \<le> 4294967295"
  "in_type uint64_t x \<longleftrightarrow> 0 \<le> x \<and> x \<le> 18446744073709551615"
  by (auto simp: in_type_def ty_lowest_def ty_max_def)

lemma convert_numeral [simp]:
  "-128 \<le> x \<Longrightarrow> x \<le> 127 \<Longrightarrow> convert int8_t x = x"
  "-32768 \<le> x \<Longrightarrow> x \<le> 32767 \<Longrightarrow> convert int16_t x = x"
  "-2147483648 \<le> x \<Longrightarrow> x \<le> 2147483647 \<Longrightarrow> convert int32_t x = x"
  "-9223372036854775808 \<le> x \<Longrightarrow> x \<le> 9223372036854775807 \<Longrightarrow> convert int64_t x = x"
  "0 \<le> x \<Longrightarrow> x \<le> 255 \<Longrightarrow> convert uint8_t x = x"
  "0 \<le> x \<Longrightarrow> x \<le> 65535 \<Longrightarrow> convert uint16_t x = x"
  "0 \<le> x \<Longrightarrow> x \<le> 4294967295 \<Longrightarrow> convert uint32_t x = x"
  "0 \<le> x \<Longrightarrow> x \<le> 18446744073709551615 \<Longrightarrow> convert uint64_t x = x"
  by (rule convert_id; simp)+

lemma in_type_promote:
  assumes "std_type t" "in_type t x"
  shows "in_type (promote t) x"
  using assms(1) by (rule std_type_cases) (use assms(2) in \<open>auto simp: promote_def\<close>)

lemma promoted_cases:
  assumes "std_type t" "32 \<le> ty_bits t"
  obtains "t = int32_t" | "t = int64_t" | "t = uint32_t" | "t = uint64_t"
  using assms(1) by (rule std_type_cases) (use assms(2) in auto)

lemma Cmp_promoted:
  assumes "std_type s" "32 \<le> ty_bits s" "std_type t" "32 \<le> ty_bits t" "in_type s a" "in_type t b"
  shows "Cmp opr s t a b = cmp opr a b"
  using assms(1,2)
proof (rule promoted_cases)
  assume "s = int32_t"
  from assms(3,4) show ?thesis
    by (rule promoted_cases) (use assms(5,6) \<open>s = int32_t\<close> in \<open>cases opr;
      simp add: Cmp_def builtin_def common_type_def promote_def LargerInt_def LargerIntImpl_def
        ptr_bits_def make_unsigned_def Let_def\<close>)+
next
  assume "s = int64_t"
  from assms(3,4) show ?thesis
    by (rule promoted_cases) (use assms(5,6) \<open>s = int64_t\<close> in \<open>cases opr;
      simp add: Cmp_def builtin_def common_type_def promote_def LargerInt_def LargerIntImpl_def
        ptr_bits_def make_unsigned_def Let_def\<close>)+
next
  assume "s = uint32_t"
  from assms(3,4) show ?thesis
    by (rule promoted_cases) (use assms(5,6) \<open>s = uint32_t\<close> in \<open>cases opr;
      simp add: Cmp_def builtin_def common_type_def promote_def LargerInt_def LargerIntImpl_def
        ptr_bits_def make_unsigned_def Let_def\<close>)+
next
  assume "s = uint64_t"
  from assms(3,4) show ?thesis
    by (rule promoted_cases) (use assms(5,6) \<open>s = uint64_t\<close> in \<open>cases opr;
      simp add: Cmp_def builtin_def common_type_def promote_def LargerInt_def LargerIntImpl_def
        ptr_bits_def make_unsigned_def Let_def\<close>)+
qed

lemma promote_bits [simp]: "32 \<le> ty_bits (promote t)"
  by (simp add: promote_def)

lemma SafeCmp_cmp:
  assumes "std_type s" "std_type t" "in_type s a" "in_type t b"
  shows "SafeCmp opr s t a b = cmp opr a b"
proof -
  have ps: "in_type (promote s) a" "in_type (promote t) b"
    using assms by (simp_all add: in_type_promote)
  then have "convert (promote s) a = a" "convert (promote t) b = b"
    using assms(1,2) by (simp_all add: convert_id)
  then show ?thesis
    using ps assms(1,2) by (simp add: SafeCmp_def Cmp_promoted promote_bits)
qed

text \<open>C15: For integers of any two standard types the Safe comparisons (\<open>SafeEq\<close>, \<open>SafeLt\<close>, ...) decide the
  mathematical relation between the two values, whatever the signedness and the widths, although the
  built-in comparison they end in converts its arguments.\<close>
theorem SafeCmp_is_mathematical:
  assumes "std_type s" "std_type t" "in_type s a" "in_type t b"
  shows "SafeCmp opr s t a b = cmp opr a b"
  using assms by (rule SafeCmp_cmp)

theorem SafeCmp_is_mathematical_witness:
  "SafeCmp LtOp int32_t uint32_t (- 1) 1 \<and> \<not> builtin LtOp int32_t uint32_t (- 1) 1"
proof -
  have "SafeCmp LtOp int32_t uint32_t (- 1) 1 = cmp LtOp (- 1) 1"
    by (rule SafeCmp_is_mathematical) (auto simp: std_type_def)
  moreover have "\<not> builtin LtOp int32_t uint32_t (- 1) 1"
    by (simp add: builtin_def common_type_def promote_def convert_def Let_def)
  ultimately show ?thesis
    by simp
qed

lemma RangeCheck_spec:
  assumes "std_type dst" "std_type src" "in_type src x"
  shows "RangeCheck dst src x =
    (if x < ty_lowest dst then TYPE_UNDERFLOW else if ty_max dst < x then TYPE_OVERFLOW else TYPE_VALID)"
  using assms
  by (elim std_type_cases)
    (simp_all add: RangeCheck_def StaticRangeCheck_contains_def range_check_result_def
        builtin_def common_type_def promote_def ty_lowest_def ty_max_def Let_def)

lemma ty_bounds_in_type [simp]:
  assumes "std_type t"
  shows "in_type t (ty_lowest t)" "in_type t (ty_max t)"
  using assms by (elim std_type_cases; simp add: ty_lowest_def ty_max_def)+

lemma min_t_std [simp]: "std_type s \<Longrightarrow> std_type t \<Longrightarrow> std_type (min_t s t)"
  by (simp add: min_t_def)

lemma max_t_std [simp]: "std_type s \<Longrightarrow> std_type t \<Longrightarrow> std_type (max_t s t)"
  by (simp add: max_t_def)

lemma min_t_bounds:
  assumes "std_type s" "std_type t"
  shows "ty_lowest (min_t s t) = min (ty_lowest s) (ty_lowest t)"
    "min (ty_max s) (ty_max t) \<le> ty_max (min_t s t)"
  using assms by (simp_all add: min_t_def SafeCmp_cmp)

lemma SafeMin_min:
  assumes "std_type s" "std_type t" "in_type s a" "in_type t b"
  shows "SafeMin s t a b = min a b" "in_type (min_t s t) (min a b)"
proof -
  show i: "in_type (min_t s t) (min a b)"
    using assms by (auto simp: min_t_def SafeCmp_cmp in_type_def min_def)
  then have "convert (min_t s t) (min a b) = min a b"
    using assms(1,2) by (simp add: convert_id)
  then show "SafeMin s t a b = min a b"
    using assms by (auto simp: SafeMin_def SafeCmp_cmp min_def split: if_splits)
qed

lemma SafeMax_max:
  assumes "std_type s" "std_type t" "in_type s a" "in_type t b"
  shows "SafeMax s t a b = max a b" "in_type (max_t s t) (max a b)"
proof -
  show i: "in_type (max_t s t) (max a b)"
    using assms by (auto simp: max_t_def SafeCmp_cmp in_type_def max_def)
  then have "convert (max_t s t) (max a b) = max a b"
    using assms(1,2) by (simp add: convert_id)
  then show "SafeMax s t a b = max a b"
    using assms by (auto simp: SafeMax_def SafeCmp_cmp max_def split: if_splits)
qed

text \<open>C16: \<open>checked_cast\<close> returns the value unchanged when the destination type can hold it and fails
  its \<open>CHECK\<close> otherwise; \<open>saturated_cast\<close> always returns, with the value clamped to the range of the
  destination, for every pair of standard integer types.\<close>
theorem casts_are_range_exact:
  assumes "std_type dst" "std_type src" "in_type src x"
  shows "checked_cast dst src x = (if in_type dst x then Some x else None) \<and>
    saturated_cast dst src x = Some (max (ty_lowest dst) (min (ty_max dst) x))"
proof -
  have "ty_lowest dst \<le> ty_max dst"
    using ty_bounds_in_type(1) [OF assms(1)] by (simp add: in_type_def)
  moreover have "convert dst x = x" if "ty_lowest dst \<le> x" "x \<le> ty_max dst"
    using that assms(1) by (intro convert_id) (simp_all add: in_type_def)
  ultimately show ?thesis
    using assms by (auto simp: checked_cast_def saturated_cast_def IsValueInRangeForNumericType_def
        RangeCheck_spec in_type_def checked_simps max_def min_def)
qed

theorem casts_are_range_exact_witness:
  "checked_cast uint8_t int32_t 300 = None \<and> saturated_cast uint8_t int32_t (- 5) = Some 0"
proof -
  have "checked_cast uint8_t int32_t 300 = None"
    using casts_are_range_exact [of uint8_t int32_t 300] by (simp add: std_type_def)
  moreover have "saturated_cast uint8_t int32_t (- 5) = Some 0"
    using casts_are_range_exact [of uint8_t int32_t "- 5"]
    by (simp add: std_type_def ty_lowest_def ty_max_def)
  ultimately show ?thesis
    by simp
qed

lemma r_min_spec:
  assumes "std_type t" "std_type l" "std_type h"
  shows "std_type (fst (r_min t l h))" "in_type (fst (r_min t l h)) (snd (r_min t l h))"
    "snd (r_min t l h) = max (ty_lowest l) (min (ty_lowest h) (ty_lowest t))"
  using assms by (simp_all add: r_min_def SafeMin_min SafeMax_max)

lemma r_max_spec:
  assumes "std_type t" "std_type l" "std_type h"
  shows "std_type (fst (r_max t l h))" "in_type (fst (r_max t l h)) (snd (r_max t l h))"
    "snd (r_max t l h) = min (ty_max h) (max (ty_max l) (ty_max t))"
  using assms by (simp_all add: r_max_def SafeMin_min SafeMax_max)

lemma AcceptableType_spec:
  assumes "std_type t" "std_type l" "std_type h" "std_type a"
  shows "AcceptableType t l h a \<longleftrightarrow>
    (ty_bits a \<le> ty_bits l \<or> ty_bits a \<le> ty_bits h \<or> ty_bits a \<le> ty_bits t) \<and>
    ty_lowest a \<le> max (ty_lowest l) (min (ty_lowest h) (ty_lowest t)) \<and>
    min (ty_max h) (max (ty_max l) (ty_max t)) \<le> ty_max a"
proof -
  have "SafeCmp LeOp a (fst (r_min t l h)) (ty_lowest a) (snd (r_min t l h)) \<longleftrightarrow> ty_lowest a \<le> snd (r_min t l h)"
    using assms r_min_spec(1,2) [OF assms(1-3)] by (simp add: SafeCmp_cmp)
  moreover have "SafeCmp LeOp (fst (r_max t l h)) a (snd (r_max t l h)) (ty_max a) \<longleftrightarrow> snd (r_max t l h) \<le> ty_max a"
    using assms r_max_spec(1,2) [OF assms(1-3)] by (simp add: SafeCmp_cmp)
  ultimately show ?thesis
    using assms by (simp add: AcceptableType_def r_min_spec(3) r_max_spec(3))
qed

lemma best_types_std [simp]:
  "std_type (best_signed_type t l h)" "std_type (best_unsigned_type t l h)"
  by (simp_all add: best_signed_type_def best_unsigned_type_def std_type_def)

lemma clamp_type_std [simp]: "std_type (clamp_type t l h)"
  by (simp add: clamp_type_def)

definition acceptable :: "int_type \<Rightarrow> int_type \<Rightarrow> int_type \<Rightarrow> int_type \<Rightarrow> bool" where
  "acceptable t l h a \<longleftrightarrow>
    (ty_bits a \<le> ty_bits l \<or> ty_bits a \<le> ty_bits h \<or> ty_bits a \<le> ty_bits t) \<and>
    ty_lowest a \<le> max (ty_lowest l) (min (ty_lowest h) (ty_lowest t)) \<and>
    min (ty_max h) (max (ty_max l) (ty_max t)) \<le> ty_max a"

lemma all_acceptable:
  "list_all (\<lambda>t. list_all (\<lambda>l. list_all (\<lambda>h.
     list_ex (acceptable t l h) all_types) all_types) all_types) all_types"
  by code_simp

lemma std_type_set: "std_type t \<longleftrightarrow> t \<in> set all_types"
proof
  assume "std_type t"
  then show "t \<in> set all_types"
    by (rule std_type_cases) (simp_all add: all_types_def)
qed (auto simp: all_types_def std_type_def)

lemma some_acceptable:
  assumes "std_type t" "std_type l" "std_type h"
  obtains a where "std_type a" "AcceptableType t l h a"
proof -
  have "\<exists>a \<in> set all_types. acceptable t l h a"
    using all_acceptable assms by (simp add: list_all_iff list_ex_iff std_type_set)
  then obtain a where "std_type a" "acceptable t l h a"
    by (auto simp: std_type_set)
  then show thesis
    using assms that by (simp add: AcceptableType_spec acceptable_def)
qed

lemma clamp_type_acceptable:
  assumes "std_type t" "std_type l" "std_type h"
  shows "AcceptableType t l h (clamp_type t l h)"
proof -
  obtain a where a: "std_type a" "AcceptableType t l h a"
    using some_acceptable assms by blast
  have "AcceptableType t l h (best_signed_type t l h) \<or> AcceptableType t l h (best_unsigned_type t l h)"
    using a(1) by (rule std_type_cases)
      (use a(2) in \<open>simp_all add: best_signed_type_def best_unsigned_type_def\<close>)
  then show ?thesis
    by (auto simp: clamp_type_def)
qed

text \<open>For every choice of standard types the result type \<open>ClampType\<close> computes passes the
  acceptance test its static assertion repeats, and \<open>SafeClamp\<close> returns the value moved into the
  interval, exactly and without a narrowing conversion; it fails its check only for an empty interval.\<close>
theorem SafeClamp_clamps:
  assumes "std_type t" "std_type l" "std_type h" "in_type t x" "in_type l lo" "in_type h hi"
  shows "AcceptableType t l h (clamp_type t l h) \<and>
    SafeClamp t l h x lo hi = (if lo \<le> hi then Some (max lo (min x hi)) else None)"
proof -
  have acc: "AcceptableType t l h (clamp_type t l h)"
    using assms(1-3) by (rule clamp_type_acceptable)
  have "in_type (clamp_type t l h) (max lo (min x hi))" if "lo \<le> hi"
    using acc assms that by (auto simp: AcceptableType_spec in_type_def)
  then have "convert (clamp_type t l h) (max lo (min x hi)) = max lo (min x hi)" if "lo \<le> hi"
    using that by (simp add: convert_id)
  then show ?thesis
    using acc assms by (auto simp: SafeClamp_def SafeCmp_cmp Let_def checked_simps max_def min_def)
qed

theorem SafeClamp_clamps_witness:
  "SafeClamp int32_t int8_t uint8_t 1000 (- 5) 200 = Some 200 \<and>
   SafeClamp int32_t int8_t uint8_t 1000 5 4 = None"
  using SafeClamp_clamps [of int32_t int8_t uint8_t 1000 "- 5" 200]
    SafeClamp_clamps [of int32_t int8_t uint8_t 1000 5 4]
  by (simp add: std_type_def)

end
