(* ===== verification/Seq_Num.thy ===== *)
theory Seq_Num
  imports TQ_Prelude
begin

text \<open>
  \<open>rtc_base/numerics/mod_ops.h\<close> and \<open>sequence_number_util.h\<close>: arithmetic on wrapping numbers, the
  order of sequence numbers and the unwrapper.  The unsigned template type \<open>T\<close> is its width \<open>w\<close>, the
  modulus \<open>M\<close> is 0 for a wrap at the width of \<open>T\<close>; values are \<open>int\<close> in the range of \<open>T\<close> and every
  operation on \<open>T\<close> wraps explicitly.  A failed \<open>RTC_DCHECK\<close> and a signed overflow of the unwrapped
  value are \<open>None\<close>.
\<close>

section \<open>mod_ops.h\<close>

definition wrap :: "nat \<Rightarrow> int \<Rightarrow> int" where
  "wrap w x = x mod 2 ^ w"

definition Add :: "int \<Rightarrow> int \<Rightarrow> int \<Rightarrow> int checked" where
  "Add M a b = do {
     rtc_check (a < M);
     let t = wrap 64 (M - b mod M);
     let res = wrap 64 (a - t);
     Some (if a < t then wrap 64 (res + M) else res)
   }"

definition Subtract :: "int \<Rightarrow> int \<Rightarrow> int \<Rightarrow> int checked" where
  "Subtract M a b = do {
     rtc_check (a < M);
     let sub = b mod M;
     Some (if a < sub then wrap 64 (M - wrap 64 (sub - a)) else wrap 64 (a - sub))
   }"

definition ForwardDiff :: "nat \<Rightarrow> int \<Rightarrow> int \<Rightarrow> int \<Rightarrow> int checked" where
  "ForwardDiff w M a b =
     (if 0 < M
      then do {
        rtc_check (a < M);
        rtc_check (b < M);
        Some (if a \<le> b then wrap w (b - a) else wrap w (M - (a - b)))
      }
      else Some (wrap w (b - a)))"

definition ReverseDiff :: "nat \<Rightarrow> int \<Rightarrow> int \<Rightarrow> int \<Rightarrow> int checked" where
  "ReverseDiff w M a b =
     (if 0 < M
      then do {
        rtc_check (a < M);
        rtc_check (b < M);
        Some (if b \<le> a then wrap w (a - b) else wrap w (M - (b - a)))
      }
      else Some (wrap w (a - b)))"

definition MinDiff :: "nat \<Rightarrow> int \<Rightarrow> int \<Rightarrow> int \<Rightarrow> int checked" where
  "MinDiff w M a b = do {
     f \<leftarrow> ForwardDiff w M a b;
     r \<leftarrow> ReverseDiff w M a b;
     Some (min f r)
   }"

section \<open>sequence_number_util.h\<close>

text \<open>In the case \<open>M = 0\<close> the test \<open>a - b == maxDist\<close> is made on promoted values: for a type narrower
  than \<open>int\<close> the difference does not wrap.\<close>

definition AheadOrAt :: "nat \<Rightarrow> int \<Rightarrow> int \<Rightarrow> int \<Rightarrow> bool checked" where
  "AheadOrAt w M a b =
     (if 0 < M
      then do {
        let maxDist = M div 2;
        at_max \<leftarrow> (if even M then do { d \<leftarrow> MinDiff w M a b; Some (d = maxDist) } else Some False);
        if at_max then Some (b < a)
        else do {
          d \<leftarrow> ForwardDiff w M b a;
          Some (d \<le> maxDist)
        }
      }
      else do {
        let maxDist = (2 ^ w - 1) div 2 + 1;
        if (if w < 32 then a - b else wrap w (a - b)) = maxDist then Some (b < a)
        else do {
          d \<leftarrow> ForwardDiff w 0 b a;
          Some (d < maxDist)
        }
      })"

definition AheadOf :: "nat \<Rightarrow> int \<Rightarrow> int \<Rightarrow> int \<Rightarrow> bool checked" where
  "AheadOf w M a b = (if a \<noteq> b then AheadOrAt w M a b else Some False)"

definition AscendingSeqNumComp :: "nat \<Rightarrow> int \<Rightarrow> int \<Rightarrow> int \<Rightarrow> bool checked" where
  "AscendingSeqNumComp w M a b = AheadOf w M a b"

definition DescendingSeqNumComp :: "nat \<Rightarrow> int \<Rightarrow> int \<Rightarrow> int \<Rightarrow> bool checked" where
  "DescendingSeqNumComp w M a b = AheadOf w M b a"

record seq_num_unwrapper =
  last_unwrapped :: int
  last_value :: "int option"

definition SeqNumUnwrapper :: seq_num_unwrapper where
  "SeqNumUnwrapper = \<lparr>last_unwrapped = 0, last_value = None\<rparr>"

definition kBackwardAdjustment :: "nat \<Rightarrow> int \<Rightarrow> int" where
  "kBackwardAdjustment w M = (if M = 0 then 2 ^ w - 1 + 1 else M)"

definition Unwrap :: "nat \<Rightarrow> int \<Rightarrow> int \<Rightarrow> seq_num_unwrapper \<Rightarrow> (int \<times> seq_num_unwrapper) checked" where
  "Unwrap w M val u = do {
     x \<leftarrow> (case last_value u of
            None \<Rightarrow> Some val
          | Some v \<Rightarrow> do {
              d \<leftarrow> ForwardDiff w M v val;
              x \<leftarrow> i64_add (last_unwrapped u) d;
              ahead \<leftarrow> AheadOrAt w M val v;
              if ahead then Some x else i64_sub x (kBackwardAdjustment w M)
            });
     Some (x, \<lparr>last_unwrapped = x, last_value = Some val\<rparr>)
   }"

definition UnwrapForward :: "nat \<Rightarrow> int \<Rightarrow> int \<Rightarrow> seq_num_unwrapper \<Rightarrow> (int \<times> seq_num_unwrapper) checked" where
  "UnwrapForward w M val u = do {
     x \<leftarrow> (case last_value u of
            None \<Rightarrow> Some val
          | Some v \<Rightarrow> do {
              d \<leftarrow> ForwardDiff w M v val;
              i64_add (last_unwrapped u) d
            });
     Some (x, \<lparr>last_unwrapped = x, last_value = Some val\<rparr>)
   }"

definition UnwrapBackwards :: "nat \<Rightarrow> int \<Rightarrow> int \<Rightarrow> seq_num_unwrapper \<Rightarrow> (int \<times> seq_num_unwrapper) checked" where
  "UnwrapBackwards w M val u = do {
     x \<leftarrow> (case last_value u of
            None \<Rightarrow> Some val
          | Some v \<Rightarrow> do {
              d \<leftarrow> ReverseDiff w M v val;
              i64_sub (last_unwrapped u) d
            });
     Some (x, \<lparr>last_unwrapped = x, last_value = Some val\<rparr>)
   }"

section \<open>Facts\<close>

text \<open>The length of the circle, and the parameters the templates admit.\<close>

definition ring :: "nat \<Rightarrow> int \<Rightarrow> int" where
  "ring w M = (if M = 0 then 2 ^ w else M)"

definition seq_params :: "nat \<Rightarrow> int \<Rightarrow> bool" where
  "seq_params w M \<longleftrightarrow> 0 < w \<and> w \<le> 64 \<and> 0 \<le> M \<and> M < 2 ^ w"

definition seq_num :: "nat \<Rightarrow> int \<Rightarrow> int \<Rightarrow> bool" where
  "seq_num w M a \<longleftrightarrow> 0 \<le> a \<and> a < ring w M"

lemma ring_pos: "seq_params w M \<Longrightarrow> 0 < ring w M \<and> ring w M \<le> 2 ^ w"
  by (auto simp: seq_params_def ring_def)

lemma wrap_id: "0 \<le> x \<Longrightarrow> x < 2 ^ w \<Longrightarrow> wrap w x = x"
  by (simp add: wrap_def)

lemma mod_diff_cases:
  assumes "0 \<le> a" "a < n" "0 \<le> b" "b < (n::int)"
  shows "(b - a) mod n = (if a \<le> b then b - a else n - (a - b))"
proof (cases "a \<le> b")
  case True
  then show ?thesis
    using assms by (simp add: mod_pos_pos_trivial)
next
  case False
  have "(b - a) mod n = (b - a + n) mod n"
    by simp
  also have "\<dots> = b - a + n"
    using assms False by (intro mod_pos_pos_trivial) auto
  finally show ?thesis
    using False by simp
qed

lemma ForwardDiff_mod:
  assumes "seq_params w M" "seq_num w M a" "seq_num w M b"
  shows "ForwardDiff w M a b = Some ((b - a) mod ring w M)"
proof (cases "M = 0")
  case True
  then show ?thesis
    by (simp add: ForwardDiff_def ring_def wrap_def)
next
  case False
  then show ?thesis
    using assms by (auto simp: ForwardDiff_def seq_params_def seq_num_def ring_def checked_simps
        wrap_id mod_diff_cases)
qed

lemma ReverseDiff_mod:
  assumes "seq_params w M" "seq_num w M a" "seq_num w M b"
  shows "ReverseDiff w M a b = Some ((a - b) mod ring w M)"
proof (cases "M = 0")
  case True
  then show ?thesis
    by (simp add: ReverseDiff_def ring_def wrap_def)
next
  case False
  then show ?thesis
    using assms by (auto simp: ReverseDiff_def seq_params_def seq_num_def ring_def checked_simps
        wrap_id mod_diff_cases)
qed

lemma MinDiff_mod:
  assumes "seq_params w M" "seq_num w M a" "seq_num w M b"
  shows "MinDiff w M a b = Some (min ((b - a) mod ring w M) ((a - b) mod ring w M))"
  using assms by (simp add: MinDiff_def ForwardDiff_mod ReverseDiff_mod)

lemma seq_num_bounds: "seq_num w M a \<Longrightarrow> 0 \<le> a \<and> a < ring w M"
  by (simp add: seq_num_def)

text \<open>The order in terms of the distance from \<open>b\<close> forward to \<open>a\<close>.\<close>

lemma AheadOrAt_mod:
  assumes "seq_params w M" "seq_num w M a" "seq_num w M b"
  shows "AheadOrAt w M a b =
    (let d = (a - b) mod ring w M
     in Some (if 2 * d = ring w M then b < a else 2 * d < ring w M))"
proof (cases "M = 0")
  case True
  define h :: int where "h = 2 ^ (w - 1)"
  have h: "(2::int) ^ w = 2 * h"
    using assms(1) by (cases w) (simp_all add: h_def seq_params_def)
  have r: "0 \<le> a" "a < 2 * h" "0 \<le> b" "b < 2 * h"
    using assms(2,3) True h by (simp_all add: seq_num_def ring_def)
  have d: "(a - b) mod (2 * h) = (if b \<le> a then a - b else 2 * h - (b - a))"
    using r by (intro mod_diff_cases) auto
  have m: "(2 * h - 1) div 2 + 1 = h"
    by simp
  have f: "ForwardDiff w 0 b a = Some ((a - b) mod (2 * h))"
    by (simp add: ForwardDiff_def wrap_def h)
  show ?thesis
    using True r by (auto simp: AheadOrAt_def f h m ring_def wrap_def d Let_def split: if_splits)
next
  case False
  then have M: "0 < M" "ring w M = M"
    using assms(1) by (simp_all add: seq_params_def ring_def)
  have r: "0 \<le> a" "a < M" "0 \<le> b" "b < M"
    using assms(2,3) M by (simp_all add: seq_num_def)
  have d: "(a - b) mod M = (if b \<le> a then a - b else M - (b - a))"
    "(b - a) mod M = (if a \<le> b then b - a else M - (a - b))"
    using r by (intro mod_diff_cases; simp)+
  define p where "p = (if b \<le> a then a - b else M - (b - a))"
  have mn: "MinDiff w M a b = Some (min (if a \<le> b then b - a else M - (a - b)) p)"
    using assms by (simp add: MinDiff_mod M(2) d p_def)
  have fw: "ForwardDiff w M b a = Some p"
    using assms by (simp add: ForwardDiff_mod M(2) d p_def)
  have eq: "AheadOrAt w M a b = Some (if 2 * p = M then b < a else 2 * p < M)"
  proof (cases "even M")
    case True
    then obtain h where h: "M = 2 * h"
      by (auto elim: evenE)
    have m: "min (if a \<le> b then b - a else M - (a - b)) p = h \<longleftrightarrow> p = h"
      using r by (auto simp: p_def h min_def)
    show ?thesis
      unfolding AheadOrAt_def mn fw using M(1) by (auto simp: m h)
  next
    case False
    then obtain h where h: "M = 2 * h + 1"
      by (auto elim: oddE)
    have "2 * p \<noteq> M"
      using h by presburger
    moreover have "p \<le> M div 2 \<longleftrightarrow> 2 * p < M"
      using h by auto
    ultimately show ?thesis
      using M(1) False by (simp add: AheadOrAt_def fw)
  qed
  then show ?thesis
    by (simp add: M(2) d p_def Let_def)
qed

text \<open>Of two sequence numbers exactly one of "equal", "the first is ahead" and "the second is ahead"
  holds, for every width and modulus; the one ahead is less than half the circle in front, the higher
  value winning at exactly half.\<close>
theorem AheadOf_trichotomy:
  assumes "seq_params w M" "seq_num w M a" "seq_num w M b"
  shows "\<exists>x y. AheadOf w M a b = Some x \<and> AheadOf w M b a = Some y \<and>
    (x \<noteq> y \<longleftrightarrow> a \<noteq> b) \<and> \<not> (x \<and> y) \<and>
    (x \<longrightarrow> 2 * ((a - b) mod ring w M) < ring w M \<or> 2 * ((a - b) mod ring w M) = ring w M \<and> b < a)"
proof -
  have r: "0 \<le> a" "a < ring w M" "0 \<le> b" "b < ring w M"
    using assms(2,3) by (simp_all add: seq_num_def)
  have d: "(a - b) mod ring w M = (if b \<le> a then a - b else ring w M - (b - a))"
    "(b - a) mod ring w M = (if a \<le> b then b - a else ring w M - (a - b))"
    using r by (intro mod_diff_cases; simp)+
  show ?thesis
    using assms r by (auto simp: AheadOf_def AheadOrAt_mod d Let_def)
qed

theorem AheadOf_trichotomy_witness:
  "\<exists>x y. AheadOf 16 0 1 65535 = Some x \<and> AheadOf 16 0 65535 1 = Some y \<and> x \<noteq> y \<and> \<not> (x \<and> y)"
  using AheadOf_trichotomy [of 16 0 1 65535]
  by (auto simp: seq_params_def seq_num_def ring_def)

text \<open>One step of the unwrapper: the nearest representative of the new value.\<close>

lemma Unwrap_first: "last_value u = None \<Longrightarrow>
  Unwrap w M val u = Some (val, \<lparr>last_unwrapped = val, last_value = Some val\<rparr>)"
  by (simp add: Unwrap_def)

lemma Unwrap_step:
  assumes "seq_params w M" "w \<le> 32" "last_value u = Some v" "seq_num w M v" "seq_num w M val"
    and "- (2 ^ 62) \<le> last_unwrapped u" "last_unwrapped u \<le> 2 ^ 62"
  shows "\<exists>x. Unwrap w M val u = Some (x, \<lparr>last_unwrapped = x, last_value = Some val\<rparr>) \<and>
    (x - last_unwrapped u) mod ring w M = (val - v) mod ring w M \<and>
    2 * \<bar>x - last_unwrapped u\<bar> \<le> ring w M \<and>
    (2 * \<bar>x - last_unwrapped u\<bar> = ring w M \<longrightarrow> (last_unwrapped u < x \<longleftrightarrow> v < val))"
proof -
  define n where "n = ring w M"
  define d where "d = (val - v) mod n"
  define u0 where "u0 = last_unwrapped u"
  have n: "0 < n" "n \<le> 2 ^ 32"
    using ring_pos [OF assms(1)] power_increasing [OF assms(2), of "2::int"] by (auto simp: n_def)
  have d: "0 \<le> d" "d < n"
    using n by (simp_all add: d_def)
  have kb: "kBackwardAdjustment w M = n"
    by (simp add: kBackwardAdjustment_def n_def ring_def)
  have u0: "- (2 ^ 62) \<le> u0" "u0 \<le> 2 ^ 62"
    using assms(6,7) by (simp_all add: u0_def)
  have ah: "AheadOrAt w M val v = Some (if 2 * d = n then v < val else 2 * d < n)"
    using assms by (simp add: AheadOrAt_mod d_def n_def Let_def)
  have fw: "ForwardDiff w M v val = Some d"
    using assms by (simp add: ForwardDiff_mod d_def n_def)
  have ad: "i64_add u0 d = Some (u0 + d)" "i64_sub (u0 + d) n = Some (u0 + d - n)"
    using u0 d n by (simp_all add: i64_ops int_ranges)
  define x where "x = (if (if 2 * d = n then v < val else 2 * d < n) then u0 + d else u0 + d - n)"
  have "Unwrap w M val u = Some (x, \<lparr>last_unwrapped = x, last_value = Some val\<rparr>)"
    by (simp add: Unwrap_def assms(3) fw ah ad kb x_def flip: u0_def)
  moreover have "(x - u0) mod n = d"
    using d by (auto simp: x_def mod_pos_pos_trivial)
  moreover have "2 * \<bar>x - u0\<bar> \<le> n"
    using d by (auto simp: x_def)
  moreover have "2 * \<bar>x - u0\<bar> = n \<longrightarrow> (u0 < x \<longleftrightarrow> v < val)"
    using d n by (auto simp: x_def)
  ultimately show ?thesis
    by (simp add: n_def u0_def d_def)
qed

fun unwrap_all :: "nat \<Rightarrow> int \<Rightarrow> seq_num_unwrapper \<Rightarrow> int list \<Rightarrow> int list checked" where
  "unwrap_all w M u [] = Some []"
| "unwrap_all w M u (v # vs) = do {
     (x, u) \<leftarrow> Unwrap w M v u;
     xs \<leftarrow> unwrap_all w M u vs;
     Some (x # xs)
   }"

lemma congruent_near_eq:
  fixes x y :: int
  assumes "x mod n = y mod n" "\<bar>x - y\<bar> < n"
  shows "x = y"
proof -
  have "n dvd x - y"
    using assms(1) by (simp add: mod_eq_dvd_iff)
  then obtain k where k: "x - y = n * k"
    by blast
  have n: "0 < n"
    using assms(2) by linarith
  have "k = 0"
  proof (rule ccontr)
    assume "k \<noteq> 0"
    then have "1 \<le> \<bar>k\<bar>"
      by linarith
    then have "n * 1 \<le> n * \<bar>k\<bar>"
      using n by (intro mult_left_mono) auto
    then show False
      using assms(2) n by (simp add: k abs_mult)
  qed
  then show ?thesis
    using k by simp
qed

lemma half_sum: "2 * a \<le> n \<Longrightarrow> 2 * b < n \<Longrightarrow> c \<le> a + b \<Longrightarrow> c < (n::int)"
  by linarith

lemma Unwrap_recovers_step:
  assumes "seq_params w M" "w \<le> 32" "last_value u = Some (u0 mod ring w M)" "last_unwrapped u = u0"
    and "\<bar>u0\<bar> \<le> 2 ^ 62" "2 * \<bar>x - u0\<bar> < ring w M"
  shows "Unwrap w M (x mod ring w M) u =
    Some (x, \<lparr>last_unwrapped = x, last_value = Some (x mod ring w M)\<rparr>)"
proof -
  define n where "n = ring w M"
  have n: "0 < n"
    using ring_pos [OF assms(1)] by (simp add: n_def)
  then have sn: "seq_num w M (y mod n)" for y
    by (simp add: seq_num_def n_def)
  obtain y where y: "Unwrap w M (x mod n) u = Some (y, \<lparr>last_unwrapped = y, last_value = Some (x mod n)\<rparr>)"
    "(y - u0) mod n = (x mod n - u0 mod n) mod n" "2 * \<bar>y - u0\<bar> \<le> n"
    using Unwrap_step [OF assms(1,2,3) sn [of u0, unfolded n_def] sn [of x, unfolded n_def]] assms(4,5)
    by (auto simp: n_def abs_le_iff)
  have "(y - u0) mod n = (x - u0) mod n"
    using y(2) by (simp add: mod_diff_eq)
  moreover have "\<bar>(y - u0) - (x - u0)\<bar> < n"
    by (rule half_sum [OF y(3) assms(6) [folded n_def] abs_triangle_ineq4])
  ultimately have "y - u0 = x - u0"
    by (rule congruent_near_eq)
  then show ?thesis
    using y(1) by (simp add: n_def)
qed

lemma unwrap_all_recovers:
  assumes "seq_params w M" "w \<le> 32"
  shows "last_value u = Some (u0 mod ring w M) \<Longrightarrow> last_unwrapped u = u0 \<Longrightarrow>
    \<forall>x \<in> set (u0 # xs). \<bar>x\<bar> \<le> 2 ^ 62 \<Longrightarrow>
    successively (\<lambda>x y. 2 * \<bar>y - x\<bar> < ring w M) (u0 # xs) \<Longrightarrow>
    unwrap_all w M u (map (\<lambda>x. x mod ring w M) xs) = Some xs"
proof (induction xs arbitrary: u u0)
  case (Cons x xs)
  have "Unwrap w M (x mod ring w M) u =
      Some (x, \<lparr>last_unwrapped = x, last_value = Some (x mod ring w M)\<rparr>)"
    using Cons.prems assms by (intro Unwrap_recovers_step) auto
  then show ?case
    using Cons.IH [of "\<lparr>last_unwrapped = x, last_value = Some (x mod ring w M)\<rparr>" x] Cons.prems by simp
qed simp

text \<open>C17: The unwrapper inverts the wrap: when the values of a sequence differ from one to the next by
  less than half the circle and the first lies in its first turn, unwrapping the wrapped sequence
  gives the sequence back, with no overflow while the values stay below \<open>2^62\<close>.\<close>
theorem unwrapper_recovers_sequence:
  assumes "seq_params w M" "w \<le> 32" "seq_num w M x"
    and "\<forall>y \<in> set xs. \<bar>y\<bar> \<le> 2 ^ 62"
    and "successively (\<lambda>y z. 2 * \<bar>z - y\<bar> < ring w M) (x # xs)"
  shows "unwrap_all w M SeqNumUnwrapper (map (\<lambda>y. y mod ring w M) (x # xs)) = Some (x # xs)"
proof -
  have x: "x mod ring w M = x" "0 \<le> x" "x < ring w M"
    using assms(3) by (simp_all add: seq_num_def)
  have "(2::int) ^ w \<le> 2 ^ 32"
    using assms(2) by (intro power_increasing) auto
  then have "\<bar>x\<bar> \<le> 2 ^ 62"
    using x ring_pos [OF assms(1)] by auto
  then have "unwrap_all w M \<lparr>last_unwrapped = x, last_value = Some x\<rparr> (map (\<lambda>y. y mod ring w M) xs) = Some xs"
    using assms x by (intro unwrap_all_recovers [where ?u0.0 = x]) auto
  then show ?thesis
    using x by (simp add: Unwrap_first SeqNumUnwrapper_def)
qed

theorem unwrapper_recovers_sequence_witness:
  "unwrap_all 8 0 SeqNumUnwrapper [250, 4, 100, 251] = Some [250, 260, 356, 251]"
  using unwrapper_recovers_sequence [of 8 0 250 "[260, 356, 251]"]
  by (simp add: seq_params_def seq_num_def ring_def)

lemma UnwrapForward_step:
  assumes "seq_params w M" "w \<le> 32" "last_value u = Some v" "seq_num w M v" "seq_num w M val"
    and "\<bar>last_unwrapped u\<bar> \<le> 2 ^ 62"
  shows "\<exists>x. UnwrapForward w M val u = Some (x, \<lparr>last_unwrapped = x, last_value = Some val\<rparr>) \<and>
    last_unwrapped u \<le> x \<and> x < last_unwrapped u + ring w M \<and>
    (x - last_unwrapped u) mod ring w M = (val - v) mod ring w M"
proof -
  define d where "d = (val - v) mod ring w M"
  have n: "0 < ring w M" "ring w M \<le> 2 ^ 32"
    using ring_pos [OF assms(1)] power_increasing [OF assms(2), of "2::int"] by auto
  have d: "0 \<le> d" "d < ring w M"
    using n by (simp_all add: d_def)
  have "ForwardDiff w M v val = Some d"
    using assms by (simp add: ForwardDiff_mod d_def)
  moreover have "i64_add (last_unwrapped u) d = Some (last_unwrapped u + d)"
    using assms(6) d n by (simp add: i64_ops int_ranges abs_le_iff)
  ultimately show ?thesis
    using assms(3) d by (simp add: UnwrapForward_def flip: d_def)
qed

lemma UnwrapBackwards_step:
  assumes "seq_params w M" "w \<le> 32" "last_value u = Some v" "seq_num w M v" "seq_num w M val"
    and "\<bar>last_unwrapped u\<bar> \<le> 2 ^ 62"
  shows "\<exists>x. UnwrapBackwards w M val u = Some (x, \<lparr>last_unwrapped = x, last_value = Some val\<rparr>) \<and>
    x \<le> last_unwrapped u \<and> last_unwrapped u < x + ring w M \<and>
    (last_unwrapped u - x) mod ring w M = (v - val) mod ring w M"
proof -
  define d where "d = (v - val) mod ring w M"
  have n: "0 < ring w M" "ring w M \<le> 2 ^ 32"
    using ring_pos [OF assms(1)] power_increasing [OF assms(2), of "2::int"] by auto
  have d: "0 \<le> d" "d < ring w M"
    using n by (simp_all add: d_def)
  have "ReverseDiff w M v val = Some d"
    using assms by (simp add: ReverseDiff_mod d_def)
  moreover have "i64_sub (last_unwrapped u) d = Some (last_unwrapped u - d)"
    using assms(6) d n by (simp add: i64_ops int_ranges abs_le_iff)
  ultimately show ?thesis
    using assms(3) d by (simp add: UnwrapBackwards_def flip: d_def)
qed

text \<open>Modular addition and subtraction at a modulus that fits \<open>unsigned long\<close>.\<close>

lemma Add_mod:
  assumes "0 < M" "M < 2 ^ 64" "0 \<le> a" "a < M" "0 \<le> b"
  shows "Add M a b = Some ((a + b) mod M)"
proof -
  define c where "c = b mod M"
  have c: "0 \<le> c" "c < M"
    using assms(1) by (simp_all add: c_def)
  have e: "(a + b) mod M = (a + c) mod M"
    by (simp add: c_def mod_add_right_eq)
  have t: "wrap 64 (M - c) = M - c"
    using c assms by (simp add: wrap_id)
  show ?thesis
  proof (cases "a < M - c")
    case True
    have "wrap 64 (wrap 64 (a - (M - c)) + M) = wrap 64 (a + c)"
      by (simp add: wrap_def mod_add_left_eq)
    also have "\<dots> = a + c"
      using True assms c by (intro wrap_id) auto
    finally have "wrap 64 (wrap 64 (a - (M - c)) + M) = a + c" .
    then show ?thesis
      using assms True c by (simp add: Add_def e t Let_def checked_simps mod_pos_pos_trivial flip: c_def)
  next
    case False
    have "(a + c) mod M = (a + c - M) mod M"
      by simp
    also have "\<dots> = a + c - M"
      using False assms c by (intro mod_pos_pos_trivial) auto
    finally have "(a + c) mod M = a + c - M" .
    then show ?thesis
      using assms False c by (simp add: Add_def e t wrap_id Let_def checked_simps flip: c_def)
  qed
qed

lemma Subtract_mod:
  assumes "0 < M" "M < 2 ^ 64" "0 \<le> a" "a < M" "0 \<le> b"
  shows "Subtract M a b = Some ((a - b) mod M)"
proof -
  define c where "c = b mod M"
  have c: "0 \<le> c" "c < M"
    using assms(1) by (simp_all add: c_def)
  have "(a - b) mod M = (a - c) mod M"
    by (simp add: c_def mod_diff_right_eq)
  also have "\<dots> = (if c \<le> a then a - c else M - (c - a))"
    using assms c by (intro mod_diff_cases) auto
  finally show ?thesis
    using assms c by (simp add: Subtract_def wrap_id Let_def checked_simps flip: c_def)
qed

end
