(* ===== verification/Byte_Order.thy ===== *)
theory Byte_Order
  imports TQ_Prelude
begin

text \<open>
  \<open>rtc_base/byte_order.h\<close>: numbers in memory.  Memory is a list of bytes; how the host stores a number
  is the parameter \<open>be\<close> (\<open>WEBRTC_ARCH_BIG_ENDIAN\<close> or \<open>WEBRTC_ARCH_LITTLE_ENDIAN\<close>), and the macros
  \<open>htobe\<close>, \<open>htole\<close> and their inverses swap the bytes or not according to it, as the header defines them.
\<close>

section \<open>Numbers in memory\<close>

type_synonym bytes = "8 word list"

fun le_bytes :: "nat \<Rightarrow> int \<Rightarrow> bytes" where
  "le_bytes 0 v = []"
| "le_bytes (Suc n) v = word_of_int v # le_bytes n (v div 256)"

fun le_val :: "bytes \<Rightarrow> int" where
  "le_val [] = 0"
| "le_val (b # bs) = uint b + 256 * le_val bs"

text \<open>What \<open>memcpy\<close> of a number of \<open>n\<close> bytes copies out of and into a variable.\<close>

definition host_bytes :: "bool \<Rightarrow> nat \<Rightarrow> int \<Rightarrow> bytes" where
  "host_bytes be n v = (if be then rev (le_bytes n v) else le_bytes n v)"

definition host_val :: "bool \<Rightarrow> bytes \<Rightarrow> int" where
  "host_val be bs = (if be then le_val (rev bs) else le_val bs)"

definition bswap :: "nat \<Rightarrow> int \<Rightarrow> int" where
  "bswap n v = le_val (rev (le_bytes n v))"

definition bswap16 :: "16 word \<Rightarrow> 16 word" where
  "bswap16 v = word_of_int (bswap 2 (uint v))"

definition bswap32 :: "32 word \<Rightarrow> 32 word" where
  "bswap32 v = word_of_int (bswap 4 (uint v))"

definition bswap64 :: "64 word \<Rightarrow> 64 word" where
  "bswap64 v = word_of_int (bswap 8 (uint v))"

section \<open>byte_order.h\<close>

definition htobe16 :: "bool \<Rightarrow> 16 word \<Rightarrow> 16 word" where
  "htobe16 be v = (if be then v else bswap16 v)"

definition htobe32 :: "bool \<Rightarrow> 32 word \<Rightarrow> 32 word" where
  "htobe32 be v = (if be then v else bswap32 v)"

definition htobe64 :: "bool \<Rightarrow> 64 word \<Rightarrow> 64 word" where
  "htobe64 be v = (if be then v else bswap64 v)"

definition htole16 :: "bool \<Rightarrow> 16 word \<Rightarrow> 16 word" where
  "htole16 be v = (if be then bswap16 v else v)"

definition htole32 :: "bool \<Rightarrow> 32 word \<Rightarrow> 32 word" where
  "htole32 be v = (if be then bswap32 v else v)"

definition htole64 :: "bool \<Rightarrow> 64 word \<Rightarrow> 64 word" where
  "htole64 be v = (if be then bswap64 v else v)"

definition Set8 :: "bytes \<Rightarrow> nat \<Rightarrow> 8 word \<Rightarrow> bytes" where
  "Set8 memory offset v = memory[offset := v]"

definition Get8 :: "bytes \<Rightarrow> nat \<Rightarrow> 8 word" where
  "Get8 memory offset = memory ! offset"

definition memcpy :: "bytes \<Rightarrow> bytes \<Rightarrow> bytes" where
  "memcpy memory bs = bs @ drop (length bs) memory"

definition SetBE16 :: "bool \<Rightarrow> bytes \<Rightarrow> 16 word \<Rightarrow> bytes" where
  "SetBE16 be memory v = memcpy memory (host_bytes be 2 (uint (htobe16 be v)))"

definition SetBE32 :: "bool \<Rightarrow> bytes \<Rightarrow> 32 word \<Rightarrow> bytes" where
  "SetBE32 be memory v = memcpy memory (host_bytes be 4 (uint (htobe32 be v)))"

definition SetBE64 :: "bool \<Rightarrow> bytes \<Rightarrow> 64 word \<Rightarrow> bytes" where
  "SetBE64 be memory v = memcpy memory (host_bytes be 8 (uint (htobe64 be v)))"

definition GetBE16 :: "bool \<Rightarrow> bytes \<Rightarrow> 16 word" where
  "GetBE16 be memory = htobe16 be (word_of_int (host_val be (take 2 memory)))"

definition GetBE32 :: "bool \<Rightarrow> bytes \<Rightarrow> 32 word" where
  "GetBE32 be memory = htobe32 be (word_of_int (host_val be (take 4 memory)))"

definition GetBE64 :: "bool \<Rightarrow> bytes \<Rightarrow> 64 word" where
  "GetBE64 be memory = htobe64 be (word_of_int (host_val be (take 8 memory)))"

definition SetLE16 :: "bool \<Rightarrow> bytes \<Rightarrow> 16 word \<Rightarrow> bytes" where
  "SetLE16 be memory v = memcpy memory (host_bytes be 2 (uint (htole16 be v)))"

definition SetLE32 :: "bool \<Rightarrow> bytes \<Rightarrow> 32 word \<Rightarrow> bytes" where
  "SetLE32 be memory v = memcpy memory (host_bytes be 4 (uint (htole32 be v)))"

definition SetLE64 :: "bool \<Rightarrow> bytes \<Rightarrow> 64 word \<Rightarrow> bytes" where
  "SetLE64 be memory v = memcpy memory (host_bytes be 8 (uint (htole64 be v)))"

definition GetLE16 :: "bool \<Rightarrow> bytes \<Rightarrow> 16 word" where
  "GetLE16 be memory = htole16 be (word_of_int (host_val be (take 2 memory)))"

definition GetLE32 :: "bool \<Rightarrow> bytes \<Rightarrow> 32 word" where
  "GetLE32 be memory = htole32 be (word_of_int (host_val be (take 4 memory)))"

definition GetLE64 :: "bool \<Rightarrow> bytes \<Rightarrow> 64 word" where
  "GetLE64 be memory = htole64 be (word_of_int (host_val be (take 8 memory)))"

definition IsHostBigEndian :: "bool \<Rightarrow> bool" where
  "IsHostBigEndian be = be"

definition HostToNetwork16 :: "bool \<Rightarrow> 16 word \<Rightarrow> 16 word" where
  "HostToNetwork16 be n = htobe16 be n"

definition HostToNetwork32 :: "bool \<Rightarrow> 32 word \<Rightarrow> 32 word" where
  "HostToNetwork32 be n = htobe32 be n"

definition HostToNetwork64 :: "bool \<Rightarrow> 64 word \<Rightarrow> 64 word" where
  "HostToNetwork64 be n = htobe64 be n"

definition NetworkToHost16 :: "bool \<Rightarrow> 16 word \<Rightarrow> 16 word" where
  "NetworkToHost16 be n = htobe16 be n"

definition NetworkToHost32 :: "bool \<Rightarrow> 32 word \<Rightarrow> 32 word" where
  "NetworkToHost32 be n = htobe32 be n"

definition NetworkToHost64 :: "bool \<Rightarrow> 64 word \<Rightarrow> 64 word" where
  "NetworkToHost64 be n = htobe64 be n"

section \<open>Facts\<close>

lemma length_le_bytes [simp]: "length (le_bytes n v) = n"
  by (induction n arbitrary: v) auto

lemma length_host_bytes [simp]: "length (host_bytes be n v) = n"
  by (simp add: host_bytes_def)

lemma le_val_le_bytes: "le_val (le_bytes n v) = v mod 2 ^ (8 * n)"
proof (induction n arbitrary: v)
  case (Suc n)
  have "v mod (256 * 2 ^ (8 * n)) = 256 * (v div 256 mod 2 ^ (8 * n)) + v mod 256"
    by (rule zmod_zmult2_eq) simp
  then show ?case
    by (simp add: Suc uint_word_of_int power_add)
qed simp

lemma le_val_bounds: "0 \<le> le_val bs \<and> le_val bs < 2 ^ (8 * length bs)"
proof (induction bs)
  case (Cons b bs)
  have "uint b < 256" "0 \<le> uint b"
    using uint_lt2p [of b] by simp_all
  then show ?case
    using Cons by (simp add: power_add)
qed simp

lemma word_256: "(256 :: 8 word) = 0"
  by simp

lemma le_bytes_le_val: "le_bytes (length bs) (le_val bs) = bs"
proof (induction bs)
  case (Cons b bs)
  have "uint b < 256"
    using uint_lt2p [of b] by simp
  then have "(uint b + 256 * le_val bs) div 256 = le_val bs"
    by simp
  moreover have "word_of_int (uint b + 256 * le_val bs) = b"
    by (simp add: word_256)
  ultimately show ?case
    using Cons by simp
qed simp

lemma host_val_host_bytes: "host_val be (host_bytes be n v) = v mod 2 ^ (8 * n)"
  by (simp add: host_val_def host_bytes_def le_val_le_bytes)

lemma bswap_bytes: "le_bytes n (bswap n v) = rev (le_bytes n v)"
  using le_bytes_le_val [of "rev (le_bytes n v)"] by (simp add: bswap_def)

lemma bswap_bounds: "0 \<le> bswap n v \<and> bswap n v < 2 ^ (8 * n)"
  using le_val_bounds [of "rev (le_bytes n v)"] by (simp add: bswap_def)

lemma uint_word_small: "0 \<le> x \<Longrightarrow> x < 2 ^ LENGTH('a) \<Longrightarrow> uint (word_of_int x :: 'a::len word) = x"
  by (simp add: uint_word_of_int)

lemma uint_bswap:
  "uint (bswap16 v) = bswap 2 (uint v)"
  "uint (bswap32 w) = bswap 4 (uint w)"
  "uint (bswap64 x) = bswap 8 (uint x)"
  using bswap_bounds [of 2] bswap_bounds [of 4] bswap_bounds [of 8]
  by (simp_all add: bswap16_def bswap32_def bswap64_def uint_word_small)

lemma uint_mod_self:
  "uint (v::16 word) mod 2 ^ (8 * 2) = uint v"
  "uint (w::32 word) mod 2 ^ (8 * 4) = uint w"
  "uint (x::64 word) mod 2 ^ (8 * 8) = uint x"
  using uint_lt2p [of v] uint_lt2p [of w] uint_lt2p [of x] by simp_all

lemma bswap_bswap: "bswap n (bswap n v) = v mod 2 ^ (8 * n)"
  by (simp add: bswap_def [of n "bswap n v"] bswap_bytes le_val_le_bytes)

lemma bswap_word [simp]: "bswap16 (bswap16 v) = v" "bswap32 (bswap32 w) = w" "bswap64 (bswap64 x) = x"
  by (simp_all only: word_uint_eq_iff uint_bswap bswap_bswap uint_mod_self)

lemma network_inverse [simp]:
  "NetworkToHost16 be (HostToNetwork16 be v) = v"
  "NetworkToHost32 be (HostToNetwork32 be w) = w"
  "NetworkToHost64 be (HostToNetwork64 be x) = x"
  "HostToNetwork16 be (NetworkToHost16 be v) = v"
  "HostToNetwork32 be (NetworkToHost32 be w) = w"
  "HostToNetwork64 be (NetworkToHost64 be x) = x"
  by (simp_all add: NetworkToHost16_def NetworkToHost32_def NetworkToHost64_def HostToNetwork16_def
      HostToNetwork32_def HostToNetwork64_def htobe16_def htobe32_def htobe64_def)

text \<open>The bytes a setter writes do not depend on the host.\<close>

lemma host_bytes_htobe:
  "host_bytes be 2 (uint (htobe16 be v)) = rev (le_bytes 2 (uint v))"
  "host_bytes be 4 (uint (htobe32 be w)) = rev (le_bytes 4 (uint w))"
  "host_bytes be 8 (uint (htobe64 be x)) = rev (le_bytes 8 (uint x))"
  by (simp_all only: host_bytes_def htobe16_def htobe32_def htobe64_def uint_bswap bswap_bytes
      rev_rev_ident if_True if_False split: if_split) simp_all

lemma host_bytes_htole:
  "host_bytes be 2 (uint (htole16 be v)) = le_bytes 2 (uint v)"
  "host_bytes be 4 (uint (htole32 be w)) = le_bytes 4 (uint w)"
  "host_bytes be 8 (uint (htole64 be x)) = le_bytes 8 (uint x)"
  by (simp_all only: host_bytes_def htole16_def htole32_def htole64_def uint_bswap bswap_bytes
      rev_rev_ident if_True if_False split: if_split) simp_all

lemma take_memcpy: "length bs = n \<Longrightarrow> take n (memcpy memory bs) = bs"
  by (simp add: memcpy_def)

text \<open>On either kind of host the big-endian setters write the most significant byte first and the
  little-endian ones the least significant byte first, each overwriting exactly its own width at the
  front of the memory, and the getter of the same width and order reads the value back.\<close>
theorem setters_host_independent:
  "SetBE16 be m a = rev (le_bytes 2 (uint a)) @ drop 2 m \<and> GetBE16 be (SetBE16 be m a) = a \<and>
   SetBE32 be m b = rev (le_bytes 4 (uint b)) @ drop 4 m \<and> GetBE32 be (SetBE32 be m b) = b \<and>
   SetBE64 be m c = rev (le_bytes 8 (uint c)) @ drop 8 m \<and> GetBE64 be (SetBE64 be m c) = c \<and>
   SetLE16 be m a = le_bytes 2 (uint a) @ drop 2 m \<and> GetLE16 be (SetLE16 be m a) = a \<and>
   SetLE32 be m b = le_bytes 4 (uint b) @ drop 4 m \<and> GetLE32 be (SetLE32 be m b) = b \<and>
   SetLE64 be m c = le_bytes 8 (uint c) @ drop 8 m \<and> GetLE64 be (SetLE64 be m c) = c"
proof -
  note defs = SetBE16_def SetBE32_def SetBE64_def SetLE16_def SetLE32_def SetLE64_def
    GetBE16_def GetBE32_def GetBE64_def GetLE16_def GetLE32_def GetLE64_def
  have hv: "host_val be (host_bytes be 2 (uint (u::16 word))) = uint u"
    "host_val be (host_bytes be 4 (uint (v::32 word))) = uint v"
    "host_val be (host_bytes be 8 (uint (w::64 word))) = uint w" for u v w
    by (simp_all only: host_val_host_bytes uint_mod_self)
  have inv: "htobe16 be (htobe16 be a) = a" "htobe32 be (htobe32 be b) = b" "htobe64 be (htobe64 be c) = c"
    "htole16 be (htole16 be a) = a" "htole32 be (htole32 be b) = b" "htole64 be (htole64 be c) = c"
    by (simp_all add: htobe16_def htobe32_def htobe64_def htole16_def htole32_def htole64_def)
  have w: "memcpy m (rev (le_bytes n v)) = rev (le_bytes n v) @ drop n m"
    "memcpy m (le_bytes n v) = le_bytes n v @ drop n m" for n v
    by (simp_all add: memcpy_def)
  have "GetBE16 be (SetBE16 be m a) = a" "GetBE32 be (SetBE32 be m b) = b" "GetBE64 be (SetBE64 be m c) = c"
    "GetLE16 be (SetLE16 be m a) = a" "GetLE32 be (SetLE32 be m b) = b" "GetLE64 be (SetLE64 be m c) = c"
    by (simp_all only: defs take_memcpy length_host_bytes hv word_of_int_uint inv)
  then show ?thesis
    by (simp only: SetBE16_def SetBE32_def SetBE64_def SetLE16_def SetLE32_def SetLE64_def
        host_bytes_htobe host_bytes_htole w simp_thms)
qed

end
