(* ===== verification/IP_Address.thy ===== *)
theory IP_Address
  imports Byte_Order Flat_Tree
begin

unbundle bit_operations_syntax

text \<open>
  \<open>rtc_base/ip_address.h\<close> and \<open>ip_address.cc\<close>.  An address is its family and the 16 bytes of the
  union, which the functions for version 6 read whatever the family is.  The host is little-endian, as on
  every platform of the build files; numbers in the ip_bytes are read with \<open>load32\<close> in its order.  The
  functions \<open>inet_ntop\<close> and \<open>inet_pton\<close> are arguments: outside Windows they are the C library's, on
  Windows those of \<open>win32.cc\<close>.
\<close>

section \<open>Addresses\<close>

datatype ip_family = AF_UNSPEC | AF_INET | AF_INET6

record IPAddress =
  family :: ip_family
  ip_bytes :: bytes

definition load32 :: "bytes \<Rightarrow> 32 word" where
  "load32 bs = word_of_int (host_val False (take 4 bs))"

definition store32 :: "32 word \<Rightarrow> bytes" where
  "store32 v = host_bytes False 4 (uint v)"

abbreviation ntoh32 :: "32 word \<Rightarrow> 32 word" where
  "ntoh32 \<equiv> NetworkToHost32 False"

abbreviation hton32 :: "32 word \<Rightarrow> 32 word" where
  "hton32 \<equiv> HostToNetwork32 False"

definition ip_unspec :: IPAddress where
  "ip_unspec = \<lparr>family = AF_UNSPEC, ip_bytes = replicate 16 0\<rparr>"

definition ip_of_v4 :: "bytes \<Rightarrow> IPAddress" where
  "ip_of_v4 ip4 = \<lparr>family = AF_INET, ip_bytes = memcpy (replicate 16 0) ip4\<rparr>"

definition ip_of_v6 :: "bytes \<Rightarrow> IPAddress" where
  "ip_of_v6 ip6 = \<lparr>family = AF_INET6, ip_bytes = ip6\<rparr>"

definition ip_of_host_order :: "32 word \<Rightarrow> IPAddress" where
  "ip_of_host_order ip_in_host_byte_order =
     \<lparr>family = AF_INET, ip_bytes = memcpy (replicate 16 0) (store32 (hton32 ip_in_host_byte_order))\<rparr>"

definition ipv4_address :: "IPAddress \<Rightarrow> bytes" where
  "ipv4_address ip = take 4 (ip_bytes ip)"

definition ipv6_address :: "IPAddress \<Rightarrow> bytes" where
  "ipv6_address ip = ip_bytes ip"

definition v4AddressAsHostOrderInteger :: "IPAddress \<Rightarrow> 32 word" where
  "v4AddressAsHostOrderInteger ip =
     (if family ip = AF_INET then ntoh32 (load32 (ipv4_address ip)) else 0)"

fun family_overhead :: "ip_family \<Rightarrow> int" where
  "family_overhead AF_INET = 20"
| "family_overhead AF_INET6 = 40"
| "family_overhead AF_UNSPEC = 0"

definition overhead :: "IPAddress \<Rightarrow> int" where
  "overhead ip = family_overhead (family ip)"

fun family_size :: "ip_family \<Rightarrow> nat" where
  "family_size AF_INET = 4"
| "family_size AF_INET6 = 16"
| "family_size AF_UNSPEC = 0"

definition IP_Size :: "IPAddress \<Rightarrow> nat" where
  "IP_Size ip = family_size (family ip)"

definition ip_eq :: "IPAddress \<Rightarrow> IPAddress \<Rightarrow> bool" where
  "ip_eq a b =
     (if family a \<noteq> family b then False
      else if family a = AF_INET then ipv4_address a = ipv4_address b
      else if family a = AF_INET6 then ipv6_address a = ipv6_address b
      else family a = AF_UNSPEC)"

text \<open>The sign of \<open>memcmp\<close>: the first differing byte decides.\<close>

fun memcmp_less :: "bytes \<Rightarrow> bytes \<Rightarrow> bool" where
  "memcmp_less (x # xs) (y # ys) = (if x = y then memcmp_less xs ys else x < y)"
| "memcmp_less _ _ = False"

definition ip_less :: "IPAddress \<Rightarrow> IPAddress \<Rightarrow> bool" where
  "ip_less a b =
     (if family a \<noteq> family b
      then (if family a = AF_UNSPEC then True
            else if family a = AF_INET \<and> family b = AF_INET6 then True
            else False)
      else case family a of
        AF_INET \<Rightarrow> ntoh32 (load32 (ipv4_address a)) < ntoh32 (load32 (ipv4_address b))
      | AF_INET6 \<Rightarrow> memcmp_less (take 16 (ipv6_address a)) (take 16 (ipv6_address b))
      | AF_UNSPEC \<Rightarrow> False)"

definition ip_greater :: "IPAddress \<Rightarrow> IPAddress \<Rightarrow> bool" where
  "ip_greater a b \<longleftrightarrow> \<not> ip_eq a b \<and> \<not> ip_less a b"

section \<open>Text\<close>

definition hex_digit :: "nat \<Rightarrow> char" where
  "hex_digit d = (if d < 10 then char_of (48 + d) else char_of (87 + d))"

text \<open>\<open>%x\<close>.\<close>

fun hex_string :: "nat \<Rightarrow> string" where
  "hex_string n = (if n < 16 then [hex_digit n] else hex_string (n div 16) @ [hex_digit (n mod 16)])"

declare hex_string.simps [simp del]

type_synonym inet_ntop = "ip_family \<Rightarrow> bytes \<Rightarrow> string option"
type_synonym inet_pton = "ip_family \<Rightarrow> string \<Rightarrow> bytes option"

definition IP_ToString :: "inet_ntop \<Rightarrow> IPAddress \<Rightarrow> string" where
  "IP_ToString ntop ip =
     (if family ip \<noteq> AF_INET \<and> family ip \<noteq> AF_INET6 then []
      else case ntop (family ip) (if family ip = AF_INET6 then ipv6_address ip else ipv4_address ip) of
        None \<Rightarrow> []
      | Some buf \<Rightarrow> buf)"

fun rfind :: "char \<Rightarrow> string \<Rightarrow> nat option" where
  "rfind c [] = None"
| "rfind c (x # xs) = (case rfind c xs of Some i \<Rightarrow> Some (Suc i) | None \<Rightarrow> if x = c then Some 0 else None)"

definition hextet :: "bytes \<Rightarrow> nat \<Rightarrow> nat" where
  "hextet bs i = unat (bs ! (2 * i)) * 256 + unat (bs ! (2 * i + 1))"

definition IP_ToSensitiveString :: "inet_ntop \<Rightarrow> IPAddress \<Rightarrow> string" where
  "IP_ToSensitiveString ntop ip =
     (case family ip of
        AF_INET \<Rightarrow>
          (let address = IP_ToString ntop ip
           in case rfind (CHR ''.'') address of
                None \<Rightarrow> []
              | Some find_pos \<Rightarrow> take find_pos address @ ''.x'')
      | AF_INET6 \<Rightarrow>
          (let addr = ipv6_address ip
           in hex_string (hextet addr 0) @ '':'' @ hex_string (hextet addr 1) @ '':''
                @ hex_string (hextet addr 2) @ '':x:x:x:x:x'')
      | AF_UNSPEC \<Rightarrow> [])"

definition IPFromString :: "inet_pton \<Rightarrow> string \<Rightarrow> bool \<times> IPAddress" where
  "IPFromString pton str =
     (case pton AF_INET str of
        None \<Rightarrow> (case pton AF_INET6 str of
                  None \<Rightarrow> (False, ip_unspec)
                | Some addr6 \<Rightarrow> (True, ip_of_v6 addr6))
      | Some addr \<Rightarrow> (True, ip_of_v4 addr))"

section \<open>Address classes\<close>

definition kV4MappedPrefix :: bytes where
  "kV4MappedPrefix = [0, 0, 0, 0, 0, 0, 0, 0, 0, 0, 0xFF, 0xFF, 0, 0, 0, 0]"

definition k6To4Prefix :: bytes where
  "k6To4Prefix = [0x20, 0x02, 0, 0, 0, 0, 0, 0, 0, 0, 0, 0, 0, 0, 0, 0]"

definition kTeredoPrefix :: bytes where
  "kTeredoPrefix = [0x20, 0x01, 0, 0, 0, 0, 0, 0, 0, 0, 0, 0, 0, 0, 0, 0]"

definition kV4CompatibilityPrefix :: bytes where
  "kV4CompatibilityPrefix = replicate 16 0"

definition k6BonePrefix :: bytes where
  "k6BonePrefix = [0x3f, 0xfe, 0, 0, 0, 0, 0, 0, 0, 0, 0, 0, 0, 0, 0, 0]"

definition kPrivateNetworkPrefix :: bytes where
  "kPrivateNetworkPrefix = [0xFD, 0, 0, 0, 0, 0, 0, 0, 0, 0, 0, 0, 0, 0, 0, 0]"

definition in6addr_any :: bytes where
  "in6addr_any = replicate 16 0"

definition in6addr_loopback :: bytes where
  "in6addr_loopback = replicate 15 0 @ [1]"

definition INADDR_ANY :: "32 word" where
  "INADDR_ANY = 0"

definition INADDR_LOOPBACK :: "32 word" where
  "INADDR_LOOPBACK = 0x7F000001"

definition IPIsHelper :: "IPAddress \<Rightarrow> bytes \<Rightarrow> nat \<Rightarrow> bool" where
  "IPIsHelper ip tomatch len \<longleftrightarrow> take (len div 8) (ipv6_address ip) = take (len div 8) tomatch"

definition IPIs6Bone :: "IPAddress \<Rightarrow> bool" where
  "IPIs6Bone ip = IPIsHelper ip k6BonePrefix 16"

definition IPIs6To4 :: "IPAddress \<Rightarrow> bool" where
  "IPIs6To4 ip = IPIsHelper ip k6To4Prefix 16"

definition IPIsTeredo :: "IPAddress \<Rightarrow> bool" where
  "IPIsTeredo ip = IPIsHelper ip kTeredoPrefix 32"

definition IPIsV4Compatibility :: "IPAddress \<Rightarrow> bool" where
  "IPIsV4Compatibility ip = IPIsHelper ip kV4CompatibilityPrefix 96"

definition IPIsV4Mapped :: "IPAddress \<Rightarrow> bool" where
  "IPIsV4Mapped ip = IPIsHelper ip kV4MappedPrefix 96"

definition IPIsUnspec :: "IPAddress \<Rightarrow> bool" where
  "IPIsUnspec ip \<longleftrightarrow> family ip = AF_UNSPEC"

definition IP_IsNil :: "IPAddress \<Rightarrow> bool" where
  "IP_IsNil ip = IPIsUnspec ip"

definition IPIsPrivateNetworkV4 :: "IPAddress \<Rightarrow> bool" where
  "IPIsPrivateNetworkV4 ip =
     (let ip_in_host_order = v4AddressAsHostOrderInteger ip
      in drop_bit 24 ip_in_host_order = 10
         \<or> drop_bit 20 ip_in_host_order = push_bit 4 172 OR 1
         \<or> drop_bit 16 ip_in_host_order = push_bit 8 192 OR 168)"

definition IPIsPrivateNetworkV6 :: "IPAddress \<Rightarrow> bool" where
  "IPIsPrivateNetworkV6 ip = IPIsHelper ip kPrivateNetworkPrefix 8"

definition IPIsPrivateNetwork :: "IPAddress \<Rightarrow> bool" where
  "IPIsPrivateNetwork ip =
     (case family ip of
        AF_INET \<Rightarrow> IPIsPrivateNetworkV4 ip
      | AF_INET6 \<Rightarrow> IPIsPrivateNetworkV6 ip
      | AF_UNSPEC \<Rightarrow> False)"

definition IPIsSharedNetworkV4 :: "IPAddress \<Rightarrow> bool" where
  "IPIsSharedNetworkV4 ip \<longleftrightarrow> drop_bit 22 (v4AddressAsHostOrderInteger ip) = push_bit 2 100 OR 1"

definition IPIsSharedNetwork :: "IPAddress \<Rightarrow> bool" where
  "IPIsSharedNetwork ip = (if family ip = AF_INET then IPIsSharedNetworkV4 ip else False)"

definition IPIsAny :: "IPAddress \<Rightarrow> bool" where
  "IPIsAny ip =
     (case family ip of
        AF_INET \<Rightarrow> ip_eq ip (ip_of_host_order INADDR_ANY)
      | AF_INET6 \<Rightarrow> ip_eq ip (ip_of_v6 in6addr_any) \<or> ip_eq ip (ip_of_v6 kV4MappedPrefix)
      | AF_UNSPEC \<Rightarrow> False)"

definition IPIsLoopbackV4 :: "IPAddress \<Rightarrow> bool" where
  "IPIsLoopbackV4 ip \<longleftrightarrow> drop_bit 24 (v4AddressAsHostOrderInteger ip) = 127"

definition IPIsLoopbackV6 :: "IPAddress \<Rightarrow> bool" where
  "IPIsLoopbackV6 ip = ip_eq ip (ip_of_v6 in6addr_loopback)"

definition IPIsLoopback :: "IPAddress \<Rightarrow> bool" where
  "IPIsLoopback ip =
     (case family ip of
        AF_INET \<Rightarrow> IPIsLoopbackV4 ip
      | AF_INET6 \<Rightarrow> IPIsLoopbackV6 ip
      | AF_UNSPEC \<Rightarrow> False)"

definition IPIsLinkLocalV4 :: "IPAddress \<Rightarrow> bool" where
  "IPIsLinkLocalV4 ip \<longleftrightarrow> drop_bit 16 (v4AddressAsHostOrderInteger ip) = push_bit 8 169 OR 254"

definition IPIsLinkLocalV6 :: "IPAddress \<Rightarrow> bool" where
  "IPIsLinkLocalV6 ip \<longleftrightarrow> ipv6_address ip ! 0 = 0xFE \<and> ipv6_address ip ! 1 AND 0xC0 = 0x80"

definition IPIsLinkLocal :: "IPAddress \<Rightarrow> bool" where
  "IPIsLinkLocal ip =
     (case family ip of
        AF_INET \<Rightarrow> IPIsLinkLocalV4 ip
      | AF_INET6 \<Rightarrow> IPIsLinkLocalV6 ip
      | AF_UNSPEC \<Rightarrow> False)"

definition IPIsPrivate :: "IPAddress \<Rightarrow> bool" where
  "IPIsPrivate ip \<longleftrightarrow> IPIsLinkLocal ip \<or> IPIsLoopback ip \<or> IPIsPrivateNetwork ip \<or> IPIsSharedNetwork ip"

definition IPIsMacBased :: "IPAddress \<Rightarrow> bool" where
  "IPIsMacBased ip \<longleftrightarrow> ipv6_address ip ! 8 AND 0x02 \<noteq> 0 \<and> ipv6_address ip ! 11 = 0xFF \<and> ipv6_address ip ! 12 = 0xFE"

definition IPIsSiteLocal :: "IPAddress \<Rightarrow> bool" where
  "IPIsSiteLocal ip \<longleftrightarrow> ipv6_address ip ! 0 = 0xFE \<and> ipv6_address ip ! 1 AND 0xC0 = 0xC0"

definition IPIsULA :: "IPAddress \<Rightarrow> bool" where
  "IPIsULA ip \<longleftrightarrow> ipv6_address ip ! 0 AND 0xFE = 0xFC"

definition IPAddressPrecedence :: "IPAddress \<Rightarrow> int" where
  "IPAddressPrecedence ip =
     (if family ip = AF_INET then 30
      else if family ip = AF_INET6 then
        (if IPIsLoopback ip then 60
         else if IPIsULA ip then 50
         else if IPIsV4Mapped ip then 30
         else if IPIs6To4 ip then 20
         else if IPIsTeredo ip then 10
         else if IPIsV4Compatibility ip \<or> IPIsSiteLocal ip \<or> IPIs6Bone ip then 1
         else 40)
      else 0)"

definition GetLoopbackIP :: "ip_family \<Rightarrow> IPAddress" where
  "GetLoopbackIP fam =
     (if fam = AF_INET then ip_of_host_order INADDR_LOOPBACK
      else if fam = AF_INET6 then ip_of_v6 in6addr_loopback
      else ip_unspec)"

definition GetAnyIP :: "ip_family \<Rightarrow> IPAddress" where
  "GetAnyIP fam =
     (if fam = AF_INET then ip_of_host_order INADDR_ANY
      else if fam = AF_INET6 then ip_of_v6 in6addr_any
      else ip_unspec)"

section \<open>Conversions\<close>

definition ExtractMappedAddress :: "bytes \<Rightarrow> bytes" where
  "ExtractMappedAddress in6 = take 4 (drop 12 in6)"

definition Normalized :: "IPAddress \<Rightarrow> IPAddress" where
  "Normalized ip =
     (if family ip \<noteq> AF_INET6 then ip
      else if \<not> IPIsV4Mapped ip then ip
      else ip_of_v4 (ExtractMappedAddress (ip_bytes ip)))"

definition AsIPv6Address :: "IPAddress \<Rightarrow> IPAddress" where
  "AsIPv6Address ip =
     (if family ip \<noteq> AF_INET then ip
      else ip_of_v6 (take 12 kV4MappedPrefix @ ipv4_address ip))"

definition HashIP :: "IPAddress \<Rightarrow> 64 word" where
  "HashIP ip =
     (case family ip of
        AF_INET \<Rightarrow> ucast (load32 (ipv4_address ip))
      | AF_INET6 \<Rightarrow>
          (let v6 = ipv6_address ip
           in ucast (load32 v6 XOR load32 (drop 4 v6) XOR load32 (drop 8 v6) XOR load32 (drop 12 v6)))
      | AF_UNSPEC \<Rightarrow> 0)"

text \<open>One element of the array of four numbers that \<open>TruncateIP\<close> writes.\<close>

definition truncate_word :: "nat \<Rightarrow> 32 word \<Rightarrow> nat \<Rightarrow> 32 word \<Rightarrow> 32 word" where
  "truncate_word position inner_mask i v =
     (if i = position then hton32 (ntoh32 v AND inner_mask)
      else if position < i then 0
      else v)"

definition TruncateIP :: "IPAddress \<Rightarrow> int \<Rightarrow> IPAddress" where
  "TruncateIP ip len =
     (if len < 0 then ip_unspec
      else if family ip = AF_INET then
        (if 31 < len then ip
         else if len = 0 then ip_of_host_order INADDR_ANY
         else let netmask = push_bit (nat (32 - len)) 0xFFFFFFFF;
                  host_order_ip = ntoh32 (load32 (ipv4_address ip))
              in ip_of_v4 (store32 (hton32 (host_order_ip AND netmask))))
      else if family ip = AF_INET6 then
        (if 127 < len then ip
         else if len = 0 then ip_of_v6 in6addr_any
         else let v6 = ipv6_address ip;
                  position = nat (len div 32);
                  inner_length = nat (32 - (len - int position * 32));
                  inner_mask = ucast (push_bit inner_length (0xFFFFFFFF :: 64 word));
                  trunc = (\<lambda>i. store32 (truncate_word position inner_mask i (load32 (drop (4 * i) v6))))
              in ip_of_v6 (trunc 0 @ trunc 1 @ trunc 2 @ trunc 3))
      else ip_unspec)"

text \<open>The number of trailing zeroes by the successive tests of \<open>CountIPMaskBits\<close>.\<close>

definition count_zeroes :: "32 word \<Rightarrow> int" where
  "count_zeroes word_to_count =
     (let w = word_to_count AND (NOT word_to_count + 1);
          zeroes = 32;
          zeroes = (if w \<noteq> 0 then zeroes - 1 else zeroes);
          zeroes = (if w AND 0x0000FFFF \<noteq> 0 then zeroes - 16 else zeroes);
          zeroes = (if w AND 0x00FF00FF \<noteq> 0 then zeroes - 8 else zeroes);
          zeroes = (if w AND 0x0F0F0F0F \<noteq> 0 then zeroes - 4 else zeroes);
          zeroes = (if w AND 0x33333333 \<noteq> 0 then zeroes - 2 else zeroes);
          zeroes = (if w AND 0x55555555 \<noteq> 0 then zeroes - 1 else zeroes)
      in zeroes)"

function first_not_full :: "bytes \<Rightarrow> nat \<Rightarrow> nat" where
  "first_not_full v6 i =
     (if i < 4 \<and> load32 (drop (4 * i) v6) = 0xFFFFFFFF then first_not_full v6 (Suc i) else i)"
  by pat_completeness auto
termination by (relation "measure (\<lambda>(v6, i). 4 - i)") auto

declare first_not_full.simps [simp del]

definition count_bits :: "int \<Rightarrow> 32 word \<Rightarrow> int" where
  "count_bits bits word_to_count =
     (if word_to_count = 0 then bits else bits + (32 - count_zeroes word_to_count))"

definition CountIPMaskBits :: "IPAddress \<Rightarrow> int" where
  "CountIPMaskBits netmask =
     (case family netmask of
        AF_INET \<Rightarrow> count_bits 0 (ntoh32 (load32 (ipv4_address netmask)))
      | AF_INET6 \<Rightarrow>
          (let v6 = ipv6_address netmask; i = first_not_full v6 0
           in count_bits (int i * 32) (if i < 4 then ntoh32 (load32 (drop (4 * i) v6)) else 0))
      | AF_UNSPEC \<Rightarrow> 0)"

section \<open>Interface addresses\<close>

record InterfaceAddress = IPAddress +
  ipv6_flags :: "32 word"

definition interface_address :: "IPAddress \<Rightarrow> 32 word \<Rightarrow> InterfaceAddress" where
  "interface_address ip flags = \<lparr>family = family ip, ip_bytes = ip_bytes ip, ipv6_flags = flags\<rparr>"

definition interface_ip :: "InterfaceAddress \<Rightarrow> IPAddress" where
  "interface_ip a = \<lparr>family = family a, ip_bytes = ip_bytes a\<rparr>"

definition interface_eq :: "InterfaceAddress \<Rightarrow> InterfaceAddress \<Rightarrow> bool" where
  "interface_eq a b \<longleftrightarrow> ipv6_flags a = ipv6_flags b \<and> ip_eq (interface_ip a) (interface_ip b)"

definition Interface_ToString :: "inet_ntop \<Rightarrow> InterfaceAddress \<Rightarrow> string" where
  "Interface_ToString ntop a =
     (let result = IP_ToString ntop (interface_ip a)
      in if family a = AF_INET6 then result @ ''|flags:0x'' @ hex_string (unat (ipv6_flags a)) else result)"

definition InterfaceFromString :: "inet_pton \<Rightarrow> string \<Rightarrow> 32 word \<Rightarrow> InterfaceAddress \<Rightarrow> bool \<times> InterfaceAddress" where
  "InterfaceFromString pton str flags out =
     (case IPFromString pton str of
        (False, _) \<Rightarrow> (False, out)
      | (True, ip) \<Rightarrow> (True, interface_address ip flags))"

section \<open>Values of addresses\<close>

definition be_val :: "bytes \<Rightarrow> int" where
  "be_val bs = le_val (rev bs)"

definition ip_wf :: "IPAddress \<Rightarrow> bool" where
  "ip_wf ip \<longleftrightarrow> length (ip_bytes ip) = 16"

fun ip_key :: "IPAddress \<Rightarrow> nat \<times> int" where
  "ip_key ip = (case family ip of
     AF_UNSPEC \<Rightarrow> (0, 0)
   | AF_INET \<Rightarrow> (1, be_val (ipv4_address ip))
   | AF_INET6 \<Rightarrow> (2, be_val (ipv6_address ip)))"

lemma be_val_bounds: "0 \<le> be_val bs \<and> be_val bs < 2 ^ (8 * length bs)"
  using le_val_bounds [of "rev bs"] by (simp add: be_val_def)

lemma le_val_append: "le_val (xs @ ys) = le_val xs + 2 ^ (8 * length xs) * le_val ys"
  by (induction xs) (simp_all add: power_add algebra_simps)

lemma be_val_append: "be_val (xs @ ys) = be_val xs * 2 ^ (8 * length ys) + be_val ys"
  by (simp add: be_val_def le_val_append algebra_simps)

lemma be_val_Cons: "be_val (x # xs) = uint x * 2 ^ (8 * length xs) + be_val xs"
  using be_val_append [of "[x]" xs] by (simp add: be_val_def)

lemma be_val_Nil [simp]: "be_val [] = 0"
  by (simp add: be_val_def)

lemma uint_ntoh_load:
  assumes "4 \<le> length bs"
  shows "uint (ntoh32 (load32 bs)) = be_val (take 4 bs)"
proof -
  have l: "length (take 4 bs) = 4"
    using assms by simp
  have "uint (load32 bs) = le_val (take 4 bs)"
    using le_val_bounds [of "take 4 bs"] l by (simp add: load32_def host_val_def uint_word_small)
  moreover have "le_bytes 4 (le_val (take 4 bs)) = take 4 bs"
    using le_bytes_le_val [of "take 4 bs"] l by simp
  ultimately show ?thesis
    by (simp add: NetworkToHost32_def htobe32_def uint_bswap bswap_def be_val_def)
qed

lemma be_val_store: "be_val (store32 (hton32 v)) = uint v"
proof -
  have "store32 (hton32 v) = rev (le_bytes 4 (uint v))"
    by (simp only: store32_def HostToNetwork32_def host_bytes_htobe)
  then show ?thesis
    using uint_lt2p [of v] by (simp add: be_val_def le_val_le_bytes)
qed

lemma length_store32 [simp]: "length (store32 v) = 4"
  by (simp add: store32_def)

lemma memcmp_less_be_val:
  "length xs = length ys \<Longrightarrow> memcmp_less xs ys \<longleftrightarrow> be_val xs < be_val ys"
proof (induction xs ys rule: memcmp_less.induct)
  case (1 x xs y ys)
  define p :: int where "p = 2 ^ (8 * length xs)"
  have b: "0 \<le> be_val xs" "be_val xs < p" "0 \<le> be_val ys" "be_val ys < p"
    using be_val_bounds [of xs] be_val_bounds [of ys] 1(2) by (simp_all add: p_def)
  show ?case
  proof (cases "x = y")
    case False
    have "uint x < uint y \<longleftrightarrow> uint x * p + be_val xs < uint y * p + be_val ys"
    proof
      assume "uint x < uint y"
      then have "(uint x + 1) * p \<le> uint y * p"
        using b by (intro mult_right_mono) auto
      then show "uint x * p + be_val xs < uint y * p + be_val ys"
        using b by (simp add: algebra_simps)
    next
      assume l: "uint x * p + be_val xs < uint y * p + be_val ys"
      show "uint x < uint y"
      proof (rule ccontr)
        assume "\<not> uint x < uint y"
        then have "uint y + 1 \<le> uint x"
          using False by (simp add: word_uint_eq_iff)
        then have "(uint y + 1) * p \<le> uint x * p"
          using b by (intro mult_right_mono) auto
        then show False
          using l b by (simp add: algebra_simps)
      qed
    qed
    then show ?thesis
      using False 1(2) by (simp add: be_val_Cons word_less_def p_def)
  qed (use 1 in \<open>simp add: be_val_Cons\<close>)
qed auto

lemma be_val_inject: "length xs = length ys \<Longrightarrow> be_val xs = be_val ys \<longleftrightarrow> xs = ys"
  by (metis be_val_def le_bytes_le_val length_rev rev_rev_ident)

lemma ip_less_key:
  assumes "ip_wf a" "ip_wf b"
  shows "ip_less a b \<longleftrightarrow> fst (ip_key a) < fst (ip_key b)
    \<or> fst (ip_key a) = fst (ip_key b) \<and> snd (ip_key a) < snd (ip_key b)"
  using assms
  by (auto simp: ip_less_def ip_wf_def ipv4_address_def ipv6_address_def word_less_def uint_ntoh_load
      memcmp_less_be_val split: ip_family.splits)

lemma ip_eq_key:
  assumes "ip_wf a" "ip_wf b"
  shows "ip_eq a b \<longleftrightarrow> ip_key a = ip_key b"
  using assms
  by (auto simp: ip_eq_def ip_wf_def ipv4_address_def ipv6_address_def be_val_inject split: ip_family.splits)

lemma all_ones: "(0xFFFFFFFF :: 32 word) = - 1" "(0xFFFFFFFF :: 64 word) = mask 32"
  by (simp_all add: mask_eq_exp_minus_1)

lemma and_high_mask: "w AND push_bit k 0xFFFFFFFF = push_bit k (drop_bit k (w :: 32 word))"
  unfolding all_ones by (intro bit_word_eqI) (auto simp: bit_simps)

lemma round_down_bounds: "0 \<le> x \<Longrightarrow> 0 \<le> x div 2 ^ k * 2 ^ k \<and> x div 2 ^ k * 2 ^ k \<le> (x :: int)"
  by (simp add: pos_imp_zdiv_nonneg_iff zmod_le_nonneg_dividend minus_mod_eq_div_mult [symmetric])

lemma uint_round_down: "uint (push_bit k (drop_bit k (w :: 32 word))) = uint w div 2 ^ k * 2 ^ k"
proof -
  have "take_bit 32 (uint w div 2 ^ k * 2 ^ k) = uint w div 2 ^ k * 2 ^ k"
    using uint_lt2p [of w] round_down_bounds [of "uint w" k] by (intro take_bit_int_eq_self) auto
  moreover have "take_bit 32 (uint w) = uint w"
    using uint_lt2p [of w] by (intro take_bit_int_eq_self) auto
  ultimately show ?thesis
    by (simp only: unsigned_push_bit_eq unsigned_drop_bit_eq)
      (simp add: push_bit_eq_mult drop_bit_eq_div)
qed

lemma inner_mask: "k \<le> 32 \<Longrightarrow> ucast (push_bit k (0xFFFFFFFF :: 64 word)) = (push_bit k 0xFFFFFFFF :: 32 word)"
  unfolding all_ones by (intro bit_word_eqI) (auto simp: bit_simps)

text \<open>The value of an address and the width of its family.\<close>

fun family_bits :: "ip_family \<Rightarrow> nat" where
  "family_bits AF_INET = 32"
| "family_bits AF_INET6 = 128"
| "family_bits AF_UNSPEC = 0"

definition ip_value :: "IPAddress \<Rightarrow> int" where
  "ip_value ip = be_val (take (family_size (family ip)) (ip_bytes ip))"

definition round_down :: "nat \<Rightarrow> int \<Rightarrow> int" where
  "round_down k x = x div 2 ^ k * 2 ^ k"

lemma truncate_v4_value:
  assumes "ip_wf ip" "family ip = AF_INET" "0 < n" "n \<le> 31"
  shows "family (TruncateIP ip n) = AF_INET \<and> ip_value (TruncateIP ip n) = round_down (nat (32 - n)) (ip_value ip)"
proof -
  have "length (ip_bytes ip) = 16"
    using assms(1) by (simp add: ip_wf_def)
  then have "ip_value ip = uint (ntoh32 (load32 (ipv4_address ip)))"
    using assms(2) by (simp add: ip_value_def ipv4_address_def uint_ntoh_load)
  then show ?thesis
    using assms by (simp add: TruncateIP_def Let_def ip_of_v4_def ip_value_def memcpy_def and_high_mask
        be_val_store uint_round_down round_down_def)
qed

lemma be_val_store_0: "be_val (store32 0) = 0"
  by (simp add: store32_def host_bytes_def be_val_def eval_nat_numeral)

lemma truncate_word_value:
  assumes "r < 32"
  shows "be_val (store32 (truncate_word p (ucast (push_bit (32 - r) (0xFFFFFFFF :: 64 word))) i (load32 bs)))
    = (if i < p then be_val (store32 (load32 bs))
       else if i = p then round_down (32 - r) (uint (ntoh32 (load32 bs))) else 0)"
  using assms by (auto simp: be_val_store_0 truncate_word_def inner_mask and_high_mask be_val_store uint_round_down round_down_def)

text \<open>The value of 16 bytes by their four numbers.\<close>

lemma be_val_split:
  assumes "length bs = 16"
  shows "be_val bs = be_val (take 4 bs) * 2 ^ 96 + be_val (take 4 (drop 4 bs)) * 2 ^ 64
    + be_val (take 4 (drop 8 bs)) * 2 ^ 32 + be_val (take 4 (drop 12 bs))"
proof -
  have "bs = take 4 bs @ take 4 (drop 4 bs) @ take 4 (drop 8 bs) @ take 4 (drop 12 bs)"
    using assms append_take_drop_id [of 4 bs] append_take_drop_id [of 4 "drop 4 bs"]
      append_take_drop_id [of 4 "drop 8 bs"] by (simp add: drop_drop)
  then have "be_val bs = be_val (take 4 bs @ take 4 (drop 4 bs) @ take 4 (drop 8 bs) @ take 4 (drop 12 bs))"
    by simp
  also have "\<dots> = be_val (take 4 bs) * 2 ^ 96 + be_val (take 4 (drop 4 bs)) * 2 ^ 64
    + be_val (take 4 (drop 8 bs)) * 2 ^ 32 + be_val (take 4 (drop 12 bs))"
    using assms by (simp add: be_val_append)
  finally show ?thesis .
qed

lemma round_down_parts:
  fixes h w l :: int
  assumes "0 \<le> l" "l < 2 ^ m" "k \<le> 32"
  shows "round_down (k + m) (h * 2 ^ (32 + m) + w * 2 ^ m + l) = h * 2 ^ (32 + m) + round_down k w * 2 ^ m"
proof -
  have "h * 2 ^ (32 + m) + w * 2 ^ m + l = (h * 2 ^ 32 + w) * 2 ^ m + l"
    by (simp add: power_add algebra_simps)
  then have "(h * 2 ^ (32 + m) + w * 2 ^ m + l) div 2 ^ m = h * 2 ^ 32 + w"
    using assms(1,2) by simp
  moreover have "x div 2 ^ (k + m) = x div 2 ^ m div 2 ^ k" for x :: int
    using zdiv_zmult2_eq [of "2 ^ k" x "2 ^ m"] by (simp add: power_add mult.commute)
  moreover have "(h * 2 ^ 32 + w) div 2 ^ k = h * 2 ^ (32 - k) + w div 2 ^ k"
  proof -
    have e: "h * 2 ^ 32 + w = w + (h * 2 ^ (32 - k)) * 2 ^ k"
      using assms(3) by (simp add: mult.assoc flip: power_add)
    show ?thesis
      unfolding e by (subst div_mult_self1) auto
  qed
  ultimately have "round_down (k + m) (h * 2 ^ (32 + m) + w * 2 ^ m + l) =
      (h * 2 ^ (32 - k) + w div 2 ^ k) * 2 ^ (k + m)"
    by (simp only: round_down_def)
  also have "\<dots> = h * (2 ^ (32 - k) * 2 ^ k) * 2 ^ m + w div 2 ^ k * 2 ^ k * 2 ^ m"
    by (simp add: distrib_right power_add mult.assoc)
  also have "2 ^ (32 - k) * 2 ^ k = (2 ^ 32 :: int)"
    using assms(3) by (simp flip: power_add)
  finally show ?thesis
    by (simp add: round_down_def power_add)
qed

lemma be_val_32:
  "length bs = 4 \<Longrightarrow> 0 \<le> be_val bs \<and> be_val bs < 2 ^ 32"
  using be_val_bounds [of bs] by simp

lemma TruncateIP_v6:
  assumes "family ip = AF_INET6" "0 < n" "n \<le> 127" "n = 32 * int p + int r" "r < 32"
  shows "TruncateIP ip n = ip_of_v6
    (store32 (truncate_word p (ucast (push_bit (32 - r) (0xFFFFFFFF :: 64 word))) 0 (load32 (drop (4 * 0) (ip_bytes ip)))) @
     store32 (truncate_word p (ucast (push_bit (32 - r) (0xFFFFFFFF :: 64 word))) 1 (load32 (drop (4 * 1) (ip_bytes ip)))) @
     store32 (truncate_word p (ucast (push_bit (32 - r) (0xFFFFFFFF :: 64 word))) 2 (load32 (drop (4 * 2) (ip_bytes ip)))) @
     store32 (truncate_word p (ucast (push_bit (32 - r) (0xFFFFFFFF :: 64 word))) 3 (load32 (drop (4 * 3) (ip_bytes ip)))))"
proof -
  have "n div 32 = int p" "32 - (n - int p * 32) = int (32 - r)"
    using assms(4,5) by (simp_all add: of_nat_diff)
  then have "nat (n div 32) = p" "nat (32 - (n - int p * 32)) = 32 - r"
    by (simp_all only: nat_int)
  then show ?thesis
    using assms(1-3) by (simp add: TruncateIP_def Let_def ipv6_address_def)
qed

lemma truncate_v6_value:
  assumes "ip_wf ip" "family ip = AF_INET6" "0 < n" "n \<le> 127"
  shows "family (TruncateIP ip n) = AF_INET6 \<and> ip_value (TruncateIP ip n) = round_down (nat (128 - n)) (ip_value ip)"
proof -
  define bs where "bs = ip_bytes ip"
  define p where "p = nat (n div 32)"
  define r where "r = nat (n mod 32)"
  have l: "length bs = 16"
    using assms(1) by (simp add: ip_wf_def bs_def)
  have n: "n = 32 * int p + int r" "r < 32" "p < 4"
    using assms(3,4) by (simp_all add: p_def r_def nat_less_iff)
  have "128 - n = int ((32 - r) + 32 * (3 - p))"
    using n by (simp add: of_nat_diff)
  then have pos: "nat (128 - n) = (32 - r) + 32 * (3 - p)"
    by (simp only: nat_int)
  define f where "f = (\<lambda>i. be_val (take 4 (drop (4 * i) bs)))"
  have f: "uint (ntoh32 (load32 (drop (4 * i) bs))) = f i" "0 \<le> f i" "f i < 2 ^ 32"
    "be_val (store32 (load32 (drop (4 * i) bs))) = f i" if "i < 4" for i
  proof -
    show u: "uint (ntoh32 (load32 (drop (4 * i) bs))) = f i"
      using l that by (simp add: f_def uint_ntoh_load)
    show "0 \<le> f i" "f i < 2 ^ 32"
      using l that be_val_32 [of "take 4 (drop (4 * i) bs)"] by (simp_all add: f_def)
    show "be_val (store32 (load32 (drop (4 * i) bs))) = f i"
      using be_val_store [of "ntoh32 (load32 (drop (4 * i) bs))"] u by simp
  qed
  define t where "t = (\<lambda>i. store32 (truncate_word p (ucast (push_bit (32 - r) (0xFFFFFFFF :: 64 word))) i
    (load32 (drop (4 * i) bs))))"
  have T: "TruncateIP ip n = ip_of_v6 (t 0 @ t 1 @ t 2 @ t 3)"
    unfolding t_def bs_def using assms n by (intro TruncateIP_v6) auto
  have tl: "length (t i) = 4" for i
    by (simp add: t_def)
  have tv: "be_val (t i) = (if i < p then f i else if i = p then round_down (32 - r) (f i) else 0)" if "i < 4" for i
    unfolding t_def truncate_word_value [OF n(2)] using f [OF that] by auto
  have "ip_value (TruncateIP ip n) = be_val (t 0) * 2 ^ 96 + be_val (t 1) * 2 ^ 64 + be_val (t 2) * 2 ^ 32 + be_val (t 3)"
    by (simp add: T ip_of_v6_def ip_value_def be_val_append tl)
  moreover have "ip_value ip = f 0 * 2 ^ 96 + f 1 * 2 ^ 64 + f 2 * 2 ^ 32 + f 3"
    using be_val_split [OF l] assms(2) l by (simp add: ip_value_def f_def flip: bs_def)
  moreover have "be_val (t 0) * 2 ^ 96 + be_val (t 1) * 2 ^ 64 + be_val (t 2) * 2 ^ 32 + be_val (t 3) =
      round_down ((32 - r) + 32 * (3 - p)) (f 0 * 2 ^ 96 + f 1 * 2 ^ 64 + f 2 * 2 ^ 32 + f 3)"
  proof -
    note b = f(2,3) [of 0] f(2,3) [of 1] f(2,3) [of 2] f(2,3) [of 3]
    from n(3) consider "p = 0" | "p = 1" | "p = 2" | "p = 3"
      by linarith
    then show ?thesis
    proof cases
      case 1
      have "round_down ((32 - r) + 96) (0 * 2 ^ (32 + 96) + f 0 * 2 ^ 96 + (f 1 * 2 ^ 64 + f 2 * 2 ^ 32 + f 3))
        = 0 * 2 ^ (32 + 96) + round_down (32 - r) (f 0) * 2 ^ 96"
        by (rule round_down_parts) (use b in auto)
      then show ?thesis
        using 1 by (simp add: tv add.assoc)
    next
      case 2
      have "round_down ((32 - r) + 64) (f 0 * 2 ^ (32 + 64) + f 1 * 2 ^ 64 + (f 2 * 2 ^ 32 + f 3))
        = f 0 * 2 ^ (32 + 64) + round_down (32 - r) (f 1) * 2 ^ 64"
        by (rule round_down_parts) (use b in auto)
      then show ?thesis
        using 2 by (simp add: tv add.assoc)
    next
      case 3
      have "round_down ((32 - r) + 32) ((f 0 * 2 ^ 32 + f 1) * 2 ^ (32 + 32) + f 2 * 2 ^ 32 + f 3)
        = (f 0 * 2 ^ 32 + f 1) * 2 ^ (32 + 32) + round_down (32 - r) (f 2) * 2 ^ 32"
        by (rule round_down_parts) (use b in auto)
      then show ?thesis
        using 3 by (simp add: tv algebra_simps)
    next
      case 4
      have "round_down ((32 - r) + 0) ((f 0 * 2 ^ 64 + f 1 * 2 ^ 32 + f 2) * 2 ^ (32 + 0) + f 3 * 2 ^ 0 + 0)
        = (f 0 * 2 ^ 64 + f 1 * 2 ^ 32 + f 2) * 2 ^ (32 + 0) + round_down (32 - r) (f 3) * 2 ^ 0"
        by (rule round_down_parts) (use b in auto)
      then show ?thesis
        using 4 by (simp add: tv algebra_simps)
    qed
  qed
  ultimately show ?thesis
    by (simp add: pos T ip_of_v6_def)
qed

lemma count_zeroes_ones:
  assumes "k < 32"
  shows "count_zeroes (push_bit k 0xFFFFFFFF) = int k"
proof -
  have "\<forall>k \<in> set [0..<32]. count_zeroes (push_bit k 0xFFFFFFFF) = int k"
    by (simp add: upt_rec count_zeroes_def Let_def push_bit_eq_mult)
  then show ?thesis
    using assms by simp
qed

lemma le_bytes_numeral:
  "le_bytes 2 v = [word_of_int v, word_of_int (v div 256)]"
  "le_bytes 4 v = [word_of_int v, word_of_int (v div 256), word_of_int (v div 65536), word_of_int (v div 16777216)]"
  by (simp_all add: numeral_eq_Suc div_mult2_eq zdiv_zmult2_eq [symmetric])

lemma replicate_4: "replicate 4 x = [x, x, x, x]"
  by (simp add: numeral_eq_Suc)

definition all_ones_address :: "ip_family \<Rightarrow> IPAddress" where
  "all_ones_address fam = (if fam = AF_INET then ip_of_v4 (replicate 4 0xFF) else ip_of_v6 (replicate 16 0xFF))"

lemma load_store: "load32 (store32 v @ bs) = v"
proof -
  have "host_val False (host_bytes False 4 (uint v)) = uint v"
    by (simp only: host_val_host_bytes uint_mod_self)
  then show ?thesis
    by (simp add: load32_def store32_def)
qed

lemma hton_simps [simp]: "hton32 0xFFFFFFFF = 0xFFFFFFFF" "hton32 0 = 0"
  by (simp_all add: HostToNetwork32_def htobe32_def bswap32_def bswap_def le_bytes_numeral)

lemma load_ones: "load32 (replicate 4 0xFF) = 0xFFFFFFFF"
  by (simp add: load32_def host_val_def replicate_4)

lemma round_down_ge:
  "0 \<le> x \<Longrightarrow> x < 2 ^ n \<Longrightarrow> round_down n x = 0" "round_down 0 x = x"
  by (simp_all add: round_down_def)

lemma ip_value_bounds: "ip_wf ip \<Longrightarrow> 0 \<le> ip_value ip \<and> ip_value ip < 2 ^ family_bits (family ip)"
  using be_val_bounds [of "take (family_size (family ip)) (ip_bytes ip)"]
  by (cases "family ip") (simp_all add: ip_value_def ip_wf_def)

lemma be_val_zeroes: "be_val (replicate n 0) = 0"
  by (induction n) (simp_all add: be_val_Cons)

lemma truncate_0_value:
  assumes "family ip \<noteq> AF_UNSPEC"
  shows "family (TruncateIP ip 0) = family ip \<and> ip_value (TruncateIP ip 0) = 0"
  using assms be_val_zeroes [of 16]
  by (cases "family ip")
    (simp_all add: TruncateIP_def ip_of_host_order_def ip_of_v6_def INADDR_ANY_def in6addr_any_def
      ip_value_def be_val_store_0 memcpy_def)

text \<open>Truncation to a prefix of \<open>n\<close> bits, at any \<open>n\<close> from 0 up, keeps the family and clears exactly
  the bits behind the prefix of the address read as one number, for version 4 and version 6.\<close>
theorem TruncateIP_keeps_prefix:
  assumes "ip_wf ip" "family ip \<noteq> AF_UNSPEC" "0 \<le> n"
  shows "family (TruncateIP ip n) = family ip \<and>
    ip_value (TruncateIP ip n) = round_down (nat (int (family_bits (family ip)) - n)) (ip_value ip)"
proof -
  have b: "0 \<le> ip_value ip" "ip_value ip < 2 ^ family_bits (family ip)"
    using ip_value_bounds [OF assms(1)] by simp_all
  consider "n = 0" | "int (family_bits (family ip)) \<le> n" "0 < n" | "0 < n" "n < int (family_bits (family ip))"
    using assms(3) by linarith
  then show ?thesis
  proof cases
    case 1
    then show ?thesis
      using assms(2) b by (cases "family ip") (simp_all add: truncate_0_value round_down_ge)
  next
    case 2
    then show ?thesis
      using assms(2) by (cases "family ip") (simp_all add: TruncateIP_def round_down_ge)
  next
    case 3
    then show ?thesis
      using assms truncate_v4_value [of ip n] truncate_v6_value [of ip n] by (cases "family ip") simp_all
  qed
qed

theorem TruncateIP_keeps_prefix_witness:
  "ip_value (TruncateIP (ip_of_v4 [192, 168, 77, 5]) 16) = 0xC0A80000"
proof -
  let ?ip = "ip_of_v4 [192, 168, 77, 5]"
  have "ip_wf ?ip" "family ?ip = AF_INET" "ip_value ?ip = 0xC0A84D05"
    by (simp_all add: ip_wf_def ip_of_v4_def memcpy_def ip_value_def be_val_def)
  then show ?thesis
    using TruncateIP_keeps_prefix [of ?ip 16] by (simp add: round_down_def)
qed

lemma first_not_full_at:
  assumes "p \<le> 4" "\<And>i. i < p \<Longrightarrow> load32 (drop (4 * i) bs) = 0xFFFFFFFF"
    "p < 4 \<Longrightarrow> load32 (drop (4 * p) bs) \<noteq> 0xFFFFFFFF"
  shows "first_not_full bs 0 = p"
proof -
  have "first_not_full bs (p - k) = p" if "k \<le> p" for k
    using that
  proof (induction k)
    case 0
    then show ?case
      using assms(3) by (subst first_not_full.simps) auto
  next
    case (Suc k)
    then have "Suc (p - Suc k) = p - k"
      by simp
    then show ?case
      using Suc assms(1,2) by (subst first_not_full.simps) simp
  qed
  from this [of p] show ?thesis
    by simp
qed

lemma count_bits_ones:
  assumes "r < 32"
  shows "count_bits b (push_bit (32 - r) 0xFFFFFFFF) = b + int r"
proof (cases "r = 0")
  case True
  then show ?thesis
    by (simp add: count_bits_def push_bit_eq_mult)
next
  case False
  have "count_zeroes 0 = 32"
    by (simp add: count_zeroes_def)
  then have "push_bit (32 - r) (0xFFFFFFFF :: 32 word) \<noteq> 0"
    using count_zeroes_ones [of "32 - r"] False assms by auto
  then show ?thesis
    using count_zeroes_ones [of "32 - r"] False assms by (simp add: count_bits_def of_nat_diff)
qed

lemma ones_v4: "ip_bytes (all_ones_address AF_INET) = replicate 4 0xFF @ replicate 12 0"
  by (simp add: all_ones_address_def ip_of_v4_def memcpy_def)

lemma ones_v6: "ip_bytes (all_ones_address AF_INET6) = replicate 16 0xFF"
  by (simp add: all_ones_address_def ip_of_v6_def)

lemma ones_family: "fam \<noteq> AF_UNSPEC \<Longrightarrow> family (all_ones_address fam) = fam"
  by (cases fam) (simp_all add: all_ones_address_def ip_of_v4_def ip_of_v6_def)

lemma load_ones_v6: "i < 4 \<Longrightarrow> load32 (drop (4 * i) (replicate 16 0xFF)) = 0xFFFFFFFF"
proof -
  assume "i < 4"
  then have "take 4 (drop (4 * i) (replicate 16 (0xFF :: 8 word))) = replicate 4 0xFF"
    by simp
  then show ?thesis
    using load_ones by (simp add: load32_def)
qed

lemma load_drop_store:
  assumes "i < 4" "\<And>j. length (t j) = 4"
  shows "load32 (drop (4 * i) (t 0 @ t 1 @ t 2 @ t 3)) = load32 (t i)"
proof -
  from assms(1) consider "i = 0" | "i = 1" | "i = 2" | "i = 3"
    by linarith
  then show ?thesis
    by cases (simp_all add: assms(2) load32_def)
qed

lemma load_store_self: "load32 (store32 v) = v"
  using load_store [of v "[]"] by simp

lemma ones_and: "(0xFFFFFFFF :: 32 word) AND x = x"
  by (simp add: all_ones)

lemma mask_v4:
  assumes "n \<le> 32"
  shows "CountIPMaskBits (TruncateIP (all_ones_address AF_INET) (int n)) = int n"
proof -
  consider "n = 0" | "0 < n" "n \<le> 31" | "n = 32"
    using assms by linarith
  then show ?thesis
  proof cases
    case 1
    then show ?thesis
      using ones_family [of AF_INET]
      by (simp add: TruncateIP_def CountIPMaskBits_def ip_of_host_order_def INADDR_ANY_def ipv4_address_def
          memcpy_def load_store_self NetworkToHost32_def htobe32_def count_bits_def bswap32_def bswap_def
          le_bytes_numeral)
  next
    case 2
    have "TruncateIP (all_ones_address AF_INET) (int n) =
        ip_of_v4 (store32 (hton32 (push_bit (32 - n) 0xFFFFFFFF)))"
      using 2 ones_family [of AF_INET]
      by (simp add: TruncateIP_def Let_def ipv4_address_def ones_v4 load_ones nat_diff_distrib ones_and
          NetworkToHost32_def htobe32_def bswap32_def bswap_def le_bytes_numeral replicate_4 load32_def host_val_def)
    then show ?thesis
      using 2 count_bits_ones [of n 0]
      by (simp add: CountIPMaskBits_def ip_of_v4_def ipv4_address_def memcpy_def load_store_self)
  next
    case 3
    have "count_zeroes 0xFFFFFFFF = 0"
      using count_zeroes_ones [of 0] by simp
    then show ?thesis
      using 3 ones_family [of AF_INET]
      by (simp add: TruncateIP_def CountIPMaskBits_def ipv4_address_def ones_v4 load_ones count_bits_def
          NetworkToHost32_def htobe32_def bswap32_def bswap_def le_bytes_numeral)
  qed
qed

lemma mask_v6:
  assumes "n \<le> 128"
  shows "CountIPMaskBits (TruncateIP (all_ones_address AF_INET6) (int n)) = int n"
proof -
  consider "n = 0" | "0 < n" "n \<le> 127" | "n = 128"
    using assms by linarith
  then show ?thesis
  proof cases
    case 1
    have "first_not_full (replicate 16 0) 0 = 0"
      by (rule first_not_full_at) (simp_all add: load32_def host_val_def replicate_4)
    then show ?thesis
      using 1 ones_family [of AF_INET6]
      by (simp add: TruncateIP_def CountIPMaskBits_def ip_of_v6_def in6addr_any_def ipv6_address_def
          count_bits_def load32_def host_val_def replicate_4 NetworkToHost32_def htobe32_def bswap32_def
          bswap_def le_bytes_numeral Let_def)
  next
    case 2
    define p where "p = n div 32"
    define r where "r = n mod 32"
    have n: "n = 32 * p + r" "r < 32" "p < 4"
      using 2 by (simp_all add: p_def r_def)
    define bs where "bs = ip_bytes (all_ones_address AF_INET6)"
    have bs: "load32 (drop (4 * i) bs) = 0xFFFFFFFF" if "i < 4" for i
      using load_ones_v6 [OF that] by (simp only: bs_def ones_v6)
    define t where "t = (\<lambda>i. store32 (truncate_word p (ucast (push_bit (32 - r) (0xFFFFFFFF :: 64 word))) i
      (load32 (drop (4 * i) bs))))"
    have T: "TruncateIP (all_ones_address AF_INET6) (int n) = ip_of_v6 (t 0 @ t 1 @ t 2 @ t 3)"
      unfolding t_def bs_def using 2 n ones_family [of AF_INET6] by (intro TruncateIP_v6) auto
    have nt: "ntoh32 0xFFFFFFFF = 0xFFFFFFFF"
      by (metis hton_simps(1) network_inverse(2))
    have l: "load32 (drop (4 * i) (t 0 @ t 1 @ t 2 @ t 3)) =
        (if i < p then 0xFFFFFFFF else if i = p then hton32 (push_bit (32 - r) 0xFFFFFFFF) else 0)" if "i < 4" for i
    proof -
      have "load32 (drop (4 * i) (t 0 @ t 1 @ t 2 @ t 3)) = load32 (t i)"
        using that by (rule load_drop_store) (simp add: t_def)
      then show ?thesis
        using that by (simp add: t_def load_store_self truncate_word_def inner_mask nt ones_and bs)
    qed
    have "\<not> bit (push_bit (32 - r) (0xFFFFFFFF :: 32 word)) 0" "bit (0xFFFFFFFF :: 32 word) 0"
      using n(2) by (simp_all add: bit_simps bit_0)
    then have "hton32 (push_bit (32 - r) 0xFFFFFFFF) \<noteq> 0xFFFFFFFF"
      by (metis network_inverse(2) nt)
    then have "first_not_full (t 0 @ t 1 @ t 2 @ t 3) 0 = p"
      using n(3) l by (intro first_not_full_at) auto
    then have "CountIPMaskBits (ip_of_v6 (t 0 @ t 1 @ t 2 @ t 3)) = count_bits (int p * 32) (push_bit (32 - r) 0xFFFFFFFF)"
      using n(3) l [OF n(3)] by (simp only: CountIPMaskBits_def ip_of_v6_def ipv6_address_def Let_def
          IPAddress.simps ip_family.simps if_True if_False less_irrefl network_inverse simp_thms)
    then show ?thesis
      unfolding T count_bits_ones [OF n(2)] using n(1) by simp
  next
    case 3
    have "first_not_full (replicate 16 0xFF) 0 = 4"
      using load_ones_v6 by (intro first_not_full_at) simp_all
    then show ?thesis
      using 3 ones_family [of AF_INET6]
      by (simp add: TruncateIP_def CountIPMaskBits_def ipv6_address_def ones_v6 count_bits_def Let_def)
  qed
qed

text \<open>The two operations on prefixes agree: for every prefix length of a family, the mask made by
  truncating the all-ones address to \<open>n\<close> bits counts as \<open>n\<close>.\<close>
theorem mask_of_n_bits_counts_n:
  "(\<forall>n \<le> 32. CountIPMaskBits (TruncateIP (all_ones_address AF_INET) (int n)) = int n) \<and>
   (\<forall>n \<le> 128. CountIPMaskBits (TruncateIP (all_ones_address AF_INET6) (int n)) = int n)"
  using mask_v4 mask_v6 by blast

theorem mask_of_n_bits_counts_n_witness:
  "CountIPMaskBits (TruncateIP (all_ones_address AF_INET) 0) = 0 \<and>
   CountIPMaskBits (TruncateIP (all_ones_address AF_INET6) 61) = 61"
proof -
  have "(0::nat) \<le> 32" "(61::nat) \<le> 128"
    by simp_all
  then have "CountIPMaskBits (TruncateIP (all_ones_address AF_INET) (int 0)) = int 0"
    "CountIPMaskBits (TruncateIP (all_ones_address AF_INET6) (int 61)) = int 61"
    using mask_of_n_bits_counts_n by blast+
  then show ?thesis
    by simp
qed

text \<open>A mask with a hole: the bits behind the first 0 are counted.\<close>

lemma CountIPMaskBits_hole: "CountIPMaskBits (ip_of_v4 [255, 0, 255, 0]) = 24"
  by (simp add: CountIPMaskBits_def ip_of_v4_def ipv4_address_def memcpy_def load32_def host_val_def
      count_bits_def NetworkToHost32_def htobe32_def bswap32_def bswap_def le_bytes_numeral count_zeroes_def)

text \<open>Addresses are totally ordered: for well-formed addresses \<open>operator<\<close> is irreflexive and
  transitive, of two addresses that are not equal exactly one is less, \<open>operator>\<close> is its converse, and
  equal addresses cannot be told apart by the order.\<close>
theorem ip_order_total:
  assumes "ip_wf a" "ip_wf b" "ip_wf c"
  shows "\<not> ip_less a a \<and> (ip_less a b \<and> ip_less b c \<longrightarrow> ip_less a c) \<and>
    (ip_eq a b \<longleftrightarrow> \<not> ip_less a b \<and> \<not> ip_less b a) \<and> \<not> (ip_less a b \<and> ip_less b a) \<and>
    (ip_greater a b \<longleftrightarrow> ip_less b a)"
  using assms by (auto simp: ip_less_key ip_eq_key ip_greater_def prod_eq_iff simp del: ip_key.simps)

theorem ip_order_total_witness:
  "ip_less (ip_of_v4 [10, 0, 0, 1]) (ip_of_v6 in6addr_any) \<and>
   ip_greater (ip_of_v6 in6addr_any) (ip_of_v4 [10, 0, 0, 1])"
proof -
  have "ip_wf (ip_of_v4 [10, 0, 0, 1])" "ip_wf (ip_of_v6 in6addr_any)"
    "ip_less (ip_of_v4 [10, 0, 0, 1]) (ip_of_v6 in6addr_any)"
    by (simp_all add: ip_wf_def ip_of_v4_def ip_of_v6_def in6addr_any_def memcpy_def ip_less_def)
  then show ?thesis
    using ip_order_total [of "ip_of_v6 in6addr_any" "ip_of_v4 [10, 0, 0, 1]" "ip_of_v6 in6addr_any"] by blast
qed

lemma replicate_15: "replicate 15 x = [x, x, x, x, x, x, x, x, x, x, x, x, x, x, x]"
  by (simp add: numeral_eq_Suc)

lemma mapped_addresses_normalize_aux:
  assumes "length bs = 4"
  shows "Normalized (AsIPv6Address (ip_of_v4 bs)) = ip_of_v4 bs \<and>
    IPIsV4Mapped (AsIPv6Address (ip_of_v4 bs)) \<and>
    IPAddressPrecedence (AsIPv6Address (ip_of_v4 bs)) = IPAddressPrecedence (ip_of_v4 bs) \<and>
    Normalized (Normalized ip) = Normalized ip"
proof -
  let ?m = "AsIPv6Address (ip_of_v4 bs)"
  have m: "?m = ip_of_v6 (take 12 kV4MappedPrefix @ bs)"
    using assms by (simp add: AsIPv6Address_def ip_of_v4_def ipv4_address_def memcpy_def)
  have p: "IPIsV4Mapped ?m"
    by (simp add: m IPIsV4Mapped_def IPIsHelper_def ip_of_v6_def ipv6_address_def kV4MappedPrefix_def)
  have "\<not> IPIsLoopback ?m" "\<not> IPIsULA ?m"
    using assms by (simp_all add: m IPIsLoopback_def IPIsLoopbackV6_def ip_eq_def ip_of_v6_def ipv6_address_def
        kV4MappedPrefix_def in6addr_loopback_def IPIsULA_def replicate_15)
  moreover have "family ?m = AF_INET6"
    unfolding m by (simp add: ip_of_v6_def)
  moreover have "family (ip_of_v4 bs) = AF_INET"
    by (simp add: ip_of_v4_def)
  ultimately have "IPAddressPrecedence ?m = IPAddressPrecedence (ip_of_v4 bs)"
    using p by (simp add: IPAddressPrecedence_def)
  moreover have "Normalized ?m = ip_of_v4 bs"
    using p assms \<open>family ?m = AF_INET6\<close>
    by (simp add: Normalized_def) (simp add: m ip_of_v6_def ExtractMappedAddress_def kV4MappedPrefix_def)
  moreover have "Normalized (Normalized ip) = Normalized ip"
    by (simp add: Normalized_def ip_of_v4_def)
  ultimately show ?thesis
    using p by blast
qed

text \<open>Mapping an IPv4 address into IPv6 and normalising gives the address back, the mapped address
  is recognised as such and has the precedence of an IPv4 address, and normalising is idempotent on every address.\<close>
theorem mapped_addresses_normalize:
  assumes "length bs = 4"
  shows "Normalized (AsIPv6Address (ip_of_v4 bs)) = ip_of_v4 bs \<and>
    IPIsV4Mapped (AsIPv6Address (ip_of_v4 bs)) \<and>
    IPAddressPrecedence (AsIPv6Address (ip_of_v4 bs)) = IPAddressPrecedence (ip_of_v4 bs) \<and>
    Normalized (Normalized ip) = Normalized ip"
  using assms by (rule mapped_addresses_normalize_aux)

theorem mapped_addresses_normalize_witness:
  "Normalized (AsIPv6Address (ip_of_v4 [127, 0, 0, 1])) = ip_of_v4 [127, 0, 0, 1]"
  using mapped_addresses_normalize [of "[127, 0, 0, 1]"] by simp

lemma div_eq_range: "0 < (n::int) \<Longrightarrow> x div n = c \<longleftrightarrow> c * n \<le> x \<and> x < (c + 1) * n"
proof
  assume "0 < n" "x div n = c"
  then show "c * n \<le> x \<and> x < (c + 1) * n"
    using div_bounds [of n x] by (simp add: distrib_right)
next
  assume n: "0 < n" "c * n \<le> x \<and> x < (c + 1) * n"
  have "x div n = (x - c * n) div n + c"
    using div_mult_self1 [of n "x - c * n" c] n(1) by simp
  also have "(x - c * n) div n = 0"
    using n by (intro div_pos_pos_trivial) (auto simp: distrib_right)
  finally show "x div n = c" by simp
qed

lemma uint_drop_bit: "uint (drop_bit k (w :: 32 word)) = uint w div 2 ^ k"
proof -
  have "take_bit 32 (uint w) = uint w"
    using uint_lt2p [of w] by (intro take_bit_int_eq_self) auto
  then show ?thesis
    using round_down_bounds [of "uint w" k] uint_lt2p [of w]
    by (simp only: unsigned_drop_bit_eq) (simp add: drop_bit_eq_div)
qed

lemma private_v4:
  assumes "ip_wf ip" "family ip = AF_INET"
  shows "IPIsPrivate ip \<longleftrightarrow> ip_value ip div 2 ^ 24 \<in> {10, 127} \<or> ip_value ip div 2 ^ 20 = 172 * 16 + 1
    \<or> ip_value ip div 2 ^ 16 \<in> {192 * 256 + 168, 169 * 256 + 254} \<or> ip_value ip div 2 ^ 22 = 100 * 4 + 1"
proof -
  have v: "ip_value ip = uint (v4AddressAsHostOrderInteger ip)"
    using assms by (simp add: ip_wf_def ip_value_def v4AddressAsHostOrderInteger_def ipv4_address_def uint_ntoh_load)
  show ?thesis
    unfolding v using assms(2)
    by (auto simp: IPIsPrivate_def IPIsLinkLocal_def IPIsLoopback_def IPIsPrivateNetwork_def IPIsSharedNetwork_def
        IPIsLinkLocalV4_def IPIsLoopbackV4_def IPIsPrivateNetworkV4_def IPIsSharedNetworkV4_def Let_def
        word_uint_eq_iff uint_drop_bit)
qed
text \<open>For version 4, \<open>IPIsPrivate\<close> holds exactly for the addresses of 10.0.0.0/8, 172.16.0.0/12,
  192.168.0.0/16, 127.0.0.0/8, 169.254.0.0/16 and 100.64.0.0/10, read as ranges of the address in
  host order.\<close>
theorem IPIsPrivate_v4_ranges:
  assumes "ip_wf ip" "family ip = AF_INET"
  shows "IPIsPrivate ip \<longleftrightarrow>
    0x0A000000 \<le> ip_value ip \<and> ip_value ip \<le> 0x0AFFFFFF \<or>
    0xAC100000 \<le> ip_value ip \<and> ip_value ip \<le> 0xAC1FFFFF \<or>
    0xC0A80000 \<le> ip_value ip \<and> ip_value ip \<le> 0xC0A8FFFF \<or>
    0x7F000000 \<le> ip_value ip \<and> ip_value ip \<le> 0x7FFFFFFF \<or>
    0xA9FE0000 \<le> ip_value ip \<and> ip_value ip \<le> 0xA9FEFFFF \<or>
    0x64400000 \<le> ip_value ip \<and> ip_value ip \<le> 0x647FFFFF"
  unfolding private_v4 [OF assms] by (simp add: div_eq_range) linarith

theorem IPIsPrivate_v4_ranges_witness:
  "IPIsPrivate (ip_of_v4 [172, 31, 255, 255]) \<and> \<not> IPIsPrivate (ip_of_v4 [172, 32, 0, 0])"
  using IPIsPrivate_v4_ranges [of "ip_of_v4 [172, 31, 255, 255]"] IPIsPrivate_v4_ranges [of "ip_of_v4 [172, 32, 0, 0]"]
  by (simp add: ip_wf_def ip_of_v4_def memcpy_def ip_value_def be_val_def)

section \<open>What the text functions promise\<close>

text \<open>The contract of \<open>inet_ntop\<close> and \<open>inet_pton\<close> that the textual functions of this library rely on.\<close>

locale address_text =
  fixes ntop :: inet_ntop
    and pton :: inet_pton
  assumes v4_text: "length bs = 4 \<Longrightarrow> \<exists>s. ntop AF_INET bs = Some s \<and> pton AF_INET s = Some bs \<and> s \<noteq> []
      \<and> set s \<inter> {CHR ''['', CHR '':'', CHR 0x00} = {} \<and> length s \<le> 45"
    and v6_text: "length bs = 16 \<Longrightarrow> \<exists>s. ntop AF_INET6 bs = Some s \<and> pton AF_INET6 s = Some bs \<and> pton AF_INET s = None
      \<and> set s \<inter> {CHR '']'', CHR 0x00} = {} \<and> length s \<le> 45"
begin

lemma ip_text_roundtrip:
  assumes "length b4 = 4" "length b6 = 16"
  shows "IPFromString pton (IP_ToString ntop (ip_of_v4 b4)) = (True, ip_of_v4 b4)"
    "IPFromString pton (IP_ToString ntop (ip_of_v6 b6)) = (True, ip_of_v6 b6)"
proof -
  have "ipv4_address (ip_of_v4 b4) = b4" "ipv6_address (ip_of_v6 b6) = b6"
    using assms by (simp_all add: ipv4_address_def ipv6_address_def ip_of_v4_def ip_of_v6_def memcpy_def)
  moreover have "family (ip_of_v4 b4) = AF_INET" "family (ip_of_v6 b6) = AF_INET6"
    by (simp_all add: ip_of_v4_def ip_of_v6_def)
  ultimately show "IPFromString pton (IP_ToString ntop (ip_of_v4 b4)) = (True, ip_of_v4 b4)"
    "IPFromString pton (IP_ToString ntop (ip_of_v6 b6)) = (True, ip_of_v6 b6)"
    using v4_text [OF assms(1)] v6_text [OF assms(2)] by (auto simp: IP_ToString_def IPFromString_def)
qed

end

end
