(* ===== verification/Inet_Text.thy ===== *)
theory Inet_Text
  imports IP_Address
begin

text \<open>
  The textual form of addresses in \<open>rtc_base/win32.cc\<close>: \<open>inet_ntop\<close> and \<open>inet_pton\<close> for both versions.
  An IPv6 address is read as its eight 16-bit groups.  The destination buffer is long enough (the
  caller, \<open>IPAddress::ToString\<close>, passes \<open>INET6_ADDRSTRLEN\<close> bytes) and C strings are lists of characters
  without the terminator.  What \<open>strtol\<close> and \<open>sscanf\<close> do with the formats of this file is written out:
  leading white space, sign and the prefix of hexadecimal numbers included.
\<close>

section \<open>inet_ntop\<close>

definition byte_string :: "8 word \<Rightarrow> string" where
  "byte_string b = nat_string (unat b)"

definition inet_ntop_v4 :: "bytes \<Rightarrow> string" where
  "inet_ntop_v4 bs = byte_string (bs ! 0) @ ''.'' @ byte_string (bs ! 1) @ ''.''
     @ byte_string (bs ! 2) @ ''.'' @ byte_string (bs ! 3)"

definition hextets :: "bytes \<Rightarrow> nat list" where
  "hextets bs = map (hextet bs) [0..<8]"

text \<open>The first loop: the position of each zero in its run, the length and the last index of the first
  longest run (\<open>-1\<close> when there is none).\<close>

record runs =
  runpos :: "int list"
  current :: int
  max_run :: int
  maxpos :: int

definition mark_run :: "runs \<Rightarrow> nat \<Rightarrow> runs" where
  "mark_run r h =
     (if h = 0
      then (let r = r\<lparr>runpos := runpos r @ [current r]\<rparr>;
                r = (if max_run r < current r
                     then r\<lparr>maxpos := int (length (runpos r)) - 1, max_run := current r\<rparr> else r)
            in r\<lparr>current := current r + 1\<rparr>)
      else r\<lparr>runpos := runpos r @ [-1], current := 1\<rparr>)"

definition mark_runs :: "nat list \<Rightarrow> runs" where
  "mark_runs hs = foldl mark_run \<lparr>runpos = [], current = 1, max_run = 0, maxpos = -1\<rparr> hs"

text \<open>The second loop, from the last index down to the first.\<close>

fun clear_runs :: "nat \<Rightarrow> int \<Rightarrow> int list \<Rightarrow> int list" where
  "clear_runs 0 tmpmax rp = rp"
| "clear_runs (Suc i) tmpmax rp =
     (if tmpmax < int i then clear_runs i tmpmax (rp[i := -1])
      else if rp ! i = -1 then clear_runs i (-1) rp
      else clear_runs i tmpmax rp)"

definition longest_run :: "nat list \<Rightarrow> runs" where
  "longest_run hs =
     (let r = mark_runs hs
      in if 0 < max_run r then r\<lparr>runpos := clear_runs 8 (maxpos r) (runpos r)\<rparr> else r)"

function print_groups :: "nat list \<Rightarrow> int list \<Rightarrow> nat \<Rightarrow> nat \<Rightarrow> string" where
  "print_groups hs rp mx i =
     (if 8 \<le> i then []
      else if rp ! i = -1
      then hex_string (hs ! i) @ (if i \<noteq> 7 \<and> rp ! (i + 1) \<noteq> 1 then '':'' else []) @ print_groups hs rp mx (i + 1)
      else if rp ! i = 1
      then ''::'' @ print_groups hs rp mx (i + (mx - 1) + 1)
      else print_groups hs rp mx (i + 1))"
  by pat_completeness auto
termination by (relation "measure (\<lambda>(_, _, _, i). 8 - i)") auto

declare print_groups.simps [simp del]

definition inet_ntop_v6 :: "bytes \<Rightarrow> string" where
  "inet_ntop_v6 bs =
     (let hs = hextets bs; r = longest_run hs
      in if runpos r ! 0 = 1 \<and> (maxpos r = 5 \<or> maxpos r = 4 \<and> hs ! 5 = 0xFFFF)
         then ''::'' @ (if maxpos r = 4 then ''ffff:'' else []) @ inet_ntop_v4 (drop 12 bs)
         else print_groups hs (runpos r) (nat (max_run r)) 0)"

definition win32_inet_ntop :: inet_ntop where
  "win32_inet_ntop af src =
     (case af of
        AF_INET \<Rightarrow> Some (inet_ntop_v4 src)
      | AF_INET6 \<Rightarrow> Some (inet_ntop_v6 src)
      | AF_UNSPEC \<Rightarrow> None)"

section \<open>inet_pton\<close>

text \<open>One number of a dotted address: \<open>strtol\<close> in base 10 at a digit.\<close>

function pton_v4_loop :: "string \<Rightarrow> bytes \<Rightarrow> bytes option" where
  "pton_v4_loop [] result = Some result"
| "pton_v4_loop (c # cs) result =
     (if \<not> is_digit c then None
      else let digits = takeWhile is_digit (c # cs); rest = dropWhile is_digit (c # cs);
               val = string_nat digits
           in if 255 < val then None
              else if 4 \<le> length result then None
              else case rest of
                     [] \<Rightarrow> Some (result @ [of_nat val])
                   | d # ds \<Rightarrow> if d = CHR ''.'' then pton_v4_loop ds (result @ [of_nat val]) else None)"
  by pat_completeness auto
termination
proof (relation "measure (\<lambda>(s, _). length s)")
  fix c cs and result :: bytes and digits rest val d ds
  assume "\<not> \<not> is_digit c" "rest = dropWhile is_digit (c # cs)" "rest = d # ds"
  then have "d # ds = dropWhile is_digit cs"
    by simp
  then have "length (d # ds) \<le> length cs"
    using length_dropWhile_le [of is_digit cs] by metis
  then show "((ds, result @ [of_nat val]), c # cs, result) \<in> measure (\<lambda>(s, _). length s)"
    by simp
qed simp

declare pton_v4_loop.simps [simp del]

definition inet_pton_v4 :: "string \<Rightarrow> bytes option" where
  "inet_pton_v4 src =
     (case pton_v4_loop src [] of
        None \<Rightarrow> None
      | Some result \<Rightarrow> if length result = 4 then Some result else None)"

definition is_space :: "char \<Rightarrow> bool" where
  "is_space c \<longleftrightarrow> (of_char c :: nat) \<in> {9, 10, 11, 12, 13, 32}"

definition hex_val :: "char \<Rightarrow> nat option" where
  "hex_val c = (let n = of_char c in
     if 48 \<le> n \<and> n \<le> 57 then Some (n - 48)
     else if 97 \<le> n \<and> n \<le> 102 then Some (n - 87)
     else if 65 \<le> n \<and> n \<le> 70 then Some (n - 55)
     else None)"

definition is_xdigit :: "char \<Rightarrow> bool" where
  "is_xdigit c \<longleftrightarrow> hex_val c \<noteq> None"

definition hex_nat :: "string \<Rightarrow> nat" where
  "hex_nat s = foldl (\<lambda>a c. 16 * a + the (hex_val c)) 0 s"

fun scan_sign :: "string \<Rightarrow> bool \<times> string \<times> string" where
  "scan_sign [] = (False, [], [])"
| "scan_sign (c # cs) =
     (if c = CHR ''-'' then (True, [c], cs) else if c = CHR ''+'' then (False, [c], cs) else (False, [], c # cs))"

fun scan_prefix :: "string \<Rightarrow> string \<times> string" where
  "scan_prefix (c # d # cs) =
     (if c = CHR ''0'' \<and> (d = CHR ''x'' \<or> d = CHR ''X'') then ([c, d], cs) else ([], c # d # cs))"
| "scan_prefix s = ([], s)"

text \<open>\<open>sscanf\<close> with \<open>%<w>hx%n\<close>: the number, the count of characters read and the rest of the string.
  The field, of at most \<open>w\<close> characters behind the white space, has an optional sign, an optional prefix
  and at least one digit; the number is reduced to 16 bits.\<close>

definition scan_hx :: "nat \<Rightarrow> string \<Rightarrow> (nat \<times> nat \<times> string) option" where
  "scan_hx w s =
     (let spaces = takeWhile is_space s;
          field = take w (dropWhile is_space s);
          (neg, sign, t) = scan_sign field;
          (prefix, u) = scan_prefix t;
          digits = takeWhile is_xdigit u;
          bytesread = length spaces + length sign + length prefix + length digits;
          val = hex_nat digits mod 2 ^ 16
      in if digits = [] then None
         else Some (if neg then (2 ^ 16 - val) mod 2 ^ 16 else val, bytesread, drop bytesread s))"

fun has_char :: "char \<Rightarrow> string \<Rightarrow> bool" where
  "has_char c s = (c \<in> set s)"

definition after_char :: "char \<Rightarrow> string \<Rightarrow> string" where
  "after_char c s = tl (dropWhile (\<lambda>x. x \<noteq> c) s)"

definition bytes_of_hextets :: "nat list \<Rightarrow> bytes" where
  "bytes_of_hextets hs = concat (map (\<lambda>h. [of_nat (h div 256), of_nat (h mod 256)]) hs)"

text \<open>The dotted form: \<open>addrstart\<close> is the text behind the two colons.\<close>

definition pton_v6_dotted :: "string \<Rightarrow> bytes option" where
  "pton_v6_dotted addrstart =
     (if has_char (CHR '':'') addrstart
      then (case scan_hx (length addrstart) addrstart of
              None \<Rightarrow> None
            | Some (a_short, bytesread, _) \<Rightarrow>
                if a_short \<noteq> 0xFFFF \<or> bytesread \<noteq> 4 then None
                else map_option (\<lambda>v4. replicate 10 0 @ [0xFF, 0xFF] @ v4)
                       (inet_pton_v4 (after_char (CHR '':'') addrstart)))
      else map_option (\<lambda>v4. replicate 12 0 @ v4) (inet_pton_v4 addrstart))"

lemma scan_hx_shorter: "scan_hx w s = Some (v, n, rest) \<Longrightarrow> s \<noteq> [] \<and> length rest < length s"
proof -
  assume a: "scan_hx w s = Some (v, n, rest)"
  have "s \<noteq> []"
    using a by (cases s) (auto simp: scan_hx_def)
  moreover have "0 < n" "rest = drop n s"
    using a by (auto simp: scan_hx_def Let_def split: prod.splits if_splits)
  ultimately show ?thesis
    by simp
qed

text \<open>The loop over the groups: the text, the group the cursor is at, the groups written, whether a
  compressed run has been seen.  The result is the text left, the cursor and the groups.\<close>

function pton_v6_loop :: "string \<Rightarrow> nat \<Rightarrow> nat list \<Rightarrow> bool \<Rightarrow> (string \<times> nat \<times> nat list) option" where
  "pton_v6_loop s pos groups seencompressed =
     (if s = [] \<or> 8 \<le> pos then Some (s, pos, groups)
      else if hd s = CHR '':''
      then (if 2 \<le> length s \<and> s ! 1 = CHR '':''
            then (if seencompressed then None
                  else let readcursor = drop 2 s
                       in if readcursor = [] then Some (readcursor, 8, groups)
                          else let coloncount = length (filter (\<lambda>c. c = CHR '':'') readcursor)
                               in if 8 - pos < coloncount + 1 then None
                                  else pton_v6_loop readcursor (8 - (coloncount + 1)) groups True)
            else pton_v6_loop (tl s) pos groups seencompressed)
      else case scan_hx 4 s of
             None \<Rightarrow> None
           | Some (word, _, rest) \<Rightarrow>
               if rest \<noteq> [] \<and> hd rest \<noteq> CHR '':'' then None
               else pton_v6_loop rest (pos + 1) (groups[pos := word]) seencompressed)"
  by pat_completeness auto
termination
  by (relation "measure (\<lambda>(s, _). length s)") (auto dest: scan_hx_shorter)

declare pton_v6_loop.simps [simp del]

definition inet_pton_v6 :: "string \<Rightarrow> bytes option" where
  "inet_pton_v6 src =
     (if has_char (CHR ''x'') src then None
      else if 3 \<le> length src \<and> src ! 0 = CHR '':'' \<and> src ! 1 = CHR '':'' \<and> has_char (CHR ''.'') (drop 2 src)
      then pton_v6_dotted (drop 2 src)
      else case pton_v6_loop src 0 (replicate 8 0) False of
             None \<Rightarrow> None
           | Some (readcursor, addr_cursor, groups) \<Rightarrow>
               if readcursor \<noteq> [] \<or> addr_cursor < 8 then None else Some (bytes_of_hextets groups))"

definition win32_inet_pton :: inet_pton where
  "win32_inet_pton af src =
     (case af of
        AF_INET \<Rightarrow> inet_pton_v4 src
      | AF_INET6 \<Rightarrow> inet_pton_v6 src
      | AF_UNSPEC \<Rightarrow> None)"

section \<open>Version 4\<close>

lemma string_nat_digits: "takeWhile is_digit (nat_string n @ rest) = nat_string n @ takeWhile is_digit rest"
  "dropWhile is_digit (nat_string n @ rest) = dropWhile is_digit rest"
  by (simp_all add: takeWhile_append dropWhile_append nat_string_digits)

lemma nat_string_Cons: obtains c cs where "nat_string n = c # cs" "is_digit c"
  using nat_string_digits [of _ n] by (cases "nat_string n") auto

lemma not_digit_dot [simp]: "\<not> is_digit (CHR ''.'')" "\<not> is_digit (CHR '':'')"
  by (simp_all add: is_digit_def)

lemma pton_v4_loop_group:
  assumes "length result < 4"
  shows "pton_v4_loop (byte_string b @ ''.'' @ s) result = pton_v4_loop s (result @ [b])"
    "pton_v4_loop (byte_string b) result = Some (result @ [b])"
proof -
  obtain c cs where c: "nat_string (unat b) = c # cs" "is_digit c"
    by (rule nat_string_Cons)
  have "unat b < 2 ^ LENGTH(8)"
    by (rule unsigned_less)
  then have b: "\<not> 255 < unat b"
    by simp
  have t: "takeWhile is_digit (c # cs @ r) = nat_string (unat b) @ takeWhile is_digit r"
    "dropWhile is_digit (c # cs @ r) = dropWhile is_digit r" for r
    using string_nat_digits [of "unat b" r] c by simp_all
  show "pton_v4_loop (byte_string b @ ''.'' @ s) result = pton_v4_loop s (result @ [b])"
    using assms c(2) b t [of "''.'' @ s"]
    by (simp add: byte_string_def c(1) pton_v4_loop.simps Let_def del: takeWhile.simps dropWhile.simps)
      (simp add: c(1) [symmetric])
  show "pton_v4_loop (byte_string b) result = Some (result @ [b])"
    using assms c(2) b t [of "[]"]
    by (simp add: byte_string_def c(1) pton_v4_loop.simps Let_def del: takeWhile.simps dropWhile.simps)
      (simp add: c(1) [symmetric])
qed

lemma inet_v4_roundtrip:
  assumes "length bs = 4"
  shows "inet_pton_v4 (inet_ntop_v4 bs) = Some bs"
proof -
  obtain a b c d where bs: "bs = [a, b, c, d]"
    using assms by (auto simp: numeral_eq_Suc length_Suc_conv)
  show ?thesis
    by (simp add: inet_pton_v4_def inet_ntop_v4_def bs pton_v4_loop_group del: append.simps)
qed

section \<open>Hexadecimal groups\<close>

fun join_groups :: "nat list \<Rightarrow> string" where
  "join_groups [] = []"
| "join_groups [h] = hex_string h"
| "join_groups (h # hs) = hex_string h @ '':'' @ join_groups hs"

lemma hex_val_digit: "d < 16 \<Longrightarrow> hex_val (hex_digit d) = Some d"
  by (auto simp: hex_val_def hex_digit_def Let_def)

lemma hex_string_xdigits: "c \<in> set (hex_string n) \<Longrightarrow> is_xdigit c"
proof (induction n rule: hex_string.induct)
  case (1 n)
  then show ?case
    by (subst (asm) (2) hex_string.simps) (auto simp: is_xdigit_def hex_val_digit split: if_splits)
qed

lemma hex_nat_hex_string: "hex_nat (hex_string n) = n"
proof (induction n rule: hex_string.induct)
  case (1 n)
  then show ?case
    by (subst hex_string.simps) (auto simp: hex_nat_def hex_val_digit)
qed

lemma hex_string_length: "n < 16 ^ k \<Longrightarrow> 0 < k \<Longrightarrow> 0 < length (hex_string n) \<and> length (hex_string n) \<le> k"
proof (induction k arbitrary: n)
  case (Suc k)
  show ?case
  proof (cases "n < 16")
    case True
    then show ?thesis
      by (subst (1 2) hex_string.simps) simp
  next
    case False
    then have "0 < k"
      using Suc.prems(1) by (cases k) auto
    moreover have "n div 16 < 16 ^ k"
      using Suc.prems(1) by (simp add: div_less_iff_less_mult mult.commute)
    ultimately have "length (hex_string (n div 16)) \<le> k"
      using Suc.IH by blast
    then show ?thesis
      using False by (subst (1 2) hex_string.simps) simp
  qed
qed simp

lemma xdigit_not [simp]:
  "\<not> is_xdigit (CHR '':'')" "\<not> is_xdigit (CHR ''.'')" "\<not> is_xdigit (CHR ''-'')" "\<not> is_xdigit (CHR ''+'')"
  "\<not> is_xdigit (CHR ''x'')" "\<not> is_xdigit (CHR ''X'')"
  by (simp_all add: is_xdigit_def hex_val_def)

lemma xdigit_not_space: "is_xdigit c \<Longrightarrow> \<not> is_space c"
  by (auto simp: is_xdigit_def hex_val_def is_space_def Let_def split: if_splits)

text \<open>Reading back one printed group: the field ends with the group.\<close>

lemma scan_hx_group:
  assumes "h < 2 ^ 16" "rest = [] \<or> hd rest = CHR '':''" "length (hex_string h) \<le> w"
  shows "scan_hx w (hex_string h @ rest) = Some (h, length (hex_string h), rest)"
proof -
  let ?g = "hex_string h"
  obtain c cs where c: "?g = c # cs"
    using hex_string_length [of h 4] assms(1) by (cases ?g) auto
  have xd: "\<forall>x \<in> set ?g. is_xdigit x"
    using hex_string_xdigits by blast
  have sp: "takeWhile is_space (?g @ rest) = []" "dropWhile is_space (?g @ rest) = ?g @ rest"
    using xd by (simp_all add: c xdigit_not_space)
  define field where "field = take w (?g @ rest)"
  have field: "field = ?g @ take (w - length ?g) rest"
    using assms(3) by (simp add: field_def)
  have cx: "is_xdigit c"
    using xd c by simp
  have sign: "scan_sign field = (False, [], field)"
    using cx xdigit_not by (auto simp: field c)
  have pre: "scan_prefix field = ([], field)"
  proof -
    have "d \<noteq> CHR ''x'' \<and> d \<noteq> CHR ''X''" if "field = c # d # ds" for d ds
    proof (cases cs)
      case Nil
      then show ?thesis
        using that assms(2) by (cases rest) (auto simp: field c take_Cons split: nat.splits)
    next
      case (Cons x xs)
      then show ?thesis
        using that xd xdigit_not by (auto simp: field c)
    qed
    then show ?thesis
      by (cases field rule: scan_prefix.cases) (auto simp: field c)
  qed
  have "takeWhile is_xdigit (take (w - length ?g) rest) = []"
    using assms(2) by (cases rest; cases "w - length ?g") auto
  then have dig: "takeWhile is_xdigit field = ?g"
    using xd by (simp add: field takeWhile_append)
  have "hex_nat ?g mod 2 ^ 16 = h"
    using assms(1) by (simp add: hex_nat_hex_string)
  then show ?thesis
    unfolding scan_hx_def sp field_def [symmetric] Let_def sign pre prod.case dig
    by (simp add: c)
qed

section \<open>Printing as joined groups\<close>

lemma join_groups_Cons: "join_groups (h # hs) = hex_string h @ (if hs = [] then [] else '':'' @ join_groups hs)"
  by (cases hs) simp_all

text \<open>The marks of a run of \<open>m\<close> zeroes at \<open>s\<close>.\<close>

definition run_marks :: "nat \<Rightarrow> nat \<Rightarrow> int list" where
  "run_marks s m = replicate s (-1) @ map int [1..<m + 1] @ replicate (8 - s - m) (-1)"

definition run_ok :: "nat list \<Rightarrow> runs \<Rightarrow> bool" where
  "run_ok zs r \<longleftrightarrow>
    (if max_run r = 0 then runpos r = replicate 8 (-1) \<and> maxpos r = -1
     else let m = nat (max_run r); s = nat (maxpos r + 1 - max_run r)
          in 0 < max_run r \<and> 0 \<le> maxpos r + 1 - max_run r \<and> s + m \<le> 8 \<and>
             take m (drop s zs) = replicate m 0 \<and> runpos r = run_marks s m)"

lemma run_marks_nth:
  assumes "s + m \<le> 8"
  shows "i < s \<Longrightarrow> run_marks s m ! i = -1"
    "s \<le> i \<Longrightarrow> i < s + m \<Longrightarrow> run_marks s m ! i = int (i - s + 1)"
    "s + m \<le> i \<Longrightarrow> i < 8 \<Longrightarrow> run_marks s m ! i = -1"
  using assms by (auto simp: run_marks_def nth_append)

lemma print_groups_tail:
  assumes "length hs = 8" "\<And>i. k \<le> i \<Longrightarrow> i < 8 \<Longrightarrow> rp ! i = -1" "k \<le> 8"
  shows "print_groups hs rp m k = join_groups (drop k hs)"
  using assms(2,3)
proof (induction "8 - k" arbitrary: k)
  case 0
  then show ?case
    using assms(1) by (simp add: print_groups.simps)
next
  case (Suc n)
  then have k: "k < 8" "n = 8 - Suc k"
    by simp_all
  have "drop k hs = hs ! k # drop (Suc k) hs"
    using k assms(1) by (simp add: Cons_nth_drop_Suc)
  moreover have "k \<noteq> 7 \<Longrightarrow> rp ! (k + 1) \<noteq> 1"
    using Suc.prems(1) [of "k + 1"] k by simp
  ultimately show ?case
    using Suc.hyps(1) [OF k(2)] Suc.prems k assms(1)
    by (subst print_groups.simps) (auto simp: join_groups_Cons)
qed

lemma print_groups_run:
  assumes "length hs = 8" "s + m \<le> 8" "0 < m" "k \<le> s"
  shows "print_groups hs (run_marks s m) m k =
    join_groups (take (s - k) (drop k hs)) @ ''::'' @ join_groups (drop (s + m) hs)"
  using assms(4)
proof (induction "s - k" arbitrary: k)
  case 0
  then have "k = s"
    by simp
  then show ?case
    using assms run_marks_nth(2) [OF assms(2), of s] print_groups_tail [OF assms(1), of "s + m" "run_marks s m" m]
      run_marks_nth(3) [OF assms(2)]
    by (subst print_groups.simps) simp
next
  case (Suc n)
  then have k: "k < s" "n = s - Suc k"
    by simp_all
  have "drop k hs = hs ! k # drop (Suc k) hs" "s - k = Suc (s - Suc k)"
    using k assms(1,2) by (simp_all add: Cons_nth_drop_Suc)
  moreover have "run_marks s m ! k = -1"
    using k run_marks_nth(1) [OF assms(2)] by simp
  moreover have "run_marks s m ! (k + 1) = 1 \<longleftrightarrow> Suc k = s"
    using k assms(3) run_marks_nth(1) [OF assms(2), of "k + 1"] run_marks_nth(2) [OF assms(2), of "k + 1"]
    by (cases "Suc k < s") auto
  moreover have "take (s - Suc k) (drop (Suc k) hs) = [] \<longleftrightarrow> Suc k = s"
    using k assms(1,2) by auto
  ultimately show ?case
    using Suc.hyps(1) [OF k(2)] k assms(1,2)
    by (subst print_groups.simps) (auto simp: join_groups_Cons)
qed

text \<open>The runs depend only on which groups are zero, which leaves 256 cases.\<close>

definition zeroness :: "nat list \<Rightarrow> nat list" where
  "zeroness hs = map (\<lambda>h. if h = 0 then 0 else 1) hs"

lemma mark_runs_zeroness: "mark_runs (zeroness hs) = mark_runs hs"
proof -
  have "foldl mark_run r (map (\<lambda>h. if h = 0 then 0 else 1) hs) = foldl mark_run r hs" for r
    by (induction hs arbitrary: r) (auto simp: mark_run_def Let_def)
  then show ?thesis
    by (simp add: mark_runs_def zeroness_def)
qed

lemma all_runs_ok: "list_all (\<lambda>zs. run_ok zs (longest_run zs)) (List.n_lists 8 [0, 1])"
  by code_simp

lemma longest_run_ok:
  assumes "length hs = 8"
  shows "run_ok hs (longest_run hs)"
proof -
  have l: "longest_run hs = longest_run (zeroness hs)"
    by (simp add: longest_run_def mark_runs_zeroness)
  have "zeroness hs \<in> set (List.n_lists 8 [0, 1])"
    using assms by (auto simp: set_n_lists zeroness_def)
  then have "run_ok (zeroness hs) (longest_run hs)"
    using all_runs_ok by (simp add: list_all_iff l)
  moreover have "take m (drop s (zeroness hs)) = replicate m 0 \<Longrightarrow> take m (drop s hs) = replicate m 0" for m s
  proof -
    assume "take m (drop s (zeroness hs)) = replicate m 0"
    then have z: "map (\<lambda>h. if h = 0 then 0 else (1::nat)) (take m (drop s hs)) = replicate m 0"
      by (simp add: zeroness_def take_map drop_map)
    then have "length (take m (drop s hs)) = m"
      by (metis length_map length_replicate)
    moreover have "\<forall>x \<in> set (map (\<lambda>h. if h = 0 then 0 else (1::nat)) (take m (drop s hs))). x = 0"
      by (simp only: z) auto
    then have "\<forall>h \<in> set (take m (drop s hs)). h = 0"
      by (auto split: if_splits)
    ultimately show "take m (drop s hs) = replicate m 0"
      by (intro replicate_eqI) auto
  qed
  ultimately show ?thesis
    by (auto simp: run_ok_def Let_def split: if_splits)
qed

text \<open>A list of eight groups without its run.\<close>

lemma run_ok_cases:
  assumes "length hs = 8" "run_ok hs r"
  obtains "max_run r = 0" "runpos r = replicate 8 (-1)" "maxpos r = -1"
  | s m where "max_run r = int m" "maxpos r = int (s + m) - 1" "0 < m" "s + m \<le> 8" "runpos r = run_marks s m"
      "hs = take s hs @ replicate m 0 @ drop (s + m) hs"
proof (cases "max_run r = 0")
  case False
  define m where "m = nat (max_run r)"
  define s where "s = nat (maxpos r + 1 - max_run r)"
  have "take m (drop s hs) = replicate m 0" "max_run r = int m" "maxpos r = int (s + m) - 1" "0 < m" "s + m \<le> 8"
    "runpos r = run_marks s m"
    using assms(2) False by (auto simp: run_ok_def Let_def m_def s_def)
  moreover from this have "hs = take s hs @ replicate m 0 @ drop (s + m) hs"
    by (metis append_take_drop_id drop_drop add.commute)
  ultimately show ?thesis
    using that(2) by blast
qed (use that(1) assms(2) in \<open>auto simp: run_ok_def\<close>)

section \<open>Reading joined groups\<close>

definition write_groups :: "nat \<Rightarrow> nat list \<Rightarrow> nat list \<Rightarrow> nat list" where
  "write_groups pos gs groups = take pos groups @ gs @ drop (pos + length gs) groups"

lemma write_groups_Nil: "write_groups pos [] groups = groups"
  by (simp add: write_groups_def)

lemma write_groups_Cons:
  "pos < length groups \<Longrightarrow> write_groups (Suc pos) gs (groups[pos := g]) = write_groups pos (g # gs) groups"
  by (simp add: write_groups_def take_Suc_conv_app_nth drop_update_cancel)

lemma hex_string_hd: "h < 2 ^ 16 \<Longrightarrow> hex_string h \<noteq> [] \<and> hd (hex_string h @ s) \<noteq> CHR '':''"
  using hex_string_length [of h 4] hex_string_xdigits [of "hd (hex_string h)" h]
  by (cases "hex_string h") auto

lemma pton_v6_loop_group:
  assumes "h < 2 ^ 16" "rest = [] \<or> hd rest = CHR '':''" "pos < 8"
  shows "pton_v6_loop (hex_string h @ rest) pos groups seen = pton_v6_loop rest (pos + 1) (groups[pos := h]) seen"
proof -
  have "length (hex_string h) \<le> 4"
    using hex_string_length [of h 4] assms(1) by simp
  then have "scan_hx 4 (hex_string h @ rest) = Some (h, length (hex_string h), rest)"
    using assms by (intro scan_hx_group)
  then show ?thesis
    using hex_string_hd [OF assms(1), of rest] assms(2,3)
    by (subst pton_v6_loop.simps) auto
qed

lemma join_groups_hd:
  assumes "gs \<noteq> []" "\<forall>g \<in> set gs. g < 2 ^ 16"
  shows "join_groups gs \<noteq> []" "hd (join_groups gs @ s) \<noteq> CHR '':''" "hd (join_groups gs) \<noteq> CHR '':''"
  using assms hex_string_hd by (cases gs; auto simp: join_groups_Cons)+

lemma pton_v6_loop_colon:
  assumes "gs \<noteq> []" "\<forall>g \<in> set gs. g < 2 ^ 16" "pos < 8"
  shows "pton_v6_loop ('':'' @ join_groups gs @ s) pos groups seen = pton_v6_loop (join_groups gs @ s) pos groups seen"
proof -
  have "join_groups gs @ s \<noteq> []" "(join_groups gs @ s) ! 0 \<noteq> CHR '':''"
    using join_groups_hd [OF assms(1,2)] by (simp_all add: hd_conv_nth [symmetric])
  then show ?thesis
    using assms(3) by (subst pton_v6_loop.simps) (auto simp: nth_Cons')
qed

lemma pton_v6_loop_end:
  "pton_v6_loop [] pos groups seen = Some ([], pos, groups)"
  "8 \<le> pos \<Longrightarrow> pton_v6_loop s pos groups seen = Some (s, pos, groups)"
  by (subst pton_v6_loop.simps; simp)+

lemma pton_v6_loop_join:
  assumes "\<forall>g \<in> set gs. g < 2 ^ 16" "gs \<noteq> []" "tail = [] \<or> hd tail = CHR '':''"
    "pos + length gs \<le> 8" "length groups = 8"
  shows "pton_v6_loop (join_groups gs @ tail) pos groups seen =
    pton_v6_loop tail (pos + length gs) (write_groups pos gs groups) seen"
  using assms
proof (induction gs arbitrary: pos groups)
  case (Cons g gs)
  show ?case
  proof (cases "gs = []")
    case True
    then show ?thesis
      using Cons.prems write_groups_Cons [of pos groups "[]" g]
      by (simp add: join_groups_Cons pton_v6_loop_group write_groups_Nil)
  next
    case False
    have "pton_v6_loop (join_groups (g # gs) @ tail) pos groups seen =
        pton_v6_loop ('':'' @ join_groups gs @ tail) (pos + 1) (groups[pos := g]) seen"
      using Cons.prems False by (simp add: join_groups_Cons pton_v6_loop_group)
    also have "\<dots> = pton_v6_loop (join_groups gs @ tail) (pos + 1) (groups[pos := g]) seen"
      using Cons.prems False by (intro pton_v6_loop_colon; cases gs) auto
    also have "\<dots> = pton_v6_loop tail (pos + 1 + length gs) (write_groups (pos + 1) gs (groups[pos := g])) seen"
      using Cons.prems False by (intro Cons.IH) auto
    finally show ?thesis
      using Cons.prems write_groups_Cons [of pos groups gs g] by simp
  qed
qed simp

lemma hex_string_no_colon: "CHR '':'' \<notin> set (hex_string h)" "CHR ''.'' \<notin> set (hex_string h)" "CHR ''x'' \<notin> set (hex_string h)"
  using hex_string_xdigits xdigit_not by blast+

lemma join_groups_colons: "length (filter (\<lambda>c. c = CHR '':'') (join_groups gs)) = length gs - 1"
proof (induction gs)
  case (Cons g gs)
  have "filter (\<lambda>c. c = CHR '':'') (hex_string g) = []"
    using hex_string_no_colon(1) by (auto simp: filter_empty_conv)
  then show ?case
    using Cons by (cases gs) (simp_all add: join_groups_Cons)
qed simp

lemma join_groups_chars: "CHR ''.'' \<notin> set (join_groups gs)" "CHR ''x'' \<notin> set (join_groups gs)"
  using hex_string_no_colon by (induction gs) (auto simp: join_groups_Cons)

lemma pton_v6_loop_compressed:
  assumes "\<forall>g \<in> set post. g < 2 ^ 16" "pos + length post \<le> 8" "pos < 8" "length groups = 8"
  shows "pton_v6_loop (''::'' @ join_groups post) pos groups False =
    Some ([], 8, write_groups (8 - length post) post groups)"
proof (cases "post = []")
  case True
  then show ?thesis
    using assms by (subst pton_v6_loop.simps) (simp add: write_groups_def)
next
  case False
  have c: "length (filter (\<lambda>c. c = CHR '':'') (join_groups post)) + 1 = length post"
    using False join_groups_colons [of post] by (cases post) auto
  have "pton_v6_loop (''::'' @ join_groups post) pos groups False =
      pton_v6_loop (join_groups post) (8 - length post) groups True"
    using assms False join_groups_hd(1) [OF False assms(1)] c
    by (subst pton_v6_loop.simps) (auto simp: Let_def)
  also have "\<dots> = Some ([], 8, write_groups (8 - length post) post groups)"
    using pton_v6_loop_join [OF assms(1) False, of "[]" "8 - length post" groups True] assms False
    by (simp add: pton_v6_loop_end)
  finally show ?thesis .
qed

section \<open>Version 6\<close>

lemma hextets_bound: "h \<in> set (hextets bs) \<Longrightarrow> h < 2 ^ 16"
proof -
  have "unat (b :: 8 word) < 2 ^ LENGTH(8)" for b
    by (rule unsigned_less)
  then have b: "unat (b :: 8 word) \<le> 255" for b
    by (simp add: less_Suc_eq_le [symmetric])
  assume "h \<in> set (hextets bs)"
  then obtain i where "h = hextet bs i"
    by (auto simp: hextets_def)
  then show ?thesis
    using b [of "bs ! (2 * i)"] b [of "bs ! (2 * i + 1)"] by (simp add: hextet_def)
qed

lemma length_hextets [simp]: "length (hextets bs) = 8"
  by (simp add: hextets_def)

lemma list_16: "length bs = 16 \<Longrightarrow> bs = map ((!) bs) [0..<16]"
  by (metis map_nth)

lemma hextet_bytes: "[of_nat (hextet bs i div 256), of_nat (hextet bs i mod 256)] = [bs ! (2 * i), bs ! (2 * i + 1)]"
proof -
  have "unat (b :: 8 word) < 2 ^ LENGTH(8)" for b
    by (rule unsigned_less)
  then have "unat (bs ! (2 * i + 1)) < 256"
    by simp
  then have "hextet bs i div 256 = unat (bs ! (2 * i))" "hextet bs i mod 256 = unat (bs ! (2 * i + 1))"
    by (simp_all add: hextet_def)
  then show ?thesis
    by simp
qed

lemma concat_pairs: "concat (map (\<lambda>i. [f (2 * i), f (2 * i + 1)]) [0..<n]) = map f [0..<2 * n]"
  by (induction n) simp_all

lemma bytes_of_hextets_hextets:
  assumes "length bs = 16"
  shows "bytes_of_hextets (hextets bs) = bs"
proof -
  have "bytes_of_hextets (hextets bs) = concat (map (\<lambda>i. [bs ! (2 * i), bs ! (2 * i + 1)]) [0..<8])"
    by (simp only: bytes_of_hextets_def hextets_def map_map o_def hextet_bytes)
  also have "\<dots> = map ((!) bs) [0..<16]"
    using concat_pairs [of "(!) bs" 8] by simp
  also have "\<dots> = bs"
    using list_16 [OF assms] by simp
  finally show ?thesis .
qed

lemma dotted_chars: "CHR '':'' \<notin> set (inet_ntop_v4 bs)" "CHR ''x'' \<notin> set (inet_ntop_v4 bs)" "CHR ''.'' \<in> set (inet_ntop_v4 bs)"
proof -
  have "\<not> is_digit (CHR ''x'')"
    by (simp add: is_digit_def)
  then have "CHR '':'' \<notin> set (nat_string n)" "CHR ''x'' \<notin> set (nat_string n)" for n
    using nat_string_digits not_digit_dot by blast+
  then show "CHR '':'' \<notin> set (inet_ntop_v4 bs)" "CHR ''x'' \<notin> set (inet_ntop_v4 bs)" "CHR ''.'' \<in> set (inet_ntop_v4 bs)"
    by (simp_all add: inet_ntop_v4_def byte_string_def)
qed

lemma pton_v6_to_dotted:
  assumes "CHR ''x'' \<notin> set s" "CHR ''.'' \<in> set s"
  shows "inet_pton_v6 (CHR '':'' # CHR '':'' # s) = pton_v6_dotted s"
proof -
  have "1 \<le> length s"
    using assms(2) by (cases s) auto
  then show ?thesis
    using assms by (simp add: inet_pton_v6_def)
qed

lemma hex_digit_15: "hex_digit 15 = CHR ''f''"
  by code_simp

lemma hex_ffff: "hex_string 65535 = ''ffff''"
  by (simp add: hex_string.simps hex_digit_15)

lemma dotted_v6:
  assumes "length v4 = 4"
  shows "inet_pton_v6 (''::'' @ inet_ntop_v4 v4) = Some (replicate 12 0 @ v4)"
    "inet_pton_v6 (''::ffff:'' @ inet_ntop_v4 v4) = Some (replicate 10 0 @ [0xFF, 0xFF] @ v4)"
proof -
  define t where "t = inet_ntop_v4 v4"
  have t: "CHR '':'' \<notin> set t" "CHR ''x'' \<notin> set t" "CHR ''.'' \<in> set t" "inet_pton_v4 t = Some v4"
    unfolding t_def by (rule dotted_chars inet_v4_roundtrip assms)+
  have "inet_pton_v6 (CHR '':'' # CHR '':'' # t) = pton_v6_dotted t"
    using t by (intro pton_v6_to_dotted)
  then show "inet_pton_v6 (''::'' @ inet_ntop_v4 v4) = Some (replicate 12 0 @ v4)"
    using t by (simp only: pton_v6_dotted_def has_char.simps if_False option.map append.simps flip: t_def)
  have "scan_hx (length (''ffff:'' @ t)) (''ffff:'' @ t) = Some (65535, 4, '':'' @ t)"
    using scan_hx_group [of 65535 "'':'' @ t" "length (''ffff:'' @ t)"] by (simp add: hex_ffff)
  moreover have "after_char (CHR '':'') (''ffff:'' @ t) = t"
    by (simp add: after_char_def)
  moreover have "has_char (CHR '':'') (''ffff:'' @ t)"
    by simp
  ultimately have "pton_v6_dotted (''ffff:'' @ t) = Some (replicate 10 0 @ [0xFF, 0xFF] @ v4)"
    using t(4) by (simp add: pton_v6_dotted_def del: has_char.simps append.simps)
  moreover have "inet_pton_v6 (CHR '':'' # CHR '':'' # ''ffff:'' @ t) = pton_v6_dotted (''ffff:'' @ t)"
    using t by (intro pton_v6_to_dotted) simp_all
  ultimately show "inet_pton_v6 (''::ffff:'' @ inet_ntop_v4 v4) = Some (replicate 10 0 @ [0xFF, 0xFF] @ v4)"
    by (simp only: append.simps flip: t_def)
qed

lemma groups_v6:
  assumes "\<forall>g \<in> set (pre @ post). g < 2 ^ 16" "length pre + length post < 8"
  shows "inet_pton_v6 (join_groups pre @ ''::'' @ join_groups post) =
    Some (bytes_of_hextets (pre @ replicate (8 - length pre - length post) 0 @ post))"
proof -
  let ?s = "join_groups pre @ ''::'' @ join_groups post"
  have c: "\<not> has_char (CHR ''x'') ?s" "\<not> has_char (CHR ''.'') (drop 2 ?s)"
    using join_groups_chars [of pre] join_groups_chars [of post] set_drop_subset [of 2 ?s] by auto
  have "pton_v6_loop ?s 0 (replicate 8 0) False =
      pton_v6_loop (''::'' @ join_groups post) (length pre) (write_groups 0 pre (replicate 8 0)) False"
  proof (cases "pre = []")
    case False
    then show ?thesis
      using pton_v6_loop_join [of pre "''::'' @ join_groups post" 0 "replicate 8 0" False] assms by simp
  qed (simp add: write_groups_Nil)
  also have "\<dots> = Some ([], 8, write_groups (8 - length post) post (write_groups 0 pre (replicate 8 0)))"
    using assms by (intro pton_v6_loop_compressed) (auto simp: write_groups_def)
  also have "write_groups (8 - length post) post (write_groups 0 pre (replicate 8 0)) =
      pre @ replicate (8 - length pre - length post) 0 @ post"
    using assms(2) by (simp add: write_groups_def)
  finally show ?thesis
    using c by (simp add: inet_pton_v6_def)
qed

lemma all_groups_v6:
  assumes "\<forall>g \<in> set hs. g < 2 ^ 16" "length hs = 8"
  shows "inet_pton_v6 (join_groups hs) = Some (bytes_of_hextets hs)"
proof -
  have "hs \<noteq> []"
    using assms(2) by auto
  then have "pton_v6_loop (join_groups hs) 0 (replicate 8 0) False = Some ([], 8, hs)"
    using pton_v6_loop_join [of hs "[]" 0 "replicate 8 0" False] assms
    by (simp add: pton_v6_loop_end write_groups_def)
  moreover have "\<not> has_char (CHR ''x'') (join_groups hs)" "\<not> has_char (CHR ''.'') (drop 2 (join_groups hs))"
    using join_groups_chars [of hs] set_drop_subset [of 2 "join_groups hs"] by auto
  ultimately show ?thesis
    by (simp add: inet_pton_v6_def)
qed

lemma bytes_of_zeroes: "bytes_of_hextets (replicate n 0) = replicate (2 * n) 0"
  by (induction n) (simp_all add: bytes_of_hextets_def)

lemma bytes_of_append: "bytes_of_hextets (xs @ ys) = bytes_of_hextets xs @ bytes_of_hextets ys"
  by (simp add: bytes_of_hextets_def)

lemma bytes_of_take_6:
  assumes "length bs = 16"
  shows "bytes_of_hextets (take 6 (hextets bs)) @ drop 12 bs = bs"
proof -
  have "take 6 (hextets bs) = map (hextet bs) [0..<6]"
    by (simp add: hextets_def take_map)
  then have "bytes_of_hextets (take 6 (hextets bs)) = concat (map (\<lambda>i. [bs ! (2 * i), bs ! (2 * i + 1)]) [0..<6])"
    by (simp only: bytes_of_hextets_def map_map o_def hextet_bytes)
  also have "\<dots> = map ((!) bs) [0..<12]"
    using concat_pairs [of "(!) bs" 6] by simp
  also have "\<dots> = take 12 bs"
    using assms by (intro nth_equalityI) auto
  finally show ?thesis
    by simp
qed

lemma inet_v6_roundtrip:
  assumes "length bs = 16"
  shows "inet_pton_v6 (inet_ntop_v6 bs) = Some bs"
proof -
  define hs where "hs = hextets bs"
  define r where "r = longest_run hs"
  have hs: "length hs = 8" "\<forall>h \<in> set hs. h < 2 ^ 16" "bytes_of_hextets hs = bs"
    using hextets_bound bytes_of_hextets_hextets [OF assms] by (auto simp: hs_def)
  have "run_ok hs r"
    unfolding r_def using hs(1) by (rule longest_run_ok)
  from hs(1) this show ?thesis
  proof (cases rule: run_ok_cases)
    case 1
    then have "inet_ntop_v6 bs = join_groups hs"
      using print_groups_tail [of hs 0 "runpos r" 0] hs(1)
      by (simp add: inet_ntop_v6_def Let_def flip: hs_def r_def)
    then show ?thesis
      using all_groups_v6 hs by simp
  next
    case (2 s m)
    have ntop: "inet_ntop_v6 bs =
        (if runpos r ! 0 = 1 \<and> (maxpos r = 5 \<or> maxpos r = 4 \<and> hs ! 5 = 0xFFFF)
         then ''::'' @ (if maxpos r = 4 then ''ffff:'' else []) @ inet_ntop_v4 (drop 12 bs)
         else print_groups hs (runpos r) (nat (max_run r)) 0)"
      unfolding inet_ntop_v6_def Let_def hs_def r_def by (rule refl)
    show ?thesis
    proof (cases "runpos r ! 0 = 1 \<and> (maxpos r = 5 \<or> maxpos r = 4 \<and> hs ! 5 = 0xFFFF)")
      case True
      have "s = 0"
        using run_marks_nth(1) [OF 2(4), of 0] True 2(5) by (cases s) auto
      have d: "length (drop 12 bs) = 4"
        using assms by simp
      have bs12: "bytes_of_hextets (take 6 hs) @ drop 12 bs = bs"
        using bytes_of_take_6 [OF assms] by (simp add: hs_def)
      have m0: "take m hs = replicate m 0"
        using 2(6) \<open>s = 0\<close> by (metis length_replicate append_eq_conv_conj take0 append_Nil)
      consider "m = 6" | "m = 5" "hs ! 5 = 0xFFFF"
        using True 2(2) \<open>s = 0\<close> by auto
      then show ?thesis
      proof cases
        case 1
        then have "inet_ntop_v6 bs = ''::'' @ inet_ntop_v4 (drop 12 bs)"
          using ntop True 2(2) \<open>s = 0\<close> by simp
        moreover have "bytes_of_hextets (take 6 hs) = replicate 12 0"
          using m0 bytes_of_zeroes [of 6] by (simp only: 1) simp
        ultimately show ?thesis
          using dotted_v6(1) [OF d] bs12 by simp
      next
        case five: 2
        then have "inet_ntop_v6 bs = ''::ffff:'' @ inet_ntop_v4 (drop 12 bs)"
          using ntop True 2(2) \<open>s = 0\<close> by simp
        moreover have "take 6 hs = take 5 hs @ [hs ! 5]"
          using hs(1) take_Suc_conv_app_nth [of 5 hs] by simp
        then have "bytes_of_hextets (take 6 hs) = replicate 10 0 @ [0xFF, 0xFF]"
          using m0 bytes_of_zeroes [of 5] by (simp only: five bytes_of_append) (simp add: bytes_of_hextets_def)
        then have "replicate 10 0 @ [0xFF, 0xFF] @ drop 12 bs = bs"
          using bs12 by simp
        ultimately show ?thesis
          using dotted_v6(2) [OF d] by simp
      qed
    next
      case False
      have "inet_ntop_v6 bs = print_groups hs (run_marks s m) m 0"
        unfolding ntop if_not_P [OF False] by (simp only: 2(1) 2(5) nat_int)
      also have "\<dots> = join_groups (take s hs) @ ''::'' @ join_groups (drop (s + m) hs)"
        using print_groups_run [of hs s m 0] hs(1) 2(3,4) by simp
      finally have "inet_ntop_v6 bs = join_groups (take s hs) @ ''::'' @ join_groups (drop (s + m) hs)" .
      moreover have "\<forall>g \<in> set (take s hs @ drop (s + m) hs). g < 2 ^ 16"
        using hs(2) by (auto dest: in_set_takeD in_set_dropD)
      moreover have "length (take s hs) + length (drop (s + m) hs) < 8"
        "8 - length (take s hs) - length (drop (s + m) hs) = m"
        using 2(3,4) hs(1) by auto
      ultimately show ?thesis
        using groups_v6 [of "take s hs" "drop (s + m) hs"] 2(6) hs(3) by simp
    qed
  qed
qed

text \<open>A printed version 6 address has a colon: it is not version 4.\<close>

lemma pton_v4_loop_chars: "pton_v4_loop s result = Some x \<Longrightarrow> CHR '':'' \<notin> set s"
proof (induction s result rule: pton_v4_loop.induct)
  case (2 c cs result)
  let ?rest = "dropWhile is_digit (c # cs)"
  have s: "c # cs = takeWhile is_digit (c # cs) @ ?rest"
    by simp
  have "CHR '':'' \<notin> set (takeWhile is_digit (c # cs))"
    using not_digit_dot(2) by (meson set_takeWhileD)
  moreover have "CHR '':'' \<notin> set ?rest"
    using 2 by (cases ?rest) (auto simp: pton_v4_loop.simps(2) Let_def split: if_splits)
  ultimately show ?case
    by (subst s) simp
qed simp

lemma ntop_v6_shape:
  assumes "length bs = 16"
  obtains "inet_ntop_v6 bs = join_groups (hextets bs)" | u v where "inet_ntop_v6 bs = u @ ''::'' @ v"
proof -
  define hs where "hs = hextets bs"
  define r where "r = longest_run hs"
  have ntop: "inet_ntop_v6 bs =
      (if runpos r ! 0 = 1 \<and> (maxpos r = 5 \<or> maxpos r = 4 \<and> hs ! 5 = 0xFFFF)
       then ''::'' @ (if maxpos r = 4 then ''ffff:'' else []) @ inet_ntop_v4 (drop 12 bs)
       else print_groups hs (runpos r) (nat (max_run r)) 0)"
    unfolding inet_ntop_v6_def Let_def hs_def r_def by (rule refl)
  have l: "length hs = 8"
    by (simp add: hs_def)
  moreover from l have "run_ok hs r"
    unfolding r_def by (rule longest_run_ok)
  ultimately show thesis
  proof (cases rule: run_ok_cases)
    case 1
    then have "inet_ntop_v6 bs = join_groups hs"
      using print_groups_tail [of hs 0 "runpos r" 0] l by (simp add: ntop)
    then show thesis
      unfolding hs_def by (rule that(1))
  next
    case (2 s m)
    have p: "print_groups hs (runpos r) (nat (max_run r)) 0 = join_groups (take s hs) @ ''::'' @ join_groups (drop (s + m) hs)"
      using print_groups_run [of hs s m 0] 2 l by simp
    show thesis
    proof (cases "runpos r ! 0 = 1 \<and> (maxpos r = 5 \<or> maxpos r = 4 \<and> hs ! 5 = 0xFFFF)")
      case True
      show thesis
        by (rule that(2) [of "[]"]) (simp only: ntop if_P [OF True] append_Nil)
    next
      case False
      show thesis
        by (rule that(2)) (simp only: ntop if_not_P [OF False] p)
    qed
  qed
qed

lemma ntop_v6_not_v4:
  assumes "length bs = 16"
  shows "inet_pton_v4 (inet_ntop_v6 bs) = None"
proof -
  have "length (filter (\<lambda>c. c = CHR '':'') (join_groups (hextets bs))) = 7"
    by (simp add: join_groups_colons)
  then have "filter (\<lambda>c. c = CHR '':'') (join_groups (hextets bs)) \<noteq> []"
    by auto
  then have "CHR '':'' \<in> set (join_groups (hextets bs))"
    by (auto simp: filter_empty_conv)
  then have "CHR '':'' \<in> set (inet_ntop_v6 bs)"
    by (cases rule: ntop_v6_shape [OF assms]) simp_all
  then show ?thesis
    using pton_v4_loop_chars by (auto simp: inet_pton_v4_def split: option.splits)
qed

text \<open>C18: Printing an address and parsing the text gives the address back, for every IPv4 address and
  every one of the \<open>2^128\<close> IPv6 addresses: with and without a compressed run, and in the dotted forms
  of the compatible and mapped addresses; no printed IPv6 address parses as version 4.\<close>
theorem inet_text_roundtrip:
  assumes "length v4 = 4" "length v6 = 16"
  shows "inet_pton_v4 (inet_ntop_v4 v4) = Some v4 \<and> inet_pton_v6 (inet_ntop_v6 v6) = Some v6 \<and>
    inet_pton_v4 (inet_ntop_v6 v6) = None"
  using assms inet_v4_roundtrip inet_v6_roundtrip ntop_v6_not_v4 by blast

theorem inet_text_roundtrip_witness:
  "inet_pton_v6 (inet_ntop_v6 (replicate 10 0 @ [0xFF, 0xFF, 192, 168, 1, 1])) =
     Some (replicate 10 0 @ [0xFF, 0xFF, 192, 168, 1, 1])"
  using inet_text_roundtrip [of "[192, 168, 1, 1]" "replicate 10 0 @ [0xFF, 0xFF, 192, 168, 1, 1]"] by simp

text \<open>Texts the parsers accept beyond what the comments describe: a trailing dot and a leading colon.\<close>

lemma trailing_dot_accepted:
  assumes "length v4 = 4"
  shows "inet_pton_v4 (inet_ntop_v4 v4 @ ''.'') = Some v4"
proof -
  obtain a b c d where v4: "v4 = [a, b, c, d]"
    using assms by (auto simp: numeral_eq_Suc length_Suc_conv)
  show ?thesis
    by (simp add: inet_pton_v4_def inet_ntop_v4_def v4 pton_v4_loop_group del: append.simps)
      (use pton_v4_loop_group(1) [of "[a, b, c]" d "[]"] in \<open>simp add: pton_v4_loop.simps(1)\<close>)
qed

lemma leading_colon_accepted:
  assumes "length hs = 8" "\<forall>h \<in> set hs. h < 2 ^ 16"
  shows "inet_pton_v6 ('':'' @ join_groups hs) = inet_pton_v6 (join_groups hs)"
proof -
  have ne: "hs \<noteq> []"
    using assms(1) by auto
  have "pton_v6_loop ('':'' @ join_groups hs) 0 (replicate 8 0) False = pton_v6_loop (join_groups hs) 0 (replicate 8 0) False"
    using pton_v6_loop_colon [OF ne assms(2), of 0 "[]"] by simp
  moreover have "\<not> has_char (CHR ''x'') (join_groups hs)" "\<not> has_char (CHR ''.'') (drop 2 (join_groups hs))"
    "\<not> has_char (CHR ''.'') (drop 1 (join_groups hs))"
    using join_groups_chars [of hs] set_drop_subset [of _ "join_groups hs"] by auto
  ultimately show ?thesis
    by (auto simp: inet_pton_v6_def)
qed

section \<open>The contract of the text functions\<close>

lemma nat_string_length: "n < 10 ^ k \<Longrightarrow> 0 < k \<Longrightarrow> length (nat_string n) \<le> k"
proof (induction k arbitrary: n)
  case (Suc k)
  show ?case
  proof (cases "n < 10")
    case True
    then show ?thesis
      by (subst nat_string.simps) simp
  next
    case False
    then have "0 < k"
      using Suc.prems(1) by (cases k) auto
    moreover have "n div 10 < 10 ^ k"
      using Suc.prems(1) by (simp add: div_less_iff_less_mult mult.commute)
    ultimately have "length (nat_string (n div 10)) \<le> k"
      using Suc.IH by blast
    then show ?thesis
      using False by (subst nat_string.simps) simp
  qed
qed simp

lemma length_ntop_v4: "length (inet_ntop_v4 bs) \<le> 15"
proof -
  have "unat (b :: 8 word) < 2 ^ LENGTH(8)" for b
    by (rule unsigned_less)
  then have "length (byte_string b) \<le> 3" for b
    using nat_string_length [of "unat b" 3] by (simp add: byte_string_def order.strict_trans [of _ 256])
  from this [of "bs ! 0"] this [of "bs ! 1"] this [of "bs ! 2"] this [of "bs ! 3"] show ?thesis
    by (simp add: inet_ntop_v4_def)
qed

lemma length_join_groups:
  "\<forall>g \<in> set gs. g < 2 ^ 16 \<Longrightarrow> length (join_groups gs) \<le> 5 * length gs"
proof (induction gs)
  case (Cons g gs)
  have "length (hex_string g) \<le> 4"
    using hex_string_length [of g 4] Cons.prems by simp
  then show ?case
    using Cons by (auto simp: join_groups_Cons)
qed simp

definition address_char :: "char \<Rightarrow> bool" where
  "address_char c \<longleftrightarrow> is_xdigit c \<or> c = CHR '':'' \<or> c = CHR ''.''"

lemma digit_address_char: "is_digit c \<Longrightarrow> address_char c"
  by (auto simp: is_digit_def address_char_def is_xdigit_def hex_val_def Let_def)

lemma ntop_v4_chars: "\<forall>c \<in> set (inet_ntop_v4 bs). is_digit c \<or> c = CHR ''.''"
  using nat_string_digits by (auto simp: inet_ntop_v4_def byte_string_def)

lemma join_groups_address: "\<forall>c \<in> set (join_groups gs). address_char c"
  using hex_string_xdigits by (induction gs) (auto simp: join_groups_Cons address_char_def)

lemma xdigit_ffff: "is_xdigit (CHR ''f'')"
  by (simp add: is_xdigit_def hex_val_def)

lemma ntop_v6_chars_length:
  "(\<forall>c \<in> set (inet_ntop_v6 bs). address_char c) \<and> length (inet_ntop_v6 bs) \<le> 45"
proof -
  define hs where "hs = hextets bs"
  define r where "r = longest_run hs"
  have ntop: "inet_ntop_v6 bs =
      (if runpos r ! 0 = 1 \<and> (maxpos r = 5 \<or> maxpos r = 4 \<and> hs ! 5 = 0xFFFF)
       then ''::'' @ (if maxpos r = 4 then ''ffff:'' else []) @ inet_ntop_v4 (drop 12 bs)
       else print_groups hs (runpos r) (nat (max_run r)) 0)"
    unfolding inet_ntop_v6_def Let_def hs_def r_def by (rule refl)
  have hs: "length hs = 8" "\<forall>g \<in> set hs. g < 2 ^ 16"
    using hextets_bound by (auto simp: hs_def)
  have d: "\<forall>c \<in> set (inet_ntop_v4 (drop 12 bs)). address_char c"
    using ntop_v4_chars digit_address_char address_char_def by blast
  have p: "(\<forall>c \<in> set (print_groups hs (runpos r) (nat (max_run r)) 0). address_char c) \<and>
      length (print_groups hs (runpos r) (nat (max_run r)) 0) \<le> 45"
    using hs(1) longest_run_ok [OF hs(1), folded r_def]
  proof (cases rule: run_ok_cases)
    case 1
    then show ?thesis
      using print_groups_tail [of hs 0 "runpos r" "nat (max_run r)"] hs join_groups_address length_join_groups [of hs]
      by simp
  next
    case (2 s m)
    have b: "\<forall>g \<in> set (take s hs). g < 2 ^ 16" "\<forall>g \<in> set (drop (s + m) hs). g < 2 ^ 16"
      using hs(2) by (auto dest: in_set_takeD in_set_dropD)
    have "print_groups hs (runpos r) (nat (max_run r)) 0 = join_groups (take s hs) @ ''::'' @ join_groups (drop (s + m) hs)"
      using print_groups_run [of hs s m 0] hs(1) 2 by simp
    then show ?thesis
      using length_join_groups [OF b(1)] length_join_groups [OF b(2)] join_groups_address hs(1) 2(3,4)
      by (auto simp: address_char_def)
  qed
  show ?thesis
    using p d length_ntop_v4 [of "drop 12 bs"] xdigit_ffff by (auto simp: ntop address_char_def)
qed

lemma address_char_not: "\<not> address_char (CHR '']'')" "\<not> address_char (CHR ''['')" "\<not> address_char (CHR 0x00)"
  by (simp_all add: address_char_def is_xdigit_def hex_val_def)

interpretation win32: address_text win32_inet_ntop win32_inet_pton
proof
  fix bs :: bytes
  assume l: "length bs = 4"
  have "\<not> is_digit (CHR ''['')" "\<not> is_digit (CHR 0x00)"
    by (simp_all add: is_digit_def)
  then have "set (inet_ntop_v4 bs) \<inter> {CHR ''['', CHR '':'', CHR 0x00} = {}"
    using ntop_v4_chars [of bs] not_digit_dot by auto
  moreover have "inet_ntop_v4 bs \<noteq> []"
    using dotted_chars(3) [of bs] by auto
  ultimately show "\<exists>s. win32_inet_ntop AF_INET bs = Some s \<and> win32_inet_pton AF_INET s = Some bs \<and> s \<noteq> []
      \<and> set s \<inter> {CHR ''['', CHR '':'', CHR 0x00} = {} \<and> length s \<le> 45"
    using inet_v4_roundtrip [OF l] length_ntop_v4 [of bs]
    by (auto simp: win32_inet_ntop_def win32_inet_pton_def)
next
  fix bs :: bytes
  assume l: "length bs = 16"
  have "set (inet_ntop_v6 bs) \<inter> {CHR '']'', CHR 0x00} = {}"
    using ntop_v6_chars_length [of bs] address_char_not by auto
  then show "\<exists>s. win32_inet_ntop AF_INET6 bs = Some s \<and> win32_inet_pton AF_INET6 s = Some bs
      \<and> win32_inet_pton AF_INET s = None \<and> set s \<inter> {CHR '']'', CHR 0x00} = {} \<and> length s \<le> 45"
    using inet_v6_roundtrip [OF l] ntop_v6_not_v4 [OF l] ntop_v6_chars_length [of bs]
    by (auto simp: win32_inet_ntop_def win32_inet_pton_def)
qed

end
