(* ===== verification/Strings.thy ===== *)
theory Strings
  imports Safe_Numerics
begin

text \<open>
  \<open>rtc_base/string_encode.cc\<close>, \<open>string_to_number.cc\<close> and \<open>.h\<close>, \<open>string_utils.cc\<close> and
  \<open>strings/string_builder.cc\<close> and \<open>.h\<close>: hexadecimal coding, splitting, numbers to and from text, and the
  string builders.  Strings are lists of characters, buffers lists of characters of a fixed length.  The
  parts of the C library the code uses (\<open>snprintf\<close> of an integer, \<open>strtoll\<close> and \<open>strtoull\<close>) are written
  out; floating-point numbers are not modelled.
\<close>

section \<open>Hexadecimal coding\<close>

definition char_nul :: char where
  "char_nul = CHR 0x00"

definition hex_encode_char :: "nat \<Rightarrow> char checked" where
  "hex_encode_char val = do {
     rtc_check (val < 16);
     Some (if val < 16 then ''0123456789abcdef'' ! val else CHR ''!'')
   }"

definition hex_decode_char :: "char \<Rightarrow> nat option" where
  "hex_decode_char ch =
     (let c = of_char ch
      in if 48 \<le> c \<and> c \<le> 57 then Some (c - 48)
         else if 65 \<le> c \<and> c \<le> 70 then Some (c - 65 + 10)
         else if 97 \<le> c \<and> c \<le> 102 then Some (c - 97 + 10)
         else None)"

definition hex_encode_output_length :: "nat \<Rightarrow> char \<Rightarrow> nat" where
  "hex_encode_output_length srclen delimiter =
     (if delimiter \<noteq> char_nul \<and> 0 < srclen then srclen * 3 - 1 else srclen * 2)"

text \<open>The characters the loop of \<open>hex_encode_with_delimiter\<close> writes from the front of its buffer on.\<close>

fun hex_encode_loop :: "string \<Rightarrow> char \<Rightarrow> string checked" where
  "hex_encode_loop [] delimiter = Some []"
| "hex_encode_loop (ch # src) delimiter = do {
     hi \<leftarrow> hex_encode_char (of_char ch div 16 mod 16);
     lo \<leftarrow> hex_encode_char (of_char ch mod 16);
     rest \<leftarrow> hex_encode_loop src delimiter;
     Some ([hi, lo] @ (if delimiter \<noteq> char_nul \<and> src \<noteq> [] then [delimiter] else []) @ rest)
   }"

definition hex_encode_with_delimiter :: "string \<Rightarrow> char \<Rightarrow> string checked" where
  "hex_encode_with_delimiter source delimiter = do {
     written \<leftarrow> hex_encode_loop source delimiter;
     let n = hex_encode_output_length (length source) delimiter;
     if length written \<le> n then Some (written @ replicate (n - length written) char_nul) else None
   }"

definition hex_encode :: "string \<Rightarrow> string checked" where
  "hex_encode str = hex_encode_with_delimiter str char_nul"

text \<open>The loop of \<open>hex_decode_with_delimiter\<close>: the return value and the characters written to the buffer.\<close>

fun hex_decode_loop :: "char \<Rightarrow> string \<Rightarrow> string \<Rightarrow> nat \<times> string" where
  "hex_decode_loop delimiter [] out = (length out, out)"
| "hex_decode_loop delimiter [c] out = (0, out)"
| "hex_decode_loop delimiter (c # d # src) out =
     (case (hex_decode_char c, hex_decode_char d) of
        (Some h1, Some h2) \<Rightarrow>
          (let out = out @ [char_of (h1 * 16 + h2)]
           in if delimiter \<noteq> char_nul \<and> 1 < length src
              then (if hd src \<noteq> delimiter then (0, out) else hex_decode_loop delimiter (tl src) out)
              else hex_decode_loop delimiter src out)
      | _ \<Rightarrow> (0, out))"

definition hex_decode_with_delimiter :: "nat \<Rightarrow> string \<Rightarrow> char \<Rightarrow> nat \<times> string" where
  "hex_decode_with_delimiter buffer_size source delimiter =
     (if buffer_size = 0 then (0, [])
      else let needed = (if delimiter \<noteq> char_nul then (length source + 1) div 3 else length source div 2)
           in if buffer_size < needed then (0, [])
              else hex_decode_loop delimiter source [])"

definition hex_decode :: "nat \<Rightarrow> string \<Rightarrow> nat \<times> string" where
  "hex_decode buffer_size source = hex_decode_with_delimiter buffer_size source char_nul"

section \<open>Splitting\<close>

text \<open>The loops over the source: \<open>field\<close> is the text from \<open>last\<close> up to the current index.\<close>

fun tokenize_loop :: "char \<Rightarrow> string \<Rightarrow> string \<Rightarrow> string list \<Rightarrow> string list" where
  "tokenize_loop delimiter field [] fields = (if field \<noteq> [] then fields @ [field] else fields)"
| "tokenize_loop delimiter field (c # src) fields =
     (if c = delimiter
      then tokenize_loop delimiter [] src (if field \<noteq> [] then fields @ [field] else fields)
      else tokenize_loop delimiter (field @ [c]) src fields)"

definition tokenize :: "string \<Rightarrow> char \<Rightarrow> nat \<times> string list" where
  "tokenize source delimiter =
     (let fields = tokenize_loop delimiter [] source [] in (length fields, fields))"

definition tokenize_first :: "string \<Rightarrow> char \<Rightarrow> (string \<times> string) option" where
  "tokenize_first source delimiter =
     (let token = takeWhile (\<lambda>c. c \<noteq> delimiter) source
      in if length token = length source then None
         else Some (token, dropWhile (\<lambda>c. c = delimiter) (drop (length token + 1) source)))"

fun split_loop :: "char \<Rightarrow> string \<Rightarrow> string \<Rightarrow> string list \<Rightarrow> string list" where
  "split_loop delimiter field [] fields = fields @ [field]"
| "split_loop delimiter field (c # src) fields =
     (if c = delimiter then split_loop delimiter [] src (fields @ [field])
      else split_loop delimiter (field @ [c]) src fields)"

definition split_fields :: "string \<Rightarrow> char \<Rightarrow> string list" where
  "split_fields source delimiter = split_loop delimiter [] source []"

section \<open>Numbers\<close>

definition bool_ToString :: "bool \<Rightarrow> string" where
  "bool_ToString b = (if b then ''true'' else ''false'')"

text \<open>\<open>ToString\<close> of the integer types: the buffer of 32 characters holds every one of them.\<close>

definition int_ToString :: "int \<Rightarrow> string checked" where
  "int_ToString s = do {
     let text = int_string s;
     rtc_check (length text \<le> 32);
     Some text
   }"

text \<open>What \<open>%0*zu\<close> prints for a width.\<close>

definition zero_pad :: "nat \<Rightarrow> nat \<Rightarrow> string" where
  "zero_pad width n = replicate (width - length (nat_string n)) CHR ''0'' @ nat_string n"

definition bool_FromString :: "string \<Rightarrow> bool option" where
  "bool_FromString s = (if s = ''false'' then Some False else if s = ''true'' then Some True else None)"

definition alnum_val :: "char \<Rightarrow> nat option" where
  "alnum_val ch =
     (let c = of_char ch
      in if 48 \<le> c \<and> c \<le> 57 then Some (c - 48)
         else if 65 \<le> c \<and> c \<le> 90 then Some (c - 55)
         else if 97 \<le> c \<and> c \<le> 122 then Some (c - 87)
         else None)"

definition digit_in :: "nat \<Rightarrow> char \<Rightarrow> bool" where
  "digit_in base ch = (case alnum_val ch of None \<Rightarrow> False | Some d \<Rightarrow> d < base)"

definition digits_val :: "nat \<Rightarrow> string \<Rightarrow> nat" where
  "digits_val base s = foldl (\<lambda>a c. base * a + the (alnum_val c)) 0 s"

text \<open>The subject of \<open>strtoll\<close> at a digit or a minus sign: the sign, the magnitude and the text behind it;
  \<open>None\<close> when there is no number, in which case the end pointer stays at the start.  The prefix \<open>0x\<close>
  counts only when a digit follows.\<close>

definition has_hex_prefix :: "string \<Rightarrow> bool" where
  "has_hex_prefix s \<longleftrightarrow> 3 \<le> length s \<and> s ! 0 = CHR ''0'' \<and> (s ! 1 = CHR ''x'' \<or> s ! 1 = CHR ''X'')
     \<and> digit_in 16 (s ! 2)"

definition strto_subject :: "string \<Rightarrow> nat \<Rightarrow> (bool \<times> nat \<times> string) option" where
  "strto_subject str base =
     (let neg = (str \<noteq> [] \<and> hd str = CHR ''-'');
          s = (if neg then tl str else str);
          hex = ((base = 0 \<or> base = 16) \<and> has_hex_prefix s);
          b = (if base \<noteq> 0 then base else if hex then 16 else if s \<noteq> [] \<and> hd s = CHR ''0'' then 8 else 10);
          s = (if hex then drop 2 s else s);
          digits = takeWhile (digit_in b) s
      in if digits = [] then None
         else Some (neg, digits_val b digits, dropWhile (digit_in b) s))"

definition starts_number :: "string \<Rightarrow> bool" where
  "starts_number str \<longleftrightarrow> is_digit (hd str) \<or> hd str = CHR ''-''"

definition ParseSigned :: "string \<Rightarrow> nat \<Rightarrow> int option" where
  "ParseSigned str base =
     (if str = [] then None
      else if starts_number str
      then (case strto_subject str base of
              None \<Rightarrow> None
            | Some (neg, magnitude, rest) \<Rightarrow>
                (let value = (if neg then - int magnitude else int magnitude)
                 in if rest = [] \<and> in_i64 value then Some value else None))
      else None)"

definition ParseUnsigned :: "string \<Rightarrow> nat \<Rightarrow> int option" where
  "ParseUnsigned str base =
     (if str = [] then None
      else if starts_number str
      then (case strto_subject str base of
              None \<Rightarrow> None
            | Some (neg, magnitude, rest) \<Rightarrow>
                (let value = (if neg then (- int magnitude) mod 2 ^ 64 else int magnitude)
                 in if rest = [] \<and> magnitude < 2 ^ 64 \<and> (value = 0 \<or> \<not> neg) then Some value else None))
      else None)"

definition StringToNumber :: "int_type \<Rightarrow> string \<Rightarrow> nat \<Rightarrow> int option" where
  "StringToNumber t str base =
     (if ty_signed t
      then (case ParseSigned str base of
              None \<Rightarrow> None
            | Some value \<Rightarrow> if ty_lowest t \<le> value \<and> value \<le> ty_max t then Some (convert t value) else None)
      else (case ParseUnsigned str base of
              None \<Rightarrow> None
            | Some value \<Rightarrow> if value \<le> ty_max t then Some (convert t value) else None))"

text \<open>\<open>FromString\<close>: whether it succeeded and the value of the target afterwards.\<close>

definition int_FromString :: "int_type \<Rightarrow> string \<Rightarrow> int \<Rightarrow> bool \<times> int" where
  "int_FromString t s old = (case StringToNumber t s 10 of None \<Rightarrow> (False, old) | Some v \<Rightarrow> (True, v))"

section \<open>Buffers\<close>

definition strcpyn :: "string \<Rightarrow> nat \<Rightarrow> string \<Rightarrow> nat \<times> string" where
  "strcpyn buffer buflen source =
     (if buflen = 0 then (0, buffer)
      else let srclen = (if buflen \<le> length source then buflen - 1 else length source)
           in (srclen, take srclen source @ [char_nul] @ drop (srclen + 1) buffer))"

record simple_builder =
  buffer :: string
  sb_size :: nat

definition sb_consistent :: "simple_builder \<Rightarrow> bool" where
  "sb_consistent b \<longleftrightarrow> sb_size b \<le> length (buffer b) - 1 \<and> buffer b ! sb_size b = char_nul"

definition SimpleStringBuilder :: "string \<Rightarrow> simple_builder checked" where
  "SimpleStringBuilder mem = do {
     rtc_check (mem \<noteq> []);
     let b = \<lparr>buffer = mem[0 := char_nul], sb_size = 0\<rparr>;
     rtc_check (sb_consistent b);
     Some b
   }"

definition write_at :: "string \<Rightarrow> nat \<Rightarrow> string \<Rightarrow> string" where
  "write_at mem pos text = take pos mem @ text @ drop (pos + length text) mem"

text \<open>\<open>operator<<\<close> of a string.  With \<open>checks\<close> the \<open>RTC_DCHECK\<close>s are on, without it the text is truncated.\<close>

definition sb_append :: "bool \<Rightarrow> string \<Rightarrow> simple_builder \<Rightarrow> simple_builder checked" where
  "sb_append checks str b = do {
     rtc_check (\<not> checks \<or> sb_size b + length str < length (buffer b));
     let chars_added = min (length str) (length (buffer b) - sb_size b - 1);
     let mem = write_at (buffer b) (sb_size b) (take chars_added str);
     let n = sb_size b + chars_added;
     let b = \<lparr>buffer = mem[n := char_nul], sb_size = n\<rparr>;
     rtc_check (\<not> checks \<or> sb_consistent b);
     Some b
   }"

definition sb_append_char :: "bool \<Rightarrow> char \<Rightarrow> simple_builder \<Rightarrow> simple_builder checked" where
  "sb_append_char checks ch b = sb_append checks [ch] b"

text \<open>\<open>AppendFormat\<close> with the text \<open>vsnprintf\<close> produces: it writes as much as fits and a terminator.\<close>

definition sb_AppendFormat :: "bool \<Rightarrow> string \<Rightarrow> simple_builder \<Rightarrow> simple_builder checked" where
  "sb_AppendFormat checks text b = do {
     let room = length (buffer b) - sb_size b;
     let written = take (room - 1) text;
     let mem = (if room = 0 then buffer b else write_at (buffer b) (sb_size b) (written @ [char_nul]));
     let chars_added = min (length text) (length (buffer b) - 1 - sb_size b);
     let b = \<lparr>buffer = mem, sb_size = sb_size b + chars_added\<rparr>;
     rtc_check (\<not> checks \<or> length text = chars_added);
     rtc_check (\<not> checks \<or> sb_consistent b);
     Some b
   }"

definition sb_append_int :: "bool \<Rightarrow> int \<Rightarrow> simple_builder \<Rightarrow> simple_builder checked" where
  "sb_append_int checks i b = sb_AppendFormat checks (int_string i) b"

text \<open>\<open>str()\<close> read as a C string.\<close>

definition sb_str :: "simple_builder \<Rightarrow> string" where
  "sb_str b = takeWhile (\<lambda>c. c \<noteq> char_nul) (buffer b)"

text \<open>\<open>StringBuilder\<close> holds a string.\<close>

definition StringBuilder_append :: "string \<Rightarrow> string \<Rightarrow> string" where
  "StringBuilder_append text0 s = text0 @ s"

definition StringBuilder_append_int :: "string \<Rightarrow> int \<Rightarrow> string checked" where
  "StringBuilder_append_int text0 i = do { s \<leftarrow> int_ToString i; Some (text0 @ s) }"

definition StringBuilder_AppendFormat :: "string \<Rightarrow> string \<Rightarrow> string" where
  "StringBuilder_AppendFormat text0 text = (if 0 < length text then text0 @ text else text0)"

definition StringBuilder_Release :: "string \<Rightarrow> string \<times> string" where
  "StringBuilder_Release text0 = (text0, [])"

definition kMaxSize :: nat where
  "kMaxSize = 512"

definition StringFormat :: "bool \<Rightarrow> string \<Rightarrow> string checked" where
  "StringFormat checks text = do {
     rtc_check (\<not> checks \<or> length text < kMaxSize);
     Some (take (kMaxSize - 1) text)
   }"

section \<open>Facts\<close>

lemma char_range: "of_char (c :: char) < (256 :: nat)"
  by (rule nat_of_char_less_256)

lemma hex_encode_char_nth:
  assumes "d < 16"
  shows "\<exists>c. hex_encode_char d = Some c \<and> hex_decode_char c = Some d"
proof -
  have "\<forall>d \<in> set [0..<16]. hex_decode_char (''0123456789abcdef'' ! d) = Some d"
    by code_simp
  then show ?thesis
    using assms by (simp add: hex_encode_char_def)
qed

lemma hex_loop_roundtrip:
  "\<exists>e. hex_encode_loop src d = Some e \<and> length e = hex_encode_output_length (length src) d \<and>
     (\<forall>out. hex_decode_loop d e out = (length (out @ src), out @ src))"
proof (induction src)
  case Nil
  then show ?case
    by (simp add: hex_encode_output_length_def)
next
  case (Cons ch src)
  then obtain e where e: "hex_encode_loop src d = Some e" "length e = hex_encode_output_length (length src) d"
    "\<And>out. hex_decode_loop d e out = (length (out @ src), out @ src)"
    by blast
  define n :: nat where "n = of_char ch"
  have n: "n < 256" "char_of n = ch"
    by (simp_all add: n_def char_range)
  obtain hi where hi: "hex_encode_char (n div 16 mod 16) = Some hi" "hex_decode_char hi = Some (n div 16 mod 16)"
    using hex_encode_char_nth [of "n div 16 mod 16"] by auto
  obtain lo where lo: "hex_encode_char (n mod 16) = Some lo" "hex_decode_char lo = Some (n mod 16)"
    using hex_encode_char_nth [of "n mod 16"] by auto
  have "n div 16 mod 16 * 16 + n mod 16 = n"
    using n(1) by (simp add: mod_less div_less_iff_less_mult)
  then have ch: "char_of (n div 16 mod 16 * 16 + n mod 16) = ch"
    using n(2) by simp
  show ?case
  proof (cases "d \<noteq> char_nul \<and> src \<noteq> []")
    case True
    then have "e \<noteq> []"
      using e(2) by (cases src) (auto simp: hex_encode_output_length_def)
    moreover have "1 < length (d # e)"
      using \<open>e \<noteq> []\<close> by (cases e) auto
    ultimately show ?thesis
      using True e hi lo ch by (auto simp: hex_encode_output_length_def Let_def n_def [symmetric] Suc_diff_le)
  next
    case False
    have "e = []" if "d \<noteq> char_nul"
      using that False e(1) by simp
    then show ?thesis
      using False e hi lo ch by (auto simp: hex_encode_output_length_def Let_def n_def [symmetric])
  qed
qed

lemma hex_decode_loop_bound:
  "length (snd (hex_decode_loop d src out)) \<le>
     length out + (if d \<noteq> char_nul then (length src + 1) div 3 else length src div 2)"
proof (induction d src out rule: hex_decode_loop.induct)
  case (3 delimiter c d src out)
  have "(4 + n) div 3 = Suc (Suc n div 3)" for n :: nat
    by presburger
  then show ?case
    using 3 by (cases src) (auto simp: Let_def split: option.splits)
qed auto

text \<open>Hexadecimal text decodes to the bytes it was made from, with any delimiter and with none, when
  the buffer holds them; and whatever the source, decoding writes at most the buffer's size.\<close>
theorem hex_coding_roundtrip:
  "(\<exists>e. hex_encode_with_delimiter src d = Some e \<and>
     (\<forall>n \<ge> length src. hex_decode_with_delimiter n e d = (length src, src))) \<and>
   length (snd (hex_decode_with_delimiter m any d)) \<le> m"
proof
  obtain e where e: "hex_encode_loop src d = Some e" "length e = hex_encode_output_length (length src) d"
    "\<And>out. hex_decode_loop d e out = (length (out @ src), out @ src)"
    using hex_loop_roundtrip by blast
  have "hex_encode_with_delimiter src d = Some e"
    using e(1,2) by (simp add: hex_encode_with_delimiter_def)
  moreover have "hex_decode_with_delimiter n e d = (length src, src)" if "length src \<le> n" for n
  proof (cases "n = 0")
    case False
    have "(if d \<noteq> char_nul then (length e + 1) div 3 else length e div 2) \<le> length src"
      unfolding e(2) hex_encode_output_length_def by (cases src) auto
    then show ?thesis
      using that False e(3) [of "[]"] by (auto simp: hex_decode_with_delimiter_def Let_def)
  qed (use that in \<open>simp add: hex_decode_with_delimiter_def\<close>)
  ultimately show "\<exists>e. hex_encode_with_delimiter src d = Some e \<and>
      (\<forall>n \<ge> length src. hex_decode_with_delimiter n e d = (length src, src))"
    by blast
  show "length (snd (hex_decode_with_delimiter m any d)) \<le> m"
    using hex_decode_loop_bound [of d any "[]"]
    by (auto simp: hex_decode_with_delimiter_def Let_def)
qed

theorem hex_coding_roundtrip_witness:
  "\<exists>e. hex_encode_with_delimiter ''TQ'' (CHR '':'') = Some e \<and> hex_decode_with_delimiter 2 e (CHR '':'') = (2, ''TQ'')"
  using hex_coding_roundtrip [of "''TQ''" "CHR '':''" 0 "[]"] by auto

fun join_fields :: "char \<Rightarrow> string list \<Rightarrow> string" where
  "join_fields d [] = []"
| "join_fields d [f] = f"
| "join_fields d (f # fs) = f @ [d] @ join_fields d fs"

lemma join_fields_snoc: "fs \<noteq> [] \<Longrightarrow> join_fields d (fs @ [f]) = join_fields d fs @ [d] @ f"
  by (induction d fs rule: join_fields.induct) auto

lemma split_loop_spec:
  assumes "\<forall>f \<in> set (field # flds). d \<notin> set f"
  shows "join_fields d (split_loop d field src flds) = join_fields d (flds @ [field]) @ src \<and>
    (\<forall>f \<in> set (split_loop d field src flds). d \<notin> set f) \<and>
    tokenize_loop d field src (filter (\<lambda>f. f \<noteq> []) flds) = filter (\<lambda>f. f \<noteq> []) (split_loop d field src flds) \<and>
    length (split_loop d field src flds) = length flds + 1 + count_list src d"
  using assms
proof (induction src arbitrary: field flds)
  case (Cons c src)
  show ?case
  proof (cases "c = d")
    case True
    have p: "\<forall>f \<in> set ([] # flds @ [field]). d \<notin> set f"
      using Cons.prems by auto
    have "join_fields d (flds @ [field, []]) = join_fields d (flds @ [field]) @ [d]"
      using join_fields_snoc [of "flds @ [field]" d "[]"] by simp
    then show ?thesis
      using Cons.IH [OF p] True by (cases "field = []") auto
  next
    case False
    have p: "\<forall>f \<in> set ((field @ [c]) # flds). d \<notin> set f"
      using Cons.prems False by auto
    have "join_fields d (flds @ [field @ [c]]) = join_fields d (flds @ [field]) @ [c]"
      by (cases "flds = []") (simp_all add: join_fields_snoc)
    then show ?thesis
      using Cons.IH [OF p] False by simp
  qed
qed simp

text \<open>\<open>split\<close> gives the fields between the delimiters: joined by the delimiter they are the source, none
  contains it, and there is one more field than there are delimiters; \<open>tokenize\<close> gives the same fields
  without the empty ones, with their number.\<close>
theorem split_and_tokenize:
  "join_fields d (split_fields src d) = src \<and> (\<forall>f \<in> set (split_fields src d). d \<notin> set f) \<and>
   length (split_fields src d) = count_list src d + 1 \<and>
   snd (tokenize src d) = filter (\<lambda>f. f \<noteq> []) (split_fields src d) \<and>
   fst (tokenize src d) = length (snd (tokenize src d))"
  using split_loop_spec [of "[]" "[]" d src]
  by (simp add: split_fields_def tokenize_def Let_def)

theorem split_and_tokenize_witness:
  "join_fields (CHR '','') (split_fields '',a,,b'' (CHR '','')) = '',a,,b'' \<and>
   snd (tokenize '',a,,b'' (CHR '','')) = [''a'', ''b'']"
  using split_and_tokenize [of "CHR '',''" "'',a,,b''"] by (simp add: tokenize_def Let_def)

section \<open>Numbers and their text\<close>

lemma alnum_val_digit: "is_digit c \<Longrightarrow> alnum_val c = Some (digit_val c)"
  by (auto simp: is_digit_def alnum_val_def digit_val_def Let_def)

lemma digit_val_less: "is_digit c \<Longrightarrow> digit_val c < 10"
  by (auto simp: is_digit_def digit_val_def)

lemma digit_in_10: "is_digit c \<Longrightarrow> digit_in 10 c"
  using digit_val_less [of c] by (simp add: digit_in_def alnum_val_digit)

lemma digits_val_10:
  assumes "\<forall>c \<in> set s. is_digit c"
  shows "digits_val 10 s = string_nat s"
proof -
  have "foldl (\<lambda>a c. 10 * a + the (alnum_val c)) n s = foldl (\<lambda>a c. 10 * a + digit_val c) n s" for n
    using assms by (induction s arbitrary: n) (simp_all add: alnum_val_digit)
  then show ?thesis
    by (simp add: digits_val_def string_nat_def)
qed

lemma strto_subject_int:
  "strto_subject (int_string v) 10 = Some (v < 0, nat \<bar>v\<bar>, [])"
proof -
  have d: "\<forall>c \<in> set (nat_string n). is_digit c" for n
    using nat_string_digits by blast
  then have t: "takeWhile (digit_in 10) (nat_string n) = nat_string n" "dropWhile (digit_in 10) (nat_string n) = []" for n
    by (auto simp: digit_in_10)
  have h: "hd (nat_string n) \<noteq> CHR ''-''" for n
    using d [of n] not_is_digit_minus(1) by (cases "nat_string n") auto
  show ?thesis
    using h by (simp add: strto_subject_def int_string_def t digits_val_10 d)
qed

lemma starts_number_int: "int_string v \<noteq> [] \<and> starts_number (int_string v)"
proof -
  have "nat_string n \<noteq> [] \<and> is_digit (hd (nat_string n))" for n
    using nat_string_digits [of "hd (nat_string n)" n] by (cases "nat_string n") auto
  then show ?thesis
    by (simp add: int_string_def starts_number_def)
qed

lemma neg_mod_2_64: "v < 0 \<Longrightarrow> - v < 2 ^ 64 \<Longrightarrow> v mod 2 ^ 64 \<noteq> (0::int)"
  by (metis add.inverse_inverse dvd_imp_mod_0 mod_0_imp_dvd mod_minus_eq neg_0_less_iff_less
      zdvd_not_zless dvd_minus_iff)

text \<open>The decimal text of any integer, however large, parses to that integer exactly when the target
  type holds it and is rejected otherwise: negative numbers for unsigned types, and values beyond the
  range of \<open>long long\<close>, included.\<close>
theorem numbers_text_roundtrip:
  assumes "std_type t"
  shows "StringToNumber t (int_string v) 10 = (if in_type t v then Some v else None)"
proof -
  have c: "convert t v = v" if "in_type t v"
    using that assms by (simp add: convert_id)
  have ps: "ParseSigned (int_string v) 10 = (if in_i64 v then Some v else None)"
    using starts_number_int [of v] by (simp add: ParseSigned_def strto_subject_int Let_def)
  have pu: "ParseUnsigned (int_string v) 10 = (if 0 \<le> v \<and> v < 2 ^ 64 then Some v else None)"
    using starts_number_int [of v] neg_mod_2_64 [of v]
    by (auto simp: ParseUnsigned_def strto_subject_int Let_def nat_less_iff)
  show ?thesis
    using assms c
    by (elim std_type_cases) (auto simp: StringToNumber_def ps pu in_i64_def i64_max_def i64_min_def
        ty_lowest_def ty_max_def)
qed

theorem numbers_text_roundtrip_witness:
  "StringToNumber int16_t (int_string (- 32768)) 10 = Some (- 32768) \<and>
   StringToNumber uint64_t (int_string (- 1)) 10 = None \<and>
   StringToNumber int64_t (int_string (2 ^ 63)) 10 = None"
  using numbers_text_roundtrip [of int16_t "- 32768"] numbers_text_roundtrip [of uint64_t "- 1"]
    numbers_text_roundtrip [of int64_t "2 ^ 63"] by (simp add: std_type_def)

section \<open>The fixed-size builder\<close>

fun sb_appends :: "bool \<Rightarrow> string list \<Rightarrow> simple_builder \<Rightarrow> simple_builder checked" where
  "sb_appends checks [] b = Some b"
| "sb_appends checks (t # ts) b = do { b \<leftarrow> sb_append checks t b; sb_appends checks ts b }"

text \<open>A builder of \<open>n\<close> characters that holds \<open>held\<close>.\<close>

definition sb_holds :: "nat \<Rightarrow> string \<Rightarrow> simple_builder \<Rightarrow> bool" where
  "sb_holds n held b \<longleftrightarrow> length (buffer b) = n \<and> sb_size b = length held \<and> length held < n
     \<and> take (length held) (buffer b) = held \<and> buffer b ! length held = char_nul"

lemma sb_holds_consistent: "sb_holds n held b \<Longrightarrow> sb_consistent b"
  by (auto simp: sb_holds_def sb_consistent_def)

lemma sb_holds_str:
  assumes "sb_holds n held b" "char_nul \<notin> set held"
  shows "sb_str b = held"
proof -
  have "buffer b = held @ char_nul # drop (Suc (length held)) (buffer b)"
    using assms(1) append_take_drop_id [of "length held" "buffer b"] Cons_nth_drop_Suc [of "length held" "buffer b"]
    by (simp add: sb_holds_def)
  then show ?thesis
    unfolding sb_str_def
    using takeWhile_append2 [of held "\<lambda>c. c \<noteq> char_nul" "char_nul # drop (Suc (length held)) (buffer b)"] assms(2)
    by fastforce
qed

lemma sb_append_holds:
  assumes "sb_holds n held b" "\<not> checks \<or> length held + length str < n"
  shows "\<exists>b'. sb_append checks str b = Some b' \<and> sb_holds n (take (n - 1) (held @ str)) b'"
proof -
  define k where "k = min (length str) (n - length held - 1)"
  define m where "m = length held + k"
  have k: "m < n" "k \<le> length str"
    using assms(1) by (auto simp: sb_holds_def k_def m_def)
  have t: "take (n - 1) (held @ str) = held @ take k str"
    using assms(1) by (auto simp: sb_holds_def k_def min_def)
  define b' where "b' = \<lparr>buffer = (write_at (buffer b) (length held) (take k str))[m := char_nul], sb_size = m\<rparr>"
  have h: "sb_holds n (held @ take k str) b'"
    using assms(1) k by (auto simp: sb_holds_def b'_def write_at_def m_def min_def)
  have "sb_append checks str b = Some b'"
    using assms sb_holds_consistent [OF h]
    by (auto simp: sb_append_def sb_holds_def Let_def checked_simps b'_def m_def k_def)
  then show ?thesis
    using h t by (metis)
qed

lemma sb_append_fails:
  "sb_holds n held b \<Longrightarrow> n \<le> length held + length str \<Longrightarrow> sb_append True str b = None"
  by (simp add: sb_append_def sb_holds_def checked_simps)

lemma take_take_append: "take k (take k xs @ ys) = take k (xs @ ys)"
  by (cases "k \<le> length xs") simp_all

lemma sb_appends_holds:
  "sb_holds n held b \<Longrightarrow> \<not> checks \<or> length held + length (concat ts) < n \<Longrightarrow>
   \<exists>b'. sb_appends checks ts b = Some b' \<and> sb_holds n (take (n - 1) (held @ concat ts)) b'"
proof (induction ts arbitrary: held b)
  case Nil
  then show ?case
    by (auto simp: sb_holds_def)
next
  case (Cons t ts)
  obtain b1 where b1: "sb_append checks t b = Some b1" "sb_holds n (take (n - 1) (held @ t)) b1"
    using sb_append_holds [of n held b checks t] Cons.prems by fastforce
  have "take (n - 1) (take (n - 1) (held @ t) @ concat ts) = take (n - 1) (held @ t @ concat ts)"
    using take_take_append [of "n - 1" "held @ t" "concat ts"] by simp
  then show ?case
    using Cons.IH [OF b1(2)] Cons.prems b1(1) by auto
qed

lemma sb_appends_fails:
  "sb_holds n held b \<Longrightarrow> n \<le> length held + length (concat ts) \<Longrightarrow> sb_appends True ts b = None"
proof (induction ts arbitrary: held b)
  case (Cons t ts)
  show ?case
  proof (cases "length held + length t < n")
    case True
    then obtain b1 where b1: "sb_append True t b = Some b1" "sb_holds n (take (n - 1) (held @ t)) b1"
      using sb_append_holds [of n held b True t] Cons.prems by blast
    then show ?thesis
      using Cons.IH [OF b1(2)] Cons.prems True by simp
  next
    case False
    then show ?thesis
      using sb_append_fails [of n held b t] Cons.prems by simp
  qed
qed (simp add: sb_holds_def)

lemma sb_AppendFormat_holds:
  assumes "sb_holds n held b" "length held + length str < n"
  shows "\<exists>b'. sb_AppendFormat True str b = Some b' \<and> sb_holds n (held @ str) b'"
proof -
  define b' where "b' = \<lparr>buffer = write_at (buffer b) (length held) (str @ [char_nul]), sb_size = length held + length str\<rparr>"
  have h: "sb_holds n (held @ str) b'"
    using assms by (auto simp: sb_holds_def b'_def write_at_def nth_append)
  have "sb_AppendFormat True str b = Some b'"
    using assms sb_holds_consistent [OF h]
    by (auto simp: sb_AppendFormat_def sb_holds_def Let_def checked_simps b'_def)
  then show ?thesis
    using h by blast
qed

text \<open>Building in a fixed buffer: without the debug checks any sequence of strings always gives their
  concatenation cut to the buffer's size less the terminator, and with the checks it gives the whole
  concatenation or stops at the first string that does not fit.\<close>
theorem simple_builder_truncates:
  assumes "mem \<noteq> []" "\<forall>t \<in> set ts. char_nul \<notin> set t"
  shows "\<exists>b0. SimpleStringBuilder mem = Some b0 \<and>
    map_option sb_str (sb_appends False ts b0) = Some (take (length mem - 1) (concat ts)) \<and>
    map_option sb_str (sb_appends True ts b0) = (if length (concat ts) < length mem then Some (concat ts) else None)"
proof -
  define b0 where "b0 = \<lparr>buffer = mem[0 := char_nul], sb_size = 0\<rparr>"
  have h: "sb_holds (length mem) [] b0"
    using assms(1) by (cases mem) (simp_all add: sb_holds_def b0_def)
  have b0: "SimpleStringBuilder mem = Some b0"
    using assms(1) sb_holds_consistent [OF h] by (simp add: SimpleStringBuilder_def checked_simps flip: b0_def)
  have n: "char_nul \<notin> set (concat ts)" "char_nul \<notin> set (take k (concat ts))" for k
    using assms(2) by (auto dest: in_set_takeD)
  obtain b1 where b1: "sb_appends False ts b0 = Some b1" "sb_holds (length mem) (take (length mem - 1) (concat ts)) b1"
    using sb_appends_holds [OF h, of False ts] by auto
  have "map_option sb_str (sb_appends True ts b0) = (if length (concat ts) < length mem then Some (concat ts) else None)"
  proof (cases "length (concat ts) < length mem")
    case True
    then obtain b2 where "sb_appends True ts b0 = Some b2" "sb_holds (length mem) (concat ts) b2"
      using sb_appends_holds [OF h, of True ts] by auto
    then show ?thesis
      using True n(1) sb_holds_str by simp
  next
    case False
    then show ?thesis
      using sb_appends_fails [OF h, of ts] by simp
  qed
  then show ?thesis
    using b0 b1 sb_holds_str [OF b1(2) n(2)] by simp
qed

theorem simple_builder_truncates_witness:
  "\<exists>b0. SimpleStringBuilder ''....'' = Some b0 \<and>
    map_option sb_str (sb_appends False [''ab'', ''cd''] b0) = Some ''abc'' \<and>
    map_option sb_str (sb_appends True [''ab'', ''cd''] b0) = None"
  using simple_builder_truncates [of "''....''" "[''ab'', ''cd'']"] by (simp add: char_nul_def)

end
