(* ===== verification/Socket_Address.thy ===== *)
theory Socket_Address
  imports Inet_Text Strings
begin

text \<open>
  \<open>rtc_base/socket_address.h\<close> and \<open>socket_address.cc\<close>: an address with a port, as a host name, as an IP
  address or as both, its text, its order, and the socket address structures of the system.  An operation
  that may fail an \<open>RTC_DCHECK\<close> (a port out of range, a buffer that is too small) or throw is \<open>None\<close> then.
  \<open>inet_ntop\<close> and \<open>inet_pton\<close> are arguments; what the text functions need of them is the locale
  \<open>address_text\<close>, which the functions of \<open>win32.cc\<close> satisfy.
\<close>

section \<open>The class\<close>

record SocketAddress =
  hostname :: string
  ip :: IPAddress
  port :: "16 word"
  scope_id :: int
  literal :: bool

definition sa_Clear :: SocketAddress where
  "sa_Clear = \<lparr>hostname = [], ip = ip_unspec, port = 0, scope_id = 0, literal = False\<rparr>"

definition sa_IsNil :: "SocketAddress \<Rightarrow> bool" where
  "sa_IsNil a \<longleftrightarrow> hostname a = [] \<and> IPIsUnspec (ip a) \<and> port a = 0"

definition sa_IsComplete :: "SocketAddress \<Rightarrow> bool" where
  "sa_IsComplete a \<longleftrightarrow> \<not> IPIsAny (ip a) \<and> port a \<noteq> 0"

definition SetIP :: "IPAddress \<Rightarrow> SocketAddress \<Rightarrow> SocketAddress" where
  "SetIP i a = a\<lparr>hostname := [], literal := False, ip := i, scope_id := 0\<rparr>"

definition SetIP_host_order :: "32 word \<Rightarrow> SocketAddress \<Rightarrow> SocketAddress" where
  "SetIP_host_order n a = a\<lparr>hostname := [], literal := False, ip := ip_of_host_order n, scope_id := 0\<rparr>"

definition SetIP_hostname :: "inet_pton \<Rightarrow> string \<Rightarrow> SocketAddress \<Rightarrow> SocketAddress" where
  "SetIP_hostname pton host a =
     (let (lit, i) = IPFromString pton host;
          i = (if \<not> lit then ip_unspec else i)
      in a\<lparr>hostname := host, literal := lit, ip := i, scope_id := 0\<rparr>)"

definition SetResolvedIP :: "IPAddress \<Rightarrow> SocketAddress \<Rightarrow> SocketAddress" where
  "SetResolvedIP i a = a\<lparr>ip := i, scope_id := 0\<rparr>"

definition SetResolvedIP_host_order :: "32 word \<Rightarrow> SocketAddress \<Rightarrow> SocketAddress" where
  "SetResolvedIP_host_order n a = a\<lparr>ip := ip_of_host_order n, scope_id := 0\<rparr>"

definition SetPort :: "int \<Rightarrow> SocketAddress \<Rightarrow> SocketAddress checked" where
  "SetPort p a = do {
     p \<leftarrow> dchecked_cast uint16_t int32_t p;
     Some (a\<lparr>port := word_of_int p\<rparr>)
   }"

definition SetScopeID :: "int \<Rightarrow> SocketAddress \<Rightarrow> SocketAddress" where
  "SetScopeID i a = a\<lparr>scope_id := i\<rparr>"

definition socket_address :: "IPAddress \<Rightarrow> int \<Rightarrow> SocketAddress checked" where
  "socket_address i p = SetPort p (SetIP i sa_Clear)"

definition socket_address_host_order :: "32 word \<Rightarrow> int \<Rightarrow> SocketAddress checked" where
  "socket_address_host_order n p = SetPort p (SetIP (ip_of_host_order n) sa_Clear)"

definition socket_address_hostname :: "inet_pton \<Rightarrow> string \<Rightarrow> int \<Rightarrow> SocketAddress checked" where
  "socket_address_hostname pton host p = SetPort p (SetIP_hostname pton host sa_Clear)"

definition sa_ip :: "SocketAddress \<Rightarrow> 32 word" where
  "sa_ip a = v4AddressAsHostOrderInteger (ip a)"

section \<open>Text\<close>

definition HostAsURIString :: "inet_ntop \<Rightarrow> SocketAddress \<Rightarrow> string" where
  "HostAsURIString ntop a =
     (if \<not> literal a \<and> hostname a \<noteq> [] then hostname a
      else if family (ip a) = AF_INET6 then ''['' @ IP_ToString ntop (ip a) @ '']''
      else IP_ToString ntop (ip a))"

definition HostAsSensitiveURIString :: "inet_ntop \<Rightarrow> SocketAddress \<Rightarrow> string" where
  "HostAsSensitiveURIString ntop a =
     (if \<not> literal a \<and> hostname a \<noteq> [] then hostname a
      else if family (ip a) = AF_INET6 then ''['' @ IP_ToSensitiveString ntop (ip a) @ '']''
      else IP_ToSensitiveString ntop (ip a))"

definition PortAsString :: "SocketAddress \<Rightarrow> string" where
  "PortAsString a = int_string (uint (port a))"

definition host_and_port :: "string \<Rightarrow> 16 word \<Rightarrow> string checked" where
  "host_and_port host p = do {
     sb \<leftarrow> SimpleStringBuilder (replicate 1024 char_nul);
     sb \<leftarrow> sb_append True host sb;
     sb \<leftarrow> sb_append True '':'' sb;
     sb \<leftarrow> sb_append_int True (uint p) sb;
     Some (sb_str sb)
   }"

definition sa_ToString :: "inet_ntop \<Rightarrow> SocketAddress \<Rightarrow> string checked" where
  "sa_ToString ntop a = host_and_port (HostAsURIString ntop a) (port a)"

definition sa_ToSensitiveString :: "inet_ntop \<Rightarrow> SocketAddress \<Rightarrow> string checked" where
  "sa_ToSensitiveString ntop a = host_and_port (HostAsSensitiveURIString ntop a) (port a)"

definition IsUnresolvedIP :: "SocketAddress \<Rightarrow> bool" where
  "IsUnresolvedIP a \<longleftrightarrow> IPIsUnspec (ip a) \<and> \<not> literal a \<and> hostname a \<noteq> []"

definition sa_ToResolvedSensitiveString :: "inet_ntop \<Rightarrow> SocketAddress \<Rightarrow> string checked" where
  "sa_ToResolvedSensitiveString ntop a =
     (if IsUnresolvedIP a then Some [] else host_and_port (IP_ToSensitiveString ntop (ip a)) (port a))"

text \<open>\<open>strtoul\<close> in base 10, where \<open>unsigned long\<close> has 64 bits: 0 without a number, saturated beyond the range.\<close>

definition strtoul_10 :: "string \<Rightarrow> int" where
  "strtoul_10 s =
     (let (neg, _, t) = scan_sign (dropWhile is_space s);
          m = int (string_nat (takeWhile is_digit t))
      in if 2 ^ 64 \<le> m then 2 ^ 64 - 1 else if neg then (- m) mod 2 ^ 64 else m)"

fun find_from :: "char \<Rightarrow> string \<Rightarrow> nat \<Rightarrow> nat option" where
  "find_from c [] i = None"
| "find_from c (x # xs) i = (if x = c then Some i else find_from c xs (i + 1))"

text \<open>\<open>FromString\<close>: its return value and the address afterwards; \<open>at(0)\<close> of an empty string throws.\<close>

definition sa_FromString :: "inet_pton \<Rightarrow> string \<Rightarrow> SocketAddress \<Rightarrow> (bool \<times> SocketAddress) checked" where
  "sa_FromString pton str a =
     (if str = [] then None
      else if str ! 0 = CHR ''['' then
        (case rfind (CHR '']'') str of
           None \<Rightarrow> Some (True, a)
         | Some closebracket \<Rightarrow>
             (case find_from (CHR '':'') (drop closebracket str) closebracket of
                None \<Rightarrow> Some (False, a)
              | Some colon \<Rightarrow>
                  (if closebracket < colon
                   then do {
                     a \<leftarrow> SetPort (convert int32_t (strtoul_10 (drop (colon + 1) str))) a;
                     Some (True, SetIP_hostname pton (take (closebracket - 1) (drop 1 str)) a)
                   }
                   else Some (False, a))))
      else
        (case find_from (CHR '':'') str 0 of
           None \<Rightarrow> Some (False, a)
         | Some pos \<Rightarrow> do {
             a \<leftarrow> SetPort (convert int32_t (strtoul_10 (drop (pos + 1) str))) a;
             Some (True, SetIP_hostname pton (take pos str) a)
           }))"

section \<open>Predicates and order\<close>

definition IsAnyIP :: "SocketAddress \<Rightarrow> bool" where
  "IsAnyIP a = IPIsAny (ip a)"

definition IsLoopbackIP :: "SocketAddress \<Rightarrow> bool" where
  "IsLoopbackIP a \<longleftrightarrow> IPIsLoopback (ip a) \<or> IPIsAny (ip a) \<and> hostname a = ''localhost''"

definition IsPrivateIP :: "SocketAddress \<Rightarrow> bool" where
  "IsPrivateIP a = IPIsPrivate (ip a)"

text \<open>\<open>operator<\<close> of strings: lexicographic on the characters as unsigned bytes.\<close>

fun string_less :: "string \<Rightarrow> string \<Rightarrow> bool" where
  "string_less s [] = False"
| "string_less [] (d # t) = True"
| "string_less (c # s) (d # t) =
     (if c = d then string_less s t else (of_char c :: nat) < of_char d)"

definition EqualIPs :: "SocketAddress \<Rightarrow> SocketAddress \<Rightarrow> bool" where
  "EqualIPs a b \<longleftrightarrow> ip_eq (ip a) (ip b) \<and> (\<not> IPIsAny (ip a) \<and> \<not> IPIsUnspec (ip a) \<or> hostname a = hostname b)"

definition EqualPorts :: "SocketAddress \<Rightarrow> SocketAddress \<Rightarrow> bool" where
  "EqualPorts a b \<longleftrightarrow> port a = port b"

definition sa_eq :: "SocketAddress \<Rightarrow> SocketAddress \<Rightarrow> bool" where
  "sa_eq a b \<longleftrightarrow> EqualIPs a b \<and> EqualPorts a b"

definition sa_less :: "SocketAddress \<Rightarrow> SocketAddress \<Rightarrow> bool" where
  "sa_less a b =
     (if \<not> ip_eq (ip a) (ip b) then ip_less (ip a) (ip b)
      else if (IPIsAny (ip a) \<or> IPIsUnspec (ip a)) \<and> hostname a \<noteq> hostname b
      then string_less (hostname a) (hostname b)
      else port a < port b)"

definition sa_Hash :: "SocketAddress \<Rightarrow> 64 word" where
  "sa_Hash a =
     (let p = uint (port a)
      in HashIP (ip a) XOR word_of_int (sint (word_of_int (p OR push_bit 16 p) :: 32 word)))"

section \<open>Socket address structures\<close>

text \<open>The structures of the system with the fields the code uses, port in network order as the system has it.\<close>

record sockaddr_in =
  sin_family :: ip_family
  sin_port :: "16 word"
  sin_addr :: bytes

record sockaddr_in6 =
  sin6_port :: "16 word"
  sin6_addr :: bytes
  sin6_scope_id :: int

datatype sockaddr_storage = Storage_unspec | Storage_in sockaddr_in | Storage_in6 sockaddr_in6

abbreviation ntoh16 :: "16 word \<Rightarrow> 16 word" where
  "ntoh16 \<equiv> NetworkToHost16 False"

abbreviation hton16 :: "16 word \<Rightarrow> 16 word" where
  "hton16 \<equiv> HostToNetwork16 False"

definition ToSockAddr :: "SocketAddress \<Rightarrow> sockaddr_in" where
  "ToSockAddr a =
     (if family (ip a) \<noteq> AF_INET then \<lparr>sin_family = AF_UNSPEC, sin_port = 0, sin_addr = replicate 4 0\<rparr>
      else \<lparr>sin_family = AF_INET, sin_port = hton16 (port a),
            sin_addr = (if IPIsAny (ip a) then store32 INADDR_ANY else ipv4_address (ip a))\<rparr>)"

definition FromSockAddr :: "sockaddr_in \<Rightarrow> SocketAddress \<Rightarrow> (bool \<times> SocketAddress) checked" where
  "FromSockAddr saddr a =
     (if sin_family saddr \<noteq> AF_INET then Some (False, a)
      else do {
        a \<leftarrow> SetPort (uint (ntoh16 (sin_port saddr))) (SetIP_host_order (ntoh32 (load32 (sin_addr saddr))) a);
        Some (True, a\<lparr>literal := False\<rparr>)
      })"

definition ToSockAddrStorageHelper :: "IPAddress \<Rightarrow> 16 word \<Rightarrow> int \<Rightarrow> nat \<times> sockaddr_storage" where
  "ToSockAddrStorageHelper i p scope =
     (case family i of
        AF_INET6 \<Rightarrow> (28, Storage_in6 \<lparr>sin6_port = hton16 p, sin6_addr = ipv6_address i, sin6_scope_id = scope\<rparr>)
      | AF_INET \<Rightarrow> (16, Storage_in \<lparr>sin_family = AF_INET, sin_port = hton16 p, sin_addr = ipv4_address i\<rparr>)
      | AF_UNSPEC \<Rightarrow> (0, Storage_unspec))"

definition ToDualStackSockAddrStorage :: "SocketAddress \<Rightarrow> nat \<times> sockaddr_storage" where
  "ToDualStackSockAddrStorage a = ToSockAddrStorageHelper (AsIPv6Address (ip a)) (port a) (scope_id a)"

definition ToSockAddrStorage :: "SocketAddress \<Rightarrow> nat \<times> sockaddr_storage" where
  "ToSockAddrStorage a = ToSockAddrStorageHelper (ip a) (port a) (scope_id a)"

fun SocketAddressFromSockAddrStorage :: "sockaddr_storage \<Rightarrow> SocketAddress \<Rightarrow> (bool \<times> SocketAddress) checked" where
  "SocketAddressFromSockAddrStorage (Storage_in saddr) out = do {
     a \<leftarrow> socket_address (ip_of_v4 (sin_addr saddr)) (uint (ntoh16 (sin_port saddr)));
     Some (True, a)
   }"
| "SocketAddressFromSockAddrStorage (Storage_in6 saddr) out = do {
     a \<leftarrow> socket_address (ip_of_v6 (sin6_addr saddr)) (uint (ntoh16 (sin6_port saddr)));
     Some (True, SetScopeID (sin6_scope_id saddr) a)
   }"
| "SocketAddressFromSockAddrStorage Storage_unspec out = Some (False, out)"

definition EmptySocketAddressWithFamily :: "ip_family \<Rightarrow> SocketAddress checked" where
  "EmptySocketAddressWithFamily fam =
     (if fam = AF_INET then socket_address (ip_of_host_order INADDR_ANY) 0
      else if fam = AF_INET6 then socket_address (ip_of_v6 in6addr_any) 0
      else Some sa_Clear)"

section \<open>The order\<close>

lemma string_less_irrefl: "\<not> string_less s s"
  by (induction s) auto

lemma string_less_trans: "string_less s t \<Longrightarrow> string_less t u \<Longrightarrow> string_less s u"
proof (induction s t arbitrary: u rule: string_less.induct)
  case (2 d t)
  then show ?case
    by (cases u) auto
next
  case (3 c s d t)
  then show ?case
    by (cases u) (auto split: if_splits)
qed simp

lemma string_less_total: "s \<noteq> t \<Longrightarrow> string_less s t \<or> string_less t s"
proof (induction s t rule: string_less.induct)
  case (1 s)
  then show ?case
    by (cases s) auto
next
  case (3 c s d t)
  have "c \<noteq> d \<Longrightarrow> (of_char c :: nat) < of_char d \<or> (of_char d :: nat) < of_char c"
    by (metis linorder_less_linear of_char_eq_iff)
  then show ?case
    using 3 by auto
qed auto

definition sa_wf :: "SocketAddress \<Rightarrow> bool" where
  "sa_wf a \<longleftrightarrow> ip_wf (ip a)"

text \<open>The host name counts only for unspecified and wildcard addresses.\<close>

definition sa_host_key :: "SocketAddress \<Rightarrow> string" where
  "sa_host_key a = (if IPIsAny (ip a) \<or> IPIsUnspec (ip a) then hostname a else [])"

lemma wf_constants [simp]:
  "ip_wf (ip_of_v6 in6addr_any)" "ip_wf (ip_of_v6 kV4MappedPrefix)" "ip_wf (ip_of_host_order n)" "ip_wf ip_unspec"
  by (simp_all add: ip_wf_def ip_of_v6_def in6addr_any_def kV4MappedPrefix_def ip_of_host_order_def
      memcpy_def ip_unspec_def)

lemma any_key:
  assumes "ip_wf i"
  shows "IPIsAny i \<or> IPIsUnspec i \<longleftrightarrow> ip_key i \<in> {ip_key ip_unspec, ip_key (ip_of_host_order INADDR_ANY),
    ip_key (ip_of_v6 in6addr_any), ip_key (ip_of_v6 kV4MappedPrefix)}"
proof -
  have f: "family (ip_of_host_order INADDR_ANY) = AF_INET" "family (ip_of_v6 b) = AF_INET6"
    "family ip_unspec = AF_UNSPEC" for b
    by (simp_all add: ip_of_host_order_def ip_of_v6_def ip_unspec_def)
  show ?thesis
  proof (cases "family i")
    case AF_UNSPEC
    then show ?thesis
      by (simp add: IPIsUnspec_def f)
  next
    case AF_INET
    then have "IPIsAny i \<longleftrightarrow> ip_key i = ip_key (ip_of_host_order INADDR_ANY)" "\<not> IPIsUnspec i"
      using ip_eq_key [OF assms, of "ip_of_host_order INADDR_ANY"]
      by (simp_all add: IPIsAny_def IPIsUnspec_def del: ip_key.simps)
    then show ?thesis
      using AF_INET by (auto simp: f)
  next
    case AF_INET6
    then have "IPIsAny i \<longleftrightarrow> ip_key i = ip_key (ip_of_v6 in6addr_any) \<or> ip_key i = ip_key (ip_of_v6 kV4MappedPrefix)"
      "\<not> IPIsUnspec i"
      using ip_eq_key [OF assms, of "ip_of_v6 in6addr_any"] ip_eq_key [OF assms, of "ip_of_v6 kV4MappedPrefix"]
      by (simp_all add: IPIsAny_def IPIsUnspec_def del: ip_key.simps)
    then show ?thesis
      using AF_INET6 by (auto simp: f)
  qed
qed

lemma same_ip_same_any:
  "ip_wf i \<Longrightarrow> ip_wf j \<Longrightarrow> ip_eq i j \<Longrightarrow> (IPIsAny i \<or> IPIsUnspec i) = (IPIsAny j \<or> IPIsUnspec j)"
  by (simp only: any_key ip_eq_key)

text \<open>C19: Socket addresses are totally ordered: for well-formed addresses \<open>operator<\<close> is irreflexive and
  transitive, and two addresses are equal by \<open>operator==\<close> exactly when neither is less, so that the two
  operators, which each treat wildcard addresses with host names specially, agree.\<close>
theorem socket_address_order:
  assumes "sa_wf a" "sa_wf b" "sa_wf c"
  shows "\<not> sa_less a a \<and> (sa_less a b \<and> sa_less b c \<longrightarrow> sa_less a c) \<and>
    (sa_eq a b \<longleftrightarrow> \<not> sa_less a b \<and> \<not> sa_less b a)"
proof -
  note wf = assms [unfolded sa_wf_def]
  have eq: "ip_eq i j \<longleftrightarrow> ip_key i = ip_key j" if "ip_wf i" "ip_wf j" for i j
    using that by (rule ip_eq_key)
  have less: "sa_less x y \<longleftrightarrow> ip_less (ip x) (ip y) \<or> ip_key (ip x) = ip_key (ip y) \<and>
      (string_less (sa_host_key x) (sa_host_key y) \<or> sa_host_key x = sa_host_key y \<and> port x < port y)"
    if "ip_wf (ip x)" "ip_wf (ip y)" for x y
    using that same_ip_same_any [of "ip x" "ip y"] string_less_irrefl ip_less_key [OF that]
    by (auto simp: sa_less_def eq sa_host_key_def simp del: ip_key.simps)
  have eqs: "sa_eq x y \<longleftrightarrow> ip_key (ip x) = ip_key (ip y) \<and> sa_host_key x = sa_host_key y \<and> port x = port y"
    if "ip_wf (ip x)" "ip_wf (ip y)" for x y
    using that same_ip_same_any [of "ip x" "ip y"]
    by (auto simp: sa_eq_def EqualIPs_def EqualPorts_def eq sa_host_key_def simp del: ip_key.simps)
  have il: "\<not> ip_less x x" "ip_less x y \<Longrightarrow> ip_less y z \<Longrightarrow> ip_less x z"
    "ip_key x = ip_key y \<or> ip_less x y \<or> ip_less y x" "ip_less x y \<Longrightarrow> \<not> ip_less y x"
    "ip_key x = ip_key y \<Longrightarrow> ip_less x z = ip_less y z" "ip_key x = ip_key y \<Longrightarrow> ip_less z x = ip_less z y"
    if "ip_wf x" "ip_wf y" "ip_wf z" for x y z
    using that by (auto simp: ip_less_key prod_eq_iff simp del: ip_key.simps)
  have 1: "\<not> sa_less a a"
    using less [OF wf(1,1)] string_less_irrefl il(1) [OF wf(1,1,1)] by (simp del: ip_key.simps)
  have 2: "sa_less a b \<and> sa_less b c \<longrightarrow> sa_less a c"
  proof (intro impI, elim conjE)
    assume l: "sa_less a b" "sa_less b c"
    show "sa_less a c"
    proof (cases "ip_key (ip a) = ip_key (ip b) \<and> ip_key (ip b) = ip_key (ip c)")
      case True
      then have n: "\<not> ip_less (ip a) (ip b)" "\<not> ip_less (ip b) (ip c)"
        using wf il(1) il(6) [of "ip a" "ip b" "ip a"] il(6) [of "ip b" "ip c" "ip b"] by simp_all
      have "string_less (sa_host_key a) (sa_host_key b) \<or> sa_host_key a = sa_host_key b \<and> port a < port b"
        "string_less (sa_host_key b) (sa_host_key c) \<or> sa_host_key b = sa_host_key c \<and> port b < port c"
        using l n less [OF wf(1,2)] less [OF wf(2,3)] by simp_all
      then have "string_less (sa_host_key a) (sa_host_key c) \<or> sa_host_key a = sa_host_key c \<and> port a < port c"
        using string_less_trans [of "sa_host_key a" "sa_host_key b" "sa_host_key c"] by auto
      then show ?thesis
        using True less [OF wf(1,3)] by simp
    next
      case False
      then have "ip_less (ip a) (ip c)"
        using l less [OF wf(1,2)] less [OF wf(2,3)] il(2) [OF wf(1,2,3)] il(5) [OF wf(1,2,3)] il(6) [OF wf(2,3,1)]
        by metis
      then show ?thesis
        using less [OF wf(1,3)] by simp
    qed
  qed
  have 3: "sa_eq a b \<longleftrightarrow> \<not> sa_less a b \<and> \<not> sa_less b a"
  proof (cases "ip_key (ip a) = ip_key (ip b)")
    case True
    then have "\<not> ip_less (ip a) (ip b)" "\<not> ip_less (ip b) (ip a)"
      using wf il(1) il(6) [of "ip a" "ip b" "ip a"] il(6) [of "ip a" "ip b" "ip b"] by simp_all
    then show ?thesis
      using True less [OF wf(1,2)] less [OF wf(2,1)] eqs [OF wf(1,2)] string_less_irrefl
        string_less_total [of "sa_host_key a" "sa_host_key b"]
        string_less_trans [of "sa_host_key a" "sa_host_key b" "sa_host_key a"]
      by (metis linorder_less_linear order_less_asym)
  next
    case False
    then show ?thesis
      using il(3) [OF wf(1,2,1)] less [OF wf(1,2)] less [OF wf(2,1)] eqs [OF wf(1,2)]
      by metis
  qed
  show ?thesis
    using 1 2 3 by blast
qed

theorem socket_address_order_witness:
  "\<not> sa_eq sa_Clear (sa_Clear\<lparr>hostname := ''h''\<rparr>) \<and>
   (sa_less sa_Clear (sa_Clear\<lparr>hostname := ''h''\<rparr>) \<or> sa_less (sa_Clear\<lparr>hostname := ''h''\<rparr>) sa_Clear)"
proof -
  have "sa_wf sa_Clear" "sa_wf (sa_Clear\<lparr>hostname := ''h''\<rparr>)" "\<not> sa_eq sa_Clear (sa_Clear\<lparr>hostname := ''h''\<rparr>)"
    by (simp_all add: sa_wf_def sa_Clear_def sa_eq_def EqualIPs_def IPIsUnspec_def ip_unspec_def ip_wf_def)
  then show ?thesis
    using socket_address_order [of sa_Clear "sa_Clear\<lparr>hostname := ''h''\<rparr>" sa_Clear] by blast
qed

section \<open>Through the structures of the system\<close>

lemma SetPort_Some:
  assumes "0 \<le> p" "p < 2 ^ 16"
  shows "SetPort p a = Some (a\<lparr>port := word_of_int p\<rparr>)"
  using assms RangeCheck_spec [of uint16_t int32_t p]
  by (simp add: SetPort_def dchecked_cast_def IsValueInRangeForNumericType_def std_type_def ty_lowest_def
      ty_max_def checked_simps)

lemma SetPort_None:
  assumes "in_type int32_t p" "p < 0 \<or> 2 ^ 16 \<le> p"
  shows "SetPort p a = None"
  using assms RangeCheck_spec [of uint16_t int32_t p]
  by (auto simp: SetPort_def dchecked_cast_def IsValueInRangeForNumericType_def std_type_def ty_lowest_def
      ty_max_def checked_simps)

lemma SetPort_word: "SetPort (uint (p :: 16 word)) a = Some (a\<lparr>port := p\<rparr>)"
  using SetPort_Some [of "uint p" a] uint_lt2p [of p] by simp

text \<open>Through \<open>sockaddr_storage\<close> and back: an address with a family comes back with its IP address, port
  and, for version 6, its scope, and with no host name; through the dual-stack form a version 4 address
  comes back mapped, and normalises to itself; an address without a family is refused.\<close>
theorem sockaddr_storage_roundtrip:
  assumes "family (ip a) = AF_INET \<Longrightarrow> ip a = ip_of_v4 v4 \<and> length v4 = 4"
  shows "(family (ip a) = AF_UNSPEC \<longrightarrow> ToSockAddrStorage a = (0, Storage_unspec)) \<and>
    (family (ip a) \<noteq> AF_UNSPEC \<longrightarrow>
      SocketAddressFromSockAddrStorage (snd (ToSockAddrStorage a)) out = Some (True, a\<lparr>hostname := [], literal := False,
        scope_id := (if family (ip a) = AF_INET6 then scope_id a else 0)\<rparr>)) \<and>
    (family (ip a) = AF_INET \<longrightarrow>
      (\<exists>d. SocketAddressFromSockAddrStorage (snd (ToDualStackSockAddrStorage a)) out = Some (True, d) \<and>
        family (ip d) = AF_INET6 \<and> Normalized (ip d) = ip a \<and> port d = port a))"
proof (cases "family (ip a)")
  case AF_UNSPEC
  then show ?thesis
    by (simp add: ToSockAddrStorage_def ToSockAddrStorageHelper_def)
next
  case AF_INET
  then have v4: "ip a = ip_of_v4 v4" "length v4 = 4"
    using assms by simp_all
  have "ipv4_address (ip a) = v4"
    using v4 by (simp add: ip_of_v4_def ipv4_address_def memcpy_def)
  then have 1: "SocketAddressFromSockAddrStorage (snd (ToSockAddrStorage a)) out =
      Some (True, a\<lparr>hostname := [], literal := False, scope_id := 0\<rparr>)"
    using AF_INET v4(1)
    by (simp add: ToSockAddrStorage_def ToSockAddrStorageHelper_def socket_address_def SetPort_word SetIP_def sa_Clear_def)
  have m: "family (AsIPv6Address (ip a)) = AF_INET6"
    using AF_INET by (simp add: AsIPv6Address_def ip_of_v6_def)
  then have 2: "AsIPv6Address (ip a) = ip_of_v6 (ipv6_address (AsIPv6Address (ip a)))"
    by (simp add: ip_of_v6_def ipv6_address_def)
  have "SocketAddressFromSockAddrStorage (snd (ToDualStackSockAddrStorage a)) out =
      Some (True, a\<lparr>hostname := [], literal := False, ip := AsIPv6Address (ip a)\<rparr>)"
    using m 2
    by (simp add: ToDualStackSockAddrStorage_def ToSockAddrStorageHelper_def socket_address_def SetPort_word
        SetIP_def sa_Clear_def SetScopeID_def)
  moreover have "Normalized (AsIPv6Address (ip a)) = ip a"
    unfolding v4(1) using mapped_addresses_normalize_aux [OF v4(2)] by blast
  ultimately show ?thesis
    using AF_INET 1 m by auto
next
  case AF_INET6
  then have "ip a = ip_of_v6 (ipv6_address (ip a))"
    by (simp add: ip_of_v6_def ipv6_address_def)
  then show ?thesis
    using AF_INET6
    by (simp add: ToSockAddrStorage_def ToSockAddrStorageHelper_def socket_address_def SetPort_word
        SetIP_def sa_Clear_def SetScopeID_def)
qed

theorem sockaddr_storage_roundtrip_witness:
  "SocketAddressFromSockAddrStorage (snd (ToSockAddrStorage (sa_Clear\<lparr>ip := ip_of_v6 in6addr_loopback, port := 80, scope_id := 3\<rparr>)))
     sa_Clear = Some (True, sa_Clear\<lparr>ip := ip_of_v6 in6addr_loopback, port := 80, scope_id := 3\<rparr>)"
  using sockaddr_storage_roundtrip [of "sa_Clear\<lparr>ip := ip_of_v6 in6addr_loopback, port := 80, scope_id := 3\<rparr>" "[]" sa_Clear]
  by (simp add: ip_of_v6_def sa_Clear_def)

section \<open>Through text\<close>

lemma int_string_word:
  "int_string (uint (p :: 16 word)) = nat_string (unat p)" "length (nat_string (unat p)) \<le> 5"
  using nat_string_length [of "unat p" 5] unsigned_less [of p, where 'a = nat] by (simp_all add: int_string_def)

lemma no_nul_digits: "char_nul \<notin> set (nat_string n)"
proof -
  have "\<not> is_digit char_nul"
    by (simp add: is_digit_def char_nul_def)
  then show ?thesis
    using nat_string_digits by blast
qed

lemma host_and_port_text:
  assumes "length host \<le> 1000" "char_nul \<notin> set host"
  shows "host_and_port host p = Some (host @ '':'' @ nat_string (unat p))"
proof -
  let ?b = "\<lparr>buffer = (replicate 1024 char_nul)[0 := char_nul], sb_size = 0\<rparr>"
  have 0: "sb_holds 1024 [] ?b"
    by (simp add: sb_holds_def)
  then have new: "SimpleStringBuilder (replicate 1024 char_nul) = Some ?b"
    using sb_holds_consistent [OF 0] by (simp add: SimpleStringBuilder_def checked_simps)
  obtain b1 where b1: "sb_append True host ?b = Some b1" "sb_holds 1024 host b1"
    using sb_append_holds [OF 0, of True host] assms(1) by auto
  obtain b2 where b2: "sb_append True '':'' b1 = Some b2" "sb_holds 1024 (host @ '':'') b2"
    using sb_append_holds [OF b1(2), of True "'':''"] assms(1) by auto
  obtain b3 where b3: "sb_AppendFormat True (nat_string (unat p)) b2 = Some b3"
    "sb_holds 1024 ((host @ '':'') @ nat_string (unat p)) b3"
    using sb_AppendFormat_holds [OF b2(2), of "nat_string (unat p)"] int_string_word(2) [of p] assms(1) by auto
  have "char_nul \<notin> set ((host @ '':'') @ nat_string (unat p))"
    using assms(2) no_nul_digits by (simp add: char_nul_def)
  then show ?thesis
    using sb_holds_str [OF b3(2)] new b1(1) b2(1) b3(1)
    by (simp add: host_and_port_def sb_append_int_def int_string_word)
qed

lemma strtoul_port: "strtoul_10 (nat_string (unat (p :: 16 word))) = uint p"
proof -
  obtain c cs where c: "nat_string (unat p) = c # cs" "is_digit c"
    by (rule nat_string_Cons)
  have "\<not> is_space c" "c \<noteq> CHR ''-''" "c \<noteq> CHR ''+''"
    using c(2) by (auto simp: is_space_def is_digit_def)
  then have sub: "scan_sign (dropWhile is_space (nat_string (unat p))) = (False, [], nat_string (unat p))"
    by (simp add: c(1))
  have all: "takeWhile is_digit (nat_string (unat p)) = nat_string (unat p)"
    using string_nat_digits(1) [of "unat p" "[]"] by simp
  have "unat p < 2 ^ 64"
    using unsigned_less [of p, where 'a = nat] by simp
  then show ?thesis
    by (simp add: strtoul_10_def sub all Let_def)
qed

lemma convert_port: "convert int32_t (uint (p :: 16 word)) = uint p"
proof (rule convert_id)
  have "- 2147483648 \<le> uint p"
    by (rule order_trans [of _ 0]) simp_all
  then show "in_type int32_t (uint p)"
    using uint_lt2p [of p] by (simp add: in_type_def ty_lowest_def ty_max_def)
qed simp

lemma find_from_append: "c \<notin> set s \<Longrightarrow> find_from c (s @ t) i = find_from c t (i + length s)"
  by (induction s arbitrary: i) auto

lemma rfind_none: "c \<notin> set s \<Longrightarrow> rfind c s = None"
  by (induction s) auto

lemma rfind_append: "c \<notin> set t \<Longrightarrow> rfind c (s @ c # t) = Some (length s)"
  by (induction s) (auto simp: rfind_none)

lemma FromString_plain:
  assumes "s \<noteq> []" "set s \<inter> {CHR ''['', CHR '':''} = {}"
  shows "sa_FromString pton (s @ '':'' @ nat_string (unat p)) a = Some (True, SetIP_hostname pton s (a\<lparr>port := p\<rparr>))"
proof -
  have f: "find_from (CHR '':'') (s @ '':'' @ nat_string (unat p)) 0 = Some (length s)"
    using assms(2) find_from_append [of "CHR '':''" s] by auto
  have "(s @ '':'' @ nat_string (unat p)) ! 0 \<noteq> CHR ''[''"
    using assms by (cases s) auto
  then show ?thesis
    using f by (simp add: sa_FromString_def strtoul_port convert_port SetPort_word)
qed

lemma FromString_brackets:
  assumes "CHR '']'' \<notin> set s"
  shows "sa_FromString pton (''['' @ s @ '']:'' @ nat_string (unat p)) a = Some (True, SetIP_hostname pton s (a\<lparr>port := p\<rparr>))"
proof -
  have "\<not> is_digit (CHR '']'')"
    by (simp add: is_digit_def)
  then have "CHR '']'' \<notin> set ('':'' @ nat_string (unat p))"
    using nat_string_digits by auto
  then have r: "rfind (CHR '']'') (''['' @ s @ '']:'' @ nat_string (unat p)) = Some (Suc (length s))"
    using rfind_append [of "CHR '']''" "'':'' @ nat_string (unat p)" "''['' @ s"] by simp
  then show ?thesis
    by (simp add: sa_FromString_def strtoul_port convert_port SetPort_word)
qed

context address_text begin

lemma socket_address_text_both:
  assumes "ip a = ip_of_v4 b \<and> length b = 4 \<or> ip a = ip_of_v6 b \<and> length b = 16" "literal a \<or> hostname a = []"
  shows "\<exists>text. sa_ToString ntop a = Some text \<and> sa_FromString pton text old =
    Some (True, \<lparr>hostname = IP_ToString ntop (ip a), ip = ip a, port = port a, scope_id = 0, literal = True\<rparr>)"
proof -
  have host: "HostAsURIString ntop a = (if family (ip a) = AF_INET6 then ''['' @ IP_ToString ntop (ip a) @ '']''
      else IP_ToString ntop (ip a))"
    using assms(2) by (auto simp: HostAsURIString_def)
  show ?thesis
    using assms(1)
  proof
    assume v: "ip a = ip_of_v4 b \<and> length b = 4"
    then have i: "family (ip a) = AF_INET" "ipv4_address (ip a) = b"
      by (simp_all add: ipv4_address_def ip_of_v4_def memcpy_def)
    obtain s where s: "ntop AF_INET b = Some s" "pton AF_INET s = Some b" "s \<noteq> []"
      "set s \<inter> {CHR ''['', CHR '':'', CHR 0x00} = {}" "length s \<le> 45"
      using v4_text v by blast
    have ts: "IP_ToString ntop (ip a) = s"
      using s(1) i by (simp add: IP_ToString_def)
    have "sa_ToString ntop a = Some (s @ '':'' @ nat_string (unat (port a)))"
      using host_and_port_text [of s] s(4,5) i by (simp add: sa_ToString_def host ts char_nul_def)
    moreover have "sa_FromString pton (s @ '':'' @ nat_string (unat (port a))) old =
        Some (True, \<lparr>hostname = s, ip = ip a, port = port a, scope_id = 0, literal = True\<rparr>)"
      using FromString_plain [of s pton "port a" old] s v by (simp add: SetIP_hostname_def IPFromString_def)
    ultimately show ?thesis
      using ts by blast
  next
    assume v: "ip a = ip_of_v6 b \<and> length b = 16"
    then have i: "family (ip a) = AF_INET6" "ipv6_address (ip a) = b"
      by (simp_all add: ipv6_address_def ip_of_v6_def)
    obtain s where s: "ntop AF_INET6 b = Some s" "pton AF_INET6 s = Some b" "pton AF_INET s = None"
      "set s \<inter> {CHR '']'', CHR 0x00} = {}" "length s \<le> 45"
      using v6_text v by blast
    have ts: "IP_ToString ntop (ip a) = s"
      using s(1) i by (simp add: IP_ToString_def)
    have "sa_ToString ntop a = Some (''['' @ s @ '']:'' @ nat_string (unat (port a)))"
      using host_and_port_text [of "''['' @ s @ '']''"] s(4,5) i by (simp add: sa_ToString_def host ts char_nul_def)
    moreover have "sa_FromString pton (''['' @ s @ '']:'' @ nat_string (unat (port a))) old =
        Some (True, \<lparr>hostname = s, ip = ip a, port = port a, scope_id = 0, literal = True\<rparr>)"
      using FromString_brackets [of s pton "port a" old] s v by (simp add: SetIP_hostname_def IPFromString_def)
    ultimately show ?thesis
      using ts by blast
  qed
qed

end

text \<open>The text of a socket address with an IP address reads back to that address and port, with brackets
  around version 6, whatever the target held before: an address printed on one host arrives on another.
  The result carries the text of the IP address as its literal host name and no scope.\<close>
theorem socket_address_text_roundtrip:
  assumes "ip a = ip_of_v4 b \<and> length b = 4 \<or> ip a = ip_of_v6 b \<and> length b = 16" "literal a \<or> hostname a = []"
  shows "\<exists>text. sa_ToString win32_inet_ntop a = Some text \<and> sa_FromString win32_inet_pton text old =
    Some (True, \<lparr>hostname = IP_ToString win32_inet_ntop (ip a), ip = ip a, port = port a, scope_id = 0, literal = True\<rparr>)"
  by (rule win32.socket_address_text_both [OF assms])

theorem socket_address_text_roundtrip_witness:
  "\<exists>text. sa_ToString win32_inet_ntop (sa_Clear\<lparr>ip := ip_of_v6 in6addr_loopback, port := 443, scope_id := 7\<rparr>) = Some text \<and>
    sa_FromString win32_inet_pton text sa_Clear = Some (True, \<lparr>hostname = IP_ToString win32_inet_ntop (ip_of_v6 in6addr_loopback),
      ip = ip_of_v6 in6addr_loopback, port = 443, scope_id = 0, literal = True\<rparr>)"
  using socket_address_text_roundtrip [of "sa_Clear\<lparr>ip := ip_of_v6 in6addr_loopback, port := 443, scope_id := 7\<rparr>"
      in6addr_loopback sa_Clear]
  by (simp add: in6addr_loopback_def sa_Clear_def)

lemma open_bracket_accepted: "sa_FromString pton ''[::1'' a = Some (True, a)"
  by (simp add: sa_FromString_def)

end
