(* ===== verification/Physical_Socket.thy ===== *)
theory Physical_Socket
  imports Socket_Address
begin

text \<open>
  \<open>rtc_base/physical_socket_server.cc\<close>, the sockets (\<open>PhysicalSocket\<close>, \<open>SocketDispatcher\<close>) and the
  registry of dispatchers of \<open>PhysicalSocketServer\<close> on Linux, with \<open>epoll\<close> or (without an epoll
  descriptor) \<open>select\<close>.  Objects are named by natural numbers, which stand for their addresses.  The
  results of the system calls of an operation are its arguments; \<open>epoll_ctl\<close>, whose effect later calls
  see, is a function over a state \<open>'k\<close> of the kernel, documented by \<open>epoll_documented\<close>.  The handlers
  connected to the signals of the sockets are a function over the whole state, in which \<open>client\<close> is the
  state of the program that uses the sockets.
\<close>

unbundle bit_operations_syntax

section \<open>Events\<close>

definition DE_READ :: "'w::len word" where "DE_READ = 1"
definition DE_WRITE :: "'w::len word" where "DE_WRITE = 2"
definition DE_CONNECT :: "'w::len word" where "DE_CONNECT = 4"
definition DE_CLOSE :: "'w::len word" where "DE_CLOSE = 8"
definition DE_ACCEPT :: "'w::len word" where "DE_ACCEPT = 16"

lemmas DE_defs = DE_READ_def DE_WRITE_def DE_CONNECT_def DE_CLOSE_def DE_ACCEPT_def

definition has_events :: "'w::len word \<Rightarrow> 'w word \<Rightarrow> bool" where
  "has_events ff events \<longleftrightarrow> ff AND events \<noteq> 0"

definition EPOLLIN :: "32 word" where "EPOLLIN = 1"
definition EPOLLPRI :: "32 word" where "EPOLLPRI = 2"
definition EPOLLOUT :: "32 word" where "EPOLLOUT = 4"
definition EPOLLERR :: "32 word" where "EPOLLERR = 8"
definition EPOLLHUP :: "32 word" where "EPOLLHUP = 16"
definition EPOLLRDHUP :: "32 word" where "EPOLLRDHUP = 0x2000"

definition GetEpollEvents :: "32 word \<Rightarrow> 32 word" where
  "GetEpollEvents ff =
     (if has_events ff (DE_READ OR DE_ACCEPT) then EPOLLIN else 0) OR
     (if has_events ff (DE_WRITE OR DE_CONNECT) then EPOLLOUT else 0)"

section \<open>Errors\<close>

definition EINTR :: int where "EINTR = 4"
definition EBADF :: int where "EBADF = 9"
definition ENOENT :: int where "ENOENT = 2"
definition EEXIST :: int where "EEXIST = 17"
definition EPIPE :: int where "EPIPE = 32"
definition EWOULDBLOCK :: int where "EWOULDBLOCK = 11"
definition EAGAIN :: int where "EAGAIN = 11"
definition ENOTSOCK :: int where "ENOTSOCK = 88"
definition ECONNABORTED :: int where "ECONNABORTED = 103"
definition ECONNRESET :: int where "ECONNRESET = 104"
definition EALREADY :: int where "EALREADY = 114"
definition EINPROGRESS :: int where "EINPROGRESS = 115"

lemmas errno_defs = EINTR_def EBADF_def ENOENT_def EEXIST_def EPIPE_def EWOULDBLOCK_def EAGAIN_def
  ENOTSOCK_def ECONNABORTED_def ECONNRESET_def EALREADY_def EINPROGRESS_def

definition INVALID_SOCKET :: int where "INVALID_SOCKET = - 1"
definition SOCKET_ERROR :: int where "SOCKET_ERROR = - 1"

definition IsBlockingError :: "int \<Rightarrow> bool" where
  "IsBlockingError e \<longleftrightarrow> e = EWOULDBLOCK \<or> e = EAGAIN \<or> e = EINPROGRESS"

section \<open>State\<close>

datatype ConnState = CS_CLOSED | CS_CONNECTING | CS_CONNECTED

datatype sock_type = SOCK_STREAM | SOCK_DGRAM

record phys_socket =
  sock :: int
  udp :: bool
  sock_family :: ip_family
  sock_error :: int
  conn_state :: ConnState
  resolver :: "nat option"
  enabled_events :: "8 word"
  saved_enabled_events :: int

definition new_socket :: phys_socket where
  "new_socket = \<lparr>sock = INVALID_SOCKET, udp = False, sock_family = AF_UNSPEC, sock_error = 0,
     conn_state = CS_CLOSED, resolver = None, enabled_events = 0, saved_enabled_events = - 1\<rparr>"

text \<open>The dispatchers of a server: its signaler and the sockets.\<close>

datatype dispatcher = Wakeup | Sock nat

text \<open>The signaler: the bytes in its pipe and its flag.\<close>

record signaler =
  pipe_bytes :: nat
  fSignaled :: bool

record ('k, 'c) pss =
  sockets :: "nat \<Rightarrow> phys_socket"
  next_dispatcher_key :: "64 word"
  dispatcher_by_key :: "64 word \<Rightarrow> dispatcher option"
  key_by_dispatcher :: "dispatcher \<Rightarrow> 64 word option"
  epoll_fd :: int
  wakeup_fd :: int
  kernel :: 'k
  signaler :: signaler
  fWait :: bool
  is_waiting :: bool
  client :: 'c

definition upd_sock :: "nat \<Rightarrow> (phys_socket \<Rightarrow> phys_socket) \<Rightarrow> ('k, 'c) pss \<Rightarrow> ('k, 'c) pss" where
  "upd_sock i f st = st\<lparr>sockets := (sockets st)(i := f (sockets st i))\<rparr>"

definition GetDescriptor :: "('k, 'c) pss \<Rightarrow> dispatcher \<Rightarrow> int" where
  "GetDescriptor st d = (case d of Wakeup \<Rightarrow> wakeup_fd st | Sock i \<Rightarrow> sock (sockets st i))"

definition GetRequestedEvents :: "('k, 'c) pss \<Rightarrow> dispatcher \<Rightarrow> 32 word" where
  "GetRequestedEvents st d = (case d of Wakeup \<Rightarrow> DE_READ | Sock i \<Rightarrow> ucast (enabled_events (sockets st i)))"

section \<open>The registry of dispatchers\<close>

datatype epoll_op = EPOLL_CTL_ADD | EPOLL_CTL_MOD | EPOLL_CTL_DEL

text \<open>\<open>epoll_ctl\<close> with the descriptor, the events and the key: 0 or the error number, and the new kernel state.\<close>

type_synonym 'k epoll_ctl = "epoll_op \<Rightarrow> int \<Rightarrow> 32 word \<Rightarrow> 64 word \<Rightarrow> 'k \<Rightarrow> int \<times> 'k"

definition AddEpoll :: "'k epoll_ctl \<Rightarrow> dispatcher \<Rightarrow> 64 word \<Rightarrow> ('k, 'c) pss \<Rightarrow> ('k, 'c) pss checked" where
  "AddEpoll ctl d key st = do {
     rtc_check (epoll_fd st \<noteq> INVALID_SOCKET);
     let fd = GetDescriptor st d;
     rtc_check (fd \<noteq> INVALID_SOCKET);
     let events = GetEpollEvents (GetRequestedEvents st d);
     if events = 0 then Some st
     else do {
       let (err, k) = ctl EPOLL_CTL_ADD fd events key (kernel st);
       rtc_check (err = 0);
       Some (st\<lparr>kernel := k\<rparr>)
     }
   }"

definition RemoveEpoll :: "'k epoll_ctl \<Rightarrow> dispatcher \<Rightarrow> ('k, 'c) pss \<Rightarrow> ('k, 'c) pss checked" where
  "RemoveEpoll ctl d st = do {
     rtc_check (epoll_fd st \<noteq> INVALID_SOCKET);
     let fd = GetDescriptor st d;
     rtc_check (fd \<noteq> INVALID_SOCKET);
     let (err, k) = ctl EPOLL_CTL_DEL fd 0 0 (kernel st);
     rtc_check (err = 0 \<or> err = ENOENT);
     Some (st\<lparr>kernel := k\<rparr>)
   }"

definition UpdateEpoll :: "'k epoll_ctl \<Rightarrow> dispatcher \<Rightarrow> 64 word \<Rightarrow> ('k, 'c) pss \<Rightarrow> ('k, 'c) pss checked" where
  "UpdateEpoll ctl d key st = do {
     rtc_check (epoll_fd st \<noteq> INVALID_SOCKET);
     let fd = GetDescriptor st d;
     rtc_check (fd \<noteq> INVALID_SOCKET);
     let events = GetEpollEvents (GetRequestedEvents st d);
     if events = 0 then Some (st\<lparr>kernel := snd (ctl EPOLL_CTL_DEL fd events key (kernel st))\<rparr>)
     else do {
       let (err, k) = ctl EPOLL_CTL_MOD fd events key (kernel st);
       rtc_check (err = 0 \<or> err = ENOENT);
       Some (st\<lparr>kernel := (if err = ENOENT then snd (ctl EPOLL_CTL_ADD fd events key k) else k)\<rparr>)
     }
   }"

text \<open>\<open>emplace\<close> leaves an entry that is there unchanged.\<close>

definition emplace :: "'a \<Rightarrow> 'b \<Rightarrow> ('a \<Rightarrow> 'b option) \<Rightarrow> 'a \<Rightarrow> 'b option" where
  "emplace k v m = (if m k = None then m(k := Some v) else m)"

definition pss_Add :: "'k epoll_ctl \<Rightarrow> dispatcher \<Rightarrow> ('k, 'c) pss \<Rightarrow> ('k, 'c) pss checked" where
  "pss_Add ctl d st =
     (if key_by_dispatcher st d \<noteq> None then Some st
      else let key = next_dispatcher_key st;
               st = st\<lparr>next_dispatcher_key := key + 1,
                       dispatcher_by_key := emplace key d (dispatcher_by_key st),
                       key_by_dispatcher := emplace d key (key_by_dispatcher st)\<rparr>
           in if epoll_fd st \<noteq> INVALID_SOCKET then AddEpoll ctl d key st else Some st)"

definition pss_Remove :: "'k epoll_ctl \<Rightarrow> dispatcher \<Rightarrow> ('k, 'c) pss \<Rightarrow> ('k, 'c) pss checked" where
  "pss_Remove ctl d st =
     (case key_by_dispatcher st d of
        None \<Rightarrow> Some st
      | Some key \<Rightarrow>
          (let st = st\<lparr>key_by_dispatcher := (key_by_dispatcher st)(d := None),
                       dispatcher_by_key := (dispatcher_by_key st)(key := None)\<rparr>
           in if epoll_fd st \<noteq> INVALID_SOCKET then RemoveEpoll ctl d st else Some st))"

definition pss_Update :: "'k epoll_ctl \<Rightarrow> dispatcher \<Rightarrow> ('k, 'c) pss \<Rightarrow> ('k, 'c) pss checked" where
  "pss_Update ctl d st =
     (if epoll_fd st = INVALID_SOCKET then Some st
      else case key_by_dispatcher st d of
        None \<Rightarrow> Some st
      | Some key \<Rightarrow> UpdateEpoll ctl d key st)"

section \<open>Enabled events and batches\<close>

definition StartBatchedEventUpdates :: "nat \<Rightarrow> ('k, 'c) pss \<Rightarrow> ('k, 'c) pss checked" where
  "StartBatchedEventUpdates i st = do {
     rtc_check (saved_enabled_events (sockets st i) = - 1);
     Some (upd_sock i (\<lambda>p. p\<lparr>saved_enabled_events := uint (enabled_events p)\<rparr>) st)
   }"

definition MaybeUpdateDispatcher :: "'k epoll_ctl \<Rightarrow> nat \<Rightarrow> 8 word \<Rightarrow> ('k, 'c) pss \<Rightarrow> ('k, 'c) pss checked" where
  "MaybeUpdateDispatcher ctl i old_events st =
     (if GetEpollEvents (ucast (enabled_events (sockets st i))) \<noteq> GetEpollEvents (ucast old_events)
         \<and> saved_enabled_events (sockets st i) = - 1
      then pss_Update ctl (Sock i) st else Some st)"

definition FinishBatchedEventUpdates :: "'k epoll_ctl \<Rightarrow> nat \<Rightarrow> ('k, 'c) pss \<Rightarrow> ('k, 'c) pss checked" where
  "FinishBatchedEventUpdates ctl i st = do {
     rtc_check (saved_enabled_events (sockets st i) \<noteq> - 1);
     let old_events = word_of_int (saved_enabled_events (sockets st i));
     MaybeUpdateDispatcher ctl i old_events (upd_sock i (\<lambda>p. p\<lparr>saved_enabled_events := - 1\<rparr>) st)
   }"

definition SetEnabledEvents :: "'k epoll_ctl \<Rightarrow> 8 word \<Rightarrow> nat \<Rightarrow> ('k, 'c) pss \<Rightarrow> ('k, 'c) pss checked" where
  "SetEnabledEvents ctl events i st =
     (let old_events = enabled_events (sockets st i)
      in MaybeUpdateDispatcher ctl i old_events (upd_sock i (\<lambda>p. p\<lparr>enabled_events := events\<rparr>) st))"

definition EnableEvents :: "'k epoll_ctl \<Rightarrow> 8 word \<Rightarrow> nat \<Rightarrow> ('k, 'c) pss \<Rightarrow> ('k, 'c) pss checked" where
  "EnableEvents ctl events i st =
     (let old_events = enabled_events (sockets st i)
      in MaybeUpdateDispatcher ctl i old_events (upd_sock i (\<lambda>p. p\<lparr>enabled_events := enabled_events p OR events\<rparr>) st))"

definition DisableEvents :: "'k epoll_ctl \<Rightarrow> 8 word \<Rightarrow> nat \<Rightarrow> ('k, 'c) pss \<Rightarrow> ('k, 'c) pss checked" where
  "DisableEvents ctl events i st =
     (let old_events = enabled_events (sockets st i)
      in MaybeUpdateDispatcher ctl i old_events
           (upd_sock i (\<lambda>p. p\<lparr>enabled_events := enabled_events p AND NOT events\<rparr>) st))"

section \<open>Creating and closing\<close>

definition SetError :: "int \<Rightarrow> nat \<Rightarrow> ('k, 'c) pss \<Rightarrow> ('k, 'c) pss" where
  "SetError e i st = upd_sock i (\<lambda>p. p\<lparr>sock_error := e\<rparr>) st"

text \<open>The answer of a system call: its result and \<open>errno\<close> afterwards.\<close>

type_synonym answer = "int \<times> int"

definition PhysicalSocket_Close :: "'k epoll_ctl \<Rightarrow> answer \<Rightarrow> nat \<Rightarrow> ('k, 'c) pss \<Rightarrow> (int \<times> ('k, 'c) pss) checked" where
  "PhysicalSocket_Close ctl closed i st =
     (if sock (sockets st i) = INVALID_SOCKET then Some (0, st)
      else do {
        let (err, errno) = closed;
        let st = SetError errno i st;
        st \<leftarrow> SetEnabledEvents ctl 0 i (upd_sock i (\<lambda>p. p\<lparr>sock := INVALID_SOCKET, conn_state := CS_CLOSED\<rparr>) st);
        Some (err, upd_sock i (\<lambda>p. p\<lparr>resolver := None\<rparr>) st)
      })"

definition SocketDispatcher_Close :: "'k epoll_ctl \<Rightarrow> answer \<Rightarrow> nat \<Rightarrow> ('k, 'c) pss \<Rightarrow> (int \<times> ('k, 'c) pss) checked" where
  "SocketDispatcher_Close ctl closed i st =
     (if sock (sockets st i) = INVALID_SOCKET then Some (0, st)
      else do {
        let st = (if saved_enabled_events (sockets st i) \<noteq> - 1
                  then upd_sock i (\<lambda>p. p\<lparr>saved_enabled_events := 0\<rparr>) st else st);
        st \<leftarrow> pss_Remove ctl (Sock i) st;
        PhysicalSocket_Close ctl closed i st
      })"

definition SocketDispatcher_Initialize :: "'k epoll_ctl \<Rightarrow> nat \<Rightarrow> ('k, 'c) pss \<Rightarrow> (bool \<times> ('k, 'c) pss) checked" where
  "SocketDispatcher_Initialize ctl i st = do {
     rtc_check (sock (sockets st i) \<noteq> INVALID_SOCKET);
     st \<leftarrow> pss_Add ctl (Sock i) st;
     Some (True, st)
   }"

definition PhysicalSocket_Create ::
  "'k epoll_ctl \<Rightarrow> ip_family \<Rightarrow> sock_type \<Rightarrow> answer \<Rightarrow> answer \<Rightarrow> nat \<Rightarrow> ('k, 'c) pss \<Rightarrow> (bool \<times> ('k, 'c) pss) checked" where
  "PhysicalSocket_Create ctl fam ty closed created i st = do {
     (err, st) \<leftarrow> SocketDispatcher_Close ctl closed i st;
     let (fd, errno) = created;
     let st = SetError errno i (upd_sock i (\<lambda>p. p\<lparr>sock := fd, udp := (ty = SOCK_DGRAM), sock_family := fam\<rparr>) st);
     st \<leftarrow> (if ty = SOCK_DGRAM then SetEnabledEvents ctl (DE_READ OR DE_WRITE) i st else Some st);
     Some (fd \<noteq> INVALID_SOCKET, st)
   }"

definition SocketDispatcher_Create ::
  "'k epoll_ctl \<Rightarrow> ip_family \<Rightarrow> sock_type \<Rightarrow> answer \<Rightarrow> answer \<Rightarrow> nat \<Rightarrow> ('k, 'c) pss \<Rightarrow> (bool \<times> ('k, 'c) pss) checked" where
  "SocketDispatcher_Create ctl fam ty closed created i st = do {
     (ok, st) \<leftarrow> PhysicalSocket_Create ctl fam ty closed created i st;
     if \<not> ok then Some (False, st) else SocketDispatcher_Initialize ctl i st
   }"

text \<open>\<open>CreateSocket\<close> and \<open>WrapSocket\<close> for a new object \<open>i\<close>; the result is the object or null.\<close>

definition CreateSocket ::
  "'k epoll_ctl \<Rightarrow> ip_family \<Rightarrow> sock_type \<Rightarrow> answer \<Rightarrow> nat \<Rightarrow> ('k, 'c) pss \<Rightarrow> (nat option \<times> ('k, 'c) pss) checked" where
  "CreateSocket ctl fam ty created i st = do {
     (ok, st) \<leftarrow> SocketDispatcher_Create ctl fam ty (0, 0) created i (upd_sock i (\<lambda>p. new_socket) st);
     Some (if ok then Some i else None, st)
   }"

definition wrapped_socket :: "int \<Rightarrow> sock_type \<Rightarrow> phys_socket" where
  "wrapped_socket s ty = new_socket\<lparr>sock := s,
     conn_state := (if s = INVALID_SOCKET then CS_CLOSED else CS_CONNECTED),
     enabled_events := (if s = INVALID_SOCKET then 0 else DE_READ OR DE_WRITE),
     udp := (s \<noteq> INVALID_SOCKET \<and> ty = SOCK_DGRAM)\<rparr>"

definition WrapSocket ::
  "'k epoll_ctl \<Rightarrow> int \<Rightarrow> sock_type \<Rightarrow> nat \<Rightarrow> ('k, 'c) pss \<Rightarrow> (nat option \<times> ('k, 'c) pss) checked" where
  "WrapSocket ctl s ty i st = do {
     (ok, st) \<leftarrow> SocketDispatcher_Initialize ctl i (upd_sock i (\<lambda>p. wrapped_socket s ty) st);
     Some (if ok then Some i else None, st)
   }"

section \<open>Connecting\<close>

definition DoConnect ::
  "'k epoll_ctl \<Rightarrow> SocketAddress \<Rightarrow> answer \<Rightarrow> answer \<Rightarrow> nat \<Rightarrow> ('k, 'c) pss \<Rightarrow> (int \<times> ('k, 'c) pss) checked" where
  "DoConnect ctl connect_addr created connected i st = do {
     (ok, st) \<leftarrow> (if sock (sockets st i) = INVALID_SOCKET
                 then SocketDispatcher_Create ctl (family (ip connect_addr)) SOCK_STREAM (0, 0) created i st
                 else Some (True, st));
     if \<not> ok then Some (SOCKET_ERROR, st)
     else do {
       let (err, errno) = connected;
       let st = SetError errno i st;
       if err = 0 then do {
         st \<leftarrow> EnableEvents ctl (DE_READ OR DE_WRITE) i (upd_sock i (\<lambda>p. p\<lparr>conn_state := CS_CONNECTED\<rparr>) st);
         Some (0, st)
       } else if IsBlockingError (sock_error (sockets st i)) then do {
         st \<leftarrow> EnableEvents ctl (DE_READ OR DE_WRITE OR DE_CONNECT) i
                (upd_sock i (\<lambda>p. p\<lparr>conn_state := CS_CONNECTING\<rparr>) st);
         Some (0, st)
       } else Some (SOCKET_ERROR, st)
     }
   }"

text \<open>\<open>Connect\<close> with the resolver \<open>r\<close> it creates for an address that is not resolved.\<close>

definition Connect ::
  "'k epoll_ctl \<Rightarrow> SocketAddress \<Rightarrow> nat \<Rightarrow> answer \<Rightarrow> answer \<Rightarrow> nat \<Rightarrow> ('k, 'c) pss \<Rightarrow> (int \<times> ('k, 'c) pss) checked" where
  "Connect ctl addr r created connected i st =
     (if conn_state (sockets st i) \<noteq> CS_CLOSED then Some (SOCKET_ERROR, SetError EALREADY i st)
      else if IsUnresolvedIP addr
      then Some (0, upd_sock i (\<lambda>p. p\<lparr>resolver := Some r, conn_state := CS_CONNECTING\<rparr>) st)
      else DoConnect ctl addr created connected i st)"

section \<open>Transfer\<close>

text \<open>\<open>Send\<close> and \<open>SendTo\<close>, given the answer of the system; \<open>MaybeRemapSendError\<close> is empty on Linux.\<close>

definition Send :: "'k epoll_ctl \<Rightarrow> int \<Rightarrow> answer \<Rightarrow> nat \<Rightarrow> ('k, 'c) pss \<Rightarrow> (int \<times> ('k, 'c) pss) checked" where
  "Send ctl cb answer i st = do {
     let (sent, errno) = answer;
     let st = SetError errno i st;
     rtc_check (sent \<le> cb);
     st \<leftarrow> (if 0 < sent \<and> sent < cb \<or> sent < 0 \<and> IsBlockingError (sock_error (sockets st i))
           then EnableEvents ctl DE_WRITE i st else Some st);
     Some (sent, st)
   }"

definition Recv :: "'k epoll_ctl \<Rightarrow> int \<Rightarrow> answer \<Rightarrow> nat \<Rightarrow> ('k, 'c) pss \<Rightarrow> (int \<times> ('k, 'c) pss) checked" where
  "Recv ctl len answer i st =
     (let (received, errno) = answer
      in if received = 0 \<and> len \<noteq> 0
         then do {
           st \<leftarrow> EnableEvents ctl DE_READ i st;
           Some (SOCKET_ERROR, SetError EWOULDBLOCK i st)
         }
         else do {
           let st = SetError errno i st;
           let err = sock_error (sockets st i);
           let success = (0 \<le> received \<or> IsBlockingError err);
           st \<leftarrow> (if udp (sockets st i) \<or> success then EnableEvents ctl DE_READ i st else Some st);
           Some (received, st)
         })"

definition RecvFrom :: "'k epoll_ctl \<Rightarrow> answer \<Rightarrow> nat \<Rightarrow> ('k, 'c) pss \<Rightarrow> (int \<times> ('k, 'c) pss) checked" where
  "RecvFrom ctl answer i st = do {
     let (received, errno) = answer;
     let st = SetError errno i st;
     let err = sock_error (sockets st i);
     let success = (0 \<le> received \<or> IsBlockingError err);
     st \<leftarrow> (if udp (sockets st i) \<or> success then EnableEvents ctl DE_READ i st else Some st);
     Some (received, st)
   }"

definition Listen :: "'k epoll_ctl \<Rightarrow> answer \<Rightarrow> nat \<Rightarrow> ('k, 'c) pss \<Rightarrow> (int \<times> ('k, 'c) pss) checked" where
  "Listen ctl answer i st = do {
     let (err, errno) = answer;
     let st = SetError errno i st;
     st \<leftarrow> (if err = 0 then EnableEvents ctl DE_ACCEPT i (upd_sock i (\<lambda>p. p\<lparr>conn_state := CS_CONNECTING\<rparr>) st)
           else Some st);
     Some (err, st)
   }"

text \<open>\<open>Accept\<close>: the system's answer is the new descriptor, \<open>j\<close> the object that wraps it.\<close>

definition Accept ::
  "'k epoll_ctl \<Rightarrow> answer \<Rightarrow> sock_type \<Rightarrow> nat \<Rightarrow> nat \<Rightarrow> ('k, 'c) pss \<Rightarrow> (nat option \<times> ('k, 'c) pss) checked" where
  "Accept ctl answer ty j i st = do {
     st \<leftarrow> EnableEvents ctl DE_ACCEPT i st;
     let (s, errno) = answer;
     let st = SetError errno i st;
     if s = INVALID_SOCKET then Some (None, st) else WrapSocket ctl s ty j st
   }"

section \<open>Addresses\<close>

text \<open>\<open>GetLocalAddress\<close> and \<open>GetRemoteAddress\<close>, given what \<open>getsockname\<close> or \<open>getpeername\<close> returned.\<close>

definition GetAddress :: "int \<times> sockaddr_storage \<Rightarrow> SocketAddress checked" where
  "GetAddress answer =
     (let (result, addr_storage) = answer
      in if 0 \<le> result then map_option snd (SocketAddressFromSockAddrStorage addr_storage sa_Clear)
         else Some sa_Clear)"

datatype NetworkBindingResult =
    BINDING_SUCCESS | BINDING_FAILURE | BINDING_NOT_IMPLEMENTED | BINDING_ADDRESS_NOT_FOUND | BINDING_NETWORK_CHANGED

text \<open>The address \<open>Bind\<close> hands to \<open>bind\<close>, if it gets that far; the network binder is optional.\<close>

definition bind_address :: "(IPAddress \<Rightarrow> NetworkBindingResult) option \<Rightarrow> SocketAddress \<Rightarrow> SocketAddress option" where
  "bind_address network_binder bind_addr =
     (case network_binder of
        None \<Rightarrow> Some bind_addr
      | Some BindSocketToNetwork \<Rightarrow>
          (if IsAnyIP bind_addr then Some bind_addr
           else case BindSocketToNetwork (ip bind_addr) of
             BINDING_SUCCESS \<Rightarrow> Some (SetIP (GetAnyIP (family (ip bind_addr))) bind_addr)
           | BINDING_NOT_IMPLEMENTED \<Rightarrow> Some bind_addr
           | _ \<Rightarrow> if IsLoopbackIP bind_addr then Some bind_addr else None))"

definition Bind ::
  "(IPAddress \<Rightarrow> NetworkBindingResult) option \<Rightarrow> SocketAddress \<Rightarrow> (nat \<times> sockaddr_storage \<Rightarrow> answer) \<Rightarrow> nat
     \<Rightarrow> ('k, 'c) pss \<Rightarrow> int \<times> ('k, 'c) pss" where
  "Bind network_binder bind_addr bind_call i st =
     (case bind_address network_binder bind_addr of
        None \<Rightarrow> (- 1, st)
      | Some copied_bind_addr \<Rightarrow>
          (let (err, errno) = bind_call (ToSockAddrStorage copied_bind_addr) in (err, SetError errno i st)))"

text \<open>\<open>GetSocketRecvTimestamp\<close>, given the result of \<open>ioctl\<close> and the time it filled in.\<close>

definition GetSocketRecvTimestamp :: "int \<Rightarrow> int \<Rightarrow> int \<Rightarrow> int checked" where
  "GetSocketRecvTimestamp ret tv_sec tv_usec =
     (if ret \<noteq> 0 then Some (- 1) else do { us \<leftarrow> i64_mul 1000000 tv_sec; i64_add us tv_usec })"

text \<open>\<open>SendTo\<close> with \<open>sendto\<close>, and what \<open>DoReadFromSocket\<close> does with the address \<open>recvfrom\<close> filled in.\<close>

definition SendTo ::
  "'k epoll_ctl \<Rightarrow> int \<Rightarrow> SocketAddress \<Rightarrow> (nat \<times> sockaddr_storage \<Rightarrow> answer) \<Rightarrow> nat \<Rightarrow> ('k, 'c) pss \<Rightarrow> (int \<times> ('k, 'c) pss) checked" where
  "SendTo ctl len addr send i st = Send ctl len (send (ToSockAddrStorage addr)) i st"

definition received_address :: "sockaddr_storage \<Rightarrow> SocketAddress option \<Rightarrow> SocketAddress option checked" where
  "received_address addr_storage out_addr =
     (case out_addr of
        None \<Rightarrow> Some None
      | Some a \<Rightarrow> map_option (\<lambda>r. Some (snd r)) (SocketAddressFromSockAddrStorage addr_storage a))"

section \<open>Options\<close>

datatype sock_option =
    OPT_DONTFRAGMENT | OPT_RCVBUF | OPT_SNDBUF | OPT_NODELAY | OPT_IPV6_V6ONLY | OPT_DSCP | OPT_RTP_SENDTIME_EXTN_ID

datatype sock_level = SOL_SOCKET | IPPROTO_IP | IPPROTO_IPV6 | IPPROTO_TCP

datatype sock_opt_name = IP_MTU_DISCOVER | SO_RCVBUF | SO_SNDBUF | TCP_NODELAY | IPV6_TCLASS | IP_TOS

definition IP_PMTUDISC_DONT :: int where "IP_PMTUDISC_DONT = 0"
definition IP_PMTUDISC_DO :: int where "IP_PMTUDISC_DO = 2"

definition TranslateOption :: "ip_family \<Rightarrow> sock_option \<Rightarrow> (sock_level \<times> sock_opt_name) option checked" where
  "TranslateOption fam opt =
     (case opt of
        OPT_DONTFRAGMENT \<Rightarrow> Some (Some (IPPROTO_IP, IP_MTU_DISCOVER))
      | OPT_RCVBUF \<Rightarrow> Some (Some (SOL_SOCKET, SO_RCVBUF))
      | OPT_SNDBUF \<Rightarrow> Some (Some (SOL_SOCKET, SO_SNDBUF))
      | OPT_NODELAY \<Rightarrow> Some (Some (IPPROTO_TCP, TCP_NODELAY))
      | OPT_DSCP \<Rightarrow> Some (Some (if fam = AF_INET6 then (IPPROTO_IPV6, IPV6_TCLASS) else (IPPROTO_IP, IP_TOS)))
      | OPT_RTP_SENDTIME_EXTN_ID \<Rightarrow> Some None
      | OPT_IPV6_V6ONLY \<Rightarrow> None)"

text \<open>The result and the value afterwards; \<open>get\<close> is \<open>getsockopt\<close> with its result and the value it fills in.\<close>

definition GetOption ::
  "sock_option \<Rightarrow> (sock_level \<Rightarrow> sock_opt_name \<Rightarrow> int \<times> int) \<Rightarrow> int \<Rightarrow> nat \<Rightarrow> ('k, 'c) pss \<Rightarrow> (int \<times> int) checked" where
  "GetOption opt get value i st = do {
     name \<leftarrow> TranslateOption (sock_family (sockets st i)) opt;
     case name of
       None \<Rightarrow> Some (- 1, value)
     | Some (slevel, sopt) \<Rightarrow>
         (let (ret, value) = get slevel sopt
          in Some (ret,
               if ret = - 1 then value
               else if opt = OPT_DONTFRAGMENT then (if value \<noteq> IP_PMTUDISC_DONT then 1 else 0)
               else if opt = OPT_DSCP then drop_bit 2 value
               else value))
   }"

definition i32_mul :: "int \<Rightarrow> int \<Rightarrow> int checked" where
  "i32_mul a b = (if in_i32 (a * b) then Some (a * b) else None)"

text \<open>\<open>SetOption\<close> with its calls of \<open>setsockopt\<close> in their order; \<open>setopt\<close> answers the last one.\<close>

definition SetOption ::
  "sock_option \<Rightarrow> int \<Rightarrow> (sock_level \<times> sock_opt_name \<times> int \<Rightarrow> answer) \<Rightarrow> nat \<Rightarrow> ('k, 'c) pss
     \<Rightarrow> (int \<times> (sock_level \<times> sock_opt_name \<times> int) list \<times> ('k, 'c) pss) checked" where
  "SetOption opt value setopt i st = do {
     name \<leftarrow> TranslateOption (sock_family (sockets st i)) opt;
     case name of
       None \<Rightarrow> Some (- 1, [], st)
     | Some (slevel, sopt) \<Rightarrow> do {
         value \<leftarrow> (if opt = OPT_DONTFRAGMENT then Some (if value \<noteq> 0 then IP_PMTUDISC_DO else IP_PMTUDISC_DONT)
                  else if opt = OPT_DSCP then i32_mul value 4
                  else Some value);
         let both = (if sopt = IPV6_TCLASS then [(IPPROTO_IP, IP_TOS, value)] else []);
         let (result, errno) = setopt (slevel, sopt, value);
         Some (result, both @ [(slevel, sopt, value)], if result \<noteq> 0 then SetError errno i st else st)
       }
   }"

text \<open>A DSCP value that was set is read back, on both versions.\<close>

lemma dscp_roundtrip:
  assumes "in_i32 (value * 4)" "get = (\<lambda>l n. (0, v))" "\<And>l n v'. setopt (l, n, v') = (if v' = v then (0, 0) else (- 1, 22))"
    "v = value * 4"
  shows "\<exists>calls. SetOption OPT_DSCP value setopt i st = Some (0, calls, st) \<and> GetOption OPT_DSCP get 0 i st = Some (0, value)"
  using assms by (auto simp: SetOption_def GetOption_def TranslateOption_def i32_mul_def Let_def drop_bit_eq_div)

end
