(* ===== verification/Socket_Registry.thy ===== *)
theory Socket_Registry
  imports Physical_Socket
begin

section \<open>The invariant of the registry\<close>

text \<open>What \<open>epoll_ctl\<close> promises, over the interest list \<open>interest\<close> of the kernel's state, when memory lasts.\<close>

definition epoll_documented :: "'k epoll_ctl \<Rightarrow> ('k \<Rightarrow> int \<Rightarrow> (32 word \<times> 64 word) option) \<Rightarrow> bool" where
  "epoll_documented ctl interest \<longleftrightarrow> (\<forall>fd ev key k.
     (interest k fd = None \<longrightarrow>
        fst (ctl EPOLL_CTL_ADD fd ev key k) = 0 \<and>
        interest (snd (ctl EPOLL_CTL_ADD fd ev key k)) = (interest k)(fd \<mapsto> (ev, key)) \<and>
        fst (ctl EPOLL_CTL_MOD fd ev key k) = ENOENT \<and>
        interest (snd (ctl EPOLL_CTL_MOD fd ev key k)) = interest k \<and>
        fst (ctl EPOLL_CTL_DEL fd ev key k) = ENOENT \<and>
        interest (snd (ctl EPOLL_CTL_DEL fd ev key k)) = interest k) \<and>
     (interest k fd \<noteq> None \<longrightarrow>
        fst (ctl EPOLL_CTL_ADD fd ev key k) = EEXIST \<and>
        interest (snd (ctl EPOLL_CTL_ADD fd ev key k)) = interest k \<and>
        fst (ctl EPOLL_CTL_MOD fd ev key k) = 0 \<and>
        interest (snd (ctl EPOLL_CTL_MOD fd ev key k)) = (interest k)(fd \<mapsto> (ev, key)) \<and>
        fst (ctl EPOLL_CTL_DEL fd ev key k) = 0 \<and>
        interest (snd (ctl EPOLL_CTL_DEL fd ev key k)) = (interest k)(fd := None)))"

text \<open>The events of a dispatcher that the kernel is to watch: during a batch those from before the batch.\<close>

definition effective :: "('k, 'c) pss \<Rightarrow> dispatcher \<Rightarrow> 32 word" where
  "effective st d =
     (case d of
        Wakeup \<Rightarrow> DE_READ
      | Sock i \<Rightarrow> (let p = sockets st i
                  in if saved_enabled_events p = - 1 then ucast (enabled_events p)
                     else ucast (word_of_int (saved_enabled_events p) :: 8 word)))"

definition keys_ok :: "('k, 'c) pss \<Rightarrow> bool" where
  "keys_ok st \<longleftrightarrow>
     (\<forall>d k. key_by_dispatcher st d = Some k \<longleftrightarrow> dispatcher_by_key st k = Some d) \<and>
     (\<forall>d k. key_by_dispatcher st d = Some k \<longrightarrow> k < next_dispatcher_key st)"

definition descriptors_ok :: "('k, 'c) pss \<Rightarrow> bool" where
  "descriptors_ok st \<longleftrightarrow>
     wakeup_fd st \<noteq> INVALID_SOCKET \<and> key_by_dispatcher st Wakeup \<noteq> None \<and>
     (\<forall>i. key_by_dispatcher st (Sock i) \<noteq> None \<longleftrightarrow> sock (sockets st i) \<noteq> INVALID_SOCKET) \<and>
     inj_on (GetDescriptor st) {d. key_by_dispatcher st d \<noteq> None} \<and>
     (\<forall>i. sock (sockets st i) = INVALID_SOCKET \<longrightarrow> conn_state (sockets st i) \<noteq> CS_CONNECTED \<and>
        (saved_enabled_events (sockets st i) = - 1 \<or>
         saved_enabled_events (sockets st i) = 0 \<and> enabled_events (sockets st i) = 0))"

definition watched :: "('k, 'c) pss \<Rightarrow> dispatcher \<Rightarrow> int \<Rightarrow> 32 word \<Rightarrow> 64 word \<Rightarrow> bool" where
  "watched st d fd ev key \<longleftrightarrow> key_by_dispatcher st d = Some key \<and> GetDescriptor st d = fd \<and>
     ev = GetEpollEvents (effective st d) \<and> ev \<noteq> 0"

definition synced :: "('k \<Rightarrow> int \<Rightarrow> (32 word \<times> 64 word) option) \<Rightarrow> int set \<Rightarrow> ('k, 'c) pss \<Rightarrow> bool" where
  "synced interest X st \<longleftrightarrow> epoll_fd st = INVALID_SOCKET \<or>
     (\<forall>fd ev key. fd \<notin> X \<longrightarrow> (interest (kernel st) fd = Some (ev, key) \<longleftrightarrow> (\<exists>d. watched st d fd ev key)))"

definition pss_ok :: "('k \<Rightarrow> int \<Rightarrow> (32 word \<times> 64 word) option) \<Rightarrow> ('k, 'c) pss \<Rightarrow> bool" where
  "pss_ok interest st \<longleftrightarrow> keys_ok st \<and> descriptors_ok st \<and> synced interest {} st"

lemma epoll_ctl_del:
  assumes "epoll_documented ctl interest"
  shows "\<exists>err k'. ctl EPOLL_CTL_DEL fd ev key k = (err, k') \<and> (err = 0 \<or> err = ENOENT) \<and>
    interest k' = (interest k)(fd := None)"
proof -
  have "fst (ctl EPOLL_CTL_DEL fd ev key k) = 0 \<or> fst (ctl EPOLL_CTL_DEL fd ev key k) = ENOENT"
    "interest (snd (ctl EPOLL_CTL_DEL fd ev key k)) = (interest k)(fd := None)"
    using assms unfolding epoll_documented_def by (metis fun_upd_triv)+
  then show ?thesis
    by (metis prod.collapse)
qed

lemma epoll_ctl_add:
  assumes "epoll_documented ctl interest" "interest k fd = None"
  shows "\<exists>k'. ctl EPOLL_CTL_ADD fd ev key k = (0, k') \<and> interest k' = (interest k)(fd \<mapsto> (ev, key))"
  using assms unfolding epoll_documented_def by (metis prod.collapse)

text \<open>\<open>EPOLL_CTL_MOD\<close>, followed by \<open>EPOLL_CTL_ADD\<close> when the descriptor was not watched.\<close>

lemma epoll_ctl_mod_add:
  assumes "epoll_documented ctl interest"
  shows "\<exists>err k1. ctl EPOLL_CTL_MOD fd ev key k = (err, k1) \<and> (err = 0 \<or> err = ENOENT) \<and>
    interest (if err = ENOENT then snd (ctl EPOLL_CTL_ADD fd ev key k1) else k1) = (interest k)(fd \<mapsto> (ev, key))"
proof (cases "interest k fd")
  case None
  obtain err k1 where m: "ctl EPOLL_CTL_MOD fd ev key k = (err, k1)"
    by force
  have "err = ENOENT" "interest k1 = interest k"
    using assms None m unfolding epoll_documented_def by (metis fst_conv, metis snd_conv)
  moreover then have "interest (snd (ctl EPOLL_CTL_ADD fd ev key k1)) = (interest k)(fd \<mapsto> (ev, key))"
    using epoll_ctl_add [OF assms, of k1 fd ev key] None by force
  ultimately show ?thesis
    using m by simp
next
  case (Some a)
  obtain err k1 where m: "ctl EPOLL_CTL_MOD fd ev key k = (err, k1)"
    by force
  have "err = 0" "interest k1 = (interest k)(fd \<mapsto> (ev, key))"
    using assms Some m unfolding epoll_documented_def by (metis fst_conv option.distinct(1), metis snd_conv option.distinct(1))
  then show ?thesis
    using m by (simp add: ENOENT_def)
qed

lemma upd_sock_simps [simp]:
  "sockets (upd_sock i f st) = (sockets st)(i := f (sockets st i))"
  "next_dispatcher_key (upd_sock i f st) = next_dispatcher_key st"
  "dispatcher_by_key (upd_sock i f st) = dispatcher_by_key st"
  "key_by_dispatcher (upd_sock i f st) = key_by_dispatcher st"
  "epoll_fd (upd_sock i f st) = epoll_fd st" "wakeup_fd (upd_sock i f st) = wakeup_fd st"
  "kernel (upd_sock i f st) = kernel st" "signaler (upd_sock i f st) = signaler st"
  "fWait (upd_sock i f st) = fWait st"
  "is_waiting (upd_sock i f st) = is_waiting st" "client (upd_sock i f st) = client st"
  by (simp_all add: upd_sock_def)

lemma GetDescriptor_simps [simp]:
  "GetDescriptor st Wakeup = wakeup_fd st" "GetDescriptor st (Sock i) = sock (sockets st i)"
  by (simp_all add: GetDescriptor_def)

lemma GetRequestedEvents_simps [simp]:
  "GetRequestedEvents st Wakeup = DE_READ" "GetRequestedEvents st (Sock i) = ucast (enabled_events (sockets st i))"
  by (simp_all add: GetRequestedEvents_def)

text \<open>Changes that the registry does not see.\<close>

lemma kernel_update [simp]: "GetDescriptor (st\<lparr>kernel := k\<rparr>) = GetDescriptor st"
  "effective (st\<lparr>kernel := k\<rparr>) = effective st"
  by (rule ext; simp add: GetDescriptor_def effective_def cong: dispatcher.case_cong)+

lemma kernel_update_ok [simp]:
  "keys_ok (st\<lparr>kernel := k\<rparr>) = keys_ok st" "descriptors_ok (st\<lparr>kernel := k\<rparr>) = descriptors_ok st"
  "watched (st\<lparr>kernel := k\<rparr>) = watched st"
  by (simp_all add: keys_ok_def descriptors_ok_def watched_def fun_eq_iff)

lemma watched_own:
  assumes "descriptors_ok st" "key_by_dispatcher st d = Some key"
  shows "(\<exists>d'. watched st d' (GetDescriptor st d) ev key') \<longleftrightarrow>
    key' = key \<and> ev = GetEpollEvents (effective st d) \<and> ev \<noteq> 0"
proof -
  have "d' = d" if "watched st d' (GetDescriptor st d) ev key'" for d'
    using that assms unfolding descriptors_ok_def watched_def by (auto dest: inj_onD)
  then have "(\<exists>d'. watched st d' (GetDescriptor st d) ev key') \<longleftrightarrow> watched st d (GetDescriptor st d) ev key'"
    by blast
  then show ?thesis
    using assms(2) by (auto simp: watched_def)
qed

lemma synced_except:
  assumes "synced interest X st" "\<And>fd. fd \<in> X \<Longrightarrow> interest k fd = f fd" "\<And>fd. fd \<notin> X \<Longrightarrow> interest k fd = interest (kernel st) fd"
    "\<And>fd ev key. fd \<in> X \<Longrightarrow> f fd = Some (ev, key) \<longleftrightarrow> (\<exists>d. watched st d fd ev key)"
  shows "synced interest {} (st\<lparr>kernel := k\<rparr>)"
  using assms unfolding synced_def by auto metis+

lemma UpdateEpoll_synced:
  assumes "epoll_documented ctl interest" "epoll_fd st \<noteq> INVALID_SOCKET" "descriptors_ok st"
    "key_by_dispatcher st d = Some key" "GetEpollEvents (effective st d) = GetEpollEvents (GetRequestedEvents st d)"
    "synced interest {GetDescriptor st d} st"
  shows "\<exists>k. UpdateEpoll ctl d key st = Some (st\<lparr>kernel := k\<rparr>) \<and> synced interest {} (st\<lparr>kernel := k\<rparr>)"
proof -
  define fd where "fd = GetDescriptor st d"
  define ev where "ev = GetEpollEvents (GetRequestedEvents st d)"
  have fd: "fd \<noteq> INVALID_SOCKET"
    using assms(3,4) by (cases d) (auto simp: fd_def descriptors_ok_def)
  have own: "(\<exists>d'. watched st d' fd ev' key') \<longleftrightarrow> key' = key \<and> ev' = ev \<and> ev' \<noteq> 0" for ev' key'
    using watched_own [OF assms(3,4)] assms(5) by (simp add: fd_def ev_def)
  show ?thesis
  proof (cases "ev = 0")
    case True
    obtain err k where k: "ctl EPOLL_CTL_DEL fd ev key (kernel st) = (err, k)" "interest k = (interest (kernel st))(fd := None)"
      using epoll_ctl_del [OF assms(1)] by blast
    have "synced interest {} (st\<lparr>kernel := k\<rparr>)"
      by (rule synced_except [OF assms(6), where f = "\<lambda>_. None"]) (use k own True in \<open>auto simp: fd_def\<close>)
    moreover have "UpdateEpoll ctl d key st = Some (st\<lparr>kernel := k\<rparr>)"
      using assms(2) fd k(1) True by (simp add: UpdateEpoll_def checked_simps flip: fd_def ev_def)
    ultimately show ?thesis
      by blast
  next
    case False
    obtain err k1 where k: "ctl EPOLL_CTL_MOD fd ev key (kernel st) = (err, k1)" "err = 0 \<or> err = ENOENT"
      "interest (if err = ENOENT then snd (ctl EPOLL_CTL_ADD fd ev key k1) else k1) = (interest (kernel st))(fd \<mapsto> (ev, key))"
      using epoll_ctl_mod_add [OF assms(1)] by blast
    define k2 where "k2 = (if err = ENOENT then snd (ctl EPOLL_CTL_ADD fd ev key k1) else k1)"
    have "synced interest {} (st\<lparr>kernel := k2\<rparr>)"
      by (rule synced_except [OF assms(6), where f = "\<lambda>_. Some (ev, key)"])
        (use k(3) own False in \<open>auto simp: fd_def simp flip: k2_def\<close>)
    moreover have "UpdateEpoll ctl d key st = Some (st\<lparr>kernel := k2\<rparr>)"
      using assms(2) fd k(1,2) False by (simp add: UpdateEpoll_def checked_simps k2_def flip: fd_def ev_def)
    ultimately show ?thesis
      by blast
  qed
qed


text \<open>Changes of a socket that keep its descriptor and its events keep the invariant.\<close>

lemma upd_sock_same:
  assumes "\<And>p. sock (f p) = sock p"
  shows "GetDescriptor (upd_sock i f st) = GetDescriptor st"
  using assms by (auto simp: GetDescriptor_def fun_eq_iff split: dispatcher.splits)

lemma upd_sock_effective:
  assumes "\<And>p. enabled_events (f p) = enabled_events p" "\<And>p. saved_enabled_events (f p) = saved_enabled_events p"
  shows "effective (upd_sock i f st) = effective st"
  using assms by (auto simp: effective_def fun_eq_iff Let_def split: dispatcher.splits)

lemma pss_ok_upd:
  assumes "\<And>p. sock (f p) = sock p" "\<And>p. enabled_events (f p) = enabled_events p"
    "\<And>p. saved_enabled_events (f p) = saved_enabled_events p"
    and "conn_state (f (sockets st i)) = CS_CONNECTED \<Longrightarrow> conn_state (sockets st i) = CS_CONNECTED \<or> sock (sockets st i) \<noteq> INVALID_SOCKET"
    "pss_ok interest st"
  shows "pss_ok interest (upd_sock i f st)"
proof -
  have "keys_ok (upd_sock i f st) = keys_ok st"
    by (simp add: keys_ok_def)
  moreover have "descriptors_ok (upd_sock i f st)"
    using assms upd_sock_same [of f i st, OF assms(1)] by (auto simp: descriptors_ok_def pss_ok_def)
  moreover have "watched (upd_sock i f st) = watched st"
    using upd_sock_same [of f i st, OF assms(1)] upd_sock_effective [of f i st, OF assms(2,3)]
    by (simp add: watched_def fun_eq_iff)
  ultimately show ?thesis
    using assms(5) by (simp add: pss_ok_def synced_def)
qed

text \<open>Changing the events of a socket, or ending its batch, tells the kernel outside of a batch.\<close>

lemma MaybeUpdateDispatcher_ok:
  assumes "epoll_documented ctl interest" "pss_ok interest st"
    and f: "sock (f (sockets st i)) = sock (sockets st i)" "conn_state (f (sockets st i)) = conn_state (sockets st i)"
    and closed: "sock (sockets st i) = INVALID_SOCKET \<Longrightarrow> saved_enabled_events (f (sockets st i)) = - 1 \<or>
      saved_enabled_events (f (sockets st i)) = 0 \<and> enabled_events (f (sockets st i)) = 0"
    and old: "saved_enabled_events (f (sockets st i)) = - 1 \<Longrightarrow> effective st (Sock i) = ucast old_events"
    and batch: "saved_enabled_events (f (sockets st i)) \<noteq> - 1 \<Longrightarrow> saved_enabled_events (f (sockets st i)) = saved_enabled_events (sockets st i)"
  shows "\<exists>k. MaybeUpdateDispatcher ctl i old_events (upd_sock i f st) = Some ((upd_sock i f st)\<lparr>kernel := k\<rparr>) \<and>
    pss_ok interest ((upd_sock i f st)\<lparr>kernel := k\<rparr>)"
proof -
  define st1 where "st1 = upd_sock i f st"
  let ?d = "Sock i"
  have desc: "GetDescriptor st1 = GetDescriptor st"
    using f(1) by (auto simp: st1_def GetDescriptor_def fun_eq_iff split: dispatcher.splits)
  have ok: "keys_ok st1" "descriptors_ok st1"
    using assms(2) f closed desc by (auto simp: pss_ok_def keys_ok_def descriptors_ok_def st1_def)
  have eff: "effective st1 d = effective st d" if "d \<noteq> ?d \<or> saved_enabled_events (f (sockets st i)) \<noteq> - 1" for d
    using that batch by (auto simp: effective_def st1_def Let_def split: dispatcher.splits)
  have eff_i: "effective st1 ?d = GetRequestedEvents st1 ?d" "effective st ?d = ucast old_events"
    if "saved_enabled_events (f (sockets st i)) = - 1"
    using that old by (simp_all add: effective_def st1_def)
  have w: "watched st1 d fd ev key = watched st d fd ev key" if "fd \<noteq> GetDescriptor st ?d" for d fd ev key
    using that desc eff [of d] by (cases "d = ?d") (auto simp: watched_def st1_def)
  have sync: "synced interest {GetDescriptor st1 ?d} st1"
    using assms(2) w desc by (auto simp: pss_ok_def synced_def st1_def)
  have same: "synced interest {} st1"
    if "GetEpollEvents (effective st1 ?d) = GetEpollEvents (effective st ?d) \<or> key_by_dispatcher st ?d = None"
  proof -
    have "watched st1 = watched st"
    proof (intro ext)
      fix d fd ev key
      show "watched st1 d fd ev key = watched st d fd ev key"
        using that desc eff [of d] by (cases "d = ?d") (auto simp: watched_def st1_def)
    qed
    then show ?thesis
      using assms(2) by (simp add: pss_ok_def synced_def st1_def)
  qed
  have id: "st1 = st1\<lparr>kernel := kernel st1\<rparr>"
    by simp
  have "\<exists>k. MaybeUpdateDispatcher ctl i old_events st1 = Some (st1\<lparr>kernel := k\<rparr>) \<and> synced interest {} (st1\<lparr>kernel := k\<rparr>)"
  proof (cases "GetEpollEvents (ucast (enabled_events (sockets st1 i))) \<noteq> GetEpollEvents (ucast old_events)
      \<and> saved_enabled_events (sockets st1 i) = - 1 \<and> epoll_fd st1 \<noteq> INVALID_SOCKET \<and> key_by_dispatcher st1 ?d \<noteq> None")
    case True
    then obtain key where key: "key_by_dispatcher st1 ?d = Some key"
      by blast
    have e: "GetEpollEvents (effective st1 ?d) = GetEpollEvents (GetRequestedEvents st1 ?d)"
      using True eff_i(1) by (simp add: st1_def)
    show ?thesis
      using UpdateEpoll_synced [OF assms(1) _ ok(2) key e sync] True key
      by (auto simp: MaybeUpdateDispatcher_def pss_Update_def)
  next
    case no: False
    then have 1: "MaybeUpdateDispatcher ctl i old_events st1 = Some st1"
      by (auto simp: MaybeUpdateDispatcher_def pss_Update_def split: option.splits)
    have 2: "synced interest {} st1"
    proof (cases "epoll_fd st = INVALID_SOCKET")
      case False
      then have "GetEpollEvents (effective st1 ?d) = GetEpollEvents (effective st ?d) \<or> key_by_dispatcher st ?d = None"
        using no eff [of ?d] eff_i by (cases "saved_enabled_events (f (sockets st i)) = - 1") (auto simp: st1_def)
      then show ?thesis
        by (rule same)
    qed (simp add: synced_def st1_def)
    show ?thesis
      using 1 2 id by metis
  qed
  then show ?thesis
    using ok by (auto simp: pss_ok_def simp flip: st1_def)
qed

lemma change_events:
  assumes "epoll_documented ctl interest" "pss_ok interest st"
    "sock (sockets st i) = INVALID_SOCKET \<Longrightarrow> saved_enabled_events (sockets st i) \<noteq> - 1 \<Longrightarrow>
      enabled_events (sockets st i) = 0 \<Longrightarrow> e (sockets st i) = 0"
  shows "\<exists>k. MaybeUpdateDispatcher ctl i (enabled_events (sockets st i)) (upd_sock i (\<lambda>p. p\<lparr>enabled_events := e p\<rparr>) st) =
      Some ((upd_sock i (\<lambda>p. p\<lparr>enabled_events := e p\<rparr>) st)\<lparr>kernel := k\<rparr>) \<and>
    pss_ok interest ((upd_sock i (\<lambda>p. p\<lparr>enabled_events := e p\<rparr>) st)\<lparr>kernel := k\<rparr>)"
  by (rule MaybeUpdateDispatcher_ok [OF assms(1,2)])
    (use assms(2,3) in \<open>auto simp: effective_def pss_ok_def descriptors_ok_def\<close>)

lemma finish_batch:
  assumes "epoll_documented ctl interest" "pss_ok interest st" "saved_enabled_events (sockets st i) \<noteq> - 1"
  shows "\<exists>k. FinishBatchedEventUpdates ctl i st = Some ((upd_sock i (\<lambda>p. p\<lparr>saved_enabled_events := - 1\<rparr>) st)\<lparr>kernel := k\<rparr>) \<and>
    pss_ok interest ((upd_sock i (\<lambda>p. p\<lparr>saved_enabled_events := - 1\<rparr>) st)\<lparr>kernel := k\<rparr>)"
proof -
  have "\<exists>k. MaybeUpdateDispatcher ctl i (word_of_int (saved_enabled_events (sockets st i)))
        (upd_sock i (\<lambda>p. p\<lparr>saved_enabled_events := - 1\<rparr>) st) =
      Some ((upd_sock i (\<lambda>p. p\<lparr>saved_enabled_events := - 1\<rparr>) st)\<lparr>kernel := k\<rparr>) \<and>
    pss_ok interest ((upd_sock i (\<lambda>p. p\<lparr>saved_enabled_events := - 1\<rparr>) st)\<lparr>kernel := k\<rparr>)"
    by (rule MaybeUpdateDispatcher_ok [OF assms(1,2)]) (use assms(3) in \<open>auto simp: effective_def\<close>)
  then show ?thesis
    using assms(3) by (simp add: FinishBatchedEventUpdates_def Let_def)
qed

lemma start_batch:
  assumes "pss_ok interest st" "saved_enabled_events (sockets st i) = - 1" "sock (sockets st i) \<noteq> INVALID_SOCKET"
  shows "StartBatchedEventUpdates i st = Some (upd_sock i (\<lambda>p. p\<lparr>saved_enabled_events := uint (enabled_events p)\<rparr>) st)"
    "pss_ok interest (upd_sock i (\<lambda>p. p\<lparr>saved_enabled_events := uint (enabled_events p)\<rparr>) st)"
proof -
  let ?f = "\<lambda>p. p\<lparr>saved_enabled_events := uint (enabled_events p)\<rparr>"
  have d: "GetDescriptor (upd_sock i ?f st) = GetDescriptor st"
    by (simp add: upd_sock_same)
  have "effective (upd_sock i ?f st) d = effective st d" for d
    using assms(2) by (auto simp: effective_def Let_def split: dispatcher.splits)
  then have w: "watched (upd_sock i ?f st) = watched st"
    using d by (simp add: watched_def fun_eq_iff)
  show "pss_ok interest (upd_sock i ?f st)"
    using assms d w by (auto simp: pss_ok_def keys_ok_def descriptors_ok_def synced_def)
qed (use assms(2) in \<open>simp add: StartBatchedEventUpdates_def\<close>)

text \<open>Closing takes a socket out of the registry and out of the interest list.\<close>

definition closed_socket :: "int \<Rightarrow> phys_socket \<Rightarrow> phys_socket" where
  "closed_socket errno p = p\<lparr>saved_enabled_events := (if saved_enabled_events p = - 1 then - 1 else 0),
     sock_error := errno, sock := INVALID_SOCKET, conn_state := CS_CLOSED, enabled_events := 0, resolver := None\<rparr>"

lemma closed_socket_alt:
  "closed_socket errno p = (if saved_enabled_events p \<noteq> - 1 then p\<lparr>saved_enabled_events := 0\<rparr> else p)
     \<lparr>sock_error := errno, sock := INVALID_SOCKET, conn_state := CS_CLOSED, enabled_events := 0, resolver := None\<rparr>"
  by (cases p) (simp add: closed_socket_def)

lemma Close_ok:
  assumes "epoll_documented ctl interest" "pss_ok interest st" "key_by_dispatcher st (Sock i) = Some key"
  shows "\<exists>k. let st' = st\<lparr>sockets := (sockets st)(i := closed_socket errno (sockets st i)),
        key_by_dispatcher := (key_by_dispatcher st)(Sock i := None),
        dispatcher_by_key := (dispatcher_by_key st)(key := None), kernel := k\<rparr>
    in SocketDispatcher_Close ctl (err, errno) i st = Some (err, st') \<and> pss_ok interest st'"
proof -
  let ?d = "Sock i"
  define fd where "fd = sock (sockets st i)"
  have ok: "keys_ok st" "descriptors_ok st" "synced interest {} st"
    using assms(2) by (simp_all add: pss_ok_def)
  have fd: "fd \<noteq> INVALID_SOCKET"
    using ok(2) assms(3) by (auto simp: descriptors_ok_def fd_def)
  obtain e1 k1 where k1: "ctl EPOLL_CTL_DEL fd 0 0 (kernel st) = (e1, k1)" "e1 = 0 \<or> e1 = ENOENT"
    "interest k1 = (interest (kernel st))(fd := None)"
    using epoll_ctl_del [OF assms(1)] by blast
  define k where "k = (if epoll_fd st = INVALID_SOCKET then kernel st else k1)"
  define st' where "st' = st\<lparr>sockets := (sockets st)(i := closed_socket errno (sockets st i)),
        key_by_dispatcher := (key_by_dispatcher st)(?d := None),
        dispatcher_by_key := (dispatcher_by_key st)(key := None), kernel := k\<rparr>"
  have run: "SocketDispatcher_Close ctl (err, errno) i st = Some (err, st')"
    using fd assms(3) k1(1,2)
    by (auto simp: SocketDispatcher_Close_def pss_Remove_def RemoveEpoll_def PhysicalSocket_Close_def
        SetEnabledEvents_def MaybeUpdateDispatcher_def pss_Update_def SetError_def st'_def upd_sock_def
        closed_socket_alt k_def GetDescriptor_def Let_def checked_simps simp flip: fd_def)
  have desc: "GetDescriptor st' d = GetDescriptor st d" "effective st' d = effective st d" if "d \<noteq> ?d" for d
    using that by (auto simp: st'_def GetDescriptor_def effective_def split: dispatcher.splits)
  have key: "key_by_dispatcher st d = Some key \<longleftrightarrow> d = ?d" for d
    using ok(1) assms(3) by (auto simp: keys_ok_def)
  have own: "dispatcher_by_key st ky = Some ?d \<longleftrightarrow> ky = key" for ky
    using ok(1) assms(3) unfolding keys_ok_def by (metis option.inject)
  have 1: "keys_ok st'"
    using ok(1) key own by (auto simp: keys_ok_def st'_def)
  have "inj_on (GetDescriptor st') {d. key_by_dispatcher st' d \<noteq> None}"
    using ok(2) desc by (auto simp: descriptors_ok_def st'_def inj_on_def)
  then have 2: "descriptors_ok st'"
    using ok(2) by (auto simp: descriptors_ok_def st'_def closed_socket_def)
  have other: "GetDescriptor st d \<noteq> fd" if "key_by_dispatcher st d \<noteq> None" "d \<noteq> ?d" for d
  proof
    assume "GetDescriptor st d = fd"
    then have eq: "GetDescriptor st d = GetDescriptor st ?d"
      by (simp add: fd_def)
    have inj: "inj_on (GetDescriptor st) {d. key_by_dispatcher st d \<noteq> None}"
      using ok(2) by (simp add: descriptors_ok_def)
    show False
      using inj_onD [OF inj eq] that assms(3) by simp
  qed
  have w: "watched st' d f ev ky \<longleftrightarrow> watched st d f ev ky \<and> d \<noteq> ?d" for d f ev ky
    using desc [of d] by (auto simp: watched_def st'_def)
  have wi: "watched st ?d f ev ky \<Longrightarrow> f = fd" "watched st d fd ev ky \<Longrightarrow> d = ?d" for d f ev ky
    using other by (auto simp: watched_def fd_def)
  have 3: "synced interest {} st'"
  proof (cases "epoll_fd st = INVALID_SOCKET")
    case False
    then have "interest (kernel st') = (interest (kernel st))(fd := None)"
      using k1(3) by (simp add: st'_def k_def)
    moreover have "\<not> watched st' d fd ev ky" for d ev ky
      using w [of d fd ev ky] wi(2) [of d ev ky] by auto
    moreover have "watched st' d f ev ky = watched st d f ev ky" if "f \<noteq> fd" for d f ev ky
      using that w [of d f ev ky] wi(1) [of f ev ky] by auto
    ultimately show ?thesis
      using ok(3) False unfolding synced_def by (auto simp: st'_def)
  qed (simp add: synced_def st'_def)
  show ?thesis
    unfolding Let_def by (rule exI [of _ k], fold st'_def) (use run 1 2 3 in \<open>simp add: pss_ok_def\<close>)
qed

lemma Close_closed: "sock (sockets st i) = INVALID_SOCKET \<Longrightarrow> SocketDispatcher_Close ctl closed i st = Some (0, st)"
  by (simp add: SocketDispatcher_Close_def)

text \<open>Adding a socket with a new descriptor.\<close>

lemma word_next: "(x :: 'a::len word) \<noteq> - 1 \<Longrightarrow> y \<le> x \<Longrightarrow> y < x + 1"
proof -
  assume x: "x \<noteq> - 1" "y \<le> x"
  then have "1 + x \<noteq> 0"
    by (metis add.commute eq_neg_iff_add_eq_0)
  then have "unat (1 + x) = Suc (unat x)"
    by (rule unatSuc)
  then show "y < x + 1"
    using x(2) by (simp add: word_less_nat_alt word_le_nat_alt add.commute)
qed

lemma Initialize_ok:
  assumes "epoll_documented ctl interest" "pss_ok interest st" "sock (sockets st i) = INVALID_SOCKET"
    "sock q \<noteq> INVALID_SOCKET" "\<And>d. key_by_dispatcher st d \<noteq> None \<Longrightarrow> GetDescriptor st d \<noteq> sock q"
    "next_dispatcher_key st \<noteq> - 1" "saved_enabled_events q = - 1 \<or> saved_enabled_events q = 0 \<and> enabled_events q = 0"
  shows "\<exists>k. let key = next_dispatcher_key st;
        st' = st\<lparr>sockets := (sockets st)(i := q), next_dispatcher_key := key + 1,
        key_by_dispatcher := (key_by_dispatcher st)(Sock i := Some key),
        dispatcher_by_key := (dispatcher_by_key st)(key := Some (Sock i)), kernel := k\<rparr>
    in SocketDispatcher_Initialize ctl i (upd_sock i (\<lambda>p. q) st) = Some (True, st') \<and> pss_ok interest st'"
proof -
  let ?d = "Sock i"
  define key where "key = next_dispatcher_key st"
  define ev where "ev = GetEpollEvents (ucast (enabled_events q))"
  have ok: "keys_ok st" "descriptors_ok st" "synced interest {} st"
    using assms(2) by (simp_all add: pss_ok_def)
  have new: "key_by_dispatcher st ?d = None" "dispatcher_by_key st key = None"
    using ok(2) assms(3) apply (auto simp: descriptors_ok_def)[1]
    using ok(1) unfolding keys_ok_def key_def by (metis not_None_eq order_less_irrefl)
  have lt: "k < key + 1" if "k \<le> key" for k
    using assms(6) that by (simp add: key_def word_next)
  have unwatched: "interest (kernel st) (sock q) = None" if epoll: "epoll_fd st \<noteq> INVALID_SOCKET"
  proof (rule ccontr)
    assume "interest (kernel st) (sock q) \<noteq> None"
    then obtain e ky where "interest (kernel st) (sock q) = Some (e, ky)"
      by auto
    then obtain d where "watched st d (sock q) e ky"
      using ok(3) epoll by (auto simp: synced_def)
    then show False
      using assms(5) [of d] by (simp add: watched_def)
  qed
  obtain k1 where k1: "epoll_fd st \<noteq> INVALID_SOCKET \<Longrightarrow> ctl EPOLL_CTL_ADD (sock q) ev key (kernel st) = (0, k1)"
    "epoll_fd st \<noteq> INVALID_SOCKET \<Longrightarrow> interest k1 = (interest (kernel st))(sock q \<mapsto> (ev, key))"
    using epoll_ctl_add [OF assms(1), of "kernel st" "sock q" ev key] unwatched
    by (cases "epoll_fd st = INVALID_SOCKET") auto
  define k where "k = (if epoll_fd st = INVALID_SOCKET \<or> ev = 0 then kernel st else k1)"
  define st' where "st' = st\<lparr>sockets := (sockets st)(i := q), next_dispatcher_key := key + 1,
        key_by_dispatcher := (key_by_dispatcher st)(?d := Some key),
        dispatcher_by_key := (dispatcher_by_key st)(key := Some ?d), kernel := k\<rparr>"
  have run: "SocketDispatcher_Initialize ctl i (upd_sock i (\<lambda>p. q) st) = Some (True, st')"
    using assms(4) new k1(1)
    by (auto simp: SocketDispatcher_Initialize_def pss_Add_def AddEpoll_def emplace_def Let_def st'_def upd_sock_def
        k_def GetDescriptor_def GetRequestedEvents_def checked_simps simp flip: key_def ev_def)
  have desc: "GetDescriptor st' d = GetDescriptor st d" "effective st' d = effective st d" if "d \<noteq> ?d" for d
    using that by (auto simp: st'_def GetDescriptor_def effective_def split: dispatcher.splits)
  have mine: "GetDescriptor st' ?d = sock q" "GetEpollEvents (effective st' ?d) = ev"
    using assms(7) by (auto simp: st'_def GetDescriptor_def effective_def ev_def)
  have none: "dispatcher_by_key st ky \<noteq> Some ?d" for ky
    using ok(1) new(1) unfolding keys_ok_def by (metis option.distinct(1))
  have 1: "keys_ok st'"
    using ok(1) new lt none by (auto simp: keys_ok_def st'_def key_def order_less_imp_le)
  have reg: "key_by_dispatcher st' d \<noteq> None \<longleftrightarrow> d = ?d \<or> key_by_dispatcher st d \<noteq> None" for d
    by (simp add: st'_def)
  have inj: "inj_on (GetDescriptor st) {d. key_by_dispatcher st d \<noteq> None}"
    using ok(2) by (simp add: descriptors_ok_def)
  have "inj_on (GetDescriptor st') {d. key_by_dispatcher st' d \<noteq> None}"
  proof (rule inj_onI)
    fix x y
    assume xy: "x \<in> {d. key_by_dispatcher st' d \<noteq> None}" "y \<in> {d. key_by_dispatcher st' d \<noteq> None}"
      "GetDescriptor st' x = GetDescriptor st' y"
    then show "x = y"
      using reg [of x] reg [of y] desc(1) [of x] desc(1) [of y] mine(1) assms(5) [of x] assms(5) [of y]
        inj_onD [OF inj, of x y] by (cases "x = ?d"; cases "y = ?d"; simp)
  qed
  then have 2: "descriptors_ok st'"
    using ok(2) assms(4) by (auto simp: descriptors_ok_def st'_def)
  have w: "watched st' d f e ky \<longleftrightarrow> (if d = ?d then ky = key \<and> f = sock q \<and> e = ev \<and> e \<noteq> 0 else watched st d f e ky)" for d f e ky
    using desc [of d] mine by (auto simp: watched_def st'_def)
  have wq: "\<not> watched st d (sock q) e ky" "\<not> watched st ?d f e ky" for d f e ky
    using assms(5) new(1) by (auto simp: watched_def)
  have 3: "synced interest {} st'"
  proof (cases "epoll_fd st = INVALID_SOCKET")
    case False
    then have "interest (kernel st') = (interest (kernel st))(sock q := (if ev = 0 then None else Some (ev, key)))"
      using k1(2) unwatched by (auto simp: st'_def k_def fun_eq_iff)
    moreover have "(\<exists>d. watched st' d (sock q) e ky) \<longleftrightarrow> ky = key \<and> e = ev \<and> e \<noteq> 0" for e ky
      using w wq by (metis (full_types))
    moreover have "(\<exists>d. watched st' d f e ky) = (\<exists>d. watched st d f e ky)" if "f \<noteq> sock q" for f e ky
      using that w wq by (metis (full_types))
    ultimately show ?thesis
      using ok(3) False unfolding synced_def by (auto simp: st'_def)
  qed (simp add: synced_def st'_def)
  show ?thesis
    unfolding Let_def
    by (rule exI [of _ k], fold key_def, fold st'_def) (use run 1 2 3 in \<open>simp add: pss_ok_def\<close>)
qed

section \<open>The operations of a socket keep the invariant\<close>

definition unchanged :: "('k, 'c) pss \<Rightarrow> ('k, 'c) pss \<Rightarrow> bool" where
  "unchanged st st' \<longleftrightarrow> epoll_fd st' = epoll_fd st \<and> wakeup_fd st' = wakeup_fd st \<and> signaler st' = signaler st \<and>
     fWait st' = fWait st \<and> is_waiting st' = is_waiting st \<and> client st' = client st \<and>
     key_by_dispatcher st' Wakeup = key_by_dispatcher st Wakeup \<and>
     (\<forall>j. saved_enabled_events (sockets st' j) = - 1 \<longleftrightarrow> saved_enabled_events (sockets st j) = - 1)"

definition good :: "('k \<Rightarrow> int \<Rightarrow> (32 word \<times> 64 word) option) \<Rightarrow> ('k, 'c) pss \<Rightarrow> ('k, 'c) pss \<Rightarrow> bool" where
  "good interest st st' \<longleftrightarrow> pss_ok interest st' \<and> unchanged st st'"

lemma good_refl: "pss_ok interest st \<Longrightarrow> good interest st st"
  by (simp add: good_def unchanged_def)

lemma good_trans: "good interest a b \<Longrightarrow> good interest b c \<Longrightarrow> good interest a c"
  by (simp add: good_def unchanged_def)

lemma good_ok: "good interest st st' \<Longrightarrow> pss_ok interest st'"
  by (simp add: good_def)

lemma good_upd:
  assumes "\<And>p. sock (f p) = sock p" "\<And>p. enabled_events (f p) = enabled_events p"
    "\<And>p. saved_enabled_events (f p) = saved_enabled_events p"
    and "conn_state (f (sockets st i)) = CS_CONNECTED \<Longrightarrow> conn_state (sockets st i) = CS_CONNECTED \<or> sock (sockets st i) \<noteq> INVALID_SOCKET"
    "pss_ok interest st"
  shows "good interest st (upd_sock i f st)"
  using pss_ok_upd [OF assms] assms(3) by (simp add: good_def unchanged_def)

lemma SetError_good: "pss_ok interest st \<Longrightarrow> good interest st (SetError e i st)"
  unfolding SetError_def by (rule good_upd) auto

lemma SetError_sockets [simp]:
  "sock (sockets (SetError e i st) j) = sock (sockets st j)" "udp (sockets (SetError e i st) j) = udp (sockets st j)"
  "enabled_events (sockets (SetError e i st) j) = enabled_events (sockets st j)"
  "saved_enabled_events (sockets (SetError e i st) j) = saved_enabled_events (sockets st j)"
  "sock_error (sockets (SetError e i st) i) = e"
  by (simp_all add: SetError_def)

lemma change_good:
  assumes "epoll_documented ctl interest" "pss_ok interest st"
    "sock (sockets st i) = INVALID_SOCKET \<Longrightarrow> saved_enabled_events (sockets st i) \<noteq> - 1 \<Longrightarrow>
      enabled_events (sockets st i) = 0 \<Longrightarrow> e (sockets st i) = 0"
  shows "\<exists>k. MaybeUpdateDispatcher ctl i (enabled_events (sockets st i)) (upd_sock i (\<lambda>p. p\<lparr>enabled_events := e p\<rparr>) st) =
      Some ((upd_sock i (\<lambda>p. p\<lparr>enabled_events := e p\<rparr>) st)\<lparr>kernel := k\<rparr>) \<and>
    good interest st ((upd_sock i (\<lambda>p. p\<lparr>enabled_events := e p\<rparr>) st)\<lparr>kernel := k\<rparr>)"
proof -
  let ?st = "upd_sock i (\<lambda>p. p\<lparr>enabled_events := e p\<rparr>) st"
  obtain k where "MaybeUpdateDispatcher ctl i (enabled_events (sockets st i)) ?st = Some (?st\<lparr>kernel := k\<rparr>)"
    "pss_ok interest (?st\<lparr>kernel := k\<rparr>)"
    using change_events [of ctl interest st i e, OF assms] by blast
  then show ?thesis
    by (intro exI [of _ k]) (simp add: good_def unchanged_def)
qed

lemma SetEnabledEvents_good:
  assumes "epoll_documented ctl interest" "pss_ok interest st"
  shows "\<exists>st'. SetEnabledEvents ctl 0 i st = Some st' \<and> good interest st st'"
  using change_good [OF assms, of i "\<lambda>p. 0"] by (auto simp: SetEnabledEvents_def)

lemma DisableEvents_good:
  assumes "epoll_documented ctl interest" "pss_ok interest st"
  shows "\<exists>st'. DisableEvents ctl ev i st = Some st' \<and> good interest st st'"
  using change_good [OF assms, of i "\<lambda>p. enabled_events p AND NOT ev"] by (auto simp: DisableEvents_def)

text \<open>Events may be enabled on a socket that is open, or outside of its batches.\<close>

definition may_enable :: "('k, 'c) pss \<Rightarrow> nat \<Rightarrow> bool" where
  "may_enable st i \<longleftrightarrow> sock (sockets st i) \<noteq> INVALID_SOCKET \<or> saved_enabled_events (sockets st i) = - 1"

lemma may_enable_simps [simp]:
  "may_enable (SetError e i st) j = may_enable st j"
  "may_enable (upd_sock i (\<lambda>p. p\<lparr>conn_state := s\<rparr>) st) j = may_enable st j"
  by (simp_all add: may_enable_def SetError_def)

lemma EnableEvents_good:
  assumes "epoll_documented ctl interest" "pss_ok interest st" "may_enable st i"
  shows "\<exists>k. EnableEvents ctl ev i st = Some ((upd_sock i (\<lambda>p. p\<lparr>enabled_events := enabled_events p OR ev\<rparr>) st)\<lparr>kernel := k\<rparr>) \<and>
    good interest st ((upd_sock i (\<lambda>p. p\<lparr>enabled_events := enabled_events p OR ev\<rparr>) st)\<lparr>kernel := k\<rparr>)"
  using change_good [OF assms(1,2), of i "\<lambda>p. enabled_events p OR ev"] assms(3) by (auto simp: EnableEvents_def may_enable_def)

lemma registered_open:
  assumes "pss_ok interest st"
  shows "key_by_dispatcher st (Sock i) = None \<longleftrightarrow> sock (sockets st i) = INVALID_SOCKET"
proof -
  have "key_by_dispatcher st (Sock i) \<noteq> None \<longleftrightarrow> sock (sockets st i) \<noteq> INVALID_SOCKET"
    using assms unfolding pss_ok_def descriptors_ok_def by blast
  then show ?thesis
    by blast
qed

lemma Close_good:
  assumes "epoll_documented ctl interest" "pss_ok interest st"
  shows "\<exists>r st'. SocketDispatcher_Close ctl closed i st = Some (r, st') \<and> good interest st st' \<and>
    sock (sockets st' i) = INVALID_SOCKET"
proof (cases "key_by_dispatcher st (Sock i)")
  case None
  then have "sock (sockets st i) = INVALID_SOCKET"
    using registered_open [OF assms(2)] by blast
  then show ?thesis
    using Close_closed [of st i] good_refl [OF assms(2)] by auto
next
  case (Some key)
  obtain err errno where c: "closed = (err, errno)"
    by force
  obtain k where k: "SocketDispatcher_Close ctl (err, errno) i st = Some (err, st\<lparr>sockets := (sockets st)(i := closed_socket errno (sockets st i)),
        key_by_dispatcher := (key_by_dispatcher st)(Sock i := None),
        dispatcher_by_key := (dispatcher_by_key st)(key := None), kernel := k\<rparr>)"
    "pss_ok interest (st\<lparr>sockets := (sockets st)(i := closed_socket errno (sockets st i)),
        key_by_dispatcher := (key_by_dispatcher st)(Sock i := None),
        dispatcher_by_key := (dispatcher_by_key st)(key := None), kernel := k\<rparr>)"
    using Close_ok [OF assms Some, of errno err] by (auto simp: Let_def)
  show ?thesis
    unfolding c k(1) good_def using k(2) by (auto simp: unchanged_def closed_socket_def)
qed

section \<open>New sockets\<close>

definition fresh_fd :: "('k, 'c) pss \<Rightarrow> int \<Rightarrow> bool" where
  "fresh_fd st fd \<longleftrightarrow> fd \<noteq> INVALID_SOCKET \<longrightarrow>
     (\<forall>d. key_by_dispatcher st d \<noteq> None \<longrightarrow> GetDescriptor st d \<noteq> fd) \<and> next_dispatcher_key st \<noteq> - 1"

definition new_object :: "('k, 'c) pss \<Rightarrow> nat \<Rightarrow> bool" where
  "new_object st i \<longleftrightarrow> sock (sockets st i) = INVALID_SOCKET \<and> saved_enabled_events (sockets st i) = - 1"

lemma replace_closed:
  assumes "pss_ok interest st" "sock (sockets st i) = INVALID_SOCKET" "sock q = INVALID_SOCKET"
    "conn_state q \<noteq> CS_CONNECTED"
    "saved_enabled_events q = - 1 \<or> saved_enabled_events q = 0 \<and> enabled_events q = 0"
  shows "pss_ok interest (upd_sock i (\<lambda>p. q) st)"
proof -
  let ?st = "upd_sock i (\<lambda>p. q) st"
  have unreg: "key_by_dispatcher st (Sock i) = None"
    using registered_open [OF assms(1)] assms(2) by blast
  have d: "GetDescriptor ?st d = GetDescriptor st d" for d
    using assms(2,3) by (auto simp: GetDescriptor_def split: dispatcher.splits)
  have e: "effective ?st d = effective st d" if "d \<noteq> Sock i" for d
    using that by (auto simp: effective_def Let_def split: dispatcher.splits)
  have "watched ?st d fd ev key = watched st d fd ev key" for d fd ev key
    using d [of d] e [of d] unreg by (cases "d = Sock i") (auto simp: watched_def)
  then have w: "watched ?st = watched st"
    by (intro ext)
  have g: "GetDescriptor ?st = GetDescriptor st"
    using d by (intro ext)
  show ?thesis
    using assms w g by (auto simp: pss_ok_def keys_ok_def descriptors_ok_def synced_def)
qed

lemma Initialize_good:
  assumes "epoll_documented ctl interest" "pss_ok interest st" "sock (sockets st i) = INVALID_SOCKET"
    "sock q \<noteq> INVALID_SOCKET" "fresh_fd st (sock q)"
    "saved_enabled_events q = - 1 \<or> saved_enabled_events q = 0 \<and> enabled_events q = 0"
    "saved_enabled_events q = - 1 \<longleftrightarrow> saved_enabled_events (sockets st i) = - 1"
  shows "\<exists>st'. SocketDispatcher_Initialize ctl i (upd_sock i (\<lambda>p. q) st) = Some (True, st') \<and> good interest st st' \<and>
    sockets st' = (sockets st)(i := q)"
proof -
  have f: "\<And>d. key_by_dispatcher st d \<noteq> None \<Longrightarrow> GetDescriptor st d \<noteq> sock q" "next_dispatcher_key st \<noteq> - 1"
    using assms(4,5) by (auto simp: fresh_fd_def)
  let ?key = "next_dispatcher_key st"
  obtain k where k: "SocketDispatcher_Initialize ctl i (upd_sock i (\<lambda>p. q) st) = Some (True,
        st\<lparr>sockets := (sockets st)(i := q), next_dispatcher_key := ?key + 1,
        key_by_dispatcher := (key_by_dispatcher st)(Sock i := Some ?key),
        dispatcher_by_key := (dispatcher_by_key st)(?key := Some (Sock i)), kernel := k\<rparr>)"
    "pss_ok interest (st\<lparr>sockets := (sockets st)(i := q), next_dispatcher_key := ?key + 1,
        key_by_dispatcher := (key_by_dispatcher st)(Sock i := Some ?key),
        dispatcher_by_key := (dispatcher_by_key st)(?key := Some (Sock i)), kernel := k\<rparr>)"
    using Initialize_ok [OF assms(1-4) f assms(6)] by (auto simp: Let_def)
  show ?thesis
    unfolding k(1) good_def using k(2) assms(7) by (auto simp: unchanged_def)
qed

lemma Create_good:
  assumes "epoll_documented ctl interest" "pss_ok interest st" "sock (sockets st i) = INVALID_SOCKET"
    "fresh_fd st fd" "ty = SOCK_DGRAM \<Longrightarrow> saved_enabled_events (sockets st i) = - 1"
  shows "\<exists>st'. SocketDispatcher_Create ctl fam ty closed (fd, errno) i st = Some (fd \<noteq> INVALID_SOCKET, st') \<and>
    good interest st st' \<and> sock (sockets st' i) = fd \<and> udp (sockets st' i) = (ty = SOCK_DGRAM)"
proof -
  let ?p = "sockets st i"
  define q where "q = ?p\<lparr>sock := fd, udp := (ty = SOCK_DGRAM), sock_family := fam, sock_error := errno,
    enabled_events := (if ty = SOCK_DGRAM then DE_READ OR DE_WRITE else enabled_events ?p)\<rparr>"
  have unreg: "key_by_dispatcher st (Sock i) = None"
    using registered_open [OF assms(2)] assms(3) by blast
  have closed: "conn_state ?p \<noteq> CS_CONNECTED" "saved_enabled_events ?p = - 1 \<or> saved_enabled_events ?p = 0 \<and> enabled_events ?p = 0"
    using assms(2,3) by (auto simp: pss_ok_def descriptors_ok_def)
  have q: "sock q = fd" "saved_enabled_events q = saved_enabled_events ?p" "udp q = (ty = SOCK_DGRAM)"
    "conn_state q = conn_state ?p"
    "saved_enabled_events q = - 1 \<or> saved_enabled_events q = 0 \<and> enabled_events q = 0"
    using closed(2) assms(5) by (auto simp: q_def)
  have create: "PhysicalSocket_Create ctl fam ty closed (fd, errno) i st = Some (fd \<noteq> INVALID_SOCKET, upd_sock i (\<lambda>p. q) st)"
    using assms(3) unreg
    by (auto simp: PhysicalSocket_Create_def Close_closed SetError_def SetEnabledEvents_def MaybeUpdateDispatcher_def
        pss_Update_def upd_sock_def q_def Let_def)
  show ?thesis
  proof (cases "fd = INVALID_SOCKET")
    case True
    have "pss_ok interest (upd_sock i (\<lambda>p. q) st)"
      using replace_closed [OF assms(2,3)] q closed(1) True by simp
    then show ?thesis
      using create q True by (auto simp: SocketDispatcher_Create_def good_def unchanged_def)
  next
    case False
    obtain st' where st': "SocketDispatcher_Initialize ctl i (upd_sock i (\<lambda>p. q) st) = Some (True, st')"
      "good interest st st'" "sockets st' = (sockets st)(i := q)"
      using Initialize_good [OF assms(1-3), of q] q assms(4) False by auto
    then show ?thesis
      using create q False by (auto simp: SocketDispatcher_Create_def)
  qed
qed

lemma CreateSocket_good:
  assumes "epoll_documented ctl interest" "pss_ok interest st" "new_object st i" "fresh_fd st (fst created)"
  shows "\<exists>r st'. CreateSocket ctl fam ty created i st = Some (r, st') \<and> good interest st st' \<and>
    (r = Some i \<longleftrightarrow> fst created \<noteq> INVALID_SOCKET) \<and> sock (sockets st' i) = fst created"
proof -
  obtain fd errno where c: "created = (fd, errno)"
    by force
  let ?st = "upd_sock i (\<lambda>p. new_socket) st"
  have ok: "pss_ok interest ?st"
    by (rule replace_closed) (use assms(2,3) in \<open>simp_all add: new_object_def new_socket_def\<close>)
  have same: "good interest st ?st"
    using ok assms(3) by (simp add: good_def unchanged_def new_object_def new_socket_def)
  have d: "GetDescriptor ?st d = GetDescriptor st d" for d
    using assms(3) by (auto simp: GetDescriptor_def new_object_def new_socket_def split: dispatcher.splits)
  have fresh: "fresh_fd ?st fd"
    using assms(4) d c by (simp add: fresh_fd_def)
  obtain st' where "SocketDispatcher_Create ctl fam ty (0, 0) (fd, errno) i ?st = Some (fd \<noteq> INVALID_SOCKET, st')" "good interest ?st st'"
    "sock (sockets st' i) = fd"
    using Create_good [OF assms(1) ok _ fresh, of i ty fam "(0, 0)" errno] by (auto simp: new_socket_def)
  then show ?thesis
    using good_trans [OF same] c by (auto simp: CreateSocket_def)
qed

lemma WrapSocket_good:
  assumes "epoll_documented ctl interest" "pss_ok interest st" "new_object st j" "fresh_fd st s" "s \<noteq> INVALID_SOCKET"
  shows "\<exists>st'. WrapSocket ctl s ty j st = Some (Some j, st') \<and> good interest st st'"
proof -
  obtain st' where "SocketDispatcher_Initialize ctl j (upd_sock j (\<lambda>p. wrapped_socket s ty) st) = Some (True, st')" "good interest st st'"
    using Initialize_good [OF assms(1,2), of j "wrapped_socket s ty"] assms(3-5)
    by (auto simp: wrapped_socket_def new_socket_def new_object_def)
  then show ?thesis
    by (simp add: WrapSocket_def)
qed

section \<open>Calls\<close>

lemma Enable_good:
  assumes "epoll_documented ctl interest" "pss_ok interest st" "may_enable st i"
  shows "\<exists>st'. EnableEvents ctl ev i st = Some st' \<and> good interest st st'"
  using EnableEvents_good [OF assms] by blast

lemma DoConnect_good:
  assumes "epoll_documented ctl interest" "pss_ok interest st" "fresh_fd st (fst created)"
  shows "\<exists>r st'. DoConnect ctl addr created connected i st = Some (r, st') \<and> good interest st st'"
proof -
  obtain fd errno where c: "created = (fd, errno)"
    by force
  obtain err errno2 where e: "connected = (err, errno2)"
    by force
  obtain ok st1 where st1: "(if sock (sockets st i) = INVALID_SOCKET
                 then SocketDispatcher_Create ctl (family (ip addr)) SOCK_STREAM (0, 0) created i st
                 else Some (True, st)) = Some (ok, st1)" "good interest st st1" "ok \<longleftrightarrow> sock (sockets st1 i) \<noteq> INVALID_SOCKET"
  proof (cases "sock (sockets st i) = INVALID_SOCKET")
    case True
    then show thesis
      using Create_good [OF assms(1,2) True, of fd SOCK_STREAM "family (ip addr)" "(0, 0)" errno] assms(3) that c by auto
  next
    case False
    then show thesis
      using good_refl [OF assms(2)] that by auto
  qed
  let ?st2 = "SetError errno2 i st1"
  have 2: "good interest st ?st2"
    using good_trans [OF st1(2) SetError_good] st1(2) by (simp add: good_ok)
  have 3: "good interest st (upd_sock i (\<lambda>p. p\<lparr>conn_state := s\<rparr>) ?st2)" "sock (sockets (upd_sock i (\<lambda>p. p\<lparr>conn_state := s\<rparr>) ?st2) i) \<noteq> INVALID_SOCKET"
    if ok for s
  proof -
    show "sock (sockets (upd_sock i (\<lambda>p. p\<lparr>conn_state := s\<rparr>) ?st2) i) \<noteq> INVALID_SOCKET"
      using st1(3) that by simp
    show "good interest st (upd_sock i (\<lambda>p. p\<lparr>conn_state := s\<rparr>) ?st2)"
      by (rule good_trans [OF 2], rule good_upd) (use st1(3) that good_ok [OF 2] in auto)
  qed
  have 4: "\<exists>st'. EnableEvents ctl ev i (upd_sock i (\<lambda>p. p\<lparr>conn_state := s\<rparr>) ?st2) = Some st' \<and> good interest st st'" if ok for s ev
  proof -
    have "may_enable (upd_sock i (\<lambda>p. p\<lparr>conn_state := s\<rparr>) ?st2) i"
      using st1(3) that by (simp add: may_enable_def)
    from Enable_good [OF assms(1) good_ok [OF 3(1) [OF that]] this] show ?thesis
      using good_trans [OF 3(1) [OF that]] by blast
  qed
  show ?thesis
    unfolding DoConnect_def st1(1) e
    using 2 4 [where s = CS_CONNECTED and ev = "DE_READ OR DE_WRITE"] 4 [where s = CS_CONNECTING and ev = "DE_READ OR DE_WRITE OR DE_CONNECT"]
      good_ok st1(2) by (cases ok) (auto simp: Let_def)
qed

lemma Connect_good:
  assumes "epoll_documented ctl interest" "pss_ok interest st" "fresh_fd st (fst created)"
  shows "\<exists>r st'. Connect ctl addr rs created connected i st = Some (r, st') \<and> good interest st st'"
proof -
  have "good interest st (upd_sock i (\<lambda>p. p\<lparr>resolver := Some rs, conn_state := CS_CONNECTING\<rparr>) st)"
    by (rule good_upd) (use assms(2) in auto)
  then show ?thesis
    using DoConnect_good [OF assms] SetError_good [OF assms(2)] by (auto simp: Connect_def)
qed

text \<open>After \<open>errno\<close> is noted the events may be enabled.\<close>

lemma noted_good:
  assumes "epoll_documented ctl interest" "pss_ok interest st" "may_enable st i"
  shows "\<exists>st'. (if b then EnableEvents ctl ev i (SetError e i st) else Some (SetError e i st)) = Some st' \<and> good interest st st'"
proof -
  have 1: "good interest st (SetError e i st)"
    by (rule SetError_good [OF assms(2)])
  show ?thesis
    using Enable_good [OF assms(1) good_ok [OF 1], of i ev] assms(3) 1 good_trans [OF 1] by (cases b) auto
qed

lemma Send_good:
  assumes "epoll_documented ctl interest" "pss_ok interest st" "may_enable st i" "fst answer \<le> cb"
  shows "\<exists>r st'. Send ctl cb answer i st = Some (r, st') \<and> good interest st st'"
proof -
  obtain sent errno where a: "answer = (sent, errno)"
    by force
  then show ?thesis
    using noted_good [OF assms(1-3), of "0 < sent \<and> sent < cb \<or> sent < 0 \<and> IsBlockingError errno" DE_WRITE errno] assms(4)
    by (auto simp: Send_def Let_def checked_simps)
qed

lemma RecvFrom_good:
  assumes "epoll_documented ctl interest" "pss_ok interest st" "may_enable st i"
  shows "\<exists>r st'. RecvFrom ctl answer i st = Some (r, st') \<and> good interest st st'"
proof -
  obtain received errno where a: "answer = (received, errno)"
    by force
  then show ?thesis
    using noted_good [OF assms, of "udp (sockets st i) \<or> 0 \<le> received \<or> IsBlockingError errno" DE_READ errno]
    by (auto simp: RecvFrom_def Let_def)
qed

lemma Recv_good:
  assumes "epoll_documented ctl interest" "pss_ok interest st" "may_enable st i"
  shows "\<exists>r st'. Recv ctl len answer i st = Some (r, st') \<and> good interest st st'"
proof -
  obtain received errno where a: "answer = (received, errno)"
    by force
  obtain st1 where 1: "EnableEvents ctl DE_READ i st = Some st1" "good interest st st1"
    using Enable_good [OF assms] by blast
  show ?thesis
  proof (cases "received = 0 \<and> len \<noteq> 0")
    case True
    then show ?thesis
      using 1 a good_trans [OF 1(2) SetError_good [OF good_ok [OF 1(2)]]] by (auto simp: Recv_def)
  next
    case False
    then have "Recv ctl len answer i st = RecvFrom ctl answer i st"
      unfolding Recv_def RecvFrom_def a by (auto simp: Let_def)
    then show ?thesis
      using RecvFrom_good [OF assms] by simp
  qed
qed

lemma Listen_good:
  assumes "epoll_documented ctl interest" "pss_ok interest st" "may_enable st i"
  shows "\<exists>r st'. Listen ctl answer i st = Some (r, st') \<and> good interest st st'"
proof -
  obtain err errno where a: "answer = (err, errno)"
    by force
  have 1: "good interest st (SetError errno i st)"
    by (rule SetError_good [OF assms(2)])
  let ?st2 = "upd_sock i (\<lambda>p. p\<lparr>conn_state := CS_CONNECTING\<rparr>) (SetError errno i st)"
  have 2: "good interest st ?st2"
    by (rule good_trans [OF 1], rule good_upd) (use good_ok [OF 1] in auto)
  have "\<exists>st'. EnableEvents ctl DE_ACCEPT i ?st2 = Some st' \<and> good interest st st'"
    using Enable_good [OF assms(1) good_ok [OF 2], of i DE_ACCEPT] assms(3) good_trans [OF 2] by auto
  then show ?thesis
    using 1 by (cases "err = 0") (auto simp: Listen_def a)
qed

lemma Accept_good:
  assumes "epoll_documented ctl interest" "pss_ok interest st" "may_enable st i" "i \<noteq> j"
    "new_object st j" "fresh_fd st (fst answer)"
  shows "\<exists>r st'. Accept ctl answer ty j i st = Some (r, st') \<and> good interest st st'"
proof -
  obtain s errno where a: "answer = (s, errno)"
    by force
  obtain k where k: "EnableEvents ctl DE_ACCEPT i st = Some ((upd_sock i (\<lambda>p. p\<lparr>enabled_events := enabled_events p OR DE_ACCEPT\<rparr>) st)\<lparr>kernel := k\<rparr>)"
    "good interest st ((upd_sock i (\<lambda>p. p\<lparr>enabled_events := enabled_events p OR DE_ACCEPT\<rparr>) st)\<lparr>kernel := k\<rparr>)"
    using EnableEvents_good [OF assms(1-3)] by blast
  let ?st1 = "(upd_sock i (\<lambda>p. p\<lparr>enabled_events := enabled_events p OR DE_ACCEPT\<rparr>) st)\<lparr>kernel := k\<rparr>"
  let ?st2 = "SetError errno i ?st1"
  have 2: "good interest st ?st2"
    using good_trans [OF k(2) SetError_good [OF good_ok [OF k(2)]]] .
  have d: "GetDescriptor ?st2 d = GetDescriptor st d" for d
    by (auto simp: GetDescriptor_def SetError_def split: dispatcher.splits)
  have "fresh_fd ?st2 s" "new_object ?st2 j"
    using assms(4-6) d a by (auto simp: fresh_fd_def new_object_def SetError_def)
  then have "s \<noteq> INVALID_SOCKET \<Longrightarrow> \<exists>st'. WrapSocket ctl s ty j ?st2 = Some (Some j, st') \<and> good interest st st'"
    using WrapSocket_good [OF assms(1) good_ok [OF 2], of j s ty] good_trans [OF 2] by blast
  then show ?thesis
    using 2 by (cases "s = INVALID_SOCKET") (auto simp: Accept_def a k(1))
qed

text \<open>The calls a program makes on sockets, with the answers of the system; what is required of each: a new
  object is not in use, a new descriptor is not in use, the system sends no more than it is given and
  fails on a closed socket, which the calls are not made on within a batch of its own.\<close>

datatype sock_call =
    Call_CreateSocket nat ip_family sock_type answer
  | Call_Connect nat SocketAddress nat answer answer
  | Call_Send nat int answer
  | Call_Recv nat int answer
  | Call_RecvFrom nat answer
  | Call_Listen nat answer
  | Call_Accept nat nat sock_type answer
  | Call_Close nat answer

fun run_call :: "'k epoll_ctl \<Rightarrow> sock_call \<Rightarrow> ('k, 'c) pss \<Rightarrow> ('k, 'c) pss checked" where
  "run_call ctl (Call_CreateSocket i fam ty created) st = map_option snd (CreateSocket ctl fam ty created i st)"
| "run_call ctl (Call_Connect i addr r created connected) st = map_option snd (Connect ctl addr r created connected i st)"
| "run_call ctl (Call_Send i cb answer) st = map_option snd (Send ctl cb answer i st)"
| "run_call ctl (Call_Recv i len answer) st = map_option snd (Recv ctl len answer i st)"
| "run_call ctl (Call_RecvFrom i answer) st = map_option snd (RecvFrom ctl answer i st)"
| "run_call ctl (Call_Listen i answer) st = map_option snd (Listen ctl answer i st)"
| "run_call ctl (Call_Accept i j ty answer) st = map_option snd (Accept ctl answer ty j i st)"
| "run_call ctl (Call_Close i closed) st = map_option snd (SocketDispatcher_Close ctl closed i st)"

definition transfer_ok :: "('k, 'c) pss \<Rightarrow> nat \<Rightarrow> answer \<Rightarrow> bool" where
  "transfer_ok st i answer \<longleftrightarrow>
     sock (sockets st i) \<noteq> INVALID_SOCKET \<or> saved_enabled_events (sockets st i) = - 1 \<and> answer = (- 1, EBADF)"

fun call_ok :: "('k, 'c) pss \<Rightarrow> sock_call \<Rightarrow> bool" where
  "call_ok st (Call_CreateSocket i fam ty created) \<longleftrightarrow> new_object st i \<and> fresh_fd st (fst created)"
| "call_ok st (Call_Connect i addr r created connected) \<longleftrightarrow> fresh_fd st (fst created)"
| "call_ok st (Call_Send i cb answer) \<longleftrightarrow> transfer_ok st i answer \<and> fst answer \<le> cb"
| "call_ok st (Call_Recv i len answer) \<longleftrightarrow> transfer_ok st i answer"
| "call_ok st (Call_RecvFrom i answer) \<longleftrightarrow> transfer_ok st i answer"
| "call_ok st (Call_Listen i answer) \<longleftrightarrow> transfer_ok st i answer"
| "call_ok st (Call_Accept i j ty answer) \<longleftrightarrow> transfer_ok st i answer \<and> i \<noteq> j \<and> new_object st j \<and> fresh_fd st (fst answer)"
| "call_ok st (Call_Close i closed) \<longleftrightarrow> True"

lemma may_transfer: "transfer_ok st i answer \<Longrightarrow> may_enable st i"
  by (auto simp: transfer_ok_def may_enable_def)

lemma run_call_good:
  assumes "epoll_documented ctl interest" "pss_ok interest st" "call_ok st c"
  shows "\<exists>st'. run_call ctl c st = Some st' \<and> good interest st st'"
proof (cases c)
  case (Call_CreateSocket i fam ty created)
  then show ?thesis
    using CreateSocket_good [OF assms(1,2), of i created fam ty] assms(3) by auto
next
  case (Call_Connect i addr r created connected)
  then show ?thesis
    using Connect_good [OF assms(1,2), of created addr r connected i] assms(3) by auto
next
  case (Call_Send i cb answer)
  then show ?thesis
    using Send_good [OF assms(1,2), of i answer cb] assms(3) may_transfer [of st i answer] by auto
next
  case (Call_Recv i len answer)
  then show ?thesis
    using Recv_good [OF assms(1,2), of i len answer] assms(3) may_transfer [of st i answer] by auto
next
  case (Call_RecvFrom i answer)
  then show ?thesis
    using RecvFrom_good [OF assms(1,2), of i answer] assms(3) may_transfer [of st i answer] by auto
next
  case (Call_Listen i answer)
  then show ?thesis
    using Listen_good [OF assms(1,2), of i answer] assms(3) may_transfer [of st i answer] by auto
next
  case (Call_Accept i j ty answer)
  then show ?thesis
    using Accept_good [OF assms(1,2), of i j answer ty] assms(3) may_transfer [of st i answer] by auto
next
  case (Call_Close i closed)
  then show ?thesis
    using Close_good [OF assms(1,2), of closed i] by auto
qed

section \<open>Keys are used once\<close>

text \<open>A key that was given out never names another dispatcher: later it names the same one, or none.\<close>

definition later :: "('k, 'c) pss \<Rightarrow> ('k, 'c) pss \<Rightarrow> bool" where
  "later st st' \<longleftrightarrow> next_dispatcher_key st \<le> next_dispatcher_key st' \<and>
     (\<forall>key < next_dispatcher_key st. dispatcher_by_key st' key = dispatcher_by_key st key \<or> dispatcher_by_key st' key = None)"

definition same_keys :: "('k, 'c) pss \<Rightarrow> ('k, 'c) pss \<Rightarrow> bool" where
  "same_keys st st' \<longleftrightarrow> next_dispatcher_key st' = next_dispatcher_key st \<and> dispatcher_by_key st' = dispatcher_by_key st"

lemma later_refl: "later st st"
  by (simp add: later_def)

lemma later_trans: "later a b \<Longrightarrow> later b c \<Longrightarrow> later a c"
  unfolding later_def by (metis order.strict_trans2 order.trans)

lemma same_keys_later: "same_keys st st' \<Longrightarrow> later st st'"
  by (simp add: same_keys_def later_def)

lemma later_upd [simp]: "later (upd_sock i f a) b = later a b"
  by (simp add: later_def)

lemma same_keys_trans: "same_keys a b \<Longrightarrow> same_keys b c \<Longrightarrow> same_keys a c"
  by (simp add: same_keys_def)

lemma same_keys_upd [simp]: "same_keys a (upd_sock i f b) = same_keys a b" "same_keys (upd_sock i f a) b = same_keys a b"
  "same_keys a (SetError e i b) = same_keys a b" "same_keys (SetError e i a) b = same_keys a b" "same_keys a a"
  by (simp_all add: same_keys_def SetError_def)

lemma MaybeUpdateDispatcher_keys: "MaybeUpdateDispatcher ctl i old st = Some st' \<Longrightarrow> same_keys st st'"
  by (auto simp: MaybeUpdateDispatcher_def pss_Update_def UpdateEpoll_def same_keys_def Let_def checked_simps
      split: if_splits option.splits prod.splits)

lemma events_keys:
  "SetEnabledEvents ctl ev i st = Some st' \<Longrightarrow> same_keys st st'"
  "EnableEvents ctl ev i st = Some st' \<Longrightarrow> same_keys st st'"
  "DisableEvents ctl ev i st = Some st' \<Longrightarrow> same_keys st st'"
  using MaybeUpdateDispatcher_keys by (fastforce simp: SetEnabledEvents_def EnableEvents_def DisableEvents_def Let_def)+

lemma batch_keys:
  "StartBatchedEventUpdates i st = Some st' \<Longrightarrow> same_keys st st'"
  "FinishBatchedEventUpdates ctl i st = Some st' \<Longrightarrow> same_keys st st'"
  using MaybeUpdateDispatcher_keys
  by (fastforce simp: StartBatchedEventUpdates_def FinishBatchedEventUpdates_def Let_def checked_simps split: if_splits)+

lemma pss_Remove_keys:
  "pss_Remove ctl d st = Some st' \<Longrightarrow> later st st' \<and> next_dispatcher_key st' = next_dispatcher_key st"
  by (auto simp: pss_Remove_def RemoveEpoll_def later_def Let_def checked_simps split: if_splits option.splits prod.splits)

lemma pss_Add_keys:
  assumes "pss_Add ctl d st = Some st'" "next_dispatcher_key st \<noteq> - 1"
  shows "later st st'"
proof -
  have "next_dispatcher_key st < next_dispatcher_key st + 1"
    using assms(2) by (simp add: word_next)
  then show ?thesis
    using assms(1)
    by (auto simp: pss_Add_def AddEpoll_def later_def emplace_def Let_def checked_simps split: if_splits prod.splits)
qed

lemma Close_keys:
  assumes "SocketDispatcher_Close ctl closed i st = Some (r, st')"
  shows "later st st' \<and> next_dispatcher_key st' = next_dispatcher_key st"
proof (cases "sock (sockets st i) = INVALID_SOCKET")
  case True
  then show ?thesis
    using assms by (simp add: SocketDispatcher_Close_def later_refl)
next
  case False
  let ?st = "if saved_enabled_events (sockets st i) \<noteq> - 1 then upd_sock i (\<lambda>p. p\<lparr>saved_enabled_events := 0\<rparr>) st else st"
  obtain st1 where 1: "pss_Remove ctl (Sock i) ?st = Some st1" "PhysicalSocket_Close ctl closed i st1 = Some (r, st')"
    using assms False by (auto simp: SocketDispatcher_Close_def Let_def checked_simps split: if_splits)
  have "same_keys st ?st"
    by simp
  moreover have "later ?st st1 \<and> next_dispatcher_key st1 = next_dispatcher_key ?st"
    by (rule pss_Remove_keys [OF 1(1)])
  moreover have "same_keys st1 st'"
    using 1(2) events_keys(1)
    by (fastforce simp: PhysicalSocket_Close_def Let_def checked_simps split: if_splits prod.splits)
  ultimately show ?thesis
    using later_trans same_keys_later by (metis same_keys_def)
qed

lemma Initialize_keys:
  "SocketDispatcher_Initialize ctl i st = Some (r, st') \<Longrightarrow> next_dispatcher_key st \<noteq> - 1 \<Longrightarrow> later st st'"
  using pss_Add_keys by (auto simp: SocketDispatcher_Initialize_def checked_simps split: if_splits)

lemma Create_keys:
  assumes "SocketDispatcher_Create ctl fam ty closed created i st = Some (r, st')" "fst created \<noteq> INVALID_SOCKET \<Longrightarrow> next_dispatcher_key st \<noteq> - 1"
  shows "later st st'"
proof -
  obtain fd errno where c: "created = (fd, errno)"
    by force
  obtain ok st2 where 2: "PhysicalSocket_Create ctl fam ty closed created i st = Some (ok, st2)"
    "if ok then SocketDispatcher_Initialize ctl i st2 = Some (r, st') else st' = st2"
    using assms(1) by (auto simp: SocketDispatcher_Create_def checked_simps split: if_splits)
  obtain err st1 where 1: "SocketDispatcher_Close ctl closed i st = Some (err, st1)" "same_keys st1 st2" "ok \<longleftrightarrow> fd \<noteq> INVALID_SOCKET"
    using 2(1) events_keys(1) by (fastforce simp: PhysicalSocket_Create_def c Let_def checked_simps split: if_splits)
  have 3: "later st st2" "next_dispatcher_key st2 = next_dispatcher_key st"
    using Close_keys [OF 1(1)] later_trans same_keys_later [OF 1(2)] 1(2) by (auto simp: same_keys_def intro: later_trans)
  show ?thesis
  proof (cases ok)
    case True
    then have "later st2 st'"
      using 2(2) 3(2) assms(2) 1(3) c Initialize_keys [of ctl i st2 r st'] by simp
    then show ?thesis
      by (rule later_trans [OF 3(1)])
  next
    case False
    then show ?thesis
      using 2(2) 3(1) by simp
  qed
qed

lemma fresh_key: "fresh_fd st fd \<Longrightarrow> fd \<noteq> INVALID_SOCKET \<Longrightarrow> next_dispatcher_key st \<noteq> - 1"
  by (simp add: fresh_fd_def)

lemma CreateSocket_keys:
  assumes "CreateSocket ctl fam ty created i st = Some (r, st')" "fresh_fd st (fst created)"
  shows "later st st'"
proof -
  let ?st = "upd_sock i (\<lambda>p. new_socket) st"
  obtain ok where "SocketDispatcher_Create ctl fam ty (0, 0) created i ?st = Some (ok, st')"
    using assms(1) by (auto simp: CreateSocket_def checked_simps)
  then have "later ?st st'"
    using fresh_key [OF assms(2)] Create_keys [of ctl fam ty "(0, 0)" created i ?st ok st'] by simp
  then show ?thesis
    by simp
qed

lemma WrapSocket_keys:
  assumes "WrapSocket ctl s ty i st = Some (r, st')" "next_dispatcher_key st \<noteq> - 1"
  shows "later st st'"
proof -
  let ?st = "upd_sock i (\<lambda>p. wrapped_socket s ty) st"
  obtain ok where "SocketDispatcher_Initialize ctl i ?st = Some (ok, st')"
    using assms(1) by (auto simp: WrapSocket_def checked_simps)
  then have "later ?st st'"
    using assms(2) by (intro Initialize_keys) simp_all
  then show ?thesis
    by simp
qed

lemma DoConnect_keys:
  assumes "DoConnect ctl addr created connected i st = Some (r, st')" "fresh_fd st (fst created)"
  shows "later st st'"
proof -
  obtain err errno where c: "connected = (err, errno)"
    by force
  obtain ok st1 where 1: "(if sock (sockets st i) = INVALID_SOCKET
                 then SocketDispatcher_Create ctl (family (ip addr)) SOCK_STREAM (0, 0) created i st
                 else Some (True, st)) = Some (ok, st1)"
    using assms(1) unfolding DoConnect_def bind_eq_Some_conv by force
  have "same_keys st1 st'"
    using assms(1) events_keys(2) unfolding DoConnect_def 1 c
    by (fastforce simp: Let_def checked_simps split: if_splits)
  moreover have "later st st1"
    using 1 Create_keys [OF _ fresh_key [OF assms(2)]] by (auto simp: later_refl split: if_splits)
  ultimately show ?thesis
    using later_trans same_keys_later by blast
qed

lemma Connect_keys:
  assumes "Connect ctl addr rs created connected i st = Some (r, st')" "fresh_fd st (fst created)"
  shows "later st st'"
  using assms DoConnect_keys [of ctl addr created connected i st r st'] same_keys_later [of st]
  by (auto simp: Connect_def split: if_splits)

lemma transfer_keys:
  "Send ctl cb answer i st = Some (r, st') \<Longrightarrow> same_keys st st'"
  "Recv ctl len answer i st = Some (r, st') \<Longrightarrow> same_keys st st'"
  "RecvFrom ctl answer i st = Some (r, st') \<Longrightarrow> same_keys st st'"
  "Listen ctl answer i st = Some (r, st') \<Longrightarrow> same_keys st st'"
  using events_keys(2)
  by (fastforce simp: Send_def Recv_def RecvFrom_def Listen_def Let_def checked_simps split: if_splits prod.splits)+

lemma Accept_keys:
  assumes "Accept ctl answer ty j i st = Some (r, st')" "fresh_fd st (fst answer)"
  shows "later st st'"
proof -
  obtain s errno where a: "answer = (s, errno)"
    by force
  obtain st1 where 1: "EnableEvents ctl DE_ACCEPT i st = Some st1"
    "if s = INVALID_SOCKET then st' = SetError errno i st1 else WrapSocket ctl s ty j (SetError errno i st1) = Some (r, st')"
    using assms(1) by (auto simp: Accept_def a Let_def checked_simps split: if_splits)
  have k: "same_keys st (SetError errno i st1)"
    using events_keys(2) [OF 1(1)] by simp
  have "s \<noteq> INVALID_SOCKET \<Longrightarrow> next_dispatcher_key (SetError errno i st1) \<noteq> - 1"
    using k fresh_key [OF assms(2)] a by (simp add: same_keys_def)
  then show ?thesis
    using 1(2) k same_keys_later WrapSocket_keys later_trans by (metis same_keys_later)
qed

lemma run_call_later: "run_call ctl c st = Some st' \<Longrightarrow> call_ok st c \<Longrightarrow> later st st'"
  using CreateSocket_keys Connect_keys Accept_keys transfer_keys [THEN same_keys_later] Close_keys
  by (cases c) fastforce+

end
