(* ===== verification/Physical_Socket_Server.thy ===== *)
theory Physical_Socket_Server
  imports Socket_Registry Thread_Worker
begin

text \<open>
  \<open>rtc_base/physical_socket_server.cc\<close>, continued: the events of a socket and their signals, the signaler,
  \<open>ProcessEvents\<close>, and \<open>Wait\<close> over \<open>epoll\<close>, \<open>poll\<close> and \<open>select\<close>.  A round of a wait is a function from
  the time-out (and what else the code passes) to what the system call returned and to the time after the
  round; a wait that has used up the rounds it is given is still blocked.  The tests for a \<open>getsockopt\<close> of
  \<open>SO_ERROR\<close> and the peeks at a socket are part of a round.
\<close>

section \<open>Signals\<close>

datatype sock_signal = ConnectEvent nat | ReadEvent nat | WriteEvent nat | CloseEvent nat int

type_synonym ('k, 'c) handler = "sock_signal \<Rightarrow> ('k, 'c) pss \<Rightarrow> ('k, 'c) pss checked"

definition deliver ::
  "'k epoll_ctl \<Rightarrow> ('k, 'c) handler \<Rightarrow> 32 word \<Rightarrow> 32 word \<Rightarrow> 8 word \<Rightarrow> sock_signal \<Rightarrow> nat \<Rightarrow> ('k, 'c) pss \<Rightarrow> ('k, 'c) pss checked" where
  "deliver ctl h ff b ev sig i st =
     (if has_events ff b then do { st \<leftarrow> DisableEvents ctl ev i st; h sig st } else Some st)"

definition SocketDispatcher_OnEvent ::
  "'k epoll_ctl \<Rightarrow> ('k, 'c) handler \<Rightarrow> nat \<Rightarrow> 32 word \<Rightarrow> int \<Rightarrow> ('k, 'c) pss \<Rightarrow> ('k, 'c) pss checked" where
  "SocketDispatcher_OnEvent ctl h i ff err st = do {
     let st = (if has_events ff DE_CONNECT then upd_sock i (\<lambda>p. p\<lparr>conn_state := CS_CONNECTED\<rparr>) st else st);
     let st = (if has_events ff DE_CLOSE then upd_sock i (\<lambda>p. p\<lparr>conn_state := CS_CLOSED\<rparr>) st else st);
     st \<leftarrow> StartBatchedEventUpdates i st;
     st \<leftarrow> deliver ctl h ff DE_CONNECT DE_CONNECT (ConnectEvent i) i st;
     st \<leftarrow> deliver ctl h ff DE_ACCEPT DE_ACCEPT (ReadEvent i) i st;
     st \<leftarrow> deliver ctl h ff DE_READ DE_READ (ReadEvent i) i st;
     st \<leftarrow> deliver ctl h ff DE_WRITE DE_WRITE (WriteEvent i) i st;
     st \<leftarrow> (if has_events ff DE_CLOSE
           then do { st \<leftarrow> SetEnabledEvents ctl 0 i st; h (CloseEvent i err) st } else Some st);
     FinishBatchedEventUpdates ctl i st
   }"

text \<open>\<open>OnResolveResult\<close> of the resolver \<open>r\<close> with its error or its address.\<close>

definition OnResolveResult ::
  "'k epoll_ctl \<Rightarrow> ('k, 'c) handler \<Rightarrow> nat \<Rightarrow> int \<Rightarrow> SocketAddress \<Rightarrow> answer \<Rightarrow> answer \<Rightarrow> answer \<Rightarrow> nat
     \<Rightarrow> ('k, 'c) pss \<Rightarrow> ('k, 'c) pss checked" where
  "OnResolveResult ctl h r resolve_error addr closed created connected i st =
     (if resolver (sockets st i) \<noteq> Some r then Some st
      else do {
        (err, st) \<leftarrow> (if resolve_error = 0 then DoConnect ctl addr created connected i st
                     else do { (c, st) \<leftarrow> SocketDispatcher_Close ctl closed i st; Some (resolve_error, st) });
        if err \<noteq> 0 then h (CloseEvent i err) (SetError err i st) else Some st
      })"

section \<open>The signaler\<close>

definition Signal :: "signaler \<Rightarrow> signaler" where
  "Signal s = (if \<not> fSignaled s then s\<lparr>pipe_bytes := pipe_bytes s + 1, fSignaled := True\<rparr> else s)"

definition Signaler_OnEvent :: "signaler \<Rightarrow> signaler checked" where
  "Signaler_OnEvent s =
     (if fSignaled s
      then do {
        let res = min 4 (pipe_bytes s);
        rtc_check (res = 1);
        Some (s\<lparr>pipe_bytes := pipe_bytes s - res, fSignaled := False\<rparr>)
      } else Some s)"

definition WakeUp :: "('k, 'c) pss \<Rightarrow> ('k, 'c) pss" where
  "WakeUp st = st\<lparr>signaler := Signal (signaler st)\<rparr>"

definition OnEvent ::
  "'k epoll_ctl \<Rightarrow> ('k, 'c) handler \<Rightarrow> dispatcher \<Rightarrow> 32 word \<Rightarrow> int \<Rightarrow> ('k, 'c) pss \<Rightarrow> ('k, 'c) pss checked" where
  "OnEvent ctl h d ff err st =
     (case d of
        Wakeup \<Rightarrow> do { s \<leftarrow> Signaler_OnEvent (signaler st); Some (st\<lparr>signaler := s, fWait := False\<rparr>) }
      | Sock i \<Rightarrow> SocketDispatcher_OnEvent ctl h i ff err st)"

section \<open>\<open>ProcessEvents\<close>\<close>

text \<open>What the system answers for one ready dispatcher: \<open>getsockopt\<close> with its \<open>errno\<close> and the error it
  fetched, and the results of peeking.\<close>

record ready_answers =
  so_result :: int
  so_errno :: int
  so_errcode :: int
  peeks :: "answer list"

fun retry_interrupted :: "answer list \<Rightarrow> answer option" where
  "retry_interrupted [] = None"
| "retry_interrupted ((res, errno) # rest) = (if res < 0 \<and> errno = EINTR then retry_interrupted rest else Some (res, errno))"

definition IsDescriptorClosed :: "dispatcher \<Rightarrow> answer list \<Rightarrow> ('k, 'c) pss \<Rightarrow> bool checked" where
  "IsDescriptorClosed d answers st =
     (case d of
        Wakeup \<Rightarrow> Some False
      | Sock i \<Rightarrow>
          (if udp (sockets st i) then Some (sock (sockets st i) = INVALID_SOCKET)
           else case retry_interrupted answers of
             None \<Rightarrow> None
           | Some (res, errno) \<Rightarrow>
               (if 0 < res then Some False
                else if res = 0 then Some True
                else if errno = EBADF then None
                else Some (errno = ECONNRESET \<or> errno = ECONNABORTED \<or> errno = EPIPE))))"

definition reaped_error :: "bool \<Rightarrow> bool \<Rightarrow> ready_answers \<Rightarrow> int" where
  "reaped_error error_event check_error ans =
     (if check_error
      then (if so_result ans < 0 then (if error_event \<or> so_errno ans \<noteq> ENOTSOCK then EBADF else 0)
            else so_errcode ans)
      else 0)"

definition event_flags :: "32 word \<Rightarrow> bool \<Rightarrow> bool \<Rightarrow> int \<Rightarrow> bool \<Rightarrow> 32 word" where
  "event_flags requested_events readable writable errcode closed =
     (if readable
      then if errcode \<noteq> 0 \<or> closed then DE_CLOSE
           else if has_events requested_events DE_ACCEPT then DE_ACCEPT else DE_READ
      else 0) OR
     (if writable
      then if has_events requested_events DE_CONNECT then (if errcode = 0 then DE_CONNECT else 0) else DE_WRITE
      else 0) OR
     (if errcode \<noteq> 0 then DE_CLOSE else 0)"

definition ProcessEvents ::
  "'k epoll_ctl \<Rightarrow> ('k, 'c) handler \<Rightarrow> dispatcher \<Rightarrow> bool \<Rightarrow> bool \<Rightarrow> bool \<Rightarrow> bool \<Rightarrow> ready_answers
     \<Rightarrow> ('k, 'c) pss \<Rightarrow> ('k, 'c) pss checked" where
  "ProcessEvents ctl h d readable writable error_event check_error ans st = do {
     rtc_check (\<not> (error_event \<and> \<not> check_error));
     let errcode = reaped_error error_event check_error ans;
     let requested_events = GetRequestedEvents st d;
     closed \<leftarrow> (if readable \<and> errcode = 0 then IsDescriptorClosed d (peeks ans) st else Some False);
     let ff = event_flags requested_events readable writable errcode closed;
     if ff \<noteq> 0 then OnEvent ctl h d ff errcode st else Some st
   }"

section \<open>Waiting with \<open>epoll\<close>\<close>

definition kForeverMs :: int where
  "kForeverMs = - 1"

definition ToCmsWait :: "TimeDelta \<Rightarrow> int checked" where
  "ToCmsWait max_wait_duration =
     (if max_wait_duration = PlusInfinity then Some kForeverMs
      else do {
        one \<leftarrow> TimeDelta_Millis 1;
        rounded \<leftarrow> RoundUpTo False max_wait_duration one;
        ms \<leftarrow> td_ms rounded;
        Some (convert int32_t ms)
      })"

datatype 'e poll_result = Poll_error int | Poll_timeout | Poll_ready 'e

type_synonym epoll_event = "32 word \<times> 64 word \<times> ready_answers"

text \<open>A round of \<open>epoll_wait\<close> is given the number of events it may report and its time-out.\<close>

type_synonym epoll_round = "nat \<Rightarrow> int \<Rightarrow> epoll_event list poll_result \<times> int"

definition kNumEpollEvents :: nat where
  "kNumEpollEvents = 128"

fun process_epoll_events ::
  "'k epoll_ctl \<Rightarrow> ('k, 'c) handler \<Rightarrow> epoll_event list \<Rightarrow> ('k, 'c) pss \<Rightarrow> ('k, 'c) pss checked" where
  "process_epoll_events ctl h [] st = Some st"
| "process_epoll_events ctl h ((events, key, ans) # es) st =
     (case dispatcher_by_key st key of
        None \<Rightarrow> process_epoll_events ctl h es st
      | Some d \<Rightarrow> do {
          let readable = has_events events (EPOLLIN OR EPOLLPRI);
          let writable = has_events events EPOLLOUT;
          let err = has_events events (EPOLLRDHUP OR EPOLLERR OR EPOLLHUP);
          st \<leftarrow> ProcessEvents ctl h d readable writable err err ans st;
          process_epoll_events ctl h es st
        })"

fun WaitEpoll_loop ::
  "'k epoll_ctl \<Rightarrow> ('k, 'c) handler \<Rightarrow> int \<Rightarrow> int \<Rightarrow> int \<Rightarrow> epoll_round list \<Rightarrow> ('k, 'c) pss
     \<Rightarrow> (bool option \<times> ('k, 'c) pss) checked" where
  "WaitEpoll_loop ctl h cmsWait tvStop tvWait [] st = Some (if fWait st then None else Some True, st)"
| "WaitEpoll_loop ctl h cmsWait tvStop tvWait (r # rs) st =
     (if \<not> fWait st then Some (Some True, st)
      else let (n, now) = r kNumEpollEvents (convert int32_t tvWait);
               next_round = (\<lambda>st. if cmsWait \<noteq> kForeverMs
                  then do {
                    tvWait \<leftarrow> TimeDiff tvStop now;
                    if tvWait \<le> 0 then Some (Some True, st) else WaitEpoll_loop ctl h cmsWait tvStop tvWait rs st
                  }
                  else WaitEpoll_loop ctl h cmsWait tvStop tvWait rs st)
           in case n of
                Poll_error errno \<Rightarrow> if errno \<noteq> EINTR then Some (Some False, st) else next_round st
              | Poll_timeout \<Rightarrow> Some (Some True, st)
              | Poll_ready events \<Rightarrow> do { st \<leftarrow> process_epoll_events ctl h events st; next_round st })"

text \<open>\<open>now\<close> is the time at the call.\<close>

definition WaitEpoll ::
  "'k epoll_ctl \<Rightarrow> ('k, 'c) handler \<Rightarrow> int \<Rightarrow> int \<Rightarrow> epoll_round list \<Rightarrow> ('k, 'c) pss
     \<Rightarrow> (bool option \<times> ('k, 'c) pss) checked" where
  "WaitEpoll ctl h now cmsWait rounds st = do {
     rtc_check (epoll_fd st \<noteq> INVALID_SOCKET);
     (tvWait, tvStop) \<leftarrow> (if cmsWait \<noteq> kForeverMs then do { stop \<leftarrow> TimeAfter now cmsWait; Some (cmsWait, stop) }
                         else Some (- 1, - 1));
     WaitEpoll_loop ctl h cmsWait tvStop tvWait rounds (st\<lparr>fWait := True\<rparr>)
   }"

section \<open>Waiting with \<open>poll\<close>\<close>

definition POLLIN :: "32 word" where "POLLIN = 1"
definition POLLOUT :: "32 word" where "POLLOUT = 4"

definition poll_events :: "32 word \<Rightarrow> 32 word" where
  "poll_events ff =
     (if has_events ff (DE_READ OR DE_ACCEPT) then POLLIN else 0) OR
     (if has_events ff (DE_WRITE OR DE_CONNECT) then POLLOUT else 0)"

text \<open>A round of \<open>poll\<close> gets the descriptor, the events and the time-out and returns \<open>revents\<close>.\<close>

type_synonym poll_round = "int \<Rightarrow> 32 word \<Rightarrow> int \<Rightarrow> (32 word \<times> ready_answers) poll_result \<times> int"

fun WaitPoll_loop ::
  "'k epoll_ctl \<Rightarrow> ('k, 'c) handler \<Rightarrow> dispatcher \<Rightarrow> int \<Rightarrow> int \<Rightarrow> int \<Rightarrow> int \<Rightarrow> poll_round list \<Rightarrow> ('k, 'c) pss
     \<Rightarrow> (bool option \<times> ('k, 'c) pss) checked" where
  "WaitPoll_loop ctl h d fd cmsWait tvStop tvWait [] st = Some (if fWait st then None else Some True, st)"
| "WaitPoll_loop ctl h d fd cmsWait tvStop tvWait (r # rs) st =
     (if \<not> fWait st then Some (Some True, st)
      else let (n, now) = r fd (poll_events (GetRequestedEvents st d)) (convert int32_t tvWait);
               next_round = (\<lambda>st. if cmsWait \<noteq> kForeverMs
                  then do {
                    tvWait \<leftarrow> TimeDiff tvStop now;
                    if tvWait < 0 then Some (Some True, st) else WaitPoll_loop ctl h d fd cmsWait tvStop tvWait rs st
                  }
                  else WaitPoll_loop ctl h d fd cmsWait tvStop tvWait rs st)
           in case n of
                Poll_error errno \<Rightarrow> if errno \<noteq> EINTR then Some (Some False, st) else next_round st
              | Poll_timeout \<Rightarrow> Some (Some True, st)
              | Poll_ready (revents, ans) \<Rightarrow> do {
                  let readable = has_events revents (POLLIN OR EPOLLPRI);
                  let writable = has_events revents POLLOUT;
                  let err = has_events revents (EPOLLRDHUP OR EPOLLERR OR EPOLLHUP);
                  st \<leftarrow> ProcessEvents ctl h d readable writable err err ans st;
                  next_round st
                })"

definition WaitPoll ::
  "'k epoll_ctl \<Rightarrow> ('k, 'c) handler \<Rightarrow> int \<Rightarrow> int \<Rightarrow> dispatcher \<Rightarrow> poll_round list \<Rightarrow> ('k, 'c) pss
     \<Rightarrow> (bool option \<times> ('k, 'c) pss) checked" where
  "WaitPoll ctl h now cmsWait d rounds st = do {
     (tvWait, tvStop) \<leftarrow> (if cmsWait \<noteq> kForeverMs then do { stop \<leftarrow> TimeAfter now cmsWait; Some (cmsWait, stop) }
                         else Some (- 1, - 1));
     WaitPoll_loop ctl h d (GetDescriptor st d) cmsWait tvStop tvWait rounds (st\<lparr>fWait := True\<rparr>)
   }"

section \<open>Waiting with \<open>select\<close>\<close>

text \<open>A round of \<open>select\<close> gets the number of descriptors, the descriptors to read and to write and the
  time-out in seconds and microseconds, and returns those that are ready; the time is in microseconds.
  \<open>order\<close> enumerates the keys of the map of dispatchers.\<close>

type_synonym select_round =
  "int \<Rightarrow> int set \<Rightarrow> int set \<Rightarrow> (int \<times> int) option \<Rightarrow> (int set \<times> int set \<times> (64 word \<Rightarrow> ready_answers)) poll_result \<times> int"

type_synonym key_order = "(64 word \<Rightarrow> dispatcher option) \<Rightarrow> 64 word list"

definition FD_SETSIZE :: int where
  "FD_SETSIZE = 1024"

fun select_sets ::
  "bool \<Rightarrow> ('k, 'c) pss \<Rightarrow> 64 word list \<Rightarrow> (64 word list \<times> int \<times> int set \<times> int set) \<Rightarrow>
     (64 word list \<times> int \<times> int set \<times> int set) checked" where
  "select_sets process_io st [] acc = Some acc"
| "select_sets process_io st (key # ks) (cur_keys, fdmax, fdsRead, fdsWrite) =
     (case dispatcher_by_key st key of
        None \<Rightarrow> select_sets process_io st ks (cur_keys, fdmax, fdsRead, fdsWrite)
      | Some d \<Rightarrow>
          (if \<not> process_io \<and> d \<noteq> Wakeup then select_sets process_io st ks (cur_keys, fdmax, fdsRead, fdsWrite)
           else do {
             let fd = GetDescriptor st d;
             rtc_check (fd < FD_SETSIZE);
             let ff = GetRequestedEvents st d;
             select_sets process_io st ks
               (cur_keys @ [key], max fd fdmax,
                if has_events ff (DE_READ OR DE_ACCEPT) then insert fd fdsRead else fdsRead,
                if has_events ff (DE_WRITE OR DE_CONNECT) then insert fd fdsWrite else fdsWrite)
           }))"

fun process_selected ::
  "'k epoll_ctl \<Rightarrow> ('k, 'c) handler \<Rightarrow> (64 word \<Rightarrow> ready_answers) \<Rightarrow> 64 word list \<Rightarrow> int set \<Rightarrow> int set \<Rightarrow> ('k, 'c) pss
     \<Rightarrow> ('k, 'c) pss checked" where
  "process_selected ctl h ans [] fdsRead fdsWrite st = Some st"
| "process_selected ctl h ans (key # ks) fdsRead fdsWrite st =
     (case dispatcher_by_key st key of
        None \<Rightarrow> process_selected ctl h ans ks fdsRead fdsWrite st
      | Some d \<Rightarrow> do {
          let fd = GetDescriptor st d;
          let readable = (fd \<in> fdsRead);
          let writable = (fd \<in> fdsWrite);
          st \<leftarrow> ProcessEvents ctl h d readable writable False (readable \<or> writable) (ans key) st;
          process_selected ctl h ans ks (fdsRead - {fd}) (fdsWrite - {fd}) st
        })"

fun WaitSelect_loop ::
  "'k epoll_ctl \<Rightarrow> ('k, 'c) handler \<Rightarrow> key_order \<Rightarrow> bool \<Rightarrow> int \<Rightarrow> (int \<times> int) option \<Rightarrow> select_round list \<Rightarrow> ('k, 'c) pss
     \<Rightarrow> (bool option \<times> ('k, 'c) pss) checked" where
  "WaitSelect_loop ctl h order process_io stop_us ptvWait [] st = Some (if fWait st then None else Some True, st)"
| "WaitSelect_loop ctl h order process_io stop_us ptvWait (r # rs) st =
     (if \<not> fWait st then Some (Some True, st)
      else do {
        (cur_keys, fdmax, fdsRead, fdsWrite) \<leftarrow> select_sets process_io st (order (dispatcher_by_key st)) ([], - 1, {}, {});
        let (n, now_us) = r (fdmax + 1) fdsRead fdsWrite ptvWait;
        let next_round = (\<lambda>st. case ptvWait of
              None \<Rightarrow> WaitSelect_loop ctl h order process_io stop_us None rs st
            | Some tv \<Rightarrow> do {
                time_left_us \<leftarrow> i64_sub stop_us now_us;
                WaitSelect_loop ctl h order process_io stop_us
                  (Some (if 0 < time_left_us then (time_left_us div 1000000, time_left_us mod 1000000) else (0, 0))) rs st
              });
        case n of
          Poll_error errno \<Rightarrow> if errno \<noteq> EINTR then Some (Some False, st) else next_round st
        | Poll_timeout \<Rightarrow> Some (Some True, st)
        | Poll_ready (rd, wr, ans) \<Rightarrow> do { st \<leftarrow> process_selected ctl h ans cur_keys rd wr st; next_round st }
      })"

definition WaitSelect ::
  "'k epoll_ctl \<Rightarrow> ('k, 'c) handler \<Rightarrow> key_order \<Rightarrow> int \<Rightarrow> int \<Rightarrow> bool \<Rightarrow> select_round list \<Rightarrow> ('k, 'c) pss
     \<Rightarrow> (bool option \<times> ('k, 'c) pss) checked" where
  "WaitSelect ctl h order now_us cmsWait process_io rounds st = do {
     (stop_us, ptvWait) \<leftarrow> (if cmsWait \<noteq> kForeverMs
        then do {
          us \<leftarrow> i32_mul cmsWait 1000;
          stop \<leftarrow> i64_add now_us us;
          Some (stop, Some (cmsWait sdiv 1000, (cmsWait smod 1000) * 1000))
        }
        else Some (0, None));
     WaitSelect_loop ctl h order process_io stop_us ptvWait rounds (st\<lparr>fWait := True\<rparr>)
   }"

section \<open>\<open>Wait\<close>\<close>

text \<open>With what the three kinds of wait are given by the system; \<open>use_epoll\<close> is the build's choice.\<close>

record wait_answers =
  start_ms :: int
  start_us :: int
  epoll_rounds :: "epoll_round list"
  poll_rounds :: "poll_round list"
  select_rounds :: "select_round list"
  map_order :: key_order

definition Wait ::
  "bool \<Rightarrow> 'k epoll_ctl \<Rightarrow> ('k, 'c) handler \<Rightarrow> TimeDelta \<Rightarrow> bool \<Rightarrow> wait_answers \<Rightarrow> ('k, 'c) pss
     \<Rightarrow> (bool option \<times> ('k, 'c) pss) checked" where
  "Wait use_epoll ctl h max_wait_duration process_io ans st = do {
     rtc_check (\<not> is_waiting st);
     let st = st\<lparr>is_waiting := True\<rparr>;
     cmsWait \<leftarrow> ToCmsWait max_wait_duration;
     (r, st) \<leftarrow>
       (if use_epoll \<and> \<not> process_io then WaitPoll ctl h (start_ms ans) cmsWait Wakeup (poll_rounds ans) st
        else if use_epoll \<and> epoll_fd st \<noteq> INVALID_SOCKET
        then WaitEpoll ctl h (start_ms ans) cmsWait (epoll_rounds ans) st
        else WaitSelect ctl h (map_order ans) (start_us ans) cmsWait process_io (select_rounds ans) st);
     Some (r, st\<lparr>is_waiting := (r = None)\<rparr>)
   }"

section \<open>Delivering events keeps the invariant\<close>

definition signaler_ok :: "signaler \<Rightarrow> bool" where
  "signaler_ok s \<longleftrightarrow> pipe_bytes s = (if fSignaled s then 1 else 0)"

text \<open>What a handler may do: anything that keeps the invariant (\<open>run_call_kept\<close>), other than waiting.\<close>

definition kept :: "('k \<Rightarrow> int \<Rightarrow> (32 word \<times> 64 word) option) \<Rightarrow> ('k, 'c) pss \<Rightarrow> ('k, 'c) pss \<Rightarrow> bool" where
  "kept interest st st' \<longleftrightarrow> pss_ok interest st' \<and> signaler_ok (signaler st') \<and> epoll_fd st' = epoll_fd st \<and>
     wakeup_fd st' = wakeup_fd st \<and> fWait st' = fWait st \<and> is_waiting st' = is_waiting st \<and>
     key_by_dispatcher st' Wakeup = key_by_dispatcher st Wakeup \<and>
     (\<forall>j. saved_enabled_events (sockets st' j) = - 1 \<longleftrightarrow> saved_enabled_events (sockets st j) = - 1)"

definition handler_ok :: "('k \<Rightarrow> int \<Rightarrow> (32 word \<times> 64 word) option) \<Rightarrow> ('k, 'c) handler \<Rightarrow> bool" where
  "handler_ok interest h \<longleftrightarrow> (\<forall>sig st. pss_ok interest st \<longrightarrow> signaler_ok (signaler st) \<longrightarrow>
     (\<exists>st'. h sig st = Some st' \<and> kept interest st st'))"

definition server_ok :: "('k \<Rightarrow> int \<Rightarrow> (32 word \<times> 64 word) option) \<Rightarrow> ('k, 'c) pss \<Rightarrow> bool" where
  "server_ok interest st \<longleftrightarrow> pss_ok interest st \<and> signaler_ok (signaler st) \<and>
     (\<forall>j. saved_enabled_events (sockets st j) = - 1)"

lemma kept_refl: "pss_ok interest st \<Longrightarrow> signaler_ok (signaler st) \<Longrightarrow> kept interest st st"
  by (simp add: kept_def)

lemma kept_trans: "kept interest a b \<Longrightarrow> kept interest b c \<Longrightarrow> kept interest a c"
  by (simp add: kept_def)

lemma good_kept: "good interest st st' \<Longrightarrow> signaler_ok (signaler st) \<Longrightarrow> kept interest st st'"
  by (simp add: good_def unchanged_def kept_def)

lemma handler_kept:
  "handler_ok interest h \<Longrightarrow> kept interest st0 st \<Longrightarrow> \<exists>st'. h sig st = Some st' \<and> kept interest st0 st'"
proof -
  assume h: "handler_ok interest h" and k: "kept interest st0 st"
  then have "pss_ok interest st" "signaler_ok (signaler st)"
    by (simp_all add: kept_def)
  then obtain st' where "h sig st = Some st'" "kept interest st st'"
    using h unfolding handler_ok_def by blast
  then show ?thesis
    using kept_trans [OF k] by blast
qed

lemma Signal_ok: "signaler_ok s \<Longrightarrow> signaler_ok (Signal s) \<and> fSignaled (Signal s)"
  by (simp add: signaler_ok_def Signal_def)

lemma Signaler_OnEvent_ok:
  "signaler_ok s \<Longrightarrow> Signaler_OnEvent s = Some \<lparr>pipe_bytes = 0, fSignaled = False\<rparr>"
  by (cases s) (simp add: signaler_ok_def Signaler_OnEvent_def Let_def)


lemma kernel_indep:
  assumes "sockets st' = sockets st" "next_dispatcher_key st' = next_dispatcher_key st"
    "dispatcher_by_key st' = dispatcher_by_key st" "key_by_dispatcher st' = key_by_dispatcher st"
    "epoll_fd st' = epoll_fd st" "wakeup_fd st' = wakeup_fd st" "kernel st' = kernel st"
  shows "pss_ok interest st' = pss_ok interest st"
proof -
  have "GetDescriptor st' = GetDescriptor st" "effective st' = effective st"
    using assms by (auto simp: GetDescriptor_def effective_def fun_eq_iff split: dispatcher.splits)
  then show ?thesis
    using assms by (simp add: pss_ok_def keys_ok_def descriptors_ok_def synced_def watched_def)
qed

lemma WakeUp_kept: "pss_ok interest st \<Longrightarrow> signaler_ok (signaler st) \<Longrightarrow> kept interest st (WakeUp st)"
  using kernel_indep [of "WakeUp st" st interest] Signal_ok [of "signaler st"] by (simp add: kept_def WakeUp_def)

lemma deliver_kept:
  assumes "epoll_documented ctl interest" "handler_ok interest h" "kept interest st0 st"
  shows "\<exists>st'. deliver ctl h ff b ev sig i st = Some st' \<and> kept interest st0 st'"
proof -
  obtain st1 where "DisableEvents ctl ev i st = Some st1" "good interest st st1"
    using DisableEvents_good [OF assms(1)] assms(3) by (meson kept_def)
  moreover then have "kept interest st0 st1"
    using assms(3) good_kept kept_trans by (metis kept_def)
  ultimately show ?thesis
    using handler_kept [OF assms(2)] assms(3) by (auto simp: deliver_def)
qed

lemma SocketDispatcher_OnEvent_kept:
  assumes "epoll_documented ctl interest" "handler_ok interest h" "server_ok interest st"
    "sock (sockets st i) \<noteq> INVALID_SOCKET"
  shows "\<exists>st'. SocketDispatcher_OnEvent ctl h i ff err st = Some st' \<and> kept interest st st'"
proof -
  have st: "pss_ok interest st" "signaler_ok (signaler st)" "\<And>j. saved_enabled_events (sockets st j) = - 1"
    using assms(3) by (simp_all add: server_ok_def)
  define sta where "sta = (if has_events ff DE_CONNECT then upd_sock i (\<lambda>p. p\<lparr>conn_state := CS_CONNECTED\<rparr>) st else st)"
  define stb where "stb = (if has_events ff DE_CLOSE then upd_sock i (\<lambda>p. p\<lparr>conn_state := CS_CLOSED\<rparr>) sta else sta)"
  have state: "good interest st' (upd_sock i (\<lambda>p. p\<lparr>conn_state := s\<rparr>) st')"
    if "pss_ok interest st'" "sock (sockets st' i) \<noteq> INVALID_SOCKET" for s st'
    by (rule good_upd) (use that in auto)
  have a: "good interest st sta" "sock (sockets sta i) \<noteq> INVALID_SOCKET"
    using state [OF st(1) assms(4), of CS_CONNECTED] good_refl [OF st(1)] assms(4) by (auto simp: sta_def)
  have b: "good interest st stb" "sock (sockets stb i) \<noteq> INVALID_SOCKET"
    using good_trans [OF a(1) state [OF good_ok [OF a(1)] a(2), of CS_CLOSED]] a by (auto simp: stb_def)
  have b3: "saved_enabled_events (sockets stb j) = - 1" for j
    using b(1) st(3) by (simp add: good_def unchanged_def)
  define st1 where "st1 = upd_sock i (\<lambda>p. p\<lparr>saved_enabled_events := uint (enabled_events p)\<rparr>) stb"
  have st1: "StartBatchedEventUpdates i stb = Some st1" "pss_ok interest st1"
    using start_batch [OF good_ok [OF b(1)] b3 b(2)] by (simp_all add: st1_def)
  have "signaler_ok (signaler st1)"
    using b(1) st(2) by (simp add: st1_def good_def unchanged_def)
  then have k1: "kept interest st1 st1"
    using st1(2) by (simp add: kept_refl)
  obtain st2 where 2: "deliver ctl h ff DE_CONNECT DE_CONNECT (ConnectEvent i) i st1 = Some st2" "kept interest st1 st2"
    using deliver_kept [OF assms(1,2) k1] by blast
  obtain st3 where 3: "deliver ctl h ff DE_ACCEPT DE_ACCEPT (ReadEvent i) i st2 = Some st3" "kept interest st1 st3"
    using deliver_kept [OF assms(1,2) 2(2)] by blast
  obtain st4 where 4: "deliver ctl h ff DE_READ DE_READ (ReadEvent i) i st3 = Some st4" "kept interest st1 st4"
    using deliver_kept [OF assms(1,2) 3(2)] by blast
  obtain st5 where 5: "deliver ctl h ff DE_WRITE DE_WRITE (WriteEvent i) i st4 = Some st5" "kept interest st1 st5"
    using deliver_kept [OF assms(1,2) 4(2)] by blast
  obtain st6 where 6: "(if has_events ff DE_CLOSE
           then do { st \<leftarrow> SetEnabledEvents ctl 0 i st5; h (CloseEvent i err) st } else Some st5) = Some st6" "kept interest st1 st6"
  proof (cases "has_events ff DE_CLOSE")
    case True
    obtain st' where "SetEnabledEvents ctl 0 i st5 = Some st'" "good interest st5 st'"
      using SetEnabledEvents_good [OF assms(1)] 5(2) by (meson kept_def)
    moreover then have "kept interest st1 st'"
      using 5(2) good_kept kept_trans by (metis kept_def)
    ultimately show thesis
      using handler_kept [OF assms(2)] True that by fastforce
  next
    case False
    then show thesis
      using 5(2) that by simp
  qed
  have batching: "saved_enabled_events (sockets st6 i) \<noteq> - 1" "\<And>j. j \<noteq> i \<Longrightarrow> saved_enabled_events (sockets st6 j) = - 1"
  proof -
    have "uint (w :: 8 word) \<noteq> - 1" for w
      using uint_ge_0 [of w] by linarith
    then have "saved_enabled_events (sockets st1 i) \<noteq> - 1"
      by (simp add: st1_def)
    then show "saved_enabled_events (sockets st6 i) \<noteq> - 1"
      using 6(2) by (simp add: kept_def)
    show "saved_enabled_events (sockets st6 j) = - 1" if "j \<noteq> i" for j
      using 6(2) that b3 by (simp add: kept_def st1_def)
  qed
  obtain k where k: "FinishBatchedEventUpdates ctl i st6 = Some ((upd_sock i (\<lambda>p. p\<lparr>saved_enabled_events := - 1\<rparr>) st6)\<lparr>kernel := k\<rparr>)"
    "pss_ok interest ((upd_sock i (\<lambda>p. p\<lparr>saved_enabled_events := - 1\<rparr>) st6)\<lparr>kernel := k\<rparr>)"
    using finish_batch [OF assms(1) _ batching(1)] 6(2) by (meson kept_def)
  have "SocketDispatcher_OnEvent ctl h i ff err st = Some ((upd_sock i (\<lambda>p. p\<lparr>saved_enabled_events := - 1\<rparr>) st6)\<lparr>kernel := k\<rparr>)"
    using st1(1) 2(1) 3(1) 4(1) 5(1) 6(1) k(1)
    by (simp add: SocketDispatcher_OnEvent_def Let_def flip: sta_def stb_def)
  moreover have "kept interest st ((upd_sock i (\<lambda>p. p\<lparr>saved_enabled_events := - 1\<rparr>) st6)\<lparr>kernel := k\<rparr>)"
    using k(2) 6(2) b(1) st(3) batching(2) by (simp add: kept_def good_def unchanged_def st1_def)
  ultimately show ?thesis
    by blast
qed

definition served :: "('k \<Rightarrow> int \<Rightarrow> (32 word \<times> 64 word) option) \<Rightarrow> ('k, 'c) pss \<Rightarrow> ('k, 'c) pss \<Rightarrow> bool" where
  "served interest st st' \<longleftrightarrow> server_ok interest st' \<and> epoll_fd st' = epoll_fd st \<and> wakeup_fd st' = wakeup_fd st \<and>
     is_waiting st' = is_waiting st \<and> key_by_dispatcher st' Wakeup = key_by_dispatcher st Wakeup \<and> (fWait st' \<longrightarrow> fWait st)"

lemma served_refl: "server_ok interest st \<Longrightarrow> served interest st st"
  by (simp add: served_def)

lemma served_trans: "served interest a b \<Longrightarrow> served interest b c \<Longrightarrow> served interest a c"
  by (simp add: served_def)

lemma kept_served: "kept interest st st' \<Longrightarrow> server_ok interest st \<Longrightarrow> served interest st st'"
  by (simp add: kept_def served_def server_ok_def)

lemma OnEvent_served:
  assumes "epoll_documented ctl interest" "handler_ok interest h" "server_ok interest st" "key_by_dispatcher st d \<noteq> None"
  shows "\<exists>st'. OnEvent ctl h d ff err st = Some st' \<and> served interest st st' \<and> (d = Wakeup \<longrightarrow> \<not> fWait st')"
proof (cases d)
  case Wakeup
  let ?st' = "st\<lparr>signaler := \<lparr>pipe_bytes = 0, fSignaled = False\<rparr>, fWait := False\<rparr>"
  have ok: "pss_ok interest ?st' = pss_ok interest st"
    by (rule kernel_indep) simp_all
  have "Signaler_OnEvent (signaler st) = Some \<lparr>pipe_bytes = 0, fSignaled = False\<rparr>"
    using assms(3) Signaler_OnEvent_ok by (simp add: server_ok_def)
  then show ?thesis
    using assms(3) ok Wakeup by (simp add: OnEvent_def served_def server_ok_def signaler_ok_def)
next
  case (Sock i)
  then have "sock (sockets st i) \<noteq> INVALID_SOCKET"
    using assms(3,4) registered_open [of interest st i] by (auto simp: server_ok_def)
  then show ?thesis
    using SocketDispatcher_OnEvent_kept [OF assms(1-3), of i ff err] kept_served [OF _ assms(3)] Sock
    by (fastforce simp: OnEvent_def)
qed

text \<open>The peeks end, and an open descriptor is not reported as bad.\<close>

definition answers_ok :: "ready_answers \<Rightarrow> bool" where
  "answers_ok ans \<longleftrightarrow> (case retry_interrupted (peeks ans) of None \<Rightarrow> False | Some (res, errno) \<Rightarrow> 0 \<le> res \<or> errno \<noteq> EBADF)"

lemma IsDescriptorClosed_answers:
  "answers_ok ans \<Longrightarrow> \<exists>b. IsDescriptorClosed d (peeks ans) st = Some b"
  by (auto simp: IsDescriptorClosed_def answers_ok_def split: option.splits dispatcher.splits)

lemma ProcessEvents_served:
  assumes "epoll_documented ctl interest" "handler_ok interest h" "server_ok interest st" "key_by_dispatcher st d \<noteq> None"
    "answers_ok ans" "error_event \<Longrightarrow> check_error"
  shows "\<exists>st'. ProcessEvents ctl h d readable writable error_event check_error ans st = Some st' \<and> served interest st st'"
proof -
  let ?e = "reaped_error error_event check_error ans"
  obtain c where "(if readable \<and> ?e = 0 then IsDescriptorClosed d (peeks ans) st else Some False) = Some c"
    using IsDescriptorClosed_answers [OF assms(5), of d st] by (cases "readable \<and> ?e = 0") auto
  then show ?thesis
    using assms(6) OnEvent_served [OF assms(1-4)] served_refl [OF assms(3)]
    by (auto simp: ProcessEvents_def Let_def checked_simps)
qed

lemma DE_nonzero: "DE_READ \<noteq> (0 :: 32 word)" "DE_WRITE \<noteq> (0 :: 32 word)" "DE_CONNECT \<noteq> (0 :: 32 word)"
  "DE_ACCEPT \<noteq> (0 :: 32 word)" "DE_CLOSE \<noteq> (0 :: 32 word)"
  by (simp_all add: DE_defs)

lemma event_flags_readable: "event_flags requested True writable errcode closed \<noteq> 0"
  by (simp add: event_flags_def DE_defs)

lemma registered_by_key:
  assumes "server_ok interest st"
  shows "dispatcher_by_key st key = Some d \<longleftrightarrow> key_by_dispatcher st d = Some key"
  using assms by (auto simp: server_ok_def pss_ok_def keys_ok_def)

lemma process_epoll_events_served:
  assumes "epoll_documented ctl interest" "handler_ok interest h" "server_ok interest st"
    "\<forall>(ev, key, ans) \<in> set es. answers_ok ans"
  shows "\<exists>st'. process_epoll_events ctl h es st = Some st' \<and> served interest st st'"
  using assms(3,4)
proof (induction es arbitrary: st)
  case Nil
  then show ?case
    by (simp add: served_refl)
next
  case (Cons e es)
  obtain ev key ans where e: "e = (ev, key, ans)"
    by (metis prod_cases3)
  show ?case
  proof (cases "dispatcher_by_key st key")
    case None
    then show ?thesis
      using Cons e by simp
  next
    case (Some d)
    then have "key_by_dispatcher st d \<noteq> None"
      using registered_by_key [OF Cons.prems(1)] by simp
    moreover have "answers_ok ans"
      using Cons.prems(2) e by simp
    ultimately obtain st1 where st1: "ProcessEvents ctl h d (has_events ev (EPOLLIN OR EPOLLPRI)) (has_events ev EPOLLOUT)
        (has_events ev (EPOLLRDHUP OR EPOLLERR OR EPOLLHUP)) (has_events ev (EPOLLRDHUP OR EPOLLERR OR EPOLLHUP)) ans st = Some st1"
      "served interest st st1"
      using ProcessEvents_served [OF assms(1,2) Cons.prems(1), of d ans] by blast
    then obtain st2 where "process_epoll_events ctl h es st1 = Some st2" "served interest st1 st2"
      using Cons.IH [of st1] Cons.prems(2) by (auto simp: served_def)
    then show ?thesis
      using st1 Some e served_trans [OF st1(2), of st2] by (auto simp: Let_def)
  qed
qed

text \<open>A batch that reports the signaler ends the wait.\<close>

lemma process_epoll_events_wakes:
  assumes "epoll_documented ctl interest" "handler_ok interest h" "server_ok interest st"
    "\<forall>(ev, key, ans) \<in> set es. answers_ok ans"
    "(ev, key, ans) \<in> set es" "key_by_dispatcher st Wakeup = Some key" "has_events ev (EPOLLIN OR EPOLLPRI)"
  shows "\<exists>st'. process_epoll_events ctl h es st = Some st' \<and> served interest st st' \<and> \<not> fWait st'"
  using assms(3-6)
proof (induction es arbitrary: st)
  case (Cons e es)
  obtain ev1 key1 ans1 where e: "e = (ev1, key1, ans1)"
    by (metis prod_cases3)
  show ?case
  proof (cases "e = (ev, key, ans)")
    case True
    have d: "dispatcher_by_key st key = Some Wakeup"
      using registered_by_key [OF Cons.prems(1)] Cons.prems(4) by simp
    let ?err = "has_events ev (EPOLLRDHUP OR EPOLLERR OR EPOLLHUP)"
    obtain st1 where st1: "OnEvent ctl h Wakeup (event_flags DE_READ True (has_events ev EPOLLOUT) (reaped_error ?err ?err ans) False)
        (reaped_error ?err ?err ans) st = Some st1" "served interest st st1" "\<not> fWait st1"
      using OnEvent_served [OF assms(1,2) Cons.prems(1), of Wakeup] Cons.prems(4) by blast
    have "ProcessEvents ctl h Wakeup True (has_events ev EPOLLOUT) ?err ?err ans st = Some st1"
      using st1(1) event_flags_readable
      by (cases "reaped_error ?err ?err ans = 0") (auto simp: ProcessEvents_def Let_def IsDescriptorClosed_def)
    moreover obtain st2 where "process_epoll_events ctl h es st1 = Some st2" "served interest st1 st2"
      using process_epoll_events_served [OF assms(1,2), of st1 es] st1(2) Cons.prems(2) by (auto simp: served_def)
    ultimately show ?thesis
      using st1(2,3) d True assms(7) served_trans [OF st1(2), of st2] by (auto simp: Let_def served_def)
  next
    case False
    then have es: "(ev, key, ans) \<in> set es" "\<forall>(ev, key, ans) \<in> set es. answers_ok ans"
      using Cons.prems(2,3) by auto
    show ?thesis
    proof (cases "dispatcher_by_key st key1")
      case None
      then show ?thesis
        using Cons.IH [OF Cons.prems(1) es(2,1) Cons.prems(4)] e by simp
    next
      case (Some d)
      obtain st1 where st1: "process_epoll_events ctl h [e] st = Some st1" "served interest st st1"
        using process_epoll_events_served [OF assms(1,2) Cons.prems(1), of "[e]"] Cons.prems(2) by auto
      have p: "process_epoll_events ctl h (e # es) st = process_epoll_events ctl h es st1"
        using st1(1) Some e by (auto simp: Let_def bind_eq_Some_conv)
      have "key_by_dispatcher st1 Wakeup = Some key" "server_ok interest st1"
        using st1(2) Cons.prems(4) by (simp_all add: served_def)
      then show ?thesis
        using Cons.IH [of st1] es p served_trans [OF st1(2)] by auto
    qed
  qed
qed simp

section \<open>Waiting\<close>

text \<open>What is required of a round, whatever its time-out: the peeks end, and times stay in range.\<close>

definition epoll_round_ok :: "int \<Rightarrow> epoll_round \<Rightarrow> bool" where
  "epoll_round_ok tvStop r \<longleftrightarrow> (\<forall>t. in_i64 (tvStop - snd (r kNumEpollEvents t)) \<and>
     (\<forall>es. fst (r kNumEpollEvents t) = Poll_ready es \<longrightarrow> (\<forall>(ev, key, ans) \<in> set es. answers_ok ans)))"

lemma epoll_round_now:
  assumes "epoll_round_ok tvStop r" "r kNumEpollEvents t = (n, now)"
  shows "TimeDiff tvStop now = Some (tvStop - now)"
proof -
  have "in_i64 (tvStop - snd (r kNumEpollEvents t))"
    using assms(1) by (simp add: epoll_round_ok_def)
  then show ?thesis
    using assms(2) by (simp add: TimeDiff_def i64_sub_def)
qed

lemma epoll_round_answers:
  assumes "epoll_round_ok tvStop r" "r kNumEpollEvents t = (Poll_ready es, now)"
  shows "\<forall>(ev, key, ans) \<in> set es. answers_ok ans"
proof -
  have "\<forall>es. fst (r kNumEpollEvents t) = Poll_ready es \<longrightarrow> (\<forall>(ev, key, ans) \<in> set es. answers_ok ans)"
    using assms(1) by (simp add: epoll_round_ok_def)
  then show ?thesis
    using assms(2) by simp
qed

lemma WaitEpoll_loop_ok:
  assumes "epoll_documented ctl interest" "handler_ok interest h" "server_ok interest st"
    "\<forall>r \<in> set rs. epoll_round_ok tvStop r"
  shows "\<exists>res st'. WaitEpoll_loop ctl h cmsWait tvStop tvWait rs st = Some (res, st') \<and> served interest st st' \<and>
    (res = None \<longrightarrow> fWait st')"
  using assms(3,4)
proof (induction rs arbitrary: st tvWait)
  case Nil
  then show ?case
    by (simp add: served_refl)
next
  case (Cons r rs)
  obtain n now where r: "r kNumEpollEvents (convert int32_t tvWait) = (n, now)"
    by force
  have now: "TimeDiff tvStop now = Some (tvStop - now)"
    using epoll_round_now [of tvStop r "convert int32_t tvWait" n now] r Cons.prems(2) by simp
  have next_round: "\<exists>res st'. (if cmsWait \<noteq> kForeverMs
                  then do {
                    tvWait \<leftarrow> TimeDiff tvStop now;
                    if tvWait \<le> 0 then Some (Some True, st1) else WaitEpoll_loop ctl h cmsWait tvStop tvWait rs st1
                  }
                  else WaitEpoll_loop ctl h cmsWait tvStop tvWait rs st1) = Some (res, st') \<and> served interest st st' \<and>
    (res = None \<longrightarrow> fWait st')"
    if "served interest st st1" for st1
  proof -
    have "\<exists>res st'. WaitEpoll_loop ctl h cmsWait tvStop tv rs st1 = Some (res, st') \<and> served interest st st' \<and>
      (res = None \<longrightarrow> fWait st')" for tv
      using Cons.IH [of st1 tv] Cons.prems(2) that served_trans [OF that] by (auto simp: served_def)
    then show ?thesis
      using now that by auto
  qed
  show ?case
  proof (cases "fWait st")
    case True
    show ?thesis
    proof (cases n)
      case (Poll_error e)
      then show ?thesis
        using True r next_round [OF served_refl [OF Cons.prems(1)]] served_refl [OF Cons.prems(1)]
        by (cases "e = EINTR") (auto simp: Let_def)
    next
      case Poll_timeout
      then show ?thesis
        using True r served_refl [OF Cons.prems(1)] by (auto simp: Let_def)
    next
      case (Poll_ready es)
      then have "\<forall>(ev, key, ans) \<in> set es. answers_ok ans"
        using Cons.prems(2) r epoll_round_answers [of tvStop r] by simp
      then obtain st1 where "process_epoll_events ctl h es st = Some st1" "served interest st st1"
        using process_epoll_events_served [OF assms(1,2) Cons.prems(1)] by blast
      then show ?thesis
        using True r Poll_ready next_round by (auto simp: Let_def)
    qed
  next
    case False
    then show ?thesis
      using served_refl [OF Cons.prems(1)] by (intro exI [of _ "Some True"] exI [of _ st]) simp
  qed
qed

lemma served_wait_flag: "server_ok interest (st\<lparr>fWait := b\<rparr>) = server_ok interest st"
  "server_ok interest (st\<lparr>is_waiting := b\<rparr>) = server_ok interest st"
  using kernel_indep [of "st\<lparr>fWait := b\<rparr>" st interest] kernel_indep [of "st\<lparr>is_waiting := b\<rparr>" st interest]
  by (simp_all add: server_ok_def)

lemma WaitEpoll_loop_stopped: "\<not> fWait st \<Longrightarrow> WaitEpoll_loop ctl h cmsWait tvStop tvWait rs st = Some (Some True, st)"
  by (cases rs) auto

text \<open>\<open>epoll_wait\<close> is level-triggered and reports at most as many descriptors as it is asked for, taking turns
  among those that are ready: while the pipe of the signaler holds a byte and the interest list has its
  descriptor, a call that is not interrupted reports the signaler unless there are enough ready descriptors
  \<open>ahead\<close> of it, and these are fewer by as many the next time.\<close>

definition interrupted :: "epoll_round \<Rightarrow> bool" where
  "interrupted r \<longleftrightarrow> (\<forall>n t. fst (r n t) = Poll_error EINTR)"

fun takes_turns :: "nat \<Rightarrow> 64 word \<Rightarrow> nat \<Rightarrow> epoll_round list \<Rightarrow> bool" where
  "takes_turns n key ahead [] \<longleftrightarrow> True"
| "takes_turns n key ahead (r # rs) \<longleftrightarrow>
     interrupted r \<and> takes_turns n key ahead rs \<or>
     (\<forall>t. \<exists>es. fst (r n t) = Poll_ready es \<and> (ahead < n \<longrightarrow> (\<exists>ans. (EPOLLIN, key, ans) \<in> set es))) \<and>
     takes_turns n key (ahead - n) rs"

definition level_triggered ::
  "('k \<Rightarrow> int \<Rightarrow> (32 word \<times> 64 word) option) \<Rightarrow> ('k, 'c) pss \<Rightarrow> nat \<Rightarrow> epoll_round list \<Rightarrow> bool" where
  "level_triggered interest st ahead rs \<longleftrightarrow>
     (\<forall>ev key. 0 < pipe_bytes (signaler st) \<and> interest (kernel st) (wakeup_fd st) = Some (ev, key) \<and>
        has_events ev EPOLLIN \<longrightarrow> takes_turns 128 key ahead rs)"

lemma wakeup_interest:
  assumes "server_ok interest st" "epoll_fd st \<noteq> INVALID_SOCKET"
  shows "\<exists>key. key_by_dispatcher st Wakeup = Some key \<and> interest (kernel st) (wakeup_fd st) = Some (EPOLLIN, key)"
proof -
  obtain key where key: "key_by_dispatcher st Wakeup = Some key"
    using assms(1) by (auto simp: server_ok_def pss_ok_def descriptors_ok_def)
  have "GetEpollEvents DE_READ = EPOLLIN" "EPOLLIN \<noteq> 0"
    by (simp_all add: GetEpollEvents_def has_events_def DE_defs EPOLLIN_def)
  then have "watched st Wakeup (wakeup_fd st) EPOLLIN key"
    using key by (simp add: watched_def effective_def)
  then show ?thesis
    using assms key by (auto simp: server_ok_def pss_ok_def synced_def)
qed

lemma wake_up_ends_wait:
  assumes "epoll_documented ctl interest" "handler_ok interest h" "server_ok interest st"
    "key_by_dispatcher st Wakeup = Some key" "\<forall>r \<in> set rs. epoll_round_ok tvStop r"
    "takes_turns kNumEpollEvents key ahead rs" "ahead < kNumEpollEvents * length (filter (\<lambda>r. \<not> interrupted r) rs)"
  shows "\<exists>st'. WaitEpoll_loop ctl h cmsWait tvStop tvWait rs st = Some (Some True, st') \<and> served interest st st'"
  using assms(3-7)
proof (induction rs arbitrary: st ahead tvWait)
  case Nil
  then show ?case
    by simp
next
  case (Cons r rs)
  have rounds: "epoll_round_ok tvStop r" "\<forall>r \<in> set rs. epoll_round_ok tvStop r"
    using Cons.prems(3) by simp_all
  obtain n now where r: "r kNumEpollEvents (convert int32_t tvWait) = (n, now)"
    by force
  have now: "TimeDiff tvStop now = Some (tvStop - now)"
    by (rule epoll_round_now [OF rounds(1) r])
  let ?next = "\<lambda>st1. if cmsWait \<noteq> kForeverMs
                  then do {
                    tvWait \<leftarrow> TimeDiff tvStop now;
                    if tvWait \<le> 0 then Some (Some True, st1) else WaitEpoll_loop ctl h cmsWait tvStop tvWait rs st1
                  }
                  else WaitEpoll_loop ctl h cmsWait tvStop tvWait rs st1"
  have next_round: "\<exists>st'. ?next st1 = Some (Some True, st') \<and> served interest st st'"
    if "served interest st st1" "\<And>tv. \<exists>st'. WaitEpoll_loop ctl h cmsWait tvStop tv rs st1 = Some (Some True, st') \<and> served interest st1 st'" for st1
  proof (cases "cmsWait \<noteq> kForeverMs \<and> tvStop - now \<le> 0")
    case True
    then show ?thesis
      using now that(1) by simp
  next
    case False
    then show ?thesis
      using now that(2) [of "tvStop - now"] that(2) [of tvWait] served_trans [OF that(1)] by auto
  qed
  show ?case
  proof (cases "fWait st")
    case waiting: True
    from Cons.prems(4) consider
        (intr) "interrupted r" "takes_turns kNumEpollEvents key ahead rs"
      | (ready) es where "n = Poll_ready es" "ahead < kNumEpollEvents \<Longrightarrow> \<exists>ans. (EPOLLIN, key, ans) \<in> set es"
          "takes_turns kNumEpollEvents key (ahead - kNumEpollEvents) rs"
      using r by (metis fst_conv takes_turns.simps(2))
    then show ?thesis
    proof cases
      case intr
      then have "n = Poll_error EINTR"
        using r by (metis fst_conv interrupted_def)
      moreover have "\<exists>st'. WaitEpoll_loop ctl h cmsWait tvStop tv rs st = Some (Some True, st') \<and> served interest st st'" for tv
        using Cons.IH [OF Cons.prems(1,2) rounds(2) intr(2)] Cons.prems(5) intr(1) by simp
      ultimately show ?thesis
        using next_round [OF served_refl [OF Cons.prems(1)]] waiting r by (simp add: Let_def)
    next
      case ready
      have answers: "\<forall>(ev, key, ans) \<in> set es. answers_ok ans"
        using r ready(1) epoll_round_answers [OF rounds(1)] by simp
      have "\<exists>st1. process_epoll_events ctl h es st = Some st1 \<and> served interest st st1 \<and> (ahead < kNumEpollEvents \<longrightarrow> \<not> fWait st1)"
      proof (cases "ahead < kNumEpollEvents")
        case True
        then obtain ans where "(EPOLLIN, key, ans) \<in> set es"
          using ready(2) by blast
        moreover have "has_events EPOLLIN (EPOLLIN OR EPOLLPRI)"
          by (simp add: has_events_def EPOLLIN_def EPOLLPRI_def)
        ultimately show ?thesis
          using process_epoll_events_wakes [OF assms(1,2) Cons.prems(1) answers _ Cons.prems(2)] by blast
      next
        case False
        then show ?thesis
          using process_epoll_events_served [OF assms(1,2) Cons.prems(1) answers] by blast
      qed
      then obtain st1 where st1: "process_epoll_events ctl h es st = Some st1" "served interest st st1"
        "ahead < kNumEpollEvents \<longrightarrow> \<not> fWait st1"
        by blast
      have "\<exists>st'. WaitEpoll_loop ctl h cmsWait tvStop tv rs st1 = Some (Some True, st') \<and> served interest st1 st'" for tv
      proof (cases "fWait st1")
        case True
        have "\<not> interrupted r"
          using r ready(1) by (metis fst_conv interrupted_def poll_result.distinct(3))
        then have "ahead - kNumEpollEvents < kNumEpollEvents * length (filter (\<lambda>r. \<not> interrupted r) rs)"
          using Cons.prems(5) True st1(3) by auto
        moreover have "server_ok interest st1" "key_by_dispatcher st1 Wakeup = Some key"
          using st1(2) Cons.prems(2) by (simp_all add: served_def)
        ultimately show ?thesis
          using Cons.IH [OF _ _ rounds(2) ready(3)] by blast
      next
        case False
        then show ?thesis
          using WaitEpoll_loop_stopped [OF False] st1(2) by (auto simp: served_def)
      qed
      then show ?thesis
        using next_round [OF st1(2)] waiting r ready(1) st1(1) by (simp add: Let_def)
    qed
  next
    case False
    then show ?thesis
      using WaitEpoll_loop_stopped [OF False] served_refl [OF Cons.prems(1)] by blast
  qed
qed

text \<open>C21: No wake-up of a \<open>PhysicalSocketServer\<close> is lost, and waking up is all it takes: in any state with the
  registry's invariant, for handlers that keep it, a \<open>Wait\<close> over \<open>epoll\<close> that starts or goes on after
  \<open>WakeUp\<close> ends successfully, for every time-out and however often the system call is interrupted, as soon
  as as many rounds have reported events as it takes for the signaler to be among the 128 events of a round,
  whatever these rounds report; a second \<open>WakeUp\<close> before that changes nothing, and no check fails.\<close>
theorem WakeUp_ends_Wait:
  assumes "epoll_documented ctl interest" "handler_ok interest h" "server_ok interest st"
    "epoll_fd st \<noteq> INVALID_SOCKET" "\<forall>r \<in> set rs. epoll_round_ok tvStop r" "level_triggered interest (WakeUp st) ahead rs"
    "ahead < 128 * length (filter (\<lambda>r. \<not> interrupted r) rs)"
  shows "WakeUp (WakeUp st) = WakeUp st \<and>
    (\<exists>st'. WaitEpoll_loop ctl h cmsWait tvStop tvWait rs (WakeUp st) = Some (Some True, st') \<and> served interest st st')"
proof -
  have "pss_ok interest (WakeUp st) = pss_ok interest st"
    by (rule kernel_indep) (simp_all add: WakeUp_def)
  then have ok: "server_ok interest (WakeUp st)"
    using assms(3) Signal_ok [of "signaler st"] by (simp add: server_ok_def WakeUp_def)
  have s: "fSignaled (signaler (WakeUp st))" "epoll_fd (WakeUp st) = epoll_fd st"
    by (simp_all add: WakeUp_def Signal_def)
  obtain key where key: "key_by_dispatcher (WakeUp st) Wakeup = Some key"
    "interest (kernel (WakeUp st)) (wakeup_fd (WakeUp st)) = Some (EPOLLIN, key)"
    using wakeup_interest [OF ok] s(2) assms(4) by metis
  have "0 < pipe_bytes (signaler (WakeUp st))" "has_events EPOLLIN EPOLLIN"
    using ok s(1) by (simp_all add: server_ok_def signaler_ok_def has_events_def EPOLLIN_def)
  then have "takes_turns 128 key ahead rs"
    using assms(6) key(2) unfolding level_triggered_def by blast
  then obtain st' where "WaitEpoll_loop ctl h cmsWait tvStop tvWait rs (WakeUp st) = Some (Some True, st')" "served interest (WakeUp st) st'"
    using wake_up_ends_wait [OF assms(1,2) ok key(1) assms(5), unfolded kNumEpollEvents_def] assms(7) by blast
  moreover have "served interest st (WakeUp st)"
    using ok by (simp add: served_def WakeUp_def)
  ultimately show ?thesis
    using served_trans [of interest st "WakeUp st" st'] by (auto simp: WakeUp_def Signal_def simp del: WaitEpoll_loop.simps)
qed

section \<open>The registry in every reachable state\<close>

text \<open>A new server with its signaler on the descriptor \<open>afd\<close> and the \<open>epoll\<close> descriptor \<open>efd\<close>, which may be
  invalid.\<close>

definition new_server :: "'k epoll_ctl \<Rightarrow> int \<Rightarrow> int \<Rightarrow> 'k \<Rightarrow> 'c \<Rightarrow> ('k, 'c) pss checked" where
  "new_server ctl efd afd k c =
     pss_Add ctl Wakeup \<lparr>sockets = (\<lambda>i. new_socket), next_dispatcher_key = 0, dispatcher_by_key = (\<lambda>k. None),
       key_by_dispatcher = (\<lambda>d. None), epoll_fd = efd, wakeup_fd = afd, kernel = k,
       signaler = \<lparr>pipe_bytes = 0, fSignaled = False\<rparr>, fWait = False, is_waiting = False, client = c\<rparr>"

lemma new_server_ok:
  assumes "epoll_documented ctl interest" "afd \<noteq> INVALID_SOCKET" "interest k = (\<lambda>fd. None)"
  shows "\<exists>st. new_server ctl efd afd k c = Some st \<and> server_ok interest st"
proof -
  let ?st = "\<lambda>k. \<lparr>sockets = (\<lambda>i. new_socket), next_dispatcher_key = 1, dispatcher_by_key = (\<lambda>k. None)(0 := Some Wakeup),
       key_by_dispatcher = (\<lambda>d. None)(Wakeup := Some 0), epoll_fd = efd, wakeup_fd = afd, kernel = k,
       signaler = \<lparr>pipe_bytes = 0, fSignaled = False\<rparr>, fWait = False, is_waiting = False, client = c\<rparr>"
  have ev: "GetEpollEvents DE_READ = EPOLLIN" "EPOLLIN \<noteq> 0"
    by (simp_all add: GetEpollEvents_def has_events_def DE_defs EPOLLIN_def)
  obtain k1 where k1: "ctl EPOLL_CTL_ADD afd EPOLLIN 0 k = (0, k1)" "interest k1 = (interest k)(afd \<mapsto> (EPOLLIN, 0))"
    using epoll_ctl_add [OF assms(1), of k afd EPOLLIN 0] assms(3) by auto
  let ?k = "if efd = INVALID_SOCKET then k else k1"
  have run: "new_server ctl efd afd k c = Some (?st ?k)"
    using assms(2) k1(1) ev by (simp add: new_server_def pss_Add_def AddEpoll_def emplace_def Let_def checked_simps)
  have "keys_ok (?st ?k)" "descriptors_ok (?st ?k)"
    using assms(2) by (auto simp: keys_ok_def descriptors_ok_def new_socket_def)
  moreover have "(\<exists>d. watched (?st ?k) d fd e key) \<longleftrightarrow> fd = afd \<and> e = EPOLLIN \<and> key = 0" for fd e key
    using ev by (auto simp: watched_def effective_def split: dispatcher.splits if_splits)
  then have "synced interest {} (?st ?k)"
    using k1(2) assms(3) by (auto simp: synced_def)
  ultimately have "server_ok interest (?st ?k)"
    by (simp add: server_ok_def pss_ok_def signaler_ok_def new_socket_def)
  then show ?thesis
    using run by blast
qed





subsection \<open>Handlers that make calls\<close>
















section \<open>A kernel, a handler and a server\<close>

text \<open>A kernel whose state is its interest list.\<close>

fun map_epoll_ctl :: "(int \<Rightarrow> (32 word \<times> 64 word) option) epoll_ctl" where
  "map_epoll_ctl EPOLL_CTL_ADD fd ev key k = (if k fd = None then (0, k(fd \<mapsto> (ev, key))) else (EEXIST, k))"
| "map_epoll_ctl EPOLL_CTL_MOD fd ev key k = (if k fd = None then (ENOENT, k) else (0, k(fd \<mapsto> (ev, key))))"
| "map_epoll_ctl EPOLL_CTL_DEL fd ev key k = (if k fd = None then (ENOENT, k) else (0, k(fd := None)))"

lemma map_epoll_documented: "epoll_documented map_epoll_ctl (\<lambda>k. k)"
  by (simp add: epoll_documented_def)

definition waking_handler :: "('k, 'c) handler" where
  "waking_handler sig st = Some (WakeUp st)"

lemma waking_handler_ok: "handler_ok interest waking_handler"
  by (simp add: handler_ok_def waking_handler_def WakeUp_kept)

definition example_server :: "'c \<Rightarrow> (int \<Rightarrow> (32 word \<times> 64 word) option, 'c) pss" where
  "example_server c = \<lparr>sockets = (\<lambda>i. new_socket), next_dispatcher_key = 1, dispatcher_by_key = [0 \<mapsto> Wakeup],
     key_by_dispatcher = [Wakeup \<mapsto> 0], epoll_fd = 3, wakeup_fd = 4, kernel = [4 \<mapsto> (EPOLLIN, 0)],
     signaler = \<lparr>pipe_bytes = 0, fSignaled = False\<rparr>, fWait = False, is_waiting = False, client = c\<rparr>"

lemma example_server_new: "new_server map_epoll_ctl 3 4 (\<lambda>fd. None) c = Some (example_server c)"
  by (simp add: new_server_def pss_Add_def AddEpoll_def emplace_def Let_def checked_simps example_server_def
      INVALID_SOCKET_def GetEpollEvents_def has_events_def DE_defs EPOLLIN_def)

lemma example_server_ok: "server_ok (\<lambda>k. k) (example_server c)"
  using new_server_ok [OF map_epoll_documented, of 4 "\<lambda>fd. None" 3 c] example_server_new [of c]
  by (simp add: INVALID_SOCKET_def)

definition peeked :: ready_answers where
  "peeked = \<lparr>so_result = 0, so_errno = 0, so_errcode = 0, peeks = [(1, 0)]\<rparr>"

lemma peeked_ok: "answers_ok peeked"
  by (simp add: answers_ok_def peeked_def)




theorem WakeUp_ends_Wait_witness:
  "\<exists>st'. WaitEpoll_loop map_epoll_ctl waking_handler kForeverMs (- 1) (- 1)
      [\<lambda>n t. (Poll_error EINTR, 0), \<lambda>n t. (Poll_ready [], 0), \<lambda>n t. (Poll_ready [(EPOLLIN, 0, peeked)], 0)] (WakeUp (example_server ()))
        = Some (Some True, st') \<and>
    served (\<lambda>k. k) (example_server ()) st'"
proof -
  let ?r1 = "(\<lambda>n t. (Poll_error EINTR, 0)) :: epoll_round" and ?r2 = "(\<lambda>n t. (Poll_ready [], 0)) :: epoll_round"
  let ?r3 = "(\<lambda>n t. (Poll_ready [(EPOLLIN, 0, peeked)], 0)) :: epoll_round"
  have "\<forall>r \<in> set [?r1, ?r2, ?r3]. epoll_round_ok (- 1) r"
    using peeked_ok by (simp add: epoll_round_ok_def int_ranges)
  moreover have intr: "interrupted ?r1" "\<not> interrupted ?r2" "\<not> interrupted ?r3"
    by (simp_all add: interrupted_def)
  then have "level_triggered (\<lambda>k. k) (WakeUp (example_server ())) 130 [?r1, ?r2, ?r3]"
    by (auto simp: level_triggered_def WakeUp_def example_server_def)
  moreover have "epoll_fd (example_server ()) \<noteq> INVALID_SOCKET"
    by (simp add: example_server_def INVALID_SOCKET_def)
  moreover have "130 < 128 * length (filter (\<lambda>r. \<not> interrupted r) [?r1, ?r2, ?r3])"
    using intr by simp
  ultimately show ?thesis
    using WakeUp_ends_Wait [OF map_epoll_documented waking_handler_ok example_server_ok [of "()"], of "[?r1, ?r2, ?r3]" "- 1" 130 kForeverMs "- 1"]
    by blast
qed

section \<open>The order of signals\<close>

definition record_signals :: "('k, sock_signal list) handler" where
  "record_signals sig st = Some (st\<lparr>client := client st @ [sig]\<rparr>)"

lemma deliver_record:
  assumes "epoll_documented ctl interest" "pss_ok interest st"
  shows "\<exists>st'. deliver ctl record_signals ff b ev sig i st = Some st' \<and> pss_ok interest st' \<and>
    client st' = client st @ (if has_events ff b then [sig] else []) \<and>
    enabled_events (sockets st' i) = enabled_events (sockets st i) AND NOT (if has_events ff b then ev else 0) \<and>
    saved_enabled_events (sockets st' i) = saved_enabled_events (sockets st i) \<and>
    conn_state (sockets st' i) = conn_state (sockets st i)"
proof (cases "has_events ff b")
  case True
  let ?st1 = "upd_sock i (\<lambda>p. p\<lparr>enabled_events := enabled_events p AND NOT ev\<rparr>) st"
  obtain k where k: "DisableEvents ctl ev i st = Some (?st1\<lparr>kernel := k\<rparr>)" "pss_ok interest (?st1\<lparr>kernel := k\<rparr>)"
    using change_events [of ctl interest st i "\<lambda>p. enabled_events p AND NOT ev"] assms by (auto simp: DisableEvents_def)
  have "pss_ok interest (?st1\<lparr>kernel := k, client := c\<rparr>) = pss_ok interest (?st1\<lparr>kernel := k\<rparr>)" for c
    by (rule kernel_indep) simp_all
  then show ?thesis
    using True k by (simp add: deliver_def record_signals_def)
qed (use assms(2) in \<open>simp add: deliver_def\<close>)

text \<open>The signals of an event of a socket: with every event reported the handlers are called in the order
  connected, accept, readable, writable, closed, each at most once and exactly when its flag is set, and
  each event is disabled before its handler runs; the state of the connection follows the flags, a close
  winning over a connect, and after a close nothing is enabled.\<close>
theorem signals_in_order:
  assumes "epoll_documented ctl interest" "server_ok interest st" "sock (sockets st i) \<noteq> INVALID_SOCKET"
  shows "\<exists>st'. SocketDispatcher_OnEvent ctl record_signals i ff err st = Some st' \<and>
    client st' = client st @ (if has_events ff DE_CONNECT then [ConnectEvent i] else []) @
      (if has_events ff DE_ACCEPT then [ReadEvent i] else []) @ (if has_events ff DE_READ then [ReadEvent i] else []) @
      (if has_events ff DE_WRITE then [WriteEvent i] else []) @ (if has_events ff DE_CLOSE then [CloseEvent i err] else []) \<and>
    enabled_events (sockets st' i) = (if has_events ff DE_CLOSE then 0
      else enabled_events (sockets st i) AND NOT (if has_events ff DE_CONNECT then DE_CONNECT else 0)
        AND NOT (if has_events ff DE_ACCEPT then DE_ACCEPT else 0) AND NOT (if has_events ff DE_READ then DE_READ else 0)
        AND NOT (if has_events ff DE_WRITE then DE_WRITE else 0)) \<and>
    conn_state (sockets st' i) = (if has_events ff DE_CLOSE then CS_CLOSED
      else if has_events ff DE_CONNECT then CS_CONNECTED else conn_state (sockets st i)) \<and> pss_ok interest st'"
proof -
  have st: "pss_ok interest st" "\<And>j. saved_enabled_events (sockets st j) = - 1"
    using assms(2) by (simp_all add: server_ok_def)
  define sta where "sta = (if has_events ff DE_CONNECT then upd_sock i (\<lambda>p. p\<lparr>conn_state := CS_CONNECTED\<rparr>) st else st)"
  define stb where "stb = (if has_events ff DE_CLOSE then upd_sock i (\<lambda>p. p\<lparr>conn_state := CS_CLOSED\<rparr>) sta else sta)"
  have "pss_ok interest sta"
    using st(1) assms(3) by (auto simp: sta_def intro!: pss_ok_upd)
  then have "pss_ok interest stb"
    by (auto simp: stb_def intro!: pss_ok_upd)
  then have b: "pss_ok interest stb" "sock (sockets stb i) \<noteq> INVALID_SOCKET" "saved_enabled_events (sockets stb i) = - 1"
    "enabled_events (sockets stb i) = enabled_events (sockets st i)" "client stb = client st"
    "conn_state (sockets stb i) = (if has_events ff DE_CLOSE then CS_CLOSED
      else if has_events ff DE_CONNECT then CS_CONNECTED else conn_state (sockets st i))"
    using assms(3) st(2) by (simp_all add: stb_def sta_def)
  define st1 where "st1 = upd_sock i (\<lambda>p. p\<lparr>saved_enabled_events := uint (enabled_events p)\<rparr>) stb"
  have st1: "StartBatchedEventUpdates i stb = Some st1" "pss_ok interest st1"
    using start_batch [OF b(1,3,2)] by (simp_all add: st1_def)
  obtain st2 where 2: "deliver ctl record_signals ff DE_CONNECT DE_CONNECT (ConnectEvent i) i st1 = Some st2" "pss_ok interest st2"
    "client st2 = client st1 @ (if has_events ff DE_CONNECT then [ConnectEvent i] else [])"
    "enabled_events (sockets st2 i) = enabled_events (sockets st1 i) AND NOT (if has_events ff DE_CONNECT then DE_CONNECT else 0)"
    "saved_enabled_events (sockets st2 i) = saved_enabled_events (sockets st1 i)" "conn_state (sockets st2 i) = conn_state (sockets st1 i)"
    using deliver_record [OF assms(1) st1(2)] by blast
  obtain st3 where 3: "deliver ctl record_signals ff DE_ACCEPT DE_ACCEPT (ReadEvent i) i st2 = Some st3" "pss_ok interest st3"
    "client st3 = client st2 @ (if has_events ff DE_ACCEPT then [ReadEvent i] else [])"
    "enabled_events (sockets st3 i) = enabled_events (sockets st2 i) AND NOT (if has_events ff DE_ACCEPT then DE_ACCEPT else 0)"
    "saved_enabled_events (sockets st3 i) = saved_enabled_events (sockets st2 i)" "conn_state (sockets st3 i) = conn_state (sockets st2 i)"
    using deliver_record [OF assms(1) 2(2)] by blast
  obtain st4 where 4: "deliver ctl record_signals ff DE_READ DE_READ (ReadEvent i) i st3 = Some st4" "pss_ok interest st4"
    "client st4 = client st3 @ (if has_events ff DE_READ then [ReadEvent i] else [])"
    "enabled_events (sockets st4 i) = enabled_events (sockets st3 i) AND NOT (if has_events ff DE_READ then DE_READ else 0)"
    "saved_enabled_events (sockets st4 i) = saved_enabled_events (sockets st3 i)" "conn_state (sockets st4 i) = conn_state (sockets st3 i)"
    using deliver_record [OF assms(1) 3(2)] by blast
  obtain st5 where 5: "deliver ctl record_signals ff DE_WRITE DE_WRITE (WriteEvent i) i st4 = Some st5" "pss_ok interest st5"
    "client st5 = client st4 @ (if has_events ff DE_WRITE then [WriteEvent i] else [])"
    "enabled_events (sockets st5 i) = enabled_events (sockets st4 i) AND NOT (if has_events ff DE_WRITE then DE_WRITE else 0)"
    "saved_enabled_events (sockets st5 i) = saved_enabled_events (sockets st4 i)" "conn_state (sockets st5 i) = conn_state (sockets st4 i)"
    using deliver_record [OF assms(1) 4(2)] by blast
  obtain st6 where 6: "(if has_events ff DE_CLOSE
           then do { st \<leftarrow> SetEnabledEvents ctl 0 i st5; record_signals (CloseEvent i err) st } else Some st5) = Some st6"
    "pss_ok interest st6" "client st6 = client st5 @ (if has_events ff DE_CLOSE then [CloseEvent i err] else [])"
    "enabled_events (sockets st6 i) = (if has_events ff DE_CLOSE then 0 else enabled_events (sockets st5 i))"
    "saved_enabled_events (sockets st6 i) = saved_enabled_events (sockets st5 i)" "conn_state (sockets st6 i) = conn_state (sockets st5 i)"
  proof (cases "has_events ff DE_CLOSE")
    case True
    let ?st1 = "upd_sock i (\<lambda>p. p\<lparr>enabled_events := 0\<rparr>) st5"
    obtain k where k: "SetEnabledEvents ctl 0 i st5 = Some (?st1\<lparr>kernel := k\<rparr>)" "pss_ok interest (?st1\<lparr>kernel := k\<rparr>)"
      using change_events [of ctl interest st5 i "\<lambda>p. 0"] assms(1) 5(2) by (auto simp: SetEnabledEvents_def)
    have "pss_ok interest (?st1\<lparr>kernel := k, client := c\<rparr>) = pss_ok interest (?st1\<lparr>kernel := k\<rparr>)" for c
      by (rule kernel_indep) simp_all
    then show thesis
      using that [of "?st1\<lparr>kernel := k, client := client st5 @ [CloseEvent i err]\<rparr>"] True k by (simp add: record_signals_def)
  next
    case False
    then show thesis
      using that [of st5] 5(2) by simp
  qed
  have "uint w \<noteq> - 1" for w :: "8 word"
    using uint_ge_0 [of w] by linarith
  then have saved: "saved_enabled_events (sockets st6 i) \<noteq> - 1"
    using 6(5) 5(5) 4(5) 3(5) 2(5) by (simp add: st1_def)
  let ?st7 = "upd_sock i (\<lambda>p. p\<lparr>saved_enabled_events := - 1\<rparr>) st6"
  obtain k where k: "FinishBatchedEventUpdates ctl i st6 = Some (?st7\<lparr>kernel := k\<rparr>)" "pss_ok interest (?st7\<lparr>kernel := k\<rparr>)"
    using finish_batch [OF assms(1) 6(2) saved] by blast
  have run: "SocketDispatcher_OnEvent ctl record_signals i ff err st = Some (?st7\<lparr>kernel := k\<rparr>)"
    using st1(1) 2(1) 3(1) 4(1) 5(1) 6(1) k(1)
    by (simp add: SocketDispatcher_OnEvent_def Let_def flip: sta_def stb_def)
  have enabled: "enabled_events (sockets ?st7 i) = enabled_events (sockets st6 i)" "conn_state (sockets ?st7 i) = conn_state (sockets st6 i)"
    "client ?st7 = client st6" "enabled_events (sockets st1 i) = enabled_events (sockets st i)" "client st1 = client st"
    "conn_state (sockets st1 i) = conn_state (sockets stb i)"
    using b(4,5) by (simp_all add: st1_def)
  show ?thesis
  proof (intro exI conjI)
    show "SocketDispatcher_OnEvent ctl record_signals i ff err st = Some (?st7\<lparr>kernel := k\<rparr>)"
      by (rule run)
    show "pss_ok interest (?st7\<lparr>kernel := k\<rparr>)"
      by (rule k(2))
  qed (simp_all add: enabled 6(3,4,6) 5(3,4,6) 4(3,4,6) 3(3,4,6) 2(3,4,6) b(4-6) and.assoc st1_def)
qed

theorem signals_in_order_witness:
  "\<exists>st st'. run_call map_epoll_ctl (Call_CreateSocket 0 AF_INET SOCK_DGRAM (5, 0)) (example_server []) = Some st \<and>
    SocketDispatcher_OnEvent map_epoll_ctl record_signals 0 (DE_READ OR DE_WRITE) 0 st = Some st' \<and>
    client st' = [ReadEvent 0, WriteEvent 0]"
proof -
  let ?st0 = "example_server ([] :: sock_signal list)"
  have n: "new_object ?st0 0" "fresh_fd ?st0 5"
    by (simp_all add: new_object_def fresh_fd_def example_server_def new_socket_def GetDescriptor_def)
  obtain r st where st: "CreateSocket map_epoll_ctl AF_INET SOCK_DGRAM (5, 0) 0 ?st0 = Some (r, st)" "good (\<lambda>k. k) ?st0 st"
    "sock (sockets st 0) = 5"
    using CreateSocket_good [OF map_epoll_documented _ n(1), of "(5, 0)" AF_INET SOCK_DGRAM] n(2) example_server_ok [of "[]"]
    by (auto simp: server_ok_def)
  have ok: "server_ok (\<lambda>k. k) st" "client st = []"
    using good_kept [OF st(2)] kept_served [OF _ example_server_ok] st(2) example_server_ok [of "[] :: sock_signal list"]
    by (auto simp: server_ok_def served_def good_def unchanged_def example_server_def)
  have "has_events (DE_READ OR DE_WRITE :: 32 word) DE_READ" "has_events (DE_READ OR DE_WRITE :: 32 word) DE_WRITE"
    "\<not> has_events (DE_READ OR DE_WRITE :: 32 word) DE_CONNECT" "\<not> has_events (DE_READ OR DE_WRITE :: 32 word) DE_ACCEPT"
    "\<not> has_events (DE_READ OR DE_WRITE :: 32 word) DE_CLOSE"
    by (simp_all add: has_events_def DE_defs)
  then show ?thesis
    using signals_in_order [OF map_epoll_documented ok(1), of 0 "DE_READ OR DE_WRITE" 0] st ok(2)
    by (auto simp: INVALID_SOCKET_def)
qed

section \<open>The end of a wait\<close>

lemma WaitEpoll_loop_blocked:
  assumes "WaitEpoll_loop ctl h cmsWait tvStop tvWait rs st = Some (None, st')" "cmsWait \<noteq> kForeverMs" "r \<in> set rs"
  shows "\<exists>t. snd (r kNumEpollEvents t) < tvStop"
  using assms
proof (induction rs arbitrary: st tvWait)
  case (Cons a rs)
  obtain n now where a: "a kNumEpollEvents (convert int32_t tvWait) = (n, now)"
    by force
  have next_round: "now < tvStop \<and> (r \<in> set rs \<longrightarrow> (\<exists>t. snd (r kNumEpollEvents t) < tvStop))"
    if "do { tvWait \<leftarrow> TimeDiff tvStop now;
             if tvWait \<le> 0 then Some (Some True, st1) else WaitEpoll_loop ctl h cmsWait tvStop tvWait rs st1 } = Some (None, st')" for st1
    using that Cons.IH Cons.prems(2) by (auto simp: TimeDiff_def i64_sub_def i64_eq_Some bind_eq_Some_conv split: if_splits)
  have "now < tvStop \<and> (r \<in> set rs \<longrightarrow> (\<exists>t. snd (r kNumEpollEvents t) < tvStop))"
  proof (cases n)
    case (Poll_ready es)
    then show ?thesis
      using Cons.prems(1,2) a next_round by (auto simp: Let_def bind_eq_Some_conv split: if_splits)
  qed (use Cons.prems(1,2) a next_round in \<open>auto simp: Let_def split: if_splits\<close>)
  then show ?case
    using Cons.prems(3) a by (metis set_ConsD snd_conv)
qed simp

text \<open>Only the answers to time-outs between 0 and the whole wait count.\<close>

lemma convert_i32: "- (2 ^ 31) \<le> t \<Longrightarrow> t < 2 ^ 31 \<Longrightarrow> convert int32_t t = t"
  by (rule convert_id) (simp_all add: in_type_def ty_lowest_def ty_max_def)

lemma WaitEpoll_loop_timeouts:
  assumes "list_all2 (\<lambda>r r'. \<forall>t. 0 \<le> t \<and> t \<le> cmsWait \<longrightarrow> r kNumEpollEvents t = r' kNumEpollEvents t) rs rs'" "cmsWait \<noteq> kForeverMs" "cmsWait < 2 ^ 31"
    "\<forall>r \<in> set rs. \<forall>t. tvStop - cmsWait \<le> snd (r kNumEpollEvents t)" "0 \<le> tvWait" "tvWait \<le> cmsWait"
  shows "WaitEpoll_loop ctl h cmsWait tvStop tvWait rs st = WaitEpoll_loop ctl h cmsWait tvStop tvWait rs' st"
  using assms(1,4,5,6)
proof (induction rs rs' arbitrary: tvWait st)
  case (Cons r rs r' rs')
  have c: "convert int32_t tvWait = tvWait"
    by (rule convert_i32) (use Cons.prems(2,3) assms(3) in linarith)+
  obtain n now where r: "r kNumEpollEvents tvWait = (n, now)" "r' kNumEpollEvents tvWait = (n, now)"
    using Cons.hyps(1) Cons.prems(2,3) by (metis prod.exhaust)
  have now: "tvStop - cmsWait \<le> now"
    using Cons.prems(1) r(1) by (metis list.set_intros(1) snd_conv)
  have next_round: "(do { tvWait \<leftarrow> TimeDiff tvStop now;
             if tvWait \<le> 0 then Some (Some True, st1) else WaitEpoll_loop ctl h cmsWait tvStop tvWait rs st1 }) =
    (do { tvWait \<leftarrow> TimeDiff tvStop now;
             if tvWait \<le> 0 then Some (Some True, st1) else WaitEpoll_loop ctl h cmsWait tvStop tvWait rs' st1 })" for st1
    using Cons.IH [of "tvStop - now" st1] Cons.prems(1) now
    by (cases "TimeDiff tvStop now") (auto simp: TimeDiff_def i64_sub_def i64_eq_Some)
  show ?case
    using next_round r c assms(2) by (simp add: Let_def split: poll_result.splits)
qed simp

text \<open>C22: A bounded \<open>Wait\<close> over \<open>epoll\<close> ends: once the clock has reached the start time plus the time-out the
  wait returns with that round, no matter how often the system call was interrupted or reported events, and
  no check fails; and, as the clock does not run backwards, the time-outs it passes to \<open>epoll_wait\<close>
  stay between 0 and the whole time-out: only the kernel's answers to these have an effect.\<close>
theorem WaitEpoll_deadline:
  assumes "epoll_documented ctl interest" "handler_ok interest h" "server_ok interest st" "epoll_fd st \<noteq> INVALID_SOCKET"
    "0 \<le> cmsWait" "cmsWait < 2 ^ 31" "in_i64 (now + cmsWait)" "\<forall>r \<in> set rs. epoll_round_ok (now + cmsWait) r"
    "\<forall>r \<in> set rs. \<forall>t. now \<le> snd (r kNumEpollEvents t)" "late \<in> set rs" "\<forall>t. now + cmsWait \<le> snd (late kNumEpollEvents t)"
  shows "(\<exists>b st'. WaitEpoll ctl h now cmsWait rs st = Some (Some b, st') \<and> server_ok interest st') \<and>
    (\<forall>rs'. list_all2 (\<lambda>r r'. \<forall>t. 0 \<le> t \<and> t \<le> cmsWait \<longrightarrow> r kNumEpollEvents t = r' kNumEpollEvents t) rs rs' \<longrightarrow>
       WaitEpoll ctl h now cmsWait rs' st = WaitEpoll ctl h now cmsWait rs st)"
proof -
  have f: "cmsWait \<noteq> kForeverMs"
    using assms(5) by (simp add: kForeverMs_def)
  have w: "WaitEpoll ctl h now cmsWait rs st = WaitEpoll_loop ctl h cmsWait (now + cmsWait) cmsWait rs (st\<lparr>fWait := True\<rparr>)" for rs
    using f assms(4,5,7) by (simp add: WaitEpoll_def TimeAfter_def i64_add_def)
  obtain res st' where run: "WaitEpoll ctl h now cmsWait rs st = Some (res, st')" "served interest (st\<lparr>fWait := True\<rparr>) st'"
    using WaitEpoll_loop_ok [OF assms(1,2) _ assms(8), of "st\<lparr>fWait := True\<rparr>" cmsWait cmsWait] served_wait_flag(1) assms(3)
    unfolding w by blast
  have "res \<noteq> None"
  proof
    assume "res = None"
    then have "\<exists>t. snd (late kNumEpollEvents t) < now + cmsWait"
      using WaitEpoll_loop_blocked [OF _ f assms(10)] run(1) unfolding w by blast
    then show False
      using assms(11) by (meson not_le)
  qed
  moreover have "WaitEpoll ctl h now cmsWait rs' st = WaitEpoll ctl h now cmsWait rs st"
    if "list_all2 (\<lambda>r r'. \<forall>t. 0 \<le> t \<and> t \<le> cmsWait \<longrightarrow> r kNumEpollEvents t = r' kNumEpollEvents t) rs rs'" for rs'
    unfolding w using WaitEpoll_loop_timeouts [OF that f assms(6), of "now + cmsWait" cmsWait ctl h "st\<lparr>fWait := True\<rparr>"] assms(5,9)
    by simp
  ultimately show ?thesis
    using run by (auto simp: served_def)
qed

theorem WaitEpoll_deadline_witness:
  "\<exists>b st'. WaitEpoll map_epoll_ctl waking_handler 1000 20
      [\<lambda>n t. (Poll_error EINTR, 1005), \<lambda>n t. (Poll_error EINTR, 1020)] (example_server ()) = Some (Some b, st')"
proof -
  let ?r1 = "(\<lambda>n t. (Poll_error EINTR, 1005)) :: epoll_round" and ?r2 = "(\<lambda>n t. (Poll_error EINTR, 1020)) :: epoll_round"
  have rounds: "\<forall>r \<in> set [?r1, ?r2]. epoll_round_ok (1000 + 20) r" "\<forall>r \<in> set [?r1, ?r2]. \<forall>t. 1000 \<le> snd (r kNumEpollEvents t)"
    "?r2 \<in> set [?r1, ?r2]" "\<forall>t. 1000 + 20 \<le> snd (?r2 kNumEpollEvents t)"
    by (simp_all add: epoll_round_ok_def int_ranges)
  have nums: "(0 :: int) \<le> 20" "(20 :: int) < 2 ^ 31" "in_i64 (1000 + 20)"
    by (simp_all add: int_ranges)
  have fd: "epoll_fd (example_server ()) \<noteq> INVALID_SOCKET"
    by (simp add: example_server_def INVALID_SOCKET_def)
  show ?thesis
    using WaitEpoll_deadline [OF map_epoll_documented waking_handler_ok example_server_ok fd nums rounds] by blast
qed

text \<open>With \<open>select\<close> the end of the wait in microseconds is computed in \<open>int\<close>: a time-out of more than 35 minutes
  is undefined behaviour.\<close>

lemma WaitSelect_overflow: "2147484 \<le> cmsWait \<Longrightarrow> WaitSelect ctl h order now_us cmsWait process_io rounds st = None"
  by (simp add: WaitSelect_def i32_mul_def int_ranges kForeverMs_def)

text \<open>\<open>Close\<close> of a socket that has no descriptor returns at once, so a pending lookup and the state stay.\<close>

lemma Close_keeps_resolver:
  "sock (sockets st i) = INVALID_SOCKET \<Longrightarrow> conn_state (sockets st i) = CS_CLOSED \<Longrightarrow> IsUnresolvedIP addr \<Longrightarrow>
   \<exists>st1 st2. Connect ctl addr r created connected i st = Some (0, st1) \<and> SocketDispatcher_Close ctl closed i st1 = Some (0, st2) \<and>
     resolver (sockets st2 i) = Some r \<and> conn_state (sockets st2 i) = CS_CONNECTING"
  by (simp add: Connect_def SocketDispatcher_Close_def)

text \<open>An accepted socket does not know its family.\<close>

lemma accepted_family: "WrapSocket ctl s ty i st = Some (Some i, st') \<Longrightarrow> epoll_fd st = INVALID_SOCKET \<Longrightarrow>
   sock_family (sockets st' i) = AF_UNSPEC"
  by (auto simp: WrapSocket_def SocketDispatcher_Initialize_def pss_Add_def Let_def checked_simps wrapped_socket_def
      new_socket_def split: if_splits)

text \<open>The flags of an event.\<close>

lemma event_flags_spec:
  "has_events (event_flags requested readable writable errcode closed) DE_CLOSE \<longleftrightarrow> errcode \<noteq> 0 \<or> readable \<and> closed"
  "has_events (event_flags requested readable writable errcode closed) DE_ACCEPT \<longleftrightarrow>
     readable \<and> errcode = 0 \<and> \<not> closed \<and> has_events requested DE_ACCEPT"
  "has_events (event_flags requested readable writable errcode closed) DE_READ \<longleftrightarrow>
     readable \<and> errcode = 0 \<and> \<not> closed \<and> \<not> has_events requested DE_ACCEPT"
  "has_events (event_flags requested readable writable errcode closed) DE_CONNECT \<longleftrightarrow>
     writable \<and> has_events requested DE_CONNECT \<and> errcode = 0"
  "has_events (event_flags requested readable writable errcode closed) DE_WRITE \<longleftrightarrow>
     writable \<and> \<not> has_events requested DE_CONNECT"
  by (auto simp: event_flags_def has_events_def DE_defs)

end
