(* ===== verification/Logging.thy ===== *)
theory Logging
  imports Strings Units Thread_Queue
begin

text \<open>
  \<open>rtc_base/logging.h\<close> and \<open>logging.cc\<close>: composing a log line, the registered sinks and the severities
  that decide who gets it.

  The sinks are objects linked by their \<open>next_\<close> pointers: a store \<open>sinks\<close> from addresses to nodes.  The
  loops along the links are partial functions, so \<open>None\<close> is a failed check or a loop that never ends.
  What a sink does with a line is the argument \<open>on_log\<close>; it runs under the logging lock and cannot call
  back, so it only changes the world \<open>'w\<close> outside.  \<open>log_env\<close> is what a message finds outside the
  program: clock, thread, the texts for error codes and for floating point numbers.
\<close>

section \<open>Severities\<close>

datatype LoggingSeverity = LS_VERBOSE | LS_INFO | LS_WARNING | LS_ERROR | LS_NONE

fun sev_value :: "LoggingSeverity \<Rightarrow> nat" where
  "sev_value LS_VERBOSE = 0"
| "sev_value LS_INFO = 1"
| "sev_value LS_WARNING = 2"
| "sev_value LS_ERROR = 3"
| "sev_value LS_NONE = 4"

lemma sev_value_inj: "sev_value a = sev_value b \<Longrightarrow> a = b"
  by (cases a; cases b) simp_all

instantiation LoggingSeverity :: linorder
begin

definition less_eq_LoggingSeverity :: "LoggingSeverity \<Rightarrow> LoggingSeverity \<Rightarrow> bool" where
  "less_eq_LoggingSeverity a b \<longleftrightarrow> sev_value a \<le> sev_value b"

definition less_LoggingSeverity :: "LoggingSeverity \<Rightarrow> LoggingSeverity \<Rightarrow> bool" where
  "less_LoggingSeverity a b \<longleftrightarrow> sev_value a < sev_value b"

instance
  by standard (auto simp: less_eq_LoggingSeverity_def less_LoggingSeverity_def sev_value_inj)

end

datatype LogErrorContext = ERRCTX_NONE | ERRCTX_ERRNO | ERRCTX_HRESULT

text \<open>\<open>static_cast<LoggingSeverity>\<close> of the three bits of \<open>line_and_sev_\<close>.\<close>

definition sev_of_value :: "nat \<Rightarrow> LoggingSeverity" where
  "sev_of_value n = (if n = 0 then LS_VERBOSE else if n = 1 then LS_INFO else if n = 2 then LS_WARNING
     else if n = 3 then LS_ERROR else LS_NONE)"

section \<open>The arguments of a log statement\<close>

record log_metadata =
  meta_file :: "string option"
  line_and_sev :: "32 word"

definition LogMetadata :: "string option \<Rightarrow> int \<Rightarrow> LoggingSeverity \<Rightarrow> log_metadata" where
  "LogMetadata f l sev = \<lparr>meta_file = f,
     line_and_sev = or (push_bit 3 (word_of_int l)) (word_of_nat (sev_value sev))\<rparr>"

definition meta_Line :: "log_metadata \<Rightarrow> int" where
  "meta_Line m = uint (drop_bit 3 (line_and_sev m))"

definition meta_Severity :: "log_metadata \<Rightarrow> LoggingSeverity" where
  "meta_Severity m = sev_of_value (unat (and (line_and_sev m) 7))"

text \<open>A value with its \<open>LogArgType\<close>; \<open>kEnd\<close> is the end of the list.\<close>

datatype 'd log_arg =
    kInt int | kLong int | kLongLong int | kUInt int | kULong int | kULongLong int
  | kDouble 'd | kLongDouble 'd | kCharP "string option" | kStdString string | kStringView string | kVoidP nat
  | kLogMetadata log_metadata | kLogMetadataErr log_metadata LogErrorContext int | kLogMetadataTag LoggingSeverity string

text \<open>\<open>LogStreamer\<close>: the latest argument and the streamer before it.\<close>

datatype 'd log_streamer = LogStreamer | LogStreamer_arg "'d log_arg" "'d log_streamer"

definition streamer_put :: "'d log_streamer \<Rightarrow> 'd log_arg \<Rightarrow> 'd log_streamer" where
  "streamer_put streamer arg = LogStreamer_arg arg streamer"

fun streamer_Call :: "'d log_streamer \<Rightarrow> 'd log_arg list \<Rightarrow> 'd log_arg list" where
  "streamer_Call LogStreamer args = args"
| "streamer_Call (LogStreamer_arg arg prior) args = streamer_Call prior (arg # args)"

section \<open>A log line\<close>

record LogLineRef =
  log_text :: string
  filename :: string
  line_no :: int
  thread_id :: "int option"
  timestamp :: Timestamp
  log_tag :: string
  severity :: LoggingSeverity

definition new_log_line :: LogLineRef where
  "new_log_line = \<lparr>log_text = [], filename = [], line_no = 0, thread_id = None, timestamp = MinusInfinity,
     log_tag = ''libjingle'', severity = LS_VERBOSE\<rparr>"

definition find_last :: "char \<Rightarrow> string \<Rightarrow> nat option" where
  "find_last c s = (if c \<in> set s then Some (length s - 1 - length (takeWhile (\<lambda>d. d \<noteq> c) (rev s))) else None)"

definition FilenameFromPath :: "string \<Rightarrow> string" where
  "FilenameFromPath f = (case (find_last CHR ''/'' f, find_last CHR 0x5C f) of
     (None, None) \<Rightarrow> f
   | (Some end1, None) \<Rightarrow> drop (end1 + 1) f
   | (None, Some end2) \<Rightarrow> drop (end2 + 1) f
   | (Some end1, Some end2) \<Rightarrow> if end1 > end2 then drop (end1 + 1) f else drop (end2 + 1) f)"

text \<open>\<open>%03lld\<close>.\<close>

definition pad03 :: "int \<Rightarrow> string" where
  "pad03 i = (if i < 0 then CHR ''-'' # zero_pad 2 (nat (- i)) else zero_pad 3 (nat i))"

datatype log_platform = Posix | Mac_release "bool option" | Android | Windows bool

definition DefaultLogLine :: "log_platform \<Rightarrow> LogLineRef \<Rightarrow> string checked" where
  "DefaultLogLine pf l = do {
     stamp \<leftarrow> (if timestamp l \<noteq> MinusInfinity then do {
                 ms \<leftarrow> ts_ms (timestamp l);
                 secs \<leftarrow> i64_div ms 1000;
                 rest \<leftarrow> i64_mod ms 1000;
                 let t = ''['' @ pad03 secs @ '':'' @ pad03 rest @ '']'';
                 rtc_check (length t < 50);
                 Some t
               } else Some []);
     thread \<leftarrow> (case thread_id l of
                 Some i \<Rightarrow> do { t \<leftarrow> int_ToString i; Some (''['' @ t @ ''] '') }
               | None \<Rightarrow> Some []);
     place \<leftarrow> (if filename l \<noteq> [] then do {
                 n \<leftarrow> int_ToString (line_no l);
                 Some (if pf = Android then ''(line '' @ n @ ''): '' else ''('' @ filename l @ '':'' @ n @ ''): '')
               } else Some []);
     Some (stamp @ thread @ place @ log_text l)
   }"

section \<open>The state of the log subsystem\<close>

record sink_node =
  next_sink :: "nat option"
  min_severity :: LoggingSeverity

datatype log_target = Stderr | Debugger | Console | Android_log LoggingSeverity string "(nat \<times> nat) option"

record 'w log_state =
  g_min_sev :: LoggingSeverity
  g_dbg_sev :: LoggingSeverity
  streams :: "nat option"
  sinks :: "nat \<Rightarrow> sink_node"
  streams_empty :: bool
  log_thread :: bool
  log_timestamp :: bool
  log_to_stderr :: bool
  log_start :: "int option"
  debug_out :: "(log_target \<times> string) list"
  world :: 'w

definition kDefaultLoggingSeverity :: "bool \<Rightarrow> LoggingSeverity" where
  "kDefaultLoggingSeverity ndebug = (if ndebug then LS_NONE else LS_INFO)"

definition initial_log :: "bool \<Rightarrow> (nat \<Rightarrow> sink_node) \<Rightarrow> 'w \<Rightarrow> 'w log_state" where
  "initial_log ndebug objects w = \<lparr>g_min_sev = kDefaultLoggingSeverity ndebug,
     g_dbg_sev = kDefaultLoggingSeverity ndebug, streams = None, sinks = objects, streams_empty = True,
     log_thread = False, log_timestamp = False, log_to_stderr = True, log_start = None, debug_out = [], world = w\<rparr>"

definition GetMinLogSeverity :: "'w log_state \<Rightarrow> LoggingSeverity" where
  "GetMinLogSeverity st = g_min_sev st"

definition GetLogToDebug :: "'w log_state \<Rightarrow> LoggingSeverity" where
  "GetLogToDebug st = g_dbg_sev st"

definition LogThreads :: "bool \<Rightarrow> 'w log_state \<Rightarrow> 'w log_state" where
  "LogThreads on st = st\<lparr>log_thread := on\<rparr>"

definition LogTimestamps :: "bool \<Rightarrow> 'w log_state \<Rightarrow> 'w log_state" where
  "LogTimestamps on st = st\<lparr>log_timestamp := on\<rparr>"

definition SetLogToStderr :: "bool \<Rightarrow> 'w log_state \<Rightarrow> 'w log_state" where
  "SetLogToStderr on st = st\<lparr>log_to_stderr := on\<rparr>"

definition LogStartTime :: "int \<Rightarrow> 'w log_state \<Rightarrow> int \<times> 'w log_state" where
  "LogStartTime now st = (case log_start st of Some t \<Rightarrow> (t, st) | None \<Rightarrow> (now, st\<lparr>log_start := Some now\<rparr>))"

definition IsNoop :: "LoggingSeverity \<Rightarrow> 'w log_state \<Rightarrow> bool" where
  "IsNoop sev st = (if sev \<ge> g_dbg_sev st \<or> sev \<ge> g_min_sev st then False else streams_empty st)"

definition LogCheckLevel :: "LoggingSeverity \<Rightarrow> 'w log_state \<Rightarrow> bool" where
  "LogCheckLevel sev st \<longleftrightarrow> GetMinLogSeverity st \<le> sev"

section \<open>The list of sinks\<close>

partial_function (option) min_loop ::
  "(nat \<Rightarrow> sink_node) \<Rightarrow> nat option \<Rightarrow> LoggingSeverity \<Rightarrow> LoggingSeverity option" where
  "min_loop heap entry sev = (case entry of
     None \<Rightarrow> Some sev
   | Some e \<Rightarrow> min_loop heap (next_sink (heap e)) (min sev (min_severity (heap e))))"

definition UpdateMinLogSeverity :: "'w log_state \<Rightarrow> 'w log_state checked" where
  "UpdateMinLogSeverity st = do {
     sev \<leftarrow> min_loop (sinks st) (streams st) (g_dbg_sev st);
     Some (st\<lparr>g_min_sev := sev\<rparr>)
   }"

definition LogToDebug :: "LoggingSeverity \<Rightarrow> 'w log_state \<Rightarrow> 'w log_state checked" where
  "LogToDebug min_sev st = UpdateMinLogSeverity (st\<lparr>g_dbg_sev := min_sev\<rparr>)"

partial_function (option) get_loop ::
  "(nat \<Rightarrow> sink_node) \<Rightarrow> nat option \<Rightarrow> nat option \<Rightarrow> LoggingSeverity \<Rightarrow> LoggingSeverity option" where
  "get_loop heap stream entry sev = (case entry of
     None \<Rightarrow> Some sev
   | Some e \<Rightarrow> get_loop heap stream (next_sink (heap e))
       (if stream = None \<or> stream = Some e then min sev (min_severity (heap e)) else sev))"

definition GetLogToStream :: "nat option \<Rightarrow> 'w log_state \<Rightarrow> LoggingSeverity checked" where
  "GetLogToStream stream st = get_loop (sinks st) stream (streams st) LS_NONE"

definition AddLogToStream :: "nat \<Rightarrow> LoggingSeverity \<Rightarrow> 'w log_state \<Rightarrow> 'w log_state checked" where
  "AddLogToStream stream min_sev st =
     (let st = st\<lparr>sinks := (sinks st)(stream := \<lparr>next_sink = streams st, min_severity = min_sev\<rparr>)\<rparr>;
          st = st\<lparr>streams := Some stream\<rparr>;
          st = st\<lparr>streams_empty := False\<rparr>
      in UpdateMinLogSeverity st)"

text \<open>The loop of \<open>RemoveLogToStream\<close> runs over pointers to pointers.\<close>

datatype link = Head | Next_of nat

fun read_link :: "link \<Rightarrow> 'w log_state \<Rightarrow> nat option" where
  "read_link Head st = streams st"
| "read_link (Next_of e) st = next_sink (sinks st e)"

fun write_link :: "link \<Rightarrow> nat option \<Rightarrow> 'w log_state \<Rightarrow> 'w log_state" where
  "write_link Head p st = st\<lparr>streams := p\<rparr>"
| "write_link (Next_of e) p st = st\<lparr>sinks := (sinks st)(e := (sinks st e)\<lparr>next_sink := p\<rparr>)\<rparr>"

partial_function (option) remove_loop :: "nat \<Rightarrow> link \<Rightarrow> 'w log_state \<Rightarrow> 'w log_state option" where
  "remove_loop stream entry st = (case read_link entry st of
     None \<Rightarrow> Some st
   | Some e \<Rightarrow> if e = stream then Some (write_link entry (next_sink (sinks st e)) st)
              else remove_loop stream (Next_of e) st)"

definition RemoveLogToStream :: "nat \<Rightarrow> 'w log_state \<Rightarrow> 'w log_state checked" where
  "RemoveLogToStream stream st = do {
     st \<leftarrow> remove_loop stream Head st;
     UpdateMinLogSeverity (st\<lparr>streams_empty := (streams st = None)\<rparr>)
   }"

fun configure_tokens :: "string list \<Rightarrow> LoggingSeverity \<Rightarrow> LoggingSeverity \<Rightarrow> 'w log_state \<Rightarrow> LoggingSeverity \<times> 'w log_state" where
  "configure_tokens [] current_level debug_level st = (debug_level, st)"
| "configure_tokens (token # tokens) current_level debug_level st =
     (if token = [] then configure_tokens tokens current_level debug_level st
      else if token = ''tstamp'' then configure_tokens tokens current_level debug_level (LogTimestamps True st)
      else if token = ''thread'' then configure_tokens tokens current_level debug_level (LogThreads True st)
      else if token = ''verbose'' then configure_tokens tokens LS_VERBOSE debug_level st
      else if token = ''info'' then configure_tokens tokens LS_INFO debug_level st
      else if token = ''warning'' then configure_tokens tokens LS_WARNING debug_level st
      else if token = ''error'' then configure_tokens tokens LS_ERROR debug_level st
      else if token = ''none'' then configure_tokens tokens LS_NONE debug_level st
      else if token = ''debug'' then configure_tokens tokens current_level current_level st
      else configure_tokens tokens current_level debug_level st)"

definition ConfigureLogging :: "string \<Rightarrow> 'w log_state \<Rightarrow> 'w log_state checked" where
  "ConfigureLogging params st =
     (let (debug_level, st) = configure_tokens (snd (tokenize params CHR '' '')) LS_VERBOSE (GetLogToDebug st) st
      in LogToDebug debug_level st)"

section \<open>Messages\<close>

record 'd log_env =
  log_platform :: log_platform
  time_first :: int
  time_now :: int
  thread_now :: int
  strerror :: "int \<Rightarrow> string"
  format_message :: "int \<Rightarrow> string"
  double_text :: "'d \<Rightarrow> string"

text \<open>\<open>%x\<close> and \<open>%08X\<close> of an \<open>int\<close>.\<close>

fun radix16 :: "string \<Rightarrow> nat \<Rightarrow> string" where
  "radix16 digits n = (if n < 16 then [digits ! n] else radix16 digits (n div 16) @ [digits ! (n mod 16)])"

declare radix16.simps [simp del]

definition ToHex :: "int \<Rightarrow> string" where
  "ToHex i = radix16 ''0123456789abcdef'' (nat (i mod 2 ^ 32))"

definition hex8 :: "int \<Rightarrow> string" where
  "hex8 i = (let t = radix16 ''0123456789ABCDEF'' (nat (i mod 2 ^ 32)) in replicate (8 - length t) CHR ''0'' @ t)"

definition isspace_char :: "char \<Rightarrow> bool" where
  "isspace_char c \<longleftrightarrow> c = CHR '' '' \<or> (9 \<le> (of_char c :: nat) \<and> (of_char c :: nat) \<le> 13)"

text \<open>The text that explains an error code, built in a buffer of 1024 characters.\<close>

definition error_extra :: "'d log_env \<Rightarrow> LogErrorContext \<Rightarrow> int \<Rightarrow> string checked" where
  "error_extra env err_ctx err =
     (if err_ctx = ERRCTX_NONE then Some []
      else do {
        tmp \<leftarrow> SimpleStringBuilder (replicate 1024 char_nul);
        tmp \<leftarrow> sb_AppendFormat True (''[0x'' @ hex8 err @ '']'') tmp;
        tmp \<leftarrow> (case err_ctx of
            ERRCTX_ERRNO \<Rightarrow> do { tmp \<leftarrow> sb_append True '' '' tmp; sb_append True (strerror env err) tmp }
          | ERRCTX_HRESULT \<Rightarrow>
              (case log_platform env of
                 Windows _ \<Rightarrow>
                   if format_message env err \<noteq> []
                   then do { tmp \<leftarrow> sb_append True '' '' tmp;
                             sb_append True (rev (dropWhile isspace_char (rev (format_message env err)))) tmp }
                   else Some tmp
               | _ \<Rightarrow> Some tmp)
          | ERRCTX_NONE \<Rightarrow> Some tmp);
        Some (sb_str tmp)
      })"

text \<open>The constructor reads the clock twice when it is the first to ask for the start time.  It gives the line so far, \<open>extra_\<close> and the state.\<close>

definition LogMessage ::
  "'d log_env \<Rightarrow> string option \<Rightarrow> int \<Rightarrow> LoggingSeverity \<Rightarrow> LogErrorContext \<Rightarrow> int \<Rightarrow> 'w log_state
     \<Rightarrow> (LogLineRef \<times> string \<times> 'w log_state) checked" where
  "LogMessage env f l sev err_ctx err st = do {
     let ln = new_log_line\<lparr>severity := sev\<rparr>;
     (ln, st) \<leftarrow> (if log_timestamp st then do {
                    let (log_start_time, st) = LogStartTime (time_first env) st;
                    time \<leftarrow> TimeDiff (time_now env) log_start_time;
                    t \<leftarrow> Timestamp_Millis time;
                    Some (ln\<lparr>timestamp := t\<rparr>, st)
                  } else Some (ln, st));
     let ln = (if log_thread st then ln\<lparr>thread_id := Some (thread_now env)\<rparr> else ln);
     let ln = (case f of
                 Some path \<Rightarrow>
                   let ln = ln\<lparr>filename := FilenameFromPath path, line_no := l\<rparr>
                   in if log_platform env = Android then ln\<lparr>log_tag := filename ln\<rparr> else ln
               | None \<Rightarrow> ln);
     extra \<leftarrow> error_extra env err_ctx err;
     Some (ln, extra, st)
   }"

definition AddTag :: "'d log_env \<Rightarrow> string \<Rightarrow> LogLineRef \<Rightarrow> LogLineRef" where
  "AddTag env t ln = (if log_platform env = Android then ln\<lparr>log_tag := t\<rparr> else ln)"

definition FinishPrintStream :: "string \<Rightarrow> string \<Rightarrow> string" where
  "FinishPrintStream extra print_stream =
     (if extra \<noteq> [] then StringBuilder_append (StringBuilder_append print_stream '' : '') extra else print_stream) @ ''\<newline>''"

definition kMaxLogLineSize :: nat where
  "kMaxLogLineSize = 1024 - 60"

text \<open>Android's log takes a long line in numbered pieces.\<close>

function android_pieces :: "nat \<Rightarrow> nat \<Rightarrow> string \<Rightarrow> ((nat \<times> nat) \<times> string) list" where
  "android_pieces current_line max_lines msg =
     (if msg = [] then []
      else ((current_line + 1, max_lines), take kMaxLogLineSize msg) #
           android_pieces (current_line + 1) max_lines (drop kMaxLogLineSize msg))"
  by pat_completeness auto
termination
  by (relation "measure (\<lambda>(_, _, msg). length msg)") (simp_all add: kMaxLogLineSize_def)

declare android_pieces.simps [simp del]

definition android_print :: "LogLineRef \<Rightarrow> string \<Rightarrow> (log_target \<times> string) list" where
  "android_print ln msg_str =
     (let max_lines = length msg_str div kMaxLogLineSize + 1
      in if max_lines = 1 then [(Android_log (severity ln) (log_tag ln) None, msg_str)]
         else map (\<lambda>(piece, t). (Android_log (severity ln) (log_tag ln) (Some piece), t)) (android_pieces 0 max_lines msg_str))"

definition OutputToDebug :: "log_platform \<Rightarrow> LogLineRef \<Rightarrow> 'w log_state \<Rightarrow> 'w log_state checked" where
  "OutputToDebug pf ln st = do {
     msg_str \<leftarrow> DefaultLogLine pf ln;
     let to_stderr = log_to_stderr st;
     let to_stderr = (case pf of Mac_release (Some pref) \<Rightarrow> pref | Mac_release None \<Rightarrow> False | _ \<Rightarrow> to_stderr);
     let out = (case pf of Windows _ \<Rightarrow> [(Debugger, msg_str)] | _ \<Rightarrow> []);
     let (out, to_stderr) = (if pf = Windows True \<and> to_stderr then (out @ [(Console, msg_str)], False) else (out, to_stderr));
     let out = out @ (if pf = Android then android_print ln msg_str else []);
     let out = out @ (if to_stderr then [(Stderr, msg_str)] else []);
     Some (st\<lparr>debug_out := debug_out st @ out\<rparr>)
   }"

partial_function (option) deliver_loop ::
  "(nat \<Rightarrow> LogLineRef \<Rightarrow> 'w \<Rightarrow> 'w) \<Rightarrow> (nat \<Rightarrow> sink_node) \<Rightarrow> LogLineRef \<Rightarrow> nat option \<Rightarrow> 'w \<Rightarrow> 'w option" where
  "deliver_loop on_log heap ln entry w = (case entry of
     None \<Rightarrow> Some w
   | Some e \<Rightarrow> deliver_loop on_log heap ln (next_sink (heap e))
       (if severity ln \<ge> min_severity (heap e) then on_log e ln w else w))"

text \<open>The destructor.\<close>

definition LogMessage_end ::
  "(nat \<Rightarrow> LogLineRef \<Rightarrow> 'w \<Rightarrow> 'w) \<Rightarrow> 'd log_env \<Rightarrow> LogLineRef \<Rightarrow> string \<Rightarrow> string \<Rightarrow> 'w log_state \<Rightarrow> 'w log_state checked" where
  "LogMessage_end on_log env ln extra print_stream st = do {
     let ln = ln\<lparr>log_text := FinishPrintStream extra print_stream\<rparr>;
     st \<leftarrow> (if severity ln \<ge> g_dbg_sev st then OutputToDebug (log_platform env) ln st else Some st);
     w \<leftarrow> deliver_loop on_log (sinks st) ln (streams st) (world st);
     Some (st\<lparr>world := w\<rparr>)
   }"

fun arg_text :: "'d log_env \<Rightarrow> 'd log_arg \<Rightarrow> string checked" where
  "arg_text env (kInt i) = int_ToString i"
| "arg_text env (kLong i) = int_ToString i"
| "arg_text env (kLongLong i) = int_ToString i"
| "arg_text env (kUInt i) = int_ToString i"
| "arg_text env (kULong i) = int_ToString i"
| "arg_text env (kULongLong i) = int_ToString i"
| "arg_text env (kDouble d) = Some (double_text env d)"
| "arg_text env (kLongDouble d) = Some (double_text env d)"
| "arg_text env (kCharP s) = Some (case s of Some t \<Rightarrow> t | None \<Rightarrow> ''(null)'')"
| "arg_text env (kStdString s) = Some s"
| "arg_text env (kStringView s) = Some s"
| "arg_text env (kVoidP p) = Some (ToHex (int p))"
| "arg_text env _ = None"

fun Log_args :: "'d log_env \<Rightarrow> 'd log_arg list \<Rightarrow> string \<Rightarrow> string checked" where
  "Log_args env [] print_stream = Some print_stream"
| "Log_args env (a # args) print_stream = do {
     t \<leftarrow> arg_text env a;
     Log_args env args (StringBuilder_append print_stream t)
   }"

definition Log ::
  "(nat \<Rightarrow> LogLineRef \<Rightarrow> 'w \<Rightarrow> 'w) \<Rightarrow> 'd log_env \<Rightarrow> 'd log_arg list \<Rightarrow> 'w log_state \<Rightarrow> 'w log_state checked" where
  "Log on_log env fmt st = do {
     (f, l, sev, err_ctx, err, tag) \<leftarrow> (case fmt of
         kLogMetadata m # _ \<Rightarrow> Some (meta_file m, meta_Line m, meta_Severity m, ERRCTX_NONE, 0, None)
       | kLogMetadataErr m ctx e # _ \<Rightarrow> Some (meta_file m, meta_Line m, meta_Severity m, ctx, e, None)
       | kLogMetadataTag sev t # _ \<Rightarrow>
           if log_platform env = Android
           then (let m = LogMetadata None 0 sev in Some (meta_file m, meta_Line m, meta_Severity m, ERRCTX_NONE, 0, Some t))
           else None
       | _ \<Rightarrow> None);
     (ln, extra, st) \<leftarrow> LogMessage env f l sev err_ctx err st;
     let ln = (case tag of Some t \<Rightarrow> AddTag env t ln | None \<Rightarrow> ln);
     print_stream \<leftarrow> Log_args env (tl fmt) [];
     LogMessage_end on_log env ln extra print_stream st
   }"

definition LogCall ::
  "(nat \<Rightarrow> LogLineRef \<Rightarrow> 'w \<Rightarrow> 'w) \<Rightarrow> 'd log_env \<Rightarrow> 'd log_streamer \<Rightarrow> 'w log_state \<Rightarrow> 'w log_state checked" where
  "LogCall on_log env streamer st = Log on_log env (streamer_Call streamer []) st"

text \<open>\<open>RTC_LOG_V(sev) << args\<close>, and \<open>RTC_LOG_E(sev, ctx, err) << args\<close>.\<close>

definition RTC_LOG_V ::
  "(nat \<Rightarrow> LogLineRef \<Rightarrow> 'w \<Rightarrow> 'w) \<Rightarrow> 'd log_env \<Rightarrow> LoggingSeverity \<Rightarrow> string \<Rightarrow> int \<Rightarrow> 'd log_arg list
     \<Rightarrow> 'w log_state \<Rightarrow> 'w log_state checked" where
  "RTC_LOG_V on_log env sev f l args st =
     (if IsNoop sev st then Some st
      else LogCall on_log env
        (foldl streamer_put (streamer_put LogStreamer (kLogMetadata (LogMetadata (Some f) l sev))) args) st)"

definition RTC_LOG_E ::
  "(nat \<Rightarrow> LogLineRef \<Rightarrow> 'w \<Rightarrow> 'w) \<Rightarrow> 'd log_env \<Rightarrow> LoggingSeverity \<Rightarrow> LogErrorContext \<Rightarrow> int \<Rightarrow> string \<Rightarrow> int
     \<Rightarrow> 'd log_arg list \<Rightarrow> 'w log_state \<Rightarrow> 'w log_state checked" where
  "RTC_LOG_E on_log env sev ctx err f l args st =
     (if IsNoop sev st then Some st
      else LogCall on_log env
        (foldl streamer_put (streamer_put LogStreamer (kLogMetadataErr (LogMetadata (Some f) l sev) ctx err)) args) st)"

section \<open>What a sink receives by default\<close>

text \<open>A sink that overrides only \<open>OnLogMessage(const std::string&)\<close>: the text it gets.\<close>

definition OnLogMessage_tag :: "string \<Rightarrow> string \<Rightarrow> string" where
  "OnLogMessage_tag msg t = t @ '': '' @ msg"

definition OnLogMessage_default :: "log_platform \<Rightarrow> LogLineRef \<Rightarrow> string checked" where
  "OnLogMessage_default pf ln = do {
     msg \<leftarrow> DefaultLogLine pf ln;
     Some (if pf = Android then OnLogMessage_tag msg (log_tag ln) else msg)
   }"

end
