(* ===== verification/Log_Registry.thy ===== *)
theory Log_Registry
  imports Logging
begin

text \<open>
  The list of log sinks along their \<open>next_\<close> links (\<open>sink_list\<close>), the plain list it stands for
  (\<open>log_spec\<close>, \<open>log_rel\<close>), and what a log statement delivers to whom.
\<close>

primrec sink_list :: "(nat \<Rightarrow> sink_node) \<Rightarrow> nat option \<Rightarrow> nat list \<Rightarrow> bool" where
  "sink_list heap p [] \<longleftrightarrow> p = None"
| "sink_list heap p (e # es) \<longleftrightarrow> p = Some e \<and> sink_list heap (next_sink (heap e)) es"

lemma sink_list_update [simp]: "s \<notin> set es \<Longrightarrow> sink_list (heap(s := n)) p es = sink_list heap p es"
  by (induction es arbitrary: p) auto

lemma min_loop_list:
  "sink_list heap p es \<Longrightarrow> min_loop heap p sev = Some (fold (\<lambda>e s. min s (min_severity (heap e))) es sev)"
  by (induction es arbitrary: p sev) (simp_all add: min_loop.simps)

lemma get_loop_list:
  "sink_list heap p es \<Longrightarrow> get_loop heap stream p sev =
     Some (fold (\<lambda>e s. if stream = None \<or> stream = Some e then min s (min_severity (heap e)) else s) es sev)"
  by (induction es arbitrary: p sev) (simp_all add: get_loop.simps)

lemma deliver_loop_list:
  "sink_list heap p es \<Longrightarrow> deliver_loop on_log heap ln p w =
     Some (fold (\<lambda>e w. if min_severity (heap e) \<le> severity ln then on_log e ln w else w) es w)"
  by (induction es arbitrary: p w) (simp_all add: deliver_loop.simps)

text \<open>Removing unlinks one node and changes nothing else.\<close>

definition same_but_links :: "nat set \<Rightarrow> 'w log_state \<Rightarrow> 'w log_state \<Rightarrow> bool" where
  "same_but_links C st st' \<longleftrightarrow> st' = st\<lparr>streams := streams st', sinks := sinks st'\<rparr>
     \<and> (\<forall>e. min_severity (sinks st' e) = min_severity (sinks st e)) \<and> (\<forall>e. e \<notin> C \<longrightarrow> sinks st' e = sinks st e)"

lemma same_but_links_mono: "same_but_links C st st' \<Longrightarrow> C \<subseteq> C' \<Longrightarrow> same_but_links C' st st'"
  by (auto simp: same_but_links_def)

fun link_owner :: "link \<Rightarrow> nat set" where
  "link_owner Head = {}"
| "link_owner (Next_of e) = {e}"

lemma remove_loop_list:
  "sink_list (sinks st) (read_link entry st) es \<Longrightarrow> distinct es \<Longrightarrow> link_owner entry \<inter> set es = {} \<Longrightarrow>
   \<exists>st'. remove_loop stream entry st = Some st' \<and> sink_list (sinks st') (read_link entry st') (remove1 stream es)
     \<and> same_but_links (link_owner entry \<union> set es) st st' \<and> (entry \<noteq> Head \<longrightarrow> streams st' = streams st)"
proof (induction es arbitrary: entry)
  case Nil
  then show ?case
    by (simp add: remove_loop.simps same_but_links_def)
next
  case (Cons a es)
  have r: "read_link entry st = Some a" "sink_list (sinks st) (next_sink (sinks st a)) es"
    using Cons.prems(1) by simp_all
  show ?case
  proof (cases "a = stream")
    case True
    then have "remove_loop stream entry st = Some (write_link entry (next_sink (sinks st a)) st)"
      using r by (simp add: remove_loop.simps)
    then show ?thesis
      using True r Cons.prems by (cases entry) (auto simp: same_but_links_def)
  next
    case False
    obtain st' where st': "remove_loop stream (Next_of a) st = Some st'"
      "sink_list (sinks st') (next_sink (sinks st' a)) (remove1 stream es)"
      "same_but_links (insert a (set es)) st st'" "streams st' = streams st"
      using Cons.IH [of "Next_of a"] Cons.prems r by auto
    have "read_link entry st' = Some a"
      using r(1) st'(3,4) Cons.prems(3) by (cases entry) (auto simp: same_but_links_def)
    then show ?thesis
      using False r st' same_but_links_mono [OF st'(3)]
      by (intro exI [of _ st']) (auto simp: remove_loop.simps [of stream entry])
  qed
qed

text \<open>A loop that can only reach nodes with a successor among themselves does not end.\<close>

lemma min_loop_cycle:
  assumes "\<forall>e \<in> C. \<exists>e' \<in> C. next_sink (heap e) = Some e'" "s \<in> C"
  shows "min_loop heap (Some s) sev = None"
proof -
  have "(\<forall>C. (\<forall>e \<in> C. \<exists>e' \<in> C. next_sink (heap e) = Some e') \<longrightarrow> (\<forall>e \<in> C. entry \<noteq> Some e))"
    if "min_loop heap entry sev = Some r" for heap entry sev r
  proof (rule min_loop.raw_induct [OF _ that], intro allI impI ballI notI)
    fix loop heap entry sev r C e
    assume IH: "\<And>heap entry sev r. loop heap entry sev = Some r \<Longrightarrow>
        \<forall>C. (\<forall>e \<in> C. \<exists>e' \<in> C. next_sink (heap e) = Some e') \<longrightarrow> (\<forall>e \<in> C. entry \<noteq> Some e)"
      and body: "(case entry of None \<Rightarrow> Some sev
        | Some e \<Rightarrow> loop heap (next_sink (heap e)) (min sev (min_severity (heap e)))) = Some r"
      and C: "\<forall>e \<in> C. \<exists>e' \<in> C. next_sink (heap e) = Some e'" "e \<in> C" "entry = Some e"
    obtain e' where e': "e' \<in> C" "next_sink (heap e) = Some e'"
      using C by blast
    then have "loop heap (Some e') (min sev (min_severity (heap e))) = Some r"
      using body C(3) by simp
    then show False
      using IH C(1) e'(1) by blast
  qed
  then show ?thesis
    using assms by (cases "min_loop heap (Some s) sev") blast+
qed

section \<open>The abstract registry\<close>

record log_spec =
  registered :: "(nat \<times> LoggingSeverity) list"
  debug_level :: LoggingSeverity

definition least_severity :: "log_spec \<Rightarrow> LoggingSeverity" where
  "least_severity a = foldr (\<lambda>(_, v) m. min v m) (registered a) (debug_level a)"

definition log_rel :: "'w log_state \<Rightarrow> log_spec \<Rightarrow> bool" where
  "log_rel st a \<longleftrightarrow> sink_list (sinks st) (streams st) (map fst (registered a)) \<and> distinct (map fst (registered a))
     \<and> (\<forall>(s, v) \<in> set (registered a). min_severity (sinks st s) = v)
     \<and> streams_empty st = (registered a = []) \<and> g_dbg_sev st = debug_level a \<and> g_min_sev st = least_severity a"

lemma initial_log_rel: "log_rel (initial_log ndebug objects w) \<lparr>registered = [], debug_level = kDefaultLoggingSeverity ndebug\<rparr>"
  by (simp add: log_rel_def initial_log_def least_severity_def)

datatype log_call = Add_sink nat LoggingSeverity | Remove_sink nat | To_debug LoggingSeverity | Threads bool
  | Timestamps bool | To_stderr bool | Configure string

fun run_log_call :: "log_call \<Rightarrow> 'w log_state \<Rightarrow> 'w log_state checked" where
  "run_log_call (Add_sink s v) st = AddLogToStream s v st"
| "run_log_call (Remove_sink s) st = RemoveLogToStream s st"
| "run_log_call (To_debug v) st = LogToDebug v st"
| "run_log_call (Threads on) st = Some (LogThreads on st)"
| "run_log_call (Timestamps on) st = Some (LogTimestamps on st)"
| "run_log_call (To_stderr on) st = Some (SetLogToStderr on st)"
| "run_log_call (Configure params) st = ConfigureLogging params st"

text \<open>The level a parameter string sets: that of the last \<open>debug\<close>, which is the last level before it.\<close>

fun configured_level :: "string list \<Rightarrow> LoggingSeverity \<Rightarrow> LoggingSeverity \<Rightarrow> LoggingSeverity" where
  "configured_level [] cur deb = deb"
| "configured_level (t # ts) cur deb =
     (case map_of [(''verbose'', LS_VERBOSE), (''info'', LS_INFO), (''warning'', LS_WARNING), (''error'', LS_ERROR),
                   (''none'', LS_NONE)] t of
        Some v \<Rightarrow> configured_level ts v deb
      | None \<Rightarrow> configured_level ts cur (if t = ''debug'' then cur else deb))"

fun spec_log_call :: "log_call \<Rightarrow> log_spec \<Rightarrow> log_spec" where
  "spec_log_call (Add_sink s v) a = a\<lparr>registered := (s, v) # registered a\<rparr>"
| "spec_log_call (Remove_sink s) a = a\<lparr>registered := filter (\<lambda>(r, _). r \<noteq> s) (registered a)\<rparr>"
| "spec_log_call (To_debug v) a = a\<lparr>debug_level := v\<rparr>"
| "spec_log_call (Configure params) a =
     a\<lparr>debug_level := configured_level (filter (\<lambda>t. t \<noteq> []) (snd (tokenize params CHR '' ''))) LS_VERBOSE (debug_level a)\<rparr>"
| "spec_log_call _ a = a"

lemma fold_min_least:
  assumes "\<forall>(s, v) \<in> set rs. min_severity (heap s) = v"
  shows "fold (\<lambda>e s. min s (min_severity (heap e))) (map fst rs) d = foldr (\<lambda>(_, v) m. min v m) rs d"
  using assms
proof (induction rs arbitrary: d)
  case (Cons r rs)
  obtain s v where r: "r = (s, v)"
    by (cases r)
  have "foldr (\<lambda>(_, v) m. min v m) rs (min d v) = min v (foldr (\<lambda>(_, v) m. min v m) rs d)" for d v
    by (induction rs) (auto simp: min.assoc min.left_commute min.commute)
  then show ?case
    using Cons r by auto
qed simp

lemma UpdateMinLogSeverity_rel:
  assumes "sink_list (sinks st) (streams st) (map fst (registered a))" "distinct (map fst (registered a))"
    and "\<forall>(s, v) \<in> set (registered a). min_severity (sinks st s) = v"
    and "streams_empty st = (registered a = [])" "g_dbg_sev st = debug_level a"
  shows "\<exists>m. UpdateMinLogSeverity st = Some (st\<lparr>g_min_sev := m\<rparr>) \<and> log_rel (st\<lparr>g_min_sev := m\<rparr>) a"
  using assms min_loop_list [OF assms(1)] fold_min_least [OF assms(3)]
  by (simp add: UpdateMinLogSeverity_def log_rel_def least_severity_def)

lemma configure_tokens_spec:
  "fst (configure_tokens ts cur deb st) = configured_level (filter (\<lambda>t. t \<noteq> []) ts) cur deb \<and>
   (\<exists>th tm. snd (configure_tokens ts cur deb st) = st\<lparr>log_thread := th, log_timestamp := tm\<rparr>)"
proof (induction ts cur deb st rule: configure_tokens.induct)
  case (1 cur deb st)
  show ?case
    by (simp, rule exI [of _ "log_thread st"], rule exI [of _ "log_timestamp st"], simp)
next
  case (2 token tokens cur deb st)
  then show ?case
    by (auto simp: LogTimestamps_def LogThreads_def)
qed

text \<open>The calls that configure the log succeed and do to the registry what the specification says; \<open>outside\<close>
  is what they leave alone.\<close>

definition outside :: "'w log_state \<Rightarrow> 'w log_state \<Rightarrow> bool" where
  "outside st st' \<longleftrightarrow> world st' = world st \<and> debug_out st' = debug_out st \<and> log_start st' = log_start st"

lemma run_log_call_refines:
  assumes rel: "log_rel st a" and new: "\<And>s v. c = Add_sink s v \<Longrightarrow> s \<notin> fst ` set (registered a)"
  shows "\<exists>st'. run_log_call c st = Some st' \<and> log_rel st' (spec_log_call c a) \<and> outside st st'"
proof (cases c)
  case (Add_sink s v)
  define st1 where "st1 = st\<lparr>sinks := (sinks st)(s := \<lparr>next_sink = streams st, min_severity = v\<rparr>), streams := Some s,
    streams_empty := False\<rparr>"
  have "s \<notin> fst ` set (registered a)"
    using new Add_sink by simp
  then have "\<exists>m. UpdateMinLogSeverity st1 = Some (st1\<lparr>g_min_sev := m\<rparr>) \<and> log_rel (st1\<lparr>g_min_sev := m\<rparr>) (spec_log_call c a)"
    using rel by (intro UpdateMinLogSeverity_rel) (auto simp: st1_def log_rel_def Add_sink image_iff split: prod.splits)
  then show ?thesis
    using Add_sink by (auto simp: AddLogToStream_def st1_def outside_def Let_def)
next
  case (Remove_sink s)
  obtain st1 where st1: "remove_loop s Head st = Some st1"
    "sink_list (sinks st1) (streams st1) (remove1 s (map fst (registered a)))"
    "same_but_links (set (map fst (registered a))) st st1"
    using remove_loop_list [of st Head "map fst (registered a)" s] rel by (auto simp: log_rel_def)
  have same: "st1 = st\<lparr>streams := streams st1, sinks := sinks st1\<rparr>"
    "\<And>e. min_severity (sinks st1 e) = min_severity (sinks st e)"
    using st1(3) by (auto simp: same_but_links_def)
  have eqs: "world st1 = world st" "debug_out st1 = debug_out st" "log_start st1 = log_start st" "g_dbg_sev st1 = g_dbg_sev st"
    using arg_cong [OF same(1), of world] arg_cong [OF same(1), of debug_out] arg_cong [OF same(1), of log_start]
      arg_cong [OF same(1), of g_dbg_sev] by simp_all
  have rm: "remove1 s (map fst (registered a)) = map fst (filter (\<lambda>(r, _). r \<noteq> s) (registered a))"
  proof -
    have "removeAll s (map fst rs) = map fst (filter (\<lambda>(r, _). r \<noteq> s) rs)" for rs :: "(nat \<times> LoggingSeverity) list"
      by (induction rs) auto
    then show ?thesis
      using rel by (simp add: log_rel_def distinct_remove1_removeAll)
  qed
  define st2 where "st2 = st1\<lparr>streams_empty := (streams st1 = None)\<rparr>"
  have "sink_list (sinks st2) (streams st2) (map fst (registered (spec_log_call c a)))"
    using st1(2) rm by (simp add: st2_def Remove_sink)
  moreover have "(streams st1 = None) = (registered (spec_log_call c a) = [])"
    using st1(2) rm by (cases "registered (spec_log_call c a)") (auto simp: Remove_sink)
  ultimately have "\<exists>m. UpdateMinLogSeverity st2 = Some (st2\<lparr>g_min_sev := m\<rparr>) \<and> log_rel (st2\<lparr>g_min_sev := m\<rparr>) (spec_log_call c a)"
    using rel same(2) eqs
    by (intro UpdateMinLogSeverity_rel) (auto simp: st2_def log_rel_def Remove_sink distinct_map inj_on_def split: prod.splits)
  then show ?thesis
    using Remove_sink st1(1) eqs by (auto simp: RemoveLogToStream_def st2_def outside_def)
next
  case (To_debug v)
  have "\<exists>m. UpdateMinLogSeverity (st\<lparr>g_dbg_sev := v\<rparr>) = Some (st\<lparr>g_dbg_sev := v\<rparr>\<lparr>g_min_sev := m\<rparr>)
     \<and> log_rel (st\<lparr>g_dbg_sev := v\<rparr>\<lparr>g_min_sev := m\<rparr>) (spec_log_call c a)"
    using rel by (intro UpdateMinLogSeverity_rel) (auto simp: log_rel_def To_debug)
  then show ?thesis
    using To_debug by (auto simp: LogToDebug_def outside_def)
next
  case (Configure params)
  define ts where "ts = snd (tokenize params CHR '' '')"
  define d where "d = configured_level (filter (\<lambda>t. t \<noteq> []) ts) LS_VERBOSE (g_dbg_sev st)"
  obtain th tm where ct: "configure_tokens ts LS_VERBOSE (g_dbg_sev st) st = (d, st\<lparr>log_thread := th, log_timestamp := tm\<rparr>)"
    using configure_tokens_spec [of ts LS_VERBOSE "g_dbg_sev st" st] by (metis d_def prod.collapse)
  define st1 where "st1 = st\<lparr>log_thread := th, log_timestamp := tm, g_dbg_sev := d\<rparr>"
  have "\<exists>m. UpdateMinLogSeverity st1 = Some (st1\<lparr>g_min_sev := m\<rparr>) \<and> log_rel (st1\<lparr>g_min_sev := m\<rparr>) (spec_log_call c a)"
    using rel by (intro UpdateMinLogSeverity_rel) (auto simp: st1_def log_rel_def Configure d_def ts_def)
  then show ?thesis
    using ct Configure by (auto simp: ConfigureLogging_def LogToDebug_def GetLogToDebug_def st1_def outside_def simp flip: ts_def)
qed (use rel in \<open>auto simp: LogThreads_def LogTimestamps_def SetLogToStderr_def log_rel_def outside_def\<close>)

section \<open>Composing a line\<close>

lemma streamer_args: "streamer_Call (foldl streamer_put streamer xs) ys = streamer_Call streamer (xs @ ys)"
  by (induction xs arbitrary: streamer) (simp_all add: streamer_put_def)

text \<open>\<open>line_and_sev_\<close> keeps lines below two to the 29th and every severity.\<close>

lemma metadata_roundtrip:
  assumes "0 \<le> l" "l < 2 ^ 29"
  shows "meta_Line (LogMetadata f l sev) = l" "meta_Severity (LogMetadata f l sev) = sev" "meta_file (LogMetadata f l sev) = f"
proof -
  define w :: "32 word" where "w = word_of_int l"
  define c :: "32 word" where "c = word_of_nat (sev_value sev)"
  have c: "drop_bit 3 c = 0" "and c 7 = c" "sev_of_value (unat c) = sev"
    by (cases sev; simp add: c_def sev_of_value_def)+
  have seven: "(7 :: 32 word) = mask 3"
    by (simp add: mask_eq_exp_minus_1)
  have "and (push_bit 3 w) 7 = 0"
    unfolding seven by (rule bit_word_eqI) (auto simp: bit_simps)
  then have "and (or (push_bit 3 w) c) 7 = c"
    using c(2) by (simp add: bit.conj_disj_distrib2)
  then show "meta_Severity (LogMetadata f l sev) = sev"
    using c(3) by (simp add: meta_Severity_def LogMetadata_def flip: w_def c_def)
  have "drop_bit 3 (or (push_bit 3 w) c) = drop_bit 3 (push_bit 3 w)"
    using c(1) by (simp add: drop_bit_or)
  moreover have "uint (drop_bit 3 (push_bit 3 w)) = take_bit 29 l"
    by (rule bit_eqI) (auto simp: w_def bit_simps)
  moreover have "take_bit 29 l = l"
    using assms by (simp add: take_bit_int_eq_self)
  ultimately show "meta_Line (LogMetadata f l sev) = l"
    by (simp add: meta_Line_def LogMetadata_def flip: w_def c_def)
  show "meta_file (LogMetadata f l sev) = f"
    by (simp add: LogMetadata_def)
qed

lemma find_last_split: "c \<notin> set ys \<Longrightarrow> find_last c (xs @ c # ys) = Some (length xs)"
  by (simp add: find_last_def takeWhile_append)

text \<open>The file name is what follows the last separator of either kind.\<close>

lemma FilenameFromPath_spec:
  "CHR ''/'' \<notin> set n \<Longrightarrow> CHR 0x5C \<notin> set n \<Longrightarrow> FilenameFromPath n = n"
  "CHR ''/'' \<notin> set n \<Longrightarrow> CHR 0x5C \<notin> set n \<Longrightarrow> FilenameFromPath (d @ CHR ''/'' # n) = n"
  "CHR ''/'' \<notin> set n \<Longrightarrow> CHR 0x5C \<notin> set n \<Longrightarrow> FilenameFromPath (d @ CHR 0x5C # n) = n"
proof -
  assume n: "CHR ''/'' \<notin> set n" "CHR 0x5C \<notin> set n"
  then show "FilenameFromPath n = n"
    by (simp add: FilenameFromPath_def find_last_def)
  have before: "k < length d" if "c \<noteq> c'" "c \<notin> set n" "find_last c (d @ c' # n) = Some k" for c c' k
  proof (cases "c \<in> set d")
    case True
    then obtain xs ys where "d = xs @ c # ys" "c \<notin> set ys"
      by (metis split_list_last)
    then show ?thesis
      using find_last_split [of c "ys @ c' # n" xs] that by simp
  next
    case False
    then show ?thesis
      using that by (simp add: find_last_def)
  qed
  show "FilenameFromPath (d @ CHR ''/'' # n) = n"
    using find_last_split [of "CHR ''/''" n d] before [of "CHR 0x5C" "CHR ''/''"] n
    by (auto simp: FilenameFromPath_def split: option.splits)
  show "FilenameFromPath (d @ CHR 0x5C # n) = n"
    using find_last_split [of "CHR 0x5C" n d] before [of "CHR ''/''" "CHR 0x5C"] n
    by (auto simp: FilenameFromPath_def split: option.splits)
qed

text \<open>The clock and the thread of a message are in range: times within 285 years of the epoch.\<close>

definition env_ok :: "'d log_env \<Rightarrow> 'w log_state \<Rightarrow> bool" where
  "env_ok env st \<longleftrightarrow> \<bar>thread_now env\<bar> < 2 ^ 63 \<and> (log_timestamp st \<longrightarrow> 0 \<le> time_first env \<and> time_first env \<le> time_now env
     \<and> time_now env < 9000000000000000
     \<and> (case log_start st of Some t \<Rightarrow> 0 \<le> t \<and> t \<le> time_now env | None \<Rightarrow> True))"

lemma int_ToString_ok:
  assumes "\<bar>i\<bar> < 2 ^ 63"
  shows "int_ToString i = Some (int_string i)"
proof -
  have "nat i < 10 ^ 20" "nat (- i) < 10 ^ 20"
    using assms by auto
  then have "length (int_string i) \<le> 32"
    using length_nat_string [of "nat i" 20] length_nat_string [of "nat (- i)" 20] by (simp add: int_string_def)
  then show ?thesis
    by (simp add: int_ToString_def bind_rtc_check Let_def)
qed

lemma Timestamp_Millis_ok:
  assumes "0 \<le> t" "t < 9000000000000000"
  shows "Timestamp_Millis t = Some (Unit_T (1000 * t))" "ts_ms (Unit_T (1000 * t)) = Some t"
    "(Unit_T (1000 * t) :: Timestamp) \<noteq> MinusInfinity"
  using assms
  by (simp_all add: Timestamp_Millis_def FromFraction_def ts_ms_def ToFraction_def IsFinite_def IsInfinite_def MinusInfinity_def
      DivRoundPositiveToNearest_def i64_ops checked_simps int_ranges sdiv_pos_cases mult.commute)

lemma pad03_length:
  assumes "0 \<le> i" "i < 10 ^ 16"
  shows "length (pad03 i) \<le> 16"
proof -
  have "nat i < 10 ^ 16"
    using assms by (simp add: nat_less_iff)
  then show ?thesis
    using length_nat_string [of "nat i" 16] assms(1) by (simp add: pad03_def zero_pad_def)
qed

lemma DefaultLogLine_ok:
  assumes "timestamp ln = MinusInfinity \<or> (\<exists>t. 0 \<le> t \<and> t < 9000000000000000 \<and> timestamp ln = Unit_T (1000 * t))"
    and "\<forall>i. thread_id ln = Some i \<longrightarrow> \<bar>i\<bar> < 2 ^ 63" "\<bar>line_no ln\<bar> < 2 ^ 63"
  shows "\<exists>s. DefaultLogLine pf ln = Some s"
proof -
  have ex: "\<exists>stamp. (if timestamp ln \<noteq> MinusInfinity then do {
                 ms \<leftarrow> ts_ms (timestamp ln);
                 secs \<leftarrow> i64_div ms 1000;
                 rest \<leftarrow> i64_mod ms 1000;
                 let t = ''['' @ pad03 secs @ '':'' @ pad03 rest @ '']'';
                 rtc_check (length t < 50);
                 Some t
               } else Some []) = Some stamp"
  proof (cases "timestamp ln = MinusInfinity")
    case False
    then obtain t where t: "0 \<le> t" "t < 9000000000000000" "timestamp ln = Unit_T (1000 * t)"
      using assms(1) by blast
    have d: "0 \<le> t div 1000" "t div 1000 \<le> t" "0 \<le> t mod 1000" "t mod 1000 < 1000"
      using t by simp_all
    then have p: "length (pad03 (t div 1000)) \<le> 16" "length (pad03 (t mod 1000)) \<le> 16"
      using t by (simp_all add: pad03_length)
    have "i64_div t 1000 = Some (t div 1000)" "i64_mod t 1000 = Some (t mod 1000)"
      using t d by (simp_all add: i64_ops checked_simps int_ranges sdiv_pos_cases smod_pos_cases)
    then show ?thesis
      using t Timestamp_Millis_ok [OF t(1,2)] p
      by (simp add: checked_simps Let_def)
  qed simp
  have "\<exists>thread. (case thread_id ln of Some i \<Rightarrow> do { t \<leftarrow> int_ToString i; Some (''['' @ t @ ''] '') } | None \<Rightarrow> Some []) = Some thread"
    using assms(2) int_ToString_ok by (cases "thread_id ln") auto
  then show ?thesis
    using ex assms(3) int_ToString_ok unfolding DefaultLogLine_def by (elim exE) (simp split del: if_split, simp)
qed

section \<open>Who gets a message\<close>

lemma Log_args_append: "Log_args env args ps = map_option (\<lambda>t. ps @ t) (Log_args env args [])"
proof (induction args arbitrary: ps)
  case (Cons a args)
  show ?case
  proof (cases "arg_text env a")
    case (Some t)
    show ?thesis
      using Cons.IH [of "ps @ t"] Cons.IH [of t] Some
      by (cases "Log_args env args []") (simp_all add: StringBuilder_append_def)
  qed simp
qed simp

definition deliveries ::
  "(nat \<Rightarrow> LogLineRef \<Rightarrow> 'w \<Rightarrow> 'w) \<Rightarrow> LogLineRef \<Rightarrow> (nat \<times> LoggingSeverity) list \<Rightarrow> 'w \<Rightarrow> 'w" where
  "deliveries on_log ln rs w = fold (\<lambda>(s, v) w. if v \<le> severity ln then on_log s ln w else w) rs w"

lemma deliver_loop_rel:
  assumes "log_rel st a"
  shows "deliver_loop on_log (sinks st) ln (streams st) w = Some (deliveries on_log ln (registered a) w)"
proof -
  have "fold (\<lambda>e w. if min_severity (sinks st e) \<le> severity ln then on_log e ln w else w) (map fst rs) w
      = deliveries on_log ln rs w" if "\<forall>(s, v) \<in> set rs. min_severity (sinks st s) = v" for rs w
    using that by (induction rs arbitrary: w) (auto simp: deliveries_def)
  then show ?thesis
    using assms deliver_loop_list [of "sinks st" "streams st" "map fst (registered a)" on_log ln w] by (auto simp: log_rel_def)
qed

lemma IsNoop_nobody:
  assumes "log_rel st a" "IsNoop sev st"
  shows "registered a = []" "sev < debug_level a"
  using assms by (auto simp: IsNoop_def log_rel_def split: if_splits)

definition is_line :: "LogLineRef \<Rightarrow> LoggingSeverity \<Rightarrow> string \<Rightarrow> int \<Rightarrow> string \<Rightarrow> bool" where
  "is_line ln sev f l text \<longleftrightarrow> severity ln = sev \<and> filename ln = FilenameFromPath f \<and> line_no ln = l \<and>
     log_text ln = text @ ''\<newline>''"

lemma LogMessage_spec:
  assumes "env_ok env st"
  shows "\<exists>ln st'. LogMessage env (Some f) l sev ERRCTX_NONE 0 st = Some (ln, [], st') \<and> severity ln = sev \<and>
    filename ln = FilenameFromPath f \<and> line_no ln = l \<and> (\<exists>t. st' = st\<lparr>log_start := t\<rparr>) \<and>
    (timestamp ln = MinusInfinity \<or> (\<exists>t. 0 \<le> t \<and> t < 9000000000000000 \<and> timestamp ln = Unit_T (1000 * t))) \<and>
    (\<forall>i. thread_id ln = Some i \<longrightarrow> \<bar>i\<bar> < 2 ^ 63) \<and>
    (\<not> log_timestamp st \<longrightarrow> timestamp ln = MinusInfinity) \<and> (\<not> log_thread st \<longrightarrow> thread_id ln = None)"
proof (cases "log_timestamp st")
  case False
  then show ?thesis
    using assms by (auto simp: LogMessage_def new_log_line_def error_extra_def env_ok_def Let_def intro!: exI [of _ "log_start st"])
next
  case True
  obtain s st' where s: "LogStartTime (time_first env) st = (s, st')" "st' = st\<lparr>log_start := Some s\<rparr>" "0 \<le> s" "s \<le> time_now env"
    using assms True by (cases "log_start st") (auto simp: LogStartTime_def env_ok_def)
  define t where "t = time_now env - s"
  have t: "0 \<le> t" "t < 9000000000000000"
    using s assms True by (auto simp: t_def env_ok_def)
  have "TimeDiff (time_now env) s = Some t"
    using t by (simp add: TimeDiff_def i64_ops t_def int_ranges)
  then show ?thesis
    using True s(1,2) assms Timestamp_Millis_ok(1) [OF t] t
    by (auto simp: LogMessage_def new_log_line_def error_extra_def env_ok_def Let_def)
qed

lemma OutputToDebug_spec:
  assumes "DefaultLogLine pf ln = Some s"
  shows "\<exists>out. OutputToDebug pf ln st = Some (st\<lparr>debug_out := debug_out st @ out\<rparr>) \<and>
    (pf = Posix \<longrightarrow> out = (if log_to_stderr st then [(Stderr, s)] else []))"
proof (cases "\<exists>pref. pf = Mac_release pref")
  case True
  then obtain pref where "pf = Mac_release pref"
    by blast
  then show ?thesis
    using assms
    by (intro exI [of _ "if pref = Some True then [(Stderr, s)] else []"])
      (cases pref; simp add: OutputToDebug_def Let_def)
next
  case False
  then show ?thesis
    using assms by (cases pf) (auto simp: OutputToDebug_def Let_def)
qed

lemma RTC_LOG_spec:
  assumes rel: "log_rel st a" and env: "env_ok env st" and txt0: "Log_args env args [] = Some text"
    and l: "0 \<le> l" "l < 2 ^ 29" and live: "\<not> IsNoop sev st"
  shows "\<exists>ln line out t. is_line ln sev f l text \<and> DefaultLogLine (log_platform env) ln = Some line \<and>
    RTC_LOG_V on_log env sev f l args st =
      Some (st\<lparr>log_start := t, debug_out := debug_out st @ out, world := deliveries on_log ln (registered a) (world st)\<rparr>) \<and>
    (sev < debug_level a \<longrightarrow> out = []) \<and>
    (\<not> log_timestamp st \<longrightarrow> timestamp ln = MinusInfinity) \<and> (\<not> log_thread st \<longrightarrow> thread_id ln = None) \<and>
    (debug_level a \<le> sev \<longrightarrow> log_platform env = Posix \<longrightarrow> out = (if log_to_stderr st then [(Stderr, line)] else []))"
proof -
  define m where "m = LogMetadata (Some f) l sev"
  have m: "meta_file m = Some f" "meta_Line m = l" "meta_Severity m = sev"
    using metadata_roundtrip [OF l] by (simp_all add: m_def)
  obtain ln0 t where ln0: "LogMessage env (Some f) l sev ERRCTX_NONE 0 st = Some (ln0, [], st\<lparr>log_start := t\<rparr>)" "severity ln0 = sev"
    "filename ln0 = FilenameFromPath f" "line_no ln0 = l"
    "timestamp ln0 = MinusInfinity \<or> (\<exists>t. 0 \<le> t \<and> t < 9000000000000000 \<and> timestamp ln0 = Unit_T (1000 * t))"
    "\<forall>i. thread_id ln0 = Some i \<longrightarrow> \<bar>i\<bar> < 2 ^ 63" "\<not> log_timestamp st \<longrightarrow> timestamp ln0 = MinusInfinity"
    "\<not> log_thread st \<longrightarrow> thread_id ln0 = None"
    using LogMessage_spec [OF env, of f l sev] by blast
  define ln where "ln = ln0\<lparr>log_text := text @ ''\<newline>''\<rparr>"
  define st1 where "st1 = st\<lparr>log_start := t\<rparr>"
  have st1_eq: "sinks st1 = sinks st" "streams st1 = streams st" "world st1 = world st"
    by (simp_all add: st1_def)
  have line: "is_line ln sev f l text"
    using ln0 by (simp add: is_line_def ln_def)
  obtain s where s: "DefaultLogLine (log_platform env) ln = Some s"
    using DefaultLogLine_ok [of ln] ln0 l by (auto simp: ln_def)
  obtain out where out: "OutputToDebug (log_platform env) ln st1 = Some (st1\<lparr>debug_out := debug_out st @ out\<rparr>)"
    "log_platform env = Posix \<longrightarrow> out = (if log_to_stderr st then [(Stderr, s)] else [])"
    using OutputToDebug_spec [OF s, of st1] by (auto simp: st1_def)
  define out' where "out' = (if debug_level a \<le> sev then out else [])"
  have dbg: "(if severity ln \<ge> g_dbg_sev st1 then OutputToDebug (log_platform env) ln st1 else Some st1) =
      Some (st1\<lparr>debug_out := debug_out st @ out'\<rparr>)"
    using out(1) rel ln0(2) by (simp add: ln_def st1_def out'_def log_rel_def)
  have "log_rel (st1\<lparr>debug_out := debug_out st @ out'\<rparr>) a"
    using rel by (simp add: st1_def log_rel_def)
  from deliver_loop_rel [OF this, of on_log ln "world st"]
  have fin: "LogMessage_end on_log env ln0 [] text st1 =
      Some (st1\<lparr>debug_out := debug_out st @ out', world := deliveries on_log ln (registered a) (world st)\<rparr>)"
    using dbg by (simp add: LogMessage_end_def FinishPrintStream_def st1_eq split del: if_split flip: ln_def)
  have "streamer_Call (foldl streamer_put (streamer_put LogStreamer (kLogMetadata m)) args) [] = kLogMetadata m # args"
    by (simp add: streamer_args) (simp add: streamer_put_def)
  then have "RTC_LOG_V on_log env sev f l args st = LogMessage_end on_log env ln0 [] text st1"
    using live txt0 ln0(1) m by (simp add: RTC_LOG_V_def LogCall_def Log_def st1_def flip: m_def)
  then show ?thesis
    using fin line s out(2) ln0(7,8) by (intro exI [of _ ln] exI [of _ s] exI [of _ out'] exI [of _ t]) (auto simp: st1_def out'_def ln_def)
qed

section \<open>Properties\<close>

fun run_log_calls :: "log_call list \<Rightarrow> 'w log_state \<Rightarrow> 'w log_state checked" where
  "run_log_calls [] st = Some st"
| "run_log_calls (c # cs) st = do { st \<leftarrow> run_log_call c st; run_log_calls cs st }"

text \<open>A sink is added only while it is not registered.\<close>

fun calls_ok :: "log_call list \<Rightarrow> log_spec \<Rightarrow> bool" where
  "calls_ok [] a \<longleftrightarrow> True"
| "calls_ok (c # cs) a \<longleftrightarrow> (case c of Add_sink s _ \<Rightarrow> s \<notin> fst ` set (registered a) | _ \<Rightarrow> True) \<and> calls_ok cs (spec_log_call c a)"

lemma run_log_calls_refine:
  "log_rel st a \<Longrightarrow> calls_ok cs a \<Longrightarrow>
   \<exists>st'. run_log_calls cs st = Some st' \<and> log_rel st' (fold spec_log_call cs a) \<and> outside st st'"
proof (induction cs arbitrary: st a)
  case Nil
  then show ?case
    by (simp add: outside_def)
next
  case (Cons c cs)
  obtain st1 where st1: "run_log_call c st = Some st1" "log_rel st1 (spec_log_call c a)" "outside st st1"
  proof -
    have "s \<notin> fst ` set (registered a)" if "c = Add_sink s v" for s v
      using that Cons.prems(2) by simp
    then show ?thesis
      using run_log_call_refines [OF Cons.prems(1), of c] that by blast
  qed
  obtain st2 where "run_log_calls cs st1 = Some st2" "log_rel st2 (fold spec_log_call cs (spec_log_call c a))" "outside st1 st2"
    using Cons.IH [OF st1(2)] Cons.prems(2) by auto
  then show ?case
    using st1 by (auto simp: outside_def)
qed

text \<open>C24: The registry of log sinks, a linked list through the sinks themselves, refines a plain list: any sequence of
  configuration calls that adds a sink only while it is not registered ends, and afterwards the links run through
  exactly the registered sinks, latest first, each with its severity, the flag for an empty list is right, and the
  least severity anybody wants is the one that log statements test.\<close>
theorem log_registry_refines_list:
  assumes "calls_ok cs \<lparr>registered = [], debug_level = kDefaultLoggingSeverity ndebug\<rparr>"
  shows "\<exists>st. run_log_calls cs (initial_log ndebug objects w) = Some st \<and>
    (let a = fold spec_log_call cs \<lparr>registered = [], debug_level = kDefaultLoggingSeverity ndebug\<rparr> in
     sink_list (sinks st) (streams st) (map fst (registered a)) \<and>
     (\<forall>(s, v) \<in> set (registered a). min_severity (sinks st s) = v \<and> GetLogToStream (Some s) st = Some v) \<and>
     streams_empty st = (registered a = []) \<and> GetLogToDebug st = debug_level a \<and>
     (\<forall>sev. LogCheckLevel sev st \<longleftrightarrow> debug_level a \<le> sev \<or> (\<exists>(s, v) \<in> set (registered a). v \<le> sev)))"
proof -
  define a where "a = fold spec_log_call cs \<lparr>registered = [], debug_level = kDefaultLoggingSeverity ndebug\<rparr>"
  obtain st where st: "run_log_calls cs (initial_log ndebug objects w) = Some st" "log_rel st a"
    using run_log_calls_refine [OF initial_log_rel assms, of objects w] by (auto simp: a_def)
  have level: "foldr (\<lambda>(_, v) m. min v m) rs d \<le> sev \<longleftrightarrow> d \<le> sev \<or> (\<exists>(s, v) \<in> set rs. v \<le> sev)"
    for sev d and rs :: "(nat \<times> LoggingSeverity) list"
    by (induction rs) (auto simp: min_le_iff_disj)
  have get: "fold (\<lambda>e s. if Some p = None \<or> Some p = Some e then min s (min_severity (sinks st e)) else s) es sev
      = (if p \<in> set es then min sev (min_severity (sinks st p)) else sev)" if "distinct es" for p es sev
    using that by (induction es arbitrary: sev) auto
  have "GetLogToStream (Some s) st = Some v" if "(s, v) \<in> set (registered a)" for s v
  proof -
    have "s \<in> set (map fst (registered a))" "min_severity (sinks st s) = v"
      using that st(2) by (force simp: log_rel_def)+
    moreover have "min LS_NONE v = v"
      by (cases v) (simp_all add: min_def less_eq_LoggingSeverity_def)
    ultimately show ?thesis
      using get_loop_list [of "sinks st" "streams st" "map fst (registered a)" "Some s" LS_NONE] st(2)
        get [of "map fst (registered a)" s LS_NONE]
      by (simp add: GetLogToStream_def log_rel_def)
  qed
  then show ?thesis
    using st level [of "registered a" "debug_level a"]
    by (auto simp: log_rel_def GetLogToDebug_def LogCheckLevel_def GetMinLogSeverity_def least_severity_def simp flip: a_def)
qed

theorem log_registry_refines_list_witness:
  "\<exists>st. run_log_calls [Add_sink 1 LS_INFO, Add_sink 2 LS_ERROR, Remove_sink 1, Configure ''warning debug'']
      (initial_log True (\<lambda>_. \<lparr>next_sink = None, min_severity = LS_NONE\<rparr>) ()) = Some st \<and>
    sink_list (sinks st) (streams st) [2] \<and> GetLogToStream (Some 2) st = Some LS_ERROR \<and>
    \<not> LogCheckLevel LS_INFO st \<and> LogCheckLevel LS_WARNING st"
  using log_registry_refines_list [of "[Add_sink 1 LS_INFO, Add_sink 2 LS_ERROR, Remove_sink 1, Configure ''warning debug'']"
      True "\<lambda>_. \<lparr>next_sink = None, min_severity = LS_NONE\<rparr>" "()"]
  by (auto simp: kDefaultLoggingSeverity_def tokenize_def Let_def less_eq_LoggingSeverity_def)

text \<open>A log statement reaches exactly those who asked for it: whether or not it finds out early that nobody listens,
  every registered sink whose severity is at most the statement's is called once, latest sink first, with the same line,
  which has the statement's severity, file name and line number and its arguments in order; no other sink is called, and
  the debug output gets the line exactly when its severity is high enough.\<close>
theorem log_statement_reaches_its_sinks:
  assumes "log_rel st a" "env_ok env st" "Log_args env args [] = Some printed" "0 \<le> l" "l < 2 ^ 29"
    and "log_platform env = Posix" "log_to_stderr st"
  shows "\<exists>st' ln line. RTC_LOG_V on_log env sev f l args st = Some st' \<and> log_rel st' a \<and>
    is_line ln sev f l printed \<and> DefaultLogLine Posix ln = Some line \<and>
    world st' = fold (\<lambda>(s, v) w. if v \<le> sev then on_log s ln w else w) (registered a) (world st) \<and>
    debug_out st' = debug_out st @ (if debug_level a \<le> sev then [(Stderr, line)] else [])"
proof (cases "IsNoop sev st")
  case True
  define ln where "ln = new_log_line\<lparr>severity := sev, filename := FilenameFromPath f, line_no := l, log_text := printed @ ''\<newline>''\<rparr>"
  obtain line where "DefaultLogLine Posix ln = Some line"
    using DefaultLogLine_ok [of ln Posix] assms(4,5) by (auto simp: ln_def new_log_line_def)
  then show ?thesis
    using True IsNoop_nobody [OF assms(1) True] assms(1)
    by (intro exI [of _ st] exI [of _ ln] exI [of _ line]) (auto simp: RTC_LOG_V_def is_line_def ln_def)
next
  case False
  from RTC_LOG_spec [OF assms(1-5) False, of f on_log] obtain ln line out t where r: "is_line ln sev f l printed"
    "DefaultLogLine (log_platform env) ln = Some line"
    "RTC_LOG_V on_log env sev f l args st =
      Some (st\<lparr>log_start := t, debug_out := debug_out st @ out, world := deliveries on_log ln (registered a) (world st)\<rparr>)"
    "sev < debug_level a \<longrightarrow> out = []"
    "debug_level a \<le> sev \<longrightarrow> log_platform env = Posix \<longrightarrow> out = (if log_to_stderr st then [(Stderr, line)] else [])"
    by blast
  have "severity ln = sev"
    using r(1) by (simp add: is_line_def)
  moreover have "log_rel (st\<lparr>log_start := t, debug_out := debug_out st @ out, world := deliveries on_log ln (registered a) (world st)\<rparr>) a"
    using assms(1) by (simp add: log_rel_def)
  ultimately show ?thesis
    using r assms(6,7) by (auto simp: deliveries_def not_le)
qed

theorem log_statement_reaches_its_sinks_witness:
  "\<exists>st a env. log_rel st a \<and> registered a = [(5, LS_WARNING)] \<and>
    (\<exists>st'. RTC_LOG_V (\<lambda>s ln w. w @ [(s, filename ln @ log_text ln)]) env LS_ERROR ''x/y.cc'' 12 [kInt (- 3), kCharP (Some ''ms''), kDouble ()] st = Some st' \<and>
       world st' = [(5, ''y.cc-3ms2.5\<newline>'')])"
proof -
  define st :: "(nat \<times> string) list log_state" where "st = the (run_log_calls [Add_sink 5 LS_WARNING]
    (initial_log True (\<lambda>_. \<lparr>next_sink = None, min_severity = LS_NONE\<rparr>) []))"
  define a where "a = \<lparr>registered = [(5, LS_WARNING)], debug_level = LS_NONE\<rparr>"
  define env where "env = \<lparr>log_platform = Posix, time_first = 0, time_now = 0, thread_now = 0, strerror = (\<lambda>_. []),
    format_message = (\<lambda>_. []), double_text = (\<lambda>_ :: unit. ''2.5'')\<rparr>"
  have run: "log_rel st a \<and> log_to_stderr st \<and> \<not> log_timestamp st \<and> world st = []"
    using run_log_calls_refine [OF initial_log_rel, of "[Add_sink 5 LS_WARNING]" True "\<lambda>_. \<lparr>next_sink = None, min_severity = LS_NONE\<rparr>"
        "[] :: (nat \<times> string) list"]
    by (auto simp: st_def a_def outside_def initial_log_def AddLogToStream_def UpdateMinLogSeverity_def min_loop.simps
        kDefaultLoggingSeverity_def Let_def)
  have args: "Log_args env [kInt (- 3), kCharP (Some ''ms''), kDouble ()] [] = Some ''-3ms2.5''"
    by (simp add: env_def int_ToString_ok int_string_def nat_string_small StringBuilder_append_def digit_char_def char_of_def bit_0)
  have "env_ok env st"
    using run by (simp add: env_ok_def env_def)
  from log_statement_reaches_its_sinks [OF _ this args, of a 12 "\<lambda>s ln w. w @ [(s, filename ln @ log_text ln)]" LS_ERROR "''x/y.cc''"] run
  obtain st' ln where "RTC_LOG_V (\<lambda>s ln w. w @ [(s, filename ln @ log_text ln)]) env LS_ERROR ''x/y.cc'' 12 [kInt (- 3), kCharP (Some ''ms''), kDouble ()] st = Some st'"
    "is_line ln LS_ERROR ''x/y.cc'' 12 ''-3ms2.5''" "world st' = [(5, filename ln @ log_text ln)]"
    by (auto simp: env_def a_def less_eq_LoggingSeverity_def)
  moreover have "FilenameFromPath ''x/y.cc'' = ''y.cc''"
    using FilenameFromPath_spec(2) [of "''y.cc''" "''x''"] by simp
  ultimately have "world st' = [(5, ''y.cc-3ms2.5\<newline>'')]" "registered a = [(5, LS_WARNING)]"
    by (simp_all add: is_line_def a_def)
  then show ?thesis
    using run \<open>RTC_LOG_V _ _ _ _ _ _ st = Some st'\<close> by blast
qed

text \<open>Adding a sink that is already registered never returns: its link is set to a list that contains it, and the
  search for the least severity runs around that circle, under the lock of the log.\<close>
theorem adding_a_sink_twice_never_returns:
  assumes "log_rel st a" "s \<in> fst ` set (registered a)"
  shows "AddLogToStream s v st = None"
proof -
  obtain pre post where es: "map fst (registered a) = pre @ s # post" "s \<notin> set pre"
    using assms(2) by (metis list.set_map split_list_first)
  define heap where "heap = (sinks st)(s := \<lparr>next_sink = streams st, min_severity = v\<rparr>)"
  have path: "\<exists>e' \<in> set (qs @ [s]). p = Some e' \<and> (\<forall>e \<in> set qs. \<exists>e' \<in> set (qs @ [s]). next_sink (sinks st e) = Some e')"
    if "sink_list (sinks st) p (qs @ s # post)" for p qs
    using that
  proof (induction qs arbitrary: p)
    case (Cons q qs)
    then show ?case
      using Cons.IH [of "next_sink (sinks st q)"] by auto
  qed simp
  have "\<forall>e \<in> set (pre @ [s]). \<exists>e' \<in> set (pre @ [s]). next_sink (heap e) = Some e'"
    using path [of "streams st" pre] assms(1) es by (auto simp: log_rel_def heap_def)
  then have "min_loop heap (Some s) (g_dbg_sev st) = None"
    by (rule min_loop_cycle) simp
  then show ?thesis
    by (simp add: AddLogToStream_def UpdateMinLogSeverity_def Let_def heap_def)
qed

theorem adding_a_sink_twice_never_returns_witness:
  "\<exists>st. run_log_calls [Add_sink 1 LS_INFO, Add_sink 2 LS_INFO] (initial_log True (\<lambda>_. \<lparr>next_sink = None, min_severity = LS_NONE\<rparr>) ())
     = Some st \<and> AddLogToStream 1 LS_ERROR st = None"
proof -
  obtain st where st: "run_log_calls [Add_sink 1 LS_INFO, Add_sink 2 LS_INFO]
      (initial_log True (\<lambda>_. \<lparr>next_sink = None, min_severity = LS_NONE\<rparr>) ()) = Some st"
    "log_rel st \<lparr>registered = [(2, LS_INFO), (1, LS_INFO)], debug_level = LS_NONE\<rparr>"
    using run_log_calls_refine [OF initial_log_rel, of "[Add_sink 1 LS_INFO, Add_sink 2 LS_INFO]" True
        "\<lambda>_. \<lparr>next_sink = None, min_severity = LS_NONE\<rparr>" "()"]
    by (auto simp: kDefaultLoggingSeverity_def)
  then show ?thesis
    using adding_a_sink_twice_never_returns [OF st(2), of 1 LS_ERROR] by auto
qed

section \<open>Small print\<close>

text \<open>Pointers are printed through an \<open>int\<close>: only their low 32 bits show.\<close>

lemma pointer_text_truncated: "arg_text env (kVoidP (2 ^ 32 * k + p)) = arg_text env (kVoidP p)"
  by (simp add: ToHex_def mod_mult_self4)

lemma android_pieces_concat: "concat (map snd (android_pieces i n msg)) = msg"
  by (induction i n msg rule: android_pieces.induct) (subst android_pieces.simps, simp)

lemma android_pieces_number:
  "length (android_pieces i n msg) = (length msg + kMaxLogLineSize - 1) div kMaxLogLineSize"
proof (induction i n msg rule: android_pieces.induct)
  case (1 i n msg)
  show ?case
  proof (cases "msg = []")
    case False
    define K where "K = kMaxLogLineSize"
    have K: "0 < K"
      by (simp add: K_def kMaxLogLineSize_def)
    obtain j where j: "length msg = Suc j"
      using False by (cases msg) auto
    have step: "(length msg + K - 1) div K = j div K + 1"
      using K by (simp add: j div_add_self2)
    have "(length msg - K + K - 1) div K = j div K"
      using K by (cases "K \<le> length msg") (simp_all add: j div_less)
    then have "(length msg - K + K - 1) div K + 1 = (length msg + K - 1) div K"
      using step by simp
    then show ?thesis
      using 1 False by (subst android_pieces.simps) (simp add: K_def)
  qed (simp add: android_pieces.simps [of i n "[]"] kMaxLogLineSize_def)
qed

text \<open>A line whose length is a multiple of the piece size announces one piece too many.\<close>

lemma android_pieces_announced:
  "0 < k \<Longrightarrow> length msg = k * kMaxLogLineSize \<Longrightarrow>
   length (android_pieces 0 (length msg div kMaxLogLineSize + 1) msg) = k \<and> length msg div kMaxLogLineSize + 1 = k + 1"
  by (simp add: android_pieces_number kMaxLogLineSize_def)

end
