(* ===== verification/File_Wrapper.thy ===== *)
theory File_Wrapper
  imports Strings "HOL-Library.AList"
begin

text \<open>
  \<open>rtc_base/system/file_wrapper.cc\<close>: the owner of a \<open>FILE*\<close>, over the file system as the program sees
  it through the C library and POSIX.

  A file system is the list of its files with their contents and the list of its folders, by full
  path.  Every call that can fail takes the next element of \<open>answers\<close>: \<open>None\<close> is success, \<open>Some k\<close> is
  failure, after \<open>k\<close> characters where the call transfers data.  A stream is buffered: what is written to it
  goes to its buffer, and how much of that stays there is up to the library (\<open>kept_back\<close>, by the number of
  the call) until the stream is flushed, moved or closed.  A \<open>FILE\<close> names its file by path; a file that was
  unlinked while it is open takes writes that nobody can read.
\<close>

section \<open>The file system\<close>

record file_system =
  fs_files :: "(string \<times> string) list"
  fs_folders :: "string list"
  answers :: "nat \<Rightarrow> nat option"
  calls :: nat
  kept_back :: "nat \<Rightarrow> nat"

definition next_answer :: "file_system \<Rightarrow> nat option \<times> file_system" where
  "next_answer fs = (answers fs (calls fs), fs\<lparr>calls := calls fs + 1\<rparr>)"

abbreviation contents :: "file_system \<Rightarrow> string \<Rightarrow> string option" where
  "contents fs \<equiv> map_of (fs_files fs)"

definition sys_unlink :: "string \<Rightarrow> file_system \<Rightarrow> bool \<times> file_system" where
  "sys_unlink path fs = (let (a, fs) = next_answer fs
     in if a = None \<and> contents fs path \<noteq> None
        then (True, fs\<lparr>fs_files := AList.delete path (fs_files fs)\<rparr>) else (False, fs))"

definition sys_rename :: "string \<Rightarrow> string \<Rightarrow> file_system \<Rightarrow> bool \<times> file_system" where
  "sys_rename old new fs = (let (a, fs) = next_answer fs
     in case contents fs old of
          None \<Rightarrow> (False, fs)
        | Some c \<Rightarrow> if a = None
            then (True, fs\<lparr>fs_files := AList.update new c (AList.delete old (fs_files fs))\<rparr>)
            else (False, fs))"

record FILE =
  path :: string
  pos :: nat
  at_eof :: bool
  stdio_buffer :: string

definition sys_fopen :: "string \<Rightarrow> bool \<Rightarrow> file_system \<Rightarrow> FILE option \<times> file_system" where
  "sys_fopen name read_only fs = (let (a, fs) = next_answer fs
     in if a \<noteq> None \<or> (read_only \<and> contents fs name = None) then (None, fs)
        else (Some \<lparr>path = name, pos = 0, at_eof = False, stdio_buffer = []\<rparr>,
              if read_only then fs else fs\<lparr>fs_files := AList.update name [] (fs_files fs)\<rparr>))"

text \<open>Writing at a position: the gap after a seek beyond the end is filled with zeros.\<close>

definition overwrite :: "string \<Rightarrow> nat \<Rightarrow> string \<Rightarrow> string" where
  "overwrite content p data =
     take p (content @ replicate (p - length content) char_nul) @ data @ drop (p + length data) content"

text \<open>Giving all but the last \<open>keep\<close> characters of the buffer to the file; \<open>pos\<close> is the position after the
  buffer.\<close>

definition hand_over :: "nat \<Rightarrow> FILE \<Rightarrow> file_system \<Rightarrow> FILE \<times> file_system" where
  "hand_over keep f fs = (let n = length (stdio_buffer f) - keep
     in (f\<lparr>stdio_buffer := drop n (stdio_buffer f)\<rparr>,
         case contents fs (path f) of
           None \<Rightarrow> fs
         | Some c \<Rightarrow> if n = 0 then fs
             else fs\<lparr>fs_files := AList.update (path f)
                    (overwrite c (pos f - length (stdio_buffer f)) (take n (stdio_buffer f))) (fs_files fs)\<rparr>))"

definition sys_fwrite :: "string \<Rightarrow> FILE \<Rightarrow> file_system \<Rightarrow> nat \<times> FILE \<times> file_system" where
  "sys_fwrite buf f fs = (let (a, fs) = next_answer fs;
       n = (case a of None \<Rightarrow> length buf | Some k \<Rightarrow> min k (length buf))
     in (n, hand_over (kept_back fs (calls fs)) (f\<lparr>pos := pos f + n, stdio_buffer := stdio_buffer f @ take n buf\<rparr>) fs))"

definition sys_fread :: "nat \<Rightarrow> FILE \<Rightarrow> file_system \<Rightarrow> string \<times> FILE \<times> file_system" where
  "sys_fread len f fs = (let (a, fs) = next_answer fs;
       rest = (case contents fs (path f) of None \<Rightarrow> [] | Some c \<Rightarrow> drop (pos f) c);
       text = take (case a of None \<Rightarrow> len | Some k \<Rightarrow> min k len) rest
     in (text, f\<lparr>pos := pos f + length text, at_eof := at_eof f \<or> (a = None \<and> length text < len)\<rparr>, fs))"

datatype whence = SEEK_SET | SEEK_CUR | SEEK_END

definition file_length :: "FILE \<Rightarrow> file_system \<Rightarrow> nat" where
  "file_length f fs = (case contents fs (path f) of None \<Rightarrow> 0 | Some c \<Rightarrow> length c)"

definition sys_fflush :: "FILE \<Rightarrow> file_system \<Rightarrow> bool \<times> FILE \<times> file_system" where
  "sys_fflush f fs = (let (a, fs) = next_answer fs
     in (a = None, hand_over (case a of None \<Rightarrow> 0 | Some k \<Rightarrow> length (stdio_buffer f) - k) f fs))"

definition sys_fseek :: "int \<Rightarrow> whence \<Rightarrow> FILE \<Rightarrow> file_system \<Rightarrow> bool \<times> FILE \<times> file_system" where
  "sys_fseek offset w f fs = (let (flushed, f, fs) = sys_fflush f fs;
       target = offset + (case w of SEEK_SET \<Rightarrow> 0 | SEEK_CUR \<Rightarrow> int (pos f) | SEEK_END \<Rightarrow> int (file_length f fs))
     in if flushed \<and> 0 \<le> target then (True, f\<lparr>pos := nat target, at_eof := False\<rparr>, fs) else (False, f, fs))"

definition sys_ftell :: "FILE \<Rightarrow> file_system \<Rightarrow> int \<times> file_system" where
  "sys_ftell f fs = (let (a, fs) = next_answer fs in (if a = None then int (pos f) else - 1, fs))"

text \<open>Closing flushes, and the stream is gone whether or not that succeeds.\<close>

definition sys_fclose :: "FILE \<Rightarrow> file_system \<Rightarrow> bool \<times> file_system" where
  "sys_fclose f fs = (let (flushed, _, fs) = sys_fflush f fs in (flushed, fs))"

section \<open>FileWrapper\<close>

text \<open>A wrapper is its \<open>file_\<close>.  \<open>long\<close> has 64 bits, so \<open>checked_cast<long>\<close> of an offset succeeds.\<close>

type_synonym file_wrapper = "FILE option"

definition FileOpen :: "string \<Rightarrow> bool \<Rightarrow> file_system \<Rightarrow> (FILE option \<times> file_system) checked" where
  "FileOpen name read_only fs = do {
     rtc_check (char_nul \<notin> set name);
     Some (sys_fopen name read_only fs)
   }"

definition OpenReadOnly :: "string \<Rightarrow> file_system \<Rightarrow> (file_wrapper \<times> file_system) checked" where
  "OpenReadOnly name fs = FileOpen name True fs"

definition OpenWriteOnly :: "string \<Rightarrow> file_system \<Rightarrow> (file_wrapper \<times> file_system) checked" where
  "OpenWriteOnly name fs = FileOpen name False fs"

definition fw_is_open :: "file_wrapper \<Rightarrow> bool" where
  "fw_is_open w \<longleftrightarrow> w \<noteq> None"

definition fw_Close :: "file_wrapper \<Rightarrow> file_system \<Rightarrow> bool \<times> file_wrapper \<times> file_system" where
  "fw_Close w fs = (case w of
     None \<Rightarrow> (True, None, fs)
   | Some f \<Rightarrow> let (success, fs) = sys_fclose f fs in (success, None, fs))"

text \<open>Move assignment gives the target, the emptied source and the file system.\<close>

definition fw_move_assign ::
  "file_wrapper \<Rightarrow> file_wrapper \<Rightarrow> file_system \<Rightarrow> file_wrapper \<times> file_wrapper \<times> file_system" where
  "fw_move_assign w other fs = (let (_, _, fs) = fw_Close w fs in (other, None, fs))"

definition fw_move :: "file_wrapper \<Rightarrow> file_system \<Rightarrow> file_wrapper \<times> file_wrapper \<times> file_system" where
  "fw_move other fs = fw_move_assign None other fs"

definition fw_Release :: "file_wrapper \<Rightarrow> FILE option \<times> file_wrapper" where
  "fw_Release w = (w, None)"

definition fw_SeekRelative :: "int \<Rightarrow> file_wrapper \<Rightarrow> file_system \<Rightarrow> (bool \<times> file_wrapper \<times> file_system) checked" where
  "fw_SeekRelative offset w fs = do {
     f \<leftarrow> w;
     let (ok, f, fs) = sys_fseek offset SEEK_CUR f fs;
     Some (ok, Some f, fs)
   }"

definition fw_SeekTo :: "int \<Rightarrow> file_wrapper \<Rightarrow> file_system \<Rightarrow> (bool \<times> file_wrapper \<times> file_system) checked" where
  "fw_SeekTo position w fs = do {
     f \<leftarrow> w;
     let (ok, f, fs) = sys_fseek position SEEK_SET f fs;
     Some (ok, Some f, fs)
   }"

definition fw_Rewind :: "file_wrapper \<Rightarrow> file_system \<Rightarrow> (bool \<times> file_wrapper \<times> file_system) checked" where
  "fw_Rewind w fs = fw_SeekTo 0 w fs"

definition fw_FileSize :: "file_wrapper \<Rightarrow> file_system \<Rightarrow> int \<times> file_wrapper \<times> file_system" where
  "fw_FileSize w fs = (case w of
     None \<Rightarrow> (- 1, None, fs)
   | Some f \<Rightarrow>
       let (original_position, fs) = sys_ftell f fs
       in if original_position < 0 then (- 1, Some f, fs)
          else let (ok, f, fs) = sys_fseek 0 SEEK_END f fs
               in if \<not> ok then (- 1, Some f, fs)
                  else let (file_size, fs) = sys_ftell f fs;
                           (ok, f, fs) = sys_fseek original_position SEEK_SET f fs
                       in if \<not> ok then (- 1, Some f, fs) else (file_size, Some f, fs))"

definition fw_Flush :: "file_wrapper \<Rightarrow> file_system \<Rightarrow> (bool \<times> file_wrapper \<times> file_system) checked" where
  "fw_Flush w fs = do {
     f \<leftarrow> w;
     let (success, f, fs) = sys_fflush f fs;
     Some (success, Some f, fs)
   }"

definition fw_Read :: "nat \<Rightarrow> file_wrapper \<Rightarrow> file_system \<Rightarrow> (string \<times> file_wrapper \<times> file_system) checked" where
  "fw_Read len w fs = do {
     f \<leftarrow> w;
     let (text, f, fs) = sys_fread len f fs;
     Some (text, Some f, fs)
   }"

definition fw_ReadEof :: "file_wrapper \<Rightarrow> bool checked" where
  "fw_ReadEof w = do { f \<leftarrow> w; Some (at_eof f) }"

definition fw_Write :: "string \<Rightarrow> file_wrapper \<Rightarrow> file_system \<Rightarrow> (bool \<times> file_wrapper \<times> file_system) checked" where
  "fw_Write buf w fs = do {
     f \<leftarrow> w;
     let (n, f, fs) = sys_fwrite buf f fs;
     Some (n = length buf, Some f, fs)
   }"

section \<open>Facts\<close>

text \<open>A file system none of whose calls fails.\<close>

definition reliable :: "file_system \<Rightarrow> bool" where
  "reliable fs \<longleftrightarrow> (\<forall>k. answers fs k = None)"

named_theorems fs_simps \<open>the calls of a reliable file system\<close>

lemma next_answer_reliable [fs_simps]:
  "reliable fs \<Longrightarrow> next_answer fs = (None, fs\<lparr>calls := calls fs + 1\<rparr>)"
  by (simp add: reliable_def next_answer_def)

lemma reliable_updates [simp]:
  "reliable (fs\<lparr>calls := k\<rparr>) = reliable fs" "reliable (fs\<lparr>fs_files := fl\<rparr>) = reliable fs"
  by (simp_all add: reliable_def)

lemma overwrite_append [simp]: "overwrite c (length c) data = c @ data"
  by (simp add: overwrite_def)

text \<open>What a stream at the end of its file has given to it, and what it keeps.\<close>

lemma hand_over_appends:
  assumes "contents fs (path f) = Some c" "pos f = length c + length (stdio_buffer f)"
  shows "\<exists>given kept fs'. hand_over keep f fs = (f\<lparr>stdio_buffer := kept\<rparr>, fs') \<and> given @ kept = stdio_buffer f \<and>
    (keep = 0 \<longrightarrow> kept = []) \<and> contents fs' = (contents fs)(path f := Some (c @ given)) \<and>
    fs_folders fs' = fs_folders fs \<and> reliable fs' = reliable fs \<and> calls fs' = calls fs"
proof -
  define n where "n = length (stdio_buffer f) - keep"
  have "contents fs' = (contents fs)(path f := Some (c @ take n (stdio_buffer f))) \<and>
      fs_folders fs' = fs_folders fs \<and> reliable fs' = reliable fs \<and> calls fs' = calls fs"
    if "fs' = snd (hand_over keep f fs)" for fs'
    using that assms by (cases "n = 0") (simp_all add: hand_over_def Let_def update_conv' fun_upd_idem flip: n_def)
  moreover have "fst (hand_over keep f fs) = f\<lparr>stdio_buffer := drop n (stdio_buffer f)\<rparr>"
    by (simp add: hand_over_def Let_def n_def)
  moreover have "keep = 0 \<longrightarrow> drop n (stdio_buffer f) = []"
    by (simp add: n_def)
  ultimately show ?thesis
    by (metis append_take_drop_id prod.collapse)
qed

lemma hand_over_nothing [simp]: "stdio_buffer f = [] \<Longrightarrow> hand_over keep f fs = (f, fs)"
  by (simp add: hand_over_def split: option.splits)

text \<open>The size of an open file with an empty buffer, which leaves its position where it was.\<close>

lemma fw_FileSize_reliable:
  assumes "reliable fs" "stdio_buffer f = []"
  shows "\<exists>g fs'. fw_FileSize (Some f) fs = (int (file_length f fs), Some g, fs')
     \<and> path g = path f \<and> pos g = pos f \<and> contents fs' = contents fs \<and> reliable fs'"
  using assms by (simp add: fw_FileSize_def sys_ftell_def sys_fseek_def sys_fflush_def fs_simps file_length_def)

end
