(* ===== verification/File_Rotating_Stream.thy ===== *)
theory File_Rotating_Stream
  imports File_Wrapper "HOL-Library.List_Lexorder" "HOL-Library.Char_ord"
begin

text \<open>
  \<open>rtc_base/file_rotating_stream.cc\<close> (the POSIX half): a stream that writes to the newest of a fixed
  number of files and rotates them when it is full, its variant for call sessions, which keeps the
  oldest file, and the reader that puts the files together again.
\<close>

section \<open>Paths and the directory\<close>

definition kCallSessionLogPrefix :: string where
  "kCallSessionLogPrefix = ''webrtc_log''"

definition AddTrailingPathDelimiterIfNeeded :: "string \<Rightarrow> string" where
  "AddTrailingPathDelimiterIfNeeded directory =
     (if directory \<noteq> [] \<and> last directory = CHR ''/'' then directory else directory @ ''/'')"

text \<open>The names \<open>readdir\<close> gives for a directory whose path ends in the delimiter.\<close>

definition in_directory :: "string \<Rightarrow> string \<Rightarrow> bool" where
  "in_directory directory p \<longleftrightarrow> take (length directory) p = directory \<and>
     drop (length directory) p \<noteq> [] \<and> CHR ''/'' \<notin> set (drop (length directory) p)"

definition dirent_names :: "string \<Rightarrow> file_system \<Rightarrow> string list" where
  "dirent_names directory fs = ''.'' # ''..'' #
     map (drop (length directory)) (filter (in_directory directory) (remdups (map fst (fs_files fs)) @ fs_folders fs))"

definition GetFilesWithPrefix :: "string \<Rightarrow> string \<Rightarrow> file_system \<Rightarrow> (string list \<times> file_system) checked" where
  "GetFilesWithPrefix directory prefix fs = do {
     rtc_check (directory \<noteq> [] \<and> last directory = CHR ''/'');
     let (a, fs) = next_answer fs;
     Some (if a \<noteq> None \<or> butlast directory \<notin> set (fs_folders fs) then ([], fs)
           else (map (\<lambda>name. directory @ name)
                   (filter (\<lambda>name. take (length prefix) name = prefix) (dirent_names directory fs)), fs))
   }"

definition DeleteFile :: "string \<Rightarrow> file_system \<Rightarrow> bool \<times> file_system" where
  "DeleteFile p fs = sys_unlink p fs"

definition MoveFile :: "string \<Rightarrow> string \<Rightarrow> file_system \<Rightarrow> bool \<times> file_system" where
  "MoveFile old_file new_file fs = sys_rename old_file new_file fs"

definition IsFile :: "string \<Rightarrow> file_system \<Rightarrow> bool" where
  "IsFile p fs \<longleftrightarrow> contents fs p \<noteq> None"

definition IsFolder :: "string \<Rightarrow> file_system \<Rightarrow> bool" where
  "IsFolder p fs \<longleftrightarrow> contents fs p = None \<and>
     (if p \<noteq> [] \<and> last p = CHR ''/'' then butlast p else p) \<in> set (fs_folders fs)"

definition GetFileSize :: "string \<Rightarrow> file_system \<Rightarrow> nat option" where
  "GetFileSize p fs = map_option length (contents fs p)"

section \<open>The stream\<close>

text \<open>\<open>derived\<close> is what \<open>CallSessionFileRotatingStream\<close> adds to the base class.\<close>

record call_session =
  max_total_log_size :: nat
  num_rotations :: nat

record rotating_stream =
  dir_path :: string
  log_prefix :: string
  out_file :: file_wrapper
  file_names :: "string list"
  max_file_size :: nat
  current_file_index :: nat
  rotation_index :: nat
  current_bytes_written :: nat
  disable_buffering :: bool
  derived :: "call_session option"

text \<open>The path of a file: \<open>%0*zu\<close> pads the index with zeros to \<open>max_digits\<close>.\<close>

definition GetFilePath :: "rotating_stream \<Rightarrow> nat \<Rightarrow> nat \<Rightarrow> string checked" where
  "GetFilePath st index num_files = do {
     rtc_check (index < num_files);
     let buffer_size = 32;
     let max_digits = length (nat_string (num_files - 1));
     rtc_check (1 + max_digits < buffer_size);
     let file_postfix = take (buffer_size - 1) (CHR ''_'' # zero_pad max_digits index);
     Some (dir_path st @ log_prefix st @ file_postfix)
   }"

fun make_file_names :: "rotating_stream \<Rightarrow> nat list \<Rightarrow> nat \<Rightarrow> string list checked" where
  "make_file_names st [] num_files = Some []"
| "make_file_names st (i # is) num_files = do {
     p \<leftarrow> GetFilePath st i num_files;
     ps \<leftarrow> make_file_names st is num_files;
     Some (p # ps)
   }"

definition FileRotatingStream ::
  "string \<Rightarrow> string \<Rightarrow> nat \<Rightarrow> nat \<Rightarrow> file_system \<Rightarrow> rotating_stream checked" where
  "FileRotatingStream dir prefix max_size num_files fs = do {
     let st = \<lparr>dir_path = AddTrailingPathDelimiterIfNeeded dir, log_prefix = prefix, out_file = None,
               file_names = [], max_file_size = max_size, current_file_index = 0, rotation_index = 0,
               current_bytes_written = 0, disable_buffering = False, derived = None\<rparr>;
     rtc_check (0 < max_size);
     rtc_check (1 < num_files);
     rtc_check (IsFolder dir fs);
     names \<leftarrow> make_file_names st [0..<num_files] num_files;
     Some (st\<lparr>file_names := names, rotation_index := num_files - 1\<rparr>)
   }"

definition GetNumFiles :: "rotating_stream \<Rightarrow> nat" where
  "GetNumFiles st = length (file_names st)"

definition public_GetFilePath :: "rotating_stream \<Rightarrow> nat \<Rightarrow> string checked" where
  "public_GetFilePath st index = do {
     rtc_check (index < length (file_names st));
     Some (file_names st ! index)
   }"

definition IsOpen :: "rotating_stream \<Rightarrow> bool" where
  "IsOpen st \<longleftrightarrow> fw_is_open (out_file st)"

definition DisableBuffering :: "rotating_stream \<Rightarrow> bool \<times> rotating_stream" where
  "DisableBuffering st = (True, st\<lparr>disable_buffering := True\<rparr>)"

definition Flush :: "rotating_stream \<Rightarrow> file_system \<Rightarrow> (bool \<times> rotating_stream \<times> file_system) checked" where
  "Flush st fs =
     (if \<not> IsOpen st then Some (False, st, fs)
      else do { (flushed, w, fs) \<leftarrow> fw_Flush (out_file st) fs; Some (flushed, st\<lparr>out_file := w\<rparr>, fs) })"

definition CloseCurrentFile :: "rotating_stream \<Rightarrow> file_system \<Rightarrow> rotating_stream \<times> file_system" where
  "CloseCurrentFile st fs =
     (if \<not> IsOpen st then (st, fs)
      else let (_, w, fs) = fw_Close (out_file st) fs
           in (st\<lparr>current_bytes_written := 0, out_file := w\<rparr>, fs))"

definition Close :: "rotating_stream \<Rightarrow> file_system \<Rightarrow> rotating_stream \<times> file_system" where
  "Close st fs = CloseCurrentFile st fs"

definition OpenCurrentFile :: "rotating_stream \<Rightarrow> file_system \<Rightarrow> (bool \<times> rotating_stream \<times> file_system) checked" where
  "OpenCurrentFile st fs = do {
     let (st, fs) = CloseCurrentFile st fs;
     rtc_check (current_file_index st < length (file_names st));
     let file_path = file_names st ! current_file_index st;
     rtc_check (current_file_index st = 0);
     (w, fs) \<leftarrow> OpenWriteOnly file_path fs;
     let (w, _, fs) = fw_move_assign (out_file st) w fs;
     let st = st\<lparr>out_file := w\<rparr>;
     Some (IsOpen st, st, fs)
   }"

fun delete_files :: "string list \<Rightarrow> file_system \<Rightarrow> file_system" where
  "delete_files [] fs = fs"
| "delete_files (f # fl) fs = delete_files fl (snd (DeleteFile f fs))"

definition Open :: "rotating_stream \<Rightarrow> file_system \<Rightarrow> (bool \<times> rotating_stream \<times> file_system) checked" where
  "Open st fs = do {
     (matching_files, fs) \<leftarrow> GetFilesWithPrefix (dir_path st) (log_prefix st) fs;
     OpenCurrentFile st (delete_files matching_files fs)
   }"

section \<open>Rotation\<close>

definition kRotatingLogFileDefaultSize :: nat where
  "kRotatingLogFileDefaultSize = 1024 * 1024"

definition GetNumRotatingLogFiles :: "nat \<Rightarrow> nat" where
  "GetNumRotatingLogFiles max_total = max 2 ((max_total div 2) div kRotatingLogFileDefaultSize)"

definition GetRotatingLogSize :: "nat \<Rightarrow> nat" where
  "GetRotatingLogSize max_total =
     (if GetNumRotatingLogFiles max_total > 2 then kRotatingLogFileDefaultSize else max_total div 4)"

definition OnRotation :: "rotating_stream \<Rightarrow> rotating_stream" where
  "OnRotation st = (case derived st of
     None \<Rightarrow> st
   | Some c \<Rightarrow>
       let c = c\<lparr>num_rotations := num_rotations c + 1\<rparr>; st = st\<lparr>derived := Some c\<rparr>
       in if num_rotations c = 1 then st\<lparr>max_file_size := GetRotatingLogSize (max_total_log_size c)\<rparr>
          else if num_rotations c = GetNumFiles st - 1 then st\<lparr>rotation_index := rotation_index st - 1\<rparr>
          else st)"

text \<open>The loop \<open>for (auto i = rotation_index_; i > 0; --i)\<close>.\<close>

fun move_files :: "string list \<Rightarrow> nat \<Rightarrow> file_system \<Rightarrow> file_system" where
  "move_files names 0 fs = fs"
| "move_files names (Suc i) fs =
     move_files names i
       (if IsFile (names ! i) fs then snd (MoveFile (names ! i) (names ! Suc i) fs) else fs)"

definition RotateFiles :: "rotating_stream \<Rightarrow> file_system \<Rightarrow> (rotating_stream \<times> file_system) checked" where
  "RotateFiles st fs = do {
     let (st, fs) = CloseCurrentFile st fs;
     rtc_check (rotation_index st < length (file_names st));
     let file_to_delete = file_names st ! rotation_index st;
     let fs = (if IsFile file_to_delete fs then snd (DeleteFile file_to_delete fs) else fs);
     let fs = move_files (file_names st) (rotation_index st) fs;
     (_, st, fs) \<leftarrow> OpenCurrentFile st fs;
     Some (OnRotation st, fs)
   }"

function Write_loop :: "string \<Rightarrow> rotating_stream \<Rightarrow> file_system \<Rightarrow> (bool \<times> rotating_stream \<times> file_system) checked" where
  "Write_loop data st fs =
     (if data = [] then Some (True, st, fs)
      else if \<not> current_bytes_written st < max_file_size st then None
      else let remaining_bytes = max_file_size st - current_bytes_written st;
               write_length = min (length data) remaining_bytes
           in do {
             (ok, w, fs) \<leftarrow> fw_Write (take write_length data) (out_file st) fs;
             let st = st\<lparr>out_file := w\<rparr>;
             if \<not> ok then Some (False, st, fs)
             else do {
               (flushed, w, fs) \<leftarrow> (if disable_buffering st then fw_Flush (out_file st) fs else Some (True, out_file st, fs));
               let st = st\<lparr>out_file := w\<rparr>;
               if \<not> flushed then Some (False, st, fs)
               else do {
                 let st = st\<lparr>current_bytes_written := current_bytes_written st + write_length\<rparr>;
                 (st, fs) \<leftarrow> (if current_bytes_written st \<ge> max_file_size st
                              then do { rtc_check (current_bytes_written st = max_file_size st); RotateFiles st fs }
                              else Some (st, fs));
                 Write_loop (drop write_length data) st fs
               }
             }
           })"
  by pat_completeness auto
termination
  by (relation "measure (\<lambda>(data, st, fs). length data)") (auto simp: min_def)

declare Write_loop.simps [simp del]

definition Write :: "string \<Rightarrow> rotating_stream \<Rightarrow> file_system \<Rightarrow> (bool \<times> rotating_stream \<times> file_system) checked" where
  "Write data st fs = (if \<not> IsOpen st then Some (False, st, fs) else Write_loop data st fs)"

definition CallSessionFileRotatingStream :: "string \<Rightarrow> nat \<Rightarrow> file_system \<Rightarrow> rotating_stream checked" where
  "CallSessionFileRotatingStream dir max_total fs = do {
     st \<leftarrow> FileRotatingStream dir kCallSessionLogPrefix (max_total div 2) (GetNumRotatingLogFiles max_total + 1) fs;
     rtc_check (4 \<le> max_total);
     Some (st\<lparr>derived := Some \<lparr>max_total_log_size = max_total, num_rotations = 0\<rparr>\<rparr>)
   }"

section \<open>The reader\<close>

definition FileRotatingStreamReader :: "string \<Rightarrow> string \<Rightarrow> file_system \<Rightarrow> (string list \<times> file_system) checked" where
  "FileRotatingStreamReader dir prefix fs = do {
     (names, fs) \<leftarrow> GetFilesWithPrefix (AddTrailingPathDelimiterIfNeeded dir) prefix fs;
     Some (rev (sort names), fs)
   }"

definition CallSessionFileRotatingStreamReader :: "string \<Rightarrow> file_system \<Rightarrow> (string list \<times> file_system) checked" where
  "CallSessionFileRotatingStreamReader dir fs = FileRotatingStreamReader dir kCallSessionLogPrefix fs"

definition GetSize :: "string list \<Rightarrow> file_system \<Rightarrow> nat" where
  "GetSize names fs = sum_list (map (\<lambda>f. case GetFileSize f fs of Some n \<Rightarrow> n | None \<Rightarrow> 0) names)"

text \<open>The characters put into a buffer of \<open>len\<close> characters, after the \<open>done\<close> that are in it.\<close>

fun ReadAll_loop :: "string list \<Rightarrow> string \<Rightarrow> nat \<Rightarrow> file_system \<Rightarrow> (string \<times> file_system) checked" where
  "ReadAll_loop [] got len fs = Some (got, fs)"
| "ReadAll_loop (name # names) got len fs =
     (if length got < len then do {
        (w, fs) \<leftarrow> OpenReadOnly name fs;
        if \<not> fw_is_open w then Some (got, fs)
        else do {
          (text, w, fs) \<leftarrow> fw_Read (len - length got) w fs;
          let (_, _, fs) = fw_Close w fs;
          ReadAll_loop names (got @ text) len fs
        }
      } else Some (got, fs))"

definition ReadAll :: "string list \<Rightarrow> nat \<Rightarrow> file_system \<Rightarrow> (string \<times> file_system) checked" where
  "ReadAll names len fs = ReadAll_loop names [] len fs"

end
