(* ===== verification/Rotating_Files.thy ===== *)
theory Rotating_Files
  imports File_Rotating_Stream
begin

text \<open>
  What a rotating stream keeps: the files as a list of completed chunks and the current one
  (\<open>stream_ok\<close>, \<open>files_ok\<close>), what a rotation and a write do to them, and what the reader finds.
  The theorems are for a file system whose calls succeed (\<open>reliable\<close>); the last section shows what
  happens when one fails.
\<close>

lemma append_less_append:
  fixes xs ys :: string
  shows "length xs = length ys \<Longrightarrow> xs @ u < ys @ v \<longleftrightarrow> xs < ys \<or> xs = ys \<and> u < v"
  by (induction xs ys rule: list_induct2) auto

lemma digit_char_less: "i < j \<Longrightarrow> j < 10 \<Longrightarrow> digit_char i < digit_char j"
  by (simp add: digit_char_def less_char_def)

lemma zero_pad_Suc:
  assumes "0 < w"
  shows "zero_pad (Suc w) n = zero_pad w (n div 10) @ [digit_char (n mod 10)]"
proof (cases "n < 10")
  case True
  have "CHR ''0'' = digit_char 0"
    by (simp add: digit_char_def char_of_def bit_0)
  then show ?thesis
    using assms True by (cases w) (simp_all add: zero_pad_def nat_string_small replicate_append_same)
qed (simp add: zero_pad_def nat_string_large)

lemma length_zero_pad: "n < 10 ^ w \<Longrightarrow> 0 < w \<Longrightarrow> length (zero_pad w n) = w"
  using length_nat_string by (simp add: zero_pad_def)

lemma zero_pad_less: "0 < w \<Longrightarrow> i < j \<Longrightarrow> j < 10 ^ w \<Longrightarrow> zero_pad w i < zero_pad w j"
proof (induction w arbitrary: i j rule: nat_induct_non_zero)
  case 1
  then show ?case
    by (simp add: zero_pad_def nat_string_small digit_char_less)
next
  case (Suc w)
  have b: "i div 10 < 10 ^ w" "j div 10 < 10 ^ w"
    using Suc.prems by (simp_all add: div_less_iff_less_mult mult.commute)
  have len: "length (zero_pad w (i div 10)) = length (zero_pad w (j div 10))"
    using b Suc.hyps by (simp add: length_zero_pad)
  have "i div 10 < j div 10 \<or> i div 10 = j div 10 \<and> i mod 10 < j mod 10"
    using Suc.prems(1) div_le_mono [of i j 10] div_mult_mod_eq [of i 10] div_mult_mod_eq [of j 10] by linarith
  then show ?case
    using Suc.IH [of "i div 10" "j div 10"] b Suc.hyps
    by (auto simp: zero_pad_Suc append_less_append [OF len] digit_char_less)
qed

lemma zero_pad_no_slash: "c \<in> set (zero_pad w n) \<Longrightarrow> is_digit c"
  using nat_string_digits [of c n] by (auto simp: zero_pad_def is_digit_def)

section \<open>Names\<close>

definition file_name :: "rotating_stream \<Rightarrow> nat \<Rightarrow> nat \<Rightarrow> string" where
  "file_name st num_files i = dir_path st @ log_prefix st @ CHR ''_'' # zero_pad (length (nat_string (num_files - 1))) i"

lemma GetFilePath_spec:
  assumes "i < n" "length (nat_string (n - 1)) < 31"
  shows "GetFilePath st i n = Some (file_name st n i)"
proof -
  have "i < 10 ^ length (nat_string (n - 1))"
    using below_power_length_nat_string [of "n - 1"] assms(1) by linarith
  then have "length (zero_pad (length (nat_string (n - 1))) i) = length (nat_string (n - 1))"
    by (simp add: length_zero_pad)
  then show ?thesis
    using assms by (simp add: GetFilePath_def file_name_def)
qed

lemma make_file_names_spec:
  assumes "\<And>i. i \<in> set is \<Longrightarrow> i < n" "length (nat_string (n - 1)) < 31"
  shows "make_file_names st is n = Some (map (file_name st n) is)"
  using assms(1) by (induction "is") (simp_all add: GetFilePath_spec [OF _ assms(2)])

lemma file_name_less: "i < j \<Longrightarrow> j < n \<Longrightarrow> file_name st n i < file_name st n j"
proof -
  assume "i < j" "j < n"
  moreover have "j < 10 ^ length (nat_string (n - 1))"
    using below_power_length_nat_string [of "n - 1"] \<open>j < n\<close> by linarith
  moreover have "(p::string) @ a < p @ b \<longleftrightarrow> a < b" for p a b
    using append_less_append [of p p a b] by simp
  ultimately show ?thesis
    using zero_pad_less [of "length (nat_string (n - 1))" i j] by (simp add: file_name_def)
qed

lemma file_names_sorted: "sorted_wrt (<) (map (file_name st n) [0..<n])"
  by (auto simp: sorted_wrt_iff_nth_less file_name_less)

lemma file_names_distinct: "distinct (map (file_name st n) [0..<n])"
  using file_names_sorted [of st n] by (simp only: strict_sorted_iff)

section \<open>Rotation\<close>

lemmas contents_simps = AList.update_conv' AList.delete_conv'

lemma sys_calls_reliable [fs_simps]:
  assumes "reliable fs"
  shows "contents fs p \<noteq> None \<Longrightarrow> fst (sys_unlink p fs)"
    and "contents (snd (sys_unlink p fs)) = (contents fs)(p := None)"
    and "contents fs old \<noteq> None \<Longrightarrow> contents (snd (sys_rename old new fs)) = (contents fs)(old := None, new := contents fs old)"
    and "reliable (snd (sys_unlink p fs))" "reliable (snd (sys_rename old new fs))"
    and "fs_folders (snd (sys_unlink p fs)) = fs_folders fs" "fs_folders (snd (sys_rename old new fs)) = fs_folders fs"
  using assms by (auto simp: sys_unlink_def sys_rename_def fs_simps contents_simps split: option.splits)

definition frame :: "string list \<Rightarrow> file_system \<Rightarrow> file_system \<Rightarrow> bool" where
  "frame names fs fs' \<longleftrightarrow> fs_folders fs' = fs_folders fs \<and> (\<forall>p. p \<notin> set names \<longrightarrow> contents fs' p = contents fs p)"

lemma frame_refl [simp]: "frame names fs fs"
  by (simp add: frame_def)

lemma frame_trans: "frame names a b \<Longrightarrow> frame names b c \<Longrightarrow> frame names a c"
  by (simp add: frame_def)

lemma move_files_spec:
  assumes "reliable fs" "distinct names" "i < length names" "contents fs (names ! i) = None"
  shows "reliable (move_files names i fs) \<and> frame names fs (move_files names i fs) \<and>
    (\<forall>k < length names. contents (move_files names i fs) (names ! k) =
       (if k = 0 then None else if k \<le> i then contents fs (names ! (k - 1)) else contents fs (names ! k)))"
  using assms
proof (induction i arbitrary: fs)
  case 0
  then show ?case by simp
next
  case (Suc i)
  define fs1 where "fs1 = (if IsFile (names ! i) fs then snd (MoveFile (names ! i) (names ! Suc i) fs) else fs)"
  have ne: "names ! i \<noteq> names ! Suc i"
    using Suc.prems by (simp add: nth_eq_iff_index_eq)
  have c1: "contents fs1 = (contents fs)(names ! i := None, names ! Suc i := contents fs (names ! i))"
    using Suc.prems ne by (auto simp: fs1_def IsFile_def MoveFile_def fs_simps fun_upd_idem_iff)
  have r1: "reliable fs1" "frame names fs fs1"
    using Suc.prems c1 by (auto simp: fs1_def IsFile_def MoveFile_def fs_simps frame_def)
  have IH: "reliable (move_files names i fs1) \<and> frame names fs1 (move_files names i fs1) \<and>
    (\<forall>k < length names. contents (move_files names i fs1) (names ! k) =
       (if k = 0 then None else if k \<le> i then contents fs1 (names ! (k - 1)) else contents fs1 (names ! k)))"
    using Suc.IH [of fs1] r1(1) Suc.prems c1 ne by simp
  have eq: "names ! k = names ! j \<longleftrightarrow> k = j" if "k < length names" "j < length names" for k j
    using that Suc.prems(2) by (simp add: nth_eq_iff_index_eq)
  have "contents (move_files names i fs1) (names ! k) =
       (if k = 0 then None else if k \<le> Suc i then contents fs (names ! (k - 1)) else contents fs (names ! k))"
    if k: "k < length names" for k
    using IH k Suc.prems(3) eq by (auto simp: c1 le_Suc_eq)
  then show ?case
    using IH r1 frame_trans by (auto simp flip: fs1_def)
qed

text \<open>What the files of a stream hold: \<open>full\<close> are the completed chunks, oldest first, and \<open>cur\<close> is the
  newest file.  With \<open>keep\<close> the oldest chunk stays in the last file.\<close>

definition kept_file :: "nat \<Rightarrow> bool \<Rightarrow> string list \<Rightarrow> nat \<Rightarrow> string option" where
  "kept_file n keep full i =
     (if i \<le> length full then Some (full ! (if keep \<and> i = n - 1 then 0 else length full - i)) else None)"

record layout =
  num :: nat
  session :: "nat option"
  first_size :: nat
  next_size :: nat

definition layout_ok :: "layout \<Rightarrow> bool" where
  "layout_ok l \<longleftrightarrow> 0 < first_size l \<and> 0 < next_size l \<and>
     (case session l of None \<Rightarrow> 2 \<le> num l \<and> next_size l = first_size l
      | Some T \<Rightarrow> 3 \<le> num l \<and> next_size l = GetRotatingLogSize T)"

definition keeps :: "layout \<Rightarrow> bool" where
  "keeps l \<longleftrightarrow> session l \<noteq> None"

definition stream_ok :: "layout \<Rightarrow> string list \<Rightarrow> string \<Rightarrow> rotating_stream \<Rightarrow> bool" where
  "stream_ok l full cur st \<longleftrightarrow> layout_ok l \<and> length (file_names st) = num l \<and> distinct (file_names st)
     \<and> (\<forall>p \<in> set (file_names st). char_nul \<notin> set p) \<and> current_file_index st = 0
     \<and> current_bytes_written st = length cur
     \<and> max_file_size st = (if full = [] then first_size l else next_size l)
     \<and> (\<forall>j < length full. length (full ! j) = (if j = 0 then first_size l else next_size l))
     \<and> rotation_index st = (if keeps l \<and> num l - 1 \<le> length full then num l - 2 else num l - 1)
     \<and> derived st = map_option (\<lambda>T. \<lparr>max_total_log_size = T, num_rotations = length full\<rparr>) (session l)"

definition files_ok :: "layout \<Rightarrow> string list \<Rightarrow> string \<Rightarrow> string list \<Rightarrow> file_system \<Rightarrow> bool" where
  "files_ok l full cur names fs \<longleftrightarrow> reliable fs \<and> contents fs (names ! 0) = Some cur \<and>
     (\<forall>i. 1 \<le> i \<and> i < num l \<longrightarrow> contents fs (names ! i) = kept_file (num l) (keeps l) full i)"

text \<open>Of the text \<open>cur\<close> the file holds the first part \<open>disk\<close>, the buffer of the stream the rest.\<close>

definition open_ok :: "string \<Rightarrow> string \<Rightarrow> rotating_stream \<Rightarrow> bool" where
  "open_ok disk cur st \<longleftrightarrow>
     (\<exists>f. out_file st = Some f \<and> path f = file_names st ! 0 \<and> pos f = length cur \<and> disk @ stdio_buffer f = cur)"

lemma files_ok_calls [simp]: "files_ok l full disk names (fs\<lparr>calls := k\<rparr>) = files_ok l full disk names fs"
  "frame names fs (fs'\<lparr>calls := k\<rparr>) = frame names fs fs'" "frame names (fs\<lparr>calls := k\<rparr>) fs' = frame names fs fs'"
  by (simp_all add: files_ok_def frame_def)

lemma stream_ok_names: "stream_ok l full cur st \<Longrightarrow> distinct (file_names st) \<and> length (file_names st) = num l \<and> 2 \<le> num l"
  by (auto simp: stream_ok_def layout_ok_def split: option.splits)

lemma hand_over_open:
  assumes "files_ok l full disk names fs" "path f = names ! 0" "pos f = length cur" "disk @ stdio_buffer f = cur"
    "distinct names \<and> length names = num l \<and> 2 \<le> num l"
  shows "\<exists>kept fs' disk'. hand_over keep f fs = (f\<lparr>stdio_buffer := kept\<rparr>, fs') \<and> disk' @ kept = cur \<and> (keep = 0 \<longrightarrow> kept = []) \<and>
    files_ok l full disk' names fs' \<and> frame names fs fs'"
proof -
  have "contents fs (path f) = Some disk" "pos f = length disk + length (stdio_buffer f)"
    using assms(1-4) by (auto simp: files_ok_def)
  from hand_over_appends [OF this, of keep] obtain given kept fs' where h: "hand_over keep f fs = (f\<lparr>stdio_buffer := kept\<rparr>, fs')"
    "given @ kept = stdio_buffer f" "keep = 0 \<longrightarrow> kept = []" "contents fs' = (contents fs)(names ! 0 := Some (disk @ given))"
    "fs_folders fs' = fs_folders fs" "reliable fs' = reliable fs"
    using assms(2) by auto
  have "names ! i \<noteq> names ! 0" if "1 \<le> i" "i < num l" for i
    using that assms(5) by (simp add: nth_eq_iff_index_eq)
  then have "files_ok l full (disk @ given) names fs'"
    using assms(1) h(4,6) by (simp add: files_ok_def)
  moreover have "frame names fs fs'"
    using h(4,5) assms(5) by (auto simp: frame_def)
  moreover have "(disk @ given) @ kept = cur"
    using h(2) assms(4) by simp
  ultimately show ?thesis
    using h(1,3) by blast
qed

lemma CloseCurrentFile_spec:
  assumes "stream_ok l full cur st" "open_ok disk cur st" "files_ok l full disk (file_names st) fs"
  shows "\<exists>fs'. CloseCurrentFile st fs = (st\<lparr>current_bytes_written := 0, out_file := None\<rparr>, fs') \<and>
    files_ok l full cur (file_names st) fs' \<and> frame (file_names st) fs fs'"
proof -
  obtain f where f: "out_file st = Some f" "path f = file_names st ! 0" "pos f = length cur" "disk @ stdio_buffer f = cur"
    using assms(2) by (auto simp: open_ok_def)
  have rel: "reliable fs"
    using assms(3) by (simp add: files_ok_def)
  have "files_ok l full disk (file_names st) (fs\<lparr>calls := calls fs + 1\<rparr>)"
    using assms(3) by simp
  from hand_over_open [OF this f(2-4) stream_ok_names [OF assms(1)], of 0] obtain fs' where
    "hand_over 0 f (fs\<lparr>calls := calls fs + 1\<rparr>) = (f\<lparr>stdio_buffer := []\<rparr>, fs')" "files_ok l full cur (file_names st) fs'"
    "frame (file_names st) fs fs'"
    by auto
  then show ?thesis
    using f(1) rel by (simp add: CloseCurrentFile_def IsOpen_def fw_is_open_def fw_Close_def sys_fclose_def sys_fflush_def fs_simps)
qed

lemma OpenCurrentFile_spec:
  assumes "reliable fs" "0 < length (file_names st)" "current_file_index st = 0" "char_nul \<notin> set (file_names st ! 0)"
    "out_file st = None"
  shows "\<exists>w fs'. OpenCurrentFile st fs = Some (True, st\<lparr>out_file := Some w\<rparr>, fs') \<and>
    path w = file_names st ! 0 \<and> pos w = 0 \<and> stdio_buffer w = [] \<and> reliable fs' \<and> fs_folders fs' = fs_folders fs \<and>
    contents fs' = (contents fs)(file_names st ! 0 := Some [])"
  by (rule exI [of _ "\<lparr>path = file_names st ! 0, pos = 0, at_eof = False, stdio_buffer = []\<rparr>"],
      rule exI [of _ "fs\<lparr>calls := calls fs + 1, fs_files := AList.update (file_names st ! 0) [] (fs_files fs)\<rparr>"])
    (use assms in \<open>simp add: OpenCurrentFile_def CloseCurrentFile_def IsOpen_def fw_is_open_def OpenWriteOnly_def FileOpen_def
      sys_fopen_def fs_simps fw_move_assign_def fw_Close_def contents_simps Let_def\<close>)

lemma kept_snoc:
  assumes "1 \<le> i" "i < n" "2 \<le> n" "keep \<Longrightarrow> 3 \<le> n"
    and "r = (if keep \<and> n - 1 \<le> length full then n - 2 else n - 1)"
  shows "kept_file n keep (full @ [cur]) i =
    (if i \<le> r then if i = 1 then Some cur else kept_file n keep full (i - 1) else kept_file n keep full i)"
proof (cases "keep \<and> i = n - 1")
  case True
  then show ?thesis
    using assms by (auto simp: kept_file_def nth_append)
next
  case False
  then have nk: "i \<le> r" "\<not> (keep \<and> i - 1 = n - 1)"
    using assms by auto
  show ?thesis
  proof (cases "i = 1")
    case True
    then show ?thesis
      using False nk by (auto simp: kept_file_def)
  next
    case ne: False
    show ?thesis
    proof (cases "i \<le> Suc (length full)")
      case True
      have "Suc (length full) - i = length full - (i - 1)" "length full - (i - 1) < length full"
        using True ne assms(1) by auto
      then have "(full @ [cur]) ! (Suc (length full) - i) = full ! (length full - (i - 1))"
        by (simp only: nth_append if_True)
      then show ?thesis
        unfolding kept_file_def if_not_P [OF False] if_not_P [OF nk(2)] using True nk(1) ne by simp
    next
      case gt: False
      then show ?thesis
        using ne nk(1) assms(1) by (simp add: kept_file_def)
    qed
  qed
qed

lemma RotateFiles_spec:
  assumes st: "stream_ok l full cur st" and op: "open_ok disk cur st" and len: "length cur = max_file_size st"
    and fl: "files_ok l full disk (file_names st) fs"
  shows "\<exists>st' fs'. RotateFiles st fs = Some (st', fs') \<and> stream_ok l (full @ [cur]) [] st' \<and> open_ok [] [] st'
    \<and> file_names st' = file_names st \<and> dir_path st' = dir_path st \<and> log_prefix st' = log_prefix st
    \<and> disable_buffering st' = disable_buffering st
    \<and> files_ok l (full @ [cur]) [] (file_names st) fs' \<and> frame (file_names st) fs fs'"
proof -
  define names where "names = file_names st"
  define r where "r = rotation_index st"
  have n: "length names = num l" "2 \<le> num l" "keeps l \<Longrightarrow> 3 \<le> num l" "distinct names"
    using st by (auto simp: stream_ok_def layout_ok_def keeps_def names_def split: option.splits)
  have r: "r = (if keeps l \<and> num l - 1 \<le> length full then num l - 2 else num l - 1)" "0 < r" "r < num l"
    using st n by (auto simp: stream_ok_def r_def)
  have eq: "names ! k = names ! j \<longleftrightarrow> k = j" if "k < num l" "j < num l" for k j
    using that n by (simp add: nth_eq_iff_index_eq)
  define st1 where "st1 = st\<lparr>current_bytes_written := 0, out_file := None\<rparr>"
  obtain fs1 where cl: "CloseCurrentFile st fs = (st1, fs1)" and fl1: "files_ok l full cur names fs1" "frame names fs fs1"
    using CloseCurrentFile_spec [OF st op fl] by (auto simp: st1_def names_def)
  define fs2 where "fs2 = (if IsFile (names ! r) fs1 then snd (DeleteFile (names ! r) fs1) else fs1)"
  have fs2: "reliable fs2" "contents fs2 = (contents fs1)(names ! r := None)" "fs_folders fs2 = fs_folders fs1"
    using fl1(1) by (auto simp: fs2_def IsFile_def DeleteFile_def fs_simps files_ok_def fun_upd_idem_iff)
  define fs3 where "fs3 = move_files names r fs2"
  have fs3: "reliable fs3" "frame names fs2 fs3"
    "\<And>k. k < num l \<Longrightarrow> contents fs3 (names ! k) =
       (if k = 0 then None else if k \<le> r then contents fs2 (names ! (k - 1)) else contents fs2 (names ! k))"
    using move_files_spec [of fs2 names r] fs2 n r by (auto simp: fs3_def)
  have st1: "file_names st1 = names" "current_file_index st1 = 0" "rotation_index st1 = r"
    using st by (simp_all add: st1_def names_def stream_ok_def r_def)
  have nul: "char_nul \<notin> set (names ! 0)"
    using st n by (auto simp: stream_ok_def names_def)
  obtain w fs4 where op4: "OpenCurrentFile st1 fs3 = Some (True, st1\<lparr>out_file := Some w\<rparr>, fs4)"
    and fs4: "path w = names ! 0" "pos w = 0" "stdio_buffer w = []" "reliable fs4" "fs_folders fs4 = fs_folders fs3"
      "contents fs4 = (contents fs3)(names ! 0 := Some [])"
  proof -
    have "0 < length (file_names st1)" "char_nul \<notin> set (file_names st1 ! 0)" "out_file st1 = None"
      using st1 n nul by (auto simp: st1_def)
    from OpenCurrentFile_spec [OF fs3(1) this(1) st1(2) this(2,3)] show ?thesis
      using that st1(1) by (auto simp: st1_def)
  qed
  define st4 where "st4 = st1\<lparr>out_file := Some w\<rparr>"
  have rot: "RotateFiles st fs = Some (OnRotation st4, fs4)"
    using cl st1 n(1) r(3) op4 [unfolded fs3_def fs2_def] by (cases "IsFile (names ! r) fs1") (simp_all add: RotateFiles_def bind_rtc_check Let_def st4_def)
  have sizes: "max_file_size st = (if full = [] then first_size l else next_size l)"
    "\<forall>j < length full. length (full ! j) = (if j = 0 then first_size l else next_size l)"
    using st by (simp_all add: stream_ok_def)
  have st': "stream_ok l (full @ [cur]) [] (OnRotation st4)"
  proof (cases "session l")
    case None
    then show ?thesis
      using st sizes len by (auto simp: stream_ok_def OnRotation_def st4_def st1_def layout_ok_def keeps_def nth_append less_Suc_eq)
  next
    case (Some T)
    then show ?thesis
      using st sizes len
      by (auto simp: stream_ok_def OnRotation_def st4_def st1_def layout_ok_def keeps_def GetNumFiles_def nth_append
          less_Suc_eq Let_def)
  qed
  have os: "open_ok [] [] (OnRotation st4)" "file_names (OnRotation st4) = names" "dir_path (OnRotation st4) = dir_path st"
    "log_prefix (OnRotation st4) = log_prefix st" "disable_buffering (OnRotation st4) = disable_buffering st"
    using fs4 by (auto simp: open_ok_def OnRotation_def st4_def st1_def names_def Let_def split: option.splits)
  have "frame names fs1 fs4"
    using fs3(2) fs4 fs2(2,3) n r by (auto simp: frame_def)
  then have fr: "frame names fs fs4"
    by (rule frame_trans [OF fl1(2)])
  have "contents fs4 (names ! i) = kept_file (num l) (keeps l) (full @ [cur]) i" if "1 \<le> i" "i < num l" for i
  proof -
    have a: "contents fs4 (names ! i) = (if i \<le> r then contents fs2 (names ! (i - 1)) else contents fs2 (names ! i))"
      using that fs4(6) fs3(3) [of i] eq n by simp
    have b: "contents fs2 (names ! j) = (if j = r then None else if j = 0 then Some cur else kept_file (num l) (keeps l) full j)"
      if "j < num l" for j
      using fl1(1) that fs2(2) eq [of j r] r by (auto simp: files_ok_def names_def)
    show ?thesis
      using kept_snoc [OF that n(2) _ r(1), of cur] n(3) a b [of i] b [of "i - 1"] that by auto
  qed
  then have "files_ok l (full @ [cur]) [] names fs4"
    using fs4 by (simp add: files_ok_def)
  then show ?thesis
    using rot st' os fr by (auto simp: names_def)
qed

text \<open>With buffering disabled the file holds everything.\<close>

definition writer_ok :: "layout \<Rightarrow> string list \<Rightarrow> string \<Rightarrow> rotating_stream \<Rightarrow> file_system \<Rightarrow> bool" where
  "writer_ok l full cur st fs \<longleftrightarrow> stream_ok l full cur st \<and> length cur < max_file_size st \<and>
     (\<exists>disk. open_ok disk cur st \<and> files_ok l full disk (file_names st) fs \<and> (disable_buffering st \<longrightarrow> disk = cur))"

text \<open>The files of a stream that hold everything, as they do when it is closed or unbuffered.\<close>

definition stored_ok :: "layout \<Rightarrow> string list \<Rightarrow> string \<Rightarrow> rotating_stream \<Rightarrow> file_system \<Rightarrow> bool" where
  "stored_ok l full cur st fs \<longleftrightarrow> layout_ok l \<and> length (file_names st) = num l \<and>
     (\<forall>p \<in> set (file_names st). char_nul \<notin> set p) \<and> files_ok l full cur (file_names st) fs"

lemma writer_ok_stored: "writer_ok l full cur st fs \<Longrightarrow> disable_buffering st \<Longrightarrow> stored_ok l full cur st fs"
  by (auto simp: writer_ok_def stored_ok_def stream_ok_def)

definition same_names :: "rotating_stream \<Rightarrow> rotating_stream \<Rightarrow> bool" where
  "same_names st st' \<longleftrightarrow> file_names st' = file_names st \<and> dir_path st' = dir_path st \<and> log_prefix st' = log_prefix st \<and>
     disable_buffering st' = disable_buffering st"

definition put_written :: "FILE \<Rightarrow> nat \<Rightarrow> rotating_stream \<Rightarrow> rotating_stream" where
  "put_written f k st = st\<lparr>out_file := Some f, current_bytes_written := current_bytes_written st + k\<rparr>"

lemma append_current:
  assumes w: "writer_ok l full cur st fs" and len: "length cur + length data \<le> max_file_size st"
  shows "\<exists>f fs1 g fs2 disk. fw_Write data (out_file st) fs = Some (True, Some f, fs1) \<and>
    (if disable_buffering st then fw_Flush (Some f) fs1 else Some (True, Some f, fs1)) = Some (True, Some g, fs2) \<and>
    stream_ok l full (cur @ data) (put_written g (length data) st) \<and> open_ok disk (cur @ data) (put_written g (length data) st) \<and>
    files_ok l full disk (file_names st) fs2 \<and> frame (file_names st) fs fs2 \<and> (disable_buffering st \<longrightarrow> disk = cur @ data)"
proof -
  obtain disk where st: "stream_ok l full cur st" "files_ok l full disk (file_names st) fs" "open_ok disk cur st"
    using w by (auto simp: writer_ok_def)
  then have rel: "reliable fs"
    by (simp add: files_ok_def)
  obtain f where f: "out_file st = Some f" "path f = file_names st ! 0" "pos f = length cur" "disk @ stdio_buffer f = cur"
    using st(3) by (auto simp: open_ok_def)
  note names = stream_ok_names [OF st(1)]
  define f0 where "f0 = f\<lparr>pos := pos f + length data, stdio_buffer := stdio_buffer f @ data\<rparr>"
  have f0: "path f0 = file_names st ! 0" "pos f0 = length (cur @ data)" "disk @ stdio_buffer f0 = cur @ data"
    using f(2,3) by (simp_all add: f0_def) (simp flip: f(4))
  have "files_ok l full disk (file_names st) (fs\<lparr>calls := calls fs + 1\<rparr>)"
    using st(2) by simp
  from hand_over_open [OF this f0 names, of "kept_back fs (calls fs + 1)"] obtain kept fs1 disk1 where
    1: "hand_over (kept_back fs (calls fs + 1)) f0 (fs\<lparr>calls := calls fs + 1\<rparr>) = (f0\<lparr>stdio_buffer := kept\<rparr>, fs1)"
      "disk1 @ kept = cur @ data" "files_ok l full disk1 (file_names st) fs1" "frame (file_names st) fs fs1"
    by auto
  define f1 where "f1 = f0\<lparr>stdio_buffer := kept\<rparr>"
  have f1: "path f1 = file_names st ! 0" "pos f1 = length (cur @ data)" "disk1 @ stdio_buffer f1 = cur @ data"
    using f0 1(2) by (simp_all add: f1_def)
  have wr: "fw_Write data (out_file st) fs = Some (True, Some f1, fs1)"
    using f(1) rel 1(1) by (simp add: fw_Write_def sys_fwrite_def fs_simps Let_def f0_def f1_def)
  have so: "stream_ok l full (cur @ data) (put_written g (length data) st)" for g
    using st(1) by (simp add: stream_ok_def put_written_def)
  show ?thesis
  proof (cases "disable_buffering st")
    case True
    have "files_ok l full disk1 (file_names st) (fs1\<lparr>calls := calls fs1 + 1\<rparr>)" "reliable fs1"
      using 1(3) by (simp_all add: files_ok_def)
    with hand_over_open [OF this(1) f1 names, of 0] obtain fs2 where
      2: "hand_over 0 f1 (fs1\<lparr>calls := calls fs1 + 1\<rparr>) = (f1\<lparr>stdio_buffer := []\<rparr>, fs2)"
        "files_ok l full (cur @ data) (file_names st) fs2" "frame (file_names st) fs1 fs2" "reliable fs1"
      by auto
    then have "fw_Flush (Some f1) fs1 = Some (True, Some (f1\<lparr>stdio_buffer := []\<rparr>), fs2)"
      by (simp add: fw_Flush_def sys_fflush_def fs_simps)
    moreover have "open_ok (cur @ data) (cur @ data) (put_written (f1\<lparr>stdio_buffer := []\<rparr>) (length data) st)"
      using f1(1,2) by (simp add: open_ok_def put_written_def)
    ultimately show ?thesis
      unfolding if_P [OF True] using wr so 2(2) frame_trans [OF 1(4) 2(3)] by blast
  next
    case False
    have "open_ok disk1 (cur @ data) (put_written f1 (length data) st)"
      using f1 by (simp add: open_ok_def put_written_def)
    then show ?thesis
      unfolding if_not_P [OF False] using False wr so 1(3,4) by blast
  qed
qed

lemma Write_loop_spec:
  "writer_ok l full cur st fs \<Longrightarrow>
   \<exists>full' cur' st' fs'. Write_loop data st fs = Some (True, st', fs') \<and> writer_ok l full' cur' st' fs' \<and>
     concat full' @ cur' = concat full @ cur @ data \<and> same_names st st' \<and> frame (file_names st) fs fs'"
proof (induction data arbitrary: full cur st fs rule: length_induct)
  case (1 data)
  show ?case
  proof (cases "data = []")
    case True
    show ?thesis
      by (rule exI [of _ full], rule exI [of _ cur]) (use 1 True in \<open>simp add: Write_loop.simps [of "[]"] same_names_def\<close>)
  next
    case False
    define k where "k = min (length data) (max_file_size st - current_bytes_written st)"
    have cur: "current_bytes_written st = length cur" "length cur < max_file_size st"
      using 1(2) by (auto simp: writer_ok_def stream_ok_def)
    have k: "0 < k" "length (take k data) = k" "length cur + k \<le> max_file_size st" "length (drop k data) < length data"
      using False cur by (auto simp: k_def min_def)
    define d where "d = take k data"
    obtain f fs1 g fs2 disk where f: "fw_Write d (out_file st) fs = Some (True, Some f, fs1)"
      and fl: "(if disable_buffering st then fw_Flush (Some f) fs1 else Some (True, Some f, fs1)) = Some (True, Some g, fs2)"
      and st1: "stream_ok l full (cur @ d) (put_written g k st)" "open_ok disk (cur @ d) (put_written g k st)"
      and fs2: "files_ok l full disk (file_names st) fs2" "frame (file_names st) fs fs2" "disable_buffering st \<longrightarrow> disk = cur @ d"
      using append_current [OF 1(2), of d] k by (auto simp: d_def)
    define st1' where "st1' = put_written g k st"
    have st1': "file_names st1' = file_names st" "dir_path st1' = dir_path st" "log_prefix st1' = log_prefix st"
      "max_file_size st1' = max_file_size st" "current_bytes_written st1' = length cur + k"
      "disable_buffering st1' = disable_buffering st"
      using cur by (simp_all add: st1'_def put_written_def)
    have "\<exists>st2 fs3 full2 cur2. (if current_bytes_written st1' \<ge> max_file_size st1'
         then do { rtc_check (current_bytes_written st1' = max_file_size st1'); RotateFiles st1' fs2 } else Some (st1', fs2))
         = Some (st2, fs3) \<and> writer_ok l full2 cur2 st2 fs3 \<and> concat full2 @ cur2 = concat full @ cur @ d
         \<and> same_names st st2 \<and> frame (file_names st) fs fs3"
    proof (cases "length cur + k = max_file_size st")
      case True
      have "length (cur @ d) = max_file_size st1'"
        using True k st1' by (simp add: d_def)
      then obtain st2 fs3 where r: "RotateFiles st1' fs2 = Some (st2, fs3)"
        and st2: "stream_ok l (full @ [cur @ d]) [] st2" "open_ok [] [] st2" "file_names st2 = file_names st1'"
          "dir_path st2 = dir_path st1'" "log_prefix st2 = log_prefix st1'" "disable_buffering st2 = disable_buffering st1'"
        and fs3: "files_ok l (full @ [cur @ d]) [] (file_names st1') fs3" "frame (file_names st1') fs2 fs3"
        using RotateFiles_spec [of l full "cur @ d" st1' disk fs2] st1 fs2(1) st1' by (auto simp flip: st1'_def)
      have "0 < max_file_size st2"
        using st2(1) by (auto simp: stream_ok_def layout_ok_def)
      then have "writer_ok l (full @ [cur @ d]) [] st2 fs3"
        using st2 fs3(1) by (auto simp: writer_ok_def)
      then show ?thesis
        using r True st2 fs3 st1' frame_trans [OF fs2(2), of fs3]
        by (intro exI [of _ st2] exI [of _ fs3] exI [of _ "full @ [cur @ d]"] exI [of _ "[]"])
          (auto simp: same_names_def)
    next
      case False
      then have "writer_ok l full (cur @ d) st1' fs2"
        using st1 fs2 k st1' by (auto simp: writer_ok_def d_def simp flip: st1'_def)
      then show ?thesis
        using False k fs2 st1'
        by (intro exI [of _ st1'] exI [of _ fs2] exI [of _ full] exI [of _ "cur @ d"])
          (auto simp: same_names_def)
    qed
    then obtain st2 fs3 full2 cur2 where s2: "(if current_bytes_written st1' \<ge> max_file_size st1'
         then do { rtc_check (current_bytes_written st1' = max_file_size st1'); RotateFiles st1' fs2 } else Some (st1', fs2))
         = Some (st2, fs3)" "writer_ok l full2 cur2 st2 fs3" "concat full2 @ cur2 = concat full @ cur @ d"
         "same_names st st2" "frame (file_names st) fs fs3"
      by blast
    have step: "Write_loop data st fs = Write_loop (drop k data) st2 fs3"
    proof -
      have lt: "current_bytes_written st < max_file_size st"
        using cur by simp
      have "(if disable_buffering st then fw_Flush (out_file (st\<lparr>out_file := Some f\<rparr>)) fs1
          else Some (True, out_file (st\<lparr>out_file := Some f\<rparr>), fs1)) = Some (True, Some g, fs2)"
        using fl by (cases "disable_buffering st") simp_all
      then show ?thesis
        using s2(1) [unfolded st1'_def put_written_def]
        by (subst Write_loop.simps) (simp add: False lt f Let_def split del: if_split flip: k_def d_def)
    qed
    obtain full' cur' st' fs' where r: "Write_loop (drop k data) st2 fs3 = Some (True, st', fs')" "writer_ok l full' cur' st' fs'"
      "concat full' @ cur' = concat full2 @ cur2 @ drop k data" "same_names st2 st'" "frame (file_names st2) fs3 fs'"
      using 1(1) k(4) s2(2) by blast
    have "concat full' @ cur' = concat full @ cur @ data"
      using r(3) s2(3) unfolding d_def by (metis append.assoc append_take_drop_id)
    then show ?thesis
      using step r s2 frame_trans [OF s2(5)] by (auto simp: same_names_def)
  qed
qed

section \<open>Opening\<close>

definition matches :: "string \<Rightarrow> string \<Rightarrow> string \<Rightarrow> bool" where
  "matches directory prefix p \<longleftrightarrow> in_directory directory p \<and>
     take (length prefix) (drop (length directory) p) = prefix"

lemma delete_files_spec:
  "reliable fs \<Longrightarrow> reliable (delete_files ps fs) \<and> fs_folders (delete_files ps fs) = fs_folders fs \<and>
     contents (delete_files ps fs) = (\<lambda>p. if p \<in> set ps then None else contents fs p)"
  by (induction ps arbitrary: fs) (auto simp: DeleteFile_def fs_simps)

lemma take_length_append: "take (length xs) (xs @ ys) = xs"
  by simp

lemma in_directory_split: "in_directory d p \<Longrightarrow> p = d @ drop (length d) p"
  by (metis append_take_drop_id in_directory_def)

lemma GetFilesWithPrefix_spec:
  assumes "reliable fs" "d \<noteq> []" "last d = CHR ''/''" "butlast d \<in> set (fs_folders fs)"
  shows "\<exists>ps. GetFilesWithPrefix d prefix fs = Some (ps, fs\<lparr>calls := calls fs + 1\<rparr>) \<and>
    (\<forall>p. matches d prefix p \<and> contents fs p \<noteq> None \<longrightarrow> p \<in> set ps) \<and>
    ((\<forall>p \<in> set (fs_folders fs). \<not> matches d prefix p) \<and> prefix \<noteq> [] \<and> hd prefix \<noteq> CHR ''.'' \<longrightarrow>
      distinct ps \<and> set ps = {p. matches d prefix p \<and> contents fs p \<noteq> None})"
proof -
  define isp where "isp = (\<lambda>name. take (length prefix) name = prefix)"
  define ents where "ents = filter (in_directory d) (remdups (map fst (fs_files fs)) @ fs_folders fs)"
  define ps where "ps = map (\<lambda>name. d @ name) (filter isp (dirent_names d fs))"
  have get: "GetFilesWithPrefix d prefix fs = Some (ps, fs\<lparr>calls := calls fs + 1\<rparr>)"
    using assms by (simp add: GetFilesWithPrefix_def fs_simps ps_def isp_def checked_simps dirent_names_def)
  have dom: "contents fs p \<noteq> None \<longleftrightarrow> p \<in> fst ` set (fs_files fs)" for p
    by (simp add: map_of_eq_None_iff)
  have ents: "map (\<lambda>name. d @ name) (filter isp (map (drop (length d)) ents)) = filter (matches d prefix) ents"
    unfolding filter_map map_map comp_def
    by (rule map_idI [THEN trans])
      (auto simp: ents_def matches_def isp_def in_directory_split [symmetric] intro!: filter_cong)
  have a: "p \<in> set ps" if "matches d prefix p" "contents fs p \<noteq> None" for p
  proof -
    have "p \<in> set (filter (matches d prefix) ents)"
      using that dom [of p] by (auto simp: ents_def matches_def)
    then show ?thesis
      unfolding ents [symmetric] by (auto simp: ps_def dirent_names_def ents_def)
  qed
  have b: "ps = filter (matches d prefix) (remdups (map fst (fs_files fs)))"
    if "\<forall>p \<in> set (fs_folders fs). \<not> matches d prefix p" "prefix \<noteq> []" "hd prefix \<noteq> CHR ''.''"
  proof -
    have "\<not> isp ''.''" "\<not> isp ''..''"
      using that(2,3) by (cases prefix; auto simp: isp_def)+
    then have "ps = map (\<lambda>name. d @ name) (filter isp (map (drop (length d)) ents))"
      by (simp add: ps_def dirent_names_def ents_def)
    then have "ps = filter (matches d prefix) ents"
      by (simp only: ents)
    moreover have "filter (matches d prefix) (filter (in_directory d) (fs_folders fs)) = []"
      using that(1) by (simp add: filter_empty_conv)
    ultimately show ?thesis
      by (auto simp: ents_def matches_def intro!: filter_cong)
  qed
  show ?thesis
    by (rule exI [of _ ps]) (use get a b dom in \<open>auto\<close>)
qed

lemma AddTrailing_spec:
  "AddTrailingPathDelimiterIfNeeded dir \<noteq> []" "last (AddTrailingPathDelimiterIfNeeded dir) = CHR ''/''"
  "IsFolder dir fs \<Longrightarrow> butlast (AddTrailingPathDelimiterIfNeeded dir) \<in> set (fs_folders fs)"
  by (auto simp: AddTrailingPathDelimiterIfNeeded_def IsFolder_def split: if_splits)

text \<open>A stream and a file system the reader will understand: the files of the stream are named one
  after the other and no other file matches.\<close>

definition named :: "string \<Rightarrow> string \<Rightarrow> nat \<Rightarrow> rotating_stream \<Rightarrow> bool" where
  "named dir prefix n st \<longleftrightarrow> dir_path st = AddTrailingPathDelimiterIfNeeded dir \<and> log_prefix st = prefix \<and>
     file_names st = map (file_name st n) [0..<n]"

definition clean :: "rotating_stream \<Rightarrow> file_system \<Rightarrow> bool" where
  "clean st fs \<longleftrightarrow> butlast (dir_path st) \<in> set (fs_folders fs) \<and>
     (\<forall>p. matches (dir_path st) (log_prefix st) p \<and> p \<notin> set (file_names st) \<longrightarrow> contents fs p = None)"

lemma file_name_matches: "CHR ''/'' \<notin> set (log_prefix st) \<Longrightarrow> matches (dir_path st) (log_prefix st) (file_name st n i)"
  using zero_pad_no_slash [of "CHR ''/''"]
  by (auto simp: matches_def in_directory_def file_name_def is_digit_def)

lemma digits_30:
  assumes "n \<le> 2 ^ 64"
  shows "length (nat_string (n - 1)) < 31"
  using length_nat_string [of "n - 1" 30] assms by fastforce

lemma FileRotatingStream_spec:
  assumes "FileRotatingStream dir prefix m n fs = Some st" "n \<le> 2 ^ 64"
  shows "0 < m" "2 \<le> n" "IsFolder dir fs" "named dir prefix n st" "max_file_size st = m" "out_file st = None"
    "current_file_index st = 0" "current_bytes_written st = 0" "rotation_index st = n - 1" "derived st = None"
proof -
  have d: "length (nat_string (n - 1)) < 31"
    using assms(2) by (rule digits_30)
  have "make_file_names s [0..<n] n = Some (map (file_name s n) [0..<n])" for s
    by (rule make_file_names_spec [OF _ d]) simp
  then show "0 < m" "2 \<le> n" "IsFolder dir fs" "named dir prefix n st" "max_file_size st = m" "out_file st = None"
    "current_file_index st = 0" "current_bytes_written st = 0" "rotation_index st = n - 1" "derived st = None"
    using assms(1) by (auto simp: FileRotatingStream_def checked_simps Let_def named_def file_name_def split: if_splits)
qed

lemma Open_spec:
  assumes "reliable fs" "named dir prefix n st" "layout_ok l" "num l = n" "max_file_size st = first_size l"
    and "out_file st = None" "current_file_index st = 0" "current_bytes_written st = 0" "rotation_index st = n - 1"
    and "derived st = map_option (\<lambda>T. \<lparr>max_total_log_size = T, num_rotations = 0\<rparr>) (session l)"
    and "butlast (dir_path st) \<in> set (fs_folders fs)" "char_nul \<notin> set (dir @ prefix)" "CHR ''/'' \<notin> set prefix"
  shows "\<exists>st' fs'. Open st fs = Some (True, st', fs') \<and> writer_ok l [] [] st' fs' \<and> named dir prefix n st' \<and> clean st' fs'
    \<and> fs_folders fs' = fs_folders fs"
proof -
  have n: "2 \<le> n" "keeps l \<Longrightarrow> 3 \<le> n"
    using assms(3,4) by (auto simp: layout_ok_def keeps_def split: option.splits)
  have dp: "dir_path st = AddTrailingPathDelimiterIfNeeded dir" "log_prefix st = prefix"
    "file_names st = map (file_name st n) [0..<n]"
    using assms(2) by (simp_all add: named_def)
  obtain ps where ps: "GetFilesWithPrefix (dir_path st) prefix fs = Some (ps, fs\<lparr>calls := calls fs + 1\<rparr>)"
    "\<And>p. matches (dir_path st) prefix p \<Longrightarrow> contents fs p \<noteq> None \<Longrightarrow> p \<in> set ps"
    using GetFilesWithPrefix_spec [OF assms(1) AddTrailing_spec(1,2), of dir prefix] assms(11) dp by auto
  define fs1 where "fs1 = delete_files ps (fs\<lparr>calls := calls fs + 1\<rparr>)"
  have fs1: "reliable fs1" "fs_folders fs1 = fs_folders fs"
    "contents fs1 p = (if p \<in> set ps then None else contents fs p)" for p
    using delete_files_spec [of "fs\<lparr>calls := calls fs + 1\<rparr>" ps] assms(1) by (auto simp: fs1_def)
  have none: "contents fs1 p = None" if "matches (dir_path st) prefix p" for p
    using fs1(3) [of p] ps(2) [OF that] by (cases "contents fs p") auto
  have nul: "char_nul \<notin> set p" if "p \<in> set (file_names st)" for p
    using that assms(12) zero_pad_no_slash [of char_nul] dp(1,2)
    by (auto simp: dp(3) file_name_def AddTrailingPathDelimiterIfNeeded_def is_digit_def char_nul_def split: if_splits)
  have names: "length (file_names st) = n" "distinct (file_names st)"
    using dp(3) file_names_distinct [of st n] by simp_all
  obtain w fs2 where op: "OpenCurrentFile st fs1 = Some (True, st\<lparr>out_file := Some w\<rparr>, fs2)"
    and w: "path w = file_names st ! 0" "pos w = 0" "stdio_buffer w = []" "reliable fs2" "fs_folders fs2 = fs_folders fs1"
      "contents fs2 = (contents fs1)(file_names st ! 0 := Some [])"
    using OpenCurrentFile_spec [OF fs1(1), of st] assms(6,7) names n nul [of "file_names st ! 0"] by (auto split: if_splits)
  define st' where "st' = st\<lparr>out_file := Some w\<rparr>"
  have fn: "file_names st' = file_names st" "dir_path st' = dir_path st" "log_prefix st' = log_prefix st"
    by (simp_all add: st'_def)
  have fname: "file_name st' n i = file_name st n i" for i
    by (simp add: file_name_def st'_def)
  have "contents fs2 (file_names st ! i) = None" if "1 \<le> i" "i < n" for i
  proof -
    have "file_names st ! i \<noteq> file_names st ! 0"
      using that names n by (simp add: nth_eq_iff_index_eq)
    moreover have "matches (dir_path st) prefix (file_names st ! i)"
      using file_name_matches [of st n i] that assms(13) dp by simp
    ultimately show ?thesis
      using none w(6) by simp
  qed
  then have fl: "files_ok l [] [] (file_names st) fs2"
    using w assms(4) by (auto simp: files_ok_def kept_file_def)
  have "stream_ok l [] [] st'" "open_ok [] [] st'"
    using assms names nul w n by (auto simp: stream_ok_def open_ok_def st'_def)
  then have wo: "writer_ok l [] [] st' fs2"
    using fl assms(3,5) by (auto simp: writer_ok_def st'_def layout_ok_def)
  have "clean st' fs2"
    using none w fs1(2) assms(11) names n by (auto simp: clean_def fn dp(2))
  then show ?thesis
    using wo op ps(1) dp fs1(2) w(5) fn fname
    by (auto simp: Open_def named_def st'_def fs1_def)
qed

section \<open>Reading\<close>

lemma ReadAll_loop_spec:
  "reliable fs \<Longrightarrow> \<forall>p \<in> set ps. char_nul \<notin> set p \<and> contents fs p \<noteq> None \<Longrightarrow> length got \<le> len \<Longrightarrow>
   \<exists>fs'. ReadAll_loop ps got len fs = Some (take len (got @ concat (map (the \<circ> contents fs) ps)), fs')"
proof (induction ps arbitrary: got fs)
  case (Cons p ps)
  show ?case
  proof (cases "length got < len")
    case True
    obtain c where c: "contents fs p = Some c"
      using Cons.prems by auto
    define fs1 where "fs1 = fs\<lparr>calls := calls fs + 3\<rparr>"
    have fs1: "reliable fs1" "fs_files fs1 = fs_files fs"
      using Cons.prems(1) by (simp_all add: fs1_def)
    have loop: "ReadAll_loop (p # ps) got len fs = ReadAll_loop ps (got @ take (len - length got) c) len fs1"
      using True c Cons.prems by (simp add: OpenReadOnly_def FileOpen_def sys_fopen_def fs_simps fw_is_open_def fw_Read_def
          sys_fread_def fw_Close_def sys_fclose_def sys_fflush_def Let_def fs1_def eval_nat_numeral)
    have "length (got @ take (len - length got) c) \<le> len"
      using True by simp
    then obtain fs' where "ReadAll_loop ps (got @ take (len - length got) c) len fs1 =
        Some (take len ((got @ take (len - length got) c) @ concat (map (the \<circ> contents fs1) ps)), fs')"
      using Cons.IH [of fs1 "got @ take (len - length got) c"] Cons.prems fs1 by (auto simp: comp_def)
    moreover have "take len ((got @ take (len - length got) c) @ xs) = take len (got @ c @ xs)" for xs
      using True by (simp add: min_def)
    ultimately show ?thesis
      using loop c fs1 by (simp add: comp_def)
  qed (use Cons.prems in simp)
qed simp

text \<open>The newest \<open>k\<close> files, oldest first.\<close>

lemma reader_names:
  assumes w: "stored_ok l full cur st fs" and nm: "named dir prefix n st" and cl: "clean st fs" and n: "num l = n"
    and pre: "prefix \<noteq> []" "hd prefix \<noteq> CHR ''.''" "CHR ''/'' \<notin> set prefix"
    and fo: "\<forall>p \<in> set (fs_folders fs). \<not> matches (dir_path st) prefix p"
  shows "FileRotatingStreamReader dir prefix fs =
    Some (rev (map (\<lambda>i. file_names st ! i) [0..<min n (Suc (length full))]), fs\<lparr>calls := calls fs + 1\<rparr>)"
proof -
  have dp: "dir_path st = AddTrailingPathDelimiterIfNeeded dir" "log_prefix st = prefix"
    "file_names st = map (file_name st n) [0..<n]"
    using nm by (simp_all add: named_def)
  have rel: "reliable fs"
    using w by (simp add: stored_ok_def files_ok_def)
  have fl: "contents fs (file_names st ! 0) = Some cur"
    "\<And>i. 1 \<le> i \<Longrightarrow> i < n \<Longrightarrow> contents fs (file_names st ! i) = kept_file n (keeps l) full i" and n0: "0 < n"
    using w n by (auto simp: stored_ok_def files_ok_def layout_ok_def split: option.splits)
  obtain ps where ps: "GetFilesWithPrefix (dir_path st) prefix fs = Some (ps, fs\<lparr>calls := calls fs + 1\<rparr>)"
    "distinct ps" "set ps = {p. matches (dir_path st) prefix p \<and> contents fs p \<noteq> None}"
    using GetFilesWithPrefix_spec [OF rel AddTrailing_spec(1,2), of dir prefix] cl fo pre dp by (auto simp: clean_def)
  define ns where "ns = map (\<lambda>i. file_names st ! i) [0..<min n (Suc (length full))]"
  have ns: "ns = map (file_name st n) [0..<min n (Suc (length full))]"
    using dp(3) by (simp add: ns_def)
  have srt: "sorted_wrt (<) ns"
    by (auto simp: ns sorted_wrt_iff_nth_less file_name_less)
  have ex: "contents fs (file_name st n i) \<noteq> None \<longleftrightarrow> i \<le> length full" if "i < n" for i
    using that fl(1) fl(2) [of i] dp(3) n0 by (cases "i = 0") (auto simp: kept_file_def)
  have "set ps = set ns"
  proof (rule set_eqI)
    fix p
    have "p \<in> set ps \<longleftrightarrow> p \<in> set (file_names st) \<and> contents fs p \<noteq> None"
      using ps(3) cl file_name_matches [of st n] pre(3) dp by (auto simp: clean_def)
    also have "\<dots> \<longleftrightarrow> p \<in> set ns"
    proof
      assume "p \<in> set (file_names st) \<and> contents fs p \<noteq> None"
      then obtain i where "i < n" "p = file_name st n i" "contents fs p \<noteq> None"
        by (auto simp: dp(3))
      then show "p \<in> set ns"
        using ex [of i] by (auto simp: ns)
    next
      assume "p \<in> set ns"
      then obtain i where "i < n" "i \<le> length full" "p = file_name st n i"
        by (auto simp: ns)
      then show "p \<in> set (file_names st) \<and> contents fs p \<noteq> None"
        using ex [of i] by (auto simp: dp(3))
    qed
    finally show "p \<in> set ps \<longleftrightarrow> p \<in> set ns" .
  qed
  then have "sort ps = ns"
    using ps(2) srt by (metis sorted_distinct_set_unique sorted_sort distinct_sort set_sort strict_sorted_iff)
  then show ?thesis
    using ps(1) dp(1) by (simp add: FileRotatingStreamReader_def ns_def)
qed

text \<open>What the files hold together, oldest first.\<close>

definition on_disk :: "layout \<Rightarrow> string list \<Rightarrow> string \<Rightarrow> string" where
  "on_disk l full cur =
     (let n = num l; q = length full
      in (if keeps l \<and> n - 1 < q then full ! 0 @ concat (drop (q - (n - 2)) full)
          else concat (drop (q - min q (n - 1)) full)) @ cur)"

lemma concat_kept:
  "j \<le> length full \<Longrightarrow> concat (map (\<lambda>i. full ! (length full - Suc i)) (rev [0..<j])) = concat (drop (length full - j) full)"
proof (induction j)
  case (Suc j)
  then show ?case
  proof -
    have "drop (length full - Suc j) full = full ! (length full - Suc j) # drop (length full - j) full"
      using Cons_nth_drop_Suc [of "length full - Suc j" full] Suc.prems by (simp add: Suc_diff_Suc)
    then show ?thesis
      using Suc by simp
  qed
qed simp

lemma contents_on_disk:
  assumes w: "stored_ok l full cur st fs"
  shows "concat (map (the \<circ> contents fs) (rev (map (\<lambda>i. file_names st ! i) [0..<min (num l) (Suc (length full))])))
     = on_disk l full cur"
proof -
  define n q where "n = num l" and "q = length full"
  define g where "g = (\<lambda>i. the (contents fs (file_names st ! i)))"
  have fl: "contents fs (file_names st ! 0) = Some cur"
    "\<And>i. 1 \<le> i \<Longrightarrow> i < n \<Longrightarrow> contents fs (file_names st ! i) = kept_file n (keeps l) full i"
    and n: "2 \<le> n" "keeps l \<Longrightarrow> 3 \<le> n"
    using w by (auto simp: stored_ok_def files_ok_def layout_ok_def keeps_def n_def split: option.splits)
  have g: "g 0 = cur" "\<And>i. 1 \<le> i \<Longrightarrow> i < n \<Longrightarrow> i \<le> q \<Longrightarrow> g i = full ! (if keeps l \<and> i = n - 1 then 0 else q - i)"
    using fl by (simp_all add: g_def kept_file_def q_def)
  have "concat (map (the \<circ> contents fs) (rev (map (\<lambda>i. file_names st ! i) [0..<min n (Suc q)])))
      = concat (map g (rev [0..<Suc (min (n - 1) q)]))"
    using n by (simp add: rev_map comp_def g_def min_def del: upt_Suc)
  also have "\<dots> = concat (map (\<lambda>i. g (Suc i)) (rev [0..<min (n - 1) q])) @ cur"
    by (simp only: upt_conv_Cons [of 0] zero_less_Suc rev.simps map_append concat_append map_Suc_upt [symmetric] rev_map)
      (simp add: g comp_def)
  also have "concat (map (\<lambda>i. g (Suc i)) (rev [0..<min (n - 1) q])) @ cur = on_disk l full cur"
  proof (cases "keeps l \<and> n - 1 < q")
    case True
    have *: "map (\<lambda>i. g (Suc i)) (rev [0..<n - 2]) = map (\<lambda>i. full ! (q - Suc i)) (rev [0..<n - 2])"
      using g(2) True by auto
    have m: "min (n - 1) q = Suc (n - 2)" "Suc (n - 2) = n - 1" "rev [0..<Suc (n - 2)] = (n - 2) # rev [0..<n - 2]"
      using True n by simp_all
    have "concat (map (\<lambda>i. g (Suc i)) (rev [0..<min (n - 1) q]))
        = g (n - 1) @ concat (map (\<lambda>i. full ! (q - Suc i)) (rev [0..<n - 2]))"
      unfolding m(1) m(3) list.map concat.simps * by (simp only: m(2))
    also have "\<dots> = full ! 0 @ concat (drop (q - (n - 2)) full)"
    proof -
      have "n - 2 \<le> length full" "g (n - 1) = full ! 0"
        using True g(2) [of "n - 1"] n by (auto simp: q_def)
      then show ?thesis
        using concat_kept [of "n - 2" full] by (simp only: q_def)
    qed
    finally show ?thesis
      using True by (simp add: on_disk_def Let_def n_def q_def)
  next
    case False
    have "g (Suc i) = full ! (q - Suc i)" if "i < min (n - 1) q" for i
    proof (cases "keeps l \<and> Suc i = n - 1")
      case True
      then have "q = Suc i"
        using that False by simp
      then show ?thesis
        using g(2) [of "Suc i"] True that by simp
    qed (use g(2) [of "Suc i"] that in auto)
    then have "map (\<lambda>i. g (Suc i)) (rev [0..<min (n - 1) q]) = map (\<lambda>i. full ! (q - Suc i)) (rev [0..<min (n - 1) q])"
      by simp
    then have "concat (map (\<lambda>i. g (Suc i)) (rev [0..<min (n - 1) q])) = concat (drop (q - min q (n - 1)) full)"
      using concat_kept [of "min (n - 1) q" full] by (simp only: q_def min.cobounded2 min.commute [of "length full" "n - 1"])
    then show ?thesis
      using False by (simp only: on_disk_def Let_def n_def q_def if_not_P if_False)
  qed
  finally show ?thesis
    by (simp add: n_def q_def)
qed

lemma read_back:
  assumes "stored_ok l full cur st fs" "named dir prefix n st" "clean st fs" "num l = n"
    and "prefix \<noteq> []" "hd prefix \<noteq> CHR ''.''" "CHR ''/'' \<notin> set prefix"
    and "\<forall>p \<in> set (fs_folders fs). \<not> matches (dir_path st) prefix p"
  shows "\<exists>names fs1 fs2. FileRotatingStreamReader dir prefix fs = Some (names, fs1) \<and>
    GetSize names fs1 = length (on_disk l full cur) \<and>
    ReadAll names len fs1 = Some (take len (on_disk l full cur), fs2)"
proof -
  define names where "names = rev (map (\<lambda>i. file_names st ! i) [0..<min n (Suc (length full))])"
  define fs1 where "fs1 = fs\<lparr>calls := calls fs + 1\<rparr>"
  have rd: "FileRotatingStreamReader dir prefix fs = Some (names, fs1)"
    using reader_names [OF assms] by (simp add: names_def fs1_def)
  have fl: "contents fs (file_names st ! 0) = Some cur"
    "\<And>i. 1 \<le> i \<Longrightarrow> i < n \<Longrightarrow> contents fs (file_names st ! i) = kept_file n (keeps l) full i"
    and st: "length (file_names st) = n" "\<forall>p \<in> set (file_names st). char_nul \<notin> set p" and rel: "reliable fs1"
    using assms(1,4) by (auto simp: stored_ok_def files_ok_def fs1_def)
  have all: "\<forall>p \<in> set names. char_nul \<notin> set p \<and> contents fs1 p \<noteq> None"
  proof
    fix p
    assume "p \<in> set names"
    then obtain i where i: "p = file_names st ! i" "i < n" "i \<le> length full"
      by (auto simp: names_def)
    then show "char_nul \<notin> set p \<and> contents fs1 p \<noteq> None"
      using st fl(1) fl(2) [of i] by (cases "i = 0") (auto simp: fs1_def kept_file_def)
  qed
  have disk: "concat (map (the \<circ> contents fs1) names) = on_disk l full cur"
    using contents_on_disk [OF assms(1)] assms(4) by (simp add: names_def fs1_def)
  have "GetSize names fs1 = length (concat (map (the \<circ> contents fs1) names))"
    unfolding GetSize_def GetFileSize_def length_concat map_map
    using all by (intro arg_cong [where f = sum_list] map_cong) auto
  then show ?thesis
    using rd disk ReadAll_loop_spec [OF rel all, of "[]" len] by (auto simp: ReadAll_def)
qed

section \<open>From chunks to data\<close>

lemma length_concat_take:
  "\<forall>j < length full. length (full ! j) = (if j = 0 then a else b) \<Longrightarrow> k \<le> length full \<Longrightarrow>
   length (concat (take k full)) = (if k = 0 then 0 else a + (k - 1) * b)"
proof (induction k)
  case (Suc k)
  have "length (full ! k) = (if k = 0 then a else b)"
    using Suc.prems by simp
  then show ?case
    using Suc by (cases k; cases full) (auto simp: take_Suc_conv_app_nth)
qed simp

lemma concat_drop_conv: "concat (drop k full) @ cur = drop (length (concat (take k full))) (concat full @ cur)"
proof -
  have "concat full = concat (take k full) @ concat (drop k full)"
    by (metis append_take_drop_id concat_append)
  then show ?thesis
    by simp
qed

lemma chunks:
  assumes "writer_ok l full cur st fs" "concat full @ cur = D"
  shows "length full = (if length D < first_size l then 0 else 1 + (length D - first_size l) div next_size l)"
    and "k \<le> length full \<Longrightarrow> concat (drop k full) @ cur = drop (if k = 0 then 0 else first_size l + (k - 1) * next_size l) D"
    and "full \<noteq> [] \<Longrightarrow> full ! 0 = take (first_size l) D"
proof -
  have sz: "\<forall>j < length full. length (full ! j) = (if j = 0 then first_size l else next_size l)"
    and cur: "length cur < (if full = [] then first_size l else next_size l)"
    using assms(1) by (auto simp: writer_ok_def stream_ok_def)
  have D: "length D = (if full = [] then 0 else first_size l + (length full - 1) * next_size l) + length cur"
    using length_concat_take [OF sz, of "length full"] assms(2) by auto
  show "length full = (if length D < first_size l then 0 else 1 + (length D - first_size l) div next_size l)"
  proof (cases "full = []")
    case False
    then show ?thesis
      using D cur by (cases full) auto
  qed (use D cur in auto)
  show "concat (drop k full) @ cur = drop (if k = 0 then 0 else first_size l + (k - 1) * next_size l) D" if "k \<le> length full"
    using concat_drop_conv [of k full cur] length_concat_take [OF sz that] assms(2) by simp
  show "full ! 0 = take (first_size l) D" if "full \<noteq> []"
    using that sz assms(2) by (cases full) auto
qed

section \<open>Writing and reading back\<close>

fun Write_all :: "string list \<Rightarrow> rotating_stream \<Rightarrow> file_system \<Rightarrow> (bool \<times> rotating_stream \<times> file_system) checked" where
  "Write_all [] st fs = Some (True, st, fs)"
| "Write_all (w # ws) st fs = do {
     (ok, st, fs) \<leftarrow> Write w st fs;
     if ok then Write_all ws st fs else Some (False, st, fs)
   }"

lemma writer_ok_open: "writer_ok l full cur st fs \<Longrightarrow> IsOpen st"
  by (auto simp: writer_ok_def open_ok_def IsOpen_def fw_is_open_def)

lemma clean_step: "clean st fs \<Longrightarrow> same_names st st' \<Longrightarrow> frame (file_names st) fs fs' \<Longrightarrow> clean st' fs'"
  by (auto simp: clean_def same_names_def frame_def)

lemma named_step: "named dir prefix n st \<Longrightarrow> same_names st st' \<Longrightarrow> named dir prefix n st'"
  by (auto simp: named_def same_names_def file_name_def)

lemma Write_all_spec:
  "writer_ok l full cur st fs \<Longrightarrow> named dir prefix n st \<Longrightarrow> clean st fs \<Longrightarrow>
   \<exists>full' cur' st' fs'. Write_all ws st fs = Some (True, st', fs') \<and> writer_ok l full' cur' st' fs' \<and>
     named dir prefix n st' \<and> clean st' fs' \<and> fs_folders fs' = fs_folders fs \<and>
     concat full' @ cur' = concat full @ cur @ concat ws"
proof (induction ws arbitrary: full cur st fs)
  case (Cons w ws)
  obtain full1 cur1 st1 fs1 where w: "Write_loop w st fs = Some (True, st1, fs1)" "writer_ok l full1 cur1 st1 fs1"
    "concat full1 @ cur1 = concat full @ cur @ w" "same_names st st1" "frame (file_names st) fs fs1"
    using Write_loop_spec [OF Cons.prems(1)] by blast
  have 1: "named dir prefix n st1" "clean st1 fs1" "fs_folders fs1 = fs_folders fs"
    using named_step [OF Cons.prems(2) w(4)] clean_step [OF Cons.prems(3) w(4,5)] w(5) by (simp_all add: frame_def)
  obtain full' cur' st' fs' where r: "Write_all ws st1 fs1 = Some (True, st', fs')" "writer_ok l full' cur' st' fs'"
    "named dir prefix n st'" "clean st' fs'" "fs_folders fs' = fs_folders fs1"
    "concat full' @ cur' = concat full1 @ cur1 @ concat ws"
    using Cons.IH [OF w(2) 1(1,2)] by blast
  have "Write_all (w # ws) st fs = Some (True, st', fs')"
    using r(1) w(1) writer_ok_open [OF Cons.prems(1)] by (simp add: Write_def)
  moreover have "concat full' @ cur' = concat full @ cur @ concat (w # ws)"
    using r(6) w(3) by (metis append.assoc concat.simps(2))
  ultimately show ?case
    using r 1(3) by (metis (no_types))
next
  case Nil
  then show ?case
    by (intro exI [of _ full] exI [of _ cur]) simp
qed

lemma Close_spec:
  assumes "writer_ok l full cur st fs" "clean st fs"
  shows "\<exists>fs'. Close st fs = (st\<lparr>current_bytes_written := 0, out_file := None\<rparr>, fs') \<and> stored_ok l full cur st fs' \<and> clean st fs' \<and>
    fs_folders fs' = fs_folders fs"
proof -
  obtain disk where st: "stream_ok l full cur st" "open_ok disk cur st" "files_ok l full disk (file_names st) fs"
    using assms(1) by (auto simp: writer_ok_def)
  obtain fs' where fs': "CloseCurrentFile st fs = (st\<lparr>current_bytes_written := 0, out_file := None\<rparr>, fs')"
    "files_ok l full cur (file_names st) fs'" "frame (file_names st) fs fs'"
    using CloseCurrentFile_spec [OF st] by blast
  have "clean st fs'"
    by (rule clean_step [OF assms(2) _ fs'(3)]) (simp add: same_names_def)
  then show ?thesis
    using fs' st(1) by (simp add: Close_def stored_ok_def stream_ok_def frame_def)
qed

text \<open>Open, write, close, and read back what the files hold.\<close>

definition log_and_read ::
  "rotating_stream \<Rightarrow> string list \<Rightarrow> string \<Rightarrow> string \<Rightarrow> nat \<Rightarrow> file_system \<Rightarrow> (bool \<times> nat \<times> string) checked" where
  "log_and_read st ws dir prefix len fs = do {
     (opened, st, fs) \<leftarrow> Open st fs;
     (written, st, fs) \<leftarrow> Write_all ws st fs;
     let (st, fs) = Close st fs;
     (names, fs) \<leftarrow> FileRotatingStreamReader dir prefix fs;
     (text, _) \<leftarrow> ReadAll names len fs;
     Some (opened \<and> written, GetSize names fs, text)
   }"

lemma written_and_read:
  assumes 1: "Open st fs = Some (True, st1, fs1)" "writer_ok l [] [] st1 fs1" "named dir prefix (num l) st1"
    "clean st1 fs1" "fs_folders fs1 = fs_folders fs"
    and prefix: "prefix \<noteq> []" "hd prefix \<noteq> CHR ''.''" "CHR ''/'' \<notin> set prefix"
    and fo: "\<forall>p \<in> set (fs_folders fs). \<not> matches (AddTrailingPathDelimiterIfNeeded dir) prefix p"
  shows "\<exists>full cur st' fs'. concat full @ cur = concat ws \<and> writer_ok l full cur st' fs' \<and>
    log_and_read st ws dir prefix len fs = Some (True, length (on_disk l full cur), take len (on_disk l full cur))"
proof -
  obtain full cur st2 fs2 where 2: "Write_all ws st1 fs1 = Some (True, st2, fs2)" "writer_ok l full cur st2 fs2"
    "named dir prefix (num l) st2" "clean st2 fs2" "fs_folders fs2 = fs_folders fs1" "concat full @ cur = concat ws"
    using Write_all_spec [OF 1(2,3,4)] by (metis append_Nil concat.simps(1))
  obtain st3 fs3 where 3: "Close st2 fs2 = (st3, fs3)" "stored_ok l full cur st2 fs3" "clean st2 fs3"
    "fs_folders fs3 = fs_folders fs2"
    using Close_spec [OF 2(2,4)] by blast
  have "\<forall>p \<in> set (fs_folders fs3). \<not> matches (dir_path st2) prefix p"
    using fo 1(5) 2(3,5) 3(4) by (simp add: named_def)
  then obtain names fs4 fs5 where 4: "FileRotatingStreamReader dir prefix fs3 = Some (names, fs4)"
    "GetSize names fs4 = length (on_disk l full cur)" "ReadAll names len fs4 = Some (take len (on_disk l full cur), fs5)"
    using read_back [OF 3(2) 2(3) 3(3) refl prefix, of len] by blast
  have "log_and_read st ws dir prefix len fs = Some (True, length (on_disk l full cur), take len (on_disk l full cur))"
    using 1(1) 2(1) 3(1) 4 by (simp add: log_and_read_def)
  then show ?thesis
    using 2(2,6) by blast
qed

text \<open>Opening a rotating stream of \<open>n\<close> files of at most \<open>m\<close> characters, writing any texts and closing it
  leaves files that the reader gives back as the end of all that was written: everything but the whole files'
  worth of it that had to be rotated out, the newest \<open>n - 1\<close> full files and the current one.\<close>
theorem rotating_stream_keeps_newest:
  assumes "FileRotatingStream dir prefix m n fs = Some st" "n \<le> 2 ^ 64" "reliable fs"
    and "char_nul \<notin> set (dir @ prefix)" "CHR ''/'' \<notin> set prefix" "prefix \<noteq> []" "hd prefix \<noteq> CHR ''.''"
    and "\<forall>p \<in> set (fs_folders fs). \<not> matches (AddTrailingPathDelimiterIfNeeded dir) prefix p"
  shows "log_and_read st ws dir prefix len fs =
    (let written = concat ws; full = length written div m; kept = drop (m * (full - min full (n - 1))) written
     in Some (True, length kept, take len kept))"
proof -
  define l where "l = \<lparr>num = n, session = None, first_size = m, next_size = m\<rparr>"
  note c = FileRotatingStream_spec [OF assms(1,2)]
  have l: "layout_ok l" "num l = n" "max_file_size st = first_size l" "session l = None" "\<not> keeps l" "next_size l = m"
    using c by (simp_all add: l_def layout_ok_def keeps_def)
  have "derived st = map_option (\<lambda>T. \<lparr>max_total_log_size = T, num_rotations = 0\<rparr>) (session l)"
    using c(10) l by simp
  moreover have "butlast (dir_path st) \<in> set (fs_folders fs)"
    using AddTrailing_spec(3) c(3,4) by (simp add: named_def)
  ultimately obtain st1 fs1 where 1: "Open st fs = Some (True, st1, fs1)" "writer_ok l [] [] st1 fs1"
    "named dir prefix (num l) st1" "clean st1 fs1" "fs_folders fs1 = fs_folders fs"
    using Open_spec [OF assms(3) c(4) l(1,2,3) c(6,7,8,9) _ _ assms(4,5)] l(2) by auto
  obtain full cur st' fs' where r: "log_and_read st ws dir prefix len fs =
      Some (True, length (on_disk l full cur), take len (on_disk l full cur))"
    "concat full @ cur = concat ws" and w: "writer_ok l full cur st' fs'"
    using written_and_read [OF 1 assms(6,7,5,8), of ws len] by blast
  define k where "k = length full - min (length full) (n - 1)"
  have q: "length full = length (concat ws) div m"
    using chunks(1) [OF w r(2)] c(1) by (auto simp: l_def le_div_geq)
  have "on_disk l full cur = concat (drop k full) @ cur"
    using l by (simp add: on_disk_def k_def Let_def)
  also have "\<dots> = drop (m * k) (concat ws)"
  proof -
    have "(if k = 0 then 0 else first_size l + (k - 1) * next_size l) = m * k"
      by (cases k) (simp_all add: l_def)
    then show ?thesis
      using chunks(2) [OF w r(2), of k] by (simp add: k_def)
  qed
  finally show ?thesis
    using r(1) q by (simp add: k_def Let_def)
qed

theorem rotating_stream_keeps_newest_witness:
  "let fs = \<lparr>fs_files = [(''/log/x_1'', ''old''), (''/log/y'', ''other'')], fs_folders = [''/log''], answers = (\<lambda>_. None), calls = 0, kept_back = id\<rparr>
   in \<exists>st. FileRotatingStream ''/log'' ''x'' 3 2 fs = Some st \<and>
     log_and_read st [''ab'', ''cdefg'', ''h''] ''/log'' ''x'' 10 fs = Some (True, 5, ''defgh'')"
proof -
  define fs where "fs = \<lparr>fs_files = [(''/log/x_1'', ''old''), (''/log/y'', ''other'')], fs_folders = [''/log''], answers = (\<lambda>_. None), calls = 0, kept_back = id\<rparr>"
  define st where "st = \<lparr>dir_path = ''/log/'', log_prefix = ''x'', out_file = None, file_names = [''/log/x_0'', ''/log/x_1''],
    max_file_size = 3, current_file_index = 0, rotation_index = 1, current_bytes_written = 0, disable_buffering = False,
    derived = None\<rparr>"
  have "[0..<2] = [0, 1 :: nat]"
    by (simp add: upt_rec)
  then have st: "FileRotatingStream ''/log'' ''x'' 3 2 fs = Some st"
    by (simp add: FileRotatingStream_def fs_def st_def IsFolder_def AddTrailingPathDelimiterIfNeeded_def GetFilePath_def
        zero_pad_def nat_string.simps Let_def digit_char_def char_of_def bit_0)
  have "log_and_read st [''ab'', ''cdefg'', ''h''] ''/log'' ''x'' 10 fs = Some (True, 5, ''defgh'')"
    using rotating_stream_keeps_newest [OF st, of "[''ab'', ''cdefg'', ''h'']" 10]
    by (simp add: fs_def reliable_def char_nul_def AddTrailingPathDelimiterIfNeeded_def matches_def in_directory_def Let_def)
  then show ?thesis
    using st by (auto simp: fs_def Let_def)
qed

section \<open>Call sessions\<close>

text \<open>What a call session's files hold of the text written.\<close>

definition session_kept :: "nat \<Rightarrow> string \<Rightarrow> string" where
  "session_kept max_total written =
     (let half = max_total div 2; m = GetRotatingLogSize max_total; n = GetNumRotatingLogFiles max_total
      in if length written < half + n * m then written
         else take half written @ drop (half + ((length written - half) div m - (n - 1)) * m) written)"

lemma rotating_sizes:
  assumes "4 \<le> max_total"
  shows "0 < GetRotatingLogSize max_total" "2 \<le> GetNumRotatingLogFiles max_total"
    "GetNumRotatingLogFiles max_total * GetRotatingLogSize max_total \<le> max_total div 2"
    "GetNumRotatingLogFiles max_total \<le> max_total"
proof -
  define k where "k = max_total div 2 div kRotatingLogFileDefaultSize"
  have k: "k * kRotatingLogFileDefaultSize \<le> max_total div 2" "k \<le> max_total div 2"
    unfolding k_def by (simp, rule div_le_dividend)
  show "0 < GetRotatingLogSize max_total" "2 \<le> GetNumRotatingLogFiles max_total"
    using assms by (simp_all add: GetRotatingLogSize_def GetNumRotatingLogFiles_def kRotatingLogFileDefaultSize_def div_greater_zero_iff)
  show "GetNumRotatingLogFiles max_total * GetRotatingLogSize max_total \<le> max_total div 2"
    using k by (auto simp: GetRotatingLogSize_def GetNumRotatingLogFiles_def max_def simp flip: k_def)
  show "GetNumRotatingLogFiles max_total \<le> max_total"
    using k assms by (auto simp: GetNumRotatingLogFiles_def max_def simp flip: k_def)
qed

lemma call_session_opened:
  assumes "CallSessionFileRotatingStream dir T fs = Some st" "T < 2 ^ 64" "reliable fs" "char_nul \<notin> set dir"
    and "\<forall>p \<in> set (fs_folders fs). \<not> matches (AddTrailingPathDelimiterIfNeeded dir) kCallSessionLogPrefix p"
  shows "\<exists>l st1 fs1. Open st fs = Some (True, st1, fs1) \<and> writer_ok l [] [] st1 fs1 \<and>
    named dir kCallSessionLogPrefix (num l) st1 \<and> clean st1 fs1 \<and> fs_folders fs1 = fs_folders fs \<and>
    (\<forall>full cur st fs. writer_ok l full cur st fs \<longrightarrow> on_disk l full cur = session_kept T (concat full @ cur))"
proof -
  define half m n where "half = T div 2" and "m = GetRotatingLogSize T" and "n = GetNumRotatingLogFiles T"
  define l where "l = \<lparr>num = n + 1, session = Some T, first_size = half, next_size = m\<rparr>"
  obtain st0 where st0: "FileRotatingStream dir kCallSessionLogPrefix half (n + 1) fs = Some st0" "4 \<le> T"
    "st = st0\<lparr>derived := Some \<lparr>max_total_log_size = T, num_rotations = 0\<rparr>\<rparr>"
    using assms(1) by (auto simp: CallSessionFileRotatingStream_def checked_simps half_def n_def split: if_splits)
  have mn: "0 < m" "2 \<le> n" "n + 1 \<le> 2 ^ 64" "0 < half"
    using rotating_sizes [OF st0(2)] assms(2) st0(2) by (simp_all add: m_def n_def half_def div_greater_zero_iff)
  note c = FileRotatingStream_spec [OF st0(1) mn(3)]
  have l: "layout_ok l" "num l = n + 1" "max_file_size st = first_size l" "session l = Some T" "keeps l"
    "next_size l = m" "first_size l = half"
    using c(5) mn st0(3) by (simp_all add: l_def layout_ok_def keeps_def m_def)
  have st: "named dir kCallSessionLogPrefix (n + 1) st" "out_file st = None" "current_file_index st = 0"
    "current_bytes_written st = 0" "rotation_index st = (n + 1) - 1"
    "derived st = map_option (\<lambda>T. \<lparr>max_total_log_size = T, num_rotations = 0\<rparr>) (session l)"
    using c st0(3) l(4) by (auto simp: named_def file_name_def)
  have p: "char_nul \<notin> set (dir @ kCallSessionLogPrefix)" "CHR ''/'' \<notin> set kCallSessionLogPrefix"
    using assms(4) by (simp_all add: kCallSessionLogPrefix_def char_nul_def)
  have "butlast (dir_path st) \<in> set (fs_folders fs)"
    using AddTrailing_spec(3) c(3) st(1) by (simp add: named_def)
  then obtain st1 fs1 where o: "Open st fs = Some (True, st1, fs1)" "writer_ok l [] [] st1 fs1"
    "named dir kCallSessionLogPrefix (num l) st1" "clean st1 fs1" "fs_folders fs1 = fs_folders fs"
    using Open_spec [OF assms(3) st(1) l(1,2,3) st(2-6) _ p] l(2) by auto
  have "on_disk l full cur = session_kept T D" if w: "writer_ok l full cur st' fs'" and D: "concat full @ cur = D" for full cur st' fs' D
  proof -
    define q where "q = length full"
    have q: "q = (if length D < half then 0 else 1 + (length D - half) div m)"
      using chunks(1) [OF w D] l by (simp add: q_def)
    have le: "n < q \<longleftrightarrow> \<not> length D < half + n * m"
      using q mn by (auto simp: less_Suc_eq_le less_eq_div_iff_mult_less_eq algebra_simps)
    show ?thesis
    proof (cases "n < q")
      case True
      have "on_disk l full cur = full ! 0 @ concat (drop (q - (n - 1)) full) @ cur"
        using True l by (simp add: on_disk_def Let_def q_def)
      moreover have "full ! 0 = take half D"
      proof -
        have "full \<noteq> []"
          using True by (auto simp: q_def)
        then show ?thesis
          using chunks(3) [OF w D] l(7) by simp
      qed
      moreover have "concat (drop (q - (n - 1)) full) @ cur = drop (half + ((length D - half) div m - (n - 1)) * m) D"
        using chunks(2) [OF w D, of "q - (n - 1)"] True l q mn by (auto simp: q_def split: if_splits)
      ultimately show ?thesis
        using True le by (simp add: session_kept_def Let_def half_def m_def n_def)
    next
      case False
      then have "on_disk l full cur = concat full @ cur"
        using l by (simp add: on_disk_def Let_def q_def)
      then show ?thesis
        using False le D by (simp add: session_kept_def Let_def half_def m_def n_def)
    qed
  qed
  then show ?thesis
    using o by blast
qed

lemma call_session_spec:
  assumes "CallSessionFileRotatingStream dir T fs = Some st" "T < 2 ^ 64" "reliable fs" "char_nul \<notin> set dir"
    and "\<forall>p \<in> set (fs_folders fs). \<not> matches (AddTrailingPathDelimiterIfNeeded dir) kCallSessionLogPrefix p"
  shows "log_and_read st ws dir kCallSessionLogPrefix len fs =
    Some (True, length (session_kept T (concat ws)), take len (session_kept T (concat ws)))"
proof -
  obtain l st1 fs1 where 1: "Open st fs = Some (True, st1, fs1)" "writer_ok l [] [] st1 fs1"
    "named dir kCallSessionLogPrefix (num l) st1" "clean st1 fs1" "fs_folders fs1 = fs_folders fs"
    and disk: "\<And>full cur st fs. writer_ok l full cur st fs \<Longrightarrow> on_disk l full cur = session_kept T (concat full @ cur)"
    using call_session_opened [OF assms] by blast
  have p: "kCallSessionLogPrefix \<noteq> []" "hd kCallSessionLogPrefix \<noteq> CHR ''.''" "CHR ''/'' \<notin> set kCallSessionLogPrefix"
    by (simp_all add: kCallSessionLogPrefix_def)
  obtain full cur st2 fs2 where "concat full @ cur = concat ws" "writer_ok l full cur st2 fs2"
    "log_and_read st ws dir kCallSessionLogPrefix len fs = Some (True, length (on_disk l full cur), take len (on_disk l full cur))"
    using written_and_read [OF 1 p assms(5), of ws len] by blast
  then show ?thesis
    using disk by simp
qed

text \<open>C25: A call session's log keeps the beginning and the end: after any writes the reader gives back the first
  half of the allowed size and the newest rotated files; while everything still fits, all that was written.\<close>
theorem call_session_keeps_both_ends:
  assumes "CallSessionFileRotatingStream dir max_total fs = Some st" "max_total < 2 ^ 64" "reliable fs" "char_nul \<notin> set dir"
    and "\<forall>p \<in> set (fs_folders fs). \<not> matches (AddTrailingPathDelimiterIfNeeded dir) kCallSessionLogPrefix p"
  shows "log_and_read st ws dir kCallSessionLogPrefix len fs =
    (let written = concat ws; half = max_total div 2; m = GetRotatingLogSize max_total;
         n = GetNumRotatingLogFiles max_total;
         kept = (if length written < half + n * m then written
                 else take half written @ drop (half + ((length written - half) div m - (n - 1)) * m) written)
     in Some (True, length kept, take len kept))"
  using call_session_spec [OF assms, of ws len] by (simp add: session_kept_def Let_def)

definition session_fs :: file_system where
  "session_fs = \<lparr>fs_files = [], fs_folders = [''/log''], answers = (\<lambda>_. None), calls = 0, kept_back = id\<rparr>"

definition session_stream :: rotating_stream where
  "session_stream = \<lparr>dir_path = ''/log/'', log_prefix = ''webrtc_log'', out_file = None,
     file_names = [''/log/webrtc_log_0'', ''/log/webrtc_log_1'', ''/log/webrtc_log_2''],
     max_file_size = 4, current_file_index = 0, rotation_index = 2, current_bytes_written = 0, disable_buffering = False,
     derived = Some \<lparr>max_total_log_size = 8, num_rotations = 0\<rparr>\<rparr>"

lemma session_stream_constructed: "CallSessionFileRotatingStream ''/log'' 8 session_fs = Some session_stream"
proof -
  have "[0..<3] = [0, 1, 2 :: nat]"
    by (simp add: upt_rec)
  then show ?thesis
    by (simp add: CallSessionFileRotatingStream_def FileRotatingStream_def session_fs_def session_stream_def IsFolder_def
        AddTrailingPathDelimiterIfNeeded_def GetFilePath_def zero_pad_def nat_string.simps Let_def digit_char_def
        char_of_def bit_0 GetNumRotatingLogFiles_def kRotatingLogFileDefaultSize_def kCallSessionLogPrefix_def)
qed

lemma session_fs_facts:
  "reliable session_fs"
  "\<forall>p \<in> set (fs_folders session_fs). \<not> matches (AddTrailingPathDelimiterIfNeeded ''/log'') kCallSessionLogPrefix p"
  by (simp_all add: session_fs_def reliable_def AddTrailingPathDelimiterIfNeeded_def matches_def in_directory_def)

theorem call_session_keeps_both_ends_witness:
  "log_and_read session_stream [''abcdef'', ''ghijklm''] ''/log'' ''webrtc_log'' 20 session_fs = Some (True, 7, ''abcdklm'')"
  using call_session_keeps_both_ends [OF session_stream_constructed _ session_fs_facts(1) _ session_fs_facts(2),
      of "[''abcdef'', ''ghijklm'']" 20]
  by (simp add: char_nul_def Let_def GetRotatingLogSize_def GetNumRotatingLogFiles_def kRotatingLogFileDefaultSize_def
      kCallSessionLogPrefix_def)

text \<open>Whatever is written to a call session's log, its files never hold more than the size it was given.\<close>
theorem call_session_log_bounded:
  assumes "CallSessionFileRotatingStream dir max_total fs = Some st" "max_total < 2 ^ 64" "reliable fs" "char_nul \<notin> set dir"
    and "\<forall>p \<in> set (fs_folders fs). \<not> matches (AddTrailingPathDelimiterIfNeeded dir) kCallSessionLogPrefix p"
  shows "\<exists>total text. log_and_read st ws dir kCallSessionLogPrefix len fs = Some (True, total, text) \<and> total \<le> max_total"
proof -
  define half m n where "half = max_total div 2" and "m = GetRotatingLogSize max_total"
    and "n = GetNumRotatingLogFiles max_total"
  have T: "4 \<le> max_total"
    using assms(1) by (auto simp: CallSessionFileRotatingStream_def checked_simps split: if_splits)
  have mn: "0 < m" "2 \<le> n" "n * m \<le> half"
    using rotating_sizes [OF T] by (simp_all add: m_def n_def half_def)
  have "length (session_kept max_total D) \<le> max_total" for D
  proof (cases "length D < half + n * m")
    case True
    then show ?thesis
      using mn(3) by (simp add: session_kept_def Let_def half_def m_def n_def)
  next
    case False
    define rest where "rest = length D - half"
    have "n \<le> rest div m"
      using False mn(1) by (simp add: less_eq_div_iff_mult_less_eq rest_def algebra_simps)
    then have "rest - (rest div m - (n - 1)) * m = rest - rest div m * m + (n - 1) * m"
      using mn(1) mult_le_mono1 [of "n - 1" "rest div m" m] div_times_less_eq_dividend [of rest m]
      by (simp add: diff_mult_distrib)
    also have "\<dots> < m + (n - 1) * m"
      using mn(1) by (simp add: minus_div_mult_eq_mod)
    also have "\<dots> = n * m"
      using mn(2) by (cases n) simp_all
    finally have "rest - (rest div m - (n - 1)) * m < n * m" .
    then have "length (session_kept max_total D) \<le> half + n * m"
      using False by (simp add: session_kept_def Let_def rest_def flip: half_def m_def n_def)
    then show ?thesis
      using mn(3) by (simp add: half_def)
  qed
  then show ?thesis
    using call_session_spec [OF assms, of ws len] by blast
qed

theorem call_session_log_bounded_witness:
  "\<exists>total text. log_and_read session_stream [''abcdef'', ''ghijklm''] ''/log'' ''webrtc_log'' 20 session_fs =
     Some (True, total, text) \<and> total \<le> 8"
  using call_session_log_bounded [OF session_stream_constructed _ session_fs_facts(1) _ session_fs_facts(2),
      of "[''abcdef'', ''ghijklm'']" 20]
  by (simp add: char_nul_def kCallSessionLogPrefix_def)

section \<open>When a call fails\<close>

text \<open>Writing goes on after a rotation that could not open the next file, on a null \<open>FILE*\<close>.\<close>

lemma Write_loop_unopened: "out_file st = None \<Longrightarrow> data \<noteq> [] \<Longrightarrow> Write_loop data st fs = None"
  by (subst Write_loop.simps) (simp add: fw_Write_def Let_def)

lemma OpenCurrentFile_fails:
  assumes "out_file st = None" "answers fs (calls fs) = Some k" "current_file_index st = 0" "0 < length (file_names st)"
    and "char_nul \<notin> set (file_names st ! 0)"
  shows "\<exists>fs'. OpenCurrentFile st fs = Some (False, st, fs')"
  using assms by (simp add: OpenCurrentFile_def CloseCurrentFile_def IsOpen_def fw_is_open_def OpenWriteOnly_def FileOpen_def
      sys_fopen_def next_answer_def fw_move_assign_def fw_Close_def Let_def)

text \<open>A write that fails half way leaves the count of written characters behind what the stream has taken.\<close>

lemma short_write_not_counted:
  assumes "out_file st = Some f" "answers fs (calls fs) = Some k" "k < length data" "data \<noteq> []"
    and "current_bytes_written st + length data \<le> max_file_size st"
  shows "\<exists>st' f' fs'. Write data st fs = Some (False, st', fs') \<and> current_bytes_written st' = current_bytes_written st \<and>
    out_file st' = Some f' \<and> pos f' = pos f + k"
proof -
  have lt: "current_bytes_written st < max_file_size st" "min (length data) (max_file_size st - current_bytes_written st) = length data"
  proof -
    have "0 < length data"
      using assms(4) by simp
    then show "current_bytes_written st < max_file_size st"
      "min (length data) (max_file_size st - current_bytes_written st) = length data"
      using assms(5) by linarith+
  qed
  show ?thesis
    using assms(1,2,3,4) lt
    by (simp add: Write_def IsOpen_def fw_is_open_def Write_loop.simps [of data] Let_def fw_Write_def sys_fwrite_def next_answer_def
        hand_over_def)
qed

end
