(* ===== verification/Log_Sinks.thy ===== *)
theory Log_Sinks
  imports Log_Registry Rotating_Files
begin

text \<open>
  \<open>rtc_base/log_sinks.cc\<close>: sinks that write to rotating files, and what their files hold after the
  program has logged: the log subsystem and the rotating files together.
\<close>

section \<open>The sinks\<close>

text \<open>A sink is its stream; the files are the file system's.\<close>

definition FileRotatingLogSink :: "string \<Rightarrow> string \<Rightarrow> nat \<Rightarrow> nat \<Rightarrow> file_system \<Rightarrow> rotating_stream checked" where
  "FileRotatingLogSink log_dir_path prefix max_log_size num_log_files fs =
     FileRotatingStream log_dir_path prefix max_log_size num_log_files fs"

definition CallSessionFileRotatingLogSink :: "string \<Rightarrow> nat \<Rightarrow> file_system \<Rightarrow> rotating_stream checked" where
  "CallSessionFileRotatingLogSink log_dir_path max_total fs = CallSessionFileRotatingStream log_dir_path max_total fs"

definition Init :: "rotating_stream \<Rightarrow> file_system \<Rightarrow> (bool \<times> rotating_stream \<times> file_system) checked" where
  "Init st fs = Open st fs"

definition sink_DisableBuffering :: "rotating_stream \<Rightarrow> bool \<times> rotating_stream" where
  "sink_DisableBuffering st = DisableBuffering st"

definition sink_OnLogMessage :: "string \<Rightarrow> rotating_stream \<Rightarrow> file_system \<Rightarrow> (rotating_stream \<times> file_system) checked" where
  "sink_OnLogMessage message st fs =
     (if \<not> IsOpen st then Some (st, fs)
      else do { (_, st, fs) \<leftarrow> Write message st fs; Some (st, fs) })"

definition sink_OnLogMessage_tag ::
  "string \<Rightarrow> string \<Rightarrow> rotating_stream \<Rightarrow> file_system \<Rightarrow> (rotating_stream \<times> file_system) checked" where
  "sink_OnLogMessage_tag message t st fs =
     (if \<not> IsOpen st then Some (st, fs)
      else do {
        (_, st, fs) \<leftarrow> Write t st fs;
        (_, st, fs) \<leftarrow> Write '': '' st fs;
        (_, st, fs) \<leftarrow> Write message st fs;
        Some (st, fs)
      })"

text \<open>\<open>LogSink::OnLogMessage(const LogLineRef&)\<close> of such a sink.\<close>

definition sink_OnLogLine :: "log_platform \<Rightarrow> LogLineRef \<Rightarrow> rotating_stream \<Rightarrow> file_system \<Rightarrow> (rotating_stream \<times> file_system) checked" where
  "sink_OnLogLine pf ln st fs = do {
     msg \<leftarrow> DefaultLogLine pf ln;
     if pf = Android then sink_OnLogMessage_tag msg (log_tag ln) st fs else sink_OnLogMessage msg st fs
   }"

text \<open>The world of the log: the streams of the sinks at their addresses, and the file system.\<close>

type_synonym sink_world = "((nat \<Rightarrow> rotating_stream option) \<times> file_system) option"

definition file_sinks :: "log_platform \<Rightarrow> nat \<Rightarrow> LogLineRef \<Rightarrow> sink_world \<Rightarrow> sink_world" where
  "file_sinks pf s ln w = do {
     (objects, fs) \<leftarrow> w;
     case objects s of
       None \<Rightarrow> Some (objects, fs)
     | Some st \<Rightarrow> do {
         (st, fs) \<leftarrow> sink_OnLogLine pf ln st fs;
         Some (objects(s := Some st), fs)
       }
   }"

section \<open>A program's log in its files\<close>

text \<open>A log statement: severity, file, line and the text of its arguments.\<close>

record statement =
  st_severity :: LoggingSeverity
  st_file :: string
  st_line :: int
  st_args :: "unit log_arg list"

fun log_statements ::
  "unit log_env \<Rightarrow> statement list \<Rightarrow> sink_world log_state \<Rightarrow> sink_world log_state checked" where
  "log_statements env [] st = Some st"
| "log_statements env (m # ms) st = do {
     st \<leftarrow> RTC_LOG_V (file_sinks (log_platform env)) env (st_severity m) (st_file m) (st_line m) (st_args m) st;
     log_statements env ms st
   }"

text \<open>The line of a statement, without time stamp and thread.\<close>

definition plain_line :: "unit log_env \<Rightarrow> statement \<Rightarrow> string" where
  "plain_line env m = ''('' @ FilenameFromPath (st_file m) @ '':'' @ int_string (st_line m) @ ''): '' @
     the (Log_args env (st_args m) []) @ ''\<newline>''"

definition statement_ok :: "unit log_env \<Rightarrow> statement \<Rightarrow> bool" where
  "statement_ok env m \<longleftrightarrow> 0 \<le> st_line m \<and> st_line m < 2 ^ 29 \<and> FilenameFromPath (st_file m) \<noteq> [] \<and>
     Log_args env (st_args m) [] \<noteq> None"

lemma plain_DefaultLogLine:
  assumes "statement_ok env m" "is_line ln (st_severity m) (st_file m) (st_line m) (the (Log_args env (st_args m) []))"
    and "timestamp ln = MinusInfinity" "thread_id ln = None"
  shows "DefaultLogLine Posix ln = Some (plain_line env m)"
  using assms int_ToString_ok [of "st_line m"] by (simp add: statement_ok_def is_line_def DefaultLogLine_def plain_line_def)

lemma log_statements_spec:
  assumes "log_platform env = Posix" "\<bar>thread_now env\<bar> < 2 ^ 63"
    and "log_rel st \<lparr>registered = [(s, v)], debug_level = d\<rparr>" "\<not> log_timestamp st" "\<not> log_thread st"
    and "\<forall>m \<in> set ms. statement_ok env m"
    and "world st = Some (objects, fs)" "objects s = Some rs" "writer_ok l full cur rs fs" "named dir prefix n rs" "clean rs fs"
  shows "\<exists>st' objects' rs' fs' full' cur'. log_statements env ms st = Some st' \<and> world st' = Some (objects', fs') \<and>
    objects' s = Some rs' \<and> writer_ok l full' cur' rs' fs' \<and> named dir prefix n rs' \<and> clean rs' fs' \<and>
    fs_folders fs' = fs_folders fs \<and> log_rel st' \<lparr>registered = [(s, v)], debug_level = d\<rparr> \<and>
    disable_buffering rs' = disable_buffering rs \<and>
    concat full' @ cur' = concat full @ cur @ concat (map (plain_line env) (filter (\<lambda>m. v \<le> st_severity m) ms))"
  using assms(3-)
proof (induction ms arbitrary: st objects fs rs full cur)
  case Nil
  then show ?case
    by (intro exI [of _ st] exI [of _ objects] exI [of _ rs] exI [of _ fs] exI [of _ full] exI [of _ cur]) simp
next
  case (Cons m ms)
  have env: "env_ok env st"
    using assms(2) Cons.prems(2) by (simp add: env_ok_def)
  have m: "statement_ok env m" "\<forall>m \<in> set ms. statement_ok env m"
    using Cons.prems(4) by simp_all
  have printed: "Log_args env (st_args m) [] = Some (the (Log_args env (st_args m) []))"
    using m(1) by (auto simp: statement_ok_def)
  have "\<exists>st1 objects1 rs1 fs1 full1 cur1.
      RTC_LOG_V (file_sinks Posix) env (st_severity m) (st_file m) (st_line m) (st_args m) st = Some st1 \<and>
      log_rel st1 \<lparr>registered = [(s, v)], debug_level = d\<rparr> \<and> \<not> log_timestamp st1 \<and> \<not> log_thread st1 \<and>
      world st1 = Some (objects1, fs1) \<and> objects1 s = Some rs1 \<and> writer_ok l full1 cur1 rs1 fs1 \<and>
      named dir prefix n rs1 \<and> clean rs1 fs1 \<and> fs_folders fs1 = fs_folders fs \<and> disable_buffering rs1 = disable_buffering rs \<and>
      concat full1 @ cur1 = concat full @ cur @ (if v \<le> st_severity m then plain_line env m else [])"
  proof (cases "IsNoop (st_severity m) st")
    case True
    then show ?thesis
      using IsNoop_nobody [OF Cons.prems(1) True] by simp
  next
    case False
    from RTC_LOG_spec [OF Cons.prems(1) env printed _ _ False, of "st_line m" "st_file m" "file_sinks Posix"] m(1)
    obtain ln out t where r: "is_line ln (st_severity m) (st_file m) (st_line m) (the (Log_args env (st_args m) []))"
      "RTC_LOG_V (file_sinks Posix) env (st_severity m) (st_file m) (st_line m) (st_args m) st =
        Some (st\<lparr>log_start := t, debug_out := debug_out st @ out, world := deliveries (file_sinks Posix) ln [(s, v)] (world st)\<rparr>)"
      "timestamp ln = MinusInfinity" "thread_id ln = None"
      using Cons.prems(2,3) unfolding statement_ok_def by auto
    have sev: "severity ln = st_severity m"
      using r(1) by (simp add: is_line_def)
    define st1 where "st1 = st\<lparr>log_start := t, debug_out := debug_out st @ out, world := deliveries (file_sinks Posix) ln [(s, v)] (world st)\<rparr>"
    have st1: "log_rel st1 \<lparr>registered = [(s, v)], debug_level = d\<rparr>" "\<not> log_timestamp st1" "\<not> log_thread st1"
      using Cons.prems(1-3) by (simp_all add: st1_def log_rel_def)
    show ?thesis
    proof (cases "v \<le> st_severity m")
      case False
      then have "world st1 = Some (objects, fs)"
        using Cons.prems(5) sev by (simp add: st1_def deliveries_def)
      then show ?thesis
        using False st1 r(2) Cons.prems(6-9) by (auto simp: st1_def)
    next
      case True
      obtain full1 cur1 rs1 fs1 where w: "Write_loop (plain_line env m) rs fs = Some (True, rs1, fs1)" "writer_ok l full1 cur1 rs1 fs1"
        "concat full1 @ cur1 = concat full @ cur @ plain_line env m" "same_names rs rs1" "frame (file_names rs) fs fs1"
        using Write_loop_spec [OF Cons.prems(7)] by blast
      have "sink_OnLogLine Posix ln rs fs = Some (rs1, fs1)"
        using w(1) plain_DefaultLogLine [OF m(1) r(1,3,4)] writer_ok_open [OF Cons.prems(7)]
        by (simp add: sink_OnLogLine_def sink_OnLogMessage_def Write_def)
      then have "world st1 = Some (objects(s := Some rs1), fs1)"
        using Cons.prems(5,6) sev True by (simp add: st1_def deliveries_def file_sinks_def)
      moreover have "named dir prefix n rs1" "clean rs1 fs1" "fs_folders fs1 = fs_folders fs"
        using named_step [OF Cons.prems(8) w(4)] clean_step [OF Cons.prems(9) w(4,5)] w(5) by (simp_all add: frame_def)
      ultimately show ?thesis
        using True st1 r(2) w(2-4)
        by (intro exI [of _ st1] exI [of _ "objects(s := Some rs1)"] exI [of _ rs1] exI [of _ fs1] exI [of _ full1] exI [of _ cur1])
          (simp add: st1_def same_names_def)
    qed
  qed
  then obtain st1 objects1 rs1 fs1 full1 cur1 where st1:
    "RTC_LOG_V (file_sinks Posix) env (st_severity m) (st_file m) (st_line m) (st_args m) st = Some st1"
    "log_rel st1 \<lparr>registered = [(s, v)], debug_level = d\<rparr>" "\<not> log_timestamp st1" "\<not> log_thread st1"
    "world st1 = Some (objects1, fs1)" "objects1 s = Some rs1" "writer_ok l full1 cur1 rs1 fs1"
    "named dir prefix n rs1" "clean rs1 fs1" "fs_folders fs1 = fs_folders fs" "disable_buffering rs1 = disable_buffering rs"
    "concat full1 @ cur1 = concat full @ cur @ (if v \<le> st_severity m then plain_line env m else [])"
    by blast
  obtain st' objects' rs' fs' full' cur' where st': "log_statements env ms st1 = Some st'" "world st' = Some (objects', fs')"
    "objects' s = Some rs'" "writer_ok l full' cur' rs' fs'" "named dir prefix n rs'" "clean rs' fs'"
    "fs_folders fs' = fs_folders fs1" "log_rel st' \<lparr>registered = [(s, v)], debug_level = d\<rparr>"
    "disable_buffering rs' = disable_buffering rs1"
    "concat full' @ cur' = concat full1 @ cur1 @ concat (map (plain_line env) (filter (\<lambda>m. v \<le> st_severity m) ms))"
    using Cons.IH [OF st1(2-4) m(2) st1(5-9)] by blast
  have "log_statements env (m # ms) st = Some st'"
    using st1(1) st'(1) assms(1) by simp
  moreover have "concat full' @ cur' = concat full @ cur @ concat (map (plain_line env) (filter (\<lambda>m. v \<le> st_severity m) (m # ms)))"
  proof -
    have "concat full' @ cur' = (concat full1 @ cur1) @ concat (map (plain_line env) (filter (\<lambda>m. v \<le> st_severity m) ms))"
      using st'(10) by simp
    then show ?thesis
      unfolding st1(12) by simp
  qed
  ultimately show ?case
    using st' st1(10,11) by (metis (no_types))
qed


text \<open>The log subsystem with one sink that writes call session files.\<close>

definition logging_to_files ::
  "bool \<Rightarrow> nat \<Rightarrow> LoggingSeverity \<Rightarrow> rotating_stream \<Rightarrow> file_system \<Rightarrow> sink_world log_state checked" where
  "logging_to_files unbuffered s v rs fs = do {
     let rs = (if unbuffered then snd (sink_DisableBuffering rs) else rs);
     (ok, rs, fs) \<leftarrow> Init rs fs;
     rtc_check ok;
     AddLogToStream s v (initial_log True (\<lambda>_. \<lparr>next_sink = None, min_severity = LS_NONE\<rparr>) (Some ([s \<mapsto> rs], fs)))
   }"

text \<open>The sink is removed from the log and destroyed, which closes its file.\<close>

definition delete_sink :: "nat \<Rightarrow> sink_world log_state \<Rightarrow> sink_world log_state checked" where
  "delete_sink s st = do {
     st \<leftarrow> RemoveLogToStream s st;
     (objects, fs) \<leftarrow> world st;
     rs \<leftarrow> objects s;
     let (_, fs) = Close rs fs;
     Some (st\<lparr>world := Some (objects(s := None), fs)\<rparr>)
   }"

definition read_log :: "string \<Rightarrow> nat \<Rightarrow> sink_world log_state \<Rightarrow> string checked" where
  "read_log dir len st = do {
     (_, fs) \<leftarrow> world st;
     (names, fs) \<leftarrow> CallSessionFileRotatingStreamReader dir fs;
     (text, _) \<leftarrow> ReadAll names len fs;
     Some text
   }"

lemma Open_buffering:
  assumes "Open st fs = Some (True, st', fs')"
  shows "Open (st\<lparr>disable_buffering := b\<rparr>) fs = Some (True, st'\<lparr>disable_buffering := b\<rparr>, fs')"
proof -
  have close: "CloseCurrentFile (st\<lparr>disable_buffering := b\<rparr>) fs =
      (let (st, fs) = CloseCurrentFile st fs in (st\<lparr>disable_buffering := b\<rparr>, fs))" for st fs
    by (simp add: CloseCurrentFile_def IsOpen_def Let_def split: prod.splits)
  have swap: "x\<lparr>disable_buffering := b, out_file := w\<rparr> = x\<lparr>out_file := w, disable_buffering := b\<rparr>" for x :: rotating_stream and w
    by simp
  have "OpenCurrentFile (st\<lparr>disable_buffering := b\<rparr>) fs =
      map_option (\<lambda>(ok, st, fs). (ok, st\<lparr>disable_buffering := b\<rparr>, fs)) (OpenCurrentFile st fs)" for fs
  proof -
    obtain x fs1 where x: "CloseCurrentFile st fs = (x, fs1)"
      by force
    show ?thesis
      unfolding OpenCurrentFile_def close x
      by (cases "OpenWriteOnly (file_names x ! current_file_index x) fs1")
        (auto simp: IsOpen_def Let_def checked_simps swap split: prod.splits)
  qed
  then show ?thesis
    using assms by (auto simp: Open_def checked_simps)
qed

lemma unbuffered_ok:
  "writer_ok l [] [] st fs \<Longrightarrow> writer_ok l [] [] (st\<lparr>disable_buffering := b\<rparr>) fs"
  "named dir prefix n (st\<lparr>disable_buffering := b\<rparr>) = named dir prefix n st" "clean (st\<lparr>disable_buffering := b\<rparr>) fs = clean st fs"
  by (auto simp: writer_ok_def open_ok_def stream_ok_def named_def file_name_def clean_def)

text \<open>C23: Log statements end up in the files: with a call session sink added at some severity, the files read back,
  once the sink is deleted, or at any time when its buffering is disabled, as the lines of exactly the
  statements at or above that severity, in the order the program made them, whole as long as they fit and
  otherwise with the first half and the newest part of them, however much the C library buffers.\<close>
theorem log_statements_reach_the_files:
  assumes "CallSessionFileRotatingLogSink dir max_total fs = Some rs" "max_total < 2 ^ 64" "reliable fs" "char_nul \<notin> set dir"
    and "\<forall>p \<in> set (fs_folders fs). \<not> matches (AddTrailingPathDelimiterIfNeeded dir) kCallSessionLogPrefix p"
    and "log_platform env = Posix" "\<bar>thread_now env\<bar> < 2 ^ 63" "\<forall>m \<in> set ms. statement_ok env m"
  shows "do {
       st \<leftarrow> logging_to_files unbuffered s v rs fs;
       st \<leftarrow> log_statements env ms st;
       st \<leftarrow> (if unbuffered then Some st else delete_sink s st);
       read_log dir len st
     } = Some (take len (session_kept max_total (concat (map (plain_line env) (filter (\<lambda>m. v \<le> st_severity m) ms)))))"
proof -
  note spec = call_session_opened [OF assms(1) [unfolded CallSessionFileRotatingLogSink_def] assms(2-5)]
  obtain l rs0 fs1 where o: "Open rs fs = Some (True, rs0, fs1)" "writer_ok l [] [] rs0 fs1"
    "named dir kCallSessionLogPrefix (num l) rs0" "clean rs0 fs1" "fs_folders fs1 = fs_folders fs"
    and disk: "\<And>full cur st fs. writer_ok l full cur st fs \<Longrightarrow> on_disk l full cur = session_kept max_total (concat full @ cur)"
    using spec by blast
  define rs1 where "rs1 = (if unbuffered then rs0\<lparr>disable_buffering := True\<rparr> else rs0)"
  have rs1: "Init (if unbuffered then snd (sink_DisableBuffering rs) else rs) fs = Some (True, rs1, fs1)"
    "writer_ok l [] [] rs1 fs1" "named dir kCallSessionLogPrefix (num l) rs1" "clean rs1 fs1" "unbuffered \<Longrightarrow> disable_buffering rs1"
    using o Open_buffering [OF o(1)] unbuffered_ok
    by (simp_all add: rs1_def Init_def sink_DisableBuffering_def DisableBuffering_def)
  define st0 :: "sink_world log_state" where
    "st0 = initial_log True (\<lambda>_. \<lparr>next_sink = None, min_severity = LS_NONE\<rparr>) (Some ([s \<mapsto> rs1], fs1))"
  obtain st1 where st1: "run_log_calls [Add_sink s v] st0 = Some st1"
    "log_rel st1 \<lparr>registered = [(s, v)], debug_level = LS_NONE\<rparr>" "outside st0 st1"
    using run_log_calls_refine [OF initial_log_rel, of "[Add_sink s v]" True "\<lambda>_. \<lparr>next_sink = None, min_severity = LS_NONE\<rparr>"
        "Some ([s \<mapsto> rs1], fs1)"]
    by (auto simp: st0_def kDefaultLoggingSeverity_def)
  have off: "\<not> log_timestamp st1" "\<not> log_thread st1"
    using st1(1) by (auto simp: st0_def AddLogToStream_def UpdateMinLogSeverity_def initial_log_def Let_def checked_simps)
  have w1: "world st1 = Some ([s \<mapsto> rs1], fs1)"
    using st1(3) by (simp add: outside_def st0_def initial_log_def)
  obtain st' objects' rs' fs' full cur where st': "log_statements env ms st1 = Some st'" "world st' = Some (objects', fs')"
    "objects' s = Some rs'" "writer_ok l full cur rs' fs'" "named dir kCallSessionLogPrefix (num l) rs'" "clean rs' fs'"
    "fs_folders fs' = fs_folders fs1" "log_rel st' \<lparr>registered = [(s, v)], debug_level = LS_NONE\<rparr>"
    "disable_buffering rs' = disable_buffering rs1"
    "concat full @ cur = concat (map (plain_line env) (filter (\<lambda>m. v \<le> st_severity m) ms))"
    using log_statements_spec [OF assms(6,7) st1(2) off assms(8) w1 _ rs1(2,3,4)] by auto
  have p: "kCallSessionLogPrefix \<noteq> []" "hd kCallSessionLogPrefix \<noteq> CHR ''.''" "CHR ''/'' \<notin> set kCallSessionLogPrefix"
    by (simp_all add: kCallSessionLogPrefix_def)
  have read: "read_log dir len t = Some (take len (on_disk l full cur))"
    if t: "world t = Some (x, fs2)" "stored_ok l full cur rs' fs2" "clean rs' fs2" "fs_folders fs2 = fs_folders fs'" for t x fs2
  proof -
    have "\<forall>p \<in> set (fs_folders fs2). \<not> matches (dir_path rs') kCallSessionLogPrefix p"
      using assms(5) st'(5,7) o(5) t(4) by (simp add: named_def)
    from read_back [OF t(2) st'(5) t(3) refl p this, of len] show ?thesis
      using t(1) by (auto simp: read_log_def CallSessionFileRotatingStreamReader_def)
  qed
  have "\<exists>st''. (if unbuffered then Some st' else delete_sink s st') = Some st'' \<and>
      read_log dir len st'' = Some (take len (on_disk l full cur))"
  proof (cases unbuffered)
    case True
    then show ?thesis
      using read [OF st'(2) writer_ok_stored [OF st'(4)] st'(6) refl] st'(9) rs1(5) by simp
  next
    case False
    obtain st2 where st2: "RemoveLogToStream s st' = Some st2" "world st2 = world st'"
      using run_log_call_refines [OF st'(8), of "Remove_sink s"] by (auto simp: outside_def)
    obtain fs2 where fs2: "Close rs' fs' = (rs'\<lparr>current_bytes_written := 0, out_file := None\<rparr>, fs2)"
      "stored_ok l full cur rs' fs2" "clean rs' fs2" "fs_folders fs2 = fs_folders fs'"
      using Close_spec [OF st'(4,6)] by blast
    define st3 where "st3 = st2\<lparr>world := Some (objects'(s := None), fs2)\<rparr>"
    have "delete_sink s st' = Some st3"
      using st2 st'(2,3) fs2(1) by (simp add: delete_sink_def st3_def)
    moreover have "read_log dir len st3 = Some (take len (on_disk l full cur))"
      by (rule read [OF _ fs2(2-4)]) (simp add: st3_def)
    ultimately show ?thesis
      using False by simp
  qed
  then obtain st'' where st'': "(if unbuffered then Some st' else delete_sink s st') = Some st''"
    "read_log dir len st'' = Some (take len (on_disk l full cur))"
    by blast
  moreover have "logging_to_files unbuffered s v rs fs = Some st1"
  proof -
    have "AddLogToStream s v st0 = Some st1"
      using st1(1) by (auto simp: checked_simps)
    then show ?thesis
      using rs1(1) by (simp add: logging_to_files_def Let_def st0_def)
  qed
  ultimately show ?thesis
    using st'(1,10) disk [OF st'(4)] by simp
qed

theorem log_statements_reach_the_files_witness:
  "\<exists>env. do { st \<leftarrow> logging_to_files False 9 LS_INFO session_stream session_fs;
      st \<leftarrow> log_statements env [\<lparr>st_severity = LS_VERBOSE, st_file = ''a'', st_line = 1, st_args = []\<rparr>,
        \<lparr>st_severity = LS_ERROR, st_file = ''a'', st_line = 2, st_args = [kStdString ''xyz'']\<rparr>] st;
      st \<leftarrow> delete_sink 9 st; read_log ''/log'' 99 st } = Some ''(a:2yz\<newline>''"
proof -
  define env where "env = \<lparr>log_platform = Posix, time_first = 0, time_now = 0, thread_now = 0, strerror = (\<lambda>_. []),
    format_message = (\<lambda>_. []), double_text = (\<lambda>_ :: unit. ''2.5'')\<rparr>"
  define ms where "ms = [\<lparr>st_severity = LS_VERBOSE, st_file = ''a'', st_line = 1, st_args = []\<rparr>,
        \<lparr>st_severity = LS_ERROR, st_file = ''a'', st_line = 2, st_args = [kStdString ''xyz'']\<rparr>]"
  have f: "FilenameFromPath ''a'' = ''a''"
    by (rule FilenameFromPath_spec(1)) simp_all
  have ok: "\<forall>m \<in> set ms. statement_ok env m"
    by (simp add: ms_def statement_ok_def f env_def StringBuilder_append_def)
  have lines: "concat (map (plain_line env) (filter (\<lambda>m. LS_INFO \<le> st_severity m) ms)) = ''(a:2): xyz\<newline>''"
    by (simp add: ms_def plain_line_def less_eq_LoggingSeverity_def f env_def StringBuilder_append_def int_string_def
        nat_string_small digit_char_def char_of_def bit_0)
  have "do { st \<leftarrow> logging_to_files False 9 LS_INFO session_stream session_fs; st \<leftarrow> log_statements env ms st; st \<leftarrow> delete_sink 9 st; read_log ''/log'' 99 st } =
      Some (take 99 (session_kept 8 ''(a:2): xyz\<newline>''))"
    using log_statements_reach_the_files [OF session_stream_constructed [folded CallSessionFileRotatingLogSink_def] _ session_fs_facts(1) _
        session_fs_facts(2), of env ms False 9 LS_INFO 99] ok lines
    by (simp add: char_nul_def env_def)
  also have "take 99 (session_kept 8 ''(a:2): xyz\<newline>'') = ''(a:2yz\<newline>''"
    by (simp add: session_kept_def Let_def GetRotatingLogSize_def GetNumRotatingLogFiles_def kRotatingLogFileDefaultSize_def)
  finally show ?thesis
    by (auto simp: ms_def)
qed

end
