(* ===== verification/Task_Queue_Libevent.thy ===== *)
theory Task_Queue_Libevent
  imports Units Safe_Numerics Task_Queue_Interface
begin

text \<open>
  \<open>rtc_base/task_queue_libevent.cc\<close>: the task queue over libevent.  Other threads put tasks into
  \<open>pending_\<close> under a lock and wake the loop with a byte in a pipe; delayed tasks are timers of the
  event base, which only the queue's own thread adds.

  libevent and the pipe are outside: a timer becomes active once its time since it was added has
  passed (\<open>timer_active\<close>), the read event is active while the pipe holds a byte, and the loop calls
  one callback at a time.  The steps of the threads are those of \<open>le_step\<close>; within a step the code
  holds the lock or touches only what its thread owns.
\<close>

section \<open>The queue\<close>

datatype wake_message = kQuit | kRunTasks

text \<open>A task in \<open>pending_\<close>: one that was posted, or the closure that schedules a delayed one.\<close>

datatype 'a pending_task = Plain 'a | Schedule int TimeDelta 'a

record 'a timer_event =
  ev_id :: nat
  ev_added :: int
  ev_tv :: "int \<times> int"
  ev_task :: 'a

record 'a libevent =
  is_active :: bool
  wakeup_pipe :: "wake_message list"
  pending :: "'a pending_task list"
  pending_timers :: "'a timer_event list"
  next_timer :: nat
  wakeup_registered :: bool

definition TaskQueueLibevent :: "'a libevent" where
  "TaskQueueLibevent = \<lparr>is_active = True, wakeup_pipe = [], pending = [], pending_timers = [], next_timer = 0,
     wakeup_registered = True\<rparr>"

text \<open>\<open>PostTask\<close>: under the lock, then the write, which only the first of several tasks makes.\<close>

definition PostTask_push :: "'a pending_task \<Rightarrow> 'a libevent \<Rightarrow> bool \<times> 'a libevent" where
  "PostTask_push task q =
     (let had_pending_tasks = (pending q \<noteq> []) in (\<not> had_pending_tasks, q\<lparr>pending := pending q @ [task]\<rparr>))"

definition PostTask_write :: "'a libevent \<Rightarrow> 'a libevent" where
  "PostTask_write q = q\<lparr>wakeup_pipe := wakeup_pipe q @ [kRunTasks]\<rparr>"

definition Libevent_PostTask :: "'a pending_task \<Rightarrow> 'a libevent \<Rightarrow> 'a libevent" where
  "Libevent_PostTask task q = (let (wake, q) = PostTask_push task q in if wake then PostTask_write q else q)"

definition timeval_of :: "TimeDelta \<Rightarrow> (int \<times> int) checked" where
  "timeval_of delay = do {
     us \<leftarrow> td_us delay;
     s \<leftarrow> i64_div us 1000000;
     sec \<leftarrow> dchecked_cast int32_t int64_t s;
     u \<leftarrow> i64_mod us 1000000;
     usec \<leftarrow> dchecked_cast int32_t int64_t u;
     Some (sec, usec)
   }"

definition PostDelayedTaskOnTaskQueue :: "int \<Rightarrow> 'a \<Rightarrow> TimeDelta \<Rightarrow> 'a libevent \<Rightarrow> 'a libevent checked" where
  "PostDelayedTaskOnTaskQueue t task delay q = do {
     tv \<leftarrow> timeval_of delay;
     let timer = \<lparr>ev_id = next_timer q, ev_added = t, ev_tv = tv, ev_task = task\<rparr>;
     Some (q\<lparr>pending_timers := pending_timers q @ [timer], next_timer := next_timer q + 1\<rparr>)
   }"

text \<open>The body of the closure that \<open>PostDelayedTask\<close> posts.\<close>

definition run_schedule :: "int \<Rightarrow> int \<Rightarrow> TimeDelta \<Rightarrow> 'a \<Rightarrow> 'a libevent \<Rightarrow> 'a libevent checked" where
  "run_schedule t posted_us delay task q = do {
     elapsed \<leftarrow> i64_sub t posted_us;
     post_time \<leftarrow> TimeDelta_Micros elapsed;
     rest \<leftarrow> unit_sub False delay post_time;
     PostDelayedTaskOnTaskQueue t task (max rest Zero) q
   }"

definition Libevent_PostDelayedTask :: "bool \<Rightarrow> int \<Rightarrow> 'a \<Rightarrow> TimeDelta \<Rightarrow> 'a libevent \<Rightarrow> 'a libevent checked" where
  "Libevent_PostDelayedTask is_current t task delay q =
     (if is_current then PostDelayedTaskOnTaskQueue t task delay q
      else Some (Libevent_PostTask (Schedule t delay task) q))"

definition Libevent_PostDelayedHighPrecisionTask :: "bool \<Rightarrow> int \<Rightarrow> 'a \<Rightarrow> TimeDelta \<Rightarrow> 'a libevent \<Rightarrow> 'a libevent checked" where
  "Libevent_PostDelayedHighPrecisionTask is_current t task delay q = Libevent_PostDelayedTask is_current t task delay q"

text \<open>\<open>Delete\<close> up to the join of the thread, and what it does afterwards.\<close>

definition Delete_write :: "'a libevent \<Rightarrow> 'a libevent" where
  "Delete_write q = q\<lparr>wakeup_pipe := wakeup_pipe q @ [kQuit]\<rparr>"

definition Delete_cleanup :: "'a libevent \<Rightarrow> 'a libevent" where
  "Delete_cleanup q = q\<lparr>wakeup_registered := False, wakeup_pipe := []\<rparr>"

text \<open>\<open>OnWakeup\<close>: it reads a byte; \<open>kQuit\<close> ends the loop, \<open>kRunTasks\<close> takes the pending tasks.\<close>

definition OnWakeup_read :: "'a libevent \<Rightarrow> (wake_message \<times> 'a libevent) checked" where
  "OnWakeup_read q = (case wakeup_pipe q of [] \<Rightarrow> None | buf # rest \<Rightarrow> Some (buf, q\<lparr>wakeup_pipe := rest\<rparr>))"

definition OnWakeup_quit :: "'a libevent \<Rightarrow> 'a libevent" where
  "OnWakeup_quit q = q\<lparr>is_active := False\<rparr>"

definition OnWakeup_swap :: "'a libevent \<Rightarrow> ('a pending_task list \<times> 'a libevent) checked" where
  "OnWakeup_swap q = do {
     let tasks = pending q;
     rtc_check (tasks \<noteq> []);
     Some (tasks, q\<lparr>pending := []\<rparr>)
   }"

definition RunTimer_end :: "'a timer_event \<Rightarrow> 'a libevent \<Rightarrow> 'a libevent" where
  "RunTimer_end timer q = q\<lparr>pending_timers := filter (\<lambda>e. ev_id e \<noteq> ev_id timer) (pending_timers q)\<rparr>"

definition thread_cleanup :: "'a libevent \<Rightarrow> 'a libevent" where
  "thread_cleanup q = q\<lparr>pending_timers := []\<rparr>"

text \<open>libevent: when a timer may be called, which is an assumption about the library.  \<open>event_add\<close> documents
  that the time-out counts from the call; a library that counts from the time it cached at the start of the
  iteration of its loop (without \<open>EVENT_BASE_FLAG_NO_CACHE_TIME\<close>) may call a timer earlier by the age of that
  time.\<close>

definition timer_due :: "'a timer_event \<Rightarrow> int" where
  "timer_due e = ev_added e + fst (ev_tv e) * 1000000 + snd (ev_tv e)"

definition timer_active :: "int \<Rightarrow> 'a timer_event \<Rightarrow> bool" where
  "timer_active t e \<longleftrightarrow> timer_due e \<le> t"

section \<open>The threads\<close>

text \<open>Where the queue's thread is.\<close>

datatype 'a loop_phase =
    Looping
  | Have_byte wake_message
  | Batch "'a pending_task list"
  | In_timer "'a timer_event"
  | Left_loop
  | Joined

text \<open>Tasks are labelled with the time before which they must not run, which the queue does not see.
  \<open>unwritten\<close> counts the threads between the lock and the write of \<open>PostTask\<close>; \<open>ran\<close> and the two
  fields after it record what happened.\<close>

type_synonym 'a labelled = "int \<times> 'a"

record 'a le_sys =
  queue :: "'a labelled libevent"
  clock :: int
  phase :: "'a labelled loop_phase"
  unwritten :: nat
  deleting :: bool
  ran :: "'a labelled executed list"
  posted_plain :: "'a labelled list"
  posted_later :: "'a labelled multiset"

definition le_init :: "int \<Rightarrow> 'a le_sys" where
  "le_init start = \<lparr>queue = TaskQueueLibevent, clock = start, phase = Looping, unwritten = 0, deleting = False,
     ran = [], posted_plain = [], posted_later = {#}\<rparr>"

definition on_queue_thread :: "'a le_sys \<Rightarrow> bool" where
  "on_queue_thread s \<longleftrightarrow> (\<exists>ts. phase s = Batch ts) \<or> (\<exists>e. phase s = In_timer e)"

definition count_wake :: "bool \<Rightarrow> nat \<Rightarrow> nat" where
  "count_wake wake n = (if wake then n + 1 else n)"

inductive le_step :: "'a le_sys \<Rightarrow> 'a le_sys \<Rightarrow> bool" where
  st_tick: "clock s \<le> t \<Longrightarrow> le_step s (s\<lparr>clock := t\<rparr>)"
| st_post: "phase s \<noteq> Joined \<Longrightarrow> PostTask_push (Plain a) (queue s) = (wake, q) \<Longrightarrow>
    le_step s (s\<lparr>queue := q, unwritten := count_wake wake (unwritten s), posted_plain := posted_plain s @ [a]\<rparr>)"
| st_post_later: "phase s \<noteq> Joined \<Longrightarrow> PostTask_push (Schedule (clock s) delay a) (queue s) = (wake, q) \<Longrightarrow>
    fst a \<le> clock s + unit_value delay \<Longrightarrow>
    le_step s (s\<lparr>queue := q, unwritten := count_wake wake (unwritten s), posted_later := add_mset a (posted_later s)\<rparr>)"
| st_post_later_here: "on_queue_thread s \<Longrightarrow> PostDelayedTaskOnTaskQueue (clock s) a delay (queue s) = Some q \<Longrightarrow>
    fst a \<le> clock s + unit_value delay \<Longrightarrow>
    le_step s (s\<lparr>queue := q, posted_later := add_mset a (posted_later s)\<rparr>)"
| st_write: "phase s \<noteq> Joined \<Longrightarrow> unwritten s = Suc n \<Longrightarrow> le_step s (s\<lparr>queue := PostTask_write (queue s), unwritten := n\<rparr>)"
| st_delete: "\<not> deleting s \<Longrightarrow> le_step s (s\<lparr>queue := Delete_write (queue s), deleting := True\<rparr>)"
| st_wakeup: "phase s = Looping \<Longrightarrow> OnWakeup_read (queue s) = Some (m, q) \<Longrightarrow>
    le_step s (s\<lparr>queue := q, phase := Have_byte m\<rparr>)"
| st_wakeup_quit: "phase s = Have_byte kQuit \<Longrightarrow> le_step s (s\<lparr>queue := OnWakeup_quit (queue s), phase := Left_loop\<rparr>)"
| st_wakeup_run: "phase s = Have_byte kRunTasks \<Longrightarrow> OnWakeup_swap (queue s) = Some (ts, q) \<Longrightarrow>
    le_step s (s\<lparr>queue := q, phase := Batch ts\<rparr>)"
| st_run_plain: "phase s = Batch (Plain a # ts) \<Longrightarrow>
    le_step s (s\<lparr>phase := Batch ts, ran := ran s @ [Ran_immediate a]\<rparr>)"
| st_run_later: "phase s = Batch (Schedule p delay a # ts) \<Longrightarrow> run_schedule (clock s) p delay a (queue s) = Some q \<Longrightarrow>
    le_step s (s\<lparr>queue := q, phase := Batch ts\<rparr>)"
| st_batch_end: "phase s = Batch [] \<Longrightarrow> le_step s (s\<lparr>phase := Looping\<rparr>)"
| st_timer: "phase s = Looping \<Longrightarrow> e \<in> set (pending_timers (queue s)) \<Longrightarrow> timer_active (clock s) e \<Longrightarrow>
    le_step s (s\<lparr>phase := In_timer e, ran := ran s @ [Ran_delayed (fst (ev_task e)) (clock s) (ev_task e)]\<rparr>)"
| st_timer_end: "phase s = In_timer e \<Longrightarrow> le_step s (s\<lparr>queue := RunTimer_end e (queue s), phase := Looping\<rparr>)"
| st_join: "phase s = Left_loop \<Longrightarrow> le_step s (s\<lparr>queue := Delete_cleanup (thread_cleanup (queue s)), phase := Joined\<rparr>)"

inductive le_reachable :: "int \<Rightarrow> 'a le_sys \<Rightarrow> bool" for start where
  le_start: "le_reachable start (le_init start)"
| le_more: "le_reachable start s \<Longrightarrow> le_step s s' \<Longrightarrow> le_reachable start s'"

inductive_cases le_stepE: "le_step s s'"

section \<open>Waking the loop\<close>

definition wakes :: "'a le_sys \<Rightarrow> nat" where
  "wakes s = count_list (wakeup_pipe (queue s)) kRunTasks + unwritten s + (if phase s = Have_byte kRunTasks then 1 else 0)"

definition wake_inv :: "'a le_sys \<Rightarrow> bool" where
  "wake_inv s \<longleftrightarrow> (phase s \<noteq> Joined \<longrightarrow> wakes s = (if pending (queue s) = [] then 0 else 1))
     \<and> (phase s = Joined \<longrightarrow> wakeup_pipe (queue s) = [])
     \<and> count_list (wakeup_pipe (queue s)) kQuit \<le> (if deleting s then 1 else 0)
     \<and> (phase s \<in> {Have_byte kQuit, Left_loop, Joined} \<longrightarrow> deleting s)"

lemmas le_ops = PostTask_push_def PostTask_write_def Delete_write_def OnWakeup_read_def OnWakeup_quit_def OnWakeup_swap_def
  RunTimer_end_def thread_cleanup_def Delete_cleanup_def PostDelayedTaskOnTaskQueue_def run_schedule_def count_wake_def

lemma wake_inv_step: "le_step s s' \<Longrightarrow> wake_inv s \<Longrightarrow> wake_inv s'"
  by (erule le_step.cases) (auto simp: wake_inv_def wakes_def le_ops on_queue_thread_def checked_simps Let_def split: list.splits if_splits)

lemma wake_inv_reachable: "le_reachable start s \<Longrightarrow> wake_inv s"
proof (induction rule: le_reachable.induct)
  case le_start
  then show ?case
    by (simp add: wake_inv_def wakes_def le_init_def TaskQueueLibevent_def)
qed (rule wake_inv_step)


lemma dchecked_cast_i32:
  assumes "dchecked_cast int32_t int64_t x = Some y" "in_i64 x"
  shows "y = x"
proof -
  have range: "in_type int64_t x"
    using assms(2) by (simp add: int_ranges)
  have "RangeCheck int32_t int64_t x = TYPE_VALID"
    using assms(1) by (simp add: dchecked_cast_def IsValueInRangeForNumericType_def checked_simps split: if_splits)
  then have "-2147483648 \<le> x" "x \<le> 2147483647"
    using RangeCheck_spec [OF _ _ range, of int32_t]
    by (simp_all add: std_type_def ty_lowest_def ty_max_def split: if_splits)
  then show ?thesis
    using assms(1) by (simp add: dchecked_cast_def checked_simps split: if_splits)
qed

lemma timeval_of_value:
  assumes "timeval_of delay = Some (sec, usec)"
  shows "sec * 1000000 + usec = unit_value delay"
proof -
  let ?v = "unit_value delay"
  have in_s: "in_i64 (?v sdiv 1000000)"
    and sec: "dchecked_cast int32_t int64_t (?v sdiv 1000000) = Some sec"
    and usec: "dchecked_cast int32_t int64_t (?v smod 1000000) = Some usec"
    using assms by (auto simp: timeval_of_def td_us_def ToValue_def i64_div_def i64_mod_def checked_simps split: if_splits)
  have "in_i64 (?v smod 1000000)"
    using pos_mod_bound [of 1000000 ?v] pos_mod_sign [of 1000000 ?v]
      pos_mod_bound [of 1000000 "- ?v"] pos_mod_sign [of 1000000 "- ?v"]
    by (auto simp: smod_pos_cases int_ranges)
  then show ?thesis
    using dchecked_cast_i32 [OF sec in_s] dchecked_cast_i32 [OF usec] sdiv_mult_smod_eq [of ?v 1000000] by simp
qed

lemma rest_of_delay:
  assumes "unit_sub False delay post_time = Some rest" "IsFinite post_time" "IsFinite (max rest Zero)"
    "i64_min \<le> unit_value post_time"
  shows "0 \<le> unit_value (max rest Zero)" "unit_value delay - unit_value post_time \<le> unit_value (max rest Zero)"
proof -
  show nonneg: "0 \<le> unit_value (max rest Zero)"
    by (simp add: max_def Zero_def less_eq_unit_base_def unit_le_def)
  consider "IsPlusInfinity delay" | "IsMinusInfinity delay" | "IsFinite delay"
    by (auto simp: IsFinite_def IsInfinite_def IsPlusInfinity_def IsMinusInfinity_def)
  then show "unit_value delay - unit_value post_time \<le> unit_value (max rest Zero)"
  proof cases
    case 1
    then have "rest = PlusInfinity"
      using assms(1,2) by (auto simp: unit_sub_def checked_simps split: if_splits)
    then show ?thesis
      using assms(3) by (simp add: max_def Zero_def less_eq_unit_base_def unit_le_def IsFinite_def IsInfinite_def
          PlusInfinity_def int_ranges)
  next
    case 2
    then show ?thesis
      using nonneg assms(4) by (simp add: IsMinusInfinity_def)
  next
    case 3
    then have "unit_value rest = unit_value delay - unit_value post_time"
      using assms(1,2) by (auto simp: unit_sub_def ToValue_def FromValue_def i64_sub_def IsFinite_def IsInfinite_def
          IsPlusInfinity_def IsMinusInfinity_def checked_simps split: if_splits)
    then show ?thesis
      by (simp add: max_def Zero_def less_eq_unit_base_def unit_le_def)
  qed
qed

text \<open>The queue with one more timer.\<close>

abbreviation new_timer :: "int \<Rightarrow> int \<times> int \<Rightarrow> 'a \<Rightarrow> 'a libevent \<Rightarrow> 'a timer_event" where
  "new_timer t tv a q \<equiv> \<lparr>ev_id = next_timer q, ev_added = t, ev_tv = tv, ev_task = a\<rparr>"

abbreviation with_timer :: "int \<Rightarrow> int \<times> int \<Rightarrow> 'a \<Rightarrow> 'a libevent \<Rightarrow> 'a libevent" where
  "with_timer t tv a q \<equiv> q\<lparr>pending_timers := pending_timers q @ [new_timer t tv a q], next_timer := next_timer q + 1\<rparr>"

lemma PostDelayedTaskOnTaskQueue_timer:
  assumes "PostDelayedTaskOnTaskQueue t a delay q = Some q'"
  obtains tv where "q' = with_timer t tv a q" "IsFinite delay" "t + fst tv * 1000000 + snd tv = t + unit_value delay"
proof -
  obtain sec usec where tv: "timeval_of delay = Some (sec, usec)"
    and q': "q' = with_timer t (sec, usec) a q"
    using assms by (auto simp: PostDelayedTaskOnTaskQueue_def checked_simps)
  have "IsFinite delay"
    using tv by (auto simp: timeval_of_def td_us_def ToValue_def checked_simps split: if_splits)
  with that [OF q'] timeval_of_value [OF tv] show thesis
    by simp
qed

lemma run_schedule_timer:
  assumes "run_schedule t p delay a q = Some q'"
  obtains tv where "q' = with_timer t tv a q" "p + unit_value delay \<le> t + fst tv * 1000000 + snd tv"
proof -
  obtain rest where elapsed: "in_i64 (t - p)" "i64_min < t - p" "t - p < i64_max"
    and rest: "unit_sub False delay (Unit_T (t - p)) = Some rest"
    and timer: "PostDelayedTaskOnTaskQueue t a (max rest Zero) q = Some q'"
    using assms by (auto simp: run_schedule_def TimeDelta_Micros_def FromValue_def i64_sub_def checked_simps split: if_splits)
  obtain tv where q': "q' = with_timer t tv a q" and finite: "IsFinite (max rest Zero)"
    and due: "t + fst tv * 1000000 + snd tv = t + unit_value (max rest Zero)"
    using timer by (rule PostDelayedTaskOnTaskQueue_timer)
  have "IsFinite (Unit_T (t - p) :: TimeDelta)"
    using elapsed by (simp add: IsFinite_def IsInfinite_def)
  then have "unit_value delay - (t - p) \<le> unit_value (max rest Zero)"
    using rest_of_delay(2) [OF rest] finite elapsed by simp
  with due show thesis
    by (intro that [OF q']) simp
qed

section \<open>Accounting for the tasks\<close>

fun plain_of :: "'a pending_task list \<Rightarrow> 'a list" where
  "plain_of [] = []"
| "plain_of (Plain a # ts) = a # plain_of ts"
| "plain_of (Schedule p delay a # ts) = plain_of ts"

fun later_of :: "'a pending_task list \<Rightarrow> 'a multiset" where
  "later_of [] = {#}"
| "later_of (Plain a # ts) = later_of ts"
| "later_of (Schedule p delay a # ts) = add_mset a (later_of ts)"

lemma plain_of_append [simp]: "plain_of (ts @ us) = plain_of ts @ plain_of us"
  by (induction ts rule: plain_of.induct) auto

lemma later_of_append [simp]: "later_of (ts @ us) = later_of ts + later_of us"
  by (induction ts rule: later_of.induct) auto

fun batch_of :: "'a loop_phase \<Rightarrow> 'a pending_task list" where
  "batch_of (Batch ts) = ts"
| "batch_of _ = []"

fun running_timer :: "'a loop_phase \<Rightarrow> 'a timer_event option" where
  "running_timer (In_timer e) = Some e"
| "running_timer _ = None"

lemma running_timer_Some [simp]: "running_timer p = Some e \<longleftrightarrow> p = In_timer e"
  by (cases p) auto

definition waiting_timers :: "'a le_sys \<Rightarrow> 'a labelled timer_event list" where
  "waiting_timers s = (case running_timer (phase s) of
     None \<Rightarrow> pending_timers (queue s) | Some e \<Rightarrow> pending_timers (RunTimer_end e (queue s)))"

definition label_ok :: "int \<times> 'a \<Rightarrow> int \<Rightarrow> bool" where
  "label_ok a t \<longleftrightarrow> fst a \<le> t"

fun schedule_ok :: "(int \<times> 'a) pending_task \<Rightarrow> bool" where
  "schedule_ok (Plain a) = True"
| "schedule_ok (Schedule p delay a) = label_ok a (p + unit_value delay)"

definition timers_inv :: "'a le_sys \<Rightarrow> bool" where
  "timers_inv s \<longleftrightarrow> distinct (map ev_id (pending_timers (queue s)))
     \<and> (\<forall>e \<in> set (pending_timers (queue s)). ev_id e < next_timer (queue s) \<and> label_ok (ev_task e) (timer_due e))
     \<and> (\<forall>e. phase s = In_timer e \<longrightarrow> e \<in> set (pending_timers (queue s)))
     \<and> (\<forall>e \<in> set (batch_of (phase s) @ pending (queue s)). schedule_ok e)
     \<and> (\<forall>x \<in> set (ran s). not_early x)"

definition account_inv :: "'a le_sys \<Rightarrow> bool" where
  "account_inv s \<longleftrightarrow> ran_immediate (ran s) @ plain_of (batch_of (phase s)) @ plain_of (pending (queue s)) = posted_plain s
     \<and> (phase s \<noteq> Joined \<longrightarrow> ran_delayed (ran s) + mset (map ev_task (waiting_timers s))
          + later_of (batch_of (phase s)) + later_of (pending (queue s)) = posted_later s)"

lemma ran_snoc [simp]:
  "ran_immediate (l @ [Ran_immediate a]) = ran_immediate l @ [a]"
  "ran_immediate (l @ [Ran_delayed d t a]) = ran_immediate l"
  "ran_delayed (l @ [Ran_immediate a]) = ran_delayed l"
  "ran_delayed (l @ [Ran_delayed d t a]) = add_mset a (ran_delayed l)"
  by (induction l rule: ran_immediate.induct) auto

lemma distinct_ids_insert:
  assumes "distinct (map ev_id es)" "e \<in> set es"
  shows "mset (map ev_task es) = add_mset (ev_task e) (mset (map ev_task (filter (\<lambda>f. ev_id f \<noteq> ev_id e) es)))"
  using assms
proof (induction es)
  case (Cons x es)
  show ?case
  proof (cases "x = e")
    case True
    with Cons.prems have "filter (\<lambda>f. ev_id f \<noteq> ev_id e) es = es"
      by (auto simp: filter_id_conv image_iff)
    with True show ?thesis
      by simp
  next
    case False
    with Cons show ?thesis
      by (auto simp: image_iff)
  qed
qed simp

lemma timers_inv_step:
  assumes "le_step s s'" "timers_inv s"
  shows "timers_inv s'"
  using assms(1)
proof cases
  case (st_post_later_here a delay q)
  then obtain tv where "q = with_timer (clock s) tv a (queue s)" "clock s + fst tv * 1000000 + snd tv = clock s + unit_value delay"
    by (elim PostDelayedTaskOnTaskQueue_timer)
  with st_post_later_here assms(2) show ?thesis
    by (fastforce simp: timers_inv_def label_ok_def timer_due_def)
next
  case (st_run_later p delay a ts q)
  then obtain tv where "q = with_timer (clock s) tv a (queue s)" "p + unit_value delay \<le> clock s + fst tv * 1000000 + snd tv"
    by (elim run_schedule_timer)
  with st_run_later assms(2) show ?thesis
    by (fastforce simp: timers_inv_def label_ok_def timer_due_def)
next
  case (st_timer e)
  with assms(2) show ?thesis
    by (fastforce simp: timers_inv_def label_ok_def timer_active_def)
next
  case (st_timer_end e)
  with assms(2) show ?thesis
    by (auto simp: timers_inv_def RunTimer_end_def distinct_map inj_on_def)
next
  case (st_post_later delay a wake q)
  with assms(2) show ?thesis
    by (auto simp: timers_inv_def PostTask_push_def label_ok_def)
next
  case (st_tick t)
  with assms(2) show ?thesis
    by (auto simp: timers_inv_def)
next
  case (st_post a wake q)
  with assms(2) show ?thesis
    by (auto simp: timers_inv_def PostTask_push_def)
next
  case (st_write n)
  with assms(2) show ?thesis
    by (auto simp: timers_inv_def PostTask_write_def)
next
  case (st_delete)
  with assms(2) show ?thesis
    by (auto simp: timers_inv_def Delete_write_def)
next
  case (st_wakeup m q)
  with assms(2) show ?thesis
    by (auto simp: timers_inv_def OnWakeup_read_def checked_simps split: list.splits)
next
  case (st_wakeup_quit)
  with assms(2) show ?thesis
    by (auto simp: timers_inv_def OnWakeup_quit_def)
next
  case (st_wakeup_run ts q)
  with assms(2) show ?thesis
    by (auto simp: timers_inv_def OnWakeup_swap_def Let_def checked_simps split: if_splits)
next
  case (st_run_plain a ts)
  with assms(2) show ?thesis
    by (auto simp: timers_inv_def)
next
  case (st_batch_end)
  with assms(2) show ?thesis
    by (auto simp: timers_inv_def)
next
  case (st_join)
  with assms(2) show ?thesis
    by (auto simp: timers_inv_def Delete_cleanup_def thread_cleanup_def)
qed

lemma account_inv_step:
  assumes "le_step s s'" "timers_inv s" "account_inv s"
  shows "account_inv s'"
  using assms(1)
proof cases
  case (st_post_later_here a delay q)
  then obtain tv where q: "q = with_timer (clock s) tv a (queue s)"
    by (elim PostDelayedTaskOnTaskQueue_timer)
  have "waiting_timers s' = waiting_timers s @ [new_timer (clock s) tv a (queue s)]"
    using assms(2) st_post_later_here(1) q
    by (auto simp: waiting_timers_def RunTimer_end_def timers_inv_def split: option.split)
  with st_post_later_here q assms(3) show ?thesis
    by (auto simp: account_inv_def)
next
  case (st_run_later p delay a ts q)
  then obtain tv where "q = with_timer (clock s) tv a (queue s)"
    by (elim run_schedule_timer)
  with st_run_later assms(3) show ?thesis
    by (auto simp: account_inv_def waiting_timers_def)
next
  case (st_timer e)
  then have "mset (map ev_task (pending_timers (queue s))) = add_mset (ev_task e) (mset (map ev_task (pending_timers (RunTimer_end e (queue s)))))"
    using distinct_ids_insert [of "pending_timers (queue s)" e] assms(2) by (simp add: timers_inv_def RunTimer_end_def)
  with st_timer assms(3) show ?thesis
    by (auto simp: account_inv_def waiting_timers_def)
next
  case (st_post_later delay a wake q)
  with assms(2,3) show ?thesis
    by (auto simp: account_inv_def waiting_timers_def RunTimer_end_def PostTask_push_def split: option.split)
next
  case (st_timer_end e)
  with assms(2,3) show ?thesis
    by (auto simp: account_inv_def waiting_timers_def RunTimer_end_def)
next
  case (st_tick t)
  with assms(2,3) show ?thesis
    by (auto simp: account_inv_def waiting_timers_def RunTimer_end_def split: option.split)
next
  case (st_post a wake q)
  with assms(2,3) show ?thesis
    by (auto simp: account_inv_def waiting_timers_def RunTimer_end_def PostTask_push_def split: option.split)
next
  case (st_write n)
  with assms(2,3) show ?thesis
    by (auto simp: account_inv_def waiting_timers_def RunTimer_end_def PostTask_write_def split: option.split)
next
  case (st_delete)
  with assms(2,3) show ?thesis
    by (auto simp: account_inv_def waiting_timers_def RunTimer_end_def Delete_write_def split: option.split)
next
  case (st_wakeup m q)
  with assms(2,3) show ?thesis
    by (auto simp: account_inv_def waiting_timers_def RunTimer_end_def OnWakeup_read_def checked_simps split: list.splits)
next
  case (st_wakeup_quit)
  with assms(2,3) show ?thesis
    by (auto simp: account_inv_def waiting_timers_def RunTimer_end_def OnWakeup_quit_def split: option.split)
next
  case (st_wakeup_run ts q)
  with assms(2,3) show ?thesis
    by (auto simp: account_inv_def waiting_timers_def RunTimer_end_def OnWakeup_swap_def Let_def checked_simps split: if_splits)
next
  case (st_run_plain a ts)
  with assms(2,3) show ?thesis
    by (auto simp: account_inv_def waiting_timers_def RunTimer_end_def split: option.split)
next
  case (st_batch_end)
  with assms(2,3) show ?thesis
    by (auto simp: account_inv_def waiting_timers_def RunTimer_end_def split: option.split)
next
  case (st_join)
  with assms(2,3) show ?thesis
    by (auto simp: account_inv_def waiting_timers_def RunTimer_end_def Delete_cleanup_def thread_cleanup_def split: option.split)
qed

lemma le_invariants:
  "le_reachable start s \<Longrightarrow> timers_inv s \<and> account_inv s"
proof (induction rule: le_reachable.induct)
  case le_start
  show ?case
    by (simp add: timers_inv_def account_inv_def waiting_timers_def le_init_def TaskQueueLibevent_def)
next
  case (le_more s s')
  then show ?case
    using timers_inv_step account_inv_step by blast
qed

section \<open>Properties\<close>

definition wakeup_under_way :: "'a le_sys \<Rightarrow> bool" where
  "wakeup_under_way s \<longleftrightarrow> kRunTasks \<in> set (wakeup_pipe (queue s)) \<or> 0 < unwritten s \<or> phase s = Have_byte kRunTasks"

text \<open>C26: the queue over libevent never loses a wake-up and never blocks on its pipe: in every reachable
  state the pipe holds at most one \<open>kRunTasks\<close> and one \<open>kQuit\<close>; while the thread lives there are tasks in
  \<open>pending_\<close> exactly when a wake-up is under way; and a thread that has read \<open>kRunTasks\<close> finds tasks, so
  the check in \<open>OnWakeup\<close> holds.\<close>

theorem libevent_wakes_exactly_when_needed:
  assumes "le_reachable start s"
  shows "count_list (wakeup_pipe (queue s)) kRunTasks \<le> 1 \<and> count_list (wakeup_pipe (queue s)) kQuit \<le> 1
    \<and> (phase s \<noteq> Joined \<longrightarrow> (pending (queue s) \<noteq> [] \<longleftrightarrow> wakeup_under_way s))
    \<and> (phase s = Have_byte kRunTasks \<longrightarrow>
        OnWakeup_swap (queue s) = Some (pending (queue s), (queue s)\<lparr>pending := []\<rparr>) \<and> pending (queue s) \<noteq> [])"
proof -
  have inv: "wake_inv s"
    using assms by (rule wake_inv_reachable)
  have "count_list (wakeup_pipe (queue s)) kRunTasks \<le> 1"
    using inv by (cases "phase s = Joined") (auto simp: wake_inv_def wakes_def split: if_splits)
  moreover have "count_list (wakeup_pipe (queue s)) kQuit \<le> 1"
    using inv by (auto simp: wake_inv_def split: if_splits)
  moreover have "phase s \<noteq> Joined \<longrightarrow> (pending (queue s) \<noteq> [] \<longleftrightarrow> wakes s \<noteq> 0)"
    using inv by (auto simp: wake_inv_def)
  moreover have "wakes s \<noteq> 0 \<longleftrightarrow> wakeup_under_way s"
    by (auto simp: wakes_def wakeup_under_way_def count_list_0_iff)
  moreover have "phase s = Have_byte kRunTasks \<longrightarrow> wakeup_under_way s"
    by (simp add: wakeup_under_way_def)
  ultimately show ?thesis
    by (auto simp: OnWakeup_swap_def Let_def)
qed

text \<open>C27: the queue over libevent loses no task, runs none twice and none early: tasks without a delay
  have run, are in the batch being run or still wait, in the order of posting; until the thread is joined
  every delayed task has run, has a timer or waits in a closure; and whatever has run was due.\<close>

theorem libevent_accounts_for_tasks:
  assumes "le_reachable start s"
  shows "ran_immediate (ran s) @ plain_of (batch_of (phase s)) @ plain_of (pending (queue s)) = posted_plain s
    \<and> (phase s \<noteq> Joined \<longrightarrow> ran_delayed (ran s) + mset (map ev_task (waiting_timers s))
        + later_of (batch_of (phase s)) + later_of (pending (queue s)) = posted_later s)
    \<and> (\<forall>x \<in> set (ran s). not_early x)"
  using le_invariants [OF assms] by (auto simp: timers_inv_def account_inv_def)

text \<open>A run: a task and a delayed task are posted, the loop takes both.\<close>

definition le_state ::
  "wake_message list \<Rightarrow> nat labelled pending_task list \<Rightarrow> nat labelled timer_event list \<Rightarrow> nat \<Rightarrow> int
    \<Rightarrow> nat labelled loop_phase \<Rightarrow> nat \<Rightarrow> nat labelled executed list \<Rightarrow> nat labelled multiset \<Rightarrow> nat le_sys" where
  "le_state pipe tasks timers k t p n done_tasks later =
     \<lparr>queue = \<lparr>is_active = True, wakeup_pipe = pipe, pending = tasks, pending_timers = timers, next_timer = k,
        wakeup_registered = True\<rparr>,
      clock = t, phase = p, unwritten = n, deleting = False, ran = done_tasks, posted_plain = [(0, 7)],
      posted_later = later\<rparr>"

definition task7 :: "nat labelled pending_task" where
  "task7 = Plain (0, 7)"

definition task8 :: "nat labelled pending_task" where
  "task8 = Schedule 10 (Unit_T 100) (110, 8)"

definition timer8 :: "nat labelled timer_event" where
  "timer8 = \<lparr>ev_id = 0, ev_added = 50, ev_tv = (0, 60), ev_task = (110, 8)\<rparr>"

lemma run_schedule_task8:
  "run_schedule 50 10 (Unit_T 100) a q =
     Some (q\<lparr>pending_timers := pending_timers q @ [\<lparr>ev_id = next_timer q, ev_added = 50, ev_tv = (0, 60), ev_task = a\<rparr>],
       next_timer := next_timer q + 1\<rparr>)"
proof -
  have "RangeCheck int32_t int64_t x = TYPE_VALID" if "0 \<le> x" "x \<le> 60" for x
    using that RangeCheck_spec [of int32_t int64_t x] by (simp add: std_type_def ty_lowest_def ty_max_def)
  then show ?thesis
    by (simp add: run_schedule_def PostDelayedTaskOnTaskQueue_def timeval_of_def dchecked_cast_def
        IsValueInRangeForNumericType_def td_us_def ToValue_def TimeDelta_Micros_def FromValue_def unit_sub_def
        IsFinite_def IsInfinite_def IsPlusInfinity_def IsMinusInfinity_def Zero_def max_def less_eq_unit_base_def
        unit_le_def i64_ops int_ranges sdiv_pos_cases smod_pos_cases)
qed

lemma reach_posted: "le_reachable 10 (le_state [kRunTasks] [task7, task8] [] 0 10 Looping 0 [] {#(110, 8)#})"
proof -
  have "le_reachable 10 (le_state [] [task7] [] 0 10 Looping 1 [] {#})"
    using le_more [OF le_start st_post [where a = "(0, 7)" and wake = True]]
    by (fastforce simp: le_init_def TaskQueueLibevent_def PostTask_push_def count_wake_def le_state_def task7_def)
  then have "le_reachable 10 (le_state [] [task7, task8] [] 0 10 Looping 1 [] {#(110, 8)#})"
    using le_more [OF _ st_post_later [where a = "(110, 8)" and wake = False and delay = "Unit_T 100" and
          s = "le_state [] [task7] [] 0 10 Looping 1 [] {#}"], of 10 "queue (le_state [] [task7, task8] [] 0 10 Looping 1 [] {#})"]
    by (simp add: PostTask_push_def count_wake_def le_state_def task8_def)
  from le_more [OF this st_write [where n = 0]] show ?thesis
    by (simp add: PostTask_write_def le_state_def)
qed

lemma reach_read: "le_reachable 10 (le_state [] [task7, task8] [] 0 50 (Have_byte kRunTasks) 0 [] {#(110, 8)#})"
proof -
  have "le_reachable 10 (le_state [kRunTasks] [task7, task8] [] 0 50 Looping 0 [] {#(110, 8)#})"
    using le_more [OF reach_posted st_tick [where t = 50]] by (simp add: le_state_def)
  from le_more [OF this st_wakeup [where m = kRunTasks]] show ?thesis
    by (simp add: OnWakeup_read_def le_state_def)
qed

lemma reach_scheduled: "le_reachable 10 (le_state [] [] [timer8] 1 50 (Batch []) 0 [Ran_immediate (0, 7)] {#(110, 8)#})"
proof -
  have "le_reachable 10 (le_state [] [] [] 0 50 (Batch [task7, task8]) 0 [] {#(110, 8)#})"
    using le_more [OF reach_read st_wakeup_run [where ts = "[task7, task8]"]]
    by (simp add: OnWakeup_swap_def le_state_def)
  from le_more [OF this st_run_plain [where a = "(0, 7)" and ts = "[task8]"]]
  have "le_reachable 10 (le_state [] [] [] 0 50 (Batch [task8]) 0 [Ran_immediate (0, 7)] {#(110, 8)#})"
    by (simp add: le_state_def task7_def)
  from le_more [OF this st_run_later [where p = 10 and delay = "Unit_T 100" and a = "(110, 8)" and ts = "[]"]] show ?thesis
    by (simp add: le_state_def task8_def timer8_def run_schedule_task8)
qed

theorem libevent_wakes_exactly_when_needed_witness:
  "wakeup_under_way (le_state [] [task7, task8] [] 0 50 (Have_byte kRunTasks) 0 [] {#(110, 8)#})
   \<and> OnWakeup_swap (queue (le_state [] [task7, task8] [] 0 50 (Have_byte kRunTasks) 0 [] {#(110, 8)#})) \<noteq> None"
  using libevent_wakes_exactly_when_needed [OF reach_read] by (simp add: le_state_def)

theorem libevent_accounts_for_tasks_witness:
  "ran_immediate (ran (le_state [] [] [timer8] 1 50 (Batch []) 0 [Ran_immediate (0, 7)] {#(110, 8)#})) = [(0, 7)]
   \<and> mset (map ev_task (waiting_timers (le_state [] [] [timer8] 1 50 (Batch []) 0 [Ran_immediate (0, 7)] {#(110, 8)#})))
     = {#(110, 8)#}"
  using libevent_accounts_for_tasks [OF reach_scheduled] by (simp add: le_state_def)

end
