(* ===== verification/Moving_Max.thy ===== *)
theory Moving_Max
  imports TQ_Prelude
begin

text \<open>
  \<open>rtc_base/numerics/moving_max_counter.h\<close>: the largest sample of a moving window of time, kept in a
  double-ended queue from which samples are dropped that can never be the largest again.  The reference
  is a list of all samples.
\<close>

section \<open>The counter\<close>

record 'a max_counter =
  window_length_ms :: int
  max_samples :: "(int \<times> 'a) list"
  last_call_time_ms :: int

definition MovingMaxCounter :: "int \<Rightarrow> 'a max_counter" where
  "MovingMaxCounter len = \<lparr>window_length_ms = len, max_samples = [], last_call_time_ms = i64_min\<rparr>"

definition RollWindow :: "int \<Rightarrow> 'a max_counter \<Rightarrow> 'a max_counter checked" where
  "RollWindow new_time_ms c = do {
     rtc_check (last_call_time_ms c \<le> new_time_ms);
     window_begin_ms \<leftarrow> i64_sub new_time_ms (window_length_ms c);
     Some (c\<lparr>last_call_time_ms := new_time_ms,
       max_samples := dropWhile (\<lambda>p. fst p < window_begin_ms) (max_samples c)\<rparr>)
   }"

text \<open>The loop that pops from the back.\<close>

function pop_back_while :: "('a \<Rightarrow> bool) \<Rightarrow> 'a list \<Rightarrow> 'a list" where
  "pop_back_while P xs = (if xs \<noteq> [] \<and> P (last xs) then pop_back_while P (butlast xs) else xs)"
  by pat_completeness auto
termination
  by (relation "measure (\<lambda>(P, xs). length xs)") auto

declare pop_back_while.simps [simp del]

definition Max_Add :: "'a::linorder \<Rightarrow> int \<Rightarrow> 'a max_counter \<Rightarrow> 'a max_counter checked" where
  "Max_Add sample current_time_ms c = do {
     c \<leftarrow> RollWindow current_time_ms c;
     let samples = pop_back_while (\<lambda>p. snd p \<le> sample) (max_samples c);
     Some (c\<lparr>max_samples :=
       (if samples = [] \<or> fst (last samples) < current_time_ms then samples @ [(current_time_ms, sample)] else samples)\<rparr>)
   }"

definition Max_Max :: "int \<Rightarrow> 'a max_counter \<Rightarrow> ('a option \<times> 'a max_counter) checked" where
  "Max_Max current_time_ms c = do {
     c \<leftarrow> RollWindow current_time_ms c;
     Some (case max_samples c of [] \<Rightarrow> (None, c) | p # rest \<Rightarrow> (Some (snd p), c))
   }"

definition Max_Reset :: "'a max_counter \<Rightarrow> 'a max_counter" where
  "Max_Reset c = c\<lparr>max_samples := []\<rparr>"

section \<open>The queue\<close>

lemma pop_back_while_Nil [simp]: "pop_back_while P [] = []"
  by (simp add: pop_back_while.simps)

text \<open>What is left is a prefix, what went satisfies the test, and the new end does not.\<close>

lemma pop_back_while_split:
  obtains ys where "xs = pop_back_while P xs @ ys" "\<forall>y \<in> set ys. P y"
    "pop_back_while P xs \<noteq> [] \<Longrightarrow> \<not> P (last (pop_back_while P xs))"
proof -
  have "\<exists>ys. xs = pop_back_while P xs @ ys \<and> (\<forall>y \<in> set ys. P y)
      \<and> (pop_back_while P xs \<noteq> [] \<longrightarrow> \<not> P (last (pop_back_while P xs)))"
  proof (induction xs rule: rev_induct)
    case (snoc x xs)
    show ?case
    proof (cases "P x")
      case True
      then have "pop_back_while P (xs @ [x]) = pop_back_while P xs"
        by (simp add: pop_back_while.simps [of P "xs @ [x]"])
      moreover obtain ys where "xs = pop_back_while P xs @ ys" "\<forall>y \<in> set ys. P y"
        "pop_back_while P xs \<noteq> [] \<longrightarrow> \<not> P (last (pop_back_while P xs))"
        using snoc by blast
      ultimately show ?thesis
        using True by (intro exI [of _ "ys @ [x]"]) auto
    next
      case False
      then show ?thesis
        by (simp add: pop_back_while.simps [of P "xs @ [x]"])
    qed
  qed simp
  then show thesis
    using that by blast
qed

text \<open>The order the comment in the class promises: times increase strictly, samples decrease strictly.\<close>

definition staircase :: "(int \<times> 'a::linorder) list \<Rightarrow> bool" where
  "staircase ps \<longleftrightarrow> sorted_wrt (\<lambda>p q. fst p < fst q \<and> snd q < snd p) ps"

lemma staircase_append:
  "staircase (ps @ qs) \<longleftrightarrow> staircase ps \<and> staircase qs \<and> (\<forall>p \<in> set ps. \<forall>q \<in> set qs. fst p < fst q \<and> snd q < snd p)"
  by (simp add: staircase_def sorted_wrt_append)

lemma staircase_dropWhile: "staircase ps \<Longrightarrow> staircase (dropWhile P ps)"
  using takeWhile_dropWhile_id [of P ps] by (metis staircase_append)

lemma staircase_last:
  assumes "staircase ps" "p \<in> set ps"
  shows "fst p \<le> fst (last ps)" "snd (last ps) \<le> snd p"
proof -
  have "ps = butlast ps @ [last ps]"
    using assms(2) by (metis append_butlast_last_id empty_iff empty_set)
  with assms have "p = last ps \<or> fst p < fst (last ps) \<and> snd (last ps) < snd p"
    by (metis staircase_append Un_iff set_append list.set_intros(1) empty_iff insert_iff list.set)
  then show "fst p \<le> fst (last ps)" "snd (last ps) \<le> snd p"
    by auto
qed

lemma staircase_hd:
  assumes "staircase (p # ps)" "q \<in> set (p # ps)"
  shows "snd q \<le> snd p"
  using assms by (auto simp: staircase_def)

lemma staircase_dropWhile_set:
  assumes "staircase ps"
  shows "set (dropWhile (\<lambda>p. fst p < t) ps) = {p \<in> set ps. t \<le> fst p}"
  using assms by (induction ps) (auto simp: staircase_def)

section \<open>Against the list of all samples\<close>

text \<open>The samples of the window that ends at \<open>t\<close>, and their maximum.\<close>

definition window_samples :: "int \<Rightarrow> int \<Rightarrow> (int \<times> 'a) list \<Rightarrow> 'a list" where
  "window_samples len t hist = map snd (filter (\<lambda>p. t - len \<le> fst p) hist)"

definition window_max :: "int \<Rightarrow> int \<Rightarrow> (int \<times> 'a::linorder) list \<Rightarrow> 'a option" where
  "window_max len t hist = (case window_samples len t hist of [] \<Rightarrow> None | x # xs \<Rightarrow> Some (fold max xs x))"

definition represents :: "(int \<times> 'a::linorder) list \<Rightarrow> 'a max_counter \<Rightarrow> bool" where
  "represents hist c \<longleftrightarrow> staircase (max_samples c)
     \<and> set (max_samples c) \<subseteq> set hist
     \<and> (\<forall>p \<in> set hist. fst p \<le> last_call_time_ms c)
     \<and> (\<forall>p \<in> set hist. last_call_time_ms c - window_length_ms c \<le> fst p \<longrightarrow>
          (\<exists>q \<in> set (max_samples c). fst p \<le> fst q \<and> snd p \<le> snd q))"

lemma represents_new [simp]: "represents [] (MovingMaxCounter len)"
  by (simp add: represents_def MovingMaxCounter_def staircase_def)

lemma represents_RollWindow:
  assumes "represents hist c" "last_call_time_ms c \<le> t" "in_i64 (t - window_length_ms c)"
  obtains c' where "RollWindow t c = Some c'" "represents hist c'" "last_call_time_ms c' = t"
    "window_length_ms c' = window_length_ms c"
    "\<forall>q \<in> set (max_samples c'). t - window_length_ms c \<le> fst q"
proof -
  let ?c = "c\<lparr>last_call_time_ms := t,
    max_samples := dropWhile (\<lambda>p. fst p < t - window_length_ms c) (max_samples c)\<rparr>"
  have "RollWindow t c = Some ?c"
    using assms by (simp add: RollWindow_def i64_sub_def)
  moreover have stairs: "staircase (max_samples c)"
    using assms(1) by (simp add: represents_def)
  moreover have "represents hist ?c"
    using assms(1,2) staircase_dropWhile_set [OF stairs]
    by (fastforce simp: represents_def staircase_dropWhile)
  ultimately show thesis
    by (intro that [of ?c]) (auto simp: staircase_dropWhile_set)
qed

lemma represents_Add:
  assumes "represents hist c" "last_call_time_ms c \<le> t" "in_i64 (t - window_length_ms c)" "0 \<le> window_length_ms c"
  obtains c' where "Max_Add x t c = Some c'" "represents (hist @ [(t, x)]) c'" "last_call_time_ms c' = t"
    "window_length_ms c' = window_length_ms c"
proof -
  obtain d where d: "RollWindow t c = Some d" "represents hist d" "last_call_time_ms d = t"
    "window_length_ms d = window_length_ms c"
    using represents_RollWindow [OF assms(1-3)] by metis
  let ?s = "pop_back_while (\<lambda>p. snd p \<le> x) (max_samples d)"
  obtain ys where split: "max_samples d = ?s @ ys" and popped: "\<forall>y \<in> set ys. snd y \<le> x"
    and end_larger: "?s \<noteq> [] \<Longrightarrow> \<not> snd (last ?s) \<le> x"
    using pop_back_while_split by blast
  have stairs: "staircase (max_samples d)" and in_hist: "set (max_samples d) \<subseteq> set hist"
    and past: "\<forall>p \<in> set hist. fst p \<le> t"
    and cover: "\<forall>p \<in> set hist. t - window_length_ms d \<le> fst p \<longrightarrow> (\<exists>q \<in> set (max_samples d). fst p \<le> fst q \<and> snd p \<le> snd q)"
    using d by (auto simp: represents_def)
  have s_stairs: "staircase ?s" and s_set: "set ?s \<subseteq> set (max_samples d)"
    using stairs split by (metis staircase_append, metis Un_upper1 set_append)
  have larger: "x < snd p" if "p \<in> set ?s" for p
    using staircase_last(2) [OF s_stairs that] end_larger that by (cases "?s = []") auto
  define s' where "s' = (if ?s = [] \<or> fst (last ?s) < t then ?s @ [(t, x)] else ?s)"
  have before: "fst p < t" if "p \<in> set ?s" "fst (last ?s) < t" for p
    using staircase_last(1) [OF s_stairs that(1)] that(2) by simp
  have "staircase s'"
    using s_stairs larger before by (auto simp: s'_def staircase_append) (auto simp: staircase_def)
  moreover have "set s' \<subseteq> set (hist @ [(t, x)])"
    using s_set in_hist by (auto simp: s'_def)
  moreover have new: "\<exists>q \<in> set s'. t \<le> fst q \<and> x \<le> snd q"
  proof (cases "?s = [] \<or> fst (last ?s) < t")
    case True
    then show ?thesis
      by (auto simp: s'_def)
  next
    case False
    then show ?thesis
      using larger [of "last ?s"] by (auto simp: s'_def intro!: bexI [of _ "last ?s"])
  qed
  moreover have "\<exists>q \<in> set s'. fst p \<le> fst q \<and> snd p \<le> snd q" if p: "p \<in> set hist" "t - window_length_ms d \<le> fst p" for p
  proof -
    obtain q where q: "q \<in> set (max_samples d)" "fst p \<le> fst q" "snd p \<le> snd q"
      using cover p by blast
    show ?thesis
    proof (cases "q \<in> set ?s")
      case True
      with q show ?thesis
        by (auto simp: s'_def)
    next
      case False
      then have "snd q \<le> x"
        using q(1) split popped by (metis Un_iff set_append)
      moreover have "fst p \<le> t"
        using past p(1) by blast
      ultimately show ?thesis
        using new q(3) by (meson order_trans)
    qed
  qed
  ultimately have "represents (hist @ [(t, x)]) (d\<lparr>max_samples := s'\<rparr>)"
    using past d(3) by (auto simp: represents_def)
  moreover have "Max_Add x t c = Some (d\<lparr>max_samples := s'\<rparr>)"
    by (simp add: Max_Add_def d(1) s'_def Let_def)
  ultimately show thesis
    using that d(3,4) by simp
qed

lemma fold_max_in: "fold max xs (x::'a::linorder) \<in> set (x # xs)"
  using Max_in [of "set (x # xs)"] by (simp add: Max.set_eq_fold del: list.set)

lemma fold_max_ge: "y \<in> set (x # xs) \<Longrightarrow> y \<le> fold max xs (x::'a::linorder)"
  using Max_ge [of "set (x # xs)" y] by (simp add: Max.set_eq_fold del: list.set)

lemma window_max_Some:
  assumes "p \<in> set hist" "t - len \<le> fst p" "\<And>q. q \<in> set hist \<Longrightarrow> t - len \<le> fst q \<Longrightarrow> snd q \<le> snd p"
  shows "window_max len t hist = Some (snd p)"
proof -
  have inset: "snd p \<in> set (window_samples len t hist)"
    using assms(1,2) by (auto simp: window_samples_def)
  then obtain x xs where xs: "window_samples len t hist = x # xs"
    by (cases "window_samples len t hist") auto
  have "y \<le> snd p" if "y \<in> set (x # xs)" for y
    using that assms(3) unfolding xs [symmetric] by (auto simp: window_samples_def)
  then have "fold max xs x = snd p"
    using fold_max_in [of xs x] fold_max_ge [of "snd p" x xs] inset xs by (simp add: order_antisym)
  with xs show ?thesis
    by (simp add: window_max_def)
qed

lemma represents_Max:
  assumes "represents hist c" "last_call_time_ms c \<le> t" "in_i64 (t - window_length_ms c)"
  obtains c' where "Max_Max t c = Some (window_max (window_length_ms c) t hist, c')" "represents hist c'"
    "last_call_time_ms c' = t" "window_length_ms c' = window_length_ms c"
proof -
  obtain d where d: "RollWindow t c = Some d" "represents hist d" "last_call_time_ms d = t"
    "window_length_ms d = window_length_ms c" "\<forall>q \<in> set (max_samples d). t - window_length_ms c \<le> fst q"
    using represents_RollWindow [OF assms] by metis
  have "window_max (window_length_ms c) t hist = (case max_samples d of [] \<Rightarrow> None | p # rest \<Rightarrow> Some (snd p))"
  proof (cases "max_samples d")
    case Nil
    then have "window_samples (window_length_ms c) t hist = []"
      using d by (auto simp: represents_def window_samples_def filter_empty_conv)
    with Nil show ?thesis
      by (simp add: window_max_def)
  next
    case (Cons p rest)
    have "snd q \<le> snd p" if "q \<in> set hist" "t - window_length_ms c \<le> fst q" for q
      using d that Cons staircase_hd [of p rest] by (fastforce simp: represents_def)
    moreover have "p \<in> set hist" "t - window_length_ms c \<le> fst p"
      using d Cons by (auto simp: represents_def)
    ultimately show ?thesis
      using Cons window_max_Some [of p hist t "window_length_ms c"] by simp
  qed
  then show thesis
    using that [OF _ d(2-4)] d(1) by (simp add: Max_Max_def split: list.splits)
qed

section \<open>Properties\<close>

datatype 'a max_op = Call_Add 'a int | Call_Max int | Call_Reset

fun run_max :: "'a::linorder max_op list \<Rightarrow> 'a max_counter \<Rightarrow> 'a option list checked" where
  "run_max [] c = Some []"
| "run_max (Call_Add x t # ops) c = do { c' \<leftarrow> Max_Add x t c; run_max ops c' }"
| "run_max (Call_Max t # ops) c = do { (m, c') \<leftarrow> Max_Max t c; ms \<leftarrow> run_max ops c'; Some (m # ms) }"
| "run_max (Call_Reset # ops) c = run_max ops (Max_Reset c)"

fun list_max :: "int \<Rightarrow> (int \<times> 'a::linorder) list \<Rightarrow> 'a max_op list \<Rightarrow> 'a option list" where
  "list_max len hist [] = []"
| "list_max len hist (Call_Add x t # ops) = list_max len (hist @ [(t, x)]) ops"
| "list_max len hist (Call_Max t # ops) = window_max len t hist # list_max len hist ops"
| "list_max len hist (Call_Reset # ops) = list_max len [] ops"

fun times_ok :: "int \<Rightarrow> int \<Rightarrow> 'a max_op list \<Rightarrow> bool" where
  "times_ok len from [] = True"
| "times_ok len from (Call_Add x t # ops) = (from \<le> t \<and> in_i64 (t - len) \<and> times_ok len t ops)"
| "times_ok len from (Call_Max t # ops) = (from \<le> t \<and> in_i64 (t - len) \<and> times_ok len t ops)"
| "times_ok len from (Call_Reset # ops) = times_ok len from ops"

lemma run_max_list_max:
  assumes "represents hist c" "times_ok (window_length_ms c) (last_call_time_ms c) ops" "0 \<le> window_length_ms c"
  shows "run_max ops c = Some (list_max (window_length_ms c) hist ops)"
  using assms
proof (induction ops arbitrary: hist c)
  case (Cons op ops)
  show ?case
  proof (cases op)
    case (Call_Add x t)
    with Cons.prems obtain c' where "Max_Add x t c = Some c'" "represents (hist @ [(t, x)]) c'" "last_call_time_ms c' = t"
      "window_length_ms c' = window_length_ms c"
      using represents_Add [of hist c t x] by auto
    with Call_Add Cons.prems Cons.IH [of "hist @ [(t, x)]" c'] show ?thesis
      by simp
  next
    case (Call_Max t)
    with Cons.prems obtain c' where "Max_Max t c = Some (window_max (window_length_ms c) t hist, c')" "represents hist c'"
      "last_call_time_ms c' = t" "window_length_ms c' = window_length_ms c"
      using represents_Max [of hist c t] by auto
    with Call_Max Cons.prems Cons.IH [of hist c'] show ?thesis
      by simp
  next
    case Call_Reset
    have "represents [] (Max_Reset c)"
      by (simp add: represents_def Max_Reset_def staircase_def)
    with Call_Reset Cons.prems Cons.IH [of "[]" "Max_Reset c"] show ?thesis
      by (simp add: Max_Reset_def)
  qed
qed simp

text \<open>C28: whatever is called in whatever order with times that do not decrease, \<open>MovingMaxCounter\<close>
  answers as a list of all samples would: the largest one not older than the window, or nothing when there
  is none.\<close>

theorem moving_max_is_window_maximum:
  assumes "times_ok len i64_min ops" "0 \<le> len"
  shows "run_max ops (MovingMaxCounter len) = Some (list_max len [] ops)"
  using run_max_list_max [of "[]" "MovingMaxCounter len" ops] assms
  by (simp add: represents_new [unfolded MovingMaxCounter_def] MovingMaxCounter_def)

theorem moving_max_is_window_maximum_witness:
  "run_max [Call_Add 5 0, Call_Add 3 10, Call_Max 50, Call_Max 105, Call_Max 111] (MovingMaxCounter 100)
     = Some [Some 5, Some (3::int), None]"
  using moving_max_is_window_maximum [of 100 "[Call_Add 5 0, Call_Add (3::int) 10, Call_Max 50, Call_Max 105, Call_Max 111]"]
  by (simp add: int_ranges window_max_def window_samples_def)

end
