(* ===== verification/Percentile_Filter.thy ===== *)
theory Percentile_Filter
  imports TQ_Prelude "HOL-Library.Multiset"
begin

text \<open>
  \<open>rtc_base/numerics/percentile_filter.h\<close> and \<open>moving_percentile_filter.h\<close>: a multiset with an iterator
  that is kept on the element of a given rank, and a window over the newest samples on top of it.

  The multiset is the sorted list of its elements and an iterator the position of its node, which moves
  when nodes in front of it come or go.  The rank for a number of elements is a product in \<open>float\<close>
  (\<open>percentile_ * (size - 1)\<close>, truncated): it is an argument, \<open>rank\<close>, with the law that it does not
  exceed \<open>size - 1\<close>; for the median it is exact below \<open>2 ^ 24\<close> elements and is \<open>median_rank\<close>.
\<close>

section \<open>PercentileFilter\<close>

record 'a percentile_filter =
  observations :: "'a list"
  percentile_it :: nat
  percentile_index :: int

definition PercentileFilter :: "'a percentile_filter" where
  "PercentileFilter = \<lparr>observations = [], percentile_it = 0, percentile_index = 0\<rparr>"

definition at_position :: "nat \<Rightarrow> 'a list \<Rightarrow> 'a checked" where
  "at_position i xs = (if i < length xs then Some (xs ! i) else None)"

definition insert_at :: "nat \<Rightarrow> 'a \<Rightarrow> 'a list \<Rightarrow> 'a list" where
  "insert_at i x xs = take i xs @ x # drop i xs"

definition erase_at :: "nat \<Rightarrow> 'a list \<Rightarrow> 'a list" where
  "erase_at i xs = take i xs @ drop (Suc i) xs"

definition lower_bound_in :: "'a::linorder \<Rightarrow> 'a list \<Rightarrow> nat" where
  "lower_bound_in x xs = length (takeWhile (\<lambda>y. y < x) xs)"

definition upper_bound_in :: "'a::linorder \<Rightarrow> 'a list \<Rightarrow> nat" where
  "upper_bound_in x xs = length (takeWhile (\<lambda>y. y \<le> x) xs)"

definition UpdatePercentileIterator :: "(nat \<Rightarrow> nat) \<Rightarrow> 'a percentile_filter \<Rightarrow> 'a percentile_filter checked" where
  "UpdatePercentileIterator rank f =
     (if observations f = [] then Some f
      else do {
        let index = int (rank (length (observations f) - 1));
        let it = int (percentile_it f) + (index - percentile_index f);
        rtc_check (0 \<le> it \<and> it \<le> int (length (observations f)));
        Some (f\<lparr>percentile_it := nat it, percentile_index := index\<rparr>)
      })"

definition Percentile_Insert :: "(nat \<Rightarrow> nat) \<Rightarrow> 'a::linorder \<Rightarrow> 'a percentile_filter \<Rightarrow> 'a percentile_filter checked" where
  "Percentile_Insert rank value f = do {
     let pos = upper_bound_in value (observations f);
     let it = (if pos \<le> percentile_it f then percentile_it f + 1 else percentile_it f);
     let f = f\<lparr>observations := insert_at pos value (observations f), percentile_it := it\<rparr>;
     f \<leftarrow> (if length (observations f) = 1 then Some (f\<lparr>percentile_it := 0, percentile_index := 0\<rparr>)
           else do {
             x \<leftarrow> at_position (percentile_it f) (observations f);
             Some (if value < x then f\<lparr>percentile_index := percentile_index f + 1\<rparr> else f)
           });
     UpdatePercentileIterator rank f
   }"

definition Percentile_Erase :: "(nat \<Rightarrow> nat) \<Rightarrow> 'a::linorder \<Rightarrow> 'a percentile_filter \<Rightarrow> (bool \<times> 'a percentile_filter) checked" where
  "Percentile_Erase rank value f =
     (let pos = lower_bound_in value (observations f)
      in if pos = length (observations f) \<or> observations f ! pos \<noteq> value then Some (False, f)
         else do {
           let xs = erase_at pos (observations f);
           f \<leftarrow> (if pos = percentile_it f then Some (f\<lparr>observations := xs\<rparr>)
                 else do {
                   let it = (if pos < percentile_it f then percentile_it f - 1 else percentile_it f);
                   x \<leftarrow> at_position it xs;
                   let f = f\<lparr>observations := xs, percentile_it := it\<rparr>;
                   Some (if value \<le> x then f\<lparr>percentile_index := percentile_index f - 1\<rparr> else f)
                 });
           f \<leftarrow> UpdatePercentileIterator rank f;
           Some (True, f)
         })"

definition GetPercentileValue :: "'a::zero percentile_filter \<Rightarrow> 'a checked" where
  "GetPercentileValue f = (if observations f = [] then Some 0 else at_position (percentile_it f) (observations f))"

definition Percentile_Reset :: "'a percentile_filter \<Rightarrow> 'a percentile_filter" where
  "Percentile_Reset f = f\<lparr>observations := [], percentile_it := 0, percentile_index := 0\<rparr>"

section \<open>MovingPercentileFilter\<close>

record 'a moving_filter =
  the_filter :: "'a percentile_filter"
  window :: "'a list"
  samples_stored :: nat
  window_size :: nat

definition MovingPercentileFilter :: "nat \<Rightarrow> 'a moving_filter checked" where
  "MovingPercentileFilter n = do {
     rtc_check (0 < n);
     Some \<lparr>the_filter = PercentileFilter, window = [], samples_stored = 0, window_size = n\<rparr>
   }"

text \<open>\<open>MovingMedianFilter\<close>: half of the number, truncated.\<close>

definition median_rank :: "nat \<Rightarrow> nat" where
  "median_rank n = n div 2"

definition Moving_Insert :: "(nat \<Rightarrow> nat) \<Rightarrow> 'a::linorder \<Rightarrow> 'a moving_filter \<Rightarrow> 'a moving_filter checked" where
  "Moving_Insert rank value m = do {
     f \<leftarrow> Percentile_Insert rank value (the_filter m);
     let m = m\<lparr>the_filter := f, window := window m @ [value], samples_stored := samples_stored m + 1\<rparr>;
     if window_size m < samples_stored m then do {
       (_, f) \<leftarrow> Percentile_Erase rank (hd (window m)) (the_filter m);
       Some (m\<lparr>the_filter := f, window := tl (window m), samples_stored := samples_stored m - 1\<rparr>)
     } else Some m
   }"

definition GetFilteredValue :: "'a::zero moving_filter \<Rightarrow> 'a checked" where
  "GetFilteredValue m = GetPercentileValue (the_filter m)"

definition Moving_Reset :: "'a moving_filter \<Rightarrow> 'a moving_filter" where
  "Moving_Reset m = m\<lparr>the_filter := Percentile_Reset (the_filter m), window := [], samples_stored := 0\<rparr>"

definition GetNumberOfSamplesStored :: "'a moving_filter \<Rightarrow> nat" where
  "GetNumberOfSamplesStored m = samples_stored m"

section \<open>Sorted lists with a position\<close>

lemma sorted_insert_upper:
  assumes "sorted xs"
  shows "sorted (insert_at (upper_bound_in x xs) x xs)"
proof -
  let ?n = "upper_bound_in x xs"
  have split: "takeWhile (\<lambda>y. y \<le> x) xs = take ?n xs" "dropWhile (\<lambda>y. y \<le> x) xs = drop ?n xs"
    by (simp_all add: upper_bound_in_def takeWhile_eq_take [symmetric] dropWhile_eq_drop [symmetric])
  have "\<forall>y \<in> set (take ?n xs). y \<le> x"
    unfolding split(1) [symmetric] by (auto dest: set_takeWhileD)
  moreover have "\<forall>y \<in> set (drop ?n xs). x \<le> y"
  proof (cases "drop ?n xs")
    case (Cons z zs)
    have "\<not> z \<le> x"
      using hd_dropWhile [of "\<lambda>y. y \<le> x" xs] unfolding split(2) Cons by simp
    moreover have "sorted (z # zs)"
      using assms Cons sorted_wrt_drop [of "(\<le>)" xs ?n] by simp
    ultimately show ?thesis
      using Cons by auto
  qed simp
  moreover have "\<forall>y \<in> set (take ?n xs). \<forall>z \<in> set (drop ?n xs). y \<le> z"
    using assms append_take_drop_id [of ?n xs] sorted_append by metis
  ultimately show ?thesis
    using assms by (auto simp: insert_at_def sorted_append sorted_wrt_take sorted_wrt_drop)
qed

lemma mset_insert_at [simp]: "mset (insert_at i x xs) = add_mset x (mset xs)"
  by (metis append_take_drop_id insert_at_def mset.simps(2) mset_append union_mset_add_mset_right)

lemma length_insert_at [simp]: "length (insert_at i x xs) = Suc (length xs)"
  by (simp add: insert_at_def)

lemma upper_bound_le [simp]: "upper_bound_in x xs \<le> length xs"
  by (simp add: upper_bound_in_def length_takeWhile_le)

lemma lower_bound_le [simp]: "lower_bound_in x xs \<le> length xs"
  by (simp add: lower_bound_in_def length_takeWhile_le)

text \<open>Whether the new element lies in front of a position is what the code asks of the values.\<close>

lemma upper_bound_before:
  assumes "sorted xs" "i < length xs"
  shows "upper_bound_in x xs \<le> i \<longleftrightarrow> x < xs ! i"
proof
  assume le: "upper_bound_in x xs \<le> i"
  let ?n = "upper_bound_in x xs"
  have "\<not> xs ! ?n \<le> x"
    using le assms(2) nth_length_takeWhile [of "\<lambda>y. y \<le> x" xs] by (simp add: upper_bound_in_def)
  moreover have "xs ! ?n \<le> xs ! i"
    using assms le by (simp add: sorted_nth_mono)
  ultimately show "x < xs ! i"
    by simp
next
  assume less: "x < xs ! i"
  show "upper_bound_in x xs \<le> i"
  proof (rule ccontr)
    assume "\<not> upper_bound_in x xs \<le> i"
    then have "i < length (takeWhile (\<lambda>y. y \<le> x) xs)"
      by (simp add: upper_bound_in_def)
    then have "xs ! i \<le> x"
      by (metis nth_mem set_takeWhileD takeWhile_nth)
    with less show False
      by simp
  qed
qed

lemma lower_bound_before:
  assumes "sorted xs" "i < length xs"
  shows "lower_bound_in x xs \<le> i \<longleftrightarrow> x \<le> xs ! i"
proof
  assume le: "lower_bound_in x xs \<le> i"
  let ?n = "lower_bound_in x xs"
  have "\<not> xs ! ?n < x"
    using le assms(2) nth_length_takeWhile [of "\<lambda>y. y < x" xs] by (simp add: lower_bound_in_def)
  moreover have "xs ! ?n \<le> xs ! i"
    using assms le by (simp add: sorted_nth_mono)
  ultimately show "x \<le> xs ! i"
    by simp
next
  assume "x \<le> xs ! i"
  show "lower_bound_in x xs \<le> i"
  proof (rule ccontr)
    assume "\<not> lower_bound_in x xs \<le> i"
    then have "i < length (takeWhile (\<lambda>y. y < x) xs)"
      by (simp add: lower_bound_in_def)
    then have "xs ! i < x"
      by (metis nth_mem set_takeWhileD takeWhile_nth)
    with \<open>x \<le> xs ! i\<close> show False
      by simp
  qed
qed

lemma lower_bound_finds:
  assumes "sorted xs" "x \<in> set xs"
  shows "lower_bound_in x xs < length xs" "xs ! lower_bound_in x xs = x"
proof -
  obtain i where i: "i < length xs" "xs ! i = x"
    using assms(2) by (metis in_set_conv_nth)
  then have le: "lower_bound_in x xs \<le> i"
    using lower_bound_before [OF assms(1) i(1), of x] by simp
  then show less: "lower_bound_in x xs < length xs"
    using i(1) by simp
  have "x \<le> xs ! lower_bound_in x xs"
    using lower_bound_before [OF assms(1) less, of x] by simp
  moreover have "xs ! lower_bound_in x xs \<le> x"
    using sorted_nth_mono [OF assms(1) le i(1)] i(2) by simp
  ultimately show "xs ! lower_bound_in x xs = x"
    by simp
qed

lemma sorted_erase_at:
  assumes "sorted xs" "i < length xs"
  shows "sorted (erase_at i xs)"
proof -
  have "sorted (take i xs @ xs ! i # drop (Suc i) xs)"
    using assms id_take_nth_drop [of i xs] by simp
  then show ?thesis
    by (simp add: erase_at_def sorted_append)
qed

lemma mset_erase_at: "i < length xs \<Longrightarrow> mset xs = add_mset (xs ! i) (mset (erase_at i xs))"
  by (metis erase_at_def id_take_nth_drop mset.simps(2) mset_append union_mset_add_mset_right)

lemma length_erase_at [simp]: "i < length xs \<Longrightarrow> length (erase_at i xs) = length xs - 1"
  by (simp add: erase_at_def)

lemma insert_at_nth:
  "i < length xs \<Longrightarrow> insert_at pos x xs ! (if pos \<le> i then i + 1 else i) = xs ! i"
  by (auto simp: insert_at_def nth_append min_def)

lemma erase_at_nth:
  "pos < length xs \<Longrightarrow> i < length xs \<Longrightarrow> pos \<noteq> i \<Longrightarrow> erase_at pos xs ! (if pos < i then i - 1 else i) = xs ! i"
  by (auto simp: erase_at_def nth_append min_def)

section \<open>The iterator stays on its rank\<close>

locale percentile_rank =
  fixes rank :: "nat \<Rightarrow> nat"
  assumes rank_le: "rank n \<le> n"
begin

definition on_rank :: "'a::linorder percentile_filter \<Rightarrow> bool" where
  "on_rank f \<longleftrightarrow> sorted (observations f) \<and> (observations f = [] \<longrightarrow> percentile_it f = 0)
     \<and> (observations f \<noteq> [] \<longrightarrow> percentile_it f = rank (length (observations f) - 1)
          \<and> percentile_index f = int (percentile_it f))"

lemma on_rank_new: "on_rank PercentileFilter"
  by (simp add: on_rank_def PercentileFilter_def)

lemma rank_less: "xs \<noteq> [] \<Longrightarrow> rank (length xs - 1) < length xs"
  using rank_le [of "length xs - 1"] by (cases xs) auto

text \<open>The update puts an iterator right whose index is its position.\<close>

lemma Update_on_rank:
  assumes "sorted (observations f)" "observations f \<noteq> []" "percentile_index f = int (percentile_it f)"
  obtains f' where "UpdatePercentileIterator rank f = Some f'" "on_rank f'" "observations f' = observations f"
proof -
  let ?f = "f\<lparr>percentile_it := rank (length (observations f) - 1), percentile_index := int (rank (length (observations f) - 1))\<rparr>"
  have "UpdatePercentileIterator rank f = Some ?f"
    using assms rank_less [of "observations f"] by (simp add: UpdatePercentileIterator_def Let_def)
  with assms(1,2) show thesis
    by (intro that [of ?f]) (auto simp: on_rank_def)
qed

lemma Insert_on_rank:
  assumes "on_rank f"
  obtains f' where "Percentile_Insert rank x f = Some f'" "on_rank f'"
    "mset (observations f') = add_mset x (mset (observations f))"
proof (cases "observations f = []")
  case True
  let ?g = "f\<lparr>observations := [x], percentile_it := 0, percentile_index := 0\<rparr>"
  obtain f' where f': "UpdatePercentileIterator rank ?g = Some f'" "on_rank f'" "observations f' = [x]"
    using Update_on_rank [of ?g] by auto
  with True show thesis
    by (intro that [of f']) (auto simp: Percentile_Insert_def insert_at_def upper_bound_in_def)
next
  case False
  let ?xs = "observations f" and ?pos = "upper_bound_in x (observations f)" and ?it = "percentile_it f"
  let ?it' = "if ?pos \<le> ?it then ?it + 1 else ?it"
  let ?g = "f\<lparr>observations := insert_at ?pos x ?xs, percentile_it := ?it', percentile_index := int ?it'\<rparr>"
  have sorted: "sorted ?xs" and it: "?it < length ?xs" and index: "percentile_index f = int ?it"
    using assms False rank_less [of ?xs] by (auto simp: on_rank_def)
  have grown: "insert_at ?pos x ?xs \<noteq> []" "length (insert_at ?pos x ?xs) \<noteq> 1" "?it' < length (insert_at ?pos x ?xs)"
    using it False by (auto simp: insert_at_def)
  have read: "at_position ?it' (insert_at ?pos x ?xs) = Some (?xs ! ?it)"
    using insert_at_nth [OF it, of ?pos x] grown(3) by (simp add: at_position_def)
  have same: "Percentile_Insert rank x f = UpdatePercentileIterator rank ?g"
  proof (cases "?pos \<le> ?it")
    case True
    then have "x < ?xs ! ?it"
      using upper_bound_before [OF sorted it, of x] by simp
    moreover have "at_position (Suc ?it) (insert_at ?pos x ?xs) = Some (?xs ! ?it)"
      using read True by simp
    ultimately show ?thesis
      using True grown(2) index by (simp add: Percentile_Insert_def Let_def add.commute)
  next
    case False_pos: False
    then have "\<not> x < ?xs ! ?it"
      using upper_bound_before [OF sorted it, of x] by simp
    moreover have "at_position ?it (insert_at ?pos x ?xs) = Some (?xs ! ?it)"
      using read False_pos by simp
    moreover have "f\<lparr>observations := insert_at ?pos x ?xs\<rparr> = ?g"
      using False_pos index by (cases f) simp
    ultimately show ?thesis
      using False_pos grown(2) by (simp add: Percentile_Insert_def Let_def)
  qed
  obtain f' where f': "UpdatePercentileIterator rank ?g = Some f'" "on_rank f'" "observations f' = insert_at ?pos x ?xs"
    using Update_on_rank [of ?g] sorted_insert_upper [OF sorted, of x] grown(1) by auto
  with same show thesis
    by (intro that [of f']) simp_all
qed

lemma Erase_on_rank:
  assumes "on_rank f" "x \<in> set (observations f)"
  obtains f' where "Percentile_Erase rank x f = Some (True, f')" "on_rank f'"
    "mset (observations f) = add_mset x (mset (observations f'))"
proof -
  let ?xs = "observations f" and ?pos = "lower_bound_in x (observations f)" and ?it = "percentile_it f"
  let ?it' = "if ?pos < ?it then ?it - 1 else ?it"
  let ?g = "f\<lparr>observations := erase_at ?pos ?xs, percentile_it := ?it', percentile_index := int ?it'\<rparr>"
  have sorted: "sorted ?xs" and it: "?it < length ?xs" and index: "percentile_index f = int ?it"
    using assms rank_less [of ?xs] by (auto simp: on_rank_def)
  have pos: "?pos < length ?xs" "?xs ! ?pos = x"
    using lower_bound_finds [OF sorted assms(2)] .
  have split: "mset ?xs = add_mset x (mset (erase_at ?pos ?xs))"
    using mset_erase_at [OF pos(1)] pos(2) by simp
  have same: "Percentile_Erase rank x f = do { f' \<leftarrow> UpdatePercentileIterator rank ?g; Some (True, f') }"
  proof (cases "?pos = ?it")
    case True
    then have "f\<lparr>observations := erase_at ?pos ?xs\<rparr> = ?g"
      using index by (cases f) simp
    with True pos show ?thesis
      by (simp add: Percentile_Erase_def Let_def)
  next
    case False
    have shrunk: "?it' < length (erase_at ?pos ?xs)"
      using False pos(1) it by auto
    then have read: "at_position ?it' (erase_at ?pos ?xs) = Some (?xs ! ?it)"
      using erase_at_nth [OF pos(1) it False] by (simp add: at_position_def)
    show ?thesis
    proof (cases "?pos < ?it")
      case True
      then have "x \<le> ?xs ! ?it"
        using lower_bound_before [OF sorted it, of x] by simp
      moreover have "at_position (?it - 1) (erase_at ?pos ?xs) = Some (?xs ! ?it)"
        using read True by simp
      moreover have "int ?it - 1 = int (?it - 1)"
        using True by simp
      ultimately show ?thesis
        using True pos index by (simp add: Percentile_Erase_def Let_def)
    next
      case not_less: False
      then have "\<not> x \<le> ?xs ! ?it"
        using False lower_bound_before [OF sorted it, of x] by simp
      moreover have "at_position ?it (erase_at ?pos ?xs) = Some (?xs ! ?it)"
        using read not_less by simp
      moreover have "f\<lparr>observations := erase_at ?pos ?xs, percentile_it := ?it\<rparr> = ?g"
        using not_less index by (cases f) simp
      ultimately show ?thesis
        using not_less False pos by (simp add: Percentile_Erase_def Let_def)
    qed
  qed
  show thesis
  proof (cases "erase_at ?pos ?xs = []")
    case True
    then have "length ?xs = 1"
      using pos(1) length_erase_at [OF pos(1)] by simp
    with True same split it pos(1) show thesis
      by (intro that [of ?g]) (auto simp: UpdatePercentileIterator_def on_rank_def)
  next
    case False
    then obtain f' where "UpdatePercentileIterator rank ?g = Some f'" "on_rank f'" "observations f' = erase_at ?pos ?xs"
      using Update_on_rank [of ?g] sorted_erase_at [OF sorted pos(1)] by auto
    with same split show thesis
      by (intro that [of f']) auto
  qed
qed

lemma value_on_rank:
  assumes "on_rank f" "observations f \<noteq> []"
  shows "GetPercentileValue f = Some (observations f ! rank (length (observations f) - 1))"
  using assms rank_less [of "observations f"] by (simp add: GetPercentileValue_def on_rank_def at_position_def)

text \<open>The window and the filter hold the same samples.\<close>

definition moving_ok :: "'a::linorder moving_filter \<Rightarrow> bool" where
  "moving_ok m \<longleftrightarrow> on_rank (the_filter m) \<and> mset (observations (the_filter m)) = mset (window m)
     \<and> samples_stored m = length (window m) \<and> length (window m) \<le> window_size m"

lemma Moving_Insert_ok:
  assumes "moving_ok m"
  obtains m' where "Moving_Insert rank x m = Some m'" "moving_ok m'" "window_size m' = window_size m"
    "window m' = (let w = window m @ [x] in drop (length w - window_size m) w)"
proof -
  obtain f where f: "Percentile_Insert rank x (the_filter m) = Some f" "on_rank f"
    "mset (observations f) = add_mset x (mset (window m))"
    using Insert_on_rank [of "the_filter m" x] assms by (metis moving_ok_def)
  show thesis
  proof (cases "length (window m) < window_size m")
    case True
    with f assms show thesis
      by (intro that [of "m\<lparr>the_filter := f, window := window m @ [x], samples_stored := samples_stored m + 1\<rparr>"])
        (auto simp: Moving_Insert_def moving_ok_def Let_def)
  next
    case False
    then have full: "length (window m) = window_size m"
      using assms by (simp add: moving_ok_def)
    obtain w ws where w: "window m @ [x] = w # ws"
      by (cases "window m @ [x]") auto
    then have all: "mset (observations f) = add_mset w (mset ws)"
      using f(3) by (metis add_mset_add_single mset.simps mset_append)
    then have "w \<in> set (observations f)"
      by (metis set_mset_mset union_single_eq_member)
    then obtain g where g: "Percentile_Erase rank w f = Some (True, g)" "on_rank g"
      "mset (observations f) = add_mset w (mset (observations g))"
      using Erase_on_rank [OF f(2)] by metis
    have "length ws = window_size m"
      using arg_cong [OF w, of length] full by simp
    with f(1) g w all full assms show thesis
      by (intro that [of "m\<lparr>the_filter := g, window := ws, samples_stored := samples_stored m\<rparr>"])
        (auto simp: Moving_Insert_def moving_ok_def Let_def)
  qed
qed

end

interpretation median: percentile_rank median_rank
  by unfold_locales (simp add: median_rank_def)

section \<open>Properties\<close>

datatype 'a window_op = Window_Insert 'a | Window_Reset

fun run_window :: "(nat \<Rightarrow> nat) \<Rightarrow> 'a::linorder window_op list \<Rightarrow> 'a moving_filter \<Rightarrow> 'a moving_filter checked" where
  "run_window rank [] m = Some m"
| "run_window rank (Window_Insert x # ops) m = do { m' \<leftarrow> Moving_Insert rank x m; run_window rank ops m' }"
| "run_window rank (Window_Reset # ops) m = run_window rank ops (Moving_Reset m)"

text \<open>The samples since the last reset, and the newest \<open>n\<close> of a list.\<close>

fun samples_of :: "'a list \<Rightarrow> 'a window_op list \<Rightarrow> 'a list" where
  "samples_of xs [] = xs"
| "samples_of xs (Window_Insert x # ops) = samples_of (xs @ [x]) ops"
| "samples_of xs (Window_Reset # ops) = samples_of [] ops"

definition newest :: "nat \<Rightarrow> 'a list \<Rightarrow> 'a list" where
  "newest n xs = drop (length xs - n) xs"

lemma newest_snoc: "0 < n \<Longrightarrow> newest n (newest n xs @ [x]) = newest n (xs @ [x])"
  by (cases "length xs < n") (auto simp: newest_def Suc_diff_le)

lemma run_window_ok:
  assumes "percentile_rank rank" "percentile_rank.moving_ok rank m" "window m = newest n xs" "window_size m = n" "0 < n"
  shows "\<exists>m'. run_window rank ops m = Some m' \<and> percentile_rank.moving_ok rank m' \<and> window m' = newest n (samples_of xs ops)"
  using assms(2-4)
proof (induction ops arbitrary: m xs)
  case (Cons op ops)
  show ?case
  proof (cases op)
    case (Window_Insert x)
    obtain m' where m': "Moving_Insert rank x m = Some m'" "percentile_rank.moving_ok rank m'" "window_size m' = window_size m"
      "window m' = (let w = window m @ [x] in drop (length w - window_size m) w)"
      using percentile_rank.Moving_Insert_ok [OF assms(1) Cons.prems(1)] .
    then have "window m' = newest n (xs @ [x])"
      using Cons.prems(2,3) newest_snoc [OF assms(5), of xs x] by (simp add: newest_def [of n "_ @ _"] Let_def)
    with m' Cons.IH [of m' "xs @ [x]"] Cons.prems(3) Window_Insert show ?thesis
      by simp
  next
    case Window_Reset
    have "percentile_rank.moving_ok rank (Moving_Reset m)"
      by (simp add: percentile_rank.moving_ok_def [OF assms(1)] percentile_rank.on_rank_def [OF assms(1)]
          Moving_Reset_def Percentile_Reset_def)
    with Cons.IH [of "Moving_Reset m" "[]"] Cons.prems Window_Reset show ?thesis
      by (simp add: Moving_Reset_def newest_def)
  qed
qed simp

lemma moving_value:
  assumes "percentile_rank rank" "percentile_rank.moving_ok rank m" "window m \<noteq> []"
  shows "GetFilteredValue m = Some (sort (window m) ! rank (length (window m) - 1))"
proof -
  let ?xs = "observations (the_filter m)"
  have ok: "percentile_rank.on_rank rank (the_filter m)" "mset ?xs = mset (window m)"
    using assms(2) by (simp_all add: percentile_rank.moving_ok_def [OF assms(1)])
  then have "sort (window m) = ?xs"
    by (simp add: percentile_rank.on_rank_def [OF assms(1)] properties_for_sort)
  moreover have "length ?xs = length (window m)"
    using ok(2) by (metis size_mset)
  moreover have "?xs \<noteq> []"
    using assms(3) ok(2) by auto
  ultimately show ?thesis
    using percentile_rank.value_on_rank [OF assms(1) ok(1)] by (simp add: GetFilteredValue_def)
qed

text \<open>C29: after any inserts and resets \<open>MovingPercentileFilter\<close> answers as sorting the newest
  \<open>window_size\<close> samples would: the element of the requested rank, or 0 when there is none; and it stores
  exactly those samples.\<close>

theorem moving_percentile_is_order_statistic:
  assumes "\<And>k. rank k \<le> k" "0 < n"
  shows "\<exists>m. do { m0 \<leftarrow> MovingPercentileFilter n; run_window rank ops m0 } = Some m
    \<and> (let w = newest n (samples_of [] ops)
       in GetNumberOfSamplesStored m = length w
         \<and> GetFilteredValue m = Some (if w = [] then 0 else sort w ! rank (length w - 1)))"
proof -
  have law: "percentile_rank rank"
    by unfold_locales (rule assms(1))
  let ?m = "\<lparr>the_filter = PercentileFilter, window = [], samples_stored = 0, window_size = n\<rparr>"
  have "percentile_rank.moving_ok rank ?m"
    using percentile_rank.on_rank_new [OF law]
    by (simp add: percentile_rank.moving_ok_def [OF law]) (simp add: PercentileFilter_def)
  then obtain m where m: "run_window rank ops ?m = Some m" "percentile_rank.moving_ok rank m"
    "window m = newest n (samples_of [] ops)"
    using run_window_ok [OF law, of ?m n "[]" ops] assms(2) by (auto simp: newest_def)
  have "GetFilteredValue m = Some 0" if "window m = []"
    using that m(2) by (simp add: percentile_rank.moving_ok_def [OF law] GetFilteredValue_def GetPercentileValue_def)
  moreover have "GetNumberOfSamplesStored m = length (window m)"
    using m(2) by (simp add: percentile_rank.moving_ok_def [OF law] GetNumberOfSamplesStored_def)
  ultimately show ?thesis
    using m assms(2) moving_value [OF law m(2)] by (simp add: MovingPercentileFilter_def Let_def)
qed

theorem moving_percentile_is_order_statistic_witness:
  "\<exists>m. do { m0 \<leftarrow> MovingPercentileFilter 3; run_window median_rank (map Window_Insert [9, 1, 5, 2]) m0 } = Some m
    \<and> GetFilteredValue m = Some (2::int)"
  using moving_percentile_is_order_statistic [of median_rank 3 "map Window_Insert [9, 1, 5, 2::int]"]
  by (auto simp: median_rank_def newest_def Let_def)

end
