(* ===== verification/Sample_Counters.thy ===== *)
theory Sample_Counters
  imports Safe_Numerics Percentile_Filter
begin

text \<open>
  \<open>rtc_base/numerics/moving_average.cc\<close>, \<open>histogram_percentile_counter.cc\<close> and \<open>sample_counter.cc\<close>:
  running sums and counts.  \<open>size_t\<close> has 64 bits and its sums wrap (\<open>usize\<close>); sums in \<open>int64_t\<close> are
  undefined when they overflow.  What is computed in \<open>double\<close> or \<open>float\<close> is not modelled, except that
  the number of elements that \<open>GetPercentile\<close> skips is an argument.
\<close>

definition usize :: "nat \<Rightarrow> nat" where
  "usize n = n mod 2 ^ 64"

lemma usize_small [simp]: "n < 2 ^ 64 \<Longrightarrow> usize n = n"
  by (simp add: usize_def)

section \<open>MovingAverage\<close>

record moving_average =
  ma_count :: nat
  ma_sum :: int
  ma_history :: "int list"

definition MovingAverage :: "nat \<Rightarrow> moving_average checked" where
  "MovingAverage n = do {
     rtc_check (n \<le> 2 ^ 32 - 1);
     Some \<lparr>ma_count = 0, ma_sum = 0, ma_history = replicate n 0\<rparr>
   }"

definition AddSample :: "int \<Rightarrow> moving_average \<Rightarrow> moving_average checked" where
  "AddSample sample m = do {
     let count = usize (ma_count m + 1);
     rtc_check (ma_history m \<noteq> []);
     let index = count mod length (ma_history m);
     s \<leftarrow> (if length (ma_history m) < count then i64_sub (ma_sum m) (ma_history m ! index) else Some (ma_sum m));
     s \<leftarrow> i64_add s sample;
     Some (m\<lparr>ma_count := count, ma_sum := s, ma_history := (ma_history m)[index := sample]\<rparr>)
   }"

definition ma_Size :: "moving_average \<Rightarrow> nat" where
  "ma_Size m = min (ma_count m) (length (ma_history m))"

text \<open>The sum is converted to \<open>size_t\<close> for the division, and the quotient to \<open>int\<close>.\<close>

definition GetAverageRoundedDown :: "moving_average \<Rightarrow> int option" where
  "GetAverageRoundedDown m =
     (if ma_count m = 0 then None else Some (convert int32_t (convert uint64_t (ma_sum m) div int (ma_Size m))))"

definition GetAverageRoundedToClosest :: "moving_average \<Rightarrow> int option" where
  "GetAverageRoundedToClosest m =
     (if ma_count m = 0 then None
      else Some (convert int32_t (convert uint64_t (ma_sum m + int (ma_Size m div 2)) div int (ma_Size m))))"

definition ma_Reset :: "moving_average \<Rightarrow> moving_average" where
  "ma_Reset m = m\<lparr>ma_count := 0, ma_sum := 0\<rparr>"

subsection \<open>The circular buffer\<close>

definition ma_holds :: "nat \<Rightarrow> int list \<Rightarrow> moving_average \<Rightarrow> bool" where
  "ma_holds n xs m \<longleftrightarrow> length (ma_history m) = n \<and> ma_count m = length xs \<and> ma_sum m = sum_list (newest n xs)
     \<and> (\<forall>k < length xs. length xs < k + 1 + n \<longrightarrow> ma_history m ! ((k + 1) mod n) = xs ! k)"

lemma sum_newest_snoc:
  assumes "0 < n"
  shows "sum_list (newest n (xs @ [x])) =
    (if n < length xs + 1 then sum_list (newest n xs) - xs ! (length xs - n) else sum_list (newest n xs)) + (x::int)"
proof (cases "n < length xs + 1")
  case True
  then have "drop (length xs - n) xs = xs ! (length xs - n) # drop (Suc (length xs - n)) xs"
    using assms by (intro Cons_nth_drop_Suc [symmetric]) auto
  with True assms show ?thesis
    by (cases n) (simp_all add: newest_def Suc_diff_le Suc_diff_Suc)
qed (use assms in \<open>simp add: newest_def\<close>)

text \<open>What the sum is between the subtraction and the addition.\<close>

lemma sum_newest_between:
  assumes "0 < n"
  shows "(if n < length xs + 1 then sum_list (newest n xs) - xs ! (length xs - n) else sum_list (newest n xs))
    = sum_list (newest (n - 1) (xs::int list))"
proof (cases "n < length xs + 1")
  case True
  then have "drop (length xs - n) xs = xs ! (length xs - n) # drop (Suc (length xs - n)) xs"
    using assms by (intro Cons_nth_drop_Suc [symmetric]) auto
  with True assms show ?thesis
    by (cases n) (simp_all add: newest_def Suc_diff_le Suc_diff_Suc)
qed (use assms in \<open>simp add: newest_def\<close>)

lemma abs_sum_list_le:
  assumes "\<forall>x \<in> set xs. \<bar>x\<bar> \<le> (b::int)"
  shows "\<bar>sum_list xs\<bar> \<le> int (length xs) * b"
  using assms by (induction xs) (auto simp: distrib_right)

lemma sum_list_le: "\<forall>x \<in> set xs. x \<le> (b::int) \<Longrightarrow> sum_list xs \<le> int (length xs) * b"
  by (induction xs) (auto simp: distrib_right)

lemma newest_props: "set (newest n xs) \<subseteq> set xs" "length (newest n xs) = min (length xs) n"
  by (auto simp: newest_def dest: in_set_dropD)

lemma newest_sum_small:
  assumes "\<forall>x \<in> set xs. in_i32 x" "n \<le> 2 ^ 32 - 1"
  shows "\<bar>sum_list (newest n xs)\<bar> \<le> (2 ^ 32 - 1) * 2 ^ 31"
proof -
  have "\<forall>x \<in> set (newest n xs). \<bar>x\<bar> \<le> 2 ^ 31"
    using assms(1) newest_props(1) [of n xs] by (fastforce simp: int_ranges)
  then have "\<bar>sum_list (newest n xs)\<bar> \<le> int (length (newest n xs)) * 2 ^ 31"
    by (rule abs_sum_list_le)
  also have "int (length (newest n xs)) * 2 ^ 31 \<le> (2 ^ 32 - 1) * 2 ^ 31"
    using assms(2) newest_props(2) [of n xs] by (intro mult_right_mono) auto
  finally show ?thesis .
qed

lemma mod_next_differs:
  assumes "(k + 1) mod n = (m + 1) mod n" "k < m" "m < k + (n::nat)"
  shows False
proof -
  have "n dvd (m + 1) - (k + 1)"
    using assms(1,2) by (metis add_le_cancel_right less_imp_le mod_eq_dvd_iff_nat)
  then show False
    using assms(2,3) by (auto dest: dvd_imp_le)
qed

lemma AddSample_holds:
  assumes "ma_holds n xs m" "0 < n" "n \<le> 2 ^ 32 - 1" "\<forall>x \<in> set (xs @ [x]). in_i32 x" "length xs + 1 < 2 ^ 64"
  obtains m' where "AddSample x m = Some m'" "ma_holds n (xs @ [x]) m'"
proof -
  let ?i = "(length xs + 1) mod n"
  have len: "length (ma_history m) = n" "ma_count m = length xs" "ma_sum m = sum_list (newest n xs)"
    and slots: "\<And>k. k < length xs \<Longrightarrow> length xs < k + 1 + n \<Longrightarrow> ma_history m ! ((k + 1) mod n) = xs ! k"
    using assms(1) by (auto simp: ma_holds_def)
  define base where "base = (if n < length xs + 1 then sum_list (newest n xs) - xs ! (length xs - n) else sum_list (newest n xs))"
  have oldest: "ma_history m ! ?i = xs ! (length xs - n)" if "n < length xs + 1"
    using slots [of "length xs - n"] that assms(2) by (simp add: Suc_diff_le le_mod_geq)
  have total: "sum_list (newest n (xs @ [x])) = base + x"
    using sum_newest_snoc [OF assms(2), of xs x] by (simp add: base_def)
  have small: "in_i64 (sum_list (newest n (xs @ [x])))"
    using newest_sum_small [OF assms(4,3)] by (simp add: int_ranges abs_le_iff)
  have "n - 1 \<le> 2 ^ 32 - 1"
    using assms(3) by simp
  then have base_small: "in_i64 base"
    using newest_sum_small [of xs "n - 1"] sum_newest_between [OF assms(2), of xs] assms(3,4)
    by (simp add: base_def int_ranges abs_le_iff)
  define m' where "m' = m\<lparr>ma_count := length xs + 1, ma_sum := base + x, ma_history := (ma_history m)[?i := x]\<rparr>"
  have "AddSample x m = Some m'"
    using len oldest base_small small assms(2,5)
    by (auto simp: AddSample_def i64_ops base_def m'_def total Let_def)
  moreover have "ma_history m' ! ((k + 1) mod n) = (xs @ [x]) ! k" if k: "k < length xs + 1" "length xs + 1 < k + 1 + n" for k
  proof (cases "k = length xs")
    case True
    then show ?thesis
      using len(1) assms(2) by (simp add: m'_def)
  next
    case False
    then have less: "k < length xs"
      using k(1) by simp
    then have "(k + 1) mod n \<noteq> ?i"
      using mod_next_differs [of k n "length xs"] k(2) by auto
    then show ?thesis
      using slots [OF less] less k(2) by (simp add: m'_def nth_append)
  qed
  then have "ma_holds n (xs @ [x]) m'"
    using len(1) total by (simp add: ma_holds_def m'_def)
  ultimately show thesis
    using that by blast
qed

fun add_samples :: "int list \<Rightarrow> moving_average \<Rightarrow> moving_average checked" where
  "add_samples [] m = Some m"
| "add_samples (x # xs) m = do { m' \<leftarrow> AddSample x m; add_samples xs m' }"

lemma add_samples_holds:
  assumes "ma_holds n xs m" "0 < n" "n \<le> 2 ^ 32 - 1" "\<forall>x \<in> set (xs @ ys). in_i32 x" "length (xs @ ys) < 2 ^ 64"
  shows "\<exists>m'. add_samples ys m = Some m' \<and> ma_holds n (xs @ ys) m'"
  using assms
proof (induction ys arbitrary: xs m)
  case (Cons y ys)
  then obtain m' where "AddSample y m = Some m'" "ma_holds n (xs @ [y]) m'"
    using AddSample_holds [of n xs m y] by auto
  with Cons.IH [of "xs @ [y]" m'] Cons.prems show ?case
    by simp
qed simp

lemma quotient_i32:
  assumes "0 \<le> s" "s < int k * 2147483648" "0 < k" "s < 2 ^ 64"
  shows "convert int32_t (convert uint64_t s div int k) = s div int k"
proof -
  have "s div int k < 2147483648"
  proof (rule ccontr)
    assume "\<not> s div int k < 2147483648"
    then have "2147483648 * int k \<le> (s div int k) * int k"
      by (intro mult_right_mono) auto
    then show False
      using assms(2,3) div_bounds [of "int k" s] by linarith
  qed
  moreover have "0 \<le> s div int k"
    using assms(1,3) by (simp add: pos_imp_zdiv_nonneg_iff)
  ultimately show ?thesis
    using assms by simp
qed

text \<open>C30: after any samples \<open>MovingAverage\<close> holds the exact sum of the newest \<open>window_size\<close> of them, its
  sum never leaves \<open>int64_t\<close>, and when the sum is not negative both averages are exact, rounded down
  and rounded to the closest.\<close>

theorem moving_average_of_newest:
  assumes "0 < n" "n \<le> 2 ^ 32 - 1" "\<forall>x \<in> set xs. in_i32 x" "length xs < 2 ^ 64" "xs \<noteq> []"
  shows "\<exists>m. do { m0 \<leftarrow> MovingAverage n; add_samples xs m0 } = Some m
    \<and> ma_sum m = sum_list (newest n xs) \<and> ma_Size m = length (newest n xs)
    \<and> (let s = sum_list (newest n xs); k = length (newest n xs)
       in 0 \<le> s \<longrightarrow> GetAverageRoundedDown m = Some (s div int k)
          \<and> GetAverageRoundedToClosest m = Some ((s + int (k div 2)) div int k))"
proof -
  have "ma_holds n [] \<lparr>ma_count = 0, ma_sum = 0, ma_history = replicate n 0\<rparr>"
    by (simp add: ma_holds_def newest_def)
  then obtain m where m: "add_samples xs \<lparr>ma_count = 0, ma_sum = 0, ma_history = replicate n 0\<rparr> = Some m"
    "ma_holds n xs m"
    using add_samples_holds [of n "[]" _ xs] assms by auto
  let ?k = "length (newest n xs)" and ?s = "sum_list (newest n xs)"
  have size: "ma_Size m = ?k" and k: "0 < ?k" "?k \<le> 2 ^ 32 - 1" and sum: "ma_sum m = ?s" and count: "ma_count m \<noteq> 0"
    using m(2) assms(1,2,5) newest_props(2) [of n xs] by (auto simp: ma_holds_def ma_Size_def)
  have most: "?s \<le> int ?k * 2147483647"
    using assms(3) newest_props(1) [of n xs] by (intro sum_list_le) (auto simp: int_ranges)
  have less: "?s + int (?k div 2) < int ?k * 2147483648"
  proof -
    have "int (?k div 2) < int ?k"
      using k(1) by (subst of_nat_less_iff) simp
    moreover have "int ?k * 2147483648 = int ?k * 2147483647 + int ?k"
      by simp
    ultimately show ?thesis
      using most by linarith
  qed
  have "?s < 2 ^ 62 + 2 ^ 63" "int (?k div 2) < 2 ^ 32"
    using newest_sum_small [OF assms(3,2)] k(2) by (auto simp: abs_le_iff)
  then have "?s + int (?k div 2) < 2 ^ 64" "?s < 2 ^ 64"
    by simp_all
  then have "0 \<le> ?s \<longrightarrow> GetAverageRoundedDown m = Some (?s div int ?k)
      \<and> GetAverageRoundedToClosest m = Some ((?s + int (?k div 2)) div int ?k)"
    using quotient_i32 [of ?s ?k] quotient_i32 [of "?s + int (?k div 2)" ?k] less k(1) count
    by (simp add: GetAverageRoundedDown_def GetAverageRoundedToClosest_def size sum del: convert_numeral)
  then show ?thesis
    using m size sum assms(2) by (simp add: MovingAverage_def Let_def)
qed

theorem moving_average_of_newest_witness:
  "\<exists>m. do { m0 \<leftarrow> MovingAverage 2; add_samples [10, 3, 4] m0 } = Some m \<and> GetAverageRoundedDown m = Some 3
    \<and> GetAverageRoundedToClosest m = Some 4"
  using moving_average_of_newest [of 2 "[10, 3, 4]"] by (auto simp: newest_def int_ranges)

text \<open>With a negative sum the division is one of \<open>size_t\<close>: three samples of -1 have the average 1431655764.\<close>

lemma moving_average_of_negatives:
  "\<exists>m. do { m0 \<leftarrow> MovingAverage 3; add_samples [-1, -1, -1] m0 } = Some m \<and> GetAverageRoundedDown m = Some 1431655764"
  by (simp add: MovingAverage_def AddSample_def i64_ops int_ranges Let_def usize_def GetAverageRoundedDown_def ma_Size_def convert_def)

section \<open>HistogramPercentileCounter\<close>

text \<open>The map \<open>histogram_high_\<close> is the list of its entries by increasing key.\<close>

record histogram =
  histogram_low :: "nat list"
  histogram_high :: "(nat \<times> nat) list"
  long_tail_boundary :: nat
  total_elements :: nat
  total_elements_low :: nat

definition HistogramPercentileCounter :: "nat \<Rightarrow> histogram" where
  "HistogramPercentileCounter boundary = \<lparr>histogram_low = replicate boundary 0, histogram_high = [],
     long_tail_boundary = boundary, total_elements = 0, total_elements_low = 0\<rparr>"

fun add_count :: "nat \<Rightarrow> nat \<Rightarrow> (nat \<times> nat) list \<Rightarrow> (nat \<times> nat) list" where
  "add_count v c [] = [(v, usize c)]"
| "add_count v c ((w, d) # es) =
     (if v < w then (v, usize c) # (w, d) # es
      else if v = w then (w, usize (d + c)) # es
      else (w, d) # add_count v c es)"

definition Histogram_Add :: "nat \<Rightarrow> nat \<Rightarrow> histogram \<Rightarrow> histogram" where
  "Histogram_Add value n h =
     (let h = (if value < long_tail_boundary h
               then h\<lparr>histogram_low := (histogram_low h)[value := usize (histogram_low h ! value + n)],
                      total_elements_low := usize (total_elements_low h + n)\<rparr>
               else h\<lparr>histogram_high := add_count value n (histogram_high h)\<rparr>)
      in h\<lparr>total_elements := usize (total_elements h + n)\<rparr>)"

definition Histogram_Add_one :: "nat \<Rightarrow> histogram \<Rightarrow> histogram" where
  "Histogram_Add_one value h = Histogram_Add value 1 h"

text \<open>The second loop runs over the entries of the counter itself; the entries it changes are
  the ones it stands on.\<close>

definition Histogram_Add_other :: "histogram \<Rightarrow> histogram \<Rightarrow> histogram" where
  "Histogram_Add_other other h =
     (let h = fold (\<lambda>value. Histogram_Add value (histogram_low other ! value)) [0..<long_tail_boundary other] h
      in fold (\<lambda>(value, n). Histogram_Add value n) (histogram_high h) h)"

fun find_low :: "nat \<Rightarrow> nat list \<Rightarrow> nat \<Rightarrow> nat option" where
  "find_low value [] skip = None"
| "find_low value (n # ns) skip = (if skip < n then Some value else find_low (value + 1) ns (skip - n))"

fun find_high :: "(nat \<times> nat) list \<Rightarrow> nat \<Rightarrow> nat option" where
  "find_high [] skip = None"
| "find_high ((value, n) # es) skip = (if skip < n then Some value else find_high es (skip - n))"

text \<open>\<open>GetPercentile\<close>: \<open>None\<close> when the code does not reach a \<open>return\<close> of the loops; \<open>skip\<close> gives what
  \<open>max(0, ceil(total * fraction) - 1)\<close> is for a total.\<close>

definition GetPercentile :: "(nat \<Rightarrow> nat) \<Rightarrow> histogram \<Rightarrow> nat option checked" where
  "GetPercentile skip h =
     (if total_elements h = 0 then Some None
      else do {
        let n = skip (total_elements h);
        let n = (if total_elements h \<le> n then total_elements h - 1 else n);
        let found = (if n < total_elements_low h then find_low 0 (histogram_low h) n
          else find_high (histogram_high h) (n - total_elements_low h));
        rtc_check (found \<noteq> None);
        Some found
      })"

subsection \<open>The values in order\<close>

definition expand :: "(nat \<times> nat) list \<Rightarrow> nat list" where
  "expand es = concat (map (\<lambda>(v, n). replicate n v) es)"

lemma expand_simps [simp]:
  "expand [] = []"
  "expand ((v, n) # es) = replicate n v @ expand es"
  "expand (es @ fs) = expand es @ expand fs"
  by (simp_all add: expand_def)

definition low_entries :: "nat list \<Rightarrow> (nat \<times> nat) list" where
  "low_entries ns = zip [0..<length ns] ns"

lemma find_high_expand: "find_high es k = (if k < length (expand es) then Some (expand es ! k) else None)"
  by (induction es k rule: find_high.induct) (auto simp: nth_append)

lemma find_low_expand: "find_low v ns k = find_high (zip [v..<v + length ns] ns) k"
  by (induction v ns k rule: find_low.induct) (auto simp: upt_conv_Cons simp del: upt_Suc)

lemma sorted_expand: "sorted (map fst es) \<Longrightarrow> sorted (expand es)"
proof (induction es)
  case (Cons e es)
  have "set (expand es) \<subseteq> set (map fst es)"
    by (auto simp: expand_def intro: rev_image_eqI)
  with Cons show ?case
    by (cases e) (auto simp: sorted_append)
qed simp

definition held :: "nat list \<Rightarrow> histogram \<Rightarrow> bool" where
  "held vs h \<longleftrightarrow> length (histogram_low h) = long_tail_boundary h
     \<and> sorted_wrt (<) (map fst (histogram_high h)) \<and> (\<forall>e \<in> set (histogram_high h). long_tail_boundary h \<le> fst e)
     \<and> mset (expand (low_entries (histogram_low h))) + mset (expand (histogram_high h)) = mset vs
     \<and> total_elements h = length vs \<and> total_elements_low h = length (expand (low_entries (histogram_low h)))"

lemma count_expand_zip:
  "count (mset (expand (zip [a..<a + length ns] ns))) v = (if a \<le> v \<and> v < a + length ns then ns ! (v - a) else 0)"
proof (induction ns arbitrary: a)
  case (Cons n ns)
  show ?case
    using Cons.IH [of "Suc a"] by (cases "v = a") (auto simp: upt_conv_Cons nth_Cons' simp del: upt_Suc)
qed simp

lemma expand_low_update:
  assumes "v < length ns"
  shows "mset (expand (low_entries (ns[v := ns ! v + n]))) = mset (expand (low_entries ns)) + replicate_mset n v"
  using assms count_expand_zip [of 0 ns] count_expand_zip [of 0 "ns[v := ns ! v + n]"]
  by (intro multiset_eqI) (simp add: low_entries_def nth_list_update)

lemma expand_add_count:
  assumes "length (expand es) + n < 2 ^ 64"
  shows "mset (expand (add_count v n es)) = mset (expand es) + replicate_mset n v"
  using assms by (induction v n es rule: add_count.induct) (auto simp: multiset_eq_iff)

lemma add_count_keys: "set (map fst (add_count v n es)) = insert v (set (map fst es))"
  by (induction v n es rule: add_count.induct) auto

lemma add_count_sorted: "sorted_wrt (<) (map fst es) \<Longrightarrow> sorted_wrt (<) (map fst (add_count v n es))"
proof (induction v n es rule: add_count.induct)
  case (2 v c w d es)
  then show ?case
    using add_count_keys [of v c es] by (auto simp: sorted_wrt_append)
qed simp

lemma low_le_total:
  assumes "v < length ns"
  shows "ns ! v \<le> length (expand (low_entries ns))"
  using count_expand_zip [of 0 ns v] assms count_le_size [of "mset (expand (low_entries ns))" v]
  by (simp add: low_entries_def)

lemma held_sizes:
  assumes "held vs h"
  shows "length (expand (low_entries (histogram_low h))) + length (expand (histogram_high h)) = length vs"
  using assms by (metis held_def size_mset size_union)

lemma held_Add:
  assumes "held vs h" "length vs + n < 2 ^ 64"
  shows "held (vs @ replicate n v) (Histogram_Add v n h)"
proof -
  note sizes = held_sizes [OF assms(1)]
  show ?thesis
  proof (cases "v < long_tail_boundary h")
    case True
    then have "v < length (histogram_low h)"
      using assms(1) by (simp add: held_def)
    then have low: "mset (expand (low_entries ((histogram_low h)[v := histogram_low h ! v + n])))
        = mset (expand (low_entries (histogram_low h))) + replicate_mset n v"
      and small: "histogram_low h ! v + n < 2 ^ 64"
      using expand_low_update low_le_total [of v "histogram_low h"] sizes assms(2) by (blast, linarith)
    from low have "length (expand (low_entries ((histogram_low h)[v := histogram_low h ! v + n])))
        = length (expand (low_entries (histogram_low h))) + n"
      by (metis size_mset size_replicate_mset size_union)
    with True small low assms sizes show ?thesis
      by (simp add: held_def Histogram_Add_def union_ac)
  next
    case False
    have "mset (expand (add_count v n (histogram_high h))) = mset (expand (histogram_high h)) + replicate_mset n v"
      using expand_add_count sizes assms(2) by simp
    moreover have "long_tail_boundary h \<le> k" if "k \<in> fst ` set (add_count v n (histogram_high h))" for k
      using that False assms(1) add_count_keys [of v n "histogram_high h"] by (auto simp: held_def)
    ultimately show ?thesis
      using False assms add_count_sorted [of "histogram_high h" v n]
      by (simp add: held_def Histogram_Add_def union_ac)
  qed
qed

lemma held_sort:
  assumes "held vs h"
  shows "sort vs = expand (low_entries (histogram_low h)) @ expand (histogram_high h)"
proof (rule properties_for_sort)
  let ?low = "low_entries (histogram_low h)" and ?high = "histogram_high h"
  show "mset (expand ?low @ expand ?high) = mset vs"
    using assms by (simp add: held_def)
  have "sorted (map fst (?low @ ?high))"
    using assms strict_sorted_imp_sorted [of "map fst ?high"]
    by (fastforce simp: held_def low_entries_def sorted_append)
  then show "sorted (expand ?low @ expand ?high)"
    using sorted_expand by fastforce
qed

fun add_counts :: "(nat \<times> nat) list \<Rightarrow> histogram \<Rightarrow> histogram" where
  "add_counts [] h = h"
| "add_counts ((v, n) # es) h = add_counts es (Histogram_Add v n h)"

lemma held_add_counts:
  "held vs h \<Longrightarrow> length (vs @ expand es) < 2 ^ 64 \<Longrightarrow> held (vs @ expand es) (add_counts es h)"
proof (induction es arbitrary: vs h)
  case (Cons e es)
  obtain v n where e: "e = (v, n)"
    by (cases e)
  have "held (vs @ replicate n v) (Histogram_Add v n h)"
    using held_Add Cons.prems e by simp
  with Cons.IH [of "vs @ replicate n v"] Cons.prems(2) e show ?case
    by simp
qed simp

lemma held_new: "held [] (HistogramPercentileCounter b)"
proof -
  have "length (expand (low_entries (replicate b 0))) = 0"
    by (auto simp: low_entries_def expand_def in_set_zip)
  then show ?thesis
    by (simp add: held_def HistogramPercentileCounter_def expand_def)
qed

text \<open>\<open>GetPercentile\<close> of a histogram is the order statistic of everything added: the element of the
  sorted values at the index to skip, or the last one, or nothing when nothing was added; its loops
  always find one.\<close>

theorem histogram_percentile_is_order_statistic:
  assumes "length (expand es) < 2 ^ 64"
  shows "GetPercentile skip (add_counts es (HistogramPercentileCounter b)) = Some
    (if expand es = [] then None
     else Some (sort (expand es) ! min (skip (length (expand es))) (length (expand es) - 1)))"
proof -
  let ?vs = "expand es" and ?h = "add_counts es (HistogramPercentileCounter b)"
  have held: "held ?vs ?h"
    using held_add_counts [OF held_new, of es b] assms by simp
  then have total: "total_elements ?h = length ?vs" and low: "total_elements_low ?h = length (expand (low_entries (histogram_low ?h)))"
    by (simp_all add: held_def)
  show ?thesis
  proof (cases "?vs = []")
    case False
    define n where "n = min (skip (length ?vs)) (length ?vs - 1)"
    have pos: "0 < length ?vs"
      using False by blast
    have n: "n < length ?vs" "(if length ?vs \<le> skip (length ?vs) then length ?vs - 1 else skip (length ?vs)) = n"
      using pos unfolding n_def by - (linarith, simp only: min_def split: if_splits, linarith)
    have "sort ?vs ! n = (if n < total_elements_low ?h then expand (low_entries (histogram_low ?h)) ! n
        else expand (histogram_high ?h) ! (n - total_elements_low ?h))"
      using held_sort [OF held] low by (simp add: nth_append)
    moreover have "find_low 0 (histogram_low ?h) n = Some (expand (low_entries (histogram_low ?h)) ! n)"
      if "n < total_elements_low ?h"
      using that low by (simp add: find_low_expand [of 0, simplified] find_high_expand low_entries_def)
    moreover have "find_high (histogram_high ?h) (n - total_elements_low ?h) = Some (expand (histogram_high ?h) ! (n - total_elements_low ?h))"
      if "\<not> n < total_elements_low ?h"
      using that n(1) low held_sizes [OF held] by (simp add: find_high_expand)
    ultimately have found: "(if n < total_elements_low ?h then find_low 0 (histogram_low ?h) n
        else find_high (histogram_high ?h) (n - total_elements_low ?h)) = Some (sort ?vs ! n)"
      by (cases "n < total_elements_low ?h") simp_all
    have "GetPercentile skip ?h = Some (Some (sort ?vs ! n))"
      unfolding GetPercentile_def Let_def total n(2) found using False by simp
    then show ?thesis
      using False by (simp add: n_def)
  qed (simp add: GetPercentile_def total)
qed

theorem histogram_percentile_is_order_statistic_witness:
  "GetPercentile (\<lambda>n. n div 2) (add_counts [(7, 1), (2, 3), (900, 3)] (HistogramPercentileCounter 10)) = Some (Some 7)"
proof -
  have "expand [(7, 1), (2, 3), (900, 3)] = [7, 2, 2, 2, 900, 900, 900]"
    by (simp add: numeral_3_eq_3)
  then show ?thesis
    using histogram_percentile_is_order_statistic [of "[(7, 1), (2, 3), (900, 3)]" "\<lambda>n. n div 2" 10]
    by (simp del: expand_simps)
qed

text \<open>Adding another counter loses its long tail and counts the own one twice.\<close>

lemma Add_other_loses_long_tail:
  "GetPercentile (\<lambda>n. 0) (Histogram_Add_other (add_counts [(50, 1)] (HistogramPercentileCounter 1))
     (HistogramPercentileCounter 1)) = Some None"
  "total_elements (Histogram_Add_other (HistogramPercentileCounter 1) (add_counts [(50, 1)] (HistogramPercentileCounter 1))) = 2"
  by (simp_all add: Histogram_Add_other_def HistogramPercentileCounter_def Histogram_Add_def GetPercentile_def usize_def Let_def upt_rec)

section \<open>SampleCounter\<close>

record sample_counter =
  sc_sum :: int
  num_samples :: int
  sc_max :: "int option"

record sample_counter_with_variance = sample_counter +
  sum_squared :: int

definition SampleCounter :: sample_counter where
  "SampleCounter = \<lparr>sc_sum = 0, num_samples = 0, sc_max = None\<rparr>"

definition SampleCounterWithVariance :: sample_counter_with_variance where
  "SampleCounterWithVariance = \<lparr>sc_sum = 0, num_samples = 0, sc_max = None, sum_squared = 0\<rparr>"

definition SampleCounter_Add :: "int \<Rightarrow> 'z sample_counter_scheme \<Rightarrow> 'z sample_counter_scheme checked" where
  "SampleCounter_Add sample c = do {
     (if 0 < sc_sum c then do { room \<leftarrow> i64_sub i64_max (sc_sum c); rtc_check (sample \<le> room) }
      else do { room \<leftarrow> i64_sub i64_min (sc_sum c); rtc_check (room \<le> sample) });
     s \<leftarrow> i64_add (sc_sum c) sample;
     n \<leftarrow> i64_add (num_samples c) 1;
     Some (c\<lparr>sc_sum := s, num_samples := n,
       sc_max := (if sc_max c = None \<or> the (sc_max c) < sample then Some sample else sc_max c)\<rparr>)
   }"

definition SampleCounter_Add_counter :: "'y sample_counter_scheme \<Rightarrow> 'z sample_counter_scheme \<Rightarrow> 'z sample_counter_scheme checked" where
  "SampleCounter_Add_counter other c = do {
     (if 0 < sc_sum c then do { room \<leftarrow> i64_sub i64_max (sc_sum c); rtc_check (sc_sum other \<le> room) }
      else do { room \<leftarrow> i64_sub i64_min (sc_sum c); rtc_check (room \<le> sc_sum other) });
     s \<leftarrow> i64_add (sc_sum c) (sc_sum other);
     room \<leftarrow> i64_sub i64_max (num_samples c);
     rtc_check (num_samples other \<le> room);
     n \<leftarrow> i64_add (num_samples c) (num_samples other);
     Some (c\<lparr>sc_sum := s, num_samples := n,
       sc_max := (if sc_max other \<noteq> None \<and> (sc_max c = None \<or> the (sc_max c) < the (sc_max other)) then sc_max other
                  else sc_max c)\<rparr>)
   }"

definition Avg :: "int \<Rightarrow> 'z sample_counter_scheme \<Rightarrow> int option checked" where
  "Avg min_required_samples c = do {
     rtc_check (0 < min_required_samples);
     if num_samples c < min_required_samples then Some None
     else do {
       q \<leftarrow> i64_div (sc_sum c) (num_samples c);
       a \<leftarrow> dchecked_cast int32_t int64_t q;
       Some (Some a)
     }
   }"

definition SampleCounter_Max :: "'z sample_counter_scheme \<Rightarrow> int option" where
  "SampleCounter_Max c = sc_max c"

definition SampleCounter_Sum :: "int \<Rightarrow> 'z sample_counter_scheme \<Rightarrow> int option checked" where
  "SampleCounter_Sum min_required_samples c = do {
     rtc_check (0 < min_required_samples);
     Some (if num_samples c < min_required_samples then None else Some (sc_sum c))
   }"

definition NumSamples :: "'z sample_counter_scheme \<Rightarrow> int" where
  "NumSamples c = num_samples c"

definition SampleCounter_Reset :: "sample_counter \<Rightarrow> sample_counter" where
  "SampleCounter_Reset c = SampleCounter"

definition Variance :: "int \<Rightarrow> sample_counter_with_variance \<Rightarrow> int option checked" where
  "Variance min_required_samples c = do {
     rtc_check (0 < min_required_samples);
     if num_samples c < min_required_samples then Some None
     else do {
       mean \<leftarrow> i64_div (sc_sum c) (num_samples c);
       q \<leftarrow> i64_div (sum_squared c) (num_samples c);
       mm \<leftarrow> i64_mul mean mean;
       v \<leftarrow> i64_sub q mm;
       Some (Some v)
     }
   }"

definition Variance_Add :: "int \<Rightarrow> sample_counter_with_variance \<Rightarrow> sample_counter_with_variance checked" where
  "Variance_Add sample c = do {
     c \<leftarrow> SampleCounter_Add sample c;
     rtc_check (i32_min < sample);
     sq \<leftarrow> i64_mul sample sample;
     room \<leftarrow> i64_sub i64_max (sum_squared c);
     rtc_check (sq \<le> room);
     s \<leftarrow> i64_add (sum_squared c) sq;
     Some (c\<lparr>sum_squared := s\<rparr>)
   }"

definition Variance_Add_counter ::
  "sample_counter_with_variance \<Rightarrow> sample_counter_with_variance \<Rightarrow> sample_counter_with_variance checked" where
  "Variance_Add_counter other c = do {
     c \<leftarrow> SampleCounter_Add_counter other c;
     room \<leftarrow> i64_sub i64_max (sum_squared c);
     rtc_check (sum_squared other \<le> room);
     s \<leftarrow> i64_add (sum_squared c) (sum_squared other);
     Some (c\<lparr>sum_squared := s\<rparr>)
   }"

definition Variance_Reset :: "sample_counter_with_variance \<Rightarrow> sample_counter_with_variance" where
  "Variance_Reset c = SampleCounterWithVariance"

subsection \<open>What a counter holds\<close>

definition list_maximum :: "int list \<Rightarrow> int option" where
  "list_maximum xs = (if xs = [] then None else Some (Max (set xs)))"

definition counter_of :: "int list \<Rightarrow> sample_counter_with_variance" where
  "counter_of xs = \<lparr>sc_sum = sum_list xs, num_samples = int (length xs), sc_max = list_maximum xs,
     sum_squared = (\<Sum>x\<leftarrow>xs. x * x)\<rparr>"

text \<open>The samples a counter can take: the sum of their squares is an \<open>int64_t\<close>.\<close>

definition countable_samples :: "int list \<Rightarrow> bool" where
  "countable_samples xs \<longleftrightarrow> (\<forall>x \<in> set xs. i32_min < x \<and> x \<le> i32_max)
     \<and> (\<Sum>x\<leftarrow>xs. x * x) \<le> i64_max \<and> int (length xs) \<le> i64_max"

lemma abs_le_square: "\<bar>x\<bar> \<le> x * (x::int)"
proof (cases "x = 0")
  case False
  then have "\<bar>x\<bar> * 1 \<le> \<bar>x\<bar> * \<bar>x\<bar>"
    by (intro mult_left_mono) auto
  then show ?thesis
    by (simp add: abs_mult_self_eq)
qed simp

lemma abs_sum_le_squares: "\<bar>sum_list xs\<bar> \<le> (\<Sum>x\<leftarrow>xs. x * (x::int))"
proof (induction xs)
  case (Cons x xs)
  then show ?case
    using abs_le_square [of x] by simp
qed simp

lemma sum_squares_nonneg: "0 \<le> (\<Sum>x\<leftarrow>xs. x * (x::int))"
  by (induction xs) auto

lemma countable_append:
  "countable_samples (xs @ ys) \<Longrightarrow> countable_samples xs \<and> countable_samples ys"
  using sum_squares_nonneg [of xs] sum_squares_nonneg [of ys] by (auto simp: countable_samples_def)

lemma list_maximum_append:
  "list_maximum (xs @ ys) = (if list_maximum ys \<noteq> None \<and> (list_maximum xs = None \<or> the (list_maximum xs) < the (list_maximum ys))
     then list_maximum ys else list_maximum xs)"
  by (cases "xs = []"; cases "ys = []")
    (simp_all add: list_maximum_def Max_Un max_def not_less order_antisym del: Max.bounded_iff Max_less_iff Max_le_iff)

text \<open>The test before a sum is changed.\<close>

lemma room_for_sum:
  assumes "in_i64 a" "in_i64 (a + b)"
  shows "(if 0 < a then do { room \<leftarrow> i64_sub i64_max a; rtc_check (b \<le> room) }
      else do { room \<leftarrow> i64_sub i64_min a; rtc_check (room \<le> b) }) = Some ()"
  using assms by (auto simp: i64_ops int_ranges)

lemma Variance_Add_counter_of:
  assumes "countable_samples (xs @ ys)"
  shows "Variance_Add_counter (counter_of ys) (counter_of xs) = Some (counter_of (xs @ ys))"
proof -
  let ?q = "\<lambda>zs. \<Sum>x\<leftarrow>zs. x * x"
  have bounds: "\<bar>sum_list xs\<bar> \<le> ?q xs" "\<bar>sum_list ys\<bar> \<le> ?q ys" "0 \<le> ?q xs" "0 \<le> ?q ys" "?q xs + ?q ys \<le> i64_max"
    "int (length xs) + int (length ys) \<le> i64_max"
    using assms abs_sum_le_squares sum_squares_nonneg by (auto simp: countable_samples_def)
  then have "in_i64 (sum_list xs)" "in_i64 (sum_list xs + sum_list ys)"
    by (auto simp: int_ranges abs_le_iff)
  then have "SampleCounter_Add_counter (counter_of ys) (counter_of xs) =
      Some ((counter_of (xs @ ys))\<lparr>sum_squared := ?q xs\<rparr>)"
    using bounds(6) room_for_sum [of "sum_list xs" "sum_list ys"] list_maximum_append [of xs ys]
    by (simp add: SampleCounter_Add_counter_def counter_of_def i64_ops int_ranges split del: if_split cong: if_cong)
  then show ?thesis
    using bounds by (simp add: Variance_Add_counter_def) (simp add: counter_of_def i64_ops int_ranges)
qed

lemma Variance_Add_counter_of_one:
  assumes "countable_samples (xs @ [x])"
  shows "Variance_Add x (counter_of xs) = Some (counter_of (xs @ [x]))"
proof -
  have x: "i32_min < x" "x \<le> i32_max"
    using assms by (auto simp: countable_samples_def)
  have "SampleCounter_Add x c = SampleCounter_Add_counter (counter_of [x]) c"
    if "in_i64 (i64_max - num_samples c)" "num_samples c < i64_max" for c :: sample_counter_with_variance
    using that by (auto simp: SampleCounter_Add_def SampleCounter_Add_counter_def counter_of_def list_maximum_def i64_sub_def)
  moreover have "in_i64 (x * x)"
  proof -
    have "x * x \<le> i64_max" "0 \<le> x * x"
      using assms sum_squares_nonneg [of xs] by (simp_all add: countable_samples_def)
    then show ?thesis
      unfolding in_i64_def i64_min_def by linarith
  qed
  moreover have "int (length xs) < i64_max"
    using assms by (simp add: countable_samples_def)
  ultimately show ?thesis
    using Variance_Add_counter_of [OF assms] x
    by (simp add: Variance_Add_def Variance_Add_counter_def i64_mul_def) (simp add: counter_of_def int_ranges i64_sub_def)
qed

fun Variance_Add_all :: "int list \<Rightarrow> sample_counter_with_variance \<Rightarrow> sample_counter_with_variance checked" where
  "Variance_Add_all [] c = Some c"
| "Variance_Add_all (x # xs) c = do { c' \<leftarrow> Variance_Add x c; Variance_Add_all xs c' }"

lemma Variance_Add_all_counter_of:
  "countable_samples (xs @ ys) \<Longrightarrow> Variance_Add_all ys (counter_of xs) = Some (counter_of (xs @ ys))"
proof (induction ys arbitrary: xs)
  case (Cons y ys)
  then have "countable_samples (xs @ [y])"
    using countable_append [of "xs @ [y]" ys] by simp
  with Cons show ?case
    using Variance_Add_counter_of_one [of xs y] by simp
qed simp

text \<open>The mean is rounded towards zero, so its square does not exceed the mean of the squares.\<close>

lemma square_of_sum: "(sum_list xs)\<^sup>2 \<le> int (length xs) * (\<Sum>x\<leftarrow>xs. x * (x::int))"
proof (induction xs)
  case (Cons x xs)
  let ?s = "sum_list xs" and ?q = "\<Sum>x\<leftarrow>xs. x * x" and ?n = "int (length xs)"
  have "2 * x * ?s \<le> ?q + ?n * (x * x)"
  proof (induction xs)
    case (Cons y ys)
    have "0 \<le> (x - y)\<^sup>2"
      by simp
    then have "2 * x * y \<le> y * y + x * x"
      by (simp add: power2_eq_square algebra_simps)
    with Cons show ?case
      by (simp add: algebra_simps)
  qed simp
  with Cons show ?case
    by (simp add: power2_eq_square algebra_simps)
qed simp

lemma Variance_counter_of:
  assumes "countable_samples xs" "0 < k" "k \<le> int (length xs)"
  shows "\<exists>v. Variance k (counter_of xs) = Some (Some v) \<and> 0 \<le> v"
proof -
  let ?s = "sum_list xs" and ?q = "\<Sum>x\<leftarrow>xs. x * x" and ?n = "int (length xs)"
  define mean where "mean = ?s sdiv ?n"
  have n: "0 < ?n"
    using assms(2,3) by linarith
  have q: "0 \<le> ?q" "?q \<le> i64_max" and s: "in_i64 ?s"
    using assms(1) sum_squares_nonneg [of xs] abs_sum_le_squares [of xs] by (auto simp: countable_samples_def int_ranges abs_le_iff)
  have "\<bar>mean\<bar> * ?n \<le> \<bar>?s\<bar>"
    using n div_bounds [of ?n "\<bar>?s\<bar>"] div_le_self_int [of "\<bar>?s\<bar>" ?n] by (auto simp: mean_def sdiv_pos_cases abs_if split: if_splits)
  then have "(\<bar>mean\<bar> * ?n)\<^sup>2 \<le> \<bar>?s\<bar>\<^sup>2"
    by (rule power_mono) simp
  also have "\<dots> \<le> ?n * ?q"
    using square_of_sum [of xs] by simp
  finally have "?n * (mean * mean * ?n) \<le> ?n * ?q"
    by (simp add: power2_eq_square algebra_simps)
  then have "mean * mean * ?n \<le> ?q"
    using n by simp
  then have less: "mean * mean \<le> ?q div ?n"
    using n zdiv_mono1 [of "mean * mean * ?n" ?q ?n] by simp
  have "?q div ?n \<le> ?q"
    using div_le_self_int [OF q(1) n] by simp
  then have "in_i64 (mean * mean)" "in_i64 (?q div ?n)" "in_i64 (?q div ?n - mean * mean)"
    using less q(2) zero_le_square [of mean] unfolding in_i64_def i64_min_def by linarith+
  then have "Variance k (counter_of xs) = Some (Some (?q div ?n - mean * mean))"
    using assms(2,3) n q(1) in_i64_sdiv [OF s n]
    by (simp add: Variance_def counter_of_def i64_ops sdiv_nonneg mean_def)
  with less show ?thesis
    by simp
qed

lemma counter_of_reads:
  "SampleCounter_Sum 1 (counter_of zs) = Some (if zs = [] then None else Some (sum_list zs))"
  "SampleCounter_Max (counter_of zs) = list_maximum zs"
  "NumSamples (counter_of zs) = int (length zs)"
  by (cases zs; simp add: SampleCounter_Sum_def SampleCounter_Max_def NumSamples_def counter_of_def)+

text \<open>merging two counters with variance gives what adding all samples of the second one by one to
  the first gives, as long as the sum of the squares is an \<open>int64_t\<close>; then nothing overflows, sum,
  number and maximum are those of all samples, and the variance is defined and not negative.\<close>

theorem merging_counters_adds_samples:
  assumes "countable_samples (xs @ ys)"
  shows "do { c \<leftarrow> Variance_Add_all xs SampleCounterWithVariance; d \<leftarrow> Variance_Add_all ys SampleCounterWithVariance;
       Variance_Add_counter d c } = Variance_Add_all (xs @ ys) SampleCounterWithVariance
    \<and> (\<exists>c. Variance_Add_all (xs @ ys) SampleCounterWithVariance = Some c
        \<and> SampleCounter_Sum 1 c = Some (if xs @ ys = [] then None else Some (sum_list (xs @ ys)))
        \<and> SampleCounter_Max c = list_maximum (xs @ ys) \<and> NumSamples c = int (length (xs @ ys))
        \<and> (xs @ ys \<noteq> [] \<longrightarrow> (\<exists>v. Variance 1 c = Some (Some v) \<and> 0 \<le> v)))"
proof -
  have new: "SampleCounterWithVariance = counter_of []"
    by (simp add: counter_of_def SampleCounterWithVariance_def list_maximum_def)
  have "Variance_Add_all zs SampleCounterWithVariance = Some (counter_of zs)" if "countable_samples zs" for zs
    using that Variance_Add_all_counter_of [of "[]" zs] by (simp add: new)
  then have all: "Variance_Add_all xs SampleCounterWithVariance = Some (counter_of xs)"
    "Variance_Add_all ys SampleCounterWithVariance = Some (counter_of ys)"
    "Variance_Add_all (xs @ ys) SampleCounterWithVariance = Some (counter_of (xs @ ys))"
    using assms countable_append [OF assms] by blast+
  have "\<exists>v. Variance 1 (counter_of (xs @ ys)) = Some (Some v) \<and> 0 \<le> v" if "xs @ ys \<noteq> []"
    using that Variance_counter_of [OF assms, of 1] by (cases "xs @ ys") auto
  then show ?thesis
    unfolding all using Variance_Add_counter_of [OF assms] counter_of_reads [of "xs @ ys"] by simp
qed

theorem merging_counters_adds_samples_witness:
  "do { c \<leftarrow> Variance_Add_all [3, -5] SampleCounterWithVariance; d \<leftarrow> Variance_Add_all [7] SampleCounterWithVariance;
       Variance_Add_counter d c } = Variance_Add_all [3, -5, 7] SampleCounterWithVariance"
  using merging_counters_adds_samples [of "[3, -5]" "[7]"] by (simp add: countable_samples_def int_ranges)

end
