(* ===== verification/Clock_Time.thy ===== *)
theory Clock_Time
  imports Thread_Queue Units Safe_Numerics
begin

text \<open>
  \<open>rtc_base/time_utils.cc\<close>, \<open>system_time.cc\<close> and \<open>system_wrappers\<close>: reading the clock, unwrapping 32-bit
  time stamps, calendar time to seconds since 1970 and NTP time.  What the system's clocks return is an
  argument.  Conversions in \<open>double\<close> are not modelled.
\<close>

section \<open>Reading the clock\<close>

definition kNumNanosecsPerMillisec :: int where "kNumNanosecsPerMillisec = 1000000"

definition kNumNanosecsPerMicrosec :: int where "kNumNanosecsPerMicrosec = 1000"

definition kNumNanosecsPerSec :: int where "kNumNanosecsPerSec = 1000000000"

definition kNumMicrosecsPerSec :: int where "kNumMicrosecsPerSec = 1000000"

text \<open>The test clock, when one is set, or the clock of the system.\<close>

definition SetClockForTesting :: "int option \<Rightarrow> int option \<Rightarrow> int option \<times> int option" where
  "SetClockForTesting clock g_clock = (g_clock, clock)"

definition GetClockForTesting :: "int option \<Rightarrow> int option" where
  "GetClockForTesting g_clock = g_clock"

definition TimeNanos :: "int option \<Rightarrow> int \<Rightarrow> int" where
  "TimeNanos g_clock system_nanos = (case g_clock of Some t \<Rightarrow> t | None \<Rightarrow> system_nanos)"

definition SystemTimeMillis :: "int \<Rightarrow> int checked" where
  "SystemTimeMillis system_nanos = i64_div system_nanos kNumNanosecsPerMillisec"

definition Time32 :: "int option \<Rightarrow> int \<Rightarrow> int checked" where
  "Time32 g_clock system_nanos = do {
     ms \<leftarrow> i64_div (TimeNanos g_clock system_nanos) kNumNanosecsPerMillisec;
     Some (ms mod 2 ^ 32)
   }"

definition TimeMillis :: "int option \<Rightarrow> int \<Rightarrow> int checked" where
  "TimeMillis g_clock system_nanos = i64_div (TimeNanos g_clock system_nanos) kNumNanosecsPerMillisec"

definition TimeMicros :: "int option \<Rightarrow> int \<Rightarrow> int checked" where
  "TimeMicros g_clock system_nanos = i64_div (TimeNanos g_clock system_nanos) kNumNanosecsPerMicrosec"

definition TimeDiff32 :: "int \<Rightarrow> int \<Rightarrow> int" where
  "TimeDiff32 later earlier = sint (word_of_int (later - earlier) :: 32 word)"

definition TimeUTCMicros_posix :: "int option \<Rightarrow> int \<times> int \<Rightarrow> int checked" where
  "TimeUTCMicros_posix g_clock tv = (case g_clock of
     Some t \<Rightarrow> i64_div t kNumNanosecsPerMicrosec
   | None \<Rightarrow> do { us \<leftarrow> i64_mul (fst tv) kNumMicrosecsPerSec; i64_add us (snd tv) })"

definition TimeUTCMillis :: "int checked \<Rightarrow> int checked" where
  "TimeUTCMillis utc_micros = do { us \<leftarrow> utc_micros; i64_div us 1000 }"

text \<open>\<open>SystemTimeNanos\<close> on POSIX and on the Mac.\<close>

definition SystemTimeNanos_posix :: "int \<times> int \<Rightarrow> int checked" where
  "SystemTimeNanos_posix ts = do { ns \<leftarrow> i64_mul kNumNanosecsPerSec (fst ts); i64_add ns (snd ts) }"

definition SystemTimeNanos_mac :: "int \<Rightarrow> int \<times> int \<Rightarrow> int checked" where
  "SystemTimeNanos_mac absolute timebase = do {
     rtc_check (fst timebase \<noteq> 0);
     rtc_check (absolute \<le> i64_max div fst timebase);
     p \<leftarrow> i64_mul absolute (fst timebase);
     i64_div p (snd timebase)
   }"

text \<open>On Windows a 32-bit count of milliseconds is extended; the exchange of \<open>last_timegettime\<close> is atomic,
  the count of the wraps is not.\<close>

record win_clock =
  last_timegettime :: int
  num_wrap_timegettime :: int

definition win_exchange :: "int \<Rightarrow> win_clock \<Rightarrow> int \<times> win_clock" where
  "win_exchange now c = (last_timegettime c, c\<lparr>last_timegettime := now\<rparr>)"

definition win_count :: "int \<Rightarrow> int \<Rightarrow> win_clock \<Rightarrow> win_clock" where
  "win_count now old c =
     (if now < old \<and> 0xf0000000 < old \<and> now < 0x0fffffff
      then c\<lparr>num_wrap_timegettime := num_wrap_timegettime c + 1\<rparr> else c)"

definition win_ticks :: "int \<Rightarrow> win_clock \<Rightarrow> int checked" where
  "win_ticks now c = do {
     w \<leftarrow> i64_mul (num_wrap_timegettime c) (2 ^ 32);
     t \<leftarrow> i64_add now w;
     i64_mul t kNumNanosecsPerMillisec
   }"

definition SystemTimeNanos_win :: "int \<Rightarrow> win_clock \<Rightarrow> (int \<times> win_clock) checked" where
  "SystemTimeNanos_win now c = do {
     let (old, c) = win_exchange now c;
     let c = win_count now old c;
     t \<leftarrow> win_ticks now c;
     Some (t, c)
   }"

section \<open>Wrapping time stamps\<close>

record wrap_handler =
  last_ts :: int
  num_wrap :: int

definition TimestampWrapAroundHandler :: wrap_handler where
  "TimestampWrapAroundHandler = \<lparr>last_ts = 0, num_wrap = -1\<rparr>"

definition Unwrap_ts :: "int \<Rightarrow> wrap_handler \<Rightarrow> (int \<times> wrap_handler) checked" where
  "Unwrap_ts ts h =
     (if num_wrap h = -1 then Some (ts, h\<lparr>last_ts := ts, num_wrap := 0\<rparr>)
      else do {
        h' \<leftarrow> (if ts < last_ts h
               then (if 0xf0000000 \<le> last_ts h \<and> ts < 0x0fffffff
                     then do { n \<leftarrow> i64_add (num_wrap h) 1; Some (Inr (h\<lparr>num_wrap := n\<rparr>)) } else Some (Inr h))
               else if 0xf0000000 < ts - last_ts h then Some (Inl ()) else Some (Inr h));
        case h' of
          Inl _ \<Rightarrow> do { n \<leftarrow> i64_sub (num_wrap h) 1; w \<leftarrow> i64_mul n (2 ^ 32); t \<leftarrow> i64_add ts w; Some (t, h) }
        | Inr h' \<Rightarrow> do {
            w \<leftarrow> i64_mul (num_wrap h') (2 ^ 32);
            t \<leftarrow> i64_add ts w;
            Some (t, h'\<lparr>last_ts := ts\<rparr>)
          }
      })"

fun unwrap_times :: "int list \<Rightarrow> wrap_handler \<Rightarrow> int list checked" where
  "unwrap_times [] h = Some []"
| "unwrap_times (ts # rest) h = do { (t, h') \<leftarrow> Unwrap_ts ts h; us \<leftarrow> unwrap_times rest h'; Some (t # us) }"

text \<open>True times that are close: each is within \<open>0x0fffffff\<close> of the reference, which is the last time
  that did not go back over a wrap.\<close>

fun close_times :: "int \<Rightarrow> int list \<Rightarrow> bool" where
  "close_times ref [] = True"
| "close_times ref (t # ts) = (\<bar>t - ref\<bar> \<le> 0x0fffffff \<and> \<bar>t\<bar> < 2 ^ 62
     \<and> close_times (if t div 2 ^ 32 < ref div 2 ^ 32 then ref else t) ts)"

lemma split_2_32:
  obtains "t = t div 2 ^ 32 * 4294967296 + t mod (2 ^ 32 :: int)" "0 \<le> t mod 2 ^ 32" "t mod 2 ^ 32 < 4294967296"
  using that by simp

lemma div_2_32_cases:
  assumes "\<bar>t - ref\<bar> \<le> 0x0fffffff"
  shows "t div 2 ^ 32 = ref div 2 ^ 32 - 1 \<and> t mod 2 ^ 32 - ref mod 2 ^ 32 > 0xf0000000
    \<or> t div 2 ^ 32 = ref div 2 ^ 32 \<and> \<bar>t mod 2 ^ 32 - ref mod 2 ^ 32\<bar> \<le> 0x0fffffff
    \<or> t div 2 ^ 32 = ref div 2 ^ 32 + 1 \<and> ref mod 2 ^ 32 > 0xf0000000 \<and> t mod 2 ^ 32 < (0x0fffffff::int)"
proof -
  obtain q r where t: "t div 2 ^ 32 = q" "t mod 2 ^ 32 = r" "t = q * 4294967296 + r" "0 \<le> r" "r < 4294967296"
    using split_2_32 [of t] by metis
  obtain p s where ref: "ref div 2 ^ 32 = p" "ref mod 2 ^ 32 = s" "ref = p * 4294967296 + s" "0 \<le> s" "s < 4294967296"
    using split_2_32 [of ref] by metis
  have close: "\<bar>q * 4294967296 + r - (p * 4294967296 + s)\<bar> \<le> 0x0fffffff"
    using assms t(3) ref(3) by simp
  have "q \<le> p + 1" "p - 1 \<le> q"
    using close t(4,5) ref(4,5) by linarith+
  then consider "q = p - 1" | "q = p" | "q = p + 1"
    by linarith
  then show ?thesis
    unfolding t(1,2) ref(1,2) by cases (use close t(4,5) ref(4,5) in auto)
qed

lemma small_2_32:
  assumes "\<bar>t\<bar> < (2 ^ 62 :: int)"
  shows "\<bar>t div 2 ^ 32\<bar> \<le> 2 ^ 30"
proof -
  obtain q r where "t div 2 ^ 32 = q" "t = q * 4294967296 + r" "0 \<le> r" "r < 4294967296"
    using split_2_32 [of t] by metis
  then show ?thesis
    using assms by simp
qed

lemma Unwrap_close:
  assumes "\<bar>t - ref\<bar> \<le> 0x0fffffff" "\<bar>t\<bar> < 2 ^ 62" "\<bar>ref\<bar> < 2 ^ 62" "0 \<le> ref"
  shows "Unwrap_ts (t mod 2 ^ 32) \<lparr>last_ts = ref mod 2 ^ 32, num_wrap = ref div 2 ^ 32\<rparr> =
    (let r = (if t div 2 ^ 32 < ref div 2 ^ 32 then ref else t)
     in Some (t, \<lparr>last_ts = r mod 2 ^ 32, num_wrap = r div 2 ^ 32\<rparr>))"
proof -
  obtain q r where t: "t div 2 ^ 32 = q" "t mod 2 ^ 32 = r" "t = q * 4294967296 + r" "0 \<le> r" "r < 4294967296"
    using split_2_32 [of t] by metis
  obtain p s where ref: "ref div 2 ^ 32 = p" "ref mod 2 ^ 32 = s" "ref = p * 4294967296 + s" "0 \<le> s" "s < 4294967296"
    using split_2_32 [of ref] by metis
  have p: "0 \<le> p"
    using assms(4) ref by linarith
  have small: "\<bar>q\<bar> \<le> 1073741824" "\<bar>p\<bar> \<le> 1073741824"
    using small_2_32 [OF assms(2)] small_2_32 [OF assms(3)] t(1) ref(1) by simp_all
  from div_2_32_cases [OF assms(1)] consider
      "q = p - 1" "r - s > 0xf0000000" | "q = p" "\<bar>r - s\<bar> \<le> 0x0fffffff" | "q = p + 1" "s > 0xf0000000" "r < 0x0fffffff"
    unfolding t(1,2) ref(1,2) by blast
  then show ?thesis
    unfolding t(1,2) ref(1,2)
  proof cases
    case 1
    then show "Unwrap_ts r \<lparr>last_ts = s, num_wrap = p\<rparr> =
        (let r' = if q < p then ref else t in Some (t, \<lparr>last_ts = r' mod 2 ^ 32, num_wrap = r' div 2 ^ 32\<rparr>))"
      using t ref p small by (simp add: Unwrap_ts_def i64_ops int_ranges abs_le_iff)
  next
    case 2
    then show "Unwrap_ts r \<lparr>last_ts = s, num_wrap = p\<rparr> =
        (let r' = if q < p then ref else t in Some (t, \<lparr>last_ts = r' mod 2 ^ 32, num_wrap = r' div 2 ^ 32\<rparr>))"
      using t ref p small by (simp add: Unwrap_ts_def i64_ops int_ranges abs_le_iff)
  next
    case 3
    then show "Unwrap_ts r \<lparr>last_ts = s, num_wrap = p\<rparr> =
        (let r' = if q < p then ref else t in Some (t, \<lparr>last_ts = r' mod 2 ^ 32, num_wrap = r' div 2 ^ 32\<rparr>))"
      using t ref p small by (simp add: Unwrap_ts_def i64_ops int_ranges abs_le_iff)
  qed
qed

lemma unwrap_times_close:
  assumes "close_times ref ts" "\<bar>ref\<bar> < 2 ^ 62" "0 \<le> ref"
  shows "unwrap_times (map (\<lambda>t. t mod 2 ^ 32) ts) \<lparr>last_ts = ref mod 2 ^ 32, num_wrap = ref div 2 ^ 32\<rparr> = Some ts"
  using assms
proof (induction ts arbitrary: ref)
  case (Cons t ts)
  define r where "r = (if t div 2 ^ 32 < ref div 2 ^ 32 then ref else t)"
  have "0 \<le> r"
  proof (cases "t div 2 ^ 32 < ref div 2 ^ 32")
    case False
    moreover have "0 \<le> ref div 2 ^ 32"
      using Cons.prems(3) by (simp add: pos_imp_zdiv_nonneg_iff)
    ultimately have "0 \<le> t div 2 ^ 32"
      by linarith
    with False show ?thesis
      using pos_imp_zdiv_nonneg_iff [of "2 ^ 32" t] by (simp add: r_def)
  qed (use Cons.prems(3) in \<open>simp add: r_def\<close>)
  moreover have "\<bar>r\<bar> < 2 ^ 62"
    using Cons.prems by (simp add: r_def)
  moreover have "close_times r ts"
    using Cons.prems(1) by (simp add: r_def)
  ultimately have "unwrap_times (map (\<lambda>t. t mod 2 ^ 32) ts) \<lparr>last_ts = r mod 2 ^ 32, num_wrap = r div 2 ^ 32\<rparr> = Some ts"
    by (intro Cons.IH)
  moreover have "Unwrap_ts (t mod 2 ^ 32) \<lparr>last_ts = ref mod 2 ^ 32, num_wrap = ref div 2 ^ 32\<rparr> =
      Some (t, \<lparr>last_ts = r mod 2 ^ 32, num_wrap = r div 2 ^ 32\<rparr>)"
    using Unwrap_close [of t ref] Cons.prems by (simp add: r_def Let_def del: power_numeral)
  ultimately show ?case
    by (simp del: power_numeral)
qed simp

text \<open>\<open>TimestampWrapAroundHandler\<close> recovers the true times from their low 32 bits as long as each is
  within \<open>0x0fffffff\<close> of the last one that did not go back over a wrap, forwards or backwards, and
  over any number of wraps.\<close>

theorem timestamps_unwrap:
  assumes "0 \<le> t" "t < 2 ^ 32" "close_times t ts"
  shows "unwrap_times (map (\<lambda>t. t mod 2 ^ 32) (t # ts)) TimestampWrapAroundHandler = Some (t # ts)"
proof -
  have "t mod 2 ^ 32 = t" "t div 2 ^ 32 = 0"
    using assms(1,2) by simp_all
  then have "Unwrap_ts (t mod 2 ^ 32) TimestampWrapAroundHandler = Some (t, \<lparr>last_ts = t mod 2 ^ 32, num_wrap = t div 2 ^ 32\<rparr>)"
    by (simp add: Unwrap_ts_def TimestampWrapAroundHandler_def)
  then show ?thesis
    using unwrap_times_close [OF assms(3)] assms(1,2) by (simp del: power_numeral) simp
qed

theorem timestamps_unwrap_witness:
  "unwrap_times [4294967295, 5, 4294967290, 7] TimestampWrapAroundHandler = Some [4294967295, 4294967301, 4294967290, 4294967303]"
  using timestamps_unwrap [of 4294967295 "[4294967301, 4294967290, 4294967303]"] by simp

section \<open>Calendar time\<close>

record tm =
  tm_year :: int
  tm_mon :: int
  tm_mday :: int
  tm_hour :: int
  tm_min :: int
  tm_sec :: int

definition mdays :: "int list" where
  "mdays = [31, 28, 31, 30, 31, 30, 31, 31, 30, 31, 30, 31]"

definition cumul_mdays :: "int list" where
  "cumul_mdays = [0, 31, 59, 90, 120, 151, 181, 212, 243, 273, 304, 334]"

definition i32 :: "int \<Rightarrow> int checked" where
  "i32 x = (if in_i32 x then Some x else None)"

text \<open>The fields are \<open>int\<close>s; the sums that can overflow for them are those of the year and the day.\<close>

definition TmToSeconds :: "tm \<Rightarrow> int checked" where
  "TmToSeconds tm = do {
     year \<leftarrow> i32 (tm_year tm + 1900);
     let month = tm_mon tm;
     day \<leftarrow> i32 (tm_mday tm - 1);
     let hour = tm_hour tm;
     let minute = tm_min tm;
     let sec = tm_sec tm;
     let expiry_in_leap_year = (year smod 4 = 0 \<and> (year smod 100 \<noteq> 0 \<or> year smod 400 = 0));
     if year < 1970 then Some (- 1)
     else if month < 0 \<or> 11 < month then Some (- 1)
     else if day < 0 \<or> mdays ! nat month + (if expiry_in_leap_year \<and> month = 1 then 1 else 0) \<le> day then Some (- 1)
     else if hour < 0 \<or> 23 < hour then Some (- 1)
     else if minute < 0 \<or> 59 < minute then Some (- 1)
     else if sec < 0 \<or> 59 < sec then Some (- 1)
     else
       let day = day + cumul_mdays ! nat month;
         day = day + ((year sdiv 4 - 1970 sdiv 4) - (year sdiv 100 - 1970 sdiv 100) + (year sdiv 400 - 1970 sdiv 400));
         day = (if expiry_in_leap_year \<and> month \<le> 1 then day - 1 else day)
       in Some (((((year - 1970) * 365 + day) * 24 + hour) * 60 + minute) * 60 + sec)
   }"

text \<open>The reference: the days of all whole years and of all whole months before.\<close>

definition leap :: "int \<Rightarrow> bool" where
  "leap y \<longleftrightarrow> 4 dvd y \<and> (\<not> 100 dvd y \<or> 400 dvd y)"

definition days_of_month :: "int \<Rightarrow> nat \<Rightarrow> int" where
  "days_of_month y m = (if m = 1 then (if leap y then 29 else 28) else if m \<in> {3, 5, 8, 10} then 30 else 31)"

definition days_of_year :: "int \<Rightarrow> int" where
  "days_of_year y = (\<Sum>m\<leftarrow>[0..<12]. days_of_month y m)"

definition days_since_1970 :: "int \<Rightarrow> nat \<Rightarrow> int \<Rightarrow> int" where
  "days_since_1970 y m d = (\<Sum>z\<leftarrow>[1970..y - 1]. days_of_year z) + (\<Sum>k\<leftarrow>[0..<m]. days_of_month y k) + (d - 1)"

definition valid_tm :: "tm \<Rightarrow> bool" where
  "valid_tm tm \<longleftrightarrow> 1970 \<le> tm_year tm + 1900 \<and> 0 \<le> tm_mon tm \<and> tm_mon tm \<le> 11
     \<and> 1 \<le> tm_mday tm \<and> tm_mday tm \<le> days_of_month (tm_year tm + 1900) (nat (tm_mon tm))
     \<and> 0 \<le> tm_hour tm \<and> tm_hour tm \<le> 23 \<and> 0 \<le> tm_min tm \<and> tm_min tm \<le> 59 \<and> 0 \<le> tm_sec tm \<and> tm_sec tm \<le> 59"

lemma upt_12: "[0..<12] = [0, 1, 2, 3, 4, 5, 6, 7, 8, 9, 10, 11::nat]"
  by (simp add: upt_rec)

lemma days_of_year_eq: "days_of_year y = (if leap y then 366 else 365)"
  by (simp add: days_of_year_def upt_12 days_of_month_def)

lemma div_step:
  assumes "0 < (c::int)"
  shows "(y + 1) div c = y div c + (if c dvd y + 1 then 1 else 0)"
proof (cases "y mod c + 1 = c")
  case True
  then have "y + 1 = c * (y div c + 1)"
    using mult_div_mod_eq [of c y] True by (simp only: distrib_left mult_1_right)
  then show ?thesis
    using assms by (metis dvd_triv_left nonzero_mult_div_cancel_left order_less_irrefl)
next
  case False
  then have less: "y mod c + 1 < c" "0 \<le> y mod c + 1"
    using assms pos_mod_bound [of c y] pos_mod_sign [of c y] by linarith+
  have "y + 1 = c * (y div c) + (y mod c + 1)"
    using mult_div_mod_eq [of c y] by simp
  then have "(y + 1) div c = y div c" "(y + 1) mod c = y mod c + 1"
    using int_div_pos_eq [of "y + 1" c "y div c" "y mod c + 1"] int_mod_pos_eq [of "y + 1" c "y div c" "y mod c + 1"] less
    by blast+
  moreover have "y mod c + 1 \<noteq> 0"
    using assms pos_mod_sign [of c y] by linarith
  ultimately show ?thesis
    by (simp add: dvd_eq_mod_eq_0)
qed

text \<open>One more year, on the numbers alone.\<close>

lemma one_more_year:
  assumes "s' = s + (if l then 366 else 365)" "l \<longleftrightarrow> a \<and> \<not> b \<or> c" "b \<longrightarrow> a" "c \<longrightarrow> b"
    "p' = p + (if a then 1 else 0)" "q' = q + (if b then 1 else 0)" "r' = r + (if c then 1 else 0)"
    "s = (y - 1970) * 365 + (p - 492) - (q - 19) + (r - 4)"
  shows "s' = (y + 1 - 1970) * 365 + (p' - 492) - (q' - 19) + (r' - (4::int))"
  using assms by (cases a; cases b; cases c) simp_all

lemma whole_years:
  assumes "1970 \<le> y"
  shows "(\<Sum>z\<leftarrow>[1970..y - 1]. days_of_year z) =
    (y - 1970) * 365 + ((y - 1) div 4 - 492) - ((y - 1) div 100 - 19) + ((y - 1) div 400 - 4)"
  using assms
proof (induction y rule: int_ge_induct)
  case (step y)
  have "[1970..y + 1 - 1] = [1970..y - 1] @ [y]"
    using step.hyps by (simp add: upto_rec2)
  then have "(\<Sum>z\<leftarrow>[1970..y + 1 - 1]. days_of_year z) = (\<Sum>z\<leftarrow>[1970..y - 1]. days_of_year z) + (if leap y then 366 else 365)"
    by (simp add: days_of_year_eq)
  moreover have "leap y \<longleftrightarrow> 4 dvd y \<and> \<not> 100 dvd y \<or> 400 dvd y" "100 dvd y \<longrightarrow> 4 dvd y" "400 dvd y \<longrightarrow> 100 dvd y"
    using dvd_trans [of 4 100 y] dvd_trans [of 100 400 y] by (auto simp: leap_def)
  moreover have "y div 4 = (y - 1) div 4 + (if 4 dvd y then 1 else 0)" "y div 100 = (y - 1) div 100 + (if 100 dvd y then 1 else 0)"
    "y div 400 = (y - 1) div 400 + (if 400 dvd y then 1 else 0)"
    using div_step [of _ "y - 1"] by simp_all
  ultimately show ?case
    unfolding add_diff_cancel_right' by (rule one_more_year [OF _ _ _ _ _ _ _ step.IH])
qed simp

lemma months_before:
  assumes "m < 12"
  shows "(\<Sum>k\<leftarrow>[0..<m]. days_of_month y k) = cumul_mdays ! m + (if leap y \<and> 2 \<le> m then 1 else 0)"
    "days_of_month y m = mdays ! m + (if leap y \<and> m = 1 then 1 else 0)"
proof -
  have "m \<in> set [0, 1, 2, 3, 4, 5, 6, 7, 8, 9, 10, 11]"
    using assms unfolding upt_12 [symmetric] by simp
  then show "(\<Sum>k\<leftarrow>[0..<m]. days_of_month y k) = cumul_mdays ! m + (if leap y \<and> 2 \<le> m then 1 else 0)"
    "days_of_month y m = mdays ! m + (if leap y \<and> m = 1 then 1 else 0)"
    unfolding list.set insert_iff empty_iff simp_thms
    by (elim disjE; simp add: days_of_month_def cumul_mdays_def mdays_def upt_conv_Cons)+
qed

lemma leap_code:
  assumes "1970 \<le> y"
  shows "(y smod 4 = 0 \<and> (y smod 100 \<noteq> 0 \<or> y smod 400 = 0)) = leap y"
  using assms by (auto simp: smod_nonneg leap_def dvd_eq_mod_eq_0)

lemma leap_days_numbers:
  assumes "l \<longleftrightarrow> a \<and> \<not> b \<or> c" "b \<longrightarrow> a" "c \<longrightarrow> b"
    "p' = p + (if a then 1 else 0)" "q' = q + (if b then 1 else 0)" "r' = r + (if c then 1 else 0)"
  shows "(y - 1970) * 365 + (p - 492) - (q - 19) + (r - 4) =
    (y - 1970) * 365 + (p' - 492 - (q' - 19) + (r' - 4)) - (if l then 1 else (0::int))"
  using assms by (cases a; cases b; cases c) simp_all

lemma leap_days_code:
  assumes "1970 \<le> y"
  shows "(\<Sum>z\<leftarrow>[1970..y - 1]. days_of_year z) =
    (y - 1970) * 365 + ((y sdiv 4 - 1970 sdiv 4) - (y sdiv 100 - 1970 sdiv 100) + (y sdiv 400 - 1970 sdiv 400))
      - (if leap y then 1 else 0)"
proof -
  have step: "y div c = (y - 1) div c + (if c dvd y then 1 else 0)" if "0 < c" for c
    using div_step [OF that, of "y - 1"] by simp
  have start: "1970 sdiv 4 = (492::int)" "1970 sdiv 100 = (19::int)" "1970 sdiv 400 = (4::int)"
    by (simp_all add: sdiv_nonneg)
  have "y sdiv c = y div c" if "0 < c" for c
    using assms that by (intro sdiv_nonneg) simp_all
  note code = this [of 4, simplified] this [of 100, simplified] this [of 400, simplified]
  show ?thesis
    unfolding whole_years [OF assms] code start
    by (rule leap_days_numbers [OF _ _ _ step [of 4, simplified] step [of 100, simplified] step [of 400, simplified]])
      (use dvd_trans [of 4 100 y] dvd_trans [of 100 400 y] in \<open>auto simp: leap_def\<close>)
qed

text \<open>C31: \<open>TmToSeconds\<close> counts the days of all years since 1970 and of all months, leap days included, for
  every valid date, and returns -1 for every other; it fails only where the year or the day overflows.\<close>

theorem TmToSeconds_counts_days:
  assumes "in_i32 (tm_year tm + 1900)" "in_i32 (tm_mday tm - 1)"
  shows "TmToSeconds tm = Some
    (if valid_tm tm
     then ((days_since_1970 (tm_year tm + 1900) (nat (tm_mon tm)) (tm_mday tm) * 24 + tm_hour tm) * 60 + tm_min tm) * 60 + tm_sec tm
     else - 1)"
proof (cases "1970 \<le> tm_year tm + 1900 \<and> 0 \<le> tm_mon tm \<and> tm_mon tm \<le> 11")
  case True
  let ?y = "tm_year tm + 1900" and ?m = "nat (tm_mon tm)"
  have m: "?m < 12" "tm_mon tm = 1 \<longleftrightarrow> ?m = 1" "tm_mon tm \<le> 1 \<longleftrightarrow> \<not> 2 \<le> ?m"
    using True by auto
  have day: "days_since_1970 ?y ?m (tm_mday tm) = (?y - 1970) * 365 + (tm_mday tm - 1 + cumul_mdays ! ?m +
      ((?y sdiv 4 - 1970 sdiv 4) - (?y sdiv 100 - 1970 sdiv 100) + (?y sdiv 400 - 1970 sdiv 400)))
      - (if leap ?y \<and> tm_mon tm \<le> 1 then 1 else 0)"
    using leap_days_code [of ?y] months_before(1) [OF m(1), of ?y] True m(3) by (auto simp: days_since_1970_def)
  have leap: "(?y smod 4 = 0 \<and> (?y smod 100 \<noteq> 0 \<or> ?y smod 400 = 0)) = leap ?y"
    using leap_code [of ?y] True by simp
  have valid: "valid_tm tm \<longleftrightarrow> \<not> (tm_mday tm - 1 < 0 \<or> mdays ! ?m + (if leap ?y \<and> tm_mon tm = 1 then 1 else 0) \<le> tm_mday tm - 1)
      \<and> \<not> (tm_hour tm < 0 \<or> 23 < tm_hour tm) \<and> \<not> (tm_min tm < 0 \<or> 59 < tm_min tm) \<and> \<not> (tm_sec tm < 0 \<or> 59 < tm_sec tm)"
    using True months_before(2) [OF m(1), of ?y] unfolding valid_tm_def m(2) by auto
  have guards: "\<not> ?y < 1970" "\<not> (tm_mon tm < 0 \<or> 11 < tm_mon tm)"
    using True by auto
  define days where "days = tm_mday tm - 1 + cumul_mdays ! ?m +
      ((?y sdiv 4 - 1970 sdiv 4) - (?y sdiv 100 - 1970 sdiv 100) + (?y sdiv 400 - 1970 sdiv 400))"
  have "(?y - 1970) * 365 + (if leap ?y \<and> tm_mon tm \<le> 1 then days - 1 else days) = days_since_1970 ?y ?m (tm_mday tm)"
    unfolding day days_def by simp
  moreover have "i32 ?y = Some ?y" "i32 (tm_mday tm - 1) = Some (tm_mday tm - 1)"
    using assms by (simp_all add: i32_def)
  ultimately show ?thesis
    unfolding TmToSeconds_def valid using guards by (simp only: Option.bind.simps Let_def leap days_def [symmetric] if_False simp_thms) auto
next
  case False
  then show ?thesis
    using assms by (auto simp: TmToSeconds_def i32_def valid_tm_def Let_def)
qed

theorem TmToSeconds_counts_days_witness:
  "TmToSeconds \<lparr>tm_year = 72, tm_mon = 2, tm_mday = 1, tm_hour = 0, tm_min = 0, tm_sec = 5\<rparr> = Some 68256005"
  using TmToSeconds_counts_days [of "\<lparr>tm_year = 72, tm_mon = 2, tm_mday = 1, tm_hour = 0, tm_min = 0, tm_sec = 5\<rparr>"]
  by (simp add: int_ranges valid_tm_def days_of_month_def days_since_1970_def days_of_year_eq upt_rec upto_rec1 leap_def)

section \<open>NTP time\<close>

text \<open>Seconds since 1900 in the upper 32 bits and fractions of a second in the lower.\<close>

definition kFractionsPerSecond :: int where "kFractionsPerSecond = 2 ^ 32"

definition NtpTime :: "int \<Rightarrow> int \<Rightarrow> int" where
  "NtpTime seconds fractions = (seconds * kFractionsPerSecond + fractions) mod 2 ^ 64"

definition ntp_Valid :: "int \<Rightarrow> bool" where
  "ntp_Valid value = (value \<noteq> 0)"

definition ntp_seconds :: "int \<Rightarrow> int checked" where
  "ntp_seconds value = dchecked_cast uint32_t uint64_t (value div kFractionsPerSecond)"

definition ntp_fractions :: "int \<Rightarrow> int checked" where
  "ntp_fractions value = dchecked_cast uint32_t uint64_t (value mod kFractionsPerSecond)"

definition NtpOffsetUsCalledOnce :: "int \<Rightarrow> int \<Rightarrow> int checked" where
  "NtpOffsetUsCalledOnce clock_time utc_time = do {
     d \<leftarrow> i64_sub utc_time clock_time;
     i64_add d (2208988800 * kNumMicrosecsPerSec)
   }"

definition TimeMicrosToNtp :: "int \<Rightarrow> int \<Rightarrow> int checked" where
  "TimeMicrosToNtp ntp_offset_us time_us = do {
     time_ntp_us \<leftarrow> i64_add time_us ntp_offset_us;
     rtc_check (0 \<le> time_ntp_us);
     q \<leftarrow> i64_div time_ntp_us kNumMicrosecsPerSec;
     let ntp_seconds = convert uint32_t (convert uint64_t q);
     us_fractions \<leftarrow> i64_mod time_ntp_us kNumMicrosecsPerSec;
     p \<leftarrow> i64_mul us_fractions (2 ^ 32);
     f \<leftarrow> i64_div p kNumMicrosecsPerSec;
     let ntp_fractions = convert uint32_t f;
     Some (NtpTime ntp_seconds ntp_fractions)
   }"

lemma NtpTime_roundtrip:
  assumes "0 \<le> s" "s < 2 ^ 32" "0 \<le> f" "f < 2 ^ 32"
  shows "ntp_seconds (NtpTime s f) = Some s" "ntp_fractions (NtpTime s f) = Some f"
proof -
  have packed: "NtpTime s f = s * 4294967296 + f"
    using assms by (simp add: NtpTime_def kFractionsPerSecond_def)
  have cast: "dchecked_cast uint32_t uint64_t x = Some x" if "0 \<le> x" "x < 4294967296" for x
    using that RangeCheck_spec [of uint32_t uint64_t x]
    by (simp add: dchecked_cast_def IsValueInRangeForNumericType_def std_type_def ty_lowest_def ty_max_def)
  show "ntp_seconds (NtpTime s f) = Some s" "ntp_fractions (NtpTime s f) = Some f"
    using assms cast by (simp_all add: ntp_seconds_def ntp_fractions_def packed kFractionsPerSecond_def)
qed

lemma TimeMicrosToNtp_value:
  assumes "in_i64 (us + offset)" "0 \<le> us + offset"
  shows "TimeMicrosToNtp offset us =
    Some (NtpTime ((us + offset) div 1000000 mod 2 ^ 32) ((us + offset) mod 1000000 * 2 ^ 32 div 1000000))"
proof -
  define t where "t = us + offset"
  define m where "m = t mod 1000000"
  have q: "0 \<le> t div 1000000" "t div 1000000 \<le> 9223372036854775807"
    using assms div_le_self_int [of t 1000000] by (simp_all add: int_ranges t_def)
  have m: "0 \<le> m" "m < 1000000"
    by (simp_all add: m_def)
  have f: "0 \<le> m * 4294967296 div 1000000" "m * 4294967296 div 1000000 < 4294967296"
    using m div_bounds [of 1000000 "m * 4294967296"] by (simp add: pos_imp_zdiv_nonneg_iff, linarith)
  then have fits: "in_i64 (m * 4294967296)" "in_i64 (m * 4294967296 div 1000000)" "in_i64 (t div 1000000)"
    using m q by (simp_all add: int_ranges)
  have "convert uint32_t (convert uint64_t (t div 1000000)) = t div 1000000 mod 4294967296"
    using q by (simp add: convert_def)
  moreover have "convert uint32_t (m * 4294967296 div 1000000) = m * 4294967296 div 1000000"
    using f by (simp del: div_mult_mult1_if)
  moreover have "m * 4294967296 sdiv 1000000 = m * 4294967296 div 1000000"
    using m by (intro sdiv_nonneg) simp_all
  moreover have "t sdiv 1000000 = t div 1000000" "t smod 1000000 = m"
    using assms(2) by (simp_all add: sdiv_nonneg smod_nonneg m_def t_def)
  ultimately show ?thesis
    using assms fits unfolding m_def [symmetric] t_def [symmetric]
    by (simp add: TimeMicrosToNtp_def kNumMicrosecsPerSec_def i64_ops del: convert_numeral flip: t_def)
qed

lemma power_numeral_32: "(2::int) ^ 32 = 4294967296"
  by simp

text \<open>NTP time keeps the time: for every time after 1900 the conversion gives the seconds modulo
  \<open>2 ^ 32\<close> and the fractions of the second, and reading them back gives the microseconds, rounded up.\<close>

theorem ntp_time_keeps_microseconds:
  assumes "in_i64 (us + offset)" "0 \<le> us + offset"
  shows "\<exists>v s f. TimeMicrosToNtp offset us = Some v \<and> ntp_seconds v = Some s \<and> ntp_fractions v = Some f
    \<and> s = (us + offset) div 1000000 mod 2 ^ 32
    \<and> - (- (f * 1000000) div 2 ^ 32) = (us + offset) mod 1000000"
proof -
  define m where "m = (us + offset) mod 1000000"
  have m: "0 \<le> m" "m < 1000000"
    by (simp_all add: m_def)
  define f where "f = m * 4294967296 div 1000000"
  have f: "f * 1000000 \<le> m * 4294967296" "m * 4294967296 < f * 1000000 + 1000000"
    using div_bounds [of 1000000 "m * 4294967296"] by (simp_all add: f_def)
  then have "0 \<le> f" "f < 4294967296"
    using m by linarith+
  moreover have "- (f * 1000000) = 4294967296 * (- m) + (m * 4294967296 - f * 1000000)"
    by simp
  then have "- (f * 1000000) div 4294967296 = - m"
    using f int_div_pos_eq [of "- (f * 1000000)" 4294967296 "- m" "m * 4294967296 - f * 1000000"] by linarith
  moreover define h where "h = (us + offset) div 1000000 mod 2 ^ 32"
  moreover have "0 \<le> h" "h < 2 ^ 32" by (simp_all add: h_def)
  ultimately have "ntp_seconds (NtpTime h f) = Some h" "ntp_fractions (NtpTime h f) = Some f"
    and "- (- (f * 1000000) div 2 ^ 32) = m"
    using NtpTime_roundtrip [of h f] by simp_all
  moreover have "TimeMicrosToNtp offset us = Some (NtpTime h f)"
    unfolding h_def f_def m_def by (subst TimeMicrosToNtp_value [OF assms]) (simp only: power_numeral_32)
  ultimately show ?thesis
    unfolding h_def [symmetric] m_def [symmetric] by blast
qed

theorem ntp_time_keeps_microseconds_witness:
  "\<exists>v s f. TimeMicrosToNtp (2208988800 * 1000000) 1500000 = Some v \<and> ntp_seconds v = Some s \<and> ntp_fractions v = Some f
    \<and> s = 2208988801"
  using ntp_time_keeps_microseconds [of 1500000 "2208988800 * 1000000"] by (fastforce simp: int_ranges)

section \<open>SimulatedClock\<close>

definition SimulatedClock :: "int \<Rightarrow> int" where
  "SimulatedClock initial_time_us = initial_time_us"

definition SimulatedClock_CurrentTime :: "int \<Rightarrow> Timestamp checked" where
  "SimulatedClock_CurrentTime time_us = Timestamp_Micros time_us"

definition AdvanceTime :: "TimeDelta \<Rightarrow> int \<Rightarrow> int checked" where
  "AdvanceTime delta time_us = do { us \<leftarrow> td_us delta; Some (convert int64_t (time_us + us)) }"

definition AdvanceTimeMilliseconds :: "int \<Rightarrow> int \<Rightarrow> int checked" where
  "AdvanceTimeMilliseconds milliseconds time_us = do { d \<leftarrow> TimeDelta_Millis milliseconds; AdvanceTime d time_us }"

definition AdvanceTimeMicroseconds :: "int \<Rightarrow> int \<Rightarrow> int checked" where
  "AdvanceTimeMicroseconds microseconds time_us = do { d \<leftarrow> TimeDelta_Micros microseconds; AdvanceTime d time_us }"

section \<open>The clock of WinUWP\<close>

record time_helper =
  app_start_time_ns :: int
  time_since_os_start_ns :: int
  os_ticks_per_second :: int

text \<open>The counter of the machine in nanoseconds, in \<open>uint64_t\<close>.\<close>

definition counter_ns :: "int \<Rightarrow> int \<Rightarrow> int checked" where
  "counter_ns qpcnt ticks_per_second = do {
     c \<leftarrow> dchecked_cast uint64_t int64_t qpcnt;
     t \<leftarrow> dchecked_cast uint64_t int64_t ticks_per_second;
     rtc_check (t \<noteq> 0);
     dchecked_cast int64_t uint64_t (convert uint64_t (convert uint64_t (c * 100000) div t * 10000))
   }"

definition UpdateReferenceTime :: "int \<Rightarrow> int \<Rightarrow> time_helper \<Rightarrow> time_helper checked" where
  "UpdateReferenceTime qpfreq qpcnt h = do {
     ns \<leftarrow> counter_ns qpcnt qpfreq;
     Some (h\<lparr>os_ticks_per_second := qpfreq, time_since_os_start_ns := ns\<rparr>)
   }"

text \<open>The differences are taken in \<open>uint64_t\<close>, which the epoch's offset has.\<close>

definition TimeHelper :: "int \<Rightarrow> int \<Rightarrow> int \<Rightarrow> int \<Rightarrow> time_helper checked" where
  "TimeHelper bias filetime qpfreq qpcnt =
     UpdateReferenceTime qpfreq qpcnt
       \<lparr>app_start_time_ns = convert int64_t ((filetime - 116444736000000000) * 100 - bias * 60 * 1000 * 1000 * 1000),
        time_since_os_start_ns = 0, os_ticks_per_second = 0\<rparr>"

definition SyncWithNtp :: "int \<Rightarrow> int \<Rightarrow> int \<Rightarrow> int \<Rightarrow> time_helper \<Rightarrow> time_helper checked" where
  "SyncWithNtp ntp_server_time_ms bias qpfreq qpcnt h =
     UpdateReferenceTime qpfreq qpcnt
       (h\<lparr>app_start_time_ns :=
          convert int64_t ((ntp_server_time_ms - 2208988800000) * 1000000 - bias * 60 * 1000 * 1000 * 1000)\<rparr>)"

definition TicksNs :: "int \<Rightarrow> time_helper \<Rightarrow> int checked" where
  "TicksNs qpcnt h = do {
     ns \<leftarrow> counter_ns qpcnt (os_ticks_per_second h);
     s \<leftarrow> i64_add (app_start_time_ns h) ns;
     i64_sub s (time_since_os_start_ns h)
   }"

text \<open>With a counter of 10 MHz the product wraps after 213 days, and the clock goes back.\<close>

lemma counter_ns_goes_back:
  "counter_ns 184467440737095 10000000 = Some 18446744073700000"
  "counter_ns 184467440737096 10000000 = Some 0"
  using RangeCheck_spec [of uint64_t int64_t 184467440737095] RangeCheck_spec [of uint64_t int64_t 184467440737096]
    RangeCheck_spec [of uint64_t int64_t 10000000] RangeCheck_spec [of int64_t uint64_t 18446744073700000]
    RangeCheck_spec [of int64_t uint64_t 0]
  by (simp_all add: counter_ns_def dchecked_cast_def IsValueInRangeForNumericType_def std_type_def ty_lowest_def ty_max_def
      convert_def)

text \<open>On Windows a thread that reads the clock between the exchange and the count of another one's wrap
  gets a time that is \<open>2 ^ 32\<close> milliseconds too early.\<close>

lemma win_clock_race:
  "let c0 = \<lparr>last_timegettime = 0xfffffff0, num_wrap_timegettime = 0\<rparr>;
       (old_a, c1) = win_exchange 5 c0;
       (old_b, c2) = win_exchange 6 c1;
       c3 = win_count 6 old_b c2
   in win_ticks 6 c3 = Some 6000000 \<and> win_ticks 5 (win_count 5 old_a c3) = Some (4294967301 * 1000000)"
  by (simp add: win_exchange_def win_count_def win_ticks_def kNumNanosecsPerMillisec_def i64_ops int_ranges)

end
