(* ===== verification/Task_Queue_Win.thy ===== *)
theory Task_Queue_Win
  imports Units Safe_Numerics Task_Queue_Interface Percentile_Filter
begin

text \<open>
  \<open>rtc_base/task_queue_win.cc\<close>: the task queue over the message queue of a Windows thread.  Tasks
  without a delay go into a list under a lock and set an event; delayed tasks are messages to the thread,
  which keeps them in a priority queue and arms one timer for the first of them: a multimedia timer that
  sets an event, or a timer of the message queue when that fails.

  Windows is outside: when timers expire, which object a wait returns for, whether a message could be
  posted and which identifiers the timers get are choices of the steps or arguments.  A wait returns for
  messages only when one has arrived since the last \<open>PeekMessage\<close> (the code does not pass
  \<open>MWMO_INPUTAVAILABLE\<close>), and \<open>KillTimer\<close> leaves the messages of the timer in the queue, as
  documented.  Which of several tasks due first \<open>std::priority_queue\<close> has on top is not specified: the
  index is the argument \<open>pick\<close>, with the law that its element is least.
\<close>

section \<open>The queue\<close>

record 'a delayed_info =
  info_due :: Timestamp
  info_task :: 'a

datatype 'a win_message = WM_QUEUE_DELAYED_TASK "'a delayed_info" | WM_TIMER nat | WM_QUIT

text \<open>\<open>MultimediaTimer\<close>: its event and identifier, and when the timer of the system expires.\<close>

record mm_timer =
  mm_event :: bool
  mm_id :: nat
  mm_expires :: "int option"

record 'a win_queue =
  timer :: mm_timer
  timer_tasks :: "'a delayed_info list"
  timer_id :: nat
  user_timer :: "int option"
  win_pending :: "'a list"
  in_queue :: bool

definition TaskQueueWin :: "'a win_queue" where
  "TaskQueueWin = \<lparr>timer = \<lparr>mm_event = False, mm_id = 0, mm_expires = None\<rparr>, timer_tasks = [], timer_id = 0,
     user_timer = None, win_pending = [], in_queue = False\<rparr>"

definition CurrentTime :: "int \<Rightarrow> Timestamp checked" where
  "CurrentTime us = Timestamp_Micros us"

definition DelayedTaskInfo :: "int \<Rightarrow> TimeDelta \<Rightarrow> 'a \<Rightarrow> 'a delayed_info checked" where
  "DelayedTaskInfo us delay task = do {
     now \<leftarrow> CurrentTime us;
     due \<leftarrow> ts_plus_delta now delay;
     Some \<lparr>info_due = due, info_task = task\<rparr>
   }"

text \<open>\<open>StartOneShotTimer\<close>: the system answers with an identifier, 0 when it fails.\<close>

definition StartOneShotTimer :: "int \<Rightarrow> nat \<Rightarrow> int \<Rightarrow> mm_timer \<Rightarrow> (bool \<times> mm_timer) checked" where
  "StartOneShotTimer us answer delay_ms m = do {
     rtc_check (mm_id m = 0);
     Some (answer \<noteq> 0, m\<lparr>mm_id := answer, mm_expires := (if answer \<noteq> 0 then Some (us + delay_ms * 1000) else mm_expires m)\<rparr>)
   }"

definition mm_Cancel :: "mm_timer \<Rightarrow> mm_timer" where
  "mm_Cancel m = (if mm_id m \<noteq> 0 then m\<lparr>mm_id := 0, mm_expires := None\<rparr> else m)\<lparr>mm_event := False\<rparr>"

definition Win_PostTask :: "'a \<Rightarrow> 'a win_queue \<Rightarrow> 'a win_queue" where
  "Win_PostTask task q = q\<lparr>win_pending := win_pending q @ [task], in_queue := True\<rparr>"

text \<open>\<open>PostDelayedTask\<close>: the queue, the messages of the thread, and the task it drops when the message
  could not be posted.\<close>

datatype 'a delayed_outcome = Posted_now | Message_posted "'a delayed_info" | Dropped "'a delayed_info"

definition Win_PostDelayedTask :: "int \<Rightarrow> bool \<Rightarrow> 'a \<Rightarrow> TimeDelta \<Rightarrow> 'a win_queue \<times> 'a win_message list
    \<Rightarrow> ('a delayed_outcome \<times> 'a win_queue \<times> 'a win_message list) checked" where
  "Win_PostDelayedTask us posted task delay st = (case st of (q, msgs) \<Rightarrow>
     if delay \<le> Zero then Some (Posted_now, Win_PostTask task q, msgs)
     else do {
       info \<leftarrow> DelayedTaskInfo us delay task;
       Some (if posted then (Message_posted info, q, msgs @ [WM_QUEUE_DELAYED_TASK info]) else (Dropped info, q, msgs))
     })"

text \<open>One turn of \<open>RunPendingTasks\<close>: the task to run, if any.\<close>

definition RunPendingTasks_next :: "'a win_queue \<Rightarrow> 'a option \<times> 'a win_queue" where
  "RunPendingTasks_next q = (case win_pending q of [] \<Rightarrow> (None, q) | task # rest \<Rightarrow> (Some task, q\<lparr>win_pending := rest\<rparr>))"

section \<open>Timers\<close>

definition heap_top :: "(int list \<Rightarrow> nat) \<Rightarrow> bool" where
  "heap_top pick \<longleftrightarrow> (\<forall>xs. xs \<noteq> [] \<longrightarrow> pick xs < length xs \<and> (\<forall>x \<in> set xs. xs ! pick xs \<le> x))"

definition top_index :: "(int list \<Rightarrow> nat) \<Rightarrow> 'a win_queue \<Rightarrow> nat" where
  "top_index pick q = pick (map (\<lambda>i. unit_value (info_due i)) (timer_tasks q))"

definition top_task :: "(int list \<Rightarrow> nat) \<Rightarrow> 'a win_queue \<Rightarrow> 'a delayed_info" where
  "top_task pick q = timer_tasks q ! top_index pick q"

definition pop_task :: "(int list \<Rightarrow> nat) \<Rightarrow> 'a win_queue \<Rightarrow> 'a win_queue" where
  "pop_task pick q = q\<lparr>timer_tasks := erase_at (top_index pick q) (timer_tasks q)\<rparr>"

text \<open>One turn of \<open>RunDueTasks\<close> with the time read before the loop: the task to run, if the first is due.\<close>

definition RunDueTasks_next :: "(int list \<Rightarrow> nat) \<Rightarrow> Timestamp \<Rightarrow> 'a win_queue \<Rightarrow> ('a delayed_info \<times> 'a win_queue) option" where
  "RunDueTasks_next pick now q =
     (if timer_tasks q = [] \<or> now < info_due (top_task pick q) then None else Some (top_task pick q, pop_task pick q))"

definition td_ms_u32 :: "TimeDelta \<Rightarrow> int checked" where
  "td_ms_u32 d = do { ms \<leftarrow> td_ms d; dchecked_cast uint32_t int64_t ms }"

definition timer_milliseconds :: "Timestamp \<Rightarrow> Timestamp \<Rightarrow> int checked" where
  "timer_milliseconds due now = do {
     d \<leftarrow> ts_diff due now;
     one \<leftarrow> TimeDelta_Millis 1;
     r \<leftarrow> RoundUpTo False (max Zero d) one;
     td_ms_u32 r
   }"

definition ScheduleNextTimer :: "(int list \<Rightarrow> nat) \<Rightarrow> int \<Rightarrow> nat \<Rightarrow> nat \<Rightarrow> 'a win_queue \<Rightarrow> 'a win_queue checked" where
  "ScheduleNextTimer pick us mm_answer user_answer q = do {
     rtc_check (timer_id q = 0);
     if timer_tasks q = [] then Some q
     else do {
       now \<leftarrow> CurrentTime us;
       ms \<leftarrow> timer_milliseconds (info_due (top_task pick q)) now;
       (started, m) \<leftarrow> StartOneShotTimer us mm_answer ms (timer q);
       Some (if started then q\<lparr>timer := m\<rparr>
             else q\<lparr>timer := m, timer_id := user_answer, user_timer := Some (us + ms * 1000)\<rparr>)
     }
   }"

definition CancelTimers :: "'a win_queue \<Rightarrow> 'a win_queue" where
  "CancelTimers q =
     (let q = q\<lparr>timer := mm_Cancel (timer q)\<rparr>
      in if timer_id q \<noteq> 0 then q\<lparr>timer_id := 0, user_timer := None\<rparr> else q)"

text \<open>The messages: a delayed task is queued, and a timer armed when it is the first; \<open>WM_TIMER\<close> stops the
  timer, and then the due tasks run.\<close>

definition on_delayed_task :: "(int list \<Rightarrow> nat) \<Rightarrow> int \<Rightarrow> nat \<Rightarrow> nat \<Rightarrow> 'a delayed_info \<Rightarrow> 'a win_queue \<Rightarrow> 'a win_queue checked" where
  "on_delayed_task pick us mm_answer user_answer info q =
     (let need_to_schedule_timers = (timer_tasks q = [] \<or> info_due info < info_due (top_task pick q));
        q = q\<lparr>timer_tasks := timer_tasks q @ [info]\<rparr>
      in if need_to_schedule_timers then ScheduleNextTimer pick us mm_answer user_answer (CancelTimers q) else Some q)"

definition on_timer :: "nat \<Rightarrow> 'a win_queue \<Rightarrow> 'a win_queue checked" where
  "on_timer wParam q = do {
     rtc_check (timer_id q = wParam);
     rtc_check (timer_tasks q \<noteq> []);
     Some (q\<lparr>timer_id := 0, user_timer := None\<rparr>)
   }"

definition kMaxTaskProcessingTime :: int where
  "kMaxTaskProcessingTime = 500000"

section \<open>The threads\<close>

text \<open>Where the thread is: waiting; in \<open>ProcessQueuedMessages\<close> since a time; running due tasks within it or
  in the loop of \<open>RunThreadMain\<close>; at the test of the timer's event, for the object the wait returned; running
  pending tasks; and gone.\<close>

datatype wait_result = Timer_event | In_queue_event | Messages | Completion

datatype win_phase =
    Waiting
  | Peeking int
  | Due_in_messages int Timestamp
  | At_timer_test wait_result
  | Due_in_loop wait_result Timestamp
  | At_in_queue_test wait_result
  | Running_pending
  | Gone

text \<open>\<open>wran\<close>, \<open>wposted\<close>, \<open>wdelayed\<close>, \<open>wdropped\<close> and \<open>cut_off\<close> record the history; the code does not have them.
  \<open>wdelayed\<close> has the time each delayed task was posted for, \<open>cut_off\<close> tells whether the last \<open>ProcessQueuedMessages\<close>
  stopped at its time limit.\<close>

record 'a win_sys =
  wq :: "'a win_queue"
  messages :: "'a win_message list"
  unseen :: bool
  wclock :: int
  wphase :: win_phase
  wran :: "'a executed list"
  wposted :: "'a list"
  wdelayed :: "(int \<times> 'a) multiset"
  wdropped :: "(int \<times> 'a) multiset"
  cut_off :: bool

definition win_init :: "int \<Rightarrow> 'a win_sys" where
  "win_init start = \<lparr>wq = TaskQueueWin, messages = [], unseen = False, wclock = start, wphase = Waiting, wran = [],
     wposted = [], wdelayed = {#}, wdropped = {#}, cut_off = False\<rparr>"

text \<open>The time a delayed task is posted for, as its poster understands it: the time of the call and the delay; never,
  for an infinite delay.\<close>

definition promised :: "int \<Rightarrow> TimeDelta \<Rightarrow> int" where
  "promised us delay = (if IsPlusInfinity delay then i64_max else us + unit_value delay)"

definition due_pair :: "'a delayed_info \<Rightarrow> int \<times> 'a" where
  "due_pair i = (unit_value (info_due i), info_task i)"

text \<open>What a wait may return for.\<close>

fun signaled :: "'a win_sys \<Rightarrow> wait_result \<Rightarrow> bool" where
  "signaled s Timer_event = mm_event (timer (wq s))"
| "signaled s In_queue_event = (in_queue (wq s) \<and> \<not> mm_event (timer (wq s)))"
| "signaled s Messages = (unseen s \<and> \<not> mm_event (timer (wq s)) \<and> \<not> in_queue (wq s))"
| "signaled s Completion = True"

text \<open>Whether the loop stops the multimedia timer and runs the due tasks.\<close>

definition timer_section :: "wait_result \<Rightarrow> 'a win_queue \<Rightarrow> bool" where
  "timer_section r q \<longleftrightarrow> r = Timer_event \<or> (timer_tasks q \<noteq> [] \<and> mm_event (timer q))"

definition run_due :: "'a delayed_info \<Rightarrow> int \<Rightarrow> 'a executed" where
  "run_due i t = Ran_delayed (unit_value (info_due i)) t (info_task i)"

inductive win_step :: "(int list \<Rightarrow> nat) \<Rightarrow> 'a win_sys \<Rightarrow> 'a win_sys \<Rightarrow> bool" for pick where
  w_tick: "wclock s \<le> t \<Longrightarrow> win_step pick s (s\<lparr>wclock := t\<rparr>)"
| w_post: "win_step pick s (s\<lparr>wq := Win_PostTask a (wq s), wposted := wposted s @ [a]\<rparr>)"
| w_post_now: "Win_PostDelayedTask (wclock s) p a delay (wq s, messages s) = Some (Posted_now, q, ms) \<Longrightarrow>
    win_step pick s (s\<lparr>wq := q, wposted := wposted s @ [a]\<rparr>)"
| w_post_delayed: "Win_PostDelayedTask (wclock s) p a delay (wq s, messages s) = Some (Message_posted i, q, ms) \<Longrightarrow>
    win_step pick s (s\<lparr>wq := q, messages := ms, unseen := True, wdelayed := add_mset (promised (wclock s) delay, a) (wdelayed s)\<rparr>)"
| w_post_dropped: "Win_PostDelayedTask (wclock s) p a delay (wq s, messages s) = Some (Dropped i, q, ms) \<Longrightarrow>
    win_step pick s (s\<lparr>wq := q, messages := ms, wdelayed := add_mset (promised (wclock s) delay, a) (wdelayed s),
      wdropped := add_mset (promised (wclock s) delay, a) (wdropped s)\<rparr>)"
| w_delete: "win_step pick s (s\<lparr>messages := messages s @ [WM_QUIT], unseen := True\<rparr>)"
| w_mm_expires: "mm_expires (timer (wq s)) = Some t \<Longrightarrow> t \<le> wclock s \<Longrightarrow>
    win_step pick s (s\<lparr>wq := (wq s)\<lparr>timer := (timer (wq s))\<lparr>mm_event := True, mm_expires := None\<rparr>\<rparr>\<rparr>)"
| w_user_expires: "user_timer (wq s) = Some t \<Longrightarrow> t \<le> wclock s \<Longrightarrow>
    win_step pick s (s\<lparr>messages := messages s @ [WM_TIMER (timer_id (wq s))], unseen := True\<rparr>)"
| w_wait: "wphase s = Waiting \<Longrightarrow> signaled s r \<Longrightarrow>
    win_step pick s (s\<lparr>wphase := (if r = Messages then Peeking (wclock s) else At_timer_test r),
      cut_off := (cut_off s \<and> r \<noteq> Messages)\<rparr>)"
| w_peek_delayed: "wphase s = Peeking start \<Longrightarrow> messages s = WM_QUEUE_DELAYED_TASK i # ms \<Longrightarrow>
    on_delayed_task pick (wclock s) mm_answer user_answer i (wq s) = Some q \<Longrightarrow> user_answer \<noteq> 0 \<Longrightarrow>
    win_step pick s (s\<lparr>wq := q, messages := ms, unseen := False,
      wphase := (if wclock s > start + kMaxTaskProcessingTime then At_timer_test Messages else Peeking start),
      cut_off := (wclock s > start + kMaxTaskProcessingTime)\<rparr>)"
| w_peek_timer: "wphase s = Peeking start \<Longrightarrow> messages s = WM_TIMER k # ms \<Longrightarrow> on_timer k (wq s) = Some q \<Longrightarrow>
    CurrentTime (wclock s) = Some now \<Longrightarrow>
    win_step pick s (s\<lparr>wq := q, messages := ms, unseen := False, wphase := Due_in_messages start now\<rparr>)"
| w_due_in_messages: "wphase s = Due_in_messages start now \<Longrightarrow> RunDueTasks_next pick now (wq s) = Some (i, q) \<Longrightarrow>
    win_step pick s (s\<lparr>wq := q, wran := wran s @ [run_due i (wclock s)]\<rparr>)"
| w_due_in_messages_end: "wphase s = Due_in_messages start now \<Longrightarrow> RunDueTasks_next pick now (wq s) = None \<Longrightarrow>
    ScheduleNextTimer pick (wclock s) mm_answer user_answer (wq s) = Some q \<Longrightarrow> user_answer \<noteq> 0 \<Longrightarrow>
    win_step pick s (s\<lparr>wq := q,
      wphase := (if wclock s > start + kMaxTaskProcessingTime then At_timer_test Messages else Peeking start),
      cut_off := (wclock s > start + kMaxTaskProcessingTime)\<rparr>)"
| w_peek_none: "wphase s = Peeking start \<Longrightarrow> messages s = [] \<Longrightarrow>
    win_step pick s (s\<lparr>unseen := False, wphase := At_timer_test Messages\<rparr>)"
| w_peek_quit: "wphase s = Peeking start \<Longrightarrow> messages s = WM_QUIT # ms \<Longrightarrow>
    win_step pick s (s\<lparr>messages := ms, wphase := Gone\<rparr>)"
| w_timer_test: "wphase s = At_timer_test r \<Longrightarrow> timer_section r (wq s) \<Longrightarrow> timer_tasks (wq s) \<noteq> [] \<Longrightarrow>
    CurrentTime (wclock s) = Some now \<Longrightarrow>
    win_step pick s (s\<lparr>wq := (wq s)\<lparr>timer := mm_Cancel (timer (wq s))\<rparr>, wphase := Due_in_loop r now\<rparr>)"
| w_no_timer: "wphase s = At_timer_test r \<Longrightarrow> \<not> timer_section r (wq s) \<Longrightarrow>
    win_step pick s (s\<lparr>wphase := At_in_queue_test r\<rparr>)"
| w_due_in_loop: "wphase s = Due_in_loop r now \<Longrightarrow> RunDueTasks_next pick now (wq s) = Some (i, q) \<Longrightarrow>
    win_step pick s (s\<lparr>wq := q, wran := wran s @ [run_due i (wclock s)]\<rparr>)"
| w_due_in_loop_end: "wphase s = Due_in_loop r now \<Longrightarrow> RunDueTasks_next pick now (wq s) = None \<Longrightarrow>
    ScheduleNextTimer pick (wclock s) mm_answer user_answer (wq s) = Some q \<Longrightarrow> user_answer \<noteq> 0 \<Longrightarrow>
    win_step pick s (s\<lparr>wq := q, wphase := At_in_queue_test r\<rparr>)"
| w_in_queue: "wphase s = At_in_queue_test In_queue_event \<Longrightarrow>
    win_step pick s (s\<lparr>wq := (wq s)\<lparr>in_queue := False\<rparr>, wphase := Running_pending\<rparr>)"
| w_not_in_queue: "wphase s = At_in_queue_test r \<Longrightarrow> r \<noteq> In_queue_event \<Longrightarrow> win_step pick s (s\<lparr>wphase := Waiting\<rparr>)"
| w_run_pending: "wphase s = Running_pending \<Longrightarrow> RunPendingTasks_next (wq s) = (Some a, q) \<Longrightarrow>
    win_step pick s (s\<lparr>wq := q, wran := wran s @ [Ran_immediate a]\<rparr>)"
| w_pending_end: "wphase s = Running_pending \<Longrightarrow> RunPendingTasks_next (wq s) = (None, q) \<Longrightarrow>
    win_step pick s (s\<lparr>wphase := Waiting\<rparr>)"

inductive win_reachable :: "(int list \<Rightarrow> nat) \<Rightarrow> int \<Rightarrow> 'a win_sys \<Rightarrow> bool" for pick start where
  win_start: "win_reachable pick start (win_init start)"
| win_more: "win_reachable pick start s \<Longrightarrow> win_step pick s s' \<Longrightarrow> win_reachable pick start s'"

section \<open>Timers are armed for the first task\<close>

definition timers_ok :: "int \<Rightarrow> bool \<Rightarrow> 'a win_queue \<Rightarrow> bool" where
  "timers_ok t due q \<longleftrightarrow>
     (mm_id (timer q) \<noteq> 0 \<longleftrightarrow> mm_event (timer q) \<or> mm_expires (timer q) \<noteq> None)
     \<and> (timer_id q \<noteq> 0 \<longleftrightarrow> user_timer q \<noteq> None)
     \<and> (timer_id q \<noteq> 0 \<longrightarrow> mm_id (timer q) = 0)
     \<and> (due \<longrightarrow> mm_id (timer q) = 0 \<and> timer_id q = 0)
     \<and> (\<not> due \<longrightarrow> (timer_tasks q \<noteq> [] \<longleftrightarrow> mm_id (timer q) \<noteq> 0 \<or> timer_id q \<noteq> 0))
     \<and> (\<forall>d i. (mm_expires (timer q) = Some d \<or> user_timer q = Some d) \<longrightarrow> i \<in> set (timer_tasks q) \<longrightarrow>
          d \<le> t \<or> d < unit_value (info_due i) + 1000)"

fun due_phase :: "win_phase \<Rightarrow> bool" where
  "due_phase (Due_in_messages start now) = True"
| "due_phase (Due_in_loop r now) = True"
| "due_phase _ = False"

lemma mm_Cancel_simps [simp]:
  "mm_event (mm_Cancel m) = False" "mm_id (mm_Cancel m) = 0"
  "mm_expires (mm_Cancel m) = (if mm_id m \<noteq> 0 then None else mm_expires m)"
  by (simp_all add: mm_Cancel_def)

lemma top_in_tasks:
  assumes "heap_top pick" "timer_tasks q \<noteq> []"
  shows "top_index pick q < length (timer_tasks q)" "top_task pick q \<in> set (timer_tasks q)"
    "i \<in> set (timer_tasks q) \<Longrightarrow> unit_value (info_due (top_task pick q)) \<le> unit_value (info_due i)"
proof -
  let ?xs = "map (\<lambda>i. unit_value (info_due i)) (timer_tasks q)"
  have "?xs \<noteq> []"
    using assms(2) by simp
  then have least: "pick ?xs < length ?xs" "\<forall>x \<in> set ?xs. ?xs ! pick ?xs \<le> x"
    using assms(1) unfolding heap_top_def by blast+
  then show "top_index pick q < length (timer_tasks q)" "top_task pick q \<in> set (timer_tasks q)"
    by (simp_all add: top_index_def top_task_def)
  show "unit_value (info_due (top_task pick q)) \<le> unit_value (info_due i)" if "i \<in> set (timer_tasks q)"
    using least that by (simp add: top_index_def top_task_def)
qed

lemma dchecked_cast_u32:
  assumes "dchecked_cast uint32_t int64_t x = Some y" "in_i64 x"
  shows "y = x"
proof -
  have range: "in_type int64_t x"
    using assms(2) by (simp add: int_ranges)
  have "RangeCheck uint32_t int64_t x = TYPE_VALID"
    using assms(1) by (simp add: dchecked_cast_def IsValueInRangeForNumericType_def checked_simps split: if_splits)
  then have "0 \<le> x" "x \<le> 4294967295"
    using RangeCheck_spec [OF _ _ range, of uint32_t]
    by (simp_all add: std_type_def ty_lowest_def ty_max_def split: if_splits)
  then show ?thesis
    using assms(1) by (simp add: dchecked_cast_def checked_simps split: if_splits)
qed

text \<open>The number of milliseconds is the duration rounded up.\<close>

lemma rounded_milliseconds:
  assumes "RoundUpTo False (Unit_T e) (Unit_T 1000) = Some r" "td_ms_u32 r = Some ms" "0 \<le> e"
  shows "e \<le> ms * 1000" "ms * 1000 < e + 1000"
proof -
  define k where "k = (e + 999) sdiv 1000"
  have r: "r = Unit_T (k * 1000)" and k: "in_i64 k"
    using assms(1) by (auto simp: RoundUpTo_def i64_ops unit_mul_scalar_def FromValue_def ToValue_def checked_simps k_def
        add.commute split: if_splits)
  obtain n where n: "DivRoundToNearest (k * 1000) 1000 = Some n" "dchecked_cast uint32_t int64_t n = Some ms"
    using assms(2) by (auto simp: td_ms_u32_def td_ms_def ToFraction_def r checked_simps split: if_splits)
  have "\<bar>n * 1000 - k * 1000\<bar> \<le> 500"
    using DivRoundToNearest_error [OF n(1)] by simp
  then have "n * 1000 - k * 1000 \<le> 500" "k * 1000 - n * 1000 \<le> 500"
    by (simp_all only: abs_le_iff minus_diff_eq)
  then have "n - k < 1" "k - n < 1"
    by linarith+
  then have "n = k"
    by simp
  then have "ms = k"
    using n(2) k dchecked_cast_u32 by blast
  moreover have "k = (e + 999) div 1000"
    using assms(3) by (simp add: k_def sdiv_nonneg)
  ultimately show "e \<le> ms * 1000" "ms * 1000 < e + 1000"
    using div_bounds [of 1000 "e + 999"] by linarith+
qed

lemma timer_milliseconds_bounds:
  assumes "timer_milliseconds due now = Some ms" "CurrentTime us = Some now"
  shows "t = us + ms * 1000 \<Longrightarrow> unit_value due \<le> t \<and> (t = us \<or> t < unit_value due + 1000)"
proof -
  have now: "now = Unit_T us" "i64_min < us" "us < i64_max"
    using assms(2) by (auto simp: CurrentTime_def Timestamp_Micros_def FromValue_def checked_simps split: if_splits)
  obtain d r where d: "ts_diff due now = Some d" and r: "RoundUpTo False (max Zero d) (Unit_T 1000) = Some r"
    and ms: "td_ms_u32 r = Some ms"
    using assms(1) by (auto simp: timer_milliseconds_def TimeDelta_Millis_def FromFraction_def i64_ops int_ranges
        sdiv_pos_cases checked_simps split: if_splits)
  have finite: "IsFinite (max Zero d)"
    using r by (auto simp: RoundUpTo_def checked_simps split: if_splits)
  obtain e where e: "max Zero d = Unit_T e" "0 \<le> e" "e = max 0 (unit_value d)"
    by (cases "max Zero d") (auto simp: max_def Zero_def less_eq_unit_base_def unit_le_def split: if_splits)
  note bounds = rounded_milliseconds [OF r [unfolded e(1)] ms e(2)]
  consider "IsPlusInfinity due" | "IsMinusInfinity due" | "IsFinite due"
    by (auto simp: IsFinite_def IsInfinite_def IsPlusInfinity_def IsMinusInfinity_def)
  then show "t = us + ms * 1000 \<Longrightarrow> unit_value due \<le> t \<and> (t = us \<or> t < unit_value due + 1000)"
  proof cases
    case 1
    then have "d = PlusInfinity"
      using d now by (auto simp: ts_diff_def checked_simps split: if_splits)
    then have "e = i64_max"
      using e(3) by (simp add: PlusInfinity_def int_ranges)
    then show ?thesis
      using finite e(1) by (simp add: IsFinite_def IsInfinite_def)
  next
    case 2
    then have "d = MinusInfinity" "unit_value due = i64_min"
      using d now by (auto simp: ts_diff_def IsPlusInfinity_def IsMinusInfinity_def int_ranges checked_simps split: if_splits)
    then have "e = 0" "unit_value due = i64_min"
      using e(3) by (simp_all add: MinusInfinity_def int_ranges)
    then show "t = us + ms * 1000 \<Longrightarrow> ?thesis"
      using bounds now by (auto simp: max_def)
  next
    case 3
    then have "unit_value d = unit_value due - us"
      using d now by (auto simp: ts_diff_def ts_us_def ToValue_def TimeDelta_Micros_def FromValue_def i64_sub_def
          IsFinite_def IsInfinite_def IsPlusInfinity_def IsMinusInfinity_def checked_simps split: if_splits)
    then show "t = us + ms * 1000 \<Longrightarrow> ?thesis"
      using bounds e(3) by (auto simp: max_def split: if_splits)
  qed
qed

lemma ScheduleNextTimer_ok:
  assumes "ScheduleNextTimer pick us mm_answer user_answer q = Some q'" "timers_ok us True q" "heap_top pick" "user_answer \<noteq> 0"
  shows "timers_ok us False q'" "timer_tasks q' = timer_tasks q" "win_pending q' = win_pending q" "in_queue q' = in_queue q"
proof -
  have off: "mm_id (timer q) = 0" "\<not> mm_event (timer q)" "mm_expires (timer q) = None" "timer_id q = 0" "user_timer q = None"
    using assms(2) by (auto simp: timers_ok_def)
  have "timers_ok us False q' \<and> timer_tasks q' = timer_tasks q \<and> win_pending q' = win_pending q \<and> in_queue q' = in_queue q"
  proof (cases "timer_tasks q = []")
    case True
    then have "q' = q"
      using assms(1) by (simp add: ScheduleNextTimer_def off)
    with True off show ?thesis
      by (simp add: timers_ok_def)
  next
    case False
    then obtain now ms where now: "CurrentTime us = Some now"
      and ms: "timer_milliseconds (info_due (top_task pick q)) now = Some ms"
      and q': "q' = (if mm_answer \<noteq> 0 then q\<lparr>timer := (timer q)\<lparr>mm_id := mm_answer, mm_expires := Some (us + ms * 1000)\<rparr>\<rparr>
          else q\<lparr>timer := timer q, timer_id := user_answer, user_timer := Some (us + ms * 1000)\<rparr>)"
      using assms(1) off by (auto simp: ScheduleNextTimer_def StartOneShotTimer_def checked_simps split: if_splits)
    have "us + ms * 1000 \<le> us \<or> us + ms * 1000 < unit_value (info_due i) + 1000" if "i \<in> set (timer_tasks q)" for i
      using timer_milliseconds_bounds [OF ms now refl] top_in_tasks(3) [OF assms(3) False that] by linarith
    with False off assms(4) show ?thesis
      by (auto simp: timers_ok_def q')
  qed
  then show "timers_ok us False q'" "timer_tasks q' = timer_tasks q" "win_pending q' = win_pending q" "in_queue q' = in_queue q"
    by blast+
qed

lemma CancelTimers_ok:
  assumes "timers_ok t due q"
  shows "timers_ok t' True (CancelTimers q)" "timer_tasks (CancelTimers q) = timer_tasks q"
    "win_pending (CancelTimers q) = win_pending q" "in_queue (CancelTimers q) = in_queue q"
  using assms by (auto simp: timers_ok_def CancelTimers_def Let_def)

lemma timers_ok_later: "timers_ok t due q \<Longrightarrow> t \<le> t' \<Longrightarrow> timers_ok t' due q"
  unfolding timers_ok_def by (meson order_trans)

lemma timers_ok_more_tasks:
  assumes "timers_ok t False q" "timer_tasks q \<noteq> []" "\<not> info_due i < info_due (top_task pick q)" "heap_top pick"
  shows "timers_ok t False (q\<lparr>timer_tasks := timer_tasks q @ [i]\<rparr>)"
proof -
  have "unit_value (info_due (top_task pick q)) \<le> unit_value (info_due i)"
    using assms(3) by (simp add: not_less less_eq_unit_base_def unit_le_def)
  moreover have "top_task pick q \<in> set (timer_tasks q)"
    using top_in_tasks(2) [OF assms(4,2)] .
  ultimately show ?thesis
    using assms(1,2) unfolding timers_ok_def by (fastforce simp: max_def split: if_splits)
qed

lemma on_delayed_task_ok:
  assumes "on_delayed_task pick us mm_answer user_answer i q = Some q'" "timers_ok us False q" "heap_top pick" "user_answer \<noteq> 0"
  shows "timers_ok us False q'" "mset (timer_tasks q') = add_mset i (mset (timer_tasks q))"
    "win_pending q' = win_pending q" "in_queue q' = in_queue q"
proof -
  let ?q = "q\<lparr>timer_tasks := timer_tasks q @ [i]\<rparr>"
  have "timers_ok us False q' \<and> mset (timer_tasks q') = add_mset i (mset (timer_tasks q))
      \<and> win_pending q' = win_pending q \<and> in_queue q' = in_queue q"
  proof (cases "timer_tasks q = [] \<or> info_due i < info_due (top_task pick q)")
    case True
    then have sched: "ScheduleNextTimer pick us mm_answer user_answer (CancelTimers ?q) = Some q'"
      using assms(1) by (simp add: on_delayed_task_def Let_def)
    have "timers_ok us True (CancelTimers ?q)"
      using assms(2) by (auto simp: timers_ok_def CancelTimers_def Let_def)
    from ScheduleNextTimer_ok [OF sched this assms(3,4)] show ?thesis
      by (simp add: CancelTimers_def Let_def)
  next
    case False
    then have "q' = ?q"
      using assms(1) by (simp add: on_delayed_task_def Let_def)
    with False show ?thesis
      using timers_ok_more_tasks [OF assms(2) _ _ assms(3), of i] by simp
  qed
  then show "timers_ok us False q'" "mset (timer_tasks q') = add_mset i (mset (timer_tasks q))"
    "win_pending q' = win_pending q" "in_queue q' = in_queue q"
    by blast+
qed

section \<open>The invariant of the threads\<close>

fun read_time :: "win_phase \<Rightarrow> Timestamp option" where
  "read_time (Due_in_messages start now) = Some now"
| "read_time (Due_in_loop r now) = Some now"
| "read_time _ = None"

fun in_messages_loop :: "win_phase \<Rightarrow> bool" where
  "in_messages_loop (Peeking start) = True"
| "in_messages_loop (Due_in_messages start now) = True"
| "in_messages_loop _ = False"

definition win_inv :: "'a win_sys \<Rightarrow> bool" where
  "win_inv s \<longleftrightarrow> timers_ok (wclock s) (due_phase (wphase s)) (wq s)
     \<and> (wphase s = At_timer_test Timer_event \<longrightarrow> mm_event (timer (wq s)))
     \<and> (win_pending (wq s) \<noteq> [] \<longrightarrow> in_queue (wq s) \<or> wphase s = Running_pending)
     \<and> (\<forall>now. read_time (wphase s) = Some now \<longrightarrow> unit_value now \<le> wclock s)
     \<and> WM_TIMER 0 \<notin> set (messages s)
     \<and> (messages s \<noteq> [] \<longrightarrow> unseen s \<or> cut_off s \<or> in_messages_loop (wphase s) \<or> wphase s = Gone)
     \<and> (\<forall>x \<in> set (wran s). not_early x)"

fun in_messages :: "'a win_message list \<Rightarrow> (int \<times> 'a) multiset" where
  "in_messages [] = {#}"
| "in_messages (WM_QUEUE_DELAYED_TASK i # ms) = add_mset (due_pair i) (in_messages ms)"
| "in_messages (WM_TIMER k # ms) = in_messages ms"
| "in_messages (WM_QUIT # ms) = in_messages ms"

lemma in_messages_append [simp]: "in_messages (ms @ ns) = in_messages ms + in_messages ns"
  by (induction ms rule: in_messages.induct) auto

lemma wran_snoc [simp]:
  "ran_immediate (l @ [Ran_immediate a]) = ran_immediate l @ [a]"
  "ran_immediate (l @ [Ran_delayed d t a]) = ran_immediate l"
  "ran_due (l @ [Ran_immediate a]) = ran_due l"
  "ran_due (l @ [Ran_delayed d t a]) = add_mset (d, a) (ran_due l)"
  by (induction l rule: ran_immediate.induct) auto

definition win_account :: "'a win_sys \<Rightarrow> bool" where
  "win_account s \<longleftrightarrow> ran_immediate (wran s) @ win_pending (wq s) = wposted s
     \<and> ran_due (wran s) + image_mset due_pair (mset (timer_tasks (wq s))) + in_messages (messages s) + wdropped s = wdelayed s"

lemma RunDueTasks_next_ok:
  assumes "RunDueTasks_next pick now q = Some (i, q')" "timers_ok t True q" "heap_top pick"
  shows "timers_ok t True q'" "mset (timer_tasks q) = add_mset i (mset (timer_tasks q'))" "unit_value (info_due i) \<le> unit_value now"
    "win_pending q' = win_pending q" "in_queue q' = in_queue q" "mm_event (timer q') = mm_event (timer q)"
proof -
  have parts: "timer_tasks q \<noteq> []" "i = top_task pick q" "q' = pop_task pick q" "\<not> now < info_due i"
    using assms(1) by (auto simp: RunDueTasks_next_def split: if_splits)
  show "mset (timer_tasks q) = add_mset i (mset (timer_tasks q'))"
    using mset_erase_at [OF top_in_tasks(1) [OF assms(3) parts(1)]] parts by (simp add: pop_task_def top_task_def)
  show "timers_ok t True q'"
    using assms(2) parts(3) by (auto simp: timers_ok_def pop_task_def)
  show "unit_value (info_due i) \<le> unit_value now"
    using parts(4) by (simp add: not_less less_eq_unit_base_def unit_le_def)
  show "win_pending q' = win_pending q" "in_queue q' = in_queue q" "mm_event (timer q') = mm_event (timer q)"
    using parts(3) by (simp_all add: pop_task_def)
qed

lemma CurrentTime_value: "CurrentTime us = Some now \<Longrightarrow> unit_value now = us"
  by (auto simp: CurrentTime_def Timestamp_Micros_def FromValue_def checked_simps split: if_splits)

lemma DelayedTaskInfo_due:
  assumes "DelayedTaskInfo us delay task = Some i" "IsFinite delay"
  shows "unit_value (info_due i) = us + unit_value delay \<and> info_task i = task"
  using assms by (auto simp: DelayedTaskInfo_def CurrentTime_def Timestamp_Micros_def FromValue_def ts_plus_delta_def ts_us_def
      td_us_def ToValue_def IsFinite_def IsInfinite_def IsPlusInfinity_def IsMinusInfinity_def i64_add_def checked_simps
      split: if_splits)

text \<open>The queue notes the time the poster was promised.\<close>

lemma DelayedTaskInfo_promised:
  assumes "DelayedTaskInfo us delay task = Some i" "\<not> delay \<le> Zero"
  shows "due_pair i = (promised us delay, task)"
proof (cases "IsPlusInfinity delay")
  case True
  then show ?thesis
    using assms(1) by (auto simp: DelayedTaskInfo_def CurrentTime_def Timestamp_Micros_def FromValue_def ts_plus_delta_def
        IsPlusInfinity_def PlusInfinity_def promised_def due_pair_def checked_simps split: if_splits)
next
  case False
  then have "IsFinite delay"
    using assms(2) by (cases delay) (auto simp: IsFinite_def IsInfinite_def IsPlusInfinity_def IsMinusInfinity_def Zero_def
        less_eq_unit_base_def unit_le_def MinusInfinity_def int_ranges)
  then show ?thesis
    using DelayedTaskInfo_due [OF assms(1)] False by (simp add: due_pair_def promised_def)
qed

lemma on_timer_ok:
  assumes "on_timer k q = Some q'" "timers_ok t False q" "k \<noteq> 0"
  shows "timers_ok t True q'" "timer_tasks q' = timer_tasks q" "win_pending q' = win_pending q" "in_queue q' = in_queue q"
  using assms by (auto simp: on_timer_def timers_ok_def checked_simps split: if_splits)

lemma Win_PostDelayedTask_cases:
  assumes "Win_PostDelayedTask us p a delay (q, ms) = Some (out, q', ms')"
  shows "out = Posted_now \<Longrightarrow> q' = Win_PostTask a q \<and> ms' = ms"
    "out = Message_posted i \<Longrightarrow> q' = q \<and> ms' = ms @ [WM_QUEUE_DELAYED_TASK i] \<and> due_pair i = (promised us delay, a)"
    "out = Dropped i \<Longrightarrow> q' = q \<and> ms' = ms"
  using assms DelayedTaskInfo_promised [of us delay a]
  by (auto simp: Win_PostDelayedTask_def checked_simps split: if_splits)

lemma timers_ok_PostTask [simp]: "timers_ok t due (Win_PostTask a q) = timers_ok t due q"
  "timers_ok t due (q\<lparr>in_queue := b\<rparr>) = timers_ok t due q"
  "timers_ok t due (q\<lparr>win_pending := xs\<rparr>) = timers_ok t due q"
  by (simp_all add: timers_ok_def Win_PostTask_def)

lemma win_inv_step:
  assumes "win_step pick s s'" "win_inv s" "heap_top pick"
  shows "win_inv s'"
  using assms(1)
proof cases
  case (w_tick t)
  with assms(2) show ?thesis
    using timers_ok_later [of "wclock s" _ "wq s" t] by (fastforce simp: win_inv_def)
next
  case (w_post a)
  with assms(2) show ?thesis
    by (auto simp: win_inv_def) (auto simp: Win_PostTask_def)
next
  case (w_post_now p a delay q ms)
  with assms(2) show ?thesis
    using Win_PostDelayedTask_cases(1) [OF w_post_now(2)] by (auto simp: win_inv_def) (auto simp: Win_PostTask_def)
next
  case (w_post_delayed p a delay i q ms)
  with assms(2) show ?thesis
    using Win_PostDelayedTask_cases(2) [OF w_post_delayed(2)] by (auto simp: win_inv_def)
next
  case (w_post_dropped p a delay i q ms)
  with assms(2) show ?thesis
    using Win_PostDelayedTask_cases(3) [OF w_post_dropped(2)] by (auto simp: win_inv_def)
next
  case (w_mm_expires t)
  with assms(2) show ?thesis
    by (auto simp: win_inv_def timers_ok_def)
next
  case (w_user_expires t)
  have "timers_ok (wclock s) (due_phase (wphase s)) (wq s)"
    using assms(2) by (simp add: win_inv_def)
  then have "timer_id (wq s) \<noteq> 0"
    using w_user_expires(2) by (simp add: timers_ok_def)
  with w_user_expires assms(2) show ?thesis
    by (simp add: win_inv_def)
next
  case (w_wait r)
  with assms(2) show ?thesis
    by (auto simp: win_inv_def)
next
  case (w_peek_delayed start i ms mm_answer user_answer q)
  have "timers_ok (wclock s) False (wq s)"
    using assms(2) w_peek_delayed(2) by (simp add: win_inv_def)
  from on_delayed_task_ok [OF w_peek_delayed(4) this assms(3) w_peek_delayed(5)] w_peek_delayed assms(2) show ?thesis
    by (auto simp: win_inv_def)
next
  case (w_peek_timer start k ms q now)
  have "timers_ok (wclock s) False (wq s)" "k \<noteq> 0"
    using assms(2) w_peek_timer(2,3) by (auto simp: win_inv_def)
  from on_timer_ok [OF w_peek_timer(4) this] CurrentTime_value [OF w_peek_timer(5)] w_peek_timer assms(2) show ?thesis
    by (auto simp: win_inv_def)
next
  case (w_due_in_messages start now i q)
  have "timers_ok (wclock s) True (wq s)"
    using assms(2) w_due_in_messages(2) by (simp add: win_inv_def)
  from RunDueTasks_next_ok [OF w_due_in_messages(3) this assms(3)] w_due_in_messages assms(2) show ?thesis
    by (fastforce simp: win_inv_def run_due_def)
next
  case (w_due_in_messages_end start now mm_answer user_answer q)
  have "timers_ok (wclock s) True (wq s)"
    using assms(2) w_due_in_messages_end(2) by (simp add: win_inv_def)
  from ScheduleNextTimer_ok [OF w_due_in_messages_end(4) this assms(3) w_due_in_messages_end(5)] w_due_in_messages_end assms(2)
  show ?thesis
    by (auto simp: win_inv_def)
next
  case (w_timer_test r now)
  have "timers_ok (wclock s) False (wq s)" "mm_event (timer (wq s))"
    using assms(2) w_timer_test(2,3) by (auto simp: win_inv_def timer_section_def)
  then have "timers_ok (wclock s) True ((wq s)\<lparr>timer := mm_Cancel (timer (wq s))\<rparr>)"
    by (auto simp: timers_ok_def)
  with CurrentTime_value [OF w_timer_test(5)] w_timer_test assms(2) show ?thesis
    by (auto simp: win_inv_def)
next
  case (w_due_in_loop r now i q)
  have "timers_ok (wclock s) True (wq s)"
    using assms(2) w_due_in_loop(2) by (simp add: win_inv_def)
  from RunDueTasks_next_ok [OF w_due_in_loop(3) this assms(3)] w_due_in_loop assms(2) show ?thesis
    by (fastforce simp: win_inv_def run_due_def)
next
  case (w_due_in_loop_end r now mm_answer user_answer q)
  have "timers_ok (wclock s) True (wq s)"
    using assms(2) w_due_in_loop_end(2) by (simp add: win_inv_def)
  from ScheduleNextTimer_ok [OF w_due_in_loop_end(4) this assms(3) w_due_in_loop_end(5)] w_due_in_loop_end assms(2)
  show ?thesis
    by (auto simp: win_inv_def)
next
  case (w_run_pending a q)
  with assms(2) show ?thesis
    by (auto simp: win_inv_def RunPendingTasks_next_def split: list.splits)
next
  case (w_pending_end q)
  with assms(2) show ?thesis
    by (auto simp: win_inv_def RunPendingTasks_next_def split: list.splits)
qed (use assms(2) in \<open>auto simp: win_inv_def\<close>)

lemma win_account_step:
  assumes "win_step pick s s'" "win_inv s" "win_account s" "heap_top pick"
  shows "win_account s'"
  using assms(1)
proof cases
  case (w_post a)
  with assms(3) show ?thesis
    by (auto simp: win_account_def Win_PostTask_def)
next
  case (w_post_now p a delay q ms)
  with assms(3) show ?thesis
    using Win_PostDelayedTask_cases(1) [OF w_post_now(2)] by (auto simp: win_account_def Win_PostTask_def)
next
  case (w_post_delayed p a delay i q ms)
  with assms(3) show ?thesis
    using Win_PostDelayedTask_cases(2) [OF w_post_delayed(2)] by (auto simp: win_account_def)
next
  case (w_post_dropped p a delay i q ms)
  with assms(3) show ?thesis
    using Win_PostDelayedTask_cases(3) [OF w_post_dropped(2)] by (auto simp: win_account_def)
next
  case (w_peek_delayed start i ms mm_answer user_answer q)
  have "timers_ok (wclock s) False (wq s)"
    using assms(2) w_peek_delayed(2) by (simp add: win_inv_def)
  from on_delayed_task_ok [OF w_peek_delayed(4) this assms(4) w_peek_delayed(5)] w_peek_delayed assms(3) show ?thesis
    by (auto simp: win_account_def)
next
  case (w_peek_timer start k ms q now)
  have "timers_ok (wclock s) False (wq s)" "k \<noteq> 0"
    using assms(2) w_peek_timer(2,3) by (auto simp: win_inv_def)
  from on_timer_ok [OF w_peek_timer(4) this] w_peek_timer assms(3) show ?thesis
    by (auto simp: win_account_def)
next
  case (w_due_in_messages start now i q)
  have "timers_ok (wclock s) True (wq s)"
    using assms(2) w_due_in_messages(2) by (simp add: win_inv_def)
  from RunDueTasks_next_ok [OF w_due_in_messages(3) this assms(4)] w_due_in_messages assms(3) show ?thesis
    by (auto simp: win_account_def run_due_def due_pair_def)
next
  case (w_due_in_messages_end start now mm_answer user_answer q)
  have "timers_ok (wclock s) True (wq s)"
    using assms(2) w_due_in_messages_end(2) by (simp add: win_inv_def)
  from ScheduleNextTimer_ok [OF w_due_in_messages_end(4) this assms(4) w_due_in_messages_end(5)] w_due_in_messages_end assms(3)
  show ?thesis
    by (auto simp: win_account_def)
next
  case (w_due_in_loop r now i q)
  have "timers_ok (wclock s) True (wq s)"
    using assms(2) w_due_in_loop(2) by (simp add: win_inv_def)
  from RunDueTasks_next_ok [OF w_due_in_loop(3) this assms(4)] w_due_in_loop assms(3) show ?thesis
    by (auto simp: win_account_def run_due_def due_pair_def)
next
  case (w_due_in_loop_end r now mm_answer user_answer q)
  have "timers_ok (wclock s) True (wq s)"
    using assms(2) w_due_in_loop_end(2) by (simp add: win_inv_def)
  from ScheduleNextTimer_ok [OF w_due_in_loop_end(4) this assms(4) w_due_in_loop_end(5)] w_due_in_loop_end assms(3)
  show ?thesis
    by (auto simp: win_account_def)
next
  case (w_run_pending a q)
  with assms(3) show ?thesis
    by (auto simp: win_account_def RunPendingTasks_next_def split: list.splits)
next
  case (w_pending_end q)
  with assms(3) show ?thesis
    by (auto simp: win_account_def)
qed (use assms(3) in \<open>auto simp: win_account_def\<close>)

lemma win_reachable_invariants:
  assumes "win_reachable pick start s" "heap_top pick"
  shows "win_inv s \<and> win_account s"
  using assms(1)
proof (induction rule: win_reachable.induct)
  case win_start
  show ?case
    by (simp add: win_inv_def win_account_def win_init_def TaskQueueWin_def timers_ok_def)
next
  case (win_more s s')
  then show ?case
    using win_inv_step win_account_step assms(2) by blast
qed

section \<open>Properties\<close>

definition timer_armed :: "int \<Rightarrow> 'a win_queue \<Rightarrow> bool" where
  "timer_armed d q \<longleftrightarrow> mm_expires (timer q) = Some d \<or> user_timer q = Some d"

text \<open>C32: what wakes the queue over Windows messages.  Whenever it is not running due tasks (after which it arms the
  timer) and its priority queue holds delayed tasks, the timer's event is set, or a timer is armed that has expired
  already or expires less than a millisecond after the first of the tasks is due; tasks without a delay wait only while
  their event is set or the thread is running them; messages, a delayed task's among them, wait only while the thread's wait
  returns for them or the thread is taking messages, unless \<open>ProcessQueuedMessages\<close> has just stopped at its limit of 500 ms,
  when they wait for the next message; and when the thread takes the timer's event there are delayed tasks, as
  \<open>RunDueTasks\<close> checks, and no second timer is armed.\<close>

theorem win_queue_is_woken:
  assumes "win_reachable pick start s" "heap_top pick"
  shows "(timer_tasks (wq s) \<noteq> [] \<and> \<not> due_phase (wphase s) \<longrightarrow>
      mm_event (timer (wq s)) \<or> (\<exists>d. timer_armed d (wq s) \<and>
        (d \<le> wclock s \<or> d < unit_value (info_due (top_task pick (wq s))) + 1000)))
    \<and> (win_pending (wq s) \<noteq> [] \<longrightarrow> in_queue (wq s) \<or> wphase s = Running_pending)
    \<and> (messages s \<noteq> [] \<and> wphase s \<noteq> Gone \<longrightarrow> unseen s \<or> in_messages_loop (wphase s) \<or> cut_off s)
    \<and> (wphase s = At_timer_test Timer_event \<longrightarrow> timer_tasks (wq s) \<noteq> [])
    \<and> (mm_id (timer (wq s)) = 0 \<or> timer_id (wq s) = 0)"
proof -
  have inv: "win_inv s"
    using win_reachable_invariants [OF assms] by simp
  then have timers: "timers_ok (wclock s) (due_phase (wphase s)) (wq s)"
    by (simp add: win_inv_def)
  let ?soon = "\<lambda>d. d \<le> wclock s \<or> d < unit_value (info_due (top_task pick (wq s))) + 1000"
  have "mm_event (timer (wq s)) \<or> (\<exists>d. timer_armed d (wq s) \<and> ?soon d)"
    if "timer_tasks (wq s) \<noteq> []" "\<not> due_phase (wphase s)"
  proof -
    have "mm_event (timer (wq s)) \<or> (\<exists>d. timer_armed d (wq s))"
      using timers that unfolding timers_ok_def timer_armed_def by auto
    moreover have "?soon d" if "timer_armed d (wq s)" for d
      using timers that top_in_tasks(2) [OF assms(2) \<open>timer_tasks (wq s) \<noteq> []\<close>] unfolding timers_ok_def timer_armed_def by blast
    ultimately show ?thesis
      by blast
  qed
  moreover have "timer_tasks (wq s) \<noteq> []" if "wphase s = At_timer_test Timer_event"
    using inv timers that by (auto simp: win_inv_def timers_ok_def)
  ultimately show ?thesis
    using inv timers by (auto simp: win_inv_def timers_ok_def)
qed

text \<open>C33: the queue over Windows messages runs tasks without a delay in the order of posting, once each; every delayed
  task has run, is in the priority queue or in the messages, or was dropped when its message could not be posted, each with
  the time it was posted for, that is, the time of the call of \<open>PostDelayedTask\<close> and the delay; and none ran before that
  time.\<close>

theorem win_tasks_accounted:
  assumes "win_reachable pick start s" "heap_top pick"
  shows "ran_immediate (wran s) @ win_pending (wq s) = wposted s
    \<and> ran_due (wran s) + image_mset due_pair (mset (timer_tasks (wq s))) + in_messages (messages s) + wdropped s = wdelayed s
    \<and> (\<forall>x \<in> set (wran s). not_early x)"
  using win_reachable_invariants [OF assms] by (simp add: win_inv_def win_account_def)

text \<open>A message that is left in the queue after 500 ms has been seen: only new messages wake the thread
  for it.\<close>

lemma seen_messages_stay:
  assumes "win_step pick s s'" "wphase s = Waiting" "\<not> unseen s"
  shows "unseen s' \<or> messages s' = messages s \<and> \<not> unseen s' \<and> (\<forall>t. wphase s' \<noteq> Peeking t)"
  using assms(1)
proof cases
  case (w_post_dropped p a delay i q ms)
  then show ?thesis
    using Win_PostDelayedTask_cases(3) [OF w_post_dropped(2)] assms by auto
qed (use assms(2,3) in auto)

definition win_state :: "nat win_queue \<Rightarrow> nat win_message list \<Rightarrow> bool \<Rightarrow> int \<Rightarrow> win_phase \<Rightarrow> (int \<times> nat) multiset \<Rightarrow> nat win_sys" where
  "win_state q ms u t p d = \<lparr>wq = q, messages = ms, unseen = u, wclock = t, wphase = p, wran = [], wposted = [],
     wdelayed = d, wdropped = {#}, cut_off = False\<rparr>"

lemma message_left_behind:
  assumes "on_delayed_task pick 600000 1 1 i q = Some q'"
  shows "win_step pick (win_state q [WM_QUEUE_DELAYED_TASK i, m] True 600000 (Peeking 0) d)
    ((win_state q' [m] False 600000 (At_timer_test Messages) d)\<lparr>cut_off := True\<rparr>)"
  using w_peek_delayed [where s = "win_state q [WM_QUEUE_DELAYED_TASK i, m] True 600000 (Peeking 0) d" and start = 0 and i = i
      and ms = "[m]" and pick = pick and mm_answer = 1 and user_answer = 1 and q = q'] assms
  by (simp add: kMaxTaskProcessingTime_def win_state_def)

text \<open>\<open>KillTimer\<close> leaves the messages of the timer: when a timer has expired and its message waits behind that of a task
  due earlier, \<open>CancelTimers\<close> and \<open>ScheduleNextTimer\<close> replace it, and the message then fails the check of its identifier.\<close>

lemma stale_timer_message:
  assumes "timer_id q = k" "k \<noteq> 0" "on_delayed_task pick us mm_answer user_answer i q = Some q'"
    and "info_due i < info_due (top_task pick q)" "mm_answer \<noteq> 0 \<or> user_answer \<noteq> k"
  shows "on_timer k q' = None"
proof -
  let ?q = "CancelTimers (q\<lparr>timer_tasks := timer_tasks q @ [i]\<rparr>)"
  have "ScheduleNextTimer pick us mm_answer user_answer ?q = Some q'" "timer_id ?q = 0" "timer_tasks ?q \<noteq> []"
    using assms by (auto simp: on_delayed_task_def CancelTimers_def Let_def)
  then have "timer_id q' \<noteq> k"
    using assms(2,5) by (auto simp: ScheduleNextTimer_def StartOneShotTimer_def checked_simps split: if_splits)
  then show ?thesis
    by (simp add: on_timer_def)
qed

text \<open>A run: a delayed task is posted, and the thread takes its message.\<close>

definition least_index :: "int list \<Rightarrow> nat" where
  "least_index xs = length (takeWhile (\<lambda>x. x \<noteq> Min (set xs)) xs)"

lemma heap_top_least_index: "heap_top least_index"
  unfolding heap_top_def
proof (intro allI impI)
  fix xs :: "int list"
  assume "xs \<noteq> []"
  then have "Min (set xs) \<in> set xs"
    by simp
  then have "takeWhile (\<lambda>x. x \<noteq> Min (set xs)) xs \<noteq> xs"
    unfolding takeWhile_eq_all_conv by blast
  then have less: "length (takeWhile (\<lambda>x. x \<noteq> Min (set xs)) xs) < length xs"
    using takeWhile_eq_take [of "\<lambda>x. x \<noteq> Min (set xs)" xs] length_takeWhile_le [of "\<lambda>x. x \<noteq> Min (set xs)" xs]
    by (metis le_neq_implies_less order_refl take_all)
  then have "xs ! least_index xs = Min (set xs)"
    using nth_length_takeWhile [OF less] by (simp add: least_index_def)
  with less show "least_index xs < length xs \<and> (\<forall>x \<in> set xs. xs ! least_index xs \<le> x)"
    by (simp add: least_index_def)
qed

definition info8 :: "nat delayed_info" where
  "info8 = \<lparr>info_due = Unit_T 100, info_task = 8\<rparr>"

definition armed8 :: "nat win_queue" where
  "armed8 = \<lparr>timer = \<lparr>mm_event = False, mm_id = 3, mm_expires = Some 1000\<rparr>, timer_tasks = [info8], timer_id = 0,
     user_timer = None, win_pending = [], in_queue = False\<rparr>"

lemma timer_milliseconds_100: "timer_milliseconds (Unit_T 100) (Unit_T 0) = Some 1"
proof -
  have "RangeCheck uint32_t int64_t 1 = TYPE_VALID"
    using RangeCheck_spec [of uint32_t int64_t 1] by (simp add: std_type_def ty_lowest_def ty_max_def)
  then show ?thesis
    by (simp add: timer_milliseconds_def td_ms_u32_def td_ms_def ToFraction_def DivRoundToNearest_def RoundUpTo_def
        unit_mul_scalar_def ToValue_def FromValue_def ts_diff_def ts_us_def TimeDelta_Micros_def TimeDelta_Millis_def FromFraction_def
        dchecked_cast_def IsValueInRangeForNumericType_def IsFinite_def IsInfinite_def IsPlusInfinity_def IsMinusInfinity_def
        Zero_def max_def less_eq_unit_base_def unit_le_def i64_ops int_ranges sdiv_pos_cases)
qed

lemma on_delayed_task_info8: "on_delayed_task least_index 0 3 7 info8 TaskQueueWin = Some armed8"
  by (simp add: on_delayed_task_def TaskQueueWin_def CancelTimers_def mm_Cancel_def ScheduleNextTimer_def CurrentTime_def
      Timestamp_Micros_def FromValue_def top_task_def top_index_def least_index_def info8_def armed8_def
      timer_milliseconds_100 StartOneShotTimer_def int_ranges Let_def)

lemma DelayedTaskInfo_8: "DelayedTaskInfo 0 (Unit_T 100) 8 = Some info8"
  by (simp add: DelayedTaskInfo_def CurrentTime_def Timestamp_Micros_def FromValue_def ts_plus_delta_def ts_us_def td_us_def
      ToValue_def IsFinite_def IsInfinite_def IsPlusInfinity_def IsMinusInfinity_def i64_ops int_ranges info8_def)

lemma armed8_reachable: "win_reachable least_index 0 (win_state armed8 [] False 0 (Peeking 0) {#(100, 8)#})"
proof -
  have "win_reachable least_index 0 (win_state TaskQueueWin [WM_QUEUE_DELAYED_TASK info8] True 0 Waiting {#(100, 8)#})"
    using win_more [OF win_start w_post_delayed [where s = "win_init 0" and p = True and a = 8 and delay = "Unit_T 100"
          and i = info8 and q = TaskQueueWin and ms = "[WM_QUEUE_DELAYED_TASK info8]"]]
    by (simp add: win_init_def win_state_def Win_PostDelayedTask_def DelayedTaskInfo_8 Zero_def less_eq_unit_base_def unit_le_def
        promised_def IsPlusInfinity_def int_ranges)
  then have "win_reachable least_index 0 (win_state TaskQueueWin [WM_QUEUE_DELAYED_TASK info8] True 0 (Peeking 0) {#(100, 8)#})"
    using win_more [OF _ w_wait [where r = Messages]] by (fastforce simp: win_state_def TaskQueueWin_def)
  from win_more [OF this w_peek_delayed [where start = 0 and i = info8 and ms = "[]" and mm_answer = 3 and user_answer = 7 and q = armed8]]
  show ?thesis
    by (simp add: win_state_def on_delayed_task_info8 kMaxTaskProcessingTime_def)
qed

theorem win_queue_is_woken_witness:
  "\<exists>d. timer_armed d armed8 \<and> (d \<le> 0 \<or> d < unit_value (info_due (top_task least_index armed8)) + 1000)"
  using win_queue_is_woken [OF armed8_reachable heap_top_least_index] by (simp add: win_state_def armed8_def)

theorem win_tasks_accounted_witness: "image_mset due_pair (mset (timer_tasks armed8)) = {#(100, 8)#}"
  using win_tasks_accounted [OF armed8_reachable heap_top_least_index] by (simp add: win_state_def)

end
