(* ===== verification/Windows_Version.thy ===== *)
theory Windows_Version
  imports TQ_Prelude "HOL-Library.Word"
begin

unbundle bit_operations_syntax

text \<open>
  \<open>rtc_base/win/windows_version.cc\<close>: which Windows a process runs on.  What Windows answers (its version,
  the processors, the kind of product, registry values) is an argument.
\<close>

section \<open>Registry keys\<close>

text \<open>A key: its handle and the bits of the access that choose the view.  An operation also tells which
  handles it closed.\<close>

record reg_key =
  key_handle :: "nat option"
  wow64access :: "32 word"

definition kWow64AccessMask :: "32 word" where
  "kWow64AccessMask = 0x0200 OR 0x0100"

definition RegKey :: reg_key where
  "RegKey = \<lparr>key_handle = None, wow64access = 0\<rparr>"

definition RegKey_Close :: "reg_key \<Rightarrow> nat list \<times> reg_key" where
  "RegKey_Close k = (case key_handle k of None \<Rightarrow> ([], k) | Some h \<Rightarrow> ([h], k\<lparr>key_handle := None\<rparr>))"

definition ERROR_SUCCESS :: int where "ERROR_SUCCESS = 0"

definition ERROR_MORE_DATA :: int where "ERROR_MORE_DATA = 234"

definition ERROR_CANTREAD :: int where "ERROR_CANTREAD = 1012"

text \<open>\<open>Open\<close> and \<open>CreateWithDisposition\<close>: the answer is a status and, on success, a handle.\<close>

definition RegKey_Open :: "bool \<Rightarrow> bool \<Rightarrow> 32 word \<Rightarrow> int \<times> nat \<Rightarrow> reg_key \<Rightarrow> (int \<times> nat list \<times> reg_key) checked" where
  "RegKey_Open rootkey subkey access answer k = do {
     rtc_check (rootkey \<and> subkey \<and> access \<noteq> 0);
     Some (if fst answer = ERROR_SUCCESS
       then (let (closed, k) = RegKey_Close k
             in (fst answer, closed, k\<lparr>key_handle := Some (snd answer), wow64access := access AND kWow64AccessMask\<rparr>))
       else (fst answer, [], k))
   }"

definition CreateWithDisposition ::
  "bool \<Rightarrow> bool \<Rightarrow> bool \<Rightarrow> 32 word \<Rightarrow> int \<times> nat \<Rightarrow> reg_key \<Rightarrow> (int \<times> nat list \<times> reg_key) checked" where
  "CreateWithDisposition rootkey subkey disposition access answer k = do {
     rtc_check (rootkey \<and> subkey \<and> access \<noteq> 0 \<and> disposition);
     Some (if fst answer = ERROR_SUCCESS
       then (let (closed, k) = RegKey_Close k
             in (fst answer, closed, k\<lparr>key_handle := Some (snd answer), wow64access := access AND kWow64AccessMask\<rparr>))
       else (fst answer, [], k))
   }"

definition RegKey_Create :: "bool \<Rightarrow> bool \<Rightarrow> 32 word \<Rightarrow> int \<times> nat \<Rightarrow> reg_key \<Rightarrow> (int \<times> nat list \<times> reg_key) checked" where
  "RegKey_Create rootkey subkey access answer k = CreateWithDisposition rootkey subkey True access answer k"

text \<open>The constructor with a key: access to write creates it.\<close>

definition RegKey_with :: "bool \<Rightarrow> bool \<Rightarrow> 32 word \<Rightarrow> int \<times> nat \<Rightarrow> reg_key checked" where
  "RegKey_with rootkey subkey access answer =
     (if rootkey then do {
        (_, _, k) \<leftarrow> (if access AND (0x0002 OR 0x0004 OR 0x0020) \<noteq> 0 then RegKey_Create rootkey subkey access answer RegKey
          else RegKey_Open rootkey subkey access answer RegKey);
        Some k
      } else do {
        rtc_check (\<not> subkey);
        Some (RegKey\<lparr>wow64access := access AND kWow64AccessMask\<rparr>)
      })"

text \<open>What \<open>RegQueryValueEx\<close> answers: status, type, size in bytes and the data, as a number or a string.\<close>

datatype reg_type = REG_SZ | REG_EXPAND_SZ | REG_DWORD | REG_BINARY | REG_OTHER

record reg_value =
  reg_status :: int
  reg_type_of :: reg_type
  reg_size :: nat
  reg_number :: nat
  reg_string :: string

definition ReadValueDW :: "reg_value \<Rightarrow> nat \<Rightarrow> int \<times> nat" where
  "ReadValueDW v out_value =
     (if reg_status v = ERROR_SUCCESS
      then (if (reg_type_of v = REG_DWORD \<or> reg_type_of v = REG_BINARY) \<and> reg_size v = 4
            then (ERROR_SUCCESS, reg_number v) else (ERROR_CANTREAD, out_value))
      else (reg_status v, out_value))"

text \<open>\<open>expand\<close> gives the number of characters \<open>ExpandEnvironmentStrings\<close> returns and the string it wrote.\<close>

definition kMaxStringLength :: nat where "kMaxStringLength = 1024"

definition ReadValue :: "(string \<Rightarrow> nat \<times> string) \<Rightarrow> reg_value \<Rightarrow> string \<Rightarrow> int \<times> string" where
  "ReadValue expand v out_value =
     (if reg_status v = ERROR_SUCCESS
      then (case reg_type_of v of
          REG_SZ \<Rightarrow> (ERROR_SUCCESS, reg_string v)
        | REG_EXPAND_SZ \<Rightarrow>
            (let (n, expanded) = expand (reg_string v)
             in if n = 0 \<or> n > kMaxStringLength then (ERROR_MORE_DATA, out_value) else (ERROR_SUCCESS, expanded))
        | _ \<Rightarrow> (ERROR_CANTREAD, out_value))
      else (reg_status v, out_value))"

section \<open>The version\<close>

datatype Version =
    VERSION_PRE_XP | VERSION_XP | VERSION_SERVER_2003 | VERSION_VISTA | VERSION_WIN7 | VERSION_WIN8 | VERSION_WIN8_1
  | VERSION_WIN10 | VERSION_WIN10_TH2 | VERSION_WIN10_RS1 | VERSION_WIN10_RS2 | VERSION_WIN10_RS3 | VERSION_WIN10_RS4
  | VERSION_WIN10_RS5 | VERSION_WIN10_19H1 | VERSION_WIN10_19H2 | VERSION_WIN10_20H1 | VERSION_WIN10_20H2
  | VERSION_WIN10_21H1 | VERSION_WIN10_21H2 | VERSION_SERVER_2022 | VERSION_WIN11 | VERSION_WIN_LAST

primrec version_number :: "Version \<Rightarrow> nat" where
  "version_number VERSION_PRE_XP = 0"
| "version_number VERSION_XP = 1"
| "version_number VERSION_SERVER_2003 = 2"
| "version_number VERSION_VISTA = 3"
| "version_number VERSION_WIN7 = 4"
| "version_number VERSION_WIN8 = 5"
| "version_number VERSION_WIN8_1 = 6"
| "version_number VERSION_WIN10 = 7"
| "version_number VERSION_WIN10_TH2 = 8"
| "version_number VERSION_WIN10_RS1 = 9"
| "version_number VERSION_WIN10_RS2 = 10"
| "version_number VERSION_WIN10_RS3 = 11"
| "version_number VERSION_WIN10_RS4 = 12"
| "version_number VERSION_WIN10_RS5 = 13"
| "version_number VERSION_WIN10_19H1 = 14"
| "version_number VERSION_WIN10_19H2 = 15"
| "version_number VERSION_WIN10_20H1 = 16"
| "version_number VERSION_WIN10_20H2 = 17"
| "version_number VERSION_WIN10_21H1 = 18"
| "version_number VERSION_WIN10_21H2 = 19"
| "version_number VERSION_SERVER_2022 = 20"
| "version_number VERSION_WIN11 = 21"
| "version_number VERSION_WIN_LAST = 22"

lemma version_number_inj: "version_number v = version_number w \<longleftrightarrow> v = w"
  by (cases v; cases w; simp)

text \<open>The order of the enumerators, which callers compare.\<close>

instantiation Version :: linorder
begin

definition less_eq_Version :: "Version \<Rightarrow> Version \<Rightarrow> bool" where
  "less_eq_Version v w \<longleftrightarrow> version_number v \<le> version_number w"

definition less_Version :: "Version \<Rightarrow> Version \<Rightarrow> bool" where
  "less_Version v w \<longleftrightarrow> version_number v < version_number w"

instance
  by standard (auto simp: less_eq_Version_def less_Version_def version_number_inj)

end

definition win10_version :: "int \<Rightarrow> Version" where
  "win10_version build =
     (if build < 10586 then VERSION_WIN10
      else if build < 14393 then VERSION_WIN10_TH2
      else if build < 15063 then VERSION_WIN10_RS1
      else if build < 16299 then VERSION_WIN10_RS2
      else if build < 17134 then VERSION_WIN10_RS3
      else if build < 17763 then VERSION_WIN10_RS4
      else if build < 18362 then VERSION_WIN10_RS5
      else if build < 18363 then VERSION_WIN10_19H1
      else if build < 19041 then VERSION_WIN10_19H2
      else if build < 19042 then VERSION_WIN10_20H1
      else if build < 19043 then VERSION_WIN10_20H2
      else if build < 19044 then VERSION_WIN10_21H1
      else if build < 20348 then VERSION_WIN10_21H2
      else if build < 22000 then VERSION_SERVER_2022
      else VERSION_WIN11)"

definition MajorMinorBuildToVersion :: "int \<Rightarrow> int \<Rightarrow> int \<Rightarrow> Version checked" where
  "MajorMinorBuildToVersion major minor build =
     (if major = 5 \<and> 0 < minor then Some (if minor = 1 then VERSION_XP else VERSION_SERVER_2003)
      else if major = 6
      then (if minor = 0 then Some VERSION_VISTA
            else if minor = 1 then Some VERSION_WIN7
            else if minor = 2 then Some VERSION_WIN8
            else do { rtc_check (minor = 3); Some VERSION_WIN8_1 })
      else if major = 10 then Some (win10_version build)
      else if major = 11 then Some VERSION_WIN11
      else if 6 < major then None
      else Some VERSION_PRE_XP)"

section \<open>OSInfo\<close>

datatype VersionType = SUITE_HOME | SUITE_PROFESSIONAL | SUITE_SERVER | SUITE_ENTERPRISE | SUITE_EDUCATION | SUITE_LAST

datatype WindowsArchitecture = X86_ARCHITECTURE | X64_ARCHITECTURE | IA64_ARCHITECTURE | OTHER_ARCHITECTURE

datatype WOW64Status = WOW64_DISABLED | WOW64_ENABLED | WOW64_UNKNOWN

datatype processor = PROCESSOR_ARCHITECTURE_INTEL | PROCESSOR_ARCHITECTURE_AMD64 | PROCESSOR_ARCHITECTURE_IA64 | PROCESSOR_OTHER

datatype product =
    PRODUCT_CLUSTER_SERVER | PRODUCT_DATACENTER_SERVER | PRODUCT_DATACENTER_SERVER_CORE | PRODUCT_ENTERPRISE_SERVER
  | PRODUCT_ENTERPRISE_SERVER_CORE | PRODUCT_ENTERPRISE_SERVER_IA64 | PRODUCT_SMALLBUSINESS_SERVER
  | PRODUCT_SMALLBUSINESS_SERVER_PREMIUM | PRODUCT_STANDARD_SERVER | PRODUCT_STANDARD_SERVER_CORE | PRODUCT_WEB_SERVER
  | PRODUCT_PROFESSIONAL | PRODUCT_ULTIMATE
  | PRODUCT_ENTERPRISE | PRODUCT_ENTERPRISE_E | PRODUCT_ENTERPRISE_EVALUATION | PRODUCT_ENTERPRISE_N
  | PRODUCT_ENTERPRISE_N_EVALUATION | PRODUCT_ENTERPRISE_S | PRODUCT_ENTERPRISE_S_EVALUATION | PRODUCT_ENTERPRISE_S_N
  | PRODUCT_ENTERPRISE_S_N_EVALUATION | PRODUCT_BUSINESS | PRODUCT_BUSINESS_N
  | PRODUCT_EDUCATION | PRODUCT_EDUCATION_N
  | PRODUCT_HOME_BASIC | PRODUCT_HOME_PREMIUM | PRODUCT_STARTER | PRODUCT_OTHER

definition product_suite :: "product \<Rightarrow> VersionType" where
  "product_suite p =
     (if p \<in> {PRODUCT_CLUSTER_SERVER, PRODUCT_DATACENTER_SERVER, PRODUCT_DATACENTER_SERVER_CORE, PRODUCT_ENTERPRISE_SERVER,
        PRODUCT_ENTERPRISE_SERVER_CORE, PRODUCT_ENTERPRISE_SERVER_IA64, PRODUCT_SMALLBUSINESS_SERVER,
        PRODUCT_SMALLBUSINESS_SERVER_PREMIUM, PRODUCT_STANDARD_SERVER, PRODUCT_STANDARD_SERVER_CORE, PRODUCT_WEB_SERVER}
      then SUITE_SERVER
      else if p \<in> {PRODUCT_PROFESSIONAL, PRODUCT_ULTIMATE} then SUITE_PROFESSIONAL
      else if p \<in> {PRODUCT_ENTERPRISE, PRODUCT_ENTERPRISE_E, PRODUCT_ENTERPRISE_EVALUATION, PRODUCT_ENTERPRISE_N,
        PRODUCT_ENTERPRISE_N_EVALUATION, PRODUCT_ENTERPRISE_S, PRODUCT_ENTERPRISE_S_EVALUATION, PRODUCT_ENTERPRISE_S_N,
        PRODUCT_ENTERPRISE_S_N_EVALUATION, PRODUCT_BUSINESS, PRODUCT_BUSINESS_N}
      then SUITE_ENTERPRISE
      else if p \<in> {PRODUCT_EDUCATION, PRODUCT_EDUCATION_N} then SUITE_EDUCATION
      else SUITE_HOME)"

text \<open>What Windows answers in the constructor.\<close>

record win_answers =
  dwMajorVersion :: int
  dwMinorVersion :: int
  dwBuildNumber :: int
  wServicePackMajor :: int
  wServicePackMinor :: int
  szCSDVersion :: string
  is_workstation :: bool
  suite_wh_server :: bool
  suite_personal :: bool
  wProcessorArchitecture :: processor
  dwNumberOfProcessors :: int
  dwAllocationGranularity :: int
  os_type :: product
  current_version_key :: int
  ubr_value :: reg_value

record OSInfo =
  version :: Version
  version_major :: int
  version_minor :: int
  version_build :: int
  version_patch :: int
  version_type :: VersionType
  service_pack_major :: int
  service_pack_minor :: int
  service_pack_str :: string
  architecture :: WindowsArchitecture
  processors :: int
  allocation_granularity :: int
  wow64_status :: WOW64Status
  processor_model_name :: string

definition GetUBR :: "bool \<Rightarrow> win_answers \<Rightarrow> int" where
  "GetUBR winuwp w =
     (if winuwp then 0
      else if current_version_key w \<noteq> ERROR_SUCCESS then 0
      else sint (word_of_nat (snd (ReadValueDW (ubr_value w) 0)) :: 32 word))"

definition architecture_of :: "processor \<Rightarrow> WindowsArchitecture" where
  "architecture_of p = (case p of
     PROCESSOR_ARCHITECTURE_INTEL \<Rightarrow> X86_ARCHITECTURE
   | PROCESSOR_ARCHITECTURE_AMD64 \<Rightarrow> X64_ARCHITECTURE
   | PROCESSOR_ARCHITECTURE_IA64 \<Rightarrow> IA64_ARCHITECTURE
   | PROCESSOR_OTHER \<Rightarrow> OTHER_ARCHITECTURE)"

definition suite_of :: "bool \<Rightarrow> win_answers \<Rightarrow> VersionType" where
  "suite_of winuwp w =
     (if winuwp then SUITE_HOME
      else if dwMajorVersion w = 6 \<or> dwMajorVersion w = 10 then product_suite (os_type w)
      else if dwMajorVersion w = 5 \<and> dwMinorVersion w = 2
      then (if is_workstation w \<and> wProcessorArchitecture w = PROCESSOR_ARCHITECTURE_AMD64 then SUITE_PROFESSIONAL
            else if suite_wh_server w then SUITE_HOME else SUITE_SERVER)
      else if dwMajorVersion w = 5 \<and> dwMinorVersion w = 1
      then (if suite_personal w then SUITE_HOME else SUITE_PROFESSIONAL)
      else SUITE_HOME)"

text \<open>\<open>GetWOW64StatusForProcess\<close>: whether the function exists, and what it answers.\<close>

definition GetWOW64StatusForProcess :: "bool \<Rightarrow> bool \<Rightarrow> bool option \<Rightarrow> WOW64Status" where
  "GetWOW64StatusForProcess winuwp has_function answer =
     (if \<not> winuwp \<and> \<not> has_function then WOW64_DISABLED
      else case answer of None \<Rightarrow> WOW64_UNKNOWN
        | Some is_wow64 \<Rightarrow> (if is_wow64 then WOW64_ENABLED else WOW64_DISABLED))"

definition OSInfo_new :: "bool \<Rightarrow> WOW64Status \<Rightarrow> win_answers \<Rightarrow> OSInfo checked" where
  "OSInfo_new winuwp wow64 w = do {
     v \<leftarrow> MajorMinorBuildToVersion (dwMajorVersion w) (dwMinorVersion w) (dwBuildNumber w);
     Some \<lparr>version = v, version_major = dwMajorVersion w, version_minor = dwMinorVersion w,
       version_build = dwBuildNumber w, version_patch = GetUBR winuwp w, version_type = suite_of winuwp w,
       service_pack_major = wServicePackMajor w, service_pack_minor = wServicePackMinor w,
       service_pack_str = szCSDVersion w, architecture = architecture_of (wProcessorArchitecture w),
       processors = dwNumberOfProcessors w, allocation_granularity = dwAllocationGranularity w,
       wow64_status = wow64, processor_model_name = []\<rparr>
   }"

definition processor_model_name_read :: "bool \<Rightarrow> (string \<Rightarrow> nat \<times> string) \<Rightarrow> reg_value \<Rightarrow> OSInfo \<Rightarrow> string \<times> OSInfo" where
  "processor_model_name_read winuwp expand v info =
     (if winuwp then (''Unknown Processor (UWP)'', info)
      else let info = (if processor_model_name info = []
             then info\<lparr>processor_model_name := snd (ReadValue expand v [])\<rparr> else info)
        in (processor_model_name info, info))"

text \<open>\<open>GetInstance\<close>: several threads may build an object, one of them is published and kept.\<close>

definition instance_publish :: "nat \<Rightarrow> nat option \<Rightarrow> nat option \<times> nat list" where
  "instance_publish new_info info = (case info of None \<Rightarrow> (Some new_info, []) | Some i \<Rightarrow> (Some i, [new_info]))"

section \<open>Properties\<close>

text \<open>Opening closes the key that was open before, and only on success.\<close>

lemma RegKey_Open_closes:
  assumes "RegKey_Open r u a (st, h) k = Some (res, closed, k')"
  shows "res = st \<and> (if st = ERROR_SUCCESS then key_handle k' = Some h \<and> set closed = set_option (key_handle k)
    else k' = k \<and> closed = [])"
  using assms by (auto simp: RegKey_Open_def RegKey_Close_def checked_simps split: if_splits option.splits)

lemma win10_version_mono: "b \<le> c \<Longrightarrow> win10_version b \<le> win10_version c"
  unfolding win10_version_def less_eq_Version_def by auto

lemma win10_version_bounds: "VERSION_WIN10 \<le> win10_version b" "win10_version b \<le> VERSION_WIN11"
  unfolding win10_version_def less_eq_Version_def by auto

lemma old_version_bounds:
  assumes "MajorMinorBuildToVersion a b c = Some v" "a \<le> 5"
  shows "v \<le> VERSION_SERVER_2003"
  using assms by (auto simp: MajorMinorBuildToVersion_def less_eq_Version_def split: if_splits)

lemma version_6_bounds:
  assumes "MajorMinorBuildToVersion 6 b c = Some v"
  shows "0 \<le> b \<and> b \<le> 3 \<and> version_number v = nat (b + 3)"
  using assms by (auto simp: MajorMinorBuildToVersion_def checked_simps split: if_splits)

lemma version_10: "MajorMinorBuildToVersion 10 b c = Some v \<longleftrightarrow> v = win10_version c"
  by (auto simp: MajorMinorBuildToVersion_def)

lemma version_11: "MajorMinorBuildToVersion 11 b c = Some v \<longleftrightarrow> v = VERSION_WIN11"
  by (auto simp: MajorMinorBuildToVersion_def)

lemma version_major_known:
  assumes "MajorMinorBuildToVersion a b c = Some v"
  obtains "a \<le> 5" | "a = 6" | "a = 10" | "a = 11"
  using assms by (auto simp: MajorMinorBuildToVersion_def split: if_splits)

lemma old_versions_ordered:
  assumes "MajorMinorBuildToVersion a b c = Some v" "MajorMinorBuildToVersion a' b' c' = Some v'"
    "a' \<le> 5" "a < a' \<or> a = a' \<and> b \<le> b'"
  shows "v \<le> v'"
  using assms by (auto simp: MajorMinorBuildToVersion_def less_eq_Version_def split: if_splits)

lemmas version_number_bounds = win10_version_bounds[unfolded less_eq_Version_def version_number.simps]

text \<open>the versions are ordered as Windows orders its releases, as callers that compare them rely on: when
  one release comes before another (by major, then minor, then build number), its version is at most the
  other's, wherever the code knows both releases.\<close>

theorem versions_follow_releases:
  assumes v: "MajorMinorBuildToVersion a b c = Some v" and v': "MajorMinorBuildToVersion a' b' c' = Some v'"
    and le: "a < a' \<or> a = a' \<and> (b < b' \<or> b = b' \<and> c \<le> c')" and ten: "a = 10 \<and> a' = 10 \<longrightarrow> b = b'"
  shows "v \<le> v'"
proof -
  have low: "version_number v \<le> 2" if "a \<le> 5"
    using old_version_bounds[OF v that] by (simp add: less_eq_Version_def)
  from v' show ?thesis
  proof (cases rule: version_major_known)
    case 1
    with v v' le show ?thesis by (intro old_versions_ordered) auto
  next
    case 2
    with v v' le low show ?thesis
      by (cases rule: version_major_known[OF v]) (auto simp: less_eq_Version_def dest!: version_6_bounds)
  next
    case 3
    have hi: "7 \<le> version_number v'" using v' 3 version_number_bounds by (simp add: version_10)
    show ?thesis
    proof (cases rule: version_major_known[OF v])
      case 3
      with v v' le ten \<open>a' = 10\<close> show ?thesis by (auto simp: version_10 intro: win10_version_mono)
    qed (use hi low v le \<open>a' = 10\<close> in \<open>auto simp: less_eq_Version_def dest!: version_6_bounds\<close>)
  next
    case 4
    with v' have "version_number v' = 21" by (simp add: version_11)
    with v le low 4 version_number_bounds show ?thesis
      by (cases rule: version_major_known[OF v])
        (auto simp: less_eq_Version_def version_10 version_11 dest!: version_6_bounds)
  qed
qed

theorem versions_follow_releases_witness:
  "VERSION_WIN10_RS5 \<le> VERSION_WIN11 \<and> VERSION_WIN7 \<le> VERSION_WIN10_RS5"
  using versions_follow_releases[of 10 0 17763 VERSION_WIN10_RS5 10 0 22000 VERSION_WIN11]
    versions_follow_releases[of 6 1 7601 VERSION_WIN7 10 0 17763 VERSION_WIN10_RS5]
  by (simp add: MajorMinorBuildToVersion_def win10_version_def)

text \<open>Windows 8.1 is the last release of major 6 the code knows; of the versions 7 to 9 and after 11 it knows none.\<close>

lemma unknown_releases_checked:
  "MajorMinorBuildToVersion 6 4 c = None" "6 < a \<Longrightarrow> a \<noteq> 10 \<Longrightarrow> a \<noteq> 11 \<Longrightarrow> MajorMinorBuildToVersion a b c = None"
  by (auto simp: MajorMinorBuildToVersion_def checked_simps)

end
