(* ===== verification/Repeating_Task.thy ===== *)
theory Repeating_Task
  imports Units
begin

text \<open>
  Tasks that repeat themselves and tasks that must not run any more:
  \<open>rtc_base/synchronization/sequence_checker_internal.cc\<close>,
  \<open>api/task_queue/pending_task_safety_flag.cc\<close> and \<open>rtc_base/task_utils/repeating_task.cc\<close>.
\<close>

section \<open>SequenceCheckerImpl\<close>

text \<open>Where code runs: its thread, its task queue and, on a Mac, its dispatch queue.\<close>

record seq_context =
  current_thread :: nat
  current_queue :: "nat option"
  current_system_queue :: "nat option"

record seq_checker =
  attached :: bool
  valid_thread :: nat
  valid_queue :: "nat option"
  valid_system_queue :: "nat option"

definition SequenceCheckerImpl :: "seq_context \<Rightarrow> seq_checker" where
  "SequenceCheckerImpl ctx = \<lparr>attached = True, valid_thread = current_thread ctx,
     valid_queue = current_queue ctx, valid_system_queue = current_system_queue ctx\<rparr>"

definition seq_IsCurrent :: "seq_context \<Rightarrow> seq_checker \<Rightarrow> bool \<times> seq_checker" where
  "seq_IsCurrent ctx c =
     (if \<not> attached c
      then (True, c\<lparr>attached := True, valid_thread := current_thread ctx, valid_queue := current_queue ctx,
        valid_system_queue := current_system_queue ctx\<rparr>)
      else if valid_queue c \<noteq> None then (valid_queue c = current_queue ctx, c)
      else if valid_system_queue c \<noteq> None \<and> valid_system_queue c = current_system_queue ctx then (True, c)
      else (valid_thread c = current_thread ctx, c))"

definition seq_Detach :: "seq_checker \<Rightarrow> seq_checker" where
  "seq_Detach c = c\<lparr>attached := False\<rparr>"

text \<open>\<open>p\<close> prints a pointer.\<close>

definition ExpectationToString :: "(nat option \<Rightarrow> string) \<Rightarrow> seq_context \<Rightarrow> seq_checker \<Rightarrow> string" where
  "ExpectationToString p ctx c =
     (if \<not> attached c then ''Checker currently not attached.''
      else ''# Expected: TQ: '' @ p (valid_queue c) @ '' SysQ: '' @ p (valid_system_queue c)
        @ '' Thread: '' @ p (Some (valid_thread c)) @ [CHR 0x0A]
        @ ''# Actual:   TQ: '' @ p (current_queue ctx) @ '' SysQ: '' @ p (current_system_queue ctx)
        @ '' Thread: '' @ p (Some (current_thread ctx)) @ [CHR 0x0A]
        @ (if (valid_queue c \<noteq> None \<or> current_queue ctx \<noteq> None) \<and> valid_queue c \<noteq> current_queue ctx
           then ''TaskQueue doesn't match'' @ [CHR 0x0A]
           else if valid_system_queue c \<noteq> None \<and> valid_system_queue c \<noteq> current_system_queue ctx
           then ''System queue doesn't match'' @ [CHR 0x0A]
           else if valid_thread c \<noteq> current_thread ctx then ''Threads don't match'' @ [CHR 0x0A]
           else []))"

text \<open>\<open>RTC_DCHECK_RUN_ON\<close> on a checker.\<close>

definition run_on :: "seq_context \<Rightarrow> seq_checker \<Rightarrow> seq_checker checked" where
  "run_on ctx c = (case seq_IsCurrent ctx c of (ok, c) \<Rightarrow> if ok then Some c else None)"

section \<open>PendingTaskSafetyFlag\<close>

record safety_flag =
  alive_ok :: bool
  main_sequence :: seq_checker

definition CreateInternal :: "seq_context \<Rightarrow> bool \<Rightarrow> safety_flag" where
  "CreateInternal ctx alive = \<lparr>alive_ok = alive, main_sequence = SequenceCheckerImpl ctx\<rparr>"

definition CreateFlag :: "seq_context \<Rightarrow> safety_flag" where
  "CreateFlag ctx = CreateInternal ctx True"

definition CreateDetached :: "seq_context \<Rightarrow> safety_flag" where
  "CreateDetached ctx = (let f = CreateInternal ctx True in f\<lparr>main_sequence := seq_Detach (main_sequence f)\<rparr>)"

definition CreateDetachedInactive :: "seq_context \<Rightarrow> safety_flag" where
  "CreateDetachedInactive ctx =
     (let f = CreateInternal ctx False in f\<lparr>main_sequence := seq_Detach (main_sequence f)\<rparr>)"

definition SetNotAlive :: "seq_context \<Rightarrow> safety_flag \<Rightarrow> safety_flag checked" where
  "SetNotAlive ctx f = do {
     c \<leftarrow> run_on ctx (main_sequence f);
     Some (f\<lparr>main_sequence := c, alive_ok := False\<rparr>)
   }"

definition SetAlive :: "seq_context \<Rightarrow> safety_flag \<Rightarrow> safety_flag checked" where
  "SetAlive ctx f = do {
     c \<leftarrow> run_on ctx (main_sequence f);
     Some (f\<lparr>main_sequence := c, alive_ok := True\<rparr>)
   }"

definition alive :: "seq_context \<Rightarrow> safety_flag \<Rightarrow> (bool \<times> safety_flag) checked" where
  "alive ctx f = do {
     c \<leftarrow> run_on ctx (main_sequence f);
     Some (alive_ok f, f\<lparr>main_sequence := c\<rparr>)
   }"

text \<open>Flags are shared: a list holds the flags there are, and a reference is an index.\<close>

type_synonym flags = "safety_flag list"

definition SetNotAlive_at :: "seq_context \<Rightarrow> nat \<Rightarrow> flags \<Rightarrow> flags checked" where
  "SetNotAlive_at ctx i fs = do { f \<leftarrow> SetNotAlive ctx (fs ! i); Some (fs[i := f]) }"

definition alive_at :: "seq_context \<Rightarrow> nat \<Rightarrow> flags \<Rightarrow> (bool \<times> flags) checked" where
  "alive_at ctx i fs = do { (b, f) \<leftarrow> alive ctx (fs ! i); Some (b, fs[i := f]) }"

text \<open>\<open>ScopedTaskSafety\<close>: its constructor, \<open>reset\<close> and its destructor.\<close>

definition ScopedTaskSafety :: "seq_context \<Rightarrow> flags \<Rightarrow> nat \<times> flags" where
  "ScopedTaskSafety ctx fs = (length fs, fs @ [CreateFlag ctx])"

definition ScopedTaskSafetyDetached :: "seq_context \<Rightarrow> flags \<Rightarrow> nat \<times> flags" where
  "ScopedTaskSafetyDetached ctx fs = (length fs, fs @ [CreateDetached ctx])"

definition safety_reset :: "seq_context \<Rightarrow> nat \<Rightarrow> nat \<Rightarrow> flags \<Rightarrow> (nat \<times> flags) checked" where
  "safety_reset ctx new_flag i fs = do { fs \<leftarrow> SetNotAlive_at ctx i fs; Some (new_flag, fs) }"

definition safety_destroy :: "seq_context \<Rightarrow> nat \<Rightarrow> flags \<Rightarrow> flags checked" where
  "safety_destroy ctx i fs = SetNotAlive_at ctx i fs"

text \<open>\<open>SafeTask\<close>: \<open>task\<close> is what the wrapped task does to its own state.\<close>

definition SafeTask :: "nat \<Rightarrow> ('s \<Rightarrow> 's) \<Rightarrow> seq_context \<Rightarrow> flags \<Rightarrow> 's \<Rightarrow> (flags \<times> 's) checked" where
  "SafeTask i task ctx fs s = do {
     (b, fs) \<leftarrow> alive_at ctx i fs;
     Some (fs, if b then task s else s)
   }"

section \<open>RepeatingTask\<close>

datatype DelayPrecision = kLow | kHigh

record repeating_task =
  task_queue_of :: nat
  precision :: DelayPrecision
  next_run_time :: Timestamp
  alive_flag :: nat

definition RepeatingTask :: "nat \<Rightarrow> DelayPrecision \<Rightarrow> TimeDelta \<Rightarrow> Timestamp \<Rightarrow> nat \<Rightarrow> repeating_task checked" where
  "RepeatingTask q p first_delay clock flag = do {
     next_run \<leftarrow> ts_plus_delta clock first_delay;
     Some \<lparr>task_queue_of = q, precision = p, next_run_time = next_run, alive_flag = flag\<rparr>
   }"

text \<open>What follows the call of the closure: none, or the task to post and its delay.\<close>

definition repost :: "bool \<Rightarrow> TimeDelta \<Rightarrow> Timestamp \<Rightarrow> repeating_task \<Rightarrow> (repeating_task \<times> TimeDelta) option checked" where
  "repost still_alive delay clock task =
     (if IsPlusInfinity delay \<or> \<not> still_alive then Some None
      else do {
        lost_time \<leftarrow> ts_diff clock (next_run_time task);
        next_run \<leftarrow> ts_plus_delta (next_run_time task) delay;
        delay \<leftarrow> unit_sub False delay lost_time;
        Some (Some (task\<lparr>next_run_time := next_run\<rparr>, max delay Zero))
      })"

text \<open>The system around the tasks: the clock, the flags, the handles their owners keep, the tasks the queues
  hold with the time they may not run before, and what has happened, the newest first.\<close>

datatype rt_note =
    Note_start nat int int
  | Note_run nat int int int int TimeDelta
  | Note_stop nat

record rt_sys =
  clock_now :: Timestamp
  flag_store :: flags
  handles :: "nat option list"
  posted :: "(Timestamp \<times> repeating_task) list"
  happened :: "rt_note list"

text \<open>\<open>PostDelayedTaskWithPrecision\<close>: the earliest time a queue is asked for.  A queue may run the task up to
  one millisecond before it, as \<open>api/task_queue/task_queue_base.h\<close> says.\<close>

definition early_leeway :: int where
  "early_leeway = 1000"

definition post_repeating :: "repeating_task \<Rightarrow> TimeDelta \<Rightarrow> rt_sys \<Rightarrow> rt_sys checked" where
  "post_repeating task delay s = do {
     earliest \<leftarrow> ts_plus_delta (clock_now s) delay;
     Some (s\<lparr>posted := posted s @ [(earliest, task)]\<rparr>)
   }"

definition RepeatingTask_call ::
  "seq_context \<Rightarrow> repeating_task \<Rightarrow> (rt_sys \<Rightarrow> (TimeDelta \<times> rt_sys) checked) \<Rightarrow> rt_sys \<Rightarrow> rt_sys checked" where
  "RepeatingTask_call ctx task closure s = do {
     rtc_check (current_queue ctx = Some (task_queue_of task));
     (b, fs) \<leftarrow> alive_at ctx (alive_flag task) (flag_store s);
     if b
     then do {
       (delay, s) \<leftarrow> closure (s\<lparr>flag_store := fs\<rparr>);
       rtc_check (Zero \<le> delay);
       (b, fs) \<leftarrow> (if IsPlusInfinity delay then Some (False, flag_store s)
                   else alive_at ctx (alive_flag task) (flag_store s));
       r \<leftarrow> repost b delay (clock_now s) task;
       case r of None \<Rightarrow> Some (s\<lparr>flag_store := fs\<rparr>)
         | Some (task, delay) \<Rightarrow> post_repeating task delay (s\<lparr>flag_store := fs\<rparr>)
     }
     else Some (s\<lparr>flag_store := fs\<rparr>)
   }"

text \<open>\<open>RepeatingTaskHandle\<close>.\<close>

definition DelayedStart :: "seq_context \<Rightarrow> nat \<Rightarrow> DelayPrecision \<Rightarrow> TimeDelta \<Rightarrow> rt_sys \<Rightarrow> rt_sys checked" where
  "DelayedStart ctx q p first_delay s = do {
     let f = length (flag_store s);
     task \<leftarrow> RepeatingTask q p first_delay (clock_now s) f;
     s \<leftarrow> post_repeating task first_delay (s\<lparr>flag_store := flag_store s @ [CreateDetached ctx]\<rparr>);
     Some (s\<lparr>handles := handles s @ [Some f],
       happened := Note_start f (unit_value (next_run_time task)) (unit_value (clock_now s)) # happened s\<rparr>)
   }"

definition RepeatingTask_Start :: "seq_context \<Rightarrow> nat \<Rightarrow> DelayPrecision \<Rightarrow> rt_sys \<Rightarrow> rt_sys checked" where
  "RepeatingTask_Start ctx q p s = do {
     let f = length (flag_store s);
     task \<leftarrow> RepeatingTask q p Zero (clock_now s) f;
     Some (s\<lparr>flag_store := flag_store s @ [CreateDetached ctx], posted := posted s @ [(clock_now s, task)],
       handles := handles s @ [Some f],
       happened := Note_start f (unit_value (next_run_time task)) (unit_value (clock_now s)) # happened s\<rparr>)
   }"

definition RepeatingTask_Stop :: "seq_context \<Rightarrow> nat \<Rightarrow> rt_sys \<Rightarrow> rt_sys checked" where
  "RepeatingTask_Stop ctx h s =
     (case handles s ! h of
        None \<Rightarrow> Some s
      | Some f \<Rightarrow> do {
          fs \<leftarrow> SetNotAlive_at ctx f (flag_store s);
          Some (s\<lparr>flag_store := fs, handles := (handles s)[h := None], happened := Note_stop f # happened s\<rparr>)
        })"

definition RepeatingTask_Running :: "nat \<Rightarrow> rt_sys \<Rightarrow> bool" where
  "RepeatingTask_Running h s \<longleftrightarrow> handles s ! h \<noteq> None"

text \<open>What happens: time passes, tasks are started and stopped, a queue runs a task it holds.  A closure
  stops some handles, takes until \<open>fin\<close> and returns a delay.\<close>

datatype rt_event =
    Ev_Tick Timestamp
  | Ev_Start seq_context nat DelayPrecision
  | Ev_DelayedStart seq_context nat DelayPrecision TimeDelta
  | Ev_Stop seq_context nat
  | Ev_Run seq_context nat "nat list" Timestamp TimeDelta

fun stop_all :: "seq_context \<Rightarrow> nat list \<Rightarrow> rt_sys \<Rightarrow> rt_sys checked" where
  "stop_all ctx [] s = Some s"
| "stop_all ctx (h # hs) s = do {
     rtc_check (h < length (handles s));
     s \<leftarrow> RepeatingTask_Stop ctx h s;
     stop_all ctx hs s
   }"

definition closure_run ::
  "seq_context \<Rightarrow> Timestamp \<Rightarrow> repeating_task \<Rightarrow> nat list \<Rightarrow> Timestamp \<Rightarrow> TimeDelta \<Rightarrow> rt_sys \<Rightarrow> (TimeDelta \<times> rt_sys) checked" where
  "closure_run ctx earliest task hs fin delay s = do {
     let note = Note_run (alive_flag task) (unit_value (next_run_time task)) (unit_value earliest)
       (unit_value (clock_now s)) (unit_value fin) delay;
     s \<leftarrow> stop_all ctx hs (s\<lparr>clock_now := fin, happened := note # happened s\<rparr>);
     Some (delay, s)
   }"

fun rt_do :: "rt_event \<Rightarrow> rt_sys \<Rightarrow> rt_sys checked" where
  "rt_do (Ev_Tick t) s = do { rtc_check (clock_now s \<le> t \<and> IsFinite t); Some (s\<lparr>clock_now := t\<rparr>) }"
| "rt_do (Ev_Start ctx q p) s = RepeatingTask_Start ctx q p s"
| "rt_do (Ev_DelayedStart ctx q p d) s = do { rtc_check (IsFinite d \<and> Zero \<le> d); DelayedStart ctx q p d s }"
| "rt_do (Ev_Stop ctx h) s = do { rtc_check (h < length (handles s)); RepeatingTask_Stop ctx h s }"
| "rt_do (Ev_Run ctx i hs fin delay) s = do {
     rtc_check (i < length (posted s) \<and> unit_value (fst (posted s ! i)) - early_leeway \<le> unit_value (clock_now s));
     rtc_check (clock_now s \<le> fin \<and> IsFinite fin);
     let (earliest, task) = posted s ! i;
     RepeatingTask_call ctx task (closure_run ctx earliest task hs fin delay)
       (s\<lparr>posted := take i (posted s) @ drop (Suc i) (posted s)\<rparr>)
   }"

fun rt_all :: "rt_event list \<Rightarrow> rt_sys \<Rightarrow> rt_sys checked" where
  "rt_all [] s = Some s"
| "rt_all (e # es) s = do { s \<leftarrow> rt_do e s; rt_all es s }"

definition rt_init :: rt_sys where
  "rt_init = \<lparr>clock_now = Unit_T 0, flag_store = [], handles = [], posted = [], happened = []\<rparr>"

section \<open>The schedule\<close>

text \<open>When the next run of a task is planned and when it was posted, from what has happened.\<close>

fun due_of :: "nat \<Rightarrow> rt_note list \<Rightarrow> (int \<times> int) option" where
  "due_of f [] = None"
| "due_of f (Note_start g p t # ns) = (if g = f then Some (p, t) else due_of f ns)"
| "due_of f (Note_run g p e st fin d # ns) =
     (if g = f then (if IsPlusInfinity d then None else Some (p + unit_value d, fin)) else due_of f ns)"
| "due_of f (Note_stop g # ns) = (if g = f then None else due_of f ns)"

fun note_flag :: "rt_note \<Rightarrow> nat" where
  "note_flag (Note_start f p t) = f"
| "note_flag (Note_run f p e st fin d) = f"
| "note_flag (Note_stop f) = f"

text \<open>Every run was due, was planned for the time of the run before it plus the delay that run returned,
  however late that run was, and was asked for at that time, or at once when that time had passed.\<close>

fun on_schedule :: "rt_note list \<Rightarrow> bool" where
  "on_schedule [] = True"
| "on_schedule (Note_run f planned earliest start fin d # ns) =
     (on_schedule ns \<and> (\<exists>at. due_of f ns = Some (planned, at) \<and> earliest = max planned at) \<and>
      earliest - early_leeway \<le> start \<and> start \<le> fin)"
| "on_schedule (Note_start f p t # ns) = (on_schedule ns \<and> f \<notin> note_flag ` set ns)"
| "on_schedule (Note_stop f # ns) = on_schedule ns"

section \<open>Flags and their checkers\<close>

definition alives :: "flags \<Rightarrow> bool list" where
  "alives fs = map alive_ok fs"

lemma alives_length [simp]: "length (alives fs) = length fs"
  by (simp add: alives_def)

lemma alives_append [simp]: "alives (fs @ [f]) = alives fs @ [alive_ok f]"
  by (simp add: alives_def)

lemma alive_ok_CreateDetached [simp]: "alive_ok (CreateDetached ctx)"
  by (simp add: CreateDetached_def CreateInternal_def Let_def)

lemma alive_at_Some:
  assumes "alive_at ctx i fs = Some (b, fs')" "i < length fs"
  shows "b = alives fs ! i \<and> alives fs' = alives fs"
  using assms by (auto simp: alive_at_def alive_def alives_def checked_simps map_update intro!: list_update_same_conv[THEN iffD2])

lemma SetNotAlive_at_Some:
  assumes "SetNotAlive_at ctx i fs = Some fs'" "i < length fs"
  shows "alives fs' = (alives fs)[i := False]"
  using assms by (auto simp: SetNotAlive_at_def SetNotAlive_def alives_def checked_simps map_update)

text \<open>A checker that is attached to a queue accepts the tasks of that queue and no other; a detached one
  accepts its first user and is attached to it.\<close>

lemma seq_IsCurrent_queue:
  "attached c \<Longrightarrow> valid_queue c = Some q \<Longrightarrow> seq_IsCurrent ctx c = (current_queue ctx = Some q, c)"
  by (auto simp: seq_IsCurrent_def)

lemma seq_IsCurrent_detached:
  "\<not> attached c \<Longrightarrow> fst (seq_IsCurrent ctx c) \<and> attached (snd (seq_IsCurrent ctx c))
    \<and> valid_queue (snd (seq_IsCurrent ctx c)) = current_queue ctx"
  by (auto simp: seq_IsCurrent_def)

section \<open>Arithmetic of finite times\<close>

lemma ts_plus_Some:
  assumes "ts_plus_delta t d = Some r" "IsFinite t" "IsFinite d"
  shows "unit_value r = unit_value t + unit_value d \<and> IsFinite r"
  using assms
  by (auto simp: ts_plus_delta_def ts_us_def td_us_def ToValue_def Timestamp_Micros_def FromValue_def i64_add_def
      IsFinite_def IsInfinite_def IsPlusInfinity_def IsMinusInfinity_def checked_simps split: if_splits)

lemma ts_diff_Some:
  assumes "ts_diff t d = Some r" "IsFinite t" "IsFinite d"
  shows "unit_value r = unit_value t - unit_value d \<and> IsFinite r"
  using assms
  by (auto simp: ts_diff_def ts_us_def ToValue_def TimeDelta_Micros_def FromValue_def i64_sub_def
      IsFinite_def IsInfinite_def IsPlusInfinity_def IsMinusInfinity_def checked_simps split: if_splits)

lemma unit_sub_Some:
  assumes "unit_sub os t d = Some r" "IsFinite t" "IsFinite d"
  shows "unit_value r = unit_value t - unit_value d \<and> IsFinite r"
  using assms
  by (auto simp: unit_sub_def ToValue_def FromValue_def i64_sub_def
      IsFinite_def IsInfinite_def IsPlusInfinity_def IsMinusInfinity_def checked_simps split: if_splits)

lemma unit_le_value: "a \<le> b \<longleftrightarrow> unit_value a \<le> unit_value b"
  by (simp add: less_eq_unit_base_def unit_le_def)

lemma unit_max_value: "unit_value (max a b) = max (unit_value a) (unit_value b)"
  by (simp add: max_def unit_le_value)

lemma finite_max: "IsFinite a \<Longrightarrow> IsFinite b \<Longrightarrow> IsFinite (max a b)"
  by (simp add: max_def)

lemma Zero_finite [simp]: "IsFinite Zero" "unit_value Zero = 0"
  by (simp_all add: Zero_def IsFinite_def IsInfinite_def i64_max_def i64_min_def)

lemma finite_delay: "Zero \<le> d \<Longrightarrow> \<not> IsPlusInfinity d \<Longrightarrow> IsFinite d"
  by (auto simp: IsFinite_def IsInfinite_def IsPlusInfinity_def unit_le_value i64_min_def)

lemma repost_Some:
  assumes "repost b d clk task = Some (Some (task', d'))" "IsFinite clk" "IsFinite (next_run_time task)" "Zero \<le> d"
  shows "b \<and> \<not> IsPlusInfinity d \<and> alive_flag task' = alive_flag task \<and> IsFinite (next_run_time task') \<and> IsFinite d'
    \<and> unit_value (next_run_time task') = unit_value (next_run_time task) + unit_value d
    \<and> unit_value d' = max (unit_value d - (unit_value clk - unit_value (next_run_time task))) 0"
proof -
  from assms(1) obtain lost next_run dd where b: "b" "\<not> IsPlusInfinity d"
    and lost: "ts_diff clk (next_run_time task) = Some lost"
    and nr: "ts_plus_delta (next_run_time task) d = Some next_run" and dd: "unit_sub False d lost = Some dd"
    and eq: "task' = task\<lparr>next_run_time := next_run\<rparr>" "d' = max dd Zero"
    by (auto simp: repost_def checked_simps split: if_splits)
  have d: "IsFinite d" using assms(4) b(2) by (rule finite_delay)
  show ?thesis
    using b eq d ts_diff_Some[OF lost assms(2,3)] ts_plus_Some[OF nr assms(3) d]
      unit_sub_Some[OF dd d] by (auto simp: unit_max_value finite_max)
qed

section \<open>The invariant\<close>

definition entry_ok :: "bool list \<Rightarrow> rt_note list \<Rightarrow> int \<Rightarrow> Timestamp \<times> repeating_task \<Rightarrow> bool" where
  "entry_ok al ns clk x \<longleftrightarrow> (case x of (e, t) \<Rightarrow>
     alive_flag t < length al \<and> IsFinite e \<and> IsFinite (next_run_time t) \<and>
     (al ! alive_flag t \<longrightarrow> (\<exists>at \<le> clk. due_of (alive_flag t) ns = Some (unit_value (next_run_time t), at) \<and>
        unit_value e = max (unit_value (next_run_time t)) at)))"

definition flags_ok :: "bool list \<Rightarrow> rt_note list \<Rightarrow> bool" where
  "flags_ok al ns \<longleftrightarrow> (\<forall>f. f < length al \<and> al ! f \<or> due_of f ns = None) \<and> (\<forall>n \<in> set ns. note_flag n < length al)"

definition handle_ok :: "nat \<Rightarrow> nat option \<Rightarrow> bool" where
  "handle_ok n h \<longleftrightarrow> (case h of None \<Rightarrow> True | Some f \<Rightarrow> f < n)"

abbreviation task_flag :: "Timestamp \<times> repeating_task \<Rightarrow> nat" where
  "task_flag x \<equiv> alive_flag (snd x)"

definition rt_inv :: "rt_sys \<Rightarrow> bool" where
  "rt_inv s \<longleftrightarrow> IsFinite (clock_now s) \<and> on_schedule (happened s) \<and> flags_ok (alives (flag_store s)) (happened s)
     \<and> distinct (map task_flag (posted s))
     \<and> list_all (entry_ok (alives (flag_store s)) (happened s) (unit_value (clock_now s))) (posted s)
     \<and> list_all (handle_ok (length (flag_store s))) (handles s)"

lemma rt_inv_init: "rt_inv rt_init"
  by (simp add: rt_inv_def rt_init_def flags_ok_def IsFinite_def IsInfinite_def i64_max_def i64_min_def)

lemma entry_ok_flag: "entry_ok al ns clk x \<Longrightarrow> task_flag x < length al"
  by (auto simp: entry_ok_def split: prod.splits)

lemma entry_ok_later: "entry_ok al ns clk x \<Longrightarrow> clk \<le> clk' \<Longrightarrow> entry_ok al ns clk' x"
  by (force simp: entry_ok_def split: prod.splits)

lemma entry_ok_other:
  assumes "entry_ok al ns clk x" "length al \<le> length al'"
    "al' ! task_flag x \<Longrightarrow> task_flag x < length al \<Longrightarrow> al ! task_flag x \<and> due_of (task_flag x) ns' = due_of (task_flag x) ns"
  shows "entry_ok al' ns' clk x"
  using assms by (force simp: entry_ok_def split: prod.splits)

lemma list_all_update: "list_all P xs \<Longrightarrow> P x \<Longrightarrow> list_all P (xs[i := x])"
  by (auto simp: list_all_iff dest!: set_update_subset_insert[THEN subsetD])

lemma list_all_take_drop: "list_all P xs \<Longrightarrow> list_all P (take i xs @ drop j xs)"
  by (auto simp: list_all_iff dest: in_set_takeD in_set_dropD)

lemma entry_ok_stop: "entry_ok al ns clk x \<Longrightarrow> entry_ok (al[g := False]) (Note_stop g # ns) clk x"
  by (auto simp: entry_ok_def nth_list_update split: prod.splits)

text \<open>What stopping leaves: the clock, the tasks that are posted, and the plans of the flags still alive.\<close>

definition only_stopped :: "rt_sys \<Rightarrow> rt_sys \<Rightarrow> bool" where
  "only_stopped s s' \<longleftrightarrow> clock_now s' = clock_now s \<and> posted s' = posted s
    \<and> length (flag_store s') = length (flag_store s)
    \<and> (\<forall>f < length (flag_store s). alives (flag_store s') ! f \<longrightarrow>
         alives (flag_store s) ! f \<and> due_of f (happened s') = due_of f (happened s))"

lemma only_stopped_refl: "only_stopped s s"
  by (simp add: only_stopped_def)

lemma only_stopped_trans: "only_stopped s t \<Longrightarrow> only_stopped t u \<Longrightarrow> only_stopped s u"
  by (auto simp: only_stopped_def)

lemma Stop_inv:
  assumes inv: "rt_inv s" and h: "h < length (handles s)" and stop: "RepeatingTask_Stop ctx h s = Some s'"
  shows "rt_inv s' \<and> only_stopped s s'"
proof (cases "handles s ! h")
  case None
  with stop inv show ?thesis by (simp add: RepeatingTask_Stop_def only_stopped_refl)
next
  case (Some g)
  have g: "g < length (flag_store s)"
    using inv h Some nth_mem[OF h] by (auto simp: rt_inv_def list_all_iff handle_ok_def split: option.splits)
  from stop Some obtain fs where fs: "SetNotAlive_at ctx g (flag_store s) = Some fs"
    and s': "s' = s\<lparr>flag_store := fs, handles := (handles s)[h := None], happened := Note_stop g # happened s\<rparr>"
    by (auto simp: RepeatingTask_Stop_def checked_simps)
  have al: "alives fs = (alives (flag_store s))[g := False]" by (rule SetNotAlive_at_Some[OF fs g])
  have len: "length fs = length (flag_store s)" using arg_cong[OF al, of length] by simp
  have entries: "list_all (entry_ok (alives fs) (Note_stop g # happened s) (unit_value (clock_now s))) (posted s)"
    using inv by (auto simp: rt_inv_def al list_all_iff intro: entry_ok_stop)
  show ?thesis
    using inv entries unfolding s' rt_inv_def only_stopped_def
    by (auto simp: len al g flags_ok_def nth_list_update list_all_update handle_ok_def split: if_splits)
qed

lemma stop_all_inv: "rt_inv s \<Longrightarrow> stop_all ctx hs s = Some s' \<Longrightarrow> rt_inv s' \<and> only_stopped s s'"
proof (induction hs arbitrary: s)
  case (Cons h hs)
  then obtain t where "h < length (handles s)" "RepeatingTask_Stop ctx h s = Some t" "stop_all ctx hs t = Some s'"
    by (auto simp: checked_simps split: if_splits)
  with Cons.IH[of t] Stop_inv[OF Cons.prems(1)] show ?case by (blast intro: only_stopped_trans)
qed (auto simp: only_stopped_refl)

text \<open>A run that is due.\<close>

lemma run_inv:
  fixes d :: TimeDelta
  assumes inv: "rt_inv s" and i: "i < length (posted s)" and eq: "posted s ! i = (e, t)"
    and le: "unit_value e - early_leeway \<le> unit_value (clock_now s)" "clock_now s \<le> fin" "IsFinite fin"
    and al: "alives fs = alives (flag_store s)" "alives fs ! alive_flag t"
  defines "s0 \<equiv> s\<lparr>posted := take i (posted s) @ drop (Suc i) (posted s), flag_store := fs, clock_now := fin,
     happened := Note_run (alive_flag t) (unit_value (next_run_time t)) (unit_value e) (unit_value (clock_now s))
       (unit_value fin) d # happened s\<rparr>"
  shows "rt_inv s0 \<and> alive_flag t \<notin> set (map task_flag (posted s0)) \<and> alive_flag t < length fs \<and> IsFinite (next_run_time t)"
proof -
  have len: "length fs = length (flag_store s)" using arg_cong[OF al(1), of length] by simp
  have split: "posted s = take i (posted s) @ (e, t) # drop (Suc i) (posted s)"
    using id_take_nth_drop[OF i] eq by simp
  have dist: "distinct (map task_flag (posted s))" using inv by (simp add: rt_inv_def)
  have fresh: "alive_flag t \<notin> set (map task_flag (posted s0))" and dist0: "distinct (map task_flag (posted s0))"
    using dist by (subst (asm) split, simp add: s0_def)+
  have entry: "entry_ok (alives fs) (happened s) (unit_value (clock_now s)) (e, t)"
    using inv nth_mem[OF i] eq al(1) by (auto simp: rt_inv_def list_all_iff)
  then obtain at where at: "due_of (alive_flag t) (happened s) = Some (unit_value (next_run_time t), at)"
    "unit_value e = max (unit_value (next_run_time t)) at"
    and f: "alive_flag t < length fs" "IsFinite (next_run_time t)"
    using al(2) by (auto simp: entry_ok_def)
  have sched: "on_schedule (happened s0)"
    using inv at le by (auto simp: s0_def rt_inv_def unit_le_value)
  have flags: "flags_ok (alives fs) (happened s0)"
    using inv al f by (auto simp: s0_def rt_inv_def flags_ok_def len)
  have entries: "list_all (entry_ok (alives fs) (happened s0) (unit_value fin)) (posted s0)"
    unfolding list_all_iff
  proof
    fix x assume x: "x \<in> set (posted s0)"
    then have "x \<in> set (posted s)" by (auto simp: s0_def dest: in_set_takeD in_set_dropD)
    then have old: "entry_ok (alives fs) (happened s) (unit_value fin) x"
      using inv al(1) le(2) by (auto simp: rt_inv_def list_all_iff unit_le_value intro: entry_ok_later)
    have "task_flag x \<in> set (map task_flag (posted s0))" using x by (simp add: image_iff) blast
    with fresh have "task_flag x \<noteq> alive_flag t" by metis
    with old show "entry_ok (alives fs) (happened s0) (unit_value fin) x"
      by (auto simp: s0_def intro: entry_ok_other)
  qed
  show ?thesis
    using inv sched flags entries dist0 fresh f le(3) len
    by (simp add: rt_inv_def) (simp add: s0_def)
qed

lemma post_repeating_inv:
  assumes inv: "rt_inv s" and post: "post_repeating t delay s = Some s'" and d: "IsFinite delay" "IsFinite (next_run_time t)"
    and f: "alive_flag t < length (flag_store s)" "alive_flag t \<notin> set (map task_flag (posted s))"
    and due: "alives (flag_store s) ! alive_flag t \<Longrightarrow>
      due_of (alive_flag t) (happened s) = Some (unit_value (next_run_time t), unit_value (clock_now s))"
    and max: "unit_value (clock_now s) + unit_value delay = max (unit_value (next_run_time t)) (unit_value (clock_now s))"
  shows "rt_inv s'"
proof -
  from post obtain e where e: "ts_plus_delta (clock_now s) delay = Some e" and s': "s' = s\<lparr>posted := posted s @ [(e, t)]\<rparr>"
    by (auto simp: post_repeating_def checked_simps)
  have "unit_value e = max (unit_value (next_run_time t)) (unit_value (clock_now s)) \<and> IsFinite e"
    using ts_plus_Some[OF e _ d(1)] inv max by (simp add: rt_inv_def)
  then have "entry_ok (alives (flag_store s)) (happened s) (unit_value (clock_now s)) (e, t)"
    using due f d by (auto simp: entry_ok_def)
  with inv f show ?thesis by (simp add: rt_inv_def s')
qed

lemma closure_run_inv:
  assumes inv: "rt_inv s" and i: "i < length (posted s)" and eq: "posted s ! i = (e, t)"
    and le: "unit_value e - early_leeway \<le> unit_value (clock_now s)" "clock_now s \<le> fin" "IsFinite fin"
    and al: "alives fs = alives (flag_store s)" "alives fs ! alive_flag t"
    and run: "closure_run ctx e t hs fin d
      (s\<lparr>posted := take i (posted s) @ drop (Suc i) (posted s), flag_store := fs\<rparr>) = Some (d', s')"
  shows "rt_inv s' \<and> d' = d \<and> clock_now s' = fin \<and> alive_flag t \<notin> set (map task_flag (posted s'))
    \<and> alive_flag t < length (flag_store s') \<and> IsFinite (next_run_time t)
    \<and> (alives (flag_store s') ! alive_flag t \<longrightarrow>
        due_of (alive_flag t) (happened s') = (if IsPlusInfinity d then None else Some (unit_value (next_run_time t) + unit_value d, unit_value fin)))"
proof -
  from run have d: "d' = d" and stop: "stop_all ctx hs (s\<lparr>posted := take i (posted s) @ drop (Suc i) (posted s),
      flag_store := fs, clock_now := fin, happened := Note_run (alive_flag t) (unit_value (next_run_time t)) (unit_value e)
        (unit_value (clock_now s)) (unit_value fin) d # happened s\<rparr>) = Some s'"
    by (auto simp: closure_run_def checked_simps Let_def)
  note r = run_inv[OF inv i eq le al, of d]
  from stop_all_inv[OF conjunct1[OF r] stop] r d show ?thesis
    by (auto simp: only_stopped_def)
qed

lemma rt_inv_checked: "rt_inv s \<Longrightarrow> alives fs = alives (flag_store s) \<Longrightarrow> rt_inv (s\<lparr>flag_store := fs\<rparr>)"
  by (auto simp: rt_inv_def dest: arg_cong[of _ _ length])

lemma rt_inv_removed: "rt_inv s \<Longrightarrow> rt_inv (s\<lparr>posted := take i (posted s) @ drop (Suc i) (posted s)\<rparr>)"
  unfolding rt_inv_def
  using list_all_take_drop[of _ "posted s" i "Suc i"] set_take_disj_set_drop_if_distinct[of "map task_flag (posted s)" i "Suc i"]
  by (simp add: take_map drop_map) (simp add: distinct_take distinct_drop flip: take_map drop_map)

lemma call_inv:
  assumes inv: "rt_inv s" and i: "i < length (posted s)" and eq: "posted s ! i = (e, t)"
    and le: "unit_value e - early_leeway \<le> unit_value (clock_now s)" "clock_now s \<le> fin" "IsFinite fin"
    and call: "RepeatingTask_call ctx t (closure_run ctx e t hs fin d)
      (s\<lparr>posted := take i (posted s) @ drop (Suc i) (posted s)\<rparr>) = Some s'"
  shows "rt_inv s'"
proof -
  have f: "alive_flag t < length (flag_store s)"
    using inv nth_mem[OF i] eq by (auto simp: rt_inv_def list_all_iff entry_ok_def)
  let ?r = "s\<lparr>posted := take i (posted s) @ drop (Suc i) (posted s)\<rparr>"
  from call obtain b fs where b: "alive_at ctx (alive_flag t) (flag_store s) = Some (b, fs)"
    by (auto simp: RepeatingTask_call_def checked_simps split: if_splits)
  note al = alive_at_Some[OF b f]
  show ?thesis
  proof (cases b)
    case False
    with call b have "s' = ?r\<lparr>flag_store := fs\<rparr>" by (auto simp: RepeatingTask_call_def checked_simps split: if_splits)
    with rt_inv_checked[OF rt_inv_removed[OF inv]] al show ?thesis by simp
  next
    case True
    with call b obtain d' s1 b' fs' r where run: "closure_run ctx e t hs fin d (?r\<lparr>flag_store := fs\<rparr>) = Some (d', s1)"
      and pos: "Zero \<le> d'"
      and b': "(if IsPlusInfinity d' then Some (False, flag_store s1) else alive_at ctx (alive_flag t) (flag_store s1)) = Some (b', fs')"
      and r: "repost b' d' (clock_now s1) t = Some r"
      and s': "(case r of None \<Rightarrow> Some (s1\<lparr>flag_store := fs'\<rparr>)
         | Some (t', delay) \<Rightarrow> post_repeating t' delay (s1\<lparr>flag_store := fs'\<rparr>)) = Some s'"
      by (auto simp: RepeatingTask_call_def checked_simps split: if_splits)
    have c: "rt_inv s1 \<and> d' = d \<and> clock_now s1 = fin \<and> alive_flag t \<notin> set (map task_flag (posted s1))
      \<and> alive_flag t < length (flag_store s1) \<and> IsFinite (next_run_time t)
      \<and> (alives (flag_store s1) ! alive_flag t \<longrightarrow>
        due_of (alive_flag t) (happened s1) = (if IsPlusInfinity d then None else Some (unit_value (next_run_time t) + unit_value d, unit_value fin)))"
      using closure_run_inv[OF inv i eq le _ _ run[simplified]] al True by simp
    have al': "alives fs' = alives (flag_store s1)"
      using b' alive_at_Some[of ctx "alive_flag t" "flag_store s1" b' fs'] c by (auto split: if_splits)
    have inv': "rt_inv (s1\<lparr>flag_store := fs'\<rparr>)" using c al' by (blast intro: rt_inv_checked)
    show ?thesis
    proof (cases r)
      case None
      with s' inv' show ?thesis by simp
    next
      case (Some x)
      obtain t' delay where x: "x = (t', delay)" by force
      note rp = repost_Some[OF r[unfolded Some x]]
      have len: "length fs' = length (flag_store s1)" using arg_cong[OF al', of length] by simp
      show ?thesis
        by (rule post_repeating_inv[OF inv', of t' delay]) (use s' Some x rp c pos le(3) al' len in \<open>auto simp: max_def\<close>)
    qed
  qed
qed

lemma start_inv:
  assumes inv: "rt_inv s" and d: "IsFinite d" "Zero \<le> d" and task: "RepeatingTask q p d (clock_now s) (length (flag_store s)) = Some t"
    and e: "IsFinite e" "unit_value e = unit_value (clock_now s) + unit_value d"
  shows "rt_inv (s\<lparr>flag_store := flag_store s @ [CreateDetached ctx], posted := posted s @ [(e, t)],
      handles := handles s @ [Some (length (flag_store s))],
      happened := Note_start (length (flag_store s)) (unit_value (next_run_time t)) (unit_value (clock_now s)) # happened s\<rparr>)"
proof -
  let ?f = "length (flag_store s)"
  from task obtain n where n: "ts_plus_delta (clock_now s) d = Some n" and t: "alive_flag t = ?f" "next_run_time t = n"
    by (auto simp: RepeatingTask_def checked_simps)
  have nv: "unit_value n = unit_value (clock_now s) + unit_value d \<and> IsFinite n"
    using ts_plus_Some[OF n _ d(1)] inv by (simp add: rt_inv_def)
  have old: "task_flag x < ?f" if "x \<in> set (posted s)" for x
    using inv that by (metis (no_types, lifting) alives_length entry_ok_flag list_all_iff rt_inv_def)
  have fresh: "?f \<notin> set (map task_flag (posted s))"
    using old by (metis (no_types, lifting) imageE less_irrefl list.set_map)
  have noted: "?f \<notin> note_flag ` set (happened s)" using inv by (auto simp: rt_inv_def flags_ok_def)
  have none: "due_of ?f (happened s) = None" using inv by (auto simp: rt_inv_def flags_ok_def)
  have entries: "list_all (entry_ok (alives (flag_store s) @ [True])
      (Note_start ?f (unit_value n) (unit_value (clock_now s)) # happened s) (unit_value (clock_now s))) (posted s)"
    unfolding list_all_iff
  proof
    fix x assume x: "x \<in> set (posted s)"
    then have "entry_ok (alives (flag_store s)) (happened s) (unit_value (clock_now s)) x"
      using inv by (auto simp: rt_inv_def list_all_iff)
    with old[OF x] show "entry_ok (alives (flag_store s) @ [True])
      (Note_start ?f (unit_value n) (unit_value (clock_now s)) # happened s) (unit_value (clock_now s)) x"
      by (auto simp: nth_append intro: entry_ok_other)
  qed
  have new: "entry_ok (alives (flag_store s) @ [True])
      (Note_start ?f (unit_value n) (unit_value (clock_now s)) # happened s) (unit_value (clock_now s)) (e, t)"
    using e nv t d(2) by (auto simp: entry_ok_def unit_le_value nth_append)
  have hs: "list_all (handle_ok (Suc ?f)) (handles s)"
    using inv by (auto simp: rt_inv_def list_all_iff handle_ok_def split: option.splits)
  show ?thesis
    using inv entries new hs none t fresh noted unfolding rt_inv_def
    by (auto simp: flags_ok_def nth_append handle_ok_def less_Suc_eq simp del: set_map)
qed

lemma rt_do_inv: "rt_inv s \<Longrightarrow> rt_do ev s = Some s' \<Longrightarrow> rt_inv s'"
proof (induction ev s rule: rt_do.induct)
  case (1 t s)
  then show ?case
    by (auto simp: rt_inv_def checked_simps unit_le_value intro: entry_ok_later elim!: list.pred_mono_strong split: if_splits)
next
  case (2 ctx q p s)
  then show ?case
    using start_inv[OF 2(1) Zero_finite(1) order_refl, of q p _ "clock_now s" ctx]
    by (auto simp: RepeatingTask_Start_def checked_simps Let_def rt_inv_def)
next
  case (3 ctx q p d s)
  then obtain t e where d: "IsFinite d" "Zero \<le> d"
    and t: "RepeatingTask q p d (clock_now s) (length (flag_store s)) = Some t"
    and e: "ts_plus_delta (clock_now s) d = Some e"
    and s': "s' = s\<lparr>flag_store := flag_store s @ [CreateDetached ctx], posted := posted s @ [(e, t)],
      handles := handles s @ [Some (length (flag_store s))],
      happened := Note_start (length (flag_store s)) (unit_value (next_run_time t)) (unit_value (clock_now s)) # happened s\<rparr>"
    by (auto simp: DelayedStart_def post_repeating_def checked_simps Let_def split: if_splits)
  from 3(1) ts_plus_Some[OF e _ d(1)] show ?case
    unfolding s' by (intro start_inv[OF 3(1) d t]) (auto simp: rt_inv_def)
next
  case (4 ctx h s)
  then show ?case using Stop_inv[OF 4(1)] by (auto simp: checked_simps split: if_splits)
next
  case (5 ctx i hs fin delay s)
  then show ?case
    by (cases "posted s ! i") (auto simp: checked_simps Let_def intro: call_inv split: if_splits)
qed

lemma rt_all_inv: "rt_inv s \<Longrightarrow> rt_all evs s = Some s' \<Longrightarrow> rt_inv s'"
  by (induction evs arbitrary: s) (auto simp: checked_simps intro: rt_do_inv)

fun is_run_of :: "nat \<Rightarrow> rt_note \<Rightarrow> bool" where
  "is_run_of f (Note_run g p e st fin d) = (g = f)"
| "is_run_of f n = False"

lemma not_due_after_stop:
  assumes "on_schedule (later @ Note_stop f # earlier)"
  shows "due_of f (later @ Note_stop f # earlier) = None \<and> (\<forall>n \<in> set later. \<not> is_run_of f n)"
  using assms
proof (induction later)
  case (Cons n later)
  then show ?case by (cases n) auto
qed simp

text \<open>C34: a repeating task keeps its schedule: its first run is planned after its first delay, and every
  next run for the planned time of the run before it plus the delay that run returned, so that lateness does
  not add up; each run is asked of the queue for exactly that time, or at once if it has passed, and starts
  not before it, but for the millisecond a queue may be early.  A task is in the queue at most once, and once it is stopped, also by itself, its closure
  does not run again.\<close>

theorem repeating_tasks_keep_schedule:
  assumes "rt_all evs rt_init = Some s"
  shows "on_schedule (happened s) \<and> distinct (map (\<lambda>x. alive_flag (snd x)) (posted s)) \<and>
    (\<forall>later earlier f. happened s = later @ Note_stop f # earlier \<longrightarrow> list_all (\<lambda>n. \<not> is_run_of f n) later)"
proof -
  have "rt_inv s" using rt_all_inv[OF rt_inv_init assms] .
  then show ?thesis
    using not_due_after_stop by (auto simp: rt_inv_def list_all_iff)
qed

definition tq_context :: seq_context where
  "tq_context = \<lparr>current_thread = 1, current_queue = Some 7, current_system_queue = None\<rparr>"

definition late_runs :: "rt_event list" where
  "late_runs = [Ev_DelayedStart tq_context 7 kLow (Unit_T 10), Ev_Tick (Unit_T 25), Ev_Run tq_context 0 [] (Unit_T 27) (Unit_T 10),
    Ev_Run tq_context 0 [0] (Unit_T 28) (Unit_T 10)]"

lemma late_runs_happen:
  "map_option happened (rt_all late_runs rt_init) =
    Some [Note_stop 0, Note_run 0 20 27 27 28 (Unit_T 10), Note_run 0 10 10 25 27 (Unit_T 10), Note_start 0 10 0]"
  by code_simp

theorem repeating_tasks_keep_schedule_witness:
  "\<exists>s. rt_all late_runs rt_init = Some s \<and> on_schedule (happened s) \<and> length (happened s) = 4"
proof -
  from late_runs_happen obtain s where s: "rt_all late_runs rt_init = Some s" and "length (happened s) = 4"
    by (cases "rt_all late_runs rt_init") auto
  with repeating_tasks_keep_schedule[OF s] show ?thesis by blast
qed

text \<open>\<open>Stop\<close> may only be called on the queue of the task: called on another one before the first run, it
  attaches the flag there, and the check in the task fails when it runs.\<close>

lemma stop_elsewhere_is_caught:
  "rt_all [Ev_Start tq_context 7 kLow, Ev_Stop (tq_context\<lparr>current_queue := Some 8\<rparr>) 0, Ev_Run tq_context 0 [] (Unit_T 0) (Unit_T 5)]
     rt_init = None"
  by code_simp

text \<open>\<open>SafeTask\<close> drops the task when its flag is no longer alive; \<open>SetAlive\<close> revives tasks that are still in a queue.\<close>

lemma SafeTask_runs_iff_alive:
  "SafeTask i task ctx fs s = Some (fs', s') \<Longrightarrow> i < length fs \<Longrightarrow>
     alives fs' = alives fs \<and> s' = (if alives fs ! i then task s else s)"
  using alive_at_Some[of ctx i fs] by (fastforce simp: SafeTask_def checked_simps)

end
