(* ===== verification/Ref_Ptr.thy ===== *)
theory Ref_Ptr
  imports TQ_Prelude "HOL-Library.Word"
begin

text \<open>
  Reference counting: \<open>rtc_base/ref_counter.h\<close>, \<open>api/ref_counted_base.h\<close> and \<open>api/scoped_refptr.h\<close>.
  The flags of pending tasks, and whatever else tasks share, live as long as these counts say.
\<close>

section \<open>RefCounter\<close>

datatype RefCountReleaseStatus = kDroppedLastRef | kOtherRefsRemained

text \<open>The count is an atomic \<open>int\<close>: it wraps around.\<close>

type_synonym ref_counter = "32 word"

definition IncRef :: "ref_counter \<Rightarrow> ref_counter" where
  "IncRef c = c + 1"

definition DecRef :: "ref_counter \<Rightarrow> RefCountReleaseStatus \<times> ref_counter" where
  "DecRef c = (let ref_count_after_subtract = c - 1
     in (if ref_count_after_subtract = 0 then kDroppedLastRef else kOtherRefsRemained, ref_count_after_subtract))"

definition HasOneRef :: "ref_counter \<Rightarrow> bool" where
  "HasOneRef c \<longleftrightarrow> c = 1"

section \<open>Counted objects and scoped_refptr\<close>

text \<open>The objects that are not deleted with their counts, the variables of type \<open>scoped_refptr\<close> (none where no
  variable lives, else its pointer, which may be null), the raw pointers \<open>release\<close> has handed out, and the
  number of objects made so far.  An access to a deleted object has no result.\<close>

record rc_heap =
  objects :: "nat \<Rightarrow> ref_counter option"
  vars :: "nat option option list"
  raw_owned :: "nat list"
  made :: nat

definition AddRef :: "nat \<Rightarrow> rc_heap \<Rightarrow> rc_heap option" where
  "AddRef p s = (case objects s p of None \<Rightarrow> None | Some c \<Rightarrow> Some (s\<lparr>objects := (objects s)(p \<mapsto> IncRef c)\<rparr>))"

definition Release :: "nat \<Rightarrow> rc_heap \<Rightarrow> (RefCountReleaseStatus \<times> rc_heap) option" where
  "Release p s = (case objects s p of None \<Rightarrow> None
     | Some c \<Rightarrow> (case DecRef c of (status, c') \<Rightarrow>
         Some (status, s\<lparr>objects := (objects s)(p := if status = kDroppedLastRef then None else Some c')\<rparr>)))"

definition AddRef_nonnull :: "nat option \<Rightarrow> rc_heap \<Rightarrow> rc_heap option" where
  "AddRef_nonnull p s = (case p of None \<Rightarrow> Some s | Some p \<Rightarrow> AddRef p s)"

definition Release_nonnull :: "nat option \<Rightarrow> rc_heap \<Rightarrow> rc_heap option" where
  "Release_nonnull p s = (case p of None \<Rightarrow> Some s | Some p \<Rightarrow> map_option snd (Release p s))"

definition sr_get :: "nat \<Rightarrow> rc_heap \<Rightarrow> nat option" where
  "sr_get i s = (case vars s ! i of None \<Rightarrow> None | Some p \<Rightarrow> p)"

definition set_ptr :: "nat \<Rightarrow> nat option \<Rightarrow> rc_heap \<Rightarrow> rc_heap" where
  "set_ptr i p s = s\<lparr>vars := (vars s)[i := Some p]\<rparr>"

text \<open>The constructors from nothing, from a raw pointer, by copy and by move.\<close>

definition scoped_refptr_null :: "nat \<Rightarrow> rc_heap \<Rightarrow> rc_heap option" where
  "scoped_refptr_null i s = Some (set_ptr i None s)"

definition scoped_refptr :: "nat \<Rightarrow> nat option \<Rightarrow> rc_heap \<Rightarrow> rc_heap option" where
  "scoped_refptr i p s = AddRef_nonnull p (set_ptr i p s)"

definition scoped_refptr_copy :: "nat \<Rightarrow> nat \<Rightarrow> rc_heap \<Rightarrow> rc_heap option" where
  "scoped_refptr_copy i r s = (let p = sr_get r s in AddRef_nonnull p (set_ptr i p s))"

definition sr_release :: "nat \<Rightarrow> rc_heap \<Rightarrow> nat option \<times> rc_heap" where
  "sr_release i s = (sr_get i s, set_ptr i None s)"

definition scoped_refptr_move :: "nat \<Rightarrow> nat \<Rightarrow> rc_heap \<Rightarrow> rc_heap option" where
  "scoped_refptr_move i r s = (let (p, s) = sr_release r s in Some (set_ptr i p s))"

definition scoped_refptr_destroy :: "nat \<Rightarrow> rc_heap \<Rightarrow> rc_heap option" where
  "scoped_refptr_destroy i s = do {
     s' \<leftarrow> Release_nonnull (sr_get i s) s;
     Some (s'\<lparr>vars := (vars s')[i := None]\<rparr>)
   }"

text \<open>The assignments of a raw pointer, by copy and by move, and \<open>swap\<close>.\<close>

definition sr_assign_raw :: "nat \<Rightarrow> nat option \<Rightarrow> rc_heap \<Rightarrow> rc_heap option" where
  "sr_assign_raw i p s = do {
     s \<leftarrow> AddRef_nonnull p s;
     s \<leftarrow> Release_nonnull (sr_get i s) s;
     Some (set_ptr i p s)
   }"

definition sr_assign :: "nat \<Rightarrow> nat \<Rightarrow> rc_heap \<Rightarrow> rc_heap option" where
  "sr_assign i r s = sr_assign_raw i (sr_get r s) s"

definition sr_swap_raw :: "nat \<Rightarrow> nat option \<Rightarrow> rc_heap \<Rightarrow> nat option \<times> rc_heap" where
  "sr_swap_raw i pp s = (let p = sr_get i s in (p, set_ptr i pp s))"

definition sr_swap :: "nat \<Rightarrow> nat \<Rightarrow> rc_heap \<Rightarrow> rc_heap" where
  "sr_swap i r s = (let (p, s) = sr_swap_raw i (sr_get r s) s in set_ptr r p s)"

text \<open>Assignment by move goes through a temporary, which takes the old pointer and releases it.\<close>

definition sr_assign_move :: "nat \<Rightarrow> nat \<Rightarrow> rc_heap \<Rightarrow> rc_heap option" where
  "sr_assign_move i r s =
     (let (temp, s) = sr_release r s; (temp, s) = sr_swap_raw i temp s in Release_nonnull temp s)"

definition sr_eq :: "nat \<Rightarrow> nat \<Rightarrow> rc_heap \<Rightarrow> bool" where
  "sr_eq i r s \<longleftrightarrow> sr_get i s = sr_get r s"

section \<open>Programs\<close>

text \<open>What a program does with its variables: make an object and hold it, construct, assign, destroy, take a raw
  pointer out with \<open>release\<close> and give one back with \<open>Release\<close>.\<close>

datatype rc_op =
    Op_new nat
  | Op_null nat
  | Op_copy nat nat
  | Op_move nat nat
  | Op_from_raw nat nat
  | Op_destroy nat
  | Op_assign nat nat
  | Op_assign_null nat
  | Op_assign_move nat nat
  | Op_swap nat nat
  | Op_release nat
  | Op_Release nat

definition rc_make :: "nat \<Rightarrow> rc_heap \<Rightarrow> rc_heap option" where
  "rc_make i s = (let p = made s
     in scoped_refptr i (Some p) (s\<lparr>objects := (objects s)(p \<mapsto> 0), made := Suc p\<rparr>))"

fun rc_do :: "rc_op \<Rightarrow> rc_heap \<Rightarrow> rc_heap option" where
  "rc_do (Op_new i) s = rc_make i s"
| "rc_do (Op_null i) s = scoped_refptr_null i s"
| "rc_do (Op_copy i r) s = scoped_refptr_copy i r s"
| "rc_do (Op_move i r) s = scoped_refptr_move i r s"
| "rc_do (Op_from_raw i p) s = scoped_refptr i (Some p) s"
| "rc_do (Op_destroy i) s = scoped_refptr_destroy i s"
| "rc_do (Op_assign i r) s = sr_assign i r s"
| "rc_do (Op_assign_null i) s = sr_assign_raw i None s"
| "rc_do (Op_assign_move i r) s = sr_assign_move i r s"
| "rc_do (Op_swap i r) s = Some (sr_swap i r s)"
| "rc_do (Op_release i) s = (let (p, s) = sr_release i s in
     Some (case p of None \<Rightarrow> s | Some p \<Rightarrow> s\<lparr>raw_owned := p # raw_owned s\<rparr>))"
| "rc_do (Op_Release p) s = map_option snd (Release p (s\<lparr>raw_owned := remove1 p (raw_owned s)\<rparr>))"

text \<open>The language sees to it that variables are constructed once before they are used, and their destructor
  called once; the callers of \<open>release\<close> see to it that the reference they own is given back once.\<close>

definition free_var :: "nat \<Rightarrow> rc_heap \<Rightarrow> bool" where
  "free_var i s \<longleftrightarrow> i < length (vars s) \<and> vars s ! i = None"

definition live_var :: "nat \<Rightarrow> rc_heap \<Rightarrow> bool" where
  "live_var i s \<longleftrightarrow> i < length (vars s) \<and> vars s ! i \<noteq> None"

fun rc_legal :: "rc_op \<Rightarrow> rc_heap \<Rightarrow> bool" where
  "rc_legal (Op_new i) s = free_var i s"
| "rc_legal (Op_null i) s = free_var i s"
| "rc_legal (Op_copy i r) s = (free_var i s \<and> live_var r s)"
| "rc_legal (Op_move i r) s = (free_var i s \<and> live_var r s)"
| "rc_legal (Op_from_raw i p) s = (free_var i s \<and> p \<in> set (raw_owned s))"
| "rc_legal (Op_destroy i) s = live_var i s"
| "rc_legal (Op_assign i r) s = (live_var i s \<and> live_var r s)"
| "rc_legal (Op_assign_null i) s = live_var i s"
| "rc_legal (Op_assign_move i r) s = (live_var i s \<and> live_var r s)"
| "rc_legal (Op_swap i r) s = (live_var i s \<and> live_var r s)"
| "rc_legal (Op_release i) s = live_var i s"
| "rc_legal (Op_Release p) s = (p \<in> set (raw_owned s))"

fun rc_run :: "rc_op list \<Rightarrow> rc_heap \<Rightarrow> rc_heap option" where
  "rc_run [] s = Some s"
| "rc_run (c # cs) s = Option.bind (rc_do c s) (rc_run cs)"

fun rc_all_legal :: "rc_op list \<Rightarrow> rc_heap \<Rightarrow> bool" where
  "rc_all_legal [] s = True"
| "rc_all_legal (c # cs) s = (rc_legal c s \<and> (case rc_do c s of None \<Rightarrow> True | Some s \<Rightarrow> rc_all_legal cs s))"

definition rc_start :: "nat \<Rightarrow> rc_heap" where
  "rc_start n = \<lparr>objects = (\<lambda>_. None), vars = replicate n None, raw_owned = [], made = 0\<rparr>"

text \<open>The references there are to an object.\<close>

definition refs :: "rc_heap \<Rightarrow> nat \<Rightarrow> nat" where
  "refs s p = count_list (vars s) (Some (Some p)) + count_list (raw_owned s) p"

section \<open>The counts are the references\<close>

definition count_of :: "nat \<Rightarrow> ref_counter option" where
  "count_of k = (if k = 0 then None else Some (word_of_nat k))"

definition counted :: "rc_heap \<Rightarrow> (nat \<Rightarrow> nat) \<Rightarrow> bool" where
  "counted s R \<longleftrightarrow> (\<forall>p. objects s p = count_of (R p))"

abbreviation one_if :: "bool \<Rightarrow> nat" where
  "one_if b \<equiv> (if b then 1 else 0)"

lemma count_list_update:
  "i < length xs \<Longrightarrow> count_list (xs[i := y]) z + one_if (xs ! i = z) = count_list xs z + one_if (y = z)"
proof (induction xs arbitrary: i)
  case (Cons x xs)
  show ?case using Cons.IH[of "i - 1"] Cons.prems by (cases i) auto
qed simp

lemma count_list_remove1:
  "x \<in> set xs \<Longrightarrow> count_list (remove1 x xs) z + one_if (x = z) = count_list xs z"
  by (induction xs) auto

lemma count_list_pos: "x \<in> set xs \<Longrightarrow> 0 < count_list xs x"
  by (induction xs) auto

lemma refs_other [simp]: "refs (s\<lparr>objects := ob\<rparr>) = refs s" "refs (s\<lparr>made := m\<rparr>) = refs s"
  by (simp_all add: refs_def fun_eq_iff)

lemma vars_set_ptr [simp]: "length (vars (set_ptr i q s)) = length (vars s)" "objects (set_ptr i q s) = objects s"
  "raw_owned (set_ptr i q s) = raw_owned s" "made (set_ptr i q s) = made s"
  by (simp_all add: set_ptr_def)

lemma sr_get_objects [simp]: "sr_get i (s\<lparr>objects := ob\<rparr>) = sr_get i s" "sr_get i (s\<lparr>raw_owned := ow\<rparr>) = sr_get i s"
  "sr_get i (s\<lparr>made := m\<rparr>) = sr_get i s"
  by (simp_all add: sr_get_def)

lemma sr_get_set_ptr: "j < length (vars s) \<Longrightarrow> sr_get j (set_ptr i q s) = (if i = j then q else sr_get j s)"
  by (simp add: sr_get_def set_ptr_def nth_list_update)

lemma sr_get_eq: "sr_get i s = Some p \<longleftrightarrow> vars s ! i = Some (Some p)"
  by (auto simp: sr_get_def split: option.splits)

lemma refs_set_ptr:
  "i < length (vars s) \<Longrightarrow> refs (set_ptr i q s) p + one_if (sr_get i s = Some p) = refs s p + one_if (q = Some p)"
  using count_list_update[of i "vars s" "Some q" "Some (Some p)"] by (simp add: refs_def set_ptr_def sr_get_eq)

lemma refs_free: "i < length (vars s) \<Longrightarrow>
    refs (s\<lparr>vars := (vars s)[i := None]\<rparr>) p + one_if (sr_get i s = Some p) = refs s p"
  using count_list_update[of i "vars s" None "Some (Some p)"] by (simp add: refs_def sr_get_eq)

lemma refs_bound: "refs s p \<le> length (vars s) + length (raw_owned s)"
  unfolding refs_def by (intro add_mono count_le_length)

lemma refs_pos: "sr_get i s = Some p \<Longrightarrow> i < length (vars s) \<Longrightarrow> 0 < refs s p"
  "p \<in> set (raw_owned s) \<Longrightarrow> 0 < refs s p"
  using count_list_pos[of "Some (Some p)" "vars s"] nth_mem[of i "vars s"] count_list_pos[of p "raw_owned s"]
  by (auto simp: refs_def sr_get_eq)

lemma word_of_nat_zero: "k < 4294967296 \<Longrightarrow> (word_of_nat k :: ref_counter) = 0 \<longleftrightarrow> k = 0"
  using word_of_nat_eq_0_iff[where 'a = 32, of k] by (auto dest: nat_dvd_not_less)

lemma counted_objects: "counted s R \<Longrightarrow> objects s' = objects s \<Longrightarrow> counted s' R"
  by (simp add: counted_def)

lemma counted_upd:
  assumes "counted s R" "R' p = k" "\<And>x. x \<noteq> p \<Longrightarrow> R' x = R x"
  shows "counted (s\<lparr>objects := (objects s)(p := count_of k)\<rparr>) R'"
  using assms by (auto simp: counted_def)

lemma IncRef_of_nat: "IncRef (word_of_nat k) = word_of_nat (Suc k)"
  unfolding IncRef_def of_nat_Suc by (rule add.commute)

lemma AddRef_counted:
  assumes "counted s R" "\<And>p. q = Some p \<Longrightarrow> 0 < R p"
  shows "\<exists>ob. AddRef_nonnull q s = Some (s\<lparr>objects := ob\<rparr>) \<and> counted (s\<lparr>objects := ob\<rparr>) (\<lambda>p. R p + one_if (q = Some p))"
proof (cases q)
  case (Some p)
  let ?ob = "(objects s)(p := count_of (Suc (R p)))"
  have obj: "objects s p = Some (word_of_nat (R p))"
    using assms Some by (simp add: counted_def count_of_def)
  have "AddRef_nonnull q s = Some (s\<lparr>objects := ?ob\<rparr>)"
    by (simp add: Some AddRef_nonnull_def AddRef_def obj IncRef_of_nat count_of_def del: of_nat_Suc)
  moreover have "counted (s\<lparr>objects := ?ob\<rparr>) (\<lambda>p. R p + one_if (q = Some p))"
    by (rule counted_upd[OF assms(1)]) (auto simp: Some)
  ultimately show ?thesis by blast
qed (use assms in \<open>auto simp: AddRef_nonnull_def intro!: exI[of _ "objects s"]\<close>)

lemma Release_counted:
  assumes "counted s R" "0 < R p" "R p < 4294967296"
  shows "\<exists>ob st. Release p s = Some (st, s\<lparr>objects := ob\<rparr>) \<and> counted (s\<lparr>objects := ob\<rparr>) (\<lambda>x. R x - one_if (p = x))
    \<and> (st = kDroppedLastRef \<longleftrightarrow> R p = 1)"
proof -
  have dec: "(word_of_nat (R p) :: ref_counter) - 1 = word_of_nat (R p - 1)"
    using assms(2) by (simp add: of_nat_diff)
  have zero: "(word_of_nat (R p - 1) :: ref_counter) = 0 \<longleftrightarrow> R p = 1"
    using word_of_nat_zero[of "R p - 1"] assms(2,3) by auto
  have obj: "objects s p = Some (word_of_nat (R p))"
    using assms(1,2) by (simp add: counted_def count_of_def)
  have drop: "DecRef (word_of_nat (R p)) = (if R p = 1 then kDroppedLastRef else kOtherRefsRemained, word_of_nat (R p - 1))"
    unfolding DecRef_def Let_def dec zero by (rule refl)
  let ?ob = "(objects s)(p := count_of (R p - 1))" and ?st = "if R p = 1 then kDroppedLastRef else kOtherRefsRemained"
  have "Release p s = Some (?st, s\<lparr>objects := ?ob\<rparr>)"
    unfolding Release_def obj count_of_def option.case(2) drop using assms(2) by auto
  moreover have "counted (s\<lparr>objects := ?ob\<rparr>) (\<lambda>x. R x - one_if (p = x))"
    by (rule counted_upd[OF assms(1)]) auto
  ultimately show ?thesis by (intro exI[of _ ?ob] exI[of _ ?st] conjI) simp_all
qed

lemma Release_nonnull_counted:
  assumes "counted s R" "\<And>p. q = Some p \<Longrightarrow> 0 < R p" "\<And>p. R p < 4294967296"
  shows "\<exists>ob. Release_nonnull q s = Some (s\<lparr>objects := ob\<rparr>) \<and> counted (s\<lparr>objects := ob\<rparr>) (\<lambda>p. R p - one_if (q = Some p))"
proof (cases q)
  case (Some p)
  with Release_counted[OF assms(1) _ assms(3), of p] assms(2) show ?thesis
    by (auto simp: Release_nonnull_def)
qed (use assms in \<open>auto simp: Release_nonnull_def intro!: exI[of _ "objects s"]\<close>)

definition rc_inv :: "nat \<Rightarrow> rc_heap \<Rightarrow> bool" where
  "rc_inv b s \<longleftrightarrow> counted s (refs s) \<and> (\<forall>p \<ge> made s. refs s p = 0) \<and> length (vars s) + length (raw_owned s) \<le> b"

lemma count_list_replicate_none: "y \<noteq> x \<Longrightarrow> count_list (replicate n x) y = 0"
  by (induction n) auto

lemma rc_inv_start: "rc_inv n (rc_start n)"
  by (simp add: rc_inv_def rc_start_def counted_def count_of_def refs_def count_list_replicate_none)

lemma counted_cong: "counted s R \<Longrightarrow> (\<And>p. R p = R' p) \<Longrightarrow> counted s R'"
  by (simp add: counted_def)

lemma assign_raw_inv:
  assumes inv: "rc_inv b s" and b: "Suc b < 4294967296" and i: "i < length (vars s)"
    and q: "\<And>p. q = Some p \<Longrightarrow> 0 < refs s p"
  shows "\<exists>s'. sr_assign_raw i q s = Some s' \<and> rc_inv b s'"
proof -
  have c: "counted s (refs s)" using inv by (simp add: rc_inv_def)
  have bound: "refs s p + 1 < 4294967296" for p using refs_bound[of s p] inv b by (simp add: rc_inv_def)
  obtain ob where ob: "AddRef_nonnull q s = Some (s\<lparr>objects := ob\<rparr>)"
    and c1: "counted (s\<lparr>objects := ob\<rparr>) (\<lambda>p. refs s p + one_if (q = Some p))"
    using AddRef_counted[OF c q] by blast
  have old: "0 < refs s p + one_if (q = Some p)" if "sr_get i s = Some p" for p
    using refs_pos(1)[OF that i] by simp
  obtain ob' where ob': "Release_nonnull (sr_get i s) (s\<lparr>objects := ob\<rparr>) = Some (s\<lparr>objects := ob'\<rparr>)"
    and c2: "counted (s\<lparr>objects := ob'\<rparr>) (\<lambda>p. refs s p + one_if (q = Some p) - one_if (sr_get i s = Some p))"
    using Release_nonnull_counted[OF c1, of "sr_get i s"] old bound by (fastforce split: if_splits)
  define s' where "s' = set_ptr i q (s\<lparr>objects := ob'\<rparr>)"
  have r: "refs s' p = refs s p + one_if (q = Some p) - one_if (sr_get i s = Some p)" for p
    using refs_set_ptr[of i "s\<lparr>objects := ob'\<rparr>" q p] i unfolding s'_def by simp
  have "counted s' (refs s')"
    by (rule counted_cong[OF counted_objects[OF c2]]) (simp_all add: r, simp add: s'_def)
  moreover have "refs s' p = 0" if "made s' \<le> p" for p
  proof -
    have "refs s p = 0" using inv that by (simp add: rc_inv_def s'_def)
    with q[of p] show ?thesis unfolding r by auto
  qed
  ultimately have "rc_inv b s'"
    using inv by (simp add: rc_inv_def) (simp add: s'_def)
  with ob ob' show ?thesis by (simp add: sr_assign_raw_def s'_def)
qed

text \<open>A step that changes the counts as it changes the references keeps the invariant.\<close>

lemma rc_invI:
  assumes "rc_inv b s" "counted s' R" "\<And>p. refs s' p = R p" "\<And>p. made s' \<le> p \<Longrightarrow> R p = 0"
    "length (vars s') = length (vars s)" "length (raw_owned s') \<le> length (raw_owned s) + k"
  shows "rc_inv (b + k) s'"
  using assms(1,4-6) counted_cong[OF assms(2), of "refs s'"] assms(3) by (auto simp: rc_inv_def)

lemma construct_inv:
  assumes inv: "rc_inv b s" and i: "free_var i s" and q: "\<And>p. q = Some p \<Longrightarrow> 0 < refs s p"
  shows "\<exists>s'. AddRef_nonnull q (set_ptr i q s) = Some s' \<and> rc_inv b s'"
proof -
  have c: "counted (set_ptr i q s) (refs s)" by (rule counted_objects[of s]) (use inv in \<open>simp_all add: rc_inv_def\<close>)
  obtain ob where ob: "AddRef_nonnull q (set_ptr i q s) = Some ((set_ptr i q s)\<lparr>objects := ob\<rparr>)"
    and c1: "counted ((set_ptr i q s)\<lparr>objects := ob\<rparr>) (\<lambda>p. refs s p + one_if (q = Some p))"
    using AddRef_counted[OF c q] by blast
  have none: "sr_get i s = None" using i by (simp add: free_var_def sr_get_def)
  have "rc_inv (b + 0) ((set_ptr i q s)\<lparr>objects := ob\<rparr>)"
  proof (rule rc_invI[OF inv c1])
    show "refs ((set_ptr i q s)\<lparr>objects := ob\<rparr>) p = refs s p + one_if (q = Some p)" for p
      using refs_set_ptr[of i s q p] i none by (simp add: free_var_def)
    show "refs s p + one_if (q = Some p) = 0" if "made ((set_ptr i q s)\<lparr>objects := ob\<rparr>) \<le> p" for p
      using inv that q[of p] by (auto simp: rc_inv_def)
  qed simp_all
  with ob show ?thesis by auto
qed

lemma same_refs_inv:
  assumes "rc_inv b s" "objects s' = objects s" "\<And>p. refs s' p = refs s p" "made s' = made s"
    "length (vars s') = length (vars s)" "length (raw_owned s') \<le> length (raw_owned s) + k"
  shows "rc_inv (b + k) s'"
  using assms(1) by (rule rc_invI[OF _ counted_objects[of s "refs s"]]) (use assms in \<open>auto simp: rc_inv_def\<close>)

lemma make_inv:
  assumes inv: "rc_inv b s" and i: "free_var i s"
  shows "\<exists>s'. rc_make i s = Some s' \<and> rc_inv b s'"
proof -
  let ?p = "made s"
  have new: "refs s ?p = 0" and none: "sr_get i s = None"
    using inv i by (simp_all add: rc_inv_def free_var_def sr_get_def)
  define s' where "s' = (set_ptr i (Some ?p) s)\<lparr>objects := (objects s)(?p \<mapsto> 1), made := Suc ?p\<rparr>"
  have eq: "rc_make i s = Some s'"
    by (simp add: rc_make_def scoped_refptr_def AddRef_nonnull_def AddRef_def IncRef_def Let_def s'_def set_ptr_def)
  have "rc_inv (b + 0) s'"
  proof (rule rc_invI[OF inv])
    show "counted s' (\<lambda>p. refs s p + one_if (p = ?p))"
      using counted_upd[of s "refs s" "\<lambda>p. refs s p + one_if (p = ?p)" ?p 1] inv new
      by (simp add: rc_inv_def counted_def count_of_def s'_def)
    show "refs s' p = refs s p + one_if (p = ?p)" for p
      using refs_set_ptr[of i s "Some ?p" p] i none by (auto simp: free_var_def s'_def)
    show "refs s p + one_if (p = ?p) = 0" if "made s' \<le> p" for p
      using inv that by (auto simp: rc_inv_def s'_def)
  qed (simp_all add: s'_def)
  with eq show ?thesis by auto
qed

lemma release_inv:
  assumes inv: "rc_inv b s" and b: "b < 4294967296" and q: "\<And>p. q = Some p \<Longrightarrow> 0 < refs s p"
    and s': "objects s1 = objects s" "made s1 = made s" "length (vars s1) = length (vars s)"
      "length (raw_owned s1) \<le> length (raw_owned s)"
    and r: "\<And>p. refs s1 p + one_if (q = Some p) = refs s p"
  shows "\<exists>ob. Release_nonnull q s1 = Some (s1\<lparr>objects := ob\<rparr>) \<and> rc_inv b (s1\<lparr>objects := ob\<rparr>)"
proof -
  have c: "counted s1 (refs s)" by (rule counted_objects[of s]) (use inv s'(1) in \<open>simp_all add: rc_inv_def\<close>)
  have bound: "refs s p < 4294967296" for p using refs_bound[of s p] inv b by (simp add: rc_inv_def)
  obtain ob where ob: "Release_nonnull q s1 = Some (s1\<lparr>objects := ob\<rparr>)"
    and c1: "counted (s1\<lparr>objects := ob\<rparr>) (\<lambda>p. refs s p - one_if (q = Some p))"
    using Release_nonnull_counted[OF c q bound] by blast
  have eq: "refs s1 p = refs s p - one_if (q = Some p)" for p using r[of p] by auto
  have "rc_inv (b + 0) (s1\<lparr>objects := ob\<rparr>)"
    by (rule rc_invI[OF inv c1]) (use eq inv s' in \<open>auto simp: rc_inv_def\<close>)
  with ob show ?thesis by auto
qed

lemma Release_nonnull_vars:
  assumes "Release_nonnull q (s\<lparr>vars := vs\<rparr>) = Some (s\<lparr>vars := vs, objects := ob\<rparr>)"
  shows "Release_nonnull q s = Some (s\<lparr>objects := ob\<rparr>)"
  using assms
  by (cases q) (auto simp: Release_nonnull_def Release_def split: option.splits prod.splits dest!: arg_cong[of _ _ objects])

lemma rc_do_inv:
  assumes inv: "rc_inv b s" and legal: "rc_legal c s" and b: "Suc b < 4294967296"
  shows "\<exists>s'. rc_do c s = Some s' \<and> rc_inv (Suc b) s'"
proof -
  have grow: "rc_inv b t \<Longrightarrow> rc_inv (Suc b) t" for t by (auto simp: rc_inv_def)
  have len: "i < length (vars s)" if "live_var i s \<or> free_var i s" for i
    using that by (auto simp: live_var_def free_var_def)
  have held: "0 < refs s p" if "live_var i s \<or> free_var i s" "sr_get i s = Some p" for i p
    using refs_pos(1)[OF that(2) len[OF that(1)]] .
  show ?thesis
  proof (cases c)
    case (Op_new i)
    with make_inv[OF inv, of i] legal show ?thesis by (auto intro: grow)
  next
    case (Op_null i)
    with construct_inv[OF inv, of i None] legal show ?thesis
      by (auto simp: scoped_refptr_null_def AddRef_nonnull_def intro: grow)
  next
    case (Op_copy i r)
    with construct_inv[OF inv, of i "sr_get r s"] held[of r] legal show ?thesis
      by (auto simp: scoped_refptr_copy_def Let_def intro: grow)
  next
    case (Op_move i r)
    define t where "t = set_ptr i (sr_get r s) (set_ptr r None s)"
    have "i \<noteq> r" "sr_get i s = None" using legal Op_move by (auto simp: free_var_def live_var_def sr_get_def)
    then have "refs t p = refs s p" for p
      using refs_set_ptr[of i "set_ptr r None s" "sr_get r s" p] refs_set_ptr[of r s None p] len legal Op_move
      by (simp add: t_def sr_get_set_ptr)
    then have "rc_inv (b + 0) t" by (intro same_refs_inv[OF inv]) (simp_all add: t_def)
    with Op_move show ?thesis by (simp add: scoped_refptr_move_def sr_release_def t_def grow)
  next
    case (Op_from_raw i p)
    with construct_inv[OF inv, of i "Some p"] refs_pos(2)[of p s] legal show ?thesis
      by (auto simp: scoped_refptr_def intro: grow)
  next
    case (Op_destroy i)
    let ?s = "s\<lparr>vars := (vars s)[i := None]\<rparr>"
    have "\<exists>ob. Release_nonnull (sr_get i s) ?s = Some (?s\<lparr>objects := ob\<rparr>) \<and> rc_inv b (?s\<lparr>objects := ob\<rparr>)"
      using release_inv[OF inv, of "sr_get i s" ?s] refs_free[of i s] held[of i] len[of i] legal Op_destroy b by simp
    then obtain ob where ob: "Release_nonnull (sr_get i s) ?s = Some (?s\<lparr>objects := ob\<rparr>)" "rc_inv b (?s\<lparr>objects := ob\<rparr>)" by blast
    have "Release_nonnull (sr_get i s) s = Some (s\<lparr>objects := ob\<rparr>)"
      using ob(1) by (rule Release_nonnull_vars)
    moreover have eq: "s\<lparr>objects := ob, vars := (vars s)[i := None]\<rparr> = ?s\<lparr>objects := ob\<rparr>" by simp
    have "rc_inv (Suc b) (s\<lparr>objects := ob, vars := (vars s)[i := None]\<rparr>)" by (subst eq) (rule grow[OF ob(2)])
    ultimately show ?thesis using Op_destroy by (simp add: scoped_refptr_destroy_def)
  next
    case (Op_assign i r)
    with assign_raw_inv[OF inv b, of i "sr_get r s"] held[of r] len legal show ?thesis
      by (auto simp: sr_assign_def intro: grow)
  next
    case (Op_assign_null i)
    with assign_raw_inv[OF inv b, of i None] len legal show ?thesis by (auto intro: grow)
  next
    case (Op_assign_move i r)
    let ?s = "set_ptr i (sr_get r s) (set_ptr r None s)" and ?q = "sr_get i (set_ptr r None s)"
    have l: "i < length (vars s)" "r < length (vars s)" using len legal Op_assign_move by simp_all
    have eq: "refs ?s p + one_if (?q = Some p) = refs s p" for p
      using refs_set_ptr[of i "set_ptr r None s" "sr_get r s" p] refs_set_ptr[of r s None p] l by simp
    have "0 < refs s p" if "?q = Some p" for p using eq[of p] that by simp
    with release_inv[OF inv, of ?q ?s] eq b
    have "\<exists>ob. Release_nonnull ?q ?s = Some (?s\<lparr>objects := ob\<rparr>) \<and> rc_inv b (?s\<lparr>objects := ob\<rparr>)" by simp
    with Op_assign_move show ?thesis by (auto simp: sr_assign_move_def sr_release_def sr_swap_raw_def intro: grow)
  next
    case (Op_swap i r)
    have l: "i < length (vars s)" "r < length (vars s)" using len legal Op_swap by simp_all
    have "refs (sr_swap i r s) p = refs s p" for p
      using refs_set_ptr[of r "set_ptr i (sr_get r s) s" "sr_get i s" p] refs_set_ptr[of i s "sr_get r s" p] l
      by (auto simp: sr_swap_def sr_swap_raw_def sr_get_set_ptr split: if_splits)
    then have "rc_inv (b + 0) (sr_swap i r s)"
      by (intro same_refs_inv[OF inv]) (simp_all add: sr_swap_def sr_swap_raw_def)
    with Op_swap show ?thesis by (simp add: grow)
  next
    case (Op_release i)
    have l: "i < length (vars s)" using len legal Op_release by simp
    show ?thesis
    proof (cases "sr_get i s")
      case None
      have "rc_inv (b + 0) (set_ptr i None s)"
        using refs_set_ptr[OF l, of None] None by (intro same_refs_inv[OF inv]) simp_all
      with Op_release None show ?thesis by (simp add: sr_release_def grow)
    next
      case (Some q)
      let ?s = "set_ptr i None s\<lparr>raw_owned := q # raw_owned s\<rparr>"
      have "refs ?s p = refs (set_ptr i None s) p + one_if (q = p)" for p by (simp add: refs_def)
      then have "rc_inv (b + 1) ?s"
        using refs_set_ptr[OF l, of None] Some by (intro same_refs_inv[OF inv]) simp_all
      with Op_release Some show ?thesis by (simp add: sr_release_def)
    qed
  next
    case (Op_Release p)
    let ?s = "s\<lparr>raw_owned := remove1 p (raw_owned s)\<rparr>"
    have p: "p \<in> set (raw_owned s)" using legal Op_Release by simp
    have "refs ?s x + one_if (Some p = Some x) = refs s x" for x
      using count_list_remove1[OF p, of x] by (simp add: refs_def)
    then have "\<exists>ob. Release_nonnull (Some p) ?s = Some (?s\<lparr>objects := ob\<rparr>) \<and> rc_inv b (?s\<lparr>objects := ob\<rparr>)"
      using release_inv[OF inv, of "Some p" ?s] refs_pos(2)[OF p] b by (simp add: length_remove1)
    with Op_Release show ?thesis by (auto simp: Release_nonnull_def intro: grow)
  qed
qed

lemma rc_run_inv:
  "rc_inv b s \<Longrightarrow> rc_all_legal cs s \<Longrightarrow> b + length cs < 4294967296 \<Longrightarrow> \<exists>s'. rc_run cs s = Some s' \<and> rc_inv (b + length cs) s'"
proof (induction cs arbitrary: b s)
  case (Cons c cs)
  obtain t where t: "rc_do c s = Some t" "rc_inv (Suc b) t" using rc_do_inv[OF Cons.prems(1), of c] Cons.prems by auto
  with Cons.IH[of "Suc b" t] Cons.prems show ?case by simp
qed simp

text \<open>C35: reference counting is safe and complete: in every program whose variables are constructed, used and
  destroyed as the language requires, and which gives back what \<open>release\<close> hands out, no operation touches a
  deleted object, an object exists exactly as long as there is a reference to it, and its count is the number
  of references.\<close>

theorem objects_live_while_referenced:
  assumes "rc_all_legal cs (rc_start n)" "n + length cs < 4294967296"
  shows "\<exists>s. rc_run cs (rc_start n) = Some s \<and>
    (\<forall>p. objects s p = (if refs s p = 0 then None else Some (word_of_nat (refs s p))))"
  using rc_run_inv[OF rc_inv_start assms] by (auto simp: rc_inv_def counted_def count_of_def)

definition some_program :: "rc_op list" where
  "some_program = [Op_new 0, Op_copy 1 0, Op_assign_move 1 0, Op_release 1, Op_from_raw 2 0, Op_assign 2 2, Op_Release 0,
     Op_destroy 0, Op_destroy 1, Op_destroy 2]"

lemma some_program_result:
  "rc_all_legal some_program (rc_start 3)"
  "map_option (\<lambda>s. (objects s 0, refs s 0)) (rc_run some_program (rc_start 3)) = Some (None, 0)"
  "map_option (\<lambda>s. (objects s 0, refs s 0)) (rc_run (take 6 some_program) (rc_start 3)) = Some (Some 2, 2)"
  by code_simp+

theorem objects_live_while_referenced_witness:
  "\<exists>s. rc_run some_program (rc_start 3) = Some s \<and> objects s 0 = None"
proof -
  have "3 + length some_program < 4294967296" by (simp add: some_program_def)
  from objects_live_while_referenced[OF some_program_result(1) this] some_program_result(2) show ?thesis by fastforce
qed

text \<open>Only the caller that drops the last reference is told so, and a count of one is exclusive.\<close>

lemma Release_tells_last:
  assumes "counted s (refs s)" "0 < refs s p" "refs s p < 4294967296"
  shows "map_option fst (Release p s) = Some (if refs s p = 1 then kDroppedLastRef else kOtherRefsRemained)
    \<and> (HasOneRef (the (objects s p)) \<longleftrightarrow> refs s p = 1)"
proof -
  have one: "(word_of_nat (refs s p) :: ref_counter) = 1 \<longleftrightarrow> refs s p = 1"
    using word_of_nat_zero[of "refs s p - 1"] assms(2,3) by (auto simp: of_nat_diff)
  from Release_counted[OF assms] assms(1,2) one show ?thesis
    by (cases "fst (the (Release p s))") (auto simp: HasOneRef_def counted_def count_of_def)
qed

end
