(* ===== verification/Json_Reader.thy ===== *)
theory Json_Reader
  imports TQ_Prelude
begin

text \<open>
  A reader of JSON text, against which the text that \<open>event_tracer.cc\<close> prints is judged.  It is not code of the
  library.  Numbers and words (\<open>true\<close>, \<open>false\<close>) are atoms with their text.
\<close>

section \<open>The reader\<close>

datatype json =
    J_string string
  | J_atom string
  | J_array "json list"
  | J_object "(string \<times> json) list"

definition json_space :: "char \<Rightarrow> bool" where
  "json_space c \<longleftrightarrow> c \<in> {CHR '' '', CHR 0x09, CHR 0x0A, CHR 0x0D}"

definition atom_char :: "char \<Rightarrow> bool" where
  "atom_char c \<longleftrightarrow> \<not> json_space c \<and> c \<notin> set ''\",:[]{}''"

definition skip_space :: "string \<Rightarrow> string" where
  "skip_space s = dropWhile json_space s"

text \<open>The characters of a string up to its closing quote; a backslash stands before a quote or a backslash.\<close>

fun read_chars :: "string \<Rightarrow> (string \<times> string) option" where
  "read_chars [] = None"
| "read_chars (c # cs) =
     (if c = CHR 0x22 then Some ([], cs)
      else if c = CHR 0x5C then (case cs of [] \<Rightarrow> None | d # ds \<Rightarrow> map_option (\<lambda>(t, r). (d # t, r)) (read_chars ds))
      else map_option (\<lambda>(t, r). (c # t, r)) (read_chars cs))"

text \<open>What follows an item: a comma and another item, or the end.  The number bounds the items.\<close>

primrec read_rest :: "(string \<Rightarrow> ('a \<times> string) option) \<Rightarrow> char \<Rightarrow> nat \<Rightarrow> string \<Rightarrow> ('a list \<times> string) option" where
  "read_rest p close 0 s = None"
| "read_rest p close (Suc n) s = (case skip_space s of
     [] \<Rightarrow> None
   | c # r \<Rightarrow> if c = close then Some ([], r)
       else if c = CHR '','' then (case p r of None \<Rightarrow> None | Some (v, r') \<Rightarrow> map_option (\<lambda>(vs, r''). (v # vs, r'')) (read_rest p close n r'))
       else None)"

definition read_items :: "(string \<Rightarrow> ('a \<times> string) option) \<Rightarrow> char \<Rightarrow> string \<Rightarrow> ('a list \<times> string) option" where
  "read_items p close s = (case skip_space s of
     [] \<Rightarrow> None
   | c # r \<Rightarrow> if c = close then Some ([], r)
       else (case p s of None \<Rightarrow> None | Some (v, r') \<Rightarrow> map_option (\<lambda>(vs, r''). (v # vs, r'')) (read_rest p close (length s) r')))"

definition read_member :: "(string \<Rightarrow> ('a \<times> string) option) \<Rightarrow> string \<Rightarrow> ((string \<times> 'a) \<times> string) option" where
  "read_member p s = (case skip_space s of
     [] \<Rightarrow> None
   | c # cs \<Rightarrow> if c \<noteq> CHR 0x22 then None
       else (case read_chars cs of None \<Rightarrow> None | Some (n, r) \<Rightarrow> (case skip_space r of
          [] \<Rightarrow> None
        | d # r' \<Rightarrow> if d = CHR '':'' then map_option (\<lambda>(v, r''). ((n, v), r'')) (p r') else None)))"

text \<open>The number bounds the depth.\<close>

primrec read_value :: "nat \<Rightarrow> string \<Rightarrow> (json \<times> string) option" where
  "read_value 0 s = None"
| "read_value (Suc d) s = (case skip_space s of
     [] \<Rightarrow> None
   | c # cs \<Rightarrow> if c = CHR 0x22 then map_option (\<lambda>(t, r). (J_string t, r)) (read_chars cs)
       else if c = CHR ''['' then map_option (\<lambda>(vs, r). (J_array vs, r)) (read_items (read_value d) (CHR '']'') cs)
       else if c = CHR ''{'' then map_option (\<lambda>(ms, r). (J_object ms, r)) (read_items (read_member (read_value d)) (CHR ''}'') cs)
       else if atom_char c then Some (J_atom (takeWhile atom_char (c # cs)), dropWhile atom_char (c # cs))
       else None)"

definition read_json :: "string \<Rightarrow> json option" where
  "read_json s = (case read_value (length s) s of Some (j, r) \<Rightarrow> if skip_space r = [] then Some j else None | None \<Rightarrow> None)"

section \<open>Reading what is printed\<close>

lemma skip_space_simps [simp]:
  "skip_space [] = []" "json_space c \<Longrightarrow> skip_space (c # s) = skip_space s" "\<not> json_space c \<Longrightarrow> skip_space (c # s) = c # s"
  by (simp_all add: skip_space_def)

lemma skip_space_append: "\<forall>c \<in> set sp. json_space c \<Longrightarrow> skip_space (sp @ s) = skip_space s"
  by (induction sp) auto

lemma json_space_simps [simp]:
  "json_space (CHR '' '')" "json_space (CHR 0x0A)" "\<not> json_space (CHR 0x22)" "\<not> json_space (CHR '','')"
  "\<not> json_space (CHR '':'')" "\<not> json_space (CHR ''['')" "\<not> json_space (CHR '']'')" "\<not> json_space (CHR ''{'')" "\<not> json_space (CHR ''}'')"
  by (simp_all add: json_space_def)

lemma atom_char_simps [simp]:
  "\<not> atom_char (CHR '' '')" "\<not> atom_char (CHR 0x0A)" "\<not> atom_char (CHR '','')" "\<not> atom_char (CHR ''}'')" "\<not> atom_char (CHR '']'')"
  by (simp_all add: atom_char_def)

lemma atom_char_dest: "atom_char c \<Longrightarrow> \<not> json_space c \<and> c \<noteq> CHR 0x22 \<and> c \<noteq> CHR ''['' \<and> c \<noteq> CHR ''{''"
  by (auto simp: atom_char_def)

text \<open>Text that is read up to its end, whatever follows, as long as that does not go on with an atom.\<close>

definition reads :: "nat \<Rightarrow> string \<Rightarrow> json \<Rightarrow> bool" where
  "reads d s v \<longleftrightarrow> (\<forall>r. r = [] \<or> \<not> atom_char (hd r) \<longrightarrow> read_value d (s @ r) = Some (v, r))"

lemma readsD: "reads d s v \<Longrightarrow> r = [] \<or> \<not> atom_char (hd r) \<Longrightarrow> read_value d (s @ r) = Some (v, r)"
  unfolding reads_def by blast

lemma read_itemsI:
  assumes "skip_space t = c # u" "c \<noteq> close" "p t = Some (v, s)" "read_rest p close (length t) s = Some (vs, r)"
  shows "read_items p close t = Some (v # vs, r)"
  using assms by (simp add: read_items_def)

definition unquoted :: "string \<Rightarrow> bool" where
  "unquoted s \<longleftrightarrow> CHR 0x22 \<notin> set s \<and> CHR 0x5C \<notin> set s"

lemma read_chars_unquoted: "unquoted t \<Longrightarrow> read_chars (t @ CHR 0x22 # r) = Some (t, r)"
  by (induction t) (auto simp: unquoted_def)

lemma reads_string: "(\<And>r. read_chars (s @ CHR 0x22 # r) = Some (t, r)) \<Longrightarrow> reads (Suc d) (CHR 0x22 # s @ [CHR 0x22]) (J_string t)"
  by (simp add: reads_def)

lemma reads_atom:
  assumes "a \<noteq> []" "\<forall>c \<in> set a. atom_char c"
  shows "reads (Suc d) a (J_atom a)"
  unfolding reads_def
proof (intro allI impI)
  fix r
  assume r: "r = [] \<or> \<not> atom_char (hd r)"
  obtain c cs where a: "a = c # cs"
    using assms(1) by (cases a) auto
  have "takeWhile atom_char (a @ r) = a" "dropWhile atom_char (a @ r) = r"
    using assms(2) r by (cases r; simp add: takeWhile_append dropWhile_append)+
  then show "read_value (Suc d) (a @ r) = Some (J_atom a, r)"
    using assms(2) atom_char_dest[of c] by (simp add: a)
qed

lemma reads_space: "reads (Suc d) s v \<Longrightarrow> json_space c \<Longrightarrow> reads (Suc d) (c # s) v"
  by (simp add: reads_def)

text \<open>A member as the tracer prints it, with the comma before it.\<close>

definition member_text :: "string \<times> string \<times> json \<Rightarrow> string" where
  "member_text m = '', \"'' @ fst m @ ''\": '' @ fst (snd m)"

definition member_of :: "string \<times> string \<times> json \<Rightarrow> string \<times> json" where
  "member_of m = (fst m, snd (snd m))"

definition member_ok :: "nat \<Rightarrow> string \<times> string \<times> json \<Rightarrow> bool" where
  "member_ok d m \<longleftrightarrow> unquoted (fst m) \<and> reads d (fst (snd m)) (snd (snd m))"

lemma read_member_text:
  assumes "member_ok (Suc d) m" "r = [] \<or> \<not> atom_char (hd r)"
  shows "read_member (read_value (Suc d)) (tl (member_text m) @ r) = Some (member_of m, r)"
proof -
  obtain n s v where m: "m = (n, s, v)"
    by (cases m) auto
  have "read_value (Suc d) (CHR '' '' # s @ r) = Some (v, r)"
    using readsD[OF reads_space[of d s v "CHR '' ''"] assms(2)] assms(1) by (simp add: member_ok_def m)
  moreover have "read_chars (n @ CHR 0x22 # x) = Some (n, x)" for x
    using assms(1) by (intro read_chars_unquoted) (simp add: member_ok_def m)
  ultimately show ?thesis
    by (simp add: read_member_def member_text_def member_of_def m del: read_value.simps)
qed

lemma member_text_hd: "\<exists>t. member_text m = CHR '','' # t"
  by (simp add: member_text_def)

lemma after_member: "concat (map member_text ms) @ sp @ CHR ''}'' # r = s \<Longrightarrow> \<forall>c \<in> set sp. json_space c \<Longrightarrow> \<not> atom_char (hd s)"
proof (cases ms)
  case (Cons m ms')
  assume "concat (map member_text ms) @ sp @ CHR ''}'' # r = s"
  then show ?thesis
    using member_text_hd[of m] Cons by auto
next
  case Nil
  assume "concat (map member_text ms) @ sp @ CHR ''}'' # r = s" "\<forall>c \<in> set sp. json_space c"
  then show ?thesis
    using Nil by (cases sp) (auto simp: atom_char_def)
qed

lemma read_members:
  assumes "\<forall>m \<in> set ms. member_ok (Suc d) m" "length ms < n" "\<forall>c \<in> set sp. json_space c"
  shows "read_rest (read_member (read_value (Suc d))) (CHR ''}'') n (concat (map member_text ms) @ sp @ CHR ''}'' # r)
    = Some (map member_of ms, r)"
  using assms
proof (induction ms arbitrary: n)
  case Nil
  then obtain k where "n = Suc k"
    by (cases n) auto
  then show ?case
    using Nil by (simp add: skip_space_append)
next
  case (Cons m ms)
  then obtain k where n: "n = Suc k"
    by (cases n) auto
  let ?s = "concat (map member_text ms) @ sp @ CHR ''}'' # r"
  obtain t where t: "member_text m = CHR '','' # t"
    using member_text_hd by blast
  have "read_member (read_value (Suc d)) (tl (member_text m) @ ?s) = Some (member_of m, ?s)"
    using Cons.prems(1,3) after_member[OF refl, of sp ms r] by (intro read_member_text) auto
  then show ?case
    using Cons.IH[of k] Cons.prems n t by (simp del: read_value.simps)
qed

lemma reads_object:
  assumes "\<forall>m \<in> set ms. member_ok (Suc d) m" "ms \<noteq> []" "\<forall>c \<in> set sp. json_space c"
  shows "reads (Suc (Suc d)) (CHR ''{'' # tl (concat (map member_text ms)) @ sp @ ''}'') (J_object (map member_of ms))"
  unfolding reads_def
proof (intro allI impI)
  fix r :: string
  obtain m ms' where ms: "ms = m # ms'"
    using assms(2) by (cases ms) auto
  let ?s = "concat (map member_text ms') @ sp @ CHR ''}'' # r"
  let ?t = "tl (member_text m) @ ?s"
  have first: "read_member (read_value (Suc d)) ?t = Some (member_of m, ?s)"
    using assms(1,3) after_member[OF refl, of sp ms' r] ms by (intro read_member_text) auto
  have "length (concat (map member_text xs)) \<ge> length xs" for xs
    by (induction xs) (auto simp: member_text_def)
  from this[of ms'] have "length ms' < length ?t"
    by simp
  then have rest: "read_rest (read_member (read_value (Suc d))) (CHR ''}'') (length ?t) ?s = Some (map member_of ms', r)"
    using assms(1,3) ms by (intro read_members) auto
  have "skip_space ?t = CHR 0x22 # tl (skip_space ?t)"
    by (simp add: member_text_def)
  from read_itemsI[OF this _ first rest]
  have "read_items (read_member (read_value (Suc d))) (CHR ''}'') ?t = Some (map member_of ms, r)"
    by (simp add: ms)
  moreover have "tl (concat (map member_text ms)) = tl (member_text m) @ concat (map member_text ms')"
    using member_text_hd[of m] by (auto simp: ms)
  ultimately show "read_value (Suc (Suc d)) ((CHR ''{'' # tl (concat (map member_text ms)) @ sp @ ''}'') @ r)
      = Some (J_object (map member_of ms), r)"
    by (simp add: read_value.simps(2)[of "Suc d"] del: read_value.simps)
qed

text \<open>Items on lines of their own, with a blank or a comma before them.\<close>

definition item_lines :: "string list \<Rightarrow> string" where
  "item_lines ts = concat (map (\<lambda>t. CHR '','' # t @ [CHR 0x0A]) ts)"

lemma item_lines_simps [simp]:
  "item_lines [] = []" "item_lines (t # ts) = CHR '','' # t @ CHR 0x0A # item_lines ts"
  by (simp_all add: item_lines_def)

lemma read_rest_space: "json_space c \<Longrightarrow> read_rest p close n (c # s) = read_rest p close n s"
  by (cases n) simp_all

lemma read_item_lines:
  assumes "list_all2 (reads d) ts vs" "length ts < n"
  shows "read_rest (read_value d) (CHR '']'') n (item_lines ts @ CHR '']'' # r) = Some (vs, r)"
  using assms
proof (induction ts arbitrary: vs n)
  case Nil
  then show ?case
    by (cases n) auto
next
  case (Cons t ts)
  then obtain v vs' k where v: "vs = v # vs'" "reads d t v" "list_all2 (reads d) ts vs'" "n = Suc k"
    by (cases n) (auto simp: list_all2_Cons1)
  have "read_value d (t @ CHR 0x0A # item_lines ts @ CHR '']'' # r) = Some (v, CHR 0x0A # item_lines ts @ CHR '']'' # r)"
    using readsD[OF v(2), of "CHR 0x0A # item_lines ts @ CHR '']'' # r"] by simp
  then show ?case
    using Cons.IH[OF v(3), of k] Cons.prems(2) v(1,4) by (simp add: read_rest_space)
qed

lemma reads_array:
  assumes "list_all2 (reads (Suc d)) ts vs" "\<forall>t \<in> set ts. t \<noteq> [] \<and> \<not> json_space (hd t) \<and> hd t \<noteq> CHR '']''"
  shows "reads (Suc (Suc d)) (CHR ''['' # CHR 0x0A # (if ts = [] then [] else CHR '' '' # tl (item_lines ts)) @ '']'') (J_array vs)"
  unfolding reads_def
proof (intro allI impI)
  fix r :: string
  show "read_value (Suc (Suc d)) ((CHR ''['' # CHR 0x0A # (if ts = [] then [] else CHR '' '' # tl (item_lines ts)) @ '']'') @ r)
      = Some (J_array vs, r)"
  proof (cases ts)
    case Nil
    then show ?thesis
      using assms(1) by (simp add: read_items_def read_value.simps(2)[of "Suc d"] del: read_value.simps)
  next
    case (Cons t ts')
    then obtain v vs' where v: "vs = v # vs'" "reads (Suc d) t v" "list_all2 (reads (Suc d)) ts' vs'"
      using assms(1) by (auto simp: list_all2_Cons1)
    let ?s = "CHR 0x0A # item_lines ts' @ CHR '']'' # r"
    let ?t = "CHR 0x0A # CHR '' '' # t @ ?s"
    have "reads (Suc d) (CHR 0x0A # CHR '' '' # t) v"
      using v(2) by (simp add: reads_space)
    then have first: "read_value (Suc d) ?t = Some (v, ?s)"
      using readsD[of "Suc d" "CHR 0x0A # CHR '' '' # t" v ?s] by simp
    have "length ts' \<le> length (item_lines ts')"
      by (induction ts') auto
    then have "length ts' < length ?t"
      by simp
    then have rest: "read_rest (read_value (Suc d)) (CHR '']'') (length ?t) ?s = Some (vs', r)"
      by (subst read_rest_space) (simp, rule read_item_lines[OF v(3)])
    have "t \<noteq> [] \<and> \<not> json_space (hd t) \<and> hd t \<noteq> CHR '']''"
      using assms(2) Cons by simp
    then have "skip_space ?t = hd t # tl t @ ?s" "hd t \<noteq> CHR '']''"
      by (cases t; simp)+
    from read_itemsI[OF this first rest] have "read_items (read_value (Suc d)) (CHR '']'') ?t = Some (vs, r)"
      by (simp add: v(1))
    then show ?thesis
      using Cons by (simp add: read_value.simps(2)[of "Suc d"] del: read_value.simps)
  qed
qed

end
