(* ===== verification/Event_Tracer.thy ===== *)
theory Event_Tracer
  imports Json_Reader "HOL-Library.Word"
begin

text \<open>
  \<open>rtc_base/event_tracer.cc\<close>: the hooks for tracing, and the internal tracer, which collects events from any
  thread and writes them to a file from a thread of its own.
\<close>

section \<open>The hooks\<close>

text \<open>The two function pointers of \<open>SetupEventTracer\<close>; the tracer's state is what the second one changes.\<close>

definition EventTracer_GetCategoryEnabled :: "(string \<Rightarrow> string) option \<Rightarrow> string \<Rightarrow> string" where
  "EventTracer_GetCategoryEnabled g_get_category_enabled_ptr name =
     (case g_get_category_enabled_ptr of None \<Rightarrow> [CHR 0x00] | Some f \<Rightarrow> f name)"

definition EventTracer_AddTraceEvent :: "('e \<Rightarrow> 's \<Rightarrow> 's) option \<Rightarrow> 'e \<Rightarrow> 's \<Rightarrow> 's" where
  "EventTracer_AddTraceEvent g_add_trace_event_ptr e s = (case g_add_trace_event_ptr of None \<Rightarrow> s | Some f \<Rightarrow> f e s)"

text \<open>C strings are the characters from a pointer on, with the terminating null character.  Reading past the
  end of the memory has no result.\<close>

definition NUL :: char where "NUL = CHR 0x00"

definition kDisabledTracePrefix :: string where
  "kDisabledTracePrefix = ''disabled-by-default-'' @ [NUL]"

fun skip_common :: "string \<Rightarrow> string \<Rightarrow> string checked" where
  "skip_common (p # ps) (n # ns) = (if p = n \<and> p \<noteq> NUL then skip_common ps ns else Some (p # ps))"
| "skip_common _ _ = None"

definition InternalGetCategoryEnabled :: "string \<Rightarrow> string checked" where
  "InternalGetCategoryEnabled name = do {
     rest \<leftarrow> skip_common kDisabledTracePrefix name;
     Some (if hd rest = NUL then [NUL] else name)
   }"

definition InternalEnableAllCategories :: "string \<Rightarrow> string checked" where
  "InternalEnableAllCategories name = Some name"

section \<open>Events\<close>

datatype trace_value =
    as_bool bool
  | as_uint nat
  | as_int int
  | as_double "64 word"
  | as_pointer nat
  | as_string string
  | as_copy_string string
  | as_other

record trace_arg =
  arg_name :: string
  arg_value :: trace_value

record trace_event =
  event_name :: string
  category_enabled :: string
  event_phase :: char
  event_args :: "trace_arg list"
  event_timestamp :: nat
  event_pid :: int
  event_tid :: int

definition kTraceArgBufferLength :: nat where "kTraceArgBufferLength = 32"

text \<open>The loop over a string of \<open>TraceArgValueAsString\<close> looks at a character before it tests for the end.\<close>

definition escape_char :: "char \<Rightarrow> string" where
  "escape_char c = (if c = CHR 0x22 \<or> c = CHR 0x5C then [CHR 0x5C, c] else [c])"

fun escape_loop :: "string \<Rightarrow> string checked" where
  "escape_loop [] = None"
| "escape_loop [c] = None"
| "escape_loop (c # d # cs) =
     (if d = NUL then Some (escape_char c) else map_option (\<lambda>r. escape_char c @ r) (escape_loop (d # cs)))"

text \<open>\<open>print_double\<close> and \<open>print_pointer\<close> are what the C library prints for \<open>%f\<close> and for \<open>%p\<close>.\<close>

record c_printing =
  print_double :: "64 word \<Rightarrow> string"
  print_pointer :: "nat \<Rightarrow> string"

definition snprintf_arg :: "string \<Rightarrow> string" where
  "snprintf_arg printed =
     (let print_length = length printed;
          output = take (kTraceArgBufferLength - 1) printed;
          output_length = (if print_length < kTraceArgBufferLength then print_length else kTraceArgBufferLength - 1)
      in take output_length output)"

definition TraceArgValueAsString :: "c_printing \<Rightarrow> trace_value \<Rightarrow> string checked" where
  "TraceArgValueAsString c v = (case v of
       as_string s \<Rightarrow> map_option (\<lambda>r. CHR 0x22 # r @ [CHR 0x22]) (escape_loop s)
     | as_copy_string s \<Rightarrow> map_option (\<lambda>r. CHR 0x22 # r @ [CHR 0x22]) (escape_loop s)
     | as_bool b \<Rightarrow> Some (if b then ''true'' else ''false'')
     | as_uint n \<Rightarrow> Some (snprintf_arg (nat_string n))
     | as_int i \<Rightarrow> Some (snprintf_arg (int_string i))
     | as_double d \<Rightarrow> Some (snprintf_arg (print_double c d))
     | as_pointer p \<Rightarrow> Some (snprintf_arg (CHR 0x22 # print_pointer c p @ [CHR 0x22]))
     | as_other \<Rightarrow> Some [])"

text \<open>\<open>EventLogger::AddTraceEvent\<close> copies the strings that are temporary.\<close>

definition copy_arg :: "trace_arg \<Rightarrow> trace_arg" where
  "copy_arg a = (case arg_value a of
     as_copy_string s \<Rightarrow> (let str_length = length (takeWhile (\<lambda>c. c \<noteq> NUL) s) + 1
       in a\<lparr>arg_value := as_copy_string (take str_length s)\<rparr>)
   | _ \<Rightarrow> a)"

definition copy_event :: "trace_event \<Rightarrow> trace_event" where
  "copy_event e = e\<lparr>event_args := map copy_arg (event_args e), event_pid := 1\<rparr>"

text \<open>What \<open>Log\<close> writes for an event.\<close>

fun print_args :: "c_printing \<Rightarrow> bool \<Rightarrow> trace_arg list \<Rightarrow> string checked" where
  "print_args c is_first_argument [] = Some []"
| "print_args c is_first_argument (a # as) = do {
     v \<leftarrow> TraceArgValueAsString c (arg_value a);
     rest \<leftarrow> print_args c False as;
     Some ((if is_first_argument then [] else '','') @ '' \"'' @ arg_name a @ ''\": '' @ v @ rest)
   }"

definition args_str :: "c_printing \<Rightarrow> trace_arg list \<Rightarrow> string checked" where
  "args_str c as = (if as = [] then Some []
     else map_option (\<lambda>r. '', \"args\": {'' @ r @ '' }'') (print_args c True as))"

definition print_event :: "c_printing \<Rightarrow> bool \<Rightarrow> trace_event \<Rightarrow> string checked" where
  "print_event c has_logged_event e = do {
     as \<leftarrow> args_str c (event_args e);
     Some ((if has_logged_event then '','' else '' '') @ ''{ \"name\": \"'' @ event_name e
       @ ''\", \"cat\": \"'' @ category_enabled e @ ''\", \"ph\": \"'' @ [event_phase e]
       @ ''\", \"ts\": '' @ nat_string (event_timestamp e) @ '', \"pid\": '' @ int_string (event_pid e)
       @ '', \"tid\": '' @ int_string (event_tid e) @ as @ ''}'' @ [CHR 0x0A])
   }"

fun print_events :: "c_printing \<Rightarrow> bool \<Rightarrow> trace_event list \<Rightarrow> string checked" where
  "print_events c has_logged_event [] = Some []"
| "print_events c has_logged_event (e # es) = do {
     l \<leftarrow> print_event c has_logged_event e;
     ls \<leftarrow> print_events c True es;
     Some (l @ ls)
   }"

definition log_header :: string where
  "log_header = ''{ \"traceEvents\": ['' @ [CHR 0x0A]"

definition log_footer :: string where
  "log_footer = '']}'' @ [CHR 0x0A]"

section \<open>EventLogger\<close>

text \<open>The logging thread: before the header, waiting, after a wait (which told whether to shut down), done.\<close>

datatype log_phase =
    Log_begin
  | Log_wait (has_logged: bool)
  | Log_woken (has_logged: bool) bool
  | Log_done

text \<open>The logger and the globals: whether events are collected, whether there is a logger, its queue, event,
  thread and file (the text written so far), the files it is done with and whether it closed them, and the
  events of callers that have passed the test of \<open>g_event_logging_active\<close> and not yet the queue.  The last two
  fields record what has been put into the queue and what has been written since the last \<open>Start\<close>.\<close>

record tracer =
  event_logging_active :: bool
  event_logger :: bool
  trace_events :: "trace_event list"
  shutdown_event :: bool
  logging_thread :: "log_phase option"
  output_file :: "string option"
  output_file_owned :: bool
  done_files :: "(string \<times> bool) list"
  in_flight :: "trace_event list"
  queued :: "trace_event list"
  logged :: "trace_event list"

definition push_event :: "trace_event \<Rightarrow> tracer \<Rightarrow> tracer" where
  "push_event e s = s\<lparr>trace_events := trace_events s @ [copy_event e], queued := queued s @ [copy_event e]\<rparr>"

text \<open>\<open>InternalAddTraceEvent\<close> up to the test, and the whole of it for the logger's own events.\<close>

definition InternalAddTraceEvent_test :: "trace_event \<Rightarrow> tracer \<Rightarrow> tracer" where
  "InternalAddTraceEvent_test e s = (if \<not> event_logging_active s then s else s\<lparr>in_flight := in_flight s @ [e]\<rparr>)"

definition add_own_event :: "trace_event option \<Rightarrow> tracer \<Rightarrow> tracer" where
  "add_own_event e s = (case e of None \<Rightarrow> s | Some e \<Rightarrow> if \<not> event_logging_active s then s else push_event e s)"

text \<open>The thread can be joined, or assigned to, when it is done.\<close>

definition thread_over :: "tracer \<Rightarrow> bool" where
  "thread_over s \<longleftrightarrow> logging_thread s = None \<or> logging_thread s = Some Log_done"

definition EventLogger_Start :: "bool \<Rightarrow> trace_event option \<Rightarrow> tracer \<Rightarrow> tracer checked" where
  "EventLogger_Start owned start_event s = do {
     rtc_check (output_file s = None);
     let s = s\<lparr>output_file := Some [], output_file_owned := owned, trace_events := [], queued := [], logged := []\<rparr>;
     rtc_check (\<not> event_logging_active s);
     let s = s\<lparr>event_logging_active := True\<rparr>;
     rtc_check (thread_over s);
     let s = s\<lparr>logging_thread := Some Log_begin\<rparr>;
     Some (add_own_event start_event s)
   }"

definition EventLogger_Stop :: "trace_event option \<Rightarrow> tracer \<Rightarrow> tracer" where
  "EventLogger_Stop stop_event s =
     (let s = add_own_event stop_event s
      in if event_logging_active s then s\<lparr>event_logging_active := False\<rparr>
         else s\<lparr>shutdown_event := True\<rparr>)"

definition logger_init :: tracer where
  "logger_init = \<lparr>event_logging_active = False, event_logger = False, trace_events = [], shutdown_event = False,
     logging_thread = None, output_file = None, output_file_owned = False, done_files = [], in_flight = [],
     queued = [], logged = []\<rparr>"

definition SetupInternalTracer :: "tracer \<Rightarrow> tracer checked" where
  "SetupInternalTracer s = do {
     rtc_check (\<not> event_logger s);
     Some (s\<lparr>event_logger := True, trace_events := [], shutdown_event := False, logging_thread := None,
       output_file := None, output_file_owned := False, queued := [], logged := []\<rparr>)
   }"

definition StartInternalCapture :: "bool \<Rightarrow> trace_event option \<Rightarrow> tracer \<Rightarrow> (bool \<times> tracer) checked" where
  "StartInternalCapture opened start_event s =
     (if \<not> event_logger s \<or> \<not> opened then Some (False, s)
      else map_option (Pair True) (EventLogger_Start True start_event s))"

definition StartInternalCaptureToFile :: "trace_event option \<Rightarrow> tracer \<Rightarrow> tracer checked" where
  "StartInternalCaptureToFile start_event s =
     (if \<not> event_logger s then Some s else EventLogger_Start False start_event s)"

definition StopInternalCapture :: "trace_event option \<Rightarrow> tracer \<Rightarrow> tracer" where
  "StopInternalCapture stop_event s = (if \<not> event_logger s then s else EventLogger_Stop stop_event s)"

text \<open>\<open>ShutdownInternalTracer\<close> deletes the logger, whose destructor waits for the thread.\<close>

definition ShutdownInternalTracer :: "trace_event option \<Rightarrow> tracer \<Rightarrow> tracer checked" where
  "ShutdownInternalTracer stop_event s = do {
     let s = StopInternalCapture stop_event s;
     rtc_check (event_logger s);
     rtc_check (thread_over s);
     Some (s\<lparr>event_logger := False, logging_thread := None\<rparr>)
   }"

section \<open>The logging thread\<close>

definition Log_enter :: "tracer \<Rightarrow> tracer checked" where
  "Log_enter s = (case (logging_thread s, output_file s) of
     (Some Log_begin, Some out) \<Rightarrow> Some (s\<lparr>logging_thread := Some (Log_wait False), output_file := Some (out @ log_header)\<rparr>)
   | _ \<Rightarrow> None)"

text \<open>\<open>shutdown_event_\<close> resets itself when a wait sees it; else the wait returns after 100 ms.\<close>

definition Log_waited :: "tracer \<Rightarrow> tracer checked" where
  "Log_waited s = (case logging_thread s of
     Some (Log_wait h) \<Rightarrow> Some (s\<lparr>logging_thread := Some (Log_woken h (shutdown_event s)), shutdown_event := False\<rparr>)
   | _ \<Rightarrow> None)"

definition Log_write :: "c_printing \<Rightarrow> tracer \<Rightarrow> tracer checked" where
  "Log_write c s = (case (logging_thread s, output_file s) of
     (Some (Log_woken h shutting_down), Some out) \<Rightarrow> do {
       let events = trace_events s;
       lines \<leftarrow> print_events c h events;
       let h = (h \<or> events \<noteq> []);
       let s = s\<lparr>trace_events := [], logged := logged s @ events\<rparr>;
       Some (if shutting_down
         then s\<lparr>logging_thread := Some Log_done, output_file := None,
           done_files := (out @ lines @ log_footer, output_file_owned s) # done_files s\<rparr>
         else s\<lparr>logging_thread := Some (Log_wait h), output_file := Some (out @ lines)\<rparr>)
     }
   | _ \<Rightarrow> None)"

section \<open>Runs\<close>

datatype tr_event =
    Tr_setup
  | Tr_start bool "trace_event option"
  | Tr_stop "trace_event option"
  | Tr_join
  | Tr_shutdown "trace_event option"
  | Tr_test trace_event
  | Tr_push
  | Tr_enter
  | Tr_wait
  | Tr_write

fun tr_do :: "c_printing \<Rightarrow> tr_event \<Rightarrow> tracer \<Rightarrow> tracer checked" where
  "tr_do c Tr_setup s = SetupInternalTracer s"
| "tr_do c (Tr_start owned e) s = (if owned then map_option snd (StartInternalCapture True e s) else StartInternalCaptureToFile e s)"
| "tr_do c (Tr_stop e) s = Some (StopInternalCapture e s)"
| "tr_do c Tr_join s = (if logging_thread s = Some Log_done then Some (s\<lparr>logging_thread := None\<rparr>) else None)"
| "tr_do c (Tr_shutdown e) s = ShutdownInternalTracer e s"
| "tr_do c (Tr_test e) s = Some (InternalAddTraceEvent_test e s)"
| "tr_do c Tr_push s = (case in_flight s of [] \<Rightarrow> None
     | e # es \<Rightarrow> if \<not> event_logger s then None else Some (push_event e (s\<lparr>in_flight := es\<rparr>)))"
| "tr_do c Tr_enter s = Log_enter s"
| "tr_do c Tr_wait s = Log_waited s"
| "tr_do c Tr_write s = Log_write c s"

fun tr_all :: "c_printing \<Rightarrow> tr_event list \<Rightarrow> tracer \<Rightarrow> tracer checked" where
  "tr_all c [] s = Some s"
| "tr_all c (e # es) s = Option.bind (tr_do c e s) (tr_all c es)"

section \<open>What the file holds\<close>














section \<open>Reading the file back\<close>








lemma escape_loop_string:
  "s \<noteq> [] \<Longrightarrow> NUL \<notin> set s \<Longrightarrow> escape_loop (s @ NUL # mem) = Some (concat (map escape_char s))"
proof (induction s)
  case (Cons c s)
  then show ?case by (cases s) auto
qed simp














subsection \<open>Events\<close>







definition plain_printing :: c_printing where
  "plain_printing = \<lparr>print_double = (\<lambda>_. ''0.000000''), print_pointer = (\<lambda>_. ''0x0'')\<rparr>"

definition sample_event :: trace_event where
  "sample_event = \<lparr>event_name = ''step'', category_enabled = ''webrtc'', event_phase = CHR ''I'',
     event_args = [\<lparr>arg_name = ''n'', arg_value = as_uint 7\<rparr>], event_timestamp = 5, event_pid = 1, event_tid = 2\<rparr>"



text \<open>The reader is one that minds: without a comma, or with an item missing, there is no list.\<close>

lemma reader_minds_commas:
  "read_json ''[1,2]'' = Some (J_array [J_atom ''1'', J_atom ''2''])"
  "read_json ''[1 2]'' = None" "read_json ''[1,]'' = None" "read_json ''{\"a\" 1}'' = None" "read_json ''{\"a\": 1} 2'' = None"
  by code_simp+


section \<open>Stopping\<close>

text \<open>\<open>Stop\<close> of a capture that is running does not stop it: the branch that wakes and joins the thread is taken
  exactly when no capture is running.  The thread is not told to finish, the file gets no footer, and the next
  \<open>Start\<close> fails its check, as does a shutdown wait for ever.\<close>

lemma Stop_of_running_capture:
  assumes "event_logger s" "event_logging_active s"
  shows "StopInternalCapture e s = (add_own_event e s)\<lparr>event_logging_active := False\<rparr>"
  using assms by (simp add: StopInternalCapture_def EventLogger_Stop_def add_own_event_def push_event_def Let_def split: option.splits)

fun lets_run :: "tr_event \<Rightarrow> bool" where
  "lets_run (Tr_test e) = True"
| "lets_run Tr_push = True"
| "lets_run Tr_enter = True"
| "lets_run Tr_wait = True"
| "lets_run Tr_write = True"
| "lets_run ev = False"

text \<open>The thread is somewhere in its loop and will not leave it.\<close>

definition runs_on :: "tracer \<Rightarrow> bool" where
  "runs_on s \<longleftrightarrow> \<not> shutdown_event s \<and>
     (\<exists>p. logging_thread s = Some p \<and> p \<noteq> Log_done \<and> (\<forall>h. p \<noteq> Log_woken h True))"

lemma runs_on_step:
  assumes "runs_on s" "lets_run ev" "tr_do c ev s = Some s'"
  shows "runs_on s' \<and> done_files s' = done_files s"
  using assms
  by (cases ev)
    (auto simp: push_event_def InternalAddTraceEvent_test_def Log_enter_def Log_waited_def Log_write_def runs_on_def Let_def
      checked_simps split: option.splits log_phase.splits list.splits if_splits)

lemma runs_on_all:
  "runs_on s \<Longrightarrow> list_all lets_run evs \<Longrightarrow> tr_all c evs s = Some s' \<Longrightarrow> runs_on s' \<and> done_files s' = done_files s"
proof (induction evs arbitrary: s)
  case (Cons ev evs)
  then obtain t where t: "tr_do c ev s = Some t" "tr_all c evs t = Some s'" by (auto simp: checked_simps)
  with runs_on_step[OF Cons.prems(1) _ t(1)] Cons.IH[of t] Cons.prems(2) show ?case by simp
qed simp

text \<open>C37: the first \<open>StopInternalCapture\<close> of a capture does not stop it: whatever the threads do until the next
  call, the logging thread is not done and the file gets no footer.\<close>

theorem stopped_capture_runs_on:
  assumes "event_logger s" "event_logging_active s" "runs_on s"
    "list_all lets_run evs" "tr_all c evs (StopInternalCapture e s) = Some s'"
  shows "\<not> thread_over s' \<and> done_files s' = done_files s"
proof -
  have same: "done_files (StopInternalCapture e s) = done_files s"
    unfolding Stop_of_running_capture[OF assms(1,2)] by (simp add: add_own_event_def push_event_def split: option.splits)
  have "runs_on (StopInternalCapture e s)"
    unfolding Stop_of_running_capture[OF assms(1,2)] using assms(3)
    by (auto simp: add_own_event_def push_event_def runs_on_def split: option.splits)
  from runs_on_all[OF this assms(4,5)] same show ?thesis by (auto simp: runs_on_def thread_over_def)
qed

definition running_capture :: tracer where
  "running_capture = the (tr_all plain_printing [Tr_setup, Tr_start True None, Tr_enter] logger_init)"

lemma running_capture_runs:
  "event_logger running_capture" "event_logging_active running_capture"
  "logging_thread running_capture = Some (Log_wait False)" "\<not> shutdown_event running_capture"
  "map_option done_files (tr_all plain_printing [Tr_wait, Tr_write] (StopInternalCapture None running_capture)) = Some []"
  by code_simp+

theorem stopped_capture_runs_on_witness:
  "\<exists>s. tr_all plain_printing [Tr_wait, Tr_write] (StopInternalCapture None running_capture) = Some s \<and> \<not> thread_over s"
proof -
  from running_capture_runs(5) obtain s where s: "tr_all plain_printing [Tr_wait, Tr_write] (StopInternalCapture None running_capture) = Some s"
    by auto
  have "runs_on running_capture" using running_capture_runs by (auto simp: runs_on_def)
  from stopped_capture_runs_on[OF running_capture_runs(1,2) this _ s] s show ?thesis by simp
qed

text \<open>So a shutdown of a running capture waits for ever, and starting again fails the check that there is no file.\<close>

lemma shutdown_of_running_capture: "ShutdownInternalTracer None running_capture = None"
  by code_simp

lemma start_stop_start: "EventLogger_Start True None (StopInternalCapture None running_capture) = None"
  by code_simp

text \<open>A \<open>Stop\<close> with no capture leaves the event set: the thread of the next capture ends at its first wait.\<close>

lemma early_stop_ends_next_capture:
  "map_option (\<lambda>s. (logging_thread s, event_logging_active s)) (tr_all plain_printing
     [Tr_setup, Tr_stop None, Tr_start True None, Tr_enter, Tr_wait, Tr_write] logger_init) = Some (Some Log_done, True)"
  by code_simp

text \<open>An event of a caller that has passed the test before the capture ended is written into the next capture.\<close>

lemma stale_event_is_queued:
  "map_option (\<lambda>s. length (trace_events s)) (tr_all plain_printing
     [Tr_setup, Tr_start True None, Tr_enter, Tr_test sample_event, Tr_stop None, Tr_stop None, Tr_wait, Tr_write, Tr_join,
      Tr_start True None, Tr_push] logger_init) = Some 1"
  by code_simp

section \<open>Strings and categories\<close>

text \<open>A string that is not empty is written with its quotes and backslashes escaped, and can be read back.\<close>

fun unescape :: "string \<Rightarrow> string" where
  "unescape [] = []"
| "unescape [c] = [c]"
| "unescape (c # d # cs) = (if c = CHR 0x5C then d # unescape cs else c # unescape (d # cs))"

lemma unescape_escape_char: "unescape (escape_char c @ r) = c # unescape r"
  by (cases r) (auto simp: escape_char_def)

lemma unescape_escape: "unescape (concat (map escape_char s)) = s"
  by (induction s) (simp_all add: unescape_escape_char)

lemma trace_strings_round_trip:
  assumes "s \<noteq> []" "NUL \<notin> set s"
  shows "map_option (\<lambda>t. unescape (butlast (tl t))) (TraceArgValueAsString c (as_string (s @ NUL # mem))) = Some s"
  using escape_loop_string[OF assms] by (simp add: TraceArgValueAsString_def unescape_escape butlast_append)

text \<open>An empty string is read past its end: the copy of one has no more memory, and what follows a constant is
  written into the file.\<close>

lemma empty_string_reads_on:
  "TraceArgValueAsString c (arg_value (copy_arg \<lparr>arg_name = n, arg_value = as_copy_string (NUL # mem)\<rparr>)) = None"
  "escape_loop (NUL # ''secret'' @ [NUL]) = Some (NUL # ''secret'')"
  by (simp_all add: copy_arg_def TraceArgValueAsString_def NUL_def escape_char_def)

lemma skip_common_prefix:
  assumes "NUL \<notin> set ps" "NUL \<notin> set ns"
  shows "\<exists>rest. skip_common (ps @ [NUL]) (ns @ NUL # mem) = Some rest \<and> rest \<noteq> [] \<and>
    (hd rest = NUL \<longleftrightarrow> take (length ps) ns = ps)"
  using assms
proof (induction ps arbitrary: ns)
  case Nil
  then show ?case by (cases ns) auto
next
  case (Cons p ps)
  show ?case
  proof (cases ns)
    case Nil
    with Cons.prems show ?thesis by auto
  next
    case (Cons n ns')
    with Cons.IH[of ns'] Cons.prems show ?thesis by auto
  qed
qed

text \<open>A category is disabled exactly if its name begins with the prefix.\<close>

lemma category_disabled_iff_prefix:
  assumes "NUL \<notin> set name"
  shows "InternalGetCategoryEnabled (name @ [NUL]) =
    Some (if take (length ''disabled-by-default-'') name = ''disabled-by-default-'' then [NUL] else name @ [NUL])"
proof -
  define prefix where "prefix = ''disabled-by-default-''"
  have "NUL \<notin> set prefix" by (simp add: NUL_def prefix_def)
  from skip_common_prefix[OF this assms, of "[]"] show ?thesis
    unfolding InternalGetCategoryEnabled_def kDisabledTracePrefix_def prefix_def[symmetric] by auto
qed

end
