(* ===== verification/Task_Queue_Gcd.thy ===== *)
theory Task_Queue_Gcd
  imports Units "HOL-Library.Multiset" "HOL-Library.Word"
begin

text \<open>
  \<open>rtc_base/task_queue_gcd.cc\<close>: the task queue over a serial dispatch queue of the Mac, and
  \<open>CurrentTaskQueueSetter\<close> of \<open>api/task_queue/task_queue_base.cc\<close>.  The dispatch queue itself is the system's:
  it runs its blocks one at a time in the order they were put in, puts a delayed block in when its time has
  come, and calls the finalizer when it is released and neither holds nor runs a block.
\<close>

section \<open>The current task queue\<close>

definition CurrentTaskQueueSetter :: "'q option \<Rightarrow> 'q option \<Rightarrow> 'q option \<times> 'q option" where
  "CurrentTaskQueueSetter task_queue current_queue = (let previous = current_queue in (previous, task_queue))"

definition CurrentTaskQueueSetter_destroy :: "'q option \<Rightarrow> 'q option \<Rightarrow> 'q option" where
  "CurrentTaskQueueSetter_destroy previous current_queue = previous"

definition IsCurrent :: "'q \<Rightarrow> 'q option \<Rightarrow> bool" where
  "IsCurrent q current_queue \<longleftrightarrow> current_queue = Some q"

section \<open>The queue\<close>

datatype gcd_priority = DISPATCH_QUEUE_PRIORITY_DEFAULT | DISPATCH_QUEUE_PRIORITY_HIGH | DISPATCH_QUEUE_PRIORITY_LOW

datatype queue_priority = NORMAL | HIGH | LOW

primrec TaskQueuePriorityToGCD :: "queue_priority \<Rightarrow> gcd_priority" where
  "TaskQueuePriorityToGCD NORMAL = DISPATCH_QUEUE_PRIORITY_DEFAULT"
| "TaskQueuePriorityToGCD HIGH = DISPATCH_QUEUE_PRIORITY_HIGH"
| "TaskQueuePriorityToGCD LOW = DISPATCH_QUEUE_PRIORITY_LOW"

datatype 'a gcd_block = Run_task 'a | Not_active

datatype delete_phase = Not_called | In_dispatch_sync | After_sync | Delete_returned

text \<open>The object and its dispatch queue (the blocks it holds, the delayed ones with their time in nanoseconds,
  whether it was released, whether the object was deleted), the task that runs, and where \<open>Delete\<close> is.  The
  rest records what was put in and what became of it.\<close>

record 'a gcd_sys =
  is_active :: bool
  dispatch_blocks :: "'a gcd_block list"
  dispatch_timers :: "(int \<times> 'a) list"
  dispatch_released :: bool
  object_deleted :: bool
  running_task :: "'a option"
  deleting :: delete_phase
  posted_tasks :: "'a multiset"
  dispatched :: "'a list"
  taken :: "'a list"
  ran :: "'a list"
  dropped :: "'a list"

definition TaskQueueGcd :: "'a gcd_sys" where
  "TaskQueueGcd = \<lparr>is_active = True, dispatch_blocks = [], dispatch_timers = [], dispatch_released = False,
     object_deleted = False, running_task = None, deleting = Not_called, posted_tasks = {#}, dispatched = [],
     taken = [], ran = [], dropped = []\<rparr>"

text \<open>\<open>dispatch_async_f\<close> of a task.\<close>

definition dispatch_async :: "'a \<Rightarrow> 'a gcd_sys \<Rightarrow> 'a gcd_sys" where
  "dispatch_async a s = s\<lparr>dispatch_blocks := dispatch_blocks s @ [Run_task a], dispatched := dispatched s @ [a]\<rparr>"

definition Gcd_PostTask :: "'a \<Rightarrow> 'a gcd_sys \<Rightarrow> 'a gcd_sys" where
  "Gcd_PostTask a s = dispatch_async a (s\<lparr>posted_tasks := add_mset a (posted_tasks s)\<rparr>)"

text \<open>The delay goes to \<open>dispatch_time\<close>, an \<open>int64_t\<close>, after a multiplication by an \<open>unsigned long long\<close>.\<close>

definition delay_nanos :: "TimeDelta \<Rightarrow> int checked" where
  "delay_nanos delay = do {
     us \<leftarrow> td_us delay;
     Some (sint (word_of_int (us * 1000) :: 64 word))
   }"

definition Gcd_PostDelayedTask :: "int \<Rightarrow> 'a \<Rightarrow> TimeDelta \<Rightarrow> 'a gcd_sys \<Rightarrow> 'a gcd_sys checked" where
  "Gcd_PostDelayedTask now a delay s = do {
     ns \<leftarrow> delay_nanos delay;
     Some (s\<lparr>dispatch_timers := dispatch_timers s @ [(now + ns, a)], posted_tasks := add_mset a (posted_tasks s)\<rparr>)
   }"

definition Gcd_PostDelayedHighPrecisionTask :: "int \<Rightarrow> 'a \<Rightarrow> TimeDelta \<Rightarrow> 'a gcd_sys \<Rightarrow> 'a gcd_sys checked" where
  "Gcd_PostDelayedHighPrecisionTask now a delay s = Gcd_PostDelayedTask now a delay s"

text \<open>\<open>RunTask\<close>: the test and, when it holds, the task, whose end comes later.\<close>

definition RunTask :: "'a \<Rightarrow> 'a gcd_sys \<Rightarrow> 'a gcd_sys checked" where
  "RunTask a s = do {
     rtc_check (\<not> object_deleted s);
     Some (if \<not> is_active s then s\<lparr>dropped := dropped s @ [a]\<rparr> else s\<lparr>running_task := Some a\<rparr>)
   }"

definition RunTask_end :: "'a gcd_sys \<Rightarrow> 'a gcd_sys" where
  "RunTask_end s = (case running_task s of None \<Rightarrow> s | Some a \<Rightarrow> s\<lparr>running_task := None, ran := ran s @ [a]\<rparr>)"

definition SetNotActive :: "'a gcd_sys \<Rightarrow> 'a gcd_sys" where
  "SetNotActive s = s\<lparr>is_active := False\<rparr>"

text \<open>\<open>Delete\<close>: its check and the block it waits for, and what it does after that.\<close>

definition Gcd_Delete_sync :: "bool \<Rightarrow> 'a gcd_sys \<Rightarrow> 'a gcd_sys checked" where
  "Gcd_Delete_sync is_current s = do {
     rtc_check (\<not> is_current);
     Some (s\<lparr>dispatch_blocks := dispatch_blocks s @ [Not_active], deleting := In_dispatch_sync\<rparr>)
   }"

definition Gcd_Delete_release :: "'a gcd_sys \<Rightarrow> 'a gcd_sys" where
  "Gcd_Delete_release s = s\<lparr>dispatch_released := True, deleting := Delete_returned\<rparr>"

definition DeleteQueue :: "'a gcd_sys \<Rightarrow> 'a gcd_sys" where
  "DeleteQueue s = s\<lparr>object_deleted := True\<rparr>"

section \<open>Threads\<close>

text \<open>Tasks are posted by code that may use the queue: before \<open>Delete\<close> returns, or by a task that runs on it.\<close>

definition may_post :: "'a gcd_sys \<Rightarrow> bool" where
  "may_post s \<longleftrightarrow> deleting s = Not_called \<or> running_task s \<noteq> None"

inductive gcd_step :: "int \<Rightarrow> 'a gcd_sys \<Rightarrow> 'a gcd_sys \<Rightarrow> bool" for now where
  g_post: "may_post s \<Longrightarrow> gcd_step now s (Gcd_PostTask a s)"
| g_post_delayed: "may_post s \<Longrightarrow> Gcd_PostDelayedTask now a delay s = Some s' \<Longrightarrow> gcd_step now s s'"
| g_timer: "dispatch_timers s = ts @ (t, a) # ts' \<Longrightarrow> t \<le> now \<Longrightarrow>
    gcd_step now s (dispatch_async a (s\<lparr>dispatch_timers := ts @ ts'\<rparr>))"
| g_run: "running_task s = None \<Longrightarrow> dispatch_blocks s = Run_task a # bs \<Longrightarrow>
    RunTask a (s\<lparr>dispatch_blocks := bs, taken := taken s @ [a]\<rparr>) = Some s' \<Longrightarrow> gcd_step now s s'"
| g_end: "running_task s \<noteq> None \<Longrightarrow> gcd_step now s (RunTask_end s)"
| g_not_active: "running_task s = None \<Longrightarrow> dispatch_blocks s = Not_active # bs \<Longrightarrow>
    gcd_step now s (SetNotActive (s\<lparr>dispatch_blocks := bs, deleting := After_sync\<rparr>))"
| g_delete: "deleting s = Not_called \<Longrightarrow> Gcd_Delete_sync is_current s = Some s' \<Longrightarrow> gcd_step now s s'"
| g_release: "deleting s = After_sync \<Longrightarrow> gcd_step now s (Gcd_Delete_release s)"
| g_finalize: "dispatch_released s \<Longrightarrow> dispatch_blocks s = [] \<Longrightarrow> dispatch_timers s = [] \<Longrightarrow> running_task s = None \<Longrightarrow>
    gcd_step now s (DeleteQueue s)"

inductive gcd_reach :: "int \<Rightarrow> 'a gcd_sys \<Rightarrow> bool" where
  gcd_new: "gcd_reach now TaskQueueGcd"
| gcd_next: "gcd_reach now s \<Longrightarrow> gcd_step now s s' \<Longrightarrow> gcd_reach now s'"
| gcd_time: "gcd_reach now s \<Longrightarrow> now \<le> now' \<Longrightarrow> gcd_reach now' s"

fun block_tasks :: "'a gcd_block list \<Rightarrow> 'a list" where
  "block_tasks [] = []"
| "block_tasks (Run_task a # bs) = a # block_tasks bs"
| "block_tasks (Not_active # bs) = block_tasks bs"

lemma block_tasks_append [simp]: "block_tasks (xs @ ys) = block_tasks xs @ block_tasks ys"
  by (induction xs rule: block_tasks.induct) auto

primrec opt_list :: "'a option \<Rightarrow> 'a list" where
  "opt_list None = []"
| "opt_list (Some a) = [a]"

abbreviation running_list :: "'a gcd_sys \<Rightarrow> 'a list" where
  "running_list s \<equiv> opt_list (running_task s)"

definition gcd_inv :: "'a gcd_sys \<Rightarrow> bool" where
  "gcd_inv s \<longleftrightarrow>
     dispatched s = taken s @ block_tasks (dispatch_blocks s)
     \<and> posted_tasks s = mset (map snd (dispatch_timers s)) + mset (dispatched s)
     \<and> taken s = ran s @ running_list s @ dropped s
     \<and> (is_active s \<longrightarrow> dropped s = [])
     \<and> (is_active s \<longleftrightarrow> deleting s = Not_called \<or> deleting s = In_dispatch_sync)
     \<and> (\<not> is_active s \<longrightarrow> running_task s = None)
     \<and> filter (\<lambda>b. b = Not_active) (dispatch_blocks s) = (if deleting s = In_dispatch_sync then [Not_active] else [])
     \<and> (dispatch_released s \<longleftrightarrow> deleting s = Delete_returned)
     \<and> (object_deleted s \<longrightarrow> dispatch_released s \<and> dispatch_blocks s = [] \<and> dispatch_timers s = [] \<and> running_task s = None)"

lemmas gcd_ops = Gcd_PostTask_def Gcd_PostDelayedTask_def dispatch_async_def RunTask_def RunTask_end_def SetNotActive_def
  Gcd_Delete_sync_def Gcd_Delete_release_def DeleteQueue_def may_post_def

lemma gcd_inv_step:
  assumes "gcd_step now s s'" "gcd_inv s"
  shows "gcd_inv s'"
  using assms(1)
proof cases
  case (g_post a)
  with assms(2) show ?thesis unfolding g_post(1) gcd_inv_def by (auto simp: gcd_ops)
next
  case (g_post_delayed a delay)
  then obtain ns where s': "s' = s\<lparr>dispatch_timers := dispatch_timers s @ [(now + ns, a)], posted_tasks := add_mset a (posted_tasks s)\<rparr>"
    by (auto simp: Gcd_PostDelayedTask_def checked_simps)
  from assms(2) g_post_delayed(1) show ?thesis unfolding s' gcd_inv_def by (auto simp: may_post_def)
next
  case (g_timer ts t a ts')
  with assms(2) show ?thesis unfolding g_timer(1) gcd_inv_def by (auto simp: dispatch_async_def)
next
  case (g_run a bs)
  note inv = assms(2)[unfolded gcd_inv_def g_run(1,2), simplified]
  show ?thesis
  proof (cases "is_active s")
    case True
    with g_run(3) have "s' = s\<lparr>dispatch_blocks := bs, taken := taken s @ [a], running_task := Some a\<rparr>"
      by (simp add: RunTask_def checked_simps split: if_splits)
    with True inv show ?thesis by (simp add: gcd_inv_def)
  next
    case False
    with g_run(3) have "s' = s\<lparr>dispatch_blocks := bs, taken := taken s @ [a], dropped := dropped s @ [a]\<rparr>"
      by (simp add: RunTask_def checked_simps split: if_splits)
    with False inv g_run(1) show ?thesis by (simp add: gcd_inv_def)
  qed
next
  case g_end
  then obtain a where "running_task s = Some a" by auto
  with assms(2) show ?thesis unfolding g_end(1) gcd_inv_def by (simp add: RunTask_end_def)
next
  case (g_not_active bs)
  note inv = assms(2)[unfolded gcd_inv_def g_not_active(2,3), simplified]
  from inv show ?thesis unfolding g_not_active(1) gcd_inv_def by (simp add: SetNotActive_def g_not_active(2) split: if_splits)
next
  case (g_delete is_current)
  then have "s' = s\<lparr>dispatch_blocks := dispatch_blocks s @ [Not_active], deleting := In_dispatch_sync\<rparr>"
    by (simp add: Gcd_Delete_sync_def checked_simps split: if_splits)
  with assms(2) g_delete(1) show ?thesis by (auto simp: gcd_inv_def)
next
  case g_release
  with assms(2) show ?thesis unfolding g_release(1) gcd_inv_def by (simp add: Gcd_Delete_release_def)
next
  case g_finalize
  with assms(2) show ?thesis unfolding g_finalize(1) gcd_inv_def by (simp add: DeleteQueue_def)
qed

lemma gcd_inv_reach: "gcd_reach now s \<Longrightarrow> gcd_inv s"
proof (induction rule: gcd_reach.induct)
  case (gcd_new now)
  then show ?case by (simp add: gcd_inv_def TaskQueueGcd_def)
qed (auto intro: gcd_inv_step)

text \<open>Once \<open>Delete\<close> has returned nothing runs any more.\<close>

lemma gcd_quiet_step:
  assumes "gcd_step now s s'" "gcd_inv s" "deleting s = Delete_returned"
  shows "ran s' = ran s"
proof -
  from assms(2,3) have quiet: "\<not> is_active s" "running_task s = None" "Not_active \<notin> set (dispatch_blocks s)" "\<not> may_post s"
    by (auto simp: gcd_inv_def may_post_def filter_empty_conv)
  from assms(1) quiet show ?thesis
    by cases (auto simp: dispatch_async_def RunTask_def DeleteQueue_def SetNotActive_def Gcd_Delete_release_def Gcd_Delete_sync_def checked_simps
        split: if_splits)
qed

text \<open>C38: the dispatch queue runs tasks in the order they were dispatched, those posted without a delay in the
  order of posting; every task that was posted is waiting for its time, waiting in the queue, running, has run,
  or was dropped because the queue was deleted, and only one of these; when \<open>Delete\<close> has returned no task runs
  or starts; and the object is deleted only when no block that uses it is left.\<close>

theorem gcd_tasks_accounted:
  assumes "gcd_reach now s"
  shows "dispatched s = ran s @ running_list s @ dropped s @ block_tasks (dispatch_blocks s)
    \<and> posted_tasks s = mset (map snd (dispatch_timers s)) + mset (dispatched s)
    \<and> (dropped s \<noteq> [] \<longrightarrow> deleting s \<noteq> Not_called)
    \<and> (deleting s = Delete_returned \<longrightarrow> running_task s = None \<and> (\<forall>s'. gcd_step now s s' \<longrightarrow> ran s' = ran s))
    \<and> (object_deleted s \<longrightarrow> dispatch_blocks s = [] \<and> dispatch_timers s = [] \<and> running_task s = None)"
  using gcd_inv_reach[OF assms] gcd_quiet_step[of now s] by (auto simp: gcd_inv_def)

definition deleted_with_task :: "nat gcd_sys" where
  "deleted_with_task = TaskQueueGcd\<lparr>is_active := False, dispatch_released := True, deleting := Delete_returned,
     posted_tasks := {#1, 2#}, dispatched := [1, 2], taken := [1, 2], ran := [1], dropped := [2]\<rparr>"

lemma deleted_with_task_reachable: "gcd_reach 0 deleted_with_task"
proof -
  let ?s1 = "Gcd_PostTask 1 (TaskQueueGcd :: nat gcd_sys)"
  let ?s2 = "the (RunTask 1 (?s1\<lparr>dispatch_blocks := [], taken := [1]\<rparr>))"
  let ?s3 = "the (Gcd_Delete_sync False ?s2)"
  let ?s4 = "RunTask_end (Gcd_PostTask 2 ?s3)"
  let ?s5 = "SetNotActive (?s4\<lparr>dispatch_blocks := [Run_task 2], deleting := After_sync\<rparr>)"
  let ?s6 = "the (RunTask 2 (?s5\<lparr>dispatch_blocks := [], taken := [1, 2]\<rparr>))"
  have "gcd_reach 0 ?s1" by (intro gcd_next[OF gcd_new] g_post) (simp add: may_post_def TaskQueueGcd_def)
  then have "gcd_reach 0 ?s2"
    by (rule gcd_next) (rule g_run[of _ 1 "[]"], simp_all add: gcd_ops TaskQueueGcd_def)
  then have "gcd_reach 0 ?s3"
    by (rule gcd_next) (rule g_delete[of _ False], simp_all add: gcd_ops TaskQueueGcd_def)
  then have "gcd_reach 0 (Gcd_PostTask 2 ?s3)"
    by (rule gcd_next) (rule g_post, simp add: gcd_ops TaskQueueGcd_def)
  then have "gcd_reach 0 ?s4"
    by (rule gcd_next) (rule g_end, simp add: gcd_ops TaskQueueGcd_def)
  then have "gcd_reach 0 ?s5"
    by (rule gcd_next) (rule g_not_active, simp_all add: gcd_ops TaskQueueGcd_def)
  then have "gcd_reach 0 ?s6"
    by (rule gcd_next) (rule g_run[of _ 2 "[]"], simp_all add: gcd_ops TaskQueueGcd_def)
  then have "gcd_reach 0 (Gcd_Delete_release ?s6)"
    by (rule gcd_next) (rule g_release, simp add: gcd_ops TaskQueueGcd_def)
  moreover have "Gcd_Delete_release ?s6 = deleted_with_task"
    by (simp add: gcd_ops TaskQueueGcd_def deleted_with_task_def)
  ultimately show ?thesis by simp
qed

theorem gcd_tasks_accounted_witness:
  "dispatched deleted_with_task = ran deleted_with_task @ dropped deleted_with_task \<and> running_task deleted_with_task = None"
  using gcd_tasks_accounted[OF deleted_with_task_reachable] by (simp add: deleted_with_task_def TaskQueueGcd_def)

text \<open>A delay the clock can count is kept; one of more than 292 years wraps around.\<close>

lemma delay_nanos_value:
  assumes "IsFinite delay" "0 \<le> unit_value delay" "unit_value delay \<le> 9223372036854775"
  shows "delay_nanos delay = Some (unit_value delay * 1000)"
proof -
  have "in_i64 (unit_value delay * 1000)" using assms(2,3) by (simp add: int_ranges)
  from sint_narrow_i64[OF this] show ?thesis using assms(1) by (simp add: delay_nanos_def td_us_def ToValue_def)
qed

lemma delay_nanos_wraps: "delay_nanos (Unit_T 9223372036854776) = Some (- 9223372036854775616)"
  by (simp add: delay_nanos_def td_us_def ToValue_def IsFinite_def IsInfinite_def i64_max_def i64_min_def)

end
