(* ===== verification/Critical_Section.thy ===== *)
theory Critical_Section
  imports TQ_Prelude
begin

text \<open>
  \<open>rtc_base/deprecated/recursive_critical_section.cc\<close>, the lock built from an atomic counter and a semaphore
  (\<open>RTC_USE_NATIVE_MUTEX_ON_MAC\<close> off): the threads' calls of \<open>Enter\<close>, \<open>TryEnter\<close> and \<open>Leave\<close>, interleaved
  between any two accesses to the counter \<open>lock_queue_\<close>, to the semaphore, and to \<open>recursion_\<close> after the
  counter has been given up.  What a thread does to the other fields while it holds the lock is one step:
  only the owner writes them, and the others read none of them but \<open>owning_thread_\<close>, to compare it with
  themselves, which comes out the same before and after.  \<open>lock_queue_\<close>, \<open>recursion_\<close> and
  \<open>recursion_count_\<close> are \<open>int\<close> in the code; here they are integers without bound, which is the same for
  fewer than \<open>2 ^ 31\<close> entries under way.
\<close>

section \<open>The lock\<close>

text \<open>Where a thread is: outside, in the loop of \<open>Enter\<close> with the spins it has left (before reading, and after it
  has read a free lock), before the increment, waiting for the semaphore, holding the lock and about to note that,
  in \<open>TryEnter\<close> before its compare-and-swap, in \<open>Leave\<close> before the decrement and after it.\<close>

datatype cs_pc =
    Outside
  | Spinning nat
  | Swapping nat
  | Incrementing
  | Waiting
  | Acquired
  | Trying
  | Leaving
  | Decremented int

text \<open>\<open>lock_queue_\<close>, \<open>owning_thread_\<close>, \<open>recursion_\<close>, the semaphore and the two fields for checks; the place
  of each thread and how often it has entered without leaving, and whether a check has failed.\<close>

record crit_section =
  lock_queue :: int
  owning_thread :: "nat option"
  recursion :: int
  semaphore :: nat
  debug_thread :: "nat option"
  recursion_count :: int
  place :: "nat \<Rightarrow> cs_pc"
  depth :: "nat \<Rightarrow> nat"
  check_failed :: bool

definition RecursiveCriticalSection :: crit_section where
  "RecursiveCriticalSection = \<lparr>lock_queue = 0, owning_thread = None, recursion = 0, semaphore = 0,
     debug_thread = None, recursion_count = 0, place = (\<lambda>_. Outside), depth = (\<lambda>_. 0), check_failed = False\<rparr>"

definition go :: "nat \<Rightarrow> cs_pc \<Rightarrow> crit_section \<Rightarrow> crit_section" where
  "go t p s = s\<lparr>place := (place s)(t := p)\<rparr>"

definition cs_check :: "bool \<Rightarrow> crit_section \<Rightarrow> crit_section" where
  "cs_check b s = s\<lparr>check_failed := check_failed s \<or> \<not> b\<rparr>"

definition CurrentThreadIsOwner :: "nat \<Rightarrow> crit_section \<Rightarrow> bool" where
  "CurrentThreadIsOwner self s \<longleftrightarrow> debug_thread s = Some self"

text \<open>\<open>Enter\<close>: the loop, which reads the owner and then the counter, and the compare-and-swap.\<close>

definition next_spin :: "nat \<Rightarrow> cs_pc" where
  "next_spin spin = (if spin - 1 = 0 then Incrementing else Spinning (spin - 1))"

definition Enter_spin :: "nat \<Rightarrow> nat \<Rightarrow> crit_section \<Rightarrow> crit_section" where
  "Enter_spin self spin s =
     (if owning_thread s \<noteq> Some self
      then (if lock_queue s = 0 then go self (Swapping spin) s else go self (next_spin spin) s)
      else go self Acquired (s\<lparr>lock_queue := lock_queue s + 1\<rparr>))"

definition Enter_swap :: "nat \<Rightarrow> nat \<Rightarrow> crit_section \<Rightarrow> crit_section" where
  "Enter_swap self spin s =
     (if lock_queue s = 0 then go self Acquired (s\<lparr>lock_queue := 1\<rparr>) else go self (next_spin spin) s)"

definition Enter_increment :: "nat \<Rightarrow> crit_section \<Rightarrow> crit_section" where
  "Enter_increment self s =
     (let s = s\<lparr>lock_queue := lock_queue s + 1\<rparr>
      in if lock_queue s > 1 then go self Waiting (cs_check (owning_thread s \<noteq> Some self) s) else go self Acquired s)"

definition Enter_wait :: "nat \<Rightarrow> crit_section \<Rightarrow> crit_section option" where
  "Enter_wait self s =
     (if semaphore s = 0 then None
      else Some (go self Acquired (cs_check (owning_thread s = None \<and> recursion s = 0) (s\<lparr>semaphore := semaphore s - 1\<rparr>))))"

text \<open>The end of \<open>Enter\<close> and \<open>TryEnter\<close>.\<close>

definition note_entered :: "nat \<Rightarrow> crit_section \<Rightarrow> crit_section" where
  "note_entered self s =
     (let s = s\<lparr>owning_thread := Some self, recursion := recursion s + 1\<rparr>;
          s = (if recursion_count s = 0 then (cs_check (debug_thread s = None) s)\<lparr>debug_thread := Some self\<rparr>
               else cs_check (CurrentThreadIsOwner self s) s)
      in go self Outside (s\<lparr>recursion_count := recursion_count s + 1, depth := (depth s)(self := depth s self + 1)\<rparr>))"

definition TryEnter_read :: "nat \<Rightarrow> crit_section \<Rightarrow> crit_section" where
  "TryEnter_read self s =
     (if owning_thread s \<noteq> Some self then go self Trying s
      else go self Acquired (s\<lparr>lock_queue := lock_queue s + 1\<rparr>))"

definition TryEnter_swap :: "nat \<Rightarrow> crit_section \<Rightarrow> crit_section" where
  "TryEnter_swap self s =
     (if lock_queue s \<noteq> 0 then go self Outside s
      else go self Acquired (cs_check (recursion s = 0) (s\<lparr>lock_queue := 1\<rparr>)))"

text \<open>\<open>Leave\<close>: up to the decrement, the decrement, and the test of \<open>recursion_\<close> after it.\<close>

definition Leave_recursion :: "nat \<Rightarrow> crit_section \<Rightarrow> crit_section" where
  "Leave_recursion self s =
     (let s = cs_check (CurrentThreadIsOwner self s) s;
          s = s\<lparr>recursion_count := recursion_count s - 1\<rparr>;
          s = cs_check (0 \<le> recursion_count s) s;
          s = (if recursion_count s = 0 then s\<lparr>debug_thread := None\<rparr> else s);
          s = cs_check (owning_thread s = Some self \<and> 0 \<le> recursion s) s;
          s = s\<lparr>recursion := recursion s - 1\<rparr>;
          s = (if recursion s = 0 then s\<lparr>owning_thread := None\<rparr> else s)
      in go self Leaving (s\<lparr>depth := (depth s)(self := depth s self - 1)\<rparr>))"

definition Leave_decrement :: "nat \<Rightarrow> crit_section \<Rightarrow> crit_section" where
  "Leave_decrement self s =
     (let s = s\<lparr>lock_queue := lock_queue s - 1\<rparr> in go self (Decremented (lock_queue s)) s)"

definition Leave_signal :: "nat \<Rightarrow> int \<Rightarrow> crit_section \<Rightarrow> crit_section" where
  "Leave_signal self n s =
     go self Outside (if 0 < n \<and> recursion s = 0 then s\<lparr>semaphore := semaphore s + 1\<rparr> else s)"

section \<open>Threads\<close>

datatype cs_call = Call_Enter | Call_TryEnter | Call_Leave | Go_on

text \<open>A thread outside calls an operation, \<open>Leave\<close> only when it has entered; inside, it goes on.\<close>

fun cs_do :: "nat \<Rightarrow> cs_call \<Rightarrow> crit_section \<Rightarrow> crit_section option" where
  "cs_do t Call_Enter s = (if place s t = Outside then Some (go t (Spinning 3000) s) else None)"
| "cs_do t Call_TryEnter s = (if place s t = Outside then Some (TryEnter_read t s) else None)"
| "cs_do t Call_Leave s = (if place s t = Outside \<and> 0 < depth s t then Some (Leave_recursion t s) else None)"
| "cs_do t Go_on s = (case place s t of
      Outside \<Rightarrow> None
    | Spinning k \<Rightarrow> Some (Enter_spin t k s)
    | Swapping k \<Rightarrow> Some (Enter_swap t k s)
    | Incrementing \<Rightarrow> Some (Enter_increment t s)
    | Waiting \<Rightarrow> Enter_wait t s
    | Acquired \<Rightarrow> Some (note_entered t s)
    | Trying \<Rightarrow> Some (TryEnter_swap t s)
    | Leaving \<Rightarrow> Some (Leave_decrement t s)
    | Decremented n \<Rightarrow> Some (Leave_signal t n s))"

fun cs_run :: "(nat \<times> cs_call) list \<Rightarrow> crit_section \<Rightarrow> crit_section option" where
  "cs_run [] s = Some s"
| "cs_run ((t, c) # cs) s = Option.bind (cs_do t c s) (cs_run cs)"

section \<open>Mutual exclusion\<close>

text \<open>What a thread adds to the counter, and whether it has the right to the lock.\<close>

definition queued_for :: "crit_section \<Rightarrow> nat \<Rightarrow> nat" where
  "queued_for s t = depth s t + (if place s t \<in> {Acquired, Waiting, Leaving} then 1 else 0)"

definition has_right :: "crit_section \<Rightarrow> nat \<Rightarrow> nat" where
  "has_right s t = (if 0 < depth s t \<or> place s t \<in> {Acquired, Leaving} \<or> (\<exists>n > 0. place s t = Decremented n) then 1 else 0)"

primrec depth_of :: "(nat \<Rightarrow> nat) \<Rightarrow> nat option \<Rightarrow> int" where
  "depth_of d None = 0"
| "depth_of d (Some t) = int (d t)"

fun contends :: "cs_pc \<Rightarrow> bool" where
  "contends (Swapping k) = True"
| "contends Incrementing = True"
| "contends Waiting = True"
| "contends Trying = True"
| "contends _ = False"

text \<open>With the threads below \<open>m\<close>: the counter is the sum of what they add; when it is not zero, one thread or one
  signal of the semaphore has the right to the lock, and else none; the other fields tell who has entered.\<close>

definition cs_inv :: "nat \<Rightarrow> crit_section \<Rightarrow> bool" where
  "cs_inv m s \<longleftrightarrow>
     lock_queue s = int (\<Sum>t<m. queued_for s t)
     \<and> (\<Sum>t<m. has_right s t) + semaphore s = (if lock_queue s = 0 then 0 else 1)
     \<and> (\<forall>t. owning_thread s = Some t \<longleftrightarrow> 0 < depth s t)
     \<and> (\<forall>t \<ge> m. depth s t = 0 \<and> place s t = Outside)
     \<and> recursion s = depth_of (depth s) (owning_thread s)
     \<and> debug_thread s = owning_thread s \<and> recursion_count s = recursion s
     \<and> (\<forall>t n. place s t = Decremented n \<longrightarrow> 0 \<le> n)
     \<and> (\<forall>t. contends (place s t) \<longrightarrow> depth s t = 0)
     \<and> \<not> check_failed s"

lemma cs_inv_init: "cs_inv m RecursiveCriticalSection"
  by (simp add: cs_inv_def RecursiveCriticalSection_def queued_for_def has_right_def)

lemma sum_change:
  assumes "t < (m::nat)" "\<And>x. x \<noteq> t \<Longrightarrow> f x = g x"
  shows "(\<Sum>x<m. f x) + g t = (\<Sum>x<m. g x) + (f t :: nat)"
proof -
  have "(\<Sum>x<m. f x) = f t + (\<Sum>x \<in> {..<m} - {t}. f x)" "(\<Sum>x<m. g x) = g t + (\<Sum>x \<in> {..<m} - {t}. g x)"
    using assms(1) by (simp_all add: sum.remove)
  moreover have "(\<Sum>x \<in> {..<m} - {t}. f x) = (\<Sum>x \<in> {..<m} - {t}. g x)" using assms(2) by (intro sum.cong) auto
  ultimately show ?thesis by simp
qed

lemma le_sum: "t < (m::nat) \<Longrightarrow> f t \<le> (\<Sum>x<m. (f x :: nat))"
  by (intro member_le_sum) auto

lemma cs_inv_sums:
  assumes "cs_inv m s"
  shows "lock_queue s = int (\<Sum>t<m. queued_for s t)"
    "(\<Sum>t<m. has_right s t) + semaphore s = (if lock_queue s = 0 then 0 else 1)"
  using assms unfolding cs_inv_def by blast+

text \<open>What the invariant says of a thread with the right to the lock: there is no other.\<close>

lemma only_right:
  assumes inv: "cs_inv m s" and t: "t < m" and right: "has_right s t = 1"
  shows "semaphore s = 0 \<and> lock_queue s \<noteq> 0 \<and> (\<forall>u. u \<noteq> t \<longrightarrow> has_right s u = 0 \<and> depth s u = 0)"
proof -
  have sum: "(\<Sum>t<m. has_right s t) + semaphore s = (if lock_queue s = 0 then 0 else 1)"
    using inv by (simp add: cs_inv_def)
  have one: "1 \<le> (\<Sum>t<m. has_right s t)" using le_sum[OF t, of "has_right s"] right by simp
  have other: "has_right s u = 0" if "u \<noteq> t" for u
  proof (cases "u < m")
    case True
    with t that have "has_right s t + has_right s u \<le> (\<Sum>x \<in> {t, u}. has_right s x)" by simp
    also have "\<dots> \<le> (\<Sum>x<m. has_right s x)" using t True by (intro sum_mono2) auto
    finally show ?thesis using sum right by (simp split: if_splits)
  next
    case False
    with inv show ?thesis by (simp add: cs_inv_def has_right_def)
  qed
  have "depth s u = 0" if "u \<noteq> t" for u using other[OF that] by (simp add: has_right_def split: if_splits)
  with sum one other show ?thesis by (auto split: if_splits)
qed

lemma no_right:
  assumes inv: "cs_inv m s" and "semaphore s \<noteq> 0 \<or> lock_queue s = 0"
  shows "(\<forall>u. has_right s u = 0 \<and> depth s u = 0) \<and> owning_thread s = None \<and> recursion s = 0"
proof -
  have "(\<Sum>t<m. has_right s t) = 0" using cs_inv_sums(2)[OF inv] assms(2) by (simp split: if_splits del: sum_eq_0_iff)
  then have "\<forall>u \<in> {..<m}. has_right s u = 0" by (simp add: sum_eq_0_iff)
  moreover have "has_right s u = 0" if "m \<le> u" for u using inv that by (simp add: cs_inv_def has_right_def)
  ultimately have none: "has_right s u = 0" for u by (meson lessThan_iff not_le)
  have d: "depth s u = 0" for u using none[of u] by (simp add: has_right_def split: if_splits)
  moreover have "owning_thread s = None" using inv d by (cases "owning_thread s") (auto simp: cs_inv_def)
  ultimately show ?thesis using inv none by (simp add: cs_inv_def)
qed

lemma free_lock:
  assumes inv: "cs_inv m s" and "lock_queue s = 0"
  shows "lock_queue s = 0" "semaphore s = 0" "depth s u = 0" "owning_thread s = None" "recursion s = 0"
    "debug_thread s = None" "recursion_count s = 0" "\<not> check_failed s"
  using no_right[OF inv] cs_inv_sums(2)[OF inv] inv assms(2) by (auto simp: cs_inv_def)

lemma signalled_lock:
  assumes inv: "cs_inv m s" and "semaphore s \<noteq> 0"
  shows "lock_queue s \<noteq> 0" "semaphore s = 1" "depth s u = 0" "owning_thread s = None" "recursion s = 0"
    "debug_thread s = None" "recursion_count s = 0" "\<not> check_failed s"
proof -
  show "lock_queue s \<noteq> 0" "semaphore s = 1" using cs_inv_sums(2)[OF inv] assms(2) by (auto split: if_splits)
qed (use no_right[OF inv] inv assms(2) in \<open>auto simp: cs_inv_def\<close>)

text \<open>A step of one thread keeps the sums if it keeps its own shares.\<close>

lemma cs_inv_step:
  assumes inv: "cs_inv m s" and t: "t < m"
    and other: "\<And>u. u \<noteq> t \<Longrightarrow> place s' u = place s u \<and> depth s' u = depth s u"
    and queue: "lock_queue s' + int (queued_for s t) = lock_queue s + int (queued_for s' t)"
    and right: "has_right s' t + semaphore s' + (if lock_queue s = 0 then 0 else 1)
      = has_right s t + semaphore s + (if lock_queue s' = 0 then 0 else 1)"
    and fields: "\<And>u. owning_thread s' = Some u \<longleftrightarrow> 0 < depth s' u"
      "recursion s' = depth_of (depth s') (owning_thread s')"
      "debug_thread s' = owning_thread s'" "recursion_count s' = recursion s'" "\<not> check_failed s'"
      "\<And>n. place s' t = Decremented n \<Longrightarrow> 0 \<le> n" "contends (place s' t) \<Longrightarrow> depth s' t = 0"
  shows "cs_inv m s'"
proof -
  have q: "queued_for s' u = queued_for s u" "has_right s' u = has_right s u" if "u \<noteq> t" for u
    using other[OF that] by (simp_all add: queued_for_def has_right_def)
  have "(\<Sum>x<m. queued_for s' x) + queued_for s t = (\<Sum>x<m. queued_for s x) + queued_for s' t"
    using sum_change[OF t q(1)] .
  then have "int (\<Sum>x<m. queued_for s' x) + int (queued_for s t) = int (\<Sum>x<m. queued_for s x) + int (queued_for s' t)"
    by (simp only: of_nat_add[symmetric])
  then have "lock_queue s' = int (\<Sum>x<m. queued_for s' x)"
    using queue cs_inv_sums(1)[OF inv] by linarith
  moreover have "(\<Sum>x<m. has_right s' x) + has_right s t = (\<Sum>x<m. has_right s x) + has_right s' t"
    using sum_change[OF t q(2)] .
  then have "(\<Sum>x<m. has_right s' x) + semaphore s' = (if lock_queue s' = 0 then 0 else 1)"
    using cs_inv_sums(2)[OF inv] right by linarith
  moreover have "\<forall>u \<ge> m. depth s' u = 0 \<and> place s' u = Outside"
    using inv other t by (auto simp: cs_inv_def)
  moreover have "\<forall>u n. place s' u = Decremented n \<longrightarrow> 0 \<le> n"
    using inv other fields(6) by (metis (no_types, lifting) cs_inv_def)
  moreover have "\<forall>u. contends (place s' u) \<longrightarrow> depth s' u = 0"
    using inv other fields(7) by (metis (no_types, lifting) cs_inv_def)
  ultimately show ?thesis using fields by (simp add: cs_inv_def)
qed

lemma go_simps [simp]:
  "lock_queue (go t p s) = lock_queue s" "owning_thread (go t p s) = owning_thread s" "recursion (go t p s) = recursion s"
  "semaphore (go t p s) = semaphore s" "debug_thread (go t p s) = debug_thread s"
  "recursion_count (go t p s) = recursion_count s" "place (go t p s) = (place s)(t := p)" "depth (go t p s) = depth s"
  "check_failed (go t p s) = check_failed s"
  by (simp_all add: go_def)

lemma cs_check_simps [simp]:
  "lock_queue (cs_check b s) = lock_queue s" "owning_thread (cs_check b s) = owning_thread s"
  "recursion (cs_check b s) = recursion s" "semaphore (cs_check b s) = semaphore s"
  "debug_thread (cs_check b s) = debug_thread s" "recursion_count (cs_check b s) = recursion_count s"
  "place (cs_check b s) = place s" "depth (cs_check b s) = depth s"
  "check_failed (cs_check b s) = (check_failed s \<or> \<not> b)"
  by (simp_all add: cs_check_def)

lemma cs_inv_fields:
  assumes "cs_inv m s"
  shows "owning_thread s = Some u \<longleftrightarrow> 0 < depth s u"
    "recursion s = depth_of (depth s) (owning_thread s)"
    "debug_thread s = owning_thread s" "recursion_count s = recursion s" "\<not> check_failed s"
    "place s u = Decremented n \<Longrightarrow> 0 \<le> n" "contends (place s u) \<Longrightarrow> depth s u = 0"
    "0 \<le> lock_queue s" "u \<ge> m \<Longrightarrow> place s u = Outside \<and> depth s u = 0"
  using assms by (simp_all add: cs_inv_def sum_nonneg)

lemma has_right_le: "has_right s t \<le> 1"
  by (simp add: has_right_def)

text \<open>The steps.\<close>

lemma Enter_spin_inv:
  assumes inv: "cs_inv m s" and t: "t < m" and pc: "place s t = Spinning k"
  shows "cs_inv m (Enter_spin t k s)"
proof (cases "owning_thread s = Some t")
  case True
  then have d: "0 < depth s t" using cs_inv_fields(1)[OF inv] by simp
  then have "has_right s t = 1" by (simp add: has_right_def)
  from only_right[OF inv t this] d True pc show ?thesis
    by (intro cs_inv_step[OF inv t])
      (use cs_inv_fields[OF inv] in \<open>auto simp: Enter_spin_def queued_for_def has_right_def\<close>)
next
  case False
  then have d: "depth s t = 0" using cs_inv_fields(1)[OF inv, of t] by simp
  show ?thesis
    by (intro cs_inv_step[OF inv t])
      (use cs_inv_fields[OF inv] False d pc in \<open>auto simp: Enter_spin_def next_spin_def queued_for_def has_right_def split: if_splits\<close>)
qed

lemma Enter_swap_inv:
  assumes inv: "cs_inv m s" and t: "t < m" and pc: "place s t = Swapping k"
  shows "cs_inv m (Enter_swap t k s)"
proof -
  have d: "depth s t = 0" using cs_inv_fields(7)[OF inv, of t] pc by simp
  show ?thesis
  proof (cases "lock_queue s = 0")
    case True
    then have eq: "Enter_swap t k s = go t Acquired (s\<lparr>lock_queue := 1\<rparr>)" by (simp add: Enter_swap_def)
    show ?thesis unfolding eq
      by (intro cs_inv_step[OF inv t]) (use free_lock[OF inv True] d pc in \<open>auto simp: queued_for_def has_right_def\<close>)
  next
    case False
    then have eq: "Enter_swap t k s = go t (next_spin k) s" by (simp add: Enter_swap_def)
    show ?thesis unfolding eq
      by (intro cs_inv_step[OF inv t])
        (use cs_inv_fields[OF inv] d pc in \<open>auto simp: next_spin_def queued_for_def has_right_def split: if_splits\<close>)
  qed
qed

lemma TryEnter_swap_inv:
  assumes inv: "cs_inv m s" and t: "t < m" and pc: "place s t = Trying"
  shows "cs_inv m (TryEnter_swap t s)"
proof -
  have d: "depth s t = 0" using cs_inv_fields(7)[OF inv, of t] pc by simp
  show ?thesis
  proof (cases "lock_queue s = 0")
    case True
    then have eq: "TryEnter_swap t s = go t Acquired (cs_check (recursion s = 0) (s\<lparr>lock_queue := 1\<rparr>))"
      by (simp add: TryEnter_swap_def)
    show ?thesis unfolding eq
      by (intro cs_inv_step[OF inv t]) (use free_lock[OF inv True] d pc in \<open>auto simp: queued_for_def has_right_def\<close>)
  next
    case False
    then have eq: "TryEnter_swap t s = go t Outside s" by (simp add: TryEnter_swap_def)
    show ?thesis unfolding eq
      by (intro cs_inv_step[OF inv t]) (use cs_inv_fields[OF inv] d pc in \<open>auto simp: queued_for_def has_right_def\<close>)
  qed
qed

lemma TryEnter_read_inv:
  assumes inv: "cs_inv m s" and t: "t < m" and pc: "place s t = Outside"
  shows "cs_inv m (TryEnter_read t s)"
proof (cases "owning_thread s = Some t")
  case True
  then have d: "0 < depth s t" using cs_inv_fields(1)[OF inv] by simp
  then have "has_right s t = 1" by (simp add: has_right_def)
  from only_right[OF inv t this] d True pc show ?thesis
    by (intro cs_inv_step[OF inv t])
      (use cs_inv_fields[OF inv] in \<open>auto simp: TryEnter_read_def queued_for_def has_right_def\<close>)
next
  case False
  then have d: "depth s t = 0" using cs_inv_fields(1)[OF inv, of t] by simp
  show ?thesis
    by (intro cs_inv_step[OF inv t])
      (use cs_inv_fields[OF inv] False d pc in \<open>auto simp: TryEnter_read_def queued_for_def has_right_def\<close>)
qed

lemma Enter_increment_inv:
  assumes inv: "cs_inv m s" and t: "t < m" and pc: "place s t = Incrementing"
  shows "cs_inv m (Enter_increment t s)"
proof -
  have d: "depth s t = 0" using cs_inv_fields(7)[OF inv, of t] pc by simp
  have own: "owning_thread s \<noteq> Some t" using cs_inv_fields(1)[OF inv, of t] d by simp
  show ?thesis
  proof (cases "lock_queue s = 0")
    case True
    then have eq: "Enter_increment t s = go t Acquired (s\<lparr>lock_queue := 1\<rparr>)" by (simp add: Enter_increment_def)
    show ?thesis unfolding eq
      by (intro cs_inv_step[OF inv t]) (use free_lock[OF inv True] d pc in \<open>auto simp: queued_for_def has_right_def\<close>)
  next
    case False
    then have eq: "Enter_increment t s = go t Waiting (cs_check (owning_thread s \<noteq> Some t) (s\<lparr>lock_queue := lock_queue s + 1\<rparr>))"
      using cs_inv_fields(8)[OF inv] by (simp add: Enter_increment_def)
    show ?thesis unfolding eq
      by (intro cs_inv_step[OF inv t])
        (use cs_inv_fields[OF inv] d pc own False in \<open>auto simp: queued_for_def has_right_def\<close>)
  qed
qed

lemma Enter_wait_inv:
  assumes inv: "cs_inv m s" and t: "t < m" and pc: "place s t = Waiting" and step: "Enter_wait t s = Some s'"
  shows "cs_inv m s'"
proof -
  from step have sem: "semaphore s \<noteq> 0" and s': "s' = go t Acquired (cs_check (owning_thread s = None \<and> recursion s = 0)
      (s\<lparr>semaphore := semaphore s - 1\<rparr>))" by (auto simp: Enter_wait_def split: if_splits)
  have d: "depth s t = 0" using cs_inv_fields(7)[OF inv, of t] pc by simp
  show ?thesis unfolding s'
    by (intro cs_inv_step[OF inv t])
      (use signalled_lock[OF inv sem] d pc sem in \<open>auto simp: queued_for_def has_right_def\<close>)
qed

lemma note_entered_inv:
  assumes inv: "cs_inv m s" and t: "t < m" and pc: "place s t = Acquired"
  shows "cs_inv m (note_entered t s)"
proof -
  have "has_right s t = 1" using pc by (simp add: has_right_def)
  note r = only_right[OF inv t this]
  have own: "owning_thread s = (if 0 < depth s t then Some t else None)"
    using r cs_inv_fields(1)[OF inv] by (cases "owning_thread s") (auto, metis less_irrefl)
  show ?thesis
    by (intro cs_inv_step[OF inv t])
      (use cs_inv_fields[OF inv] r pc own in \<open>auto simp: note_entered_def CurrentThreadIsOwner_def queued_for_def has_right_def Let_def\<close>)
qed

lemma Leave_recursion_inv:
  assumes inv: "cs_inv m s" and t: "t < m" and pc: "place s t = Outside" and d: "0 < depth s t"
  shows "cs_inv m (Leave_recursion t s)"
proof -
  have "has_right s t = 1" using d by (simp add: has_right_def)
  note r = only_right[OF inv t this]
  have own: "owning_thread s = Some t" using d cs_inv_fields(1)[OF inv] by simp
  show ?thesis
    by (intro cs_inv_step[OF inv t])
      (use cs_inv_fields[OF inv] r pc own d in \<open>auto simp: Leave_recursion_def CurrentThreadIsOwner_def queued_for_def has_right_def Let_def\<close>)
qed

lemma Leave_decrement_inv:
  assumes inv: "cs_inv m s" and t: "t < m" and pc: "place s t = Leaving"
  shows "cs_inv m (Leave_decrement t s)"
proof -
  have "has_right s t = 1" using pc by (simp add: has_right_def)
  note r = only_right[OF inv t this]
  have "queued_for s t \<le> (\<Sum>x<m. queued_for s x)" using le_sum[OF t] .
  then have "int (queued_for s t) \<le> lock_queue s" using cs_inv_sums(1)[OF inv] by linarith
  then have q: "int (depth s t) + 1 \<le> lock_queue s" using pc by (simp add: queued_for_def)
  show ?thesis
    by (intro cs_inv_step[OF inv t])
      (use cs_inv_fields[OF inv] r pc q in \<open>auto simp: Leave_decrement_def queued_for_def has_right_def Let_def\<close>)
qed

lemma Leave_signal_inv:
  assumes inv: "cs_inv m s" and t: "t < m" and pc: "place s t = Decremented n"
  shows "cs_inv m (Leave_signal t n s)"
proof (cases "0 < n")
  case True
  then have "has_right s t = 1" using pc by (simp add: has_right_def)
  note r = only_right[OF inv t this]
  have "owning_thread s = (if 0 < depth s t then Some t else None)"
    using r cs_inv_fields(1)[OF inv] by (cases "owning_thread s") (auto, metis less_irrefl)
  then show ?thesis
    by (intro cs_inv_step[OF inv t])
      (use cs_inv_fields[OF inv] r pc True in \<open>auto simp: Leave_signal_def queued_for_def has_right_def\<close>)
next
  case False
  with pc show ?thesis
    by (intro cs_inv_step[OF inv t])
      (use cs_inv_fields[OF inv] in \<open>auto simp: Leave_signal_def queued_for_def has_right_def\<close>)
qed

lemma Call_Enter_inv:
  assumes inv: "cs_inv m s" and t: "t < m" and pc: "place s t = Outside"
  shows "cs_inv m (go t (Spinning 3000) s)"
  by (intro cs_inv_step[OF inv t]) (use cs_inv_fields[OF inv] pc in \<open>auto simp: queued_for_def has_right_def\<close>)

lemma cs_do_inv:
  assumes "cs_inv m s" "t < m" "cs_do t c s = Some s'"
  shows "cs_inv m s'"
proof (cases c)
  case Go_on
  with assms show ?thesis
    by (auto split: cs_pc.splits intro: Enter_spin_inv Enter_swap_inv Enter_increment_inv Enter_wait_inv note_entered_inv
        TryEnter_swap_inv Leave_decrement_inv Leave_signal_inv)
qed (use assms in \<open>auto split: if_splits intro: Call_Enter_inv TryEnter_read_inv Leave_recursion_inv\<close>)

lemma cs_run_inv: "cs_inv m s \<Longrightarrow> list_all (\<lambda>(t, c). t < m) cs \<Longrightarrow> cs_run cs s = Some s' \<Longrightarrow> cs_inv m s'"
proof (induction cs arbitrary: s)
  case (Cons x cs)
  obtain t c where x: "x = (t, c)" by force
  with Cons.prems obtain u where "cs_do t c s = Some u" "cs_run cs u = Some s'" by (auto simp: checked_simps)
  with Cons x cs_do_inv[of m s t c u] show ?case by auto
qed simp

text \<open>C39: the recursive lock is exclusive and is always handed on: whatever the threads do, at most one of them
  has entered and not left, \<open>owning_thread_\<close> and \<open>recursion_\<close> tell which and how often, no check fails, and
  when a thread waits for the semaphore, another holds the lock or is about to, or the semaphore is signalled.\<close>

theorem critical_section_exclusive:
  assumes "cs_run cs RecursiveCriticalSection = Some s" "list_all (\<lambda>(t, c). t < m) cs"
  shows "(\<forall>t u. 0 < depth s t \<and> 0 < depth s u \<longrightarrow> t = u)
    \<and> (\<forall>t. owning_thread s = Some t \<longleftrightarrow> 0 < depth s t) \<and> recursion s = depth_of (depth s) (owning_thread s)
    \<and> \<not> check_failed s
    \<and> (\<forall>t. place s t = Waiting \<longrightarrow> semaphore s = 1 \<or> (\<exists>u. has_right s u = 1))"
proof -
  have inv: "cs_inv m s" using cs_run_inv[OF cs_inv_init assms(2,1)] .
  have "semaphore s = 1 \<or> (\<exists>u. has_right s u = 1)" if w: "place s t = Waiting" for t
  proof (rule ccontr)
    assume none: "\<not> ?thesis"
    have t: "t < m" using cs_inv_fields(9)[OF inv, of t] w by (metis cs_pc.distinct(7) not_le)
    have "int (queued_for s t) \<le> lock_queue s" using le_sum[OF t, of "queued_for s"] cs_inv_sums(1)[OF inv] by linarith
    then have "lock_queue s \<noteq> 0" using w by (auto simp: queued_for_def)
    moreover have "has_right s u = 0" for u using none has_right_le[of s u] by (auto simp: le_Suc_eq)
    ultimately show False using cs_inv_sums(2)[OF inv] none by simp
  qed
  then show ?thesis
    using cs_inv_fields[OF inv] by (metis option.inject)
qed

definition contended :: "(nat \<times> cs_call) list" where
  "contended = [(0, Call_TryEnter), (0, Go_on), (0, Go_on), (0, Call_Enter), (0, Go_on), (0, Go_on), (1, Call_TryEnter), (1, Go_on),
     (0, Call_Leave), (0, Go_on), (0, Go_on), (0, Call_Leave), (0, Go_on)]"

lemma contended_result:
  "map_option (\<lambda>s. (depth s 0, depth s 1, lock_queue s, semaphore s, owning_thread s)) (cs_run contended RecursiveCriticalSection)
     = Some (0, 0, 0, 0, None)"
  by code_simp

theorem critical_section_exclusive_witness:
  "\<exists>s. cs_run contended RecursiveCriticalSection = Some s \<and> \<not> check_failed s"
proof -
  from contended_result obtain s where s: "cs_run contended RecursiveCriticalSection = Some s"
    by (cases "cs_run contended RecursiveCriticalSection") auto
  have "list_all (\<lambda>(t, c). t < 2) contended" by (simp add: contended_def)
  from critical_section_exclusive[OF s this] s show ?thesis by blast
qed

end
