(* ===== verification/Spec2Isabelle.thy ===== *)
theory Spec2Isabelle
  imports Stdlib_Worker Blocking_Call Thread_Manager Flat_Map Safe_Numerics Seq_Num Physical_Socket_Server
    Log_Sinks Task_Queue_Libevent Moving_Max Sample_Counters Clock_Time Task_Queue_Win Windows_Version
    Repeating_Task Ref_Ptr Event_Tracer Task_Queue_Gcd Critical_Section
begin

text \<open>
  A verification development for TQLib, the task-queue library extracted from WebRTC (\<open>api\<close>,
  \<open>rtc_base\<close>, \<open>system_wrappers\<close>).

  \<^bold>\<open>The program.\<close>  The library runs tasks on threads of its own.  A task queue takes tasks from any thread, with
  or without a delay, and runs them one at a time; there are four, over the standard library
  (\<open>task_queue_stdlib.cc\<close>), libevent (\<open>task_queue_libevent.cc\<close>), Windows messages (\<open>task_queue_win.cc\<close>) and
  dispatch queues of the Mac (\<open>task_queue_gcd.cc\<close>).  \<open>rtc::Thread\<close> (\<open>thread.cc\<close>) is a message queue with a loop
  that waits in a socket server: the null server waits on an event, the physical one in \<open>epoll\<close>, \<open>poll\<close> or
  \<open>select\<close> on its sockets and a pipe.  A thread can call another and wait for the result; \<open>ThreadManager\<close> keeps
  the graph of these calls.  Around them are time and units (\<open>api/units\<close>, \<open>time_utils.cc\<close>, \<open>clock.cc\<close>), integers
  and wrapping numbers (\<open>numerics\<close>), sorted vectors (\<open>containers\<close>), addresses, strings, files and rotating logs,
  logging with its sinks, tracing, reference counting and the flags that cancel tasks.

  \<^bold>\<open>How it is modelled.\<close>  Each component has its theory; its classes are records, its enumerations datatypes, and
  each of its operations a function that takes and returns the state.  A failed \<open>RTC_CHECK\<close> or \<open>RTC_DCHECK\<close>, an
  overflow of a signed integer and any other undefined access is the result \<open>None\<close> of a \<open>checked\<close> computation
  (\<open>TQ_Prelude\<close>); errors the code reports are values.  Machine integers are \<open>int\<close> with their ranges checked
  where the code relies on no overflow, words or explicit moduli where it wraps.  Concurrent parts are step
  relations or functions of a list of steps whose steps are what happens between two accesses to shared state:
  a critical section, an atomic operation, a system call.

  \<^bold>\<open>The theories.\<close>
  \<^item> \<open>TQ_Prelude\<close>: checked computations, signed integers, truncating division, decimal text, sorted maps.
  \<^item> \<open>Units\<close> (\<open>units/unit_base.h\<close>, \<open>api/units/*\<close>), \<open>Divide_Round\<close> (\<open>numerics/divide_round.h\<close>): units with their
    infinities; rounding, round trips of conversions, products and quotients of rates, sizes and times.
  \<^item> \<open>Event\<close> (\<open>event.cc\<close>): waiters and setters; an auto-reset event lets one waiter go per set.
  \<^item> \<open>Task_Queue_Interface\<close>: the locale \<open>task_queue\<close>, the contract of \<open>task_queue_base.h\<close>, with the lemmas about whole
    runs.  \<open>Task_Queue_Stdlib\<close> has the guarded state of \<open>TaskQueueStdlib\<close> and interprets the locale;
    \<open>Stdlib_Worker\<close> interleaves \<open>ProcessTasks\<close> with the posting threads: tasks are accounted for, no wake-up is lost,
    \<open>Delete\<close> ends.
  \<^item> \<open>Task_Queue_Libevent\<close>, \<open>Task_Queue_Win\<close>, \<open>Task_Queue_Gcd\<close>: the other queues, with the loop, the posting threads
    and the deleting thread as steps: what wakes the loop is there exactly when it is needed, and every task is
    accounted for.
  \<^item> \<open>Thread_Queue\<close>, \<open>Thread_Worker\<close>, \<open>Blocking_Call\<close>, \<open>Thread_Manager\<close> (\<open>thread.cc\<close>): the messages and \<open>Get\<close> with its
    waiting time; the loop against posting threads over any socket server (locale \<open>socket_server\<close>, interpreted on
    the server of \<open>null_socket_server.cc\<close>); calls between threads; the graph of calls stays acyclic.
  \<^item> \<open>Repeating_Task\<close> (\<open>repeating_task.cc\<close>, \<open>pending_task_safety_flag.cc\<close>, \<open>sequence_checker_internal.cc\<close>): the
    schedule of repeating tasks and their end.  \<open>Ref_Ptr\<close> (\<open>scoped_refptr.h\<close>, \<open>ref_counter.h\<close>): objects live while
    they are referenced.  \<open>Critical_Section\<close> (\<open>recursive_critical_section.cc\<close>): mutual exclusion.
  \<^item> \<open>Physical_Socket\<close>, \<open>Socket_Registry\<close>, \<open>Physical_Socket_Server\<close> (\<open>physical_socket_server.cc\<close>): sockets as state
    machines, the registry of dispatchers against the interest list of \<open>epoll\<close> under the calls that the program and
    the handlers make, the three ways to wait.
  \<^item> \<open>Flat_Tree\<close>, \<open>Flat_Map\<close> (\<open>containers/flat_tree.h\<close>, \<open>flat_map.h\<close>): sorted vectors over any strict weak order
    (locale \<open>strict_weak_order\<close>) refine finite maps; the insertion sort is stable; ranges and hints.
  \<^item> \<open>Safe_Numerics\<close>, \<open>Seq_Num\<close>, \<open>Moving_Max\<close>, \<open>Percentile_Filter\<close>, \<open>Sample_Counters\<close> (\<open>numerics\<close>): comparison and conversion
    of integers of any two types, sequence numbers, and statistics of moving windows against their mathematical
    definitions (locale \<open>percentile_rank\<close> for the rank of a percentile).
  \<^item> \<open>Byte_Order\<close>, \<open>IP_Address\<close>, \<open>Inet_Text\<close>, \<open>Socket_Address\<close>, \<open>Strings\<close>: bytes, addresses and their text (locale
    \<open>address_text\<close>, interpreted on the functions of \<open>win32.cc\<close>), coding, numbers and bounded string builders.
  \<^item> \<open>File_Wrapper\<close>, \<open>File_Rotating_Stream\<close>, \<open>Rotating_Files\<close>: files over a file system whose calls may fail and which
    buffers what is written until a flush, a seek or the end of the file, and what rotating streams keep.  \<open>Logging\<close>, \<open>Log_Registry\<close>, \<open>Log_Sinks\<close>: log statements, the linked list of sinks as a
    refinement of a plain list, and the files the lines end in.  \<open>Event_Tracer\<close>: the trace file,
    read back by the reader of JSON text in \<open>Json_Reader\<close>.
  \<^item> \<open>Clock_Time\<close>: clocks, time stamps, calendar and NTP time.  \<open>Windows_Version\<close>: releases of Windows.

  \<^bold>\<open>Hypotheses about code that is not here.\<close>  They are premises or assumptions of locales and each is the
  documented behaviour of the system: \<open>epoll_documented\<close> for \<open>epoll_ctl\<close>, \<open>level_triggered\<close> for waiting (a call
  reports at most the 128 events it has room for, and the descriptors that are ready take turns),
  \<open>answers_ok\<close> and \<open>makes_calls\<close> and \<open>handler_ok\<close> for system calls and callbacks, \<open>reliable\<close> for a file system that does not fail; a
  function that picks a least element stands for the top of \<open>std::priority_queue\<close>; a timer of libevent or Windows
  fires not before its time; a queue runs a task at most one millisecond early (\<open>early_leeway\<close>).  What the system
  answers (clocks, registry, sockets, files) is an argument or a list of answers.

  \<^bold>\<open>Loops and bounds.\<close>  No definition has fuel.  Most loops are structural or have a measure; those over the
  links of the log sinks, which need not end, are \<open>partial_function\<close>s, where not returning is \<open>None\<close>, and
  a theorem of \<open>Log_Registry\<close> says that they return for a list built by the calls of the interface; the loops
  that wait run over the list of answers the system gives, and a theorem of \<open>Physical_Socket_Server\<close> says when
  such a list is long enough for the wait to return.  The order numbers of the queues and the counts of references have their widths:
  the theorems say for how many posts or references they hold.

  \<^bold>\<open>What the model showed.\<close>  Among the theorems and lemmas are some that prove defects: adding a log sink twice
  makes the list of sinks cyclic (\<open>adding_a_sink_twice_never_returns\<close>); the first \<open>Stop\<close> of a trace does not stop it
  (\<open>Event_Tracer\<close>); the Windows queue leaves messages behind (\<open>message_left_behind\<close>) and
  can meet the message of a timer it has replaced (\<open>stale_timer_message\<close>); \<open>Get\<close> can leave a task that was posted before
  the thread quit (\<open>post_then_quit_is_not_delivered\<close>); the WinUWP clock
  goes back (\<open>counter_ns_goes_back\<close>), the Windows clock can (\<open>win_clock_race\<close>).

  \<^bold>\<open>Not modelled.\<close>  Computations in \<open>float\<close> and \<open>double\<close> (their results are arguments where they matter), since HOL has
  no verified model of the platform's floating point here; the creation, naming and priority of platform threads,
  system libraries and headers of types and macros; \<open>sigslot\<close> and \<open>base64\<close>, which are third-party code; the JSON helpers, which
  only call jsoncpp; the Windows halves of the socket server, the event and the file helpers; benchmarks and unit
  tests.  Memory orders weaker than sequential consistency are not modelled: an atomic operation is one step.
\<close>

end
